(* ===== verification/FFDB_Prelude.thy ===== *)
theory FFDB_Prelude
  imports Main "HOL-Library.Word" "HOL-Library.Monad_Syntax"
begin

text \<open>
  Shared vocabulary of the development: the machine integers of the C code, memory as a
  list of bytes, little-endian loads and stores, block copies, and the lemmas that let
  loads be computed through stores. The modelled machine is a little-endian LP64 machine
  (the byte order that \<open>_ffdb_test_endian\<close> reports is computed from this memory
  model). A C function that may abort, exit, fail an assertion, touch memory outside a
  block, or block for ever has a result of type \<open>'a option\<close>, where \<open>None\<close> is
  "does not return".
\<close>

unbundle bit_operations_syntax

named_theorems page_fields \<open>definitions of the accessors of page fields\<close>
named_theorems ffdb_consts \<open>definitions of the numeric constants of the headers\<close>

type_synonym byte = "8 word"
type_synonym u16 = "16 word"
type_synonym u32 = "32 word"
type_synonym u64 = "64 word"
type_synonym mem = "byte list"
type_synonym pgno = "32 word"

section \<open>Blocks of memory\<close>

text \<open>
  \<open>mem_get m off n\<close> are the \<open>n\<close> bytes at offset \<open>off\<close>; \<open>mem_put m off bs\<close> stores
  \<open>bs\<close> there. A store that would leave the block is not performed: in C it is undefined.
  The copies whose range the code computes at run time (\<open>memcpy\<close>, \<open>memmove\<close>,
  \<open>memset\<close>) use the checked forms \<open>mem_read\<close> and \<open>mem_write\<close>, which are
  \<open>None\<close> outside the block.
\<close>

definition mem_get :: "mem \<Rightarrow> nat \<Rightarrow> nat \<Rightarrow> mem" where
  "mem_get m off n = take n (drop off m)"

definition mem_put :: "mem \<Rightarrow> nat \<Rightarrow> mem \<Rightarrow> mem" where
  "mem_put m off bs =
     (if off + length bs \<le> length m then take off m @ bs @ drop (off + length bs) m else m)"

definition mem_read :: "mem \<Rightarrow> nat \<Rightarrow> nat \<Rightarrow> mem option" where
  "mem_read m off n = (if off + n \<le> length m then Some (mem_get m off n) else None)"

definition mem_write :: "mem \<Rightarrow> nat \<Rightarrow> mem \<Rightarrow> mem option" where
  "mem_write m off bs = (if off + length bs \<le> length m then Some (mem_put m off bs) else None)"

lemma length_mem_put [simp]: "length (mem_put m off bs) = length m"
  by (simp add: mem_put_def)

lemma length_mem_get [simp]: "off + n \<le> length m \<Longrightarrow> length (mem_get m off n) = n"
  by (simp add: mem_get_def)

lemma mem_get_put_same [simp]:
  "off + length bs \<le> length m \<Longrightarrow> n = length bs \<Longrightarrow> mem_get (mem_put m off bs) off n = bs"
  by (simp add: mem_get_def mem_put_def)

lemma mem_get_put_disjoint:
  "off' + n \<le> off \<or> off + length bs \<le> off' \<Longrightarrow>
     mem_get (mem_put m off bs) off' n = mem_get m off' n"
  by (auto simp: mem_get_def mem_put_def drop_append drop_take min_def
      take_append intro: arg_cong2 [where f = take])

lemma mem_put_put_same:
  "length bs = length cs \<Longrightarrow> mem_put (mem_put m off bs) off cs = mem_put m off cs"
  by (auto simp: mem_put_def)

lemma mem_put_get_same [simp]:
  "off + n \<le> length m \<Longrightarrow> mem_put m off (mem_get m off n) = m"
  by (auto simp: mem_put_def mem_get_def min_def simp flip: drop_drop)
     (metis add.commute append_take_drop_id drop_drop)

lemma nth_mem_put:
  "off + length bs \<le> length m \<Longrightarrow> i < length m \<Longrightarrow>
     mem_put m off bs ! i = (if off \<le> i \<and> i < off + length bs then bs ! (i - off) else m ! i)"
  by (auto simp: mem_put_def nth_append min_def)

lemma mem_put_outside: "length m < off + length bs \<Longrightarrow> mem_put m off bs = m"
  by (simp add: mem_put_def)

lemma mem_put_commute:
  assumes "off + length bs \<le> off' \<or> off' + length cs \<le> off"
  shows "mem_put (mem_put m off bs) off' cs = mem_put (mem_put m off' cs) off bs"
proof (cases "off + length bs \<le> length m \<and> off' + length cs \<le> length m")
  case True
  show ?thesis
    by (rule nth_equalityI) (use True assms in \<open>auto simp: nth_mem_put\<close>)
next
  case False
  then show ?thesis by (auto simp: mem_put_outside not_le)
qed

lemma mem_read_SomeI [simp]:
  "off + n \<le> length m \<Longrightarrow> mem_read m off n = Some (mem_get m off n)"
  by (simp add: mem_read_def)

lemma mem_read_Some_iff: "mem_read m off n = Some bs \<longleftrightarrow> off + n \<le> length m \<and> bs = mem_get m off n"
  by (auto simp: mem_read_def)

lemma mem_write_SomeI [simp]:
  "off + length bs \<le> length m \<Longrightarrow> mem_write m off bs = Some (mem_put m off bs)"
  by (simp add: mem_write_def)

lemma mem_write_Some_iff:
  "mem_write m off bs = Some m' \<longleftrightarrow> off + length bs \<le> length m \<and> m' = mem_put m off bs"
  by (auto simp: mem_write_def)

section \<open>Little-endian words in memory\<close>

definition u16_bytes :: "u16 \<Rightarrow> mem" where
  "u16_bytes w = [ucast w, ucast (drop_bit 8 w)]"

definition u32_bytes :: "u32 \<Rightarrow> mem" where
  "u32_bytes w = [ucast w, ucast (drop_bit 8 w), ucast (drop_bit 16 w), ucast (drop_bit 24 w)]"

fun bytes_u16 :: "mem \<Rightarrow> u16" where
  "bytes_u16 [a, b] = ucast a OR push_bit 8 (ucast b)"
| "bytes_u16 _ = 0"

fun bytes_u32 :: "mem \<Rightarrow> u32" where
  "bytes_u32 [a, b, c, d] =
     ucast a OR push_bit 8 (ucast b) OR push_bit 16 (ucast c) OR push_bit 24 (ucast d)"
| "bytes_u32 _ = 0"

lemma length_u16_bytes [simp]: "length (u16_bytes w) = 2"
  by (simp add: u16_bytes_def)

lemma length_u32_bytes [simp]: "length (u32_bytes w) = 4"
  by (simp add: u32_bytes_def)

lemma bytes_u16_bytes [simp]: "bytes_u16 (u16_bytes w) = w"
proof (rule bit_word_eqI)
  fix n assume "n < LENGTH(16)"
  then show "bit (bytes_u16 (u16_bytes w)) n \<longleftrightarrow> bit w n"
    by (cases "n < 8") (auto simp: u16_bytes_def bit_simps)
qed

lemma bytes_u32_bytes [simp]: "bytes_u32 (u32_bytes w) = w"
proof (rule bit_word_eqI)
  fix n assume "n < LENGTH(32)"
  then consider "n < 8" | "8 \<le> n" "n < 16" | "16 \<le> n" "n < 24" | "24 \<le> n" "n < 32"
    by force
  then show "bit (bytes_u32 (u32_bytes w)) n \<longleftrightarrow> bit w n"
    by cases (auto simp: u32_bytes_def bit_simps)
qed

lemma bit_byte_high [simp]: "8 \<le> n \<Longrightarrow> \<not> bit (b :: byte) n"
  by (auto dest: bit_imp_le_length)

lemma u16_bytes_bytes: "length bs = 2 \<Longrightarrow> u16_bytes (bytes_u16 bs) = bs"
proof -
  assume "length bs = 2"
  then obtain a b where bs: "bs = [a, b]"
    by (auto simp: length_Suc_conv numeral_2_eq_2)
  show ?thesis
    by (simp add: bs u16_bytes_def) (auto intro!: bit_word_eqI simp: bit_simps)
qed

lemma u32_bytes_bytes: "length bs = 4 \<Longrightarrow> u32_bytes (bytes_u32 bs) = bs"
proof -
  assume "length bs = 4"
  then obtain a b c d where bs: "bs = [a, b, c, d]"
    by (auto simp: length_Suc_conv eval_nat_numeral)
  show ?thesis
    by (simp add: bs u32_bytes_def) (auto intro!: bit_word_eqI simp: bit_simps)
qed

text \<open>The loads and stores that the C code writes as \<open>FIND_VALUE(P, T, F)\<close>.\<close>

definition rd16 :: "mem \<Rightarrow> nat \<Rightarrow> u16" where
  "rd16 m off = bytes_u16 (mem_get m off 2)"

definition rd32 :: "mem \<Rightarrow> nat \<Rightarrow> u32" where
  "rd32 m off = bytes_u32 (mem_get m off 4)"

definition wr16 :: "mem \<Rightarrow> nat \<Rightarrow> u16 \<Rightarrow> mem" where
  "wr16 m off w = mem_put m off (u16_bytes w)"

definition wr32 :: "mem \<Rightarrow> nat \<Rightarrow> u32 \<Rightarrow> mem" where
  "wr32 m off w = mem_put m off (u32_bytes w)"

lemma length_wr [simp]:
  "length (wr16 m off v) = length m" "length (wr32 m off w) = length m"
  by (simp_all add: wr16_def wr32_def)

lemma rd_wr_same [simp]:
  "off + 2 \<le> length m \<Longrightarrow> rd16 (wr16 m off v) off = v"
  "off + 4 \<le> length m \<Longrightarrow> rd32 (wr32 m off w) off = w"
  by (simp_all add: rd16_def wr16_def rd32_def wr32_def)

lemma rd_put_disjoint [simp]:
  "off' + 2 \<le> off \<or> off + length bs \<le> off' \<Longrightarrow> rd16 (mem_put m off bs) off' = rd16 m off'"
  "off' + 4 \<le> off \<or> off + length bs \<le> off' \<Longrightarrow> rd32 (mem_put m off bs) off' = rd32 m off'"
  by (simp_all add: rd16_def rd32_def mem_get_put_disjoint)

lemma rd_wr_disjoint [simp]:
  "off' + 2 \<le> off \<or> off + 2 \<le> off' \<Longrightarrow> rd16 (wr16 m off v) off' = rd16 m off'"
  "off' + 2 \<le> off \<or> off + 4 \<le> off' \<Longrightarrow> rd16 (wr32 m off w) off' = rd16 m off'"
  "off' + 4 \<le> off \<or> off + 2 \<le> off' \<Longrightarrow> rd32 (wr16 m off v) off' = rd32 m off'"
  "off' + 4 \<le> off \<or> off + 4 \<le> off' \<Longrightarrow> rd32 (wr32 m off w) off' = rd32 m off'"
  by (simp_all add: wr16_def wr32_def)

lemma mem_get_wr_disjoint [simp]:
  "off' + n \<le> off \<or> off + 2 \<le> off' \<Longrightarrow> mem_get (wr16 m off v) off' n = mem_get m off' n"
  "off' + n \<le> off \<or> off + 4 \<le> off' \<Longrightarrow> mem_get (wr32 m off w) off' n = mem_get m off' n"
  by (simp_all add: wr16_def wr32_def mem_get_put_disjoint)

lemma wr32_rd32 [simp]: "off + 4 \<le> length m \<Longrightarrow> wr32 m off (rd32 m off) = m"
  by (simp add: wr32_def rd32_def u32_bytes_bytes)

lemma wr16_rd16 [simp]: "off + 2 \<le> length m \<Longrightarrow> wr16 m off (rd16 m off) = m"
  by (simp add: wr16_def rd16_def u16_bytes_bytes)

lemma wr32_wr32_same [simp]: "wr32 (wr32 m off v) off w = wr32 m off w"
  by (simp add: wr32_def mem_put_put_same)

lemma wr16_wr16_same [simp]: "wr16 (wr16 m off v) off w = wr16 m off w"
  by (simp add: wr16_def mem_put_put_same)

section \<open>Byte swapping\<close>

text \<open>
  The macros \<open>M_16_SWAP\<close> and \<open>M_32_SWAP\<close> reverse the bytes of an object in memory;
  \<open>bswap16\<close> and \<open>bswap32\<close> are what they do to the value of the object.
\<close>

definition bswap16 :: "u16 \<Rightarrow> u16" where
  "bswap16 w = bytes_u16 (rev (u16_bytes w))"

definition bswap32 :: "u32 \<Rightarrow> u32" where
  "bswap32 w = bytes_u32 (rev (u32_bytes w))"

definition M_16_SWAP :: "mem \<Rightarrow> nat \<Rightarrow> mem" where
  "M_16_SWAP m off = wr16 m off (bswap16 (rd16 m off))"

definition M_32_SWAP :: "mem \<Rightarrow> nat \<Rightarrow> mem" where
  "M_32_SWAP m off = wr32 m off (bswap32 (rd32 m off))"

lemma bswap_bswap [simp]: "bswap16 (bswap16 v) = v" "bswap32 (bswap32 w) = w"
  by (simp_all add: bswap16_def bswap32_def u16_bytes_bytes u32_bytes_bytes)

lemma length_SWAP [simp]:
  "length (M_16_SWAP m off) = length m" "length (M_32_SWAP m off) = length m"
  by (simp_all add: M_16_SWAP_def M_32_SWAP_def)

lemma M_32_SWAP_reverses:
  "off + 4 \<le> length m \<Longrightarrow> mem_get (M_32_SWAP m off) off 4 = rev (mem_get m off 4)"
  by (simp add: M_32_SWAP_def wr32_def bswap32_def rd32_def u32_bytes_bytes)

lemma rd32_SWAP_same [simp]:
  "off + 4 \<le> length m \<Longrightarrow> rd32 (M_32_SWAP m off) off = bswap32 (rd32 m off)"
  "off + 2 \<le> length m \<Longrightarrow> rd16 (M_16_SWAP m off) off = bswap16 (rd16 m off)"
  by (simp_all add: M_32_SWAP_def M_16_SWAP_def)

lemma rd_SWAP_disjoint [simp]:
  "off' + 4 \<le> off \<or> off + 4 \<le> off' \<Longrightarrow> rd32 (M_32_SWAP m off) off' = rd32 m off'"
  "off' + 2 \<le> off \<or> off + 4 \<le> off' \<Longrightarrow> rd16 (M_32_SWAP m off) off' = rd16 m off'"
  "off' + 4 \<le> off \<or> off + 2 \<le> off' \<Longrightarrow> rd32 (M_16_SWAP m off) off' = rd32 m off'"
  "off' + 2 \<le> off \<or> off + 2 \<le> off' \<Longrightarrow> rd16 (M_16_SWAP m off) off' = rd16 m off'"
  by (simp_all add: M_32_SWAP_def M_16_SWAP_def)

lemma SWAP_involutive [simp]:
  "off + 4 \<le> length m \<Longrightarrow> M_32_SWAP (M_32_SWAP m off) off = m"
  "off + 2 \<le> length m \<Longrightarrow> M_16_SWAP (M_16_SWAP m off) off = m"
  by (simp_all add: M_32_SWAP_def M_16_SWAP_def)

section \<open>Words and naturals\<close>

lemma unat_exp32: "k \<le> 31 \<Longrightarrow> unat (2 ^ k :: u32) = 2 ^ k"
proof -
  assume "k \<le> 31"
  then have "(2::nat) ^ k < 2 ^ 32" by (intro power_strict_increasing) auto
  then have "unat (of_nat (2 ^ k) :: u32) = 2 ^ k" by (simp only: unsigned_of_nat of_nat_id) (rule take_bit_nat_eq_self, simp)
  then show ?thesis by simp
qed

lemma sint_word_of_int_small:
  "\<bar>x\<bar> < 2 ^ 31 \<Longrightarrow> sint (word_of_int x :: u32) = x"
  by (simp add: signed_of_int signed_take_bit_int_eq_self)

end
