(* ===== verification/FFDB_HashFunc.thy ===== *)
theory FFDB_HashFunc
  imports FFDB_Prelude
begin

text \<open>
  The functions of \<open>filehash/ffdb_hash_func.c\<close>: the key hash functions, the integer
  logarithm, the default key comparison and the CRC-32 checksum. A key is the memory it
  lies in and its length; the reference definitions (\<open>foldl\<close> over the bytes, the bit-serial
  CRC) are what the unrolled and table-driven routines are proved equal to.
\<close>

section \<open>Key and data pairs\<close>

record dbt =
  dt_data :: mem
  dt_size :: nat

section \<open>Hash functions\<close>

definition DCHARHASH :: "u32 \<Rightarrow> byte \<Rightarrow> u32" where
  "DCHARHASH h c = 0x63c63cd9 * h + 0x9c39c33d + ucast c"

text \<open>
  The loop of \<open>__ham_func2\<close> over the bytes from \<open>k\<close> to \<open>e\<close>. After \<open>*k++\<close>, the
  distance \<open>e - k\<close> is the length of the rest, so the guard \<open>k > e\<close> is that this is
  negative.
\<close>

fun ham_func2_loop :: "u32 \<Rightarrow> mem \<Rightarrow> u32" where
  "ham_func2_loop h [] = h"
| "ham_func2_loop h (c # k) =
     (if c = 0 \<and> int (length k) < 0 then h else ham_func2_loop (DCHARHASH h c) k)"

definition ham_func2 :: "mem \<Rightarrow> u32 \<Rightarrow> u32" where
  "ham_func2 key len = ham_func2_loop 0 (take (unat len) key)"

text \<open>
  \<open>__ham_func3\<close> and \<open>__ham_func4\<close> are Duff's devices: the \<open>switch\<close> jumps into the
  middle of a \<open>do\<close> loop of eight steps. \<open>duff_steps\<close> is a run of \<open>m\<close> steps (a read
  past the end of the key is \<open>None\<close>) and \<open>duff_loop\<close> the \<open>do ... while (--loop)\<close>.
\<close>

fun duff_steps :: "(u32 \<Rightarrow> byte \<Rightarrow> u32) \<Rightarrow> nat \<Rightarrow> mem \<Rightarrow> u32 \<Rightarrow> (mem \<times> u32) option" where
  "duff_steps step 0 k n = Some (k, n)"
| "duff_steps step (Suc m) [] n = None"
| "duff_steps step (Suc m) (c # k) n = duff_steps step m k (step n c)"

lemma unat_minus_1_less: "x \<noteq> 0 \<Longrightarrow> unat (x - 1) < unat (x :: 'a::len word)"
  by (metis unat_minus_one unat_gt_0 diff_less zero_less_one)

function duff_loop :: "(u32 \<Rightarrow> byte \<Rightarrow> u32) \<Rightarrow> u32 \<Rightarrow> nat \<Rightarrow> mem \<Rightarrow> u32 \<Rightarrow> u32 option" where
  "duff_loop step loop m k n = do {
     (k', n') \<leftarrow> duff_steps step m k n;
     if loop - 1 = 0 then Some n' else duff_loop step (loop - 1) 8 k' n'
   }"
  by pat_completeness auto
termination
  by (relation "measure (\<lambda>(step, loop, m, k, n). unat (loop - 1))")
     (auto intro: unat_minus_1_less [of "loop - 1" for loop, simplified])

declare duff_loop.simps [simp del]

definition duff :: "(u32 \<Rightarrow> byte \<Rightarrow> u32) \<Rightarrow> mem \<Rightarrow> u32 \<Rightarrow> u32 option" where
  "duff step key len =
     (if len = 0 then Some 0
      else let loop = drop_bit 3 (len + 8 - 1);
               entry = (if len AND (8 - 1) = 0 then 8 else unat (len AND (8 - 1)))
           in duff_loop step loop entry key 0)"

definition HASHC :: "u32 \<Rightarrow> byte \<Rightarrow> u32" where
  "HASHC n c = ucast c + 65599 * n"

definition HASH4 :: "u32 \<Rightarrow> byte \<Rightarrow> u32" where
  "HASH4 h c = push_bit 5 h + h + ucast c"

definition ham_func3 :: "mem \<Rightarrow> u32 \<Rightarrow> u32 option" where
  "ham_func3 key len = duff HASHC key len"

definition ham_func4 :: "mem \<Rightarrow> u32 \<Rightarrow> u32 option" where
  "ham_func4 key len = duff HASH4 key len"

fun ham_func5_loop :: "u32 \<Rightarrow> mem \<Rightarrow> u32" where
  "ham_func5_loop h [] = h"
| "ham_func5_loop h (c # k) = ham_func5_loop ((h * 16777619) XOR ucast c) k"

definition ham_func5 :: "mem \<Rightarrow> u32 \<Rightarrow> u32" where
  "ham_func5 key len = ham_func5_loop 0 (take (unat len) key)"

text \<open>\<open>char\<close> is signed: the first byte is sign-extended.\<close>

definition ham_test :: "mem \<Rightarrow> u32 \<Rightarrow> u32 option" where
  "ham_test key len = (case key of [] \<Rightarrow> None | c # _ \<Rightarrow> Some (scast c))"

section \<open>Integer logarithm\<close>

text \<open>
  \<open>limit\<close> is a 32-bit word: once shifted past bit 31 it stays 0 and the loop of
  \<open>__ffdb_log2\<close> does not end, which is the value \<open>None\<close>.
\<close>

partial_function (option) log2_loop :: "u32 \<Rightarrow> u32 \<Rightarrow> u32 \<Rightarrow> u32 option" where
  "log2_loop num limit i =
     (if limit < num then log2_loop num (push_bit 1 limit) (i + 1) else Some i)"

definition ffdb_log2 :: "u32 \<Rightarrow> u32 option" where
  "ffdb_log2 num = log2_loop num 1 0"

section \<open>Default key comparison\<close>

fun defcmp_loop :: "nat \<Rightarrow> mem \<Rightarrow> mem \<Rightarrow> int option" where
  "defcmp_loop (Suc len) (x # p1) (y # p2) =
     (if x \<noteq> y then Some (uint x - uint y) else defcmp_loop len p1 p2)"
| "defcmp_loop _ _ _ = None"

text \<open>The result has type \<open>int\<close>: the difference of the sizes is cut to 32 bits.\<close>

definition ham_defcmp :: "dbt \<Rightarrow> dbt \<Rightarrow> int" where
  "ham_defcmp a b =
     (let len = (if dt_size a > dt_size b then dt_size b else dt_size a)
      in case defcmp_loop len (dt_data a) (dt_data b) of
           Some d \<Rightarrow> d
         | None \<Rightarrow> sint (word_of_int (int (dt_size a) - int (dt_size b)) :: u32))"

section \<open>CRC-32\<close>

definition CRC32POLY :: u32 where
  "CRC32POLY = 0xedb88320"

text \<open>The loops of \<open>__ffdb_crc32_init\<close>: \<open>crc_fill\<close> is the inner one, over \<open>j\<close>.\<close>

function crc_fill :: "nat \<Rightarrow> u32 \<Rightarrow> nat \<Rightarrow> u32 list \<Rightarrow> u32 list" where
  "crc_fill i h j tab =
     (if 0 < i \<and> j < 256 then crc_fill i h (j + 2 * i) (tab[i + j := tab ! j XOR h]) else tab)"
  by pat_completeness auto
termination by (relation "measure (\<lambda>(i, h, j, tab). 256 - j)") auto

function crc_rows :: "nat \<Rightarrow> u32 \<Rightarrow> u32 list \<Rightarrow> u32 list" where
  "crc_rows i h tab =
     (if i = 0 then tab
      else let h' = drop_bit 1 h XOR (if h AND 1 \<noteq> 0 then CRC32POLY else 0)
           in crc_rows (i div 2) h' (crc_fill i h' 0 tab))"
  by pat_completeness auto
termination by (relation "measure (\<lambda>(i, h, tab). i)") auto

declare crc_fill.simps [simp del] crc_rows.simps [simp del]

definition ffdb_crc32_init :: "u32 list \<times> bool \<Rightarrow> u32 list \<times> bool" where
  "ffdb_crc32_init s =
     (case s of (tab, inited) \<Rightarrow>
        if \<not> inited then (crc_rows 128 1 (tab[0 := 0]), True) else (tab, inited))"

definition crc_table :: "u32 list" where
  "crc_table = fst (ffdb_crc32_init (replicate 256 0, False))"

fun crc_loop :: "u32 \<Rightarrow> mem \<Rightarrow> u32" where
  "crc_loop crc [] = crc"
| "crc_loop crc (b # buf) =
     crc_loop (drop_bit 8 crc XOR crc_table ! unat ((crc XOR ucast b) AND 0xff)) buf"

definition ffdb_crc32_checksum :: "u32 \<Rightarrow> mem \<Rightarrow> u32" where
  "ffdb_crc32_checksum crc buf = crc_loop (crc XOR 0xffffffff) buf XOR 0xffffffff"

section \<open>CRC-32: the table is the bit-serial algorithm\<close>

text \<open>
  The reference: eight steps of the shift register per byte. \<open>crc_bit\<close> is linear over
  exclusive or, which is why one row of the table gives the others.
\<close>

definition crc_bit :: "u32 \<Rightarrow> u32" where
  "crc_bit c = drop_bit 1 c XOR (if c AND 1 \<noteq> 0 then CRC32POLY else 0)"

definition crc8 :: "u32 \<Rightarrow> u32" where
  "crc8 c = (crc_bit ^^ 8) c"

lemma and_1_bit0: "(c :: u32) AND 1 \<noteq> 0 \<longleftrightarrow> bit c 0"
  by (simp add: and_one_eq bit_0 odd_iff_mod_2_eq_one)

lemma crc_bit_xor: "crc_bit (x XOR y) = crc_bit x XOR crc_bit y"
  unfolding crc_bit_def and_1_bit0
  by (cases "bit x 0"; cases "bit y 0")
     (auto simp: bit_xor_iff intro!: bit_word_eqI simp: bit_simps)

lemma crc_bit_pow_xor: "(crc_bit ^^ k) (x XOR y) = (crc_bit ^^ k) x XOR (crc_bit ^^ k) y"
  by (induction k) (simp_all add: crc_bit_xor)

lemma crc8_xor: "crc8 (x XOR y) = crc8 x XOR crc8 y"
  by (simp only: crc8_def crc_bit_pow_xor)

lemma crc_bit_high: "k \<le> 8 \<Longrightarrow> (crc_bit ^^ k) (x AND NOT 0xff) = drop_bit k (x AND NOT 0xff)"
proof (induction k)
  case 0 then show ?case by simp
next
  case (Suc k)
  have m: "(0xff :: u32) = mask 8" by (simp add: mask_eq_exp_minus_1)
  have "\<not> bit (drop_bit k (x AND NOT 0xff)) 0"
    using Suc.prems unfolding m by (auto simp: bit_simps)
  with Suc show ?case
    by (simp add: crc_bit_def and_1_bit0)
qed

lemma crc8_split: "crc8 x = drop_bit 8 x XOR crc8 (x AND 0xff)"
proof -
  have m: "(0xff :: u32) = mask 8" by (simp add: mask_eq_exp_minus_1)
  have "x = (x AND NOT 0xff) XOR (x AND 0xff)"
    by (rule bit_word_eqI) (auto simp: bit_simps)
  then have "crc8 x = crc8 (x AND NOT 0xff) XOR crc8 (x AND 0xff)"
    by (metis crc8_xor)
  also have "crc8 (x AND NOT 0xff) = drop_bit 8 (x AND NOT 0xff)"
    by (simp only: crc8_def crc_bit_high order_refl)
  also have "drop_bit 8 (x AND NOT 0xff) = drop_bit 8 x"
    unfolding m by (rule bit_word_eqI) (auto simp: bit_simps dest: bit_imp_le_length)
  finally show ?thesis .
qed

lemma crc8_add:
  assumes "2 * 2 ^ m dvd j"
  shows "crc8 (of_nat (2 ^ m + j)) = crc8 (of_nat j) XOR crc8 (of_nat (2 ^ m))"
proof -
  from assms obtain q where j: "j = 2 ^ Suc m * q" by auto
  have "(of_nat j :: u32) = push_bit (Suc m) (of_nat q)"
    by (simp add: j push_bit_eq_mult)
  then have j': "bit (of_nat j :: u32) n \<Longrightarrow> m < n" for n
    by (simp only: bit_push_bit_iff Suc_le_eq)
  have i': "bit (2 ^ m :: u32) n \<Longrightarrow> n = m" for n
    by (simp add: bit_exp_iff)
  have "(of_nat (2 ^ m + j) :: u32) = 2 ^ m + of_nat j" by simp
  also have "\<dots> = 2 ^ m OR of_nat j"
    by (rule disjunctive_add) (use i' j' in blast)
  also have "\<dots> = of_nat j XOR of_nat (2 ^ m)"
    using i' j' by (intro bit_word_eqI) (auto simp: bit_or_iff bit_xor_iff simp del: bit_exp_iff)
  finally show ?thesis by (simp only: crc8_xor)
qed

definition crc_rows_ok :: "nat \<Rightarrow> u32 list \<Rightarrow> bool" where
  "crc_rows_ok i tab \<longleftrightarrow> length tab = 256 \<and> (\<forall>n < 256. i dvd n \<longrightarrow> tab ! n = crc8 (of_nat n))"

lemma crc_fill_ok:
  assumes "i = 2 ^ m" "h = crc8 (of_nat i)" "crc_rows_ok (2 * i) tab" "2 * i dvd j"
    "\<forall>n < 256. n < j \<and> i dvd n \<longrightarrow> tab ! n = crc8 (of_nat n)" "2 * i \<le> 256"
  shows "crc_rows_ok i (crc_fill i h j tab)"
  using assms
proof (induction i h j tab rule: crc_fill.induct)
  case (1 i h j tab)
  show ?case
  proof (cases "j < 256")
    case True
    have ipos: "0 < i" using "1.prems"(1) by simp
    let ?tab' = "tab[i + j := tab ! j XOR h]"
    have "(2::nat) ^ Suc m \<le> 2 ^ 8" using "1.prems"(1,6) by simp
    then have "Suc m \<le> 8" by (rule power_le_imp_le_exp [rotated]) simp
    then have "2 * i dvd 256"
      using "1.prems"(1) le_imp_power_dvd [of "Suc m" 8 "2::nat"] by simp
    then obtain a q where aq: "256 = 2 * i * a" "j = 2 * i * q"
      using "1.prems"(4) by (meson dvdE)
    then have "2 * i * q < 2 * i * a" using True by (simp only:)
    then have "Suc q \<le> a" by simp
    then have "2 * i * Suc q \<le> 2 * i * a" by (rule mult_le_mono2)
    then have "2 * i * q + 2 * i \<le> 256"
      using aq(1) by (simp only: mult_Suc_right add.commute)
    then have ij: "i + j < 256" using aq(2) ipos by linarith
    have new: "tab ! j XOR h = crc8 (of_nat (i + j))"
      using "1.prems" True crc8_add [of m j] by (simp add: crc_rows_ok_def)
    have nd: "\<not> 2 * i dvd i + j"
      using "1.prems"(4) ipos by (metis dvd_add_left_iff nat_dvd_not_less  less_add_same_cancel1 mult_2)
    have a: "crc_rows_ok (2 * i) ?tab'"
      using "1.prems"(3) nd ij by (auto simp: crc_rows_ok_def nth_list_update)
    have b: "\<forall>n < 256. n < j + 2 * i \<and> i dvd n \<longrightarrow> ?tab' ! n = crc8 (of_nat n)"
    proof (intro allI impI)
      fix n assume n: "n < 256" "n < j + 2 * i \<and> i dvd n"
      from "1.prems"(4) obtain q where q: "j = 2 * i * q" by auto
      from n obtain r where r: "n = i * r" by auto
      have "n < j \<or> n = j \<or> n = i + j"
      proof -
        have "i * r < i * (2 * q + 2)" using n q r by (simp add: algebra_simps)
        then have "r < 2 * q + 2" by (simp only: mult_less_cancel1)
        then have "r < 2 * q \<or> r = 2 * q \<or> r = 2 * q + 1" by linarith
        then show ?thesis using q r ipos by (auto simp: algebra_simps)
      qed
      then show "?tab' ! n = crc8 (of_nat n)"
        using n "1.prems"(3,4,5) new True ij by (auto simp: crc_rows_ok_def nth_list_update)
    qed
    show ?thesis
      using "1.IH" True ipos a b "1.prems" by (subst crc_fill.simps) simp
  next
    case False
    then show ?thesis
      using "1.prems" by (subst crc_fill.simps) (auto simp: crc_rows_ok_def)
  qed
qed

lemma crc_rows_step:
  assumes "crc_rows_ok (2 * 2 ^ m) tab" "m < 8" "crc_bit h = crc8 (2 ^ m)"
  shows "\<exists>tab'. crc_rows (2 ^ m) h tab = crc_rows (2 ^ m div 2) (crc8 (2 ^ m)) tab' \<and> crc_rows_ok (2 ^ m) tab'"
proof -
  have "(2::nat) ^ Suc m \<le> 2 ^ 8" using assms(2) by (intro power_increasing) auto
  then have "crc_rows_ok (2 ^ m) (crc_fill (2 ^ m) (crc8 (2 ^ m)) 0 tab)"
    using assms by (intro crc_fill_ok) auto
  moreover have "crc_rows (2 ^ m) h tab =
      crc_rows (2 ^ m div 2) (crc8 (2 ^ m)) (crc_fill (2 ^ m) (crc8 (2 ^ m)) 0 tab)"
    using assms(3) by (subst crc_rows.simps) (simp add: crc_bit_def Let_def)
  ultimately show ?thesis by blast
qed

lemma crc_bit_exp: "Suc a < 32 \<Longrightarrow> crc_bit (2 ^ Suc a) = 2 ^ a"
proof -
  assume a: "Suc a < 32"
  have "\<not> bit (2 ^ Suc a :: u32) 0" by (simp add: bit_exp_iff del: power_Suc)
  moreover have "drop_bit 1 (2 ^ Suc a :: u32) = 2 ^ a"
    using a by (intro bit_word_eqI) (auto simp: bit_simps simp del: power_Suc)
  ultimately show ?thesis by (simp only: crc_bit_def and_1_bit0 if_False xor.right_neutral)
qed

lemma crc_bit_pow_exp: "k \<le> m \<Longrightarrow> m < 32 \<Longrightarrow> (crc_bit ^^ k) (2 ^ m) = 2 ^ (m - k)"
proof (induction k)
  case (Suc k)
  then have "m - k = Suc (m - Suc k)" "Suc (m - Suc k) < 32" by auto
  with Suc show ?case by (simp add: crc_bit_exp del: power_Suc)
qed simp

lemma crc8_exp: "m \<le> 8 \<Longrightarrow> crc8 (2 ^ m) = (crc_bit ^^ (8 - m)) 1"
proof -
  assume m: "m \<le> 8"
  then have "crc8 (2 ^ m) = (crc_bit ^^ ((8 - m) + m)) (2 ^ m)" by (simp add: crc8_def)
  also have "\<dots> = (crc_bit ^^ (8 - m)) ((crc_bit ^^ m) (2 ^ m))"
    by (simp only: funpow_add o_apply)
  finally show ?thesis using m by (simp add: crc_bit_pow_exp)
qed

lemma crc8_powers: "m < 8 \<Longrightarrow> crc_bit (if m = 7 then 1 else crc8 (2 ^ Suc m)) = crc8 (2 ^ m)"
proof -
  assume m: "m < 8"
  then have "8 - m = Suc (8 - Suc m)" by simp
  with m show ?thesis
    using crc8_exp [of 7] by (cases "m = 7") (simp_all add: crc8_exp del: power_Suc)
qed

lemma crc_rows_all:
  "m < 8 \<Longrightarrow> crc_rows_ok (2 * 2 ^ m) tab \<Longrightarrow>
    crc_rows_ok 1 (crc_rows (2 ^ m) (if m = 7 then 1 else crc8 (2 ^ Suc m)) tab)"
proof (induction m arbitrary: tab)
  case 0
  then obtain tab' where
    "crc_rows (2 ^ 0) (crc8 (2 ^ Suc 0)) tab = crc_rows (2 ^ 0 div 2) (crc8 (2 ^ 0)) tab'"
    "crc_rows_ok (2 ^ 0) tab'"
    using crc_rows_step [of 0 tab] crc8_powers [of 0] by fastforce
  then show ?case by (simp add: crc_rows.simps [of 0])
next
  case (Suc m)
  then obtain tab' where t:
    "crc_rows (2 ^ Suc m) (if Suc m = 7 then 1 else crc8 (2 ^ Suc (Suc m))) tab =
       crc_rows (2 ^ Suc m div 2) (crc8 (2 ^ Suc m)) tab'"
    "crc_rows_ok (2 ^ Suc m) tab'"
    using crc_rows_step [of "Suc m" tab] crc8_powers [of "Suc m"] by metis
  have "m \<noteq> 7" using Suc.prems by simp
  then show ?case using Suc.IH [of tab'] Suc.prems t by simp
qed

lemma crc_table_nth: "n < 256 \<Longrightarrow> crc_table ! n = crc8 (of_nat n)"
proof -
  assume n: "n < 256"
  have "(crc_bit ^^ k) 0 = 0" for k by (induction k) (simp_all add: crc_bit_def)
  then have z: "crc8 0 = 0" by (simp add: crc8_def)
  have "crc_rows_ok (2 * 2 ^ 7) ((replicate 256 0)[0 := 0])"
    by (auto simp: crc_rows_ok_def z dest: dvd_imp_le)
  then have "crc_rows_ok 1 (crc_rows (2 ^ 7) 1 ((replicate 256 0)[0 := 0]))"
    using crc_rows_all [of 7] by simp
  then show ?thesis using n by (simp add: crc_table_def ffdb_crc32_init_def crc_rows_ok_def)
qed

definition crc_bitserial :: "u32 \<Rightarrow> mem \<Rightarrow> u32" where
  "crc_bitserial crc buf = NOT (foldl (\<lambda>c b. crc8 (c XOR ucast b)) (NOT crc) buf)"

lemma xor_ffffffff: "c XOR 0xffffffff = NOT (c :: u32)"
proof -
  have "(0xffffffff :: u32) = - 1" by simp
  then show ?thesis by (simp only:) (rule bit_word_eqI, auto simp: bit_simps)
qed

lemma crc_step: "drop_bit 8 crc XOR crc_table ! unat ((crc XOR ucast b) AND 0xff) = crc8 (crc XOR ucast b)"
  for b :: byte
proof -
  have "(crc XOR ucast b) AND 0xff \<le> (0xff :: u32)" by (rule word_and_le1)
  then have "unat ((crc XOR ucast b) AND 0xff) < 256" by (simp add: word_le_nat_alt)
  moreover have "drop_bit 8 (crc XOR ucast b) = drop_bit 8 crc"
    by (rule bit_word_eqI) (auto simp: bit_simps)
  ultimately show ?thesis
    by (subst crc8_split) (simp add: crc_table_nth)
qed

lemma crc_loop_ref: "crc_loop crc buf = foldl (\<lambda>c b. crc8 (c XOR ucast b)) crc buf"
  by (induction crc buf rule: crc_loop.induct) (simp_all add: crc_step)

text \<open>C21: The table-driven checksum \<open>__ffdb_crc32_checksum\<close>, run with the table that
  \<open>__ffdb_crc32_init\<close> builds, is the bit-serial CRC-32 with the reflected polynomial
  \<open>0xedb88320\<close>, for every start value and every buffer.\<close>
theorem crc32_is_bitserial: "ffdb_crc32_checksum crc buf = crc_bitserial crc buf"
  by (simp add: ffdb_crc32_checksum_def crc_bitserial_def xor_ffffffff crc_loop_ref)

lemma crc_loop_append: "crc_loop crc (xs @ ys) = crc_loop (crc_loop crc xs) ys"
  by (simp add: crc_loop_ref)

lemma crc32_append:
  "ffdb_crc32_checksum crc (xs @ ys) = ffdb_crc32_checksum (ffdb_crc32_checksum crc xs) ys"
  by (simp add: ffdb_crc32_checksum_def crc_loop_append xor_ffffffff)

text \<open>
  The checksum is injective in its start value, and in each single byte of the buffer: no
  change of one byte goes undetected.
\<close>

lemma xor_right_cancel: "x XOR a = y XOR a \<Longrightarrow> x = (y :: 'a::len word)"
  by (drule arg_cong [where f = "\<lambda>z. z XOR a"]) (simp add: xor.assoc)

lemma xor_left_cancel: "a XOR x = a XOR y \<Longrightarrow> x = (y :: 'a::len word)"
  by (rule xor_right_cancel [of _ a]) (simp add: xor.commute)

lemma crc_bit_eq_0: "crc_bit z = 0 \<Longrightarrow> z = 0"
proof -
  assume z: "crc_bit z = 0"
  have "bit (crc_bit z) 31 \<longleftrightarrow> bit z 0"
    by (auto simp: crc_bit_def and_1_bit0 bit_simps CRC32POLY_def dest: bit_imp_le_length)
  then have z0: "\<not> bit z 0" using z by simp
  then have d: "drop_bit 1 z = 0" using z by (simp add: crc_bit_def and_1_bit0)
  show "z = 0"
  proof (rule bit_word_eqI)
    fix n
    have "bit (drop_bit 1 z) (n - 1) = bit (0 :: u32) (n - 1)" by (simp only: d)
    then show "bit z n = bit 0 n" using z0 by (cases n) (simp_all add: bit_simps)
  qed
qed

lemma crc8_inj: "crc8 x = crc8 y \<Longrightarrow> x = y"
proof -
  have p: "(crc_bit ^^ k) z = 0 \<Longrightarrow> z = 0" for k z
    by (induction k) (auto dest: crc_bit_eq_0)
  assume "crc8 x = crc8 y"
  then have "crc8 (x XOR y) = 0" by (simp add: crc8_xor)
  then have "x XOR y = y XOR y" unfolding crc8_def by (simp add: p)
  then show "x = y" by (rule xor_right_cancel)
qed

lemma crc_loop_Cons: "crc_loop c (b # buf) = crc_loop (crc8 (c XOR ucast b)) buf"
  by (simp add: crc_loop_ref)

lemma crc_loop_inj: "crc_loop c buf = crc_loop d buf \<Longrightarrow> c = d"
proof (induction buf arbitrary: c d)
  case (Cons b buf)
  from Cons.prems have "crc8 (c XOR ucast b) = crc8 (d XOR ucast b)"
    unfolding crc_loop_Cons by (rule Cons.IH)
  then show ?case by (rule xor_right_cancel [OF crc8_inj])
qed (simp add: crc_loop_ref)

lemma crc_loop_one_byte: "crc_loop c (xs @ b # ys) = crc_loop c (xs @ b' # ys) \<Longrightarrow> b = b'"
proof -
  assume "crc_loop c (xs @ b # ys) = crc_loop c (xs @ b' # ys)"
  then have "crc8 (crc_loop c xs XOR ucast b) = crc8 (crc_loop c xs XOR ucast b')"
    unfolding crc_loop_append crc_loop_Cons by (rule crc_loop_inj)
  then have "(ucast b :: u32) = ucast b'" by (rule xor_left_cancel [OF crc8_inj])
  then have eq: "bit (ucast b :: u32) n = bit (ucast b' :: u32) n" for n by simp
  show "b = b'"
  proof (rule bit_word_eqI)
    fix n assume "n < LENGTH(8)"
    then show "bit b n = bit b' n" using eq [of n] by (simp add: bit_simps)
  qed
qed

lemma crc32_inj: "ffdb_crc32_checksum c buf = ffdb_crc32_checksum d buf \<Longrightarrow> c = d"
  unfolding ffdb_crc32_checksum_def
  by (rule xor_right_cancel [OF crc_loop_inj [OF xor_right_cancel]])

lemma crc32_one_byte:
  assumes "i < length buf" "buf ! i \<noteq> b"
  shows "ffdb_crc32_checksum c (buf[i := b]) \<noteq> ffdb_crc32_checksum c buf"
proof
  assume "ffdb_crc32_checksum c (buf[i := b]) = ffdb_crc32_checksum c buf"
  then have "crc_loop (c XOR 0xffffffff) (buf[i := b]) = crc_loop (c XOR 0xffffffff) buf"
    unfolding ffdb_crc32_checksum_def by (rule xor_right_cancel)
  then have "crc_loop (c XOR 0xffffffff) (take i buf @ b # drop (Suc i) buf)
      = crc_loop (c XOR 0xffffffff) (take i buf @ buf ! i # drop (Suc i) buf)"
    using assms(1) by (simp add: upd_conv_take_nth_drop id_take_nth_drop [symmetric])
  then show False using assms(2) crc_loop_one_byte by blast
qed
section \<open>The unrolled hash functions\<close>

lemma duff_steps_foldl:
  "m \<le> length k \<Longrightarrow> duff_steps step m k n = Some (drop m k, foldl step n (take m k))"
  by (induction step m k n rule: duff_steps.induct) auto

lemma duff_steps_short: "length k < m \<Longrightarrow> duff_steps step m k n = None"
  by (induction step m k n rule: duff_steps.induct) auto

lemma duff_loop_foldl:
  "loop \<noteq> 0 \<Longrightarrow> m + 8 * (unat loop - 1) \<le> length k \<Longrightarrow>
     duff_loop step loop m k n = Some (foldl step n (take (m + 8 * (unat loop - 1)) k))"
proof (induction step loop m k n rule: duff_loop.induct)
  case (1 step loop m k n)
  from "1.prems"(2) have m: "m \<le> length k" by simp
  show ?case
  proof (cases "loop - 1 = 0")
    case True
    then have "loop = 1" by simp
    with m show ?thesis by (subst duff_loop.simps) (simp add: duff_steps_foldl)
  next
    case False
    have u: "unat loop - 1 = unat (loop - 1)" using "1.prems"(1) by (simp add: unat_minus_one)
    have u1: "Suc (unat (loop - 1) - 1) = unat (loop - 1)" using False by (metis Suc_diff_1 unat_gt_0)
    have e: "8 + 8 * (unat (loop - 1) - 1) = 8 * unat (loop - 1)" using u1 by presburger
    have "8 + 8 * (unat (loop - 1) - 1) \<le> length (drop m k)"
      using "1.prems"(2) u e by simp
    then have "duff_loop step (loop - 1) 8 (drop m k) (foldl step n (take m k)) =
        Some (foldl step (foldl step n (take m k)) (take (8 * unat (loop - 1)) (drop m k)))"
      using "1.IH" [OF duff_steps_foldl [OF m] refl False False] e by (simp only:)
    then show ?thesis
      using False m u
      by (subst duff_loop.simps) (simp add: duff_steps_foldl take_add)
  qed
qed

lemma duff_foldl:
  assumes "unat len \<le> length key" "unat len < 2 ^ 32 - 7"
  shows "duff step key len = Some (foldl step 0 (take (unat len) key))"
proof (cases "len = 0")
  case True
  then show ?thesis by (simp add: duff_def)
next
  case False
  let ?n = "unat len"
  have l7: "len + 8 - 1 = len + 7" by simp
  have u7: "unat (len + 7) = ?n + 7" using assms(2) by (simp add: unat_word_ariths)
  have loop: "unat (drop_bit 3 (len + 8 - 1)) = (?n + 7) div 8"
    by (simp only: l7) (simp add: drop_bit_eq_div unat_div u7)
  have "(8 - 1 :: u32) = mask 3" by (simp add: mask_eq_exp_minus_1)
  then have a: "unat (len AND (8 - 1)) = ?n mod 8"
    by (simp only: take_bit_eq_mask [symmetric] unsigned_take_bit_eq) (simp add: take_bit_eq_mod)
  let ?m = "if len AND (8 - 1) = 0 then 8 else unat (len AND (8 - 1))"
  have m: "?m = (if ?n mod 8 = 0 then 8 else ?n mod 8)"
    using a by (metis unat_eq_zero)
  have n: "0 < ?n" using False by (simp add: unat_gt_0)
  have total: "?m + 8 * (unat (drop_bit 3 (len + 8 - 1)) - 1) = ?n"
  proof (cases "?n mod 8 = 0")
    case True
    then obtain q where q: "?n = 8 * q" by auto
    then show ?thesis unfolding m loop using n by simp
  next
    case False
    define q r where "q = ?n div 8" and "r = ?n mod 8"
    have q: "?n = 8 * q + r" and r: "0 < r" "r < 8"
      using False by (simp_all add: q_def r_def)
    have "(8 * q + r + 7) div 8 = q + (r + 7) div 8" by simp
    moreover have "(r + 7) div 8 = 1" using r by presburger
    ultimately show ?thesis unfolding m loop q using r by simp
  qed
  have "drop_bit 3 (len + 8 - 1) \<noteq> 0"
  proof
    assume "drop_bit 3 (len + 8 - 1) = 0"
    then have "(?n + 7) div 8 = 0" using loop by simp
    with n show False by simp
  qed
  from duff_loop_foldl [OF this, of ?m key step 0]
  have "duff_loop step (drop_bit 3 (len + 8 - 1)) ?m key 0 = Some (foldl step 0 (take ?n key))"
    unfolding total using assms(1) by blast
  with False show ?thesis by (simp only: duff_def Let_def if_False)
qed

section \<open>The logarithm\<close>

lemma unat_le_imp_exp: "unat num \<le> 2 ^ 31 \<Longrightarrow> k \<le> 31 \<Longrightarrow> (2 ^ k :: u32) < num \<longleftrightarrow> 2 ^ k < unat num"
proof -
  assume k: "k \<le> 31"
  then show ?thesis by (simp add: word_less_nat_alt unat_exp32)
qed

lemma log2_loop_finds:
  "k \<le> 31 \<Longrightarrow> unat num \<le> 2 ^ 31 \<Longrightarrow>
    \<exists>i \<ge> k. i \<le> 31 \<and> log2_loop num (2 ^ k) (of_nat k) = Some (of_nat i) \<and> unat num \<le> 2 ^ i \<and>
       (\<forall>j. k \<le> j \<and> j < i \<longrightarrow> 2 ^ j < unat num)"
proof (induction "31 - k" arbitrary: k)
  case 0
  then have "k = 31" by simp
  then show ?case
    using 0 unat_le_imp_exp [of num 31] by (intro exI [of _ 31]) (simp add: log2_loop.simps)
next
  case (Suc d)
  show ?case
  proof (cases "2 ^ k < unat num")
    case True
    then have lt: "(2 ^ k :: u32) < num" using Suc.prems unat_le_imp_exp by blast
    have "d = 31 - Suc k" "Suc k \<le> 31" using Suc.hyps(2) by auto
    from Suc.hyps(1) [OF this Suc.prems(2)] obtain i where
      i: "i \<ge> Suc k" "i \<le> 31" "log2_loop num (2 ^ Suc k) (of_nat (Suc k)) = Some (of_nat i)"
        "unat num \<le> 2 ^ i" "\<forall>j. Suc k \<le> j \<and> j < i \<longrightarrow> 2 ^ j < unat num" by blast
    have "push_bit 1 (2 ^ k) = (2 ^ Suc k :: u32)" by (simp add: push_bit_eq_mult)
    then have "log2_loop num (2 ^ k) (of_nat k) = Some (of_nat i)"
      using lt i(3) by (subst log2_loop.simps) (simp add: ac_simps)
    moreover have "\<forall>j. k \<le> j \<and> j < i \<longrightarrow> 2 ^ j < unat num"
      using i(5) True by (metis le_antisym not_less_eq_eq)
    ultimately show ?thesis using i by (intro exI [of _ i]) auto
  next
    case False
    then have "\<not> (2 ^ k :: u32) < num" using Suc.prems unat_le_imp_exp by blast
    then show ?thesis
      using False Suc.prems by (intro exI [of _ k]) (simp add: log2_loop.simps)
  qed
qed

lemma log2_loop_zero: "log2_loop num 0 i = Some r \<Longrightarrow> num = 0"
proof -
  assume r: "log2_loop num 0 i = Some r"
  have "0 = (0 :: u32) \<longrightarrow> num = 0"
  proof (rule log2_loop.raw_induct [where P = "\<lambda>num limit i r. limit = 0 \<longrightarrow> num = 0", OF _ r])
    fix f and num limit i r :: u32
    assume "\<And>num limit i r. f num limit i = Some r \<Longrightarrow> limit = 0 \<longrightarrow> num = 0"
      and "(if limit < num then f num (push_bit 1 limit) (i + 1) else Some i) = Some r"
    then show "limit = 0 \<longrightarrow> num = 0"
      by (auto split: if_splits simp: word_gt_0)
  qed
  then show ?thesis by simp
qed

lemma log2_loop_diverges:
  "k \<le> 31 \<Longrightarrow> 2 ^ 31 < unat num \<Longrightarrow> log2_loop num (2 ^ k) i = None"
proof (induction "31 - k" arbitrary: k i)
  case 0
  then have k: "k = 31" by simp
  have "(2 ^ 31 :: u32) < num" using 0 by (simp add: word_less_nat_alt)
  moreover have "push_bit 1 (2 ^ 31 :: u32) = 0" by simp
  moreover have "num \<noteq> 0" using 0 by auto
  then have "log2_loop num 0 (i + 1) = None"
    using log2_loop_zero [of num "i + 1"] by (cases "log2_loop num 0 (i + 1)") auto
  ultimately show ?case
    unfolding k by (subst log2_loop.simps) (simp only: if_True)
next
  case (Suc d)
  have "(2::nat) ^ k \<le> 2 ^ 31" using Suc.prems by (intro power_increasing) auto
  moreover have "unat (2 ^ k :: u32) = 2 ^ k" using Suc.prems by (simp add: unat_exp32)
  ultimately have "(2 ^ k :: u32) < num" using Suc.prems by (simp add: word_less_nat_alt)
  moreover have "push_bit 1 (2 ^ k) = (2 ^ Suc k :: u32)" by (simp add: push_bit_eq_mult)
  moreover have "log2_loop num (2 ^ Suc k) (i + 1) = None"
    using Suc.hyps Suc.prems by (intro Suc.hyps(1)) auto
  ultimately show ?case by (subst log2_loop.simps) (simp only: if_True)
qed

text \<open>Where it returns, \<open>__ffdb_log2\<close> gives the least \<open>i\<close> with
  \<open>num \<le> 2 ^ i\<close>, that is the logarithm rounded up.\<close>
lemma ffdb_log2_least:
  assumes "unat num \<le> 2 ^ 31"
  shows "\<exists>i \<le> 31. ffdb_log2 num = Some (of_nat i) \<and> unat num \<le> 2 ^ i \<and> (\<forall>j < i. 2 ^ j < unat num)"
  using log2_loop_finds [of 0 num] assms by (auto simp: ffdb_log2_def)

text \<open>C22: The loop of \<open>__ffdb_log2\<close> returns for every argument up to \<open>2 ^ 31\<close> and for
  no other one: above that, \<open>limit\<close> is shifted out of its 32 bits and stays 0.\<close>
theorem ffdb_log2_diverges: "ffdb_log2 num = None \<longleftrightarrow> 2 ^ 31 < unat num"
proof (cases "2 ^ 31 < unat num")
  case True
  then show ?thesis using log2_loop_diverges [of 0 num 0] by (simp add: ffdb_log2_def)
next
  case False
  then show ?thesis using log2_loop_finds [of 0 num] by (auto simp: ffdb_log2_def)
qed

section \<open>The default comparison decides equality of keys\<close>

lemma defcmp_loop_None:
  "len \<le> length p \<Longrightarrow> len \<le> length q \<Longrightarrow>
     (defcmp_loop len p q = None \<longleftrightarrow> take len p = take len q)"
  by (induction len p q rule: defcmp_loop.induct) auto

lemma defcmp_loop_nonzero: "defcmp_loop len p q = Some d \<Longrightarrow> d \<noteq> 0"
  by (induction len p q rule: defcmp_loop.induct) (auto split: if_splits simp: word_uint_eq_iff)

lemma defcmp_loop_swap: "defcmp_loop len q p = map_option uminus (defcmp_loop len p q)"
  by (induction len p q rule: defcmp_loop.induct) (auto simp: eq_commute)

definition dbt_ok :: "dbt \<Rightarrow> bool" where
  "dbt_ok d \<longleftrightarrow> dt_size d \<le> length (dt_data d)"

definition dbt_bytes :: "dbt \<Rightarrow> mem" where
  "dbt_bytes d = take (dt_size d) (dt_data d)"

lemma ham_defcmp_zero_iff:
  assumes "dbt_ok a" "dbt_ok b" "dt_size a < 2 ^ 31" "dt_size b < 2 ^ 31"
  shows "ham_defcmp a b = 0 \<longleftrightarrow> dbt_bytes a = dbt_bytes b"
proof -
  let ?l = "if dt_size a > dt_size b then dt_size b else dt_size a"
  have l: "?l \<le> length (dt_data a)" "?l \<le> length (dt_data b)"
    using assms(1,2) by (auto simp: dbt_ok_def)
  have s: "sint (word_of_int (int (dt_size a) - int (dt_size b)) :: u32) = int (dt_size a) - int (dt_size b)"
    using assms(3,4) by (intro sint_word_of_int_small) auto
  show ?thesis
  proof (cases "defcmp_loop ?l (dt_data a) (dt_data b)")
    case None
    then have "take ?l (dt_data a) = take ?l (dt_data b)" using defcmp_loop_None [OF l] by simp
    then show ?thesis
      using None s assms(1,2) unfolding ham_defcmp_def dbt_bytes_def dbt_ok_def
      by (auto simp: Let_def dest: arg_cong [of _ _ length] split: if_splits)
  next
    case (Some d)
    then have "take ?l (dt_data a) \<noteq> take ?l (dt_data b)" using defcmp_loop_None [OF l] by simp
    moreover have "take ?l (dt_data a) = take ?l (dbt_bytes a)" "take ?l (dt_data b) = take ?l (dbt_bytes b)"
      by (auto simp: dbt_bytes_def min_def)
    ultimately show ?thesis
      using Some defcmp_loop_nonzero [OF Some] by (auto simp: ham_defcmp_def Let_def)
  qed
qed

text \<open>Swapping the operands swaps the sign of a decision made on the bytes.\<close>

lemma ham_defcmp_refl: "dbt_ok a \<Longrightarrow> ham_defcmp a a = 0"
  using defcmp_loop_None [of "dt_size a" "dt_data a" "dt_data a"]
  by (simp add: ham_defcmp_def dbt_ok_def)

text \<open>The unrolled (Duff's device) hash functions \<open>__ham_func3\<close> and
  \<open>__ham_func4\<close> read exactly the bytes of the key and compute the plain loop over
  them, for keys shorter than \<open>2 ^ 32 - 7\<close> bytes.\<close>
theorem ham_func34_fold:
  assumes "unat len \<le> length key" "unat len < 2 ^ 32 - 7"
  shows "ham_func3 key len = Some (foldl HASHC 0 (take (unat len) key))
       \<and> ham_func4 key len = Some (foldl HASH4 0 (take (unat len) key))"
  by (simp only: ham_func3_def ham_func4_def duff_foldl [OF assms])

theorem ham_func34_fold_witness:
  "ham_func3 [1, 2, 3] 3 = Some (foldl HASHC 0 (take (unat (3 :: u32)) [1, 2, 3]))
   \<and> ham_func4 [1, 2, 3] 3 = Some (foldl HASH4 0 (take (unat (3 :: u32)) [1, 2, 3]))"
  by (rule ham_func34_fold) simp_all

lemma ham_func5_foldl: "ham_func5 key len = foldl (\<lambda>h c. (h * 16777619) XOR ucast c) 0 (take (unat len) key)"
proof -
  have "ham_func5_loop h k = foldl (\<lambda>h c. (h * 16777619) XOR ucast c) h k" for h k
    by (induction h k rule: ham_func5_loop.induct) simp_all
  then show ?thesis by (simp add: ham_func5_def)
qed

lemma ham_func2_foldl: "ham_func2 key len = foldl DCHARHASH 0 (take (unat len) key)"
proof -
  have "ham_func2_loop h k = foldl DCHARHASH h k" for h k
    by (induction h k rule: ham_func2_loop.induct) simp_all
  then show ?thesis by (simp add: ham_func2_def)
qed

end
