(* ===== verification/FFDB_Page.thy ===== *)
theory FFDB_Page
  imports FFDB_HashFunc
begin

text \<open>
  Page layout (\<open>filehash/ffdb_page.h\<close>) and the page-level routines of
  \<open>filehash/ffdb_page.c\<close>: initialisation, checksum, byte swapping, and the filters the
  page pool runs on a page that is read or written. A page is the list of its bytes; every
  field is read and written through the accessor of the same name as the C macro.
\<close>

section \<open>Data pointers and their packed length\<close>

record datap =
  dp_first :: u32
  dp_offset :: u32
  dp_len :: u32
  dp_chksum :: u32

definition IS_HUGE_DATA :: "nat \<Rightarrow> bool" where
  "IS_HUGE_DATA len \<longleftrightarrow> len > 0xffffffff"

definition DLEN_HIGH_BITS :: "nat \<Rightarrow> u32" where
  "DLEN_HIGH_BITS l = of_nat (drop_bit 32 l) AND 0xff"

definition INSERT_LEN_TO_PGOFFSET :: "nat \<Rightarrow> u32 \<Rightarrow> u32" where
  "INSERT_LEN_TO_PGOFFSET l ov = push_bit 20 (DLEN_HIGH_BITS l) OR (ov AND 0xfffff)"

definition GET_LEN_FROM_PGOFFSET :: "u32 \<Rightarrow> u32" where
  "GET_LEN_FROM_PGOFFSET ov = drop_bit 20 ov AND 0xff"

definition REAL_DATA_LEN :: "u32 \<Rightarrow> u32 \<Rightarrow> nat" where
  "REAL_DATA_LEN l ov = push_bit 32 (unat (GET_LEN_FROM_PGOFFSET ov)) OR unat l"

definition GET_PGOFFSET :: "u32 \<Rightarrow> u32" where
  "GET_PGOFFSET ov = ov AND 0xfffff"

definition SET_PGOFFSET :: "u32 \<Rightarrow> u32 \<Rightarrow> u32" where
  "SET_PGOFFSET ov val = ov OR (val AND 0xfffff)"

definition INSERT_LEN_TO_STATUS :: "nat \<Rightarrow> u32 \<Rightarrow> u32" where
  "INSERT_LEN_TO_STATUS l s = INSERT_LEN_TO_PGOFFSET l s"

definition GET_STATUS :: "u32 \<Rightarrow> u32" where
  "GET_STATUS s = GET_PGOFFSET s"

definition ALIGN_DATAP_OFFSET_VAL :: "u32 \<Rightarrow> u32" where
  "ALIGN_DATAP_OFFSET_VAL val = (if val AND (4 - 1) \<noteq> 0 then val AND NOT (4 - 1) else val)"

definition ALIGN_ADDR :: "u32 \<Rightarrow> u32" where
  "ALIGN_ADDR val = (if val AND (4 - 1) \<noteq> 0 then (val + (4 - 1)) AND NOT (4 - 1) else val)"

section \<open>Constants\<close>

definition INVALID_PGNO :: pgno where [ffdb_consts]: "INVALID_PGNO = 0xffffffff"
definition FFDB_PAGE_MAGIC :: u32 where [ffdb_consts]: "FFDB_PAGE_MAGIC = 0xe0f1a2b9"
definition LITTLE_ENDIAN :: u32 where [ffdb_consts]: "LITTLE_ENDIAN = 1234"
definition BIG_ENDIAN :: u32 where [ffdb_consts]: "BIG_ENDIAN = 4321"

definition HASH_BUCKET_PAGE :: u32 where [ffdb_consts]: "HASH_BUCKET_PAGE = 0x1001"
definition HASH_BIG_PAGE :: u32 where [ffdb_consts]: "HASH_BIG_PAGE = 0x2001"
definition HASH_DATA_PAGE :: u32 where [ffdb_consts]: "HASH_DATA_PAGE = 0x2001"
definition HASH_OVFL_PAGE :: u32 where [ffdb_consts]: "HASH_OVFL_PAGE = 0x3001"
definition HASH_UINFO_PAGE :: u32 where [ffdb_consts]: "HASH_UINFO_PAGE = 0x4001"
definition HASH_CONFIG_PAGE :: u32 where [ffdb_consts]: "HASH_CONFIG_PAGE = 0x5001"
definition HASH_FREE_PAGE :: u32 where [ffdb_consts]: "HASH_FREE_PAGE = 0x6001"
definition HASH_DELETED_PAGE :: u32 where [ffdb_consts]: "HASH_DELETED_PAGE = 0x8001"
definition HASH_RAW_PAGE :: u32 where [ffdb_consts]: "HASH_RAW_PAGE = 0xffee"

definition DATA_VALID :: u32 where [ffdb_consts]: "DATA_VALID = 0x0000ffee"
definition DATA_INVALID :: u32 where [ffdb_consts]: "DATA_INVALID = 0x00001122"
definition DATA_VALID_5 :: u32 where [ffdb_consts]: "DATA_VALID_5 = 0xffeeffee"
definition DATA_INVALID_5 :: u32 where [ffdb_consts]: "DATA_INVALID_5 = 0x11221122"

definition PAGE_OVERHEAD :: nat where [ffdb_consts]: "PAGE_OVERHEAD = 28"
definition PAIR_OVERHEAD :: nat where [ffdb_consts]: "PAIR_OVERHEAD = 12"
definition BIG_PAGE_OVERHEAD :: nat where [ffdb_consts]: "BIG_PAGE_OVERHEAD = 32"
definition BIG_DATA_OVERHEAD :: nat where [ffdb_consts]: "BIG_DATA_OVERHEAD = 20"
definition SIZEOF_DATAP :: nat where [ffdb_consts]: "SIZEOF_DATAP = 16"
definition SIZEOF_CONFIG_INFO :: nat where [ffdb_consts]: "SIZEOF_CONFIG_INFO = 148"

section \<open>Page fields\<close>

definition CURR_PGNO :: "mem \<Rightarrow> u32" where [page_fields]: "CURR_PGNO p = rd32 p 0"
definition PREV_PGNO :: "mem \<Rightarrow> u32" where [page_fields]: "PREV_PGNO p = rd32 p 4"
definition NEXT_PGNO :: "mem \<Rightarrow> u32" where [page_fields]: "NEXT_PGNO p = rd32 p 8"
definition PAGE_SIGN :: "mem \<Rightarrow> u32" where [page_fields]: "PAGE_SIGN p = rd32 p 12"
definition NUM_ENT :: "mem \<Rightarrow> u16" where [page_fields]: "NUM_ENT p = rd16 p 16"
definition PTYPE :: "mem \<Rightarrow> u16" where [page_fields]: "PTYPE p = rd16 p 18"
definition CHKSUM :: "mem \<Rightarrow> u32" where [page_fields]: "CHKSUM p = rd32 p 20"
definition OFFSET :: "mem \<Rightarrow> u32" where [page_fields]: "OFFSET p = rd32 p 24"
definition FIRST_DATA_POS :: "mem \<Rightarrow> u32" where [page_fields]: "FIRST_DATA_POS p = rd32 p 28"
definition USER_DATA_LEN :: "mem \<Rightarrow> u32" where [page_fields]: "USER_DATA_LEN p = rd32 p 28"

definition set_CURR_PGNO :: "u32 \<Rightarrow> mem \<Rightarrow> mem" where [page_fields]: "set_CURR_PGNO v p = wr32 p 0 v"
definition set_PREV_PGNO :: "u32 \<Rightarrow> mem \<Rightarrow> mem" where [page_fields]: "set_PREV_PGNO v p = wr32 p 4 v"
definition set_NEXT_PGNO :: "u32 \<Rightarrow> mem \<Rightarrow> mem" where [page_fields]: "set_NEXT_PGNO v p = wr32 p 8 v"
definition set_PAGE_SIGN :: "u32 \<Rightarrow> mem \<Rightarrow> mem" where [page_fields]: "set_PAGE_SIGN v p = wr32 p 12 v"
definition set_NUM_ENT :: "u16 \<Rightarrow> mem \<Rightarrow> mem" where [page_fields]: "set_NUM_ENT v p = wr16 p 16 v"
definition set_PTYPE :: "u16 \<Rightarrow> mem \<Rightarrow> mem" where [page_fields]: "set_PTYPE v p = wr16 p 18 v"
definition set_CHKSUM :: "u32 \<Rightarrow> mem \<Rightarrow> mem" where [page_fields]: "set_CHKSUM v p = wr32 p 20 v"
definition set_OFFSET :: "u32 \<Rightarrow> mem \<Rightarrow> mem" where [page_fields]: "set_OFFSET v p = wr32 p 24 v"
definition set_FIRST_DATA_POS :: "u32 \<Rightarrow> mem \<Rightarrow> mem" where
  [page_fields]: "set_FIRST_DATA_POS v p = wr32 p 28 v"
definition set_USER_DATA_LEN :: "u32 \<Rightarrow> mem \<Rightarrow> mem" where
  [page_fields]: "set_USER_DATA_LEN v p = wr32 p 28 v"

text \<open>\<open>HIGHEST_FREE\<close> is another name of \<open>OFFSET\<close>, \<open>NUM_FREE_PAGES\<close> of \<open>NUM_ENT\<close>.\<close>

abbreviation (input) HIGHEST_FREE :: "mem \<Rightarrow> u32" where "HIGHEST_FREE \<equiv> OFFSET"
abbreviation (input) set_HIGHEST_FREE :: "u32 \<Rightarrow> mem \<Rightarrow> mem" where "set_HIGHEST_FREE \<equiv> set_OFFSET"
abbreviation (input) NUM_FREE_PAGES :: "mem \<Rightarrow> u16" where "NUM_FREE_PAGES \<equiv> NUM_ENT"

text \<open>The index array: key offset, key length and data pointer offset of pair \<open>n\<close>.\<close>

definition pair_pos :: "nat \<Rightarrow> nat" where
  "pair_pos n = PAGE_OVERHEAD + n * PAIR_OVERHEAD"

definition KEY_OFF :: "mem \<Rightarrow> nat \<Rightarrow> u32" where "KEY_OFF p n = rd32 p (pair_pos n)"
definition KEY_LEN :: "mem \<Rightarrow> nat \<Rightarrow> u32" where "KEY_LEN p n = rd32 p (pair_pos n + 4)"
definition DATAP_OFF :: "mem \<Rightarrow> nat \<Rightarrow> u32" where "DATAP_OFF p n = rd32 p (pair_pos n + 8)"
definition set_KEY_OFF :: "nat \<Rightarrow> u32 \<Rightarrow> mem \<Rightarrow> mem" where "set_KEY_OFF n v p = wr32 p (pair_pos n) v"
definition set_KEY_LEN :: "nat \<Rightarrow> u32 \<Rightarrow> mem \<Rightarrow> mem" where "set_KEY_LEN n v p = wr32 p (pair_pos n + 4) v"
definition set_DATAP_OFF :: "nat \<Rightarrow> u32 \<Rightarrow> mem \<Rightarrow> mem" where
  "set_DATAP_OFF n v p = wr32 p (pair_pos n + 8) v"

text \<open>\<open>KEY(P, N)\<close> with its length, and \<open>DATAP(P, N)\<close>, as the offset it points to.\<close>

definition KEY :: "mem \<Rightarrow> nat \<Rightarrow> mem" where
  "KEY p n = drop (unat (KEY_OFF p n)) p"

definition DATAP :: "mem \<Rightarrow> nat \<Rightarrow> nat" where
  "DATAP p n = unat (DATAP_OFF p n)"

definition rd_datap :: "mem \<Rightarrow> nat \<Rightarrow> datap" where
  "rd_datap p off = \<lparr>dp_first = rd32 p off, dp_offset = rd32 p (off + 4),
     dp_len = rd32 p (off + 8), dp_chksum = rd32 p (off + 12)\<rparr>"

definition datap_bytes :: "datap \<Rightarrow> mem" where
  "datap_bytes d = u32_bytes (dp_first d) @ u32_bytes (dp_offset d) @ u32_bytes (dp_len d)
     @ u32_bytes (dp_chksum d)"

record data_header =
  dh_len :: u32
  dh_status :: u32
  dh_next :: u32
  dh_key_page :: u32
  dh_key_idx :: u32

definition rd_data_header :: "mem \<Rightarrow> nat \<Rightarrow> data_header" where
  "rd_data_header p off = \<lparr>dh_len = rd32 p off, dh_status = rd32 p (off + 4),
     dh_next = rd32 p (off + 8), dh_key_page = rd32 p (off + 12), dh_key_idx = rd32 p (off + 16)\<rparr>"

definition data_header_bytes :: "data_header \<Rightarrow> mem" where
  "data_header_bytes h = u32_bytes (dh_len h) @ u32_bytes (dh_status h) @ u32_bytes (dh_next h)
     @ u32_bytes (dh_key_page h) @ u32_bytes (dh_key_idx h)"

text \<open>
  \<open>PAIRSIZE\<close>, \<open>FREESPACE\<close> and \<open>PAIRFITS\<close>. The key size is a \<open>long\<close> and the
  \<open>sizeof\<close> terms are \<open>size_t\<close>, so both sides are 64-bit; \<open>OFFSET + 1\<close> is a 32-bit sum.
\<close>

definition PAIRSIZE :: "nat \<Rightarrow> 64 word" where
  "PAIRSIZE ksize = of_nat PAIR_OVERHEAD + of_nat ksize + of_nat SIZEOF_DATAP + 4 - 1"

definition FREESPACE :: "mem \<Rightarrow> 64 word" where
  "FREESPACE p = ucast (OFFSET p + 1) - of_nat PAGE_OVERHEAD - ucast (NUM_ENT p) * of_nat PAIR_OVERHEAD"

definition PAIRFITS :: "mem \<Rightarrow> nat \<Rightarrow> bool" where
  "PAIRFITS p ksize \<longleftrightarrow> PAIRSIZE ksize \<le> FREESPACE p"

definition FREE_PAGE :: "mem \<Rightarrow> nat \<Rightarrow> u32" where "FREE_PAGE p i = rd32 p (28 + i * 4)"
definition set_FREE_PAGE :: "nat \<Rightarrow> u32 \<Rightarrow> mem \<Rightarrow> mem" where "set_FREE_PAGE i v p = wr32 p (28 + i * 4) v"

definition CONFIG_INFO :: "nat \<Rightarrow> nat" where
  "CONFIG_INFO n = PAGE_OVERHEAD + n * SIZEOF_CONFIG_INFO"

section \<open>The file header\<close>

record hashhdr =
  h_magic :: u32
  h_version :: u32
  h_lorder :: u32
  h_bsize :: u32
  h_bshift :: u32
  h_ovfl_point :: u32
  h_max_bucket :: u32
  h_high_mask :: u32
  h_low_mask :: u32
  h_ffactor :: u32
  h_nkeys :: u32
  h_hdrpages :: u32
  h_uinfolen :: u32
  h_uinfo_page :: u16
  h_uinfo_npages :: u16
  h_cfig_page :: u16
  h_cfig_npages :: u16
  h_num_cfigs :: u32
  h_charkey :: u32
  h_num_moved_pages :: u32
  h_spares :: "u32 list"
  h_free_pages :: "u32 list"
  h_chksum :: u32

definition NCACHED :: nat where [ffdb_consts]: "NCACHED = 32"

text \<open>\<open>_ffdb_test_endian\<close>: store 1 as an \<open>int\<close> and look at its last byte.\<close>

definition ffdb_test_endian :: u32 where
  "ffdb_test_endian = (if u32_bytes 1 ! 3 = 1 then BIG_ENDIAN else LITTLE_ENDIAN)"

section \<open>Swapping the meta information of a page\<close>

definition M_DATAP_SWAP :: "mem \<Rightarrow> nat \<Rightarrow> mem" where
  "M_DATAP_SWAP p off =
     M_32_SWAP (M_32_SWAP (M_32_SWAP (M_32_SWAP p off) (off + 4)) (off + 8)) (off + 12)"

definition M_DATA_HEADER_SWAP :: "mem \<Rightarrow> nat \<Rightarrow> mem" where
  "M_DATA_HEADER_SWAP p off =
     M_32_SWAP (M_32_SWAP (M_32_SWAP (M_32_SWAP (M_32_SWAP p off) (off + 4)) (off + 8))
       (off + 12)) (off + 16)"

definition M_CONFIG_INFO_SWAP :: "mem \<Rightarrow> nat \<Rightarrow> mem" where
  "M_CONFIG_INFO_SWAP p off =
     M_32_SWAP (M_32_SWAP (M_32_SWAP (M_32_SWAP (M_32_SWAP p off) (off + 4)) (off + 8))
       (off + 12)) (off + 16)"

text \<open>The eight header fields, swapped in the order of both directions of the code.\<close>

definition swap_page_header :: "mem \<Rightarrow> mem" where
  "swap_page_header p =
     M_32_SWAP (M_32_SWAP (M_16_SWAP (M_16_SWAP (M_32_SWAP (M_32_SWAP (M_32_SWAP (M_32_SWAP p
       0) 4) 8) 12) 16) 18) 20) 24"

lemma unat_u16_less [simp]: "unat (x :: u16) < 65536"
proof -
  have "unat x < 2 ^ LENGTH(16)" by (rule unsigned_less)
  then show ?thesis by simp
qed

lemma u16_measure [simp]: "i < unat (x :: u16) \<Longrightarrow> 65535 - i < 65536 - i"
  using unat_u16_less [of x] by linarith

function swap_in_bucket :: "nat \<Rightarrow> mem \<Rightarrow> mem" where
  "swap_in_bucket i p =
     (if i < unat (NUM_ENT p) then
        let p1 = M_32_SWAP p (pair_pos i);
            p2 = M_32_SWAP p1 (pair_pos i + 4);
            p3 = M_32_SWAP p2 (pair_pos i + 8);
            p4 = M_DATAP_SWAP p3 (DATAP p3 i)
        in swap_in_bucket (Suc i) p4
      else p)"
  by pat_completeness auto
termination
  by (relation "measure (\<lambda>(i, p). 65536 - i)")
     auto

fun swap_in_data :: "nat \<Rightarrow> u32 \<Rightarrow> mem \<Rightarrow> mem" where
  "swap_in_data 0 next p = p"
| "swap_in_data (Suc n) next p =
     (let p1 = M_DATA_HEADER_SWAP p (unat next)
      in swap_in_data n (dh_next (rd_data_header p1 (unat next))) p1)"

function swap_in_free :: "nat \<Rightarrow> mem \<Rightarrow> mem" where
  "swap_in_free i p =
     (if i < unat (NUM_ENT p) then swap_in_free (Suc i) (M_32_SWAP p (28 + i * 4)) else p)"
  by pat_completeness auto
termination
  by (relation "measure (\<lambda>(i, p). 65536 - i)")
     auto

function swap_in_config :: "nat \<Rightarrow> mem \<Rightarrow> mem" where
  "swap_in_config i p =
     (if i < unat (NUM_ENT p) then swap_in_config (Suc i) (M_CONFIG_INFO_SWAP p (CONFIG_INFO i)) else p)"
  by pat_completeness auto
termination
  by (relation "measure (\<lambda>(i, p). 65536 - i)")
     auto

declare swap_in_bucket.simps [simp del] swap_in_free.simps [simp del] swap_in_config.simps [simp del]

definition ffdb_swap_page_metainfo_in :: "mem \<Rightarrow> mem" where
  "ffdb_swap_page_metainfo_in p0 =
     (let p = swap_page_header p0; type = (ucast (PTYPE p) :: u32)
      in if type = HASH_BUCKET_PAGE then swap_in_bucket 0 p
         else if type = HASH_DATA_PAGE then
           (let p1 = M_32_SWAP p 28 in swap_in_data (unat (NUM_ENT p)) (FIRST_DATA_POS p1) p1)
         else if type = HASH_FREE_PAGE then swap_in_free 0 p
         else if type = HASH_UINFO_PAGE then M_32_SWAP p 28
         else if type = HASH_CONFIG_PAGE then swap_in_config 0 p
         else p)"

fun swap_out_bucket :: "nat \<Rightarrow> nat \<Rightarrow> mem \<Rightarrow> mem" where
  "swap_out_bucket i 0 p = p"
| "swap_out_bucket i (Suc n) p =
     (let p1 = M_DATAP_SWAP p (DATAP p i);
          p2 = M_32_SWAP p1 (pair_pos i);
          p3 = M_32_SWAP p2 (pair_pos i + 4);
          p4 = M_32_SWAP p3 (pair_pos i + 8)
      in swap_out_bucket (Suc i) n p4)"

fun swap_out_data :: "nat \<Rightarrow> u32 \<Rightarrow> mem \<Rightarrow> mem" where
  "swap_out_data 0 next p = p"
| "swap_out_data (Suc n) next p =
     (let next' = dh_next (rd_data_header p (unat next))
      in swap_out_data n next' (M_DATA_HEADER_SWAP p (unat next)))"

fun swap_out_free :: "nat \<Rightarrow> nat \<Rightarrow> mem \<Rightarrow> mem" where
  "swap_out_free i 0 p = p"
| "swap_out_free i (Suc n) p = swap_out_free (Suc i) n (M_32_SWAP p (28 + i * 4))"

fun swap_out_config :: "nat \<Rightarrow> nat \<Rightarrow> mem \<Rightarrow> mem" where
  "swap_out_config i 0 p = p"
| "swap_out_config i (Suc n) p = swap_out_config (Suc i) n (M_CONFIG_INFO_SWAP p (CONFIG_INFO i))"

definition ffdb_swap_page_metainfo_out :: "mem \<Rightarrow> mem" where
  "ffdb_swap_page_metainfo_out p0 =
     (let type = (ucast (PTYPE p0) :: u32); num = unat (NUM_ENT p0); p = swap_page_header p0
      in if type = HASH_BUCKET_PAGE then swap_out_bucket 0 num p
         else if type = HASH_DATA_PAGE then swap_out_data num (FIRST_DATA_POS p) (M_32_SWAP p 28)
         else if type = HASH_FREE_PAGE then swap_out_free 0 num p
         else if type = HASH_UINFO_PAGE then M_32_SWAP p 28
         else if type = HASH_CONFIG_PAGE then swap_out_config 0 num p
         else p)"

section \<open>What is left of a block\<close>

text \<open>
  \<open>hdr.bsize - k\<close> with a \<open>size_t\<close> \<open>k\<close>: the \<open>int\<close> is extended with its sign, and the difference
  wraps when the block is smaller than \<open>k\<close>.
\<close>

definition bsize_less :: "hashhdr \<Rightarrow> nat \<Rightarrow> nat" where
  "bsize_less h k = unat (scast (h_bsize h) - of_nat k :: u64)"

lemma unat64_of_int: "int (unat (of_int x :: u64)) = x mod 2 ^ 64"
  by (simp add: unsigned_of_int take_bit_eq_mod)

lemma bsize_less_sint:
  assumes "int k < 2 ^ 32"
  shows "int (bsize_less h k) =
    (if int k \<le> sint (h_bsize h) then sint (h_bsize h) - int k else 2 ^ 64 + sint (h_bsize h) - int k)"
proof -
  let ?x = "sint (h_bsize h) - int k"
  have s: "- (2 ^ 31) \<le> sint (h_bsize h)" "sint (h_bsize h) < 2 ^ 31"
    using sint_ge [of "h_bsize h"] sint_lt [of "h_bsize h"] by simp_all
  have "(scast (h_bsize h) - of_nat k :: u64) = of_int ?x"
    by (simp only: of_int_sint of_int_diff of_int_of_nat_eq)
  then have "int (bsize_less h k) = ?x mod 2 ^ 64" by (simp only: bsize_less_def unat64_of_int)
  moreover have "?x mod 2 ^ 64 = ?x" if "0 \<le> ?x"
    using s that by (intro mod_pos_pos_trivial) simp_all
  moreover have "(?x + 2 ^ 64) mod 2 ^ 64 = ?x + 2 ^ 64" if "?x < 0"
    using s assms that by (intro mod_pos_pos_trivial) simp_all
  ultimately show ?thesis by (simp only: mod_add_self2) auto
qed

lemma bsize_less_eq:
  assumes "k \<le> unat (h_bsize h)" "unat (h_bsize h) < 2 ^ 31"
  shows "bsize_less h k = unat (h_bsize h) - k"
proof -
  have "int (unat (h_bsize h)) < int (2 ^ 31)" using assms(2) by (simp only: of_nat_less_iff)
  then have u: "sint (h_bsize h) = int (unat (h_bsize h))"
    using sint_word_of_int_small [of "int (unat (h_bsize h))"] by simp
  have le: "int k \<le> sint (h_bsize h)" unfolding u using assms(1) by (simp only: of_nat_le_iff)
  have "k < 2147483648" using assms by simp
  then have "int k < 2 ^ 32" by simp
  then have "int (bsize_less h k) = int (unat (h_bsize h)) - int k" using bsize_less_sint [of k h] le by (simp only: if_True u)
  then show ?thesis using assms(1) by linarith
qed

section \<open>Checksum, initialisation and the page filters\<close>

definition ffdb_page_checksum :: "hashhdr \<Rightarrow> mem \<Rightarrow> u32" where
  "ffdb_page_checksum hdr p =
     (let c = ffdb_crc32_checksum 0 (mem_get p 0 20)
      in ffdb_crc32_checksum c (mem_get p 24 (unat (h_bsize hdr) - 24)))"

definition ffdb_init_page :: "hashhdr \<Rightarrow> mem \<Rightarrow> pgno \<Rightarrow> u32 \<Rightarrow> mem" where
  "ffdb_init_page hdr p0 pg addrtype =
     (let p1 = set_CURR_PGNO pg p0;
          p2 = set_PREV_PGNO INVALID_PGNO (set_NEXT_PGNO INVALID_PGNO p1);
          p3 = set_PAGE_SIGN FFDB_PAGE_MAGIC p2;
          p4 = set_NUM_ENT 0 p3;
          p5 = set_PTYPE (ucast addrtype) p4;
          p6 = set_CHKSUM 0 p5
      in if addrtype = HASH_BUCKET_PAGE \<or> addrtype = HASH_OVFL_PAGE then
           set_PTYPE (ucast HASH_BUCKET_PAGE) (set_OFFSET (h_bsize hdr - 1) p6)
         else if addrtype = HASH_BIG_PAGE then
           set_FIRST_DATA_POS (of_nat BIG_PAGE_OVERHEAD) (set_OFFSET (of_nat BIG_PAGE_OVERHEAD) p6)
         else if addrtype = HASH_UINFO_PAGE then set_USER_DATA_LEN 0 p6
         else if addrtype = HASH_CONFIG_PAGE then set_OFFSET (of_nat BIG_PAGE_OVERHEAD) p6
         else if addrtype = HASH_FREE_PAGE then set_OFFSET 0 p6
         else p6)"

text \<open>\<open>exit (123)\<close> on a checksum mismatch is \<open>None\<close>.\<close>

definition ffdb_pgin_routine :: "hashhdr \<Rightarrow> u32 \<Rightarrow> pgno \<Rightarrow> mem \<Rightarrow> mem option" where
  "ffdb_pgin_routine hdr mborder pg p0 =
     (let chksum = ffdb_page_checksum hdr p0;
          p = (if h_lorder hdr \<noteq> mborder then ffdb_swap_page_metainfo_in p0 else p0)
      in if PAGE_SIGN p \<noteq> FFDB_PAGE_MAGIC then Some (ffdb_init_page hdr p pg HASH_DELETED_PAGE)
         else if chksum \<noteq> CHKSUM p then None
         else Some p)"

definition ffdb_pgout_routine :: "hashhdr \<Rightarrow> u32 \<Rightarrow> pgno \<Rightarrow> mem \<Rightarrow> mem" where
  "ffdb_pgout_routine hdr mborder pg p0 =
     (let p = (if h_lorder hdr \<noteq> mborder then ffdb_swap_page_metainfo_out p0 else p0);
          c = ffdb_page_checksum hdr p;
          c' = (if h_lorder hdr \<noteq> mborder then bswap32 c else c)
      in set_CHKSUM c' p)"

section \<open>The packed length\<close>

lemma mask20: "(0xfffff :: u32) = mask 20" and mask8: "(0xff :: u32) = mask 8"
  by (simp_all add: mask_eq_exp_minus_1)

lemma GET_PGOFFSET_INSERT [simp]: "GET_PGOFFSET (INSERT_LEN_TO_PGOFFSET l ov) = GET_PGOFFSET ov"
  unfolding GET_PGOFFSET_def INSERT_LEN_TO_PGOFFSET_def mask20
  by (rule bit_word_eqI) (auto simp: bit_simps)

lemma GET_LEN_INSERT [simp]: "GET_LEN_FROM_PGOFFSET (INSERT_LEN_TO_PGOFFSET l ov) = DLEN_HIGH_BITS l"
  unfolding GET_LEN_FROM_PGOFFSET_def INSERT_LEN_TO_PGOFFSET_def DLEN_HIGH_BITS_def mask20 mask8
  by (rule bit_word_eqI) (auto simp: bit_simps)

lemma GET_PGOFFSET_small: "ov < 0x100000 \<Longrightarrow> GET_PGOFFSET ov = ov"
proof -
  assume "ov < 0x100000"
  then have "unat ov < 2 ^ 20" by (simp add: word_less_nat_alt)
  then have "unat (take_bit 20 ov) = unat ov"
    by (simp add: unsigned_take_bit_eq take_bit_nat_eq_self)
  then have "take_bit 20 ov = ov" by (simp only: word_unat_eq_iff)
  then show ?thesis by (simp only: GET_PGOFFSET_def mask20 take_bit_eq_mask)
qed

lemma real_len_packed:
  assumes "len < 2 ^ 40"
  shows "REAL_DATA_LEN (of_nat len) (INSERT_LEN_TO_PGOFFSET len ov) = len"
proof -
  have "drop_bit 32 len < 2 ^ 8"
    using assms by (simp add: drop_bit_eq_div)
  then have "unat (DLEN_HIGH_BITS len) = drop_bit 32 len"
    unfolding DLEN_HIGH_BITS_def mask8 by (simp add: take_bit_eq_mask [symmetric] unsigned_take_bit_eq unsigned_of_nat take_bit_nat_eq_self)
  then show ?thesis
    by (simp add: REAL_DATA_LEN_def unsigned_of_nat)
       (rule bit_eqI, auto simp: bit_simps)
qed

text \<open>Packing loses nothing within the bounds of the format: for a length below
  \<open>2 ^ 40\<close> and a page offset below \<open>2 ^ 20\<close>, the 32-bit length field and the packed
  offset field give back the length and the offset.\<close>
lemma data_len_packing:
  assumes "len < 2 ^ 40" "ov < 0x100000"
  shows "REAL_DATA_LEN (of_nat len) (INSERT_LEN_TO_PGOFFSET len ov) = len \<and>
    GET_PGOFFSET (INSERT_LEN_TO_PGOFFSET len ov) = ov"
  using assms by (simp add: real_len_packed GET_PGOFFSET_small)

end
