(* ===== verification/FFDB_Swap.thy ===== *)
theory FFDB_Swap
  imports FFDB_Page
begin

text \<open>
  The page filters of \<open>ffdb_page.c\<close> as a codec: what \<open>ffdb_pgout_routine\<close> writes is
  what \<open>ffdb_pgin_routine\<close> reads back, in the native and in the foreign byte order. The
  two swapping routines walk the page in different orders and read the positions of later
  fields from fields that are already swapped, or not yet; both are reduced to one list of
  positions, \<open>swap_positions\<close>, whose words are reversed.
\<close>

section \<open>Reversing a list of words\<close>

definition swaps :: "nat list \<Rightarrow> mem \<Rightarrow> mem" where
  "swaps L m = fold (\<lambda>a m. M_32_SWAP m a) L m"

definition apart :: "nat \<Rightarrow> nat \<Rightarrow> bool" where
  "apart a b \<longleftrightarrow> a + 4 \<le> b \<or> b + 4 \<le> a"

fun spread :: "nat list \<Rightarrow> bool" where
  "spread [] = True"
| "spread (a # L) = (list_all (apart a) L \<and> spread L)"

lemma apart_sym: "apart a b \<longleftrightarrow> apart b a"
  by (auto simp: apart_def)

lemma spread_append:
  "spread (A @ B) \<longleftrightarrow> spread A \<and> spread B \<and> (\<forall>a\<in>set A. \<forall>b\<in>set B. apart a b)"
  by (induction A) (auto simp: list_all_iff)

lemma swaps_Nil [simp]: "swaps [] m = m"
  by (simp add: swaps_def)

lemma swaps_Cons: "swaps (a # L) m = swaps L (M_32_SWAP m a)"
  by (simp add: swaps_def)

lemma swaps_append: "swaps (A @ B) m = swaps B (swaps A m)"
  by (simp add: swaps_def)

lemma length_swaps [simp]: "length (swaps L m) = length m"
  by (induction L arbitrary: m) (simp_all add: swaps_Cons)

lemma wr32_commute:
  "apart a b \<Longrightarrow> wr32 (wr32 m a v) b w = wr32 (wr32 m b w) a v"
  unfolding wr32_def by (rule mem_put_commute) (auto simp: apart_def)

lemma SWAP_commute:
  "apart a b \<Longrightarrow> M_32_SWAP (M_32_SWAP m a) b = M_32_SWAP (M_32_SWAP m b) a"
proof -
  assume ab: "apart a b"
  have "rd32 (wr32 m a v) b = rd32 m b" "rd32 (wr32 m b v) a = rd32 m a" for v
    using ab by (auto simp: apart_def)
  then show ?thesis
    using wr32_commute [OF ab] by (simp add: M_32_SWAP_def)
qed

lemma SWAP32_SWAP16:
  assumes "a + 2 \<le> b \<or> b + 4 \<le> a"
  shows "M_32_SWAP (M_16_SWAP m a) b = M_16_SWAP (M_32_SWAP m b) a"
proof -
  have "rd32 (wr16 m a v) b = rd32 m b" "rd16 (wr32 m b w) a = rd16 m a" for v w
    using assms by auto
  moreover have "wr32 (wr16 m a v) b w = wr16 (wr32 m b w) a v" for v w
    unfolding wr32_def wr16_def by (rule mem_put_commute) (use assms in auto)
  ultimately show ?thesis
    by (simp add: M_32_SWAP_def M_16_SWAP_def)
qed

lemma swaps_SWAP:
  "list_all (apart a) L \<Longrightarrow> swaps L (M_32_SWAP m a) = M_32_SWAP (swaps L m) a"
  by (induction L arbitrary: m) (simp_all add: swaps_Cons SWAP_commute)

lemma swaps_commute:
  "(\<And>a b. a \<in> set A \<Longrightarrow> b \<in> set B \<Longrightarrow> apart a b) \<Longrightarrow> swaps A (swaps B m) = swaps B (swaps A m)"
  by (induction A arbitrary: m) (simp_all add: swaps_Cons swaps_SWAP [symmetric] list_all_iff)

lemma swaps_twice:
  "spread L \<Longrightarrow> list_all (\<lambda>a. a + 4 \<le> length m) L \<Longrightarrow> swaps L (swaps L m) = m"
  by (induction L arbitrary: m) (simp_all add: swaps_Cons swaps_SWAP)

lemma rd32_swaps [simp]: "list_all (apart a) L \<Longrightarrow> rd32 (swaps L m) a = rd32 m a"
  by (induction L arbitrary: m) (auto simp: swaps_Cons apart_def)

lemma rd16_swaps [simp]:
  "list_all (\<lambda>b. a + 2 \<le> b \<or> b + 4 \<le> a) L \<Longrightarrow> rd16 (swaps L m) a = rd16 m a"
  by (induction L arbitrary: m) (auto simp: swaps_Cons)

lemma wr32_swaps:
  "list_all (apart a) L \<Longrightarrow> wr32 (swaps L m) a v = swaps L (wr32 m a v)"
proof (induction L arbitrary: m)
  case (Cons b L)
  then have ab: "apart a b" "apart b a" by (auto simp: apart_sym)
  have "wr32 (M_32_SWAP m b) a v = M_32_SWAP (wr32 m a v) b"
    using ab by (simp add: M_32_SWAP_def apart_def wr32_commute)
  then show ?case using Cons by (simp add: swaps_Cons)
qed simp

section \<open>The header fields\<close>

lemma swap_page_header_alt:
  "swap_page_header p = swaps [0, 4, 8, 12, 20, 24] (M_16_SWAP (M_16_SWAP p 16) 18)"
  by (simp add: swap_page_header_def swaps_Cons SWAP32_SWAP16)

lemma SWAP16_swaps:
  "list_all (\<lambda>b. a + 2 \<le> b \<or> b + 4 \<le> a) L \<Longrightarrow> swaps L (M_16_SWAP m a) = M_16_SWAP (swaps L m) a"
  by (induction L arbitrary: m) (simp_all add: swaps_Cons SWAP32_SWAP16)

lemma SWAP16_commute:
  "M_16_SWAP (M_16_SWAP m 16) 18 = M_16_SWAP (M_16_SWAP m 18) 16"
  unfolding M_16_SWAP_def by (simp add: wr16_def mem_put_commute)

lemma length_swap_page_header [simp]: "length (swap_page_header p) = length p"
  by (simp add: swap_page_header_def)

lemma swap_page_header_twice [simp]:
  assumes "28 \<le> length p"
  shows "swap_page_header (swap_page_header p) = p"
proof -
  let ?L = "[0, 4, 8, 12, 20, 24] :: nat list"
  have "swap_page_header (swap_page_header p)
      = M_16_SWAP (M_16_SWAP (M_16_SWAP (M_16_SWAP (swaps ?L (swaps ?L p)) 16) 18) 16) 18"
    unfolding swap_page_header_alt by (simp add: SWAP16_swaps)
  also have "swaps ?L (swaps ?L p) = p"
    by (rule swaps_twice) (use assms in \<open>auto simp: apart_def\<close>)
  finally show ?thesis
    using assms by (simp add: SWAP16_commute)
qed

lemma swap_page_header_swaps:
  assumes "list_all (\<lambda>a. 28 \<le> a) L"
  shows "swap_page_header (swaps L p) = swaps L (swap_page_header p)"
proof -
  have h: "swaps [0, 4, 8, 12, 20, 24] (swaps L m) = swaps L (swaps [0, 4, 8, 12, 20, 24] m)" for m
    using assms by (intro swaps_commute) (auto simp: apart_def list_all_iff)
  have "list_all (\<lambda>b. 16 + 2 \<le> b \<or> b + 4 \<le> 16) L" "list_all (\<lambda>b. 18 + 2 \<le> b \<or> b + 4 \<le> 18) L"
    using assms by (auto simp: list_all_iff)
  then show ?thesis
    by (simp add: swap_page_header_alt h flip: SWAP16_swaps)
qed

lemma rd32_swap_page_header [simp]:
  "28 \<le> a \<Longrightarrow> rd32 (swap_page_header p) a = rd32 p a"
  by (simp add: swap_page_header_def)

lemma header_fields_swaps [simp]:
  assumes "list_all (\<lambda>a. 28 \<le> a) L"
  shows "NUM_ENT (swaps L p) = NUM_ENT p" "PTYPE (swaps L p) = PTYPE p"
proof -
  have "list_all (\<lambda>b. 16 + 2 \<le> b \<or> b + 4 \<le> 16) L" "list_all (\<lambda>b. 18 + 2 \<le> b \<or> b + 4 \<le> 18) L"
    using assms by (auto simp: list_all_iff)
  then show "NUM_ENT (swaps L p) = NUM_ENT p" "PTYPE (swaps L p) = PTYPE p"
    by (simp_all add: NUM_ENT_def PTYPE_def)
qed

section \<open>The words of a page that are swapped\<close>

definition words_from :: "nat \<Rightarrow> nat \<Rightarrow> nat list" where
  "words_from a n = map (\<lambda>k. a + 4 * k) [0..<n]"

fun data_chain :: "mem \<Rightarrow> nat \<Rightarrow> nat \<Rightarrow> nat list" where
  "data_chain p 0 a = []"
| "data_chain p (Suc n) a = words_from a 5 @ data_chain p n (unat (rd32 p (a + 8)))"

definition bucket_words :: "mem \<Rightarrow> nat \<Rightarrow> nat list" where
  "bucket_words p i = words_from (DATAP p i) 4 @ words_from (pair_pos i) 3"

definition config_words :: "nat \<Rightarrow> nat list" where
  "config_words i = words_from (CONFIG_INFO i) 5"

definition swap_positions :: "mem \<Rightarrow> nat list" where
  "swap_positions p =
     (let type = (ucast (PTYPE p) :: u32); n = unat (NUM_ENT p)
      in if type = HASH_BUCKET_PAGE then concat (map (bucket_words p) [0..<n])
         else if type = HASH_DATA_PAGE then 28 # data_chain p n (unat (FIRST_DATA_POS p))
         else if type = HASH_FREE_PAGE then words_from 28 n
         else if type = HASH_UINFO_PAGE then [28]
         else if type = HASH_CONFIG_PAGE then concat (map config_words [0..<n])
         else [])"

text \<open>
  A page whose meta information can be walked: the words named by its index lie in the
  body of the page and do not overlap. The page routines keep it (keys, data pointers and
  the index of a bucket page occupy disjoint ranges).
\<close>

definition page_wf :: "mem \<Rightarrow> bool" where
  "page_wf p \<longleftrightarrow> 28 \<le> length p \<and> spread (swap_positions p) \<and>
     list_all (\<lambda>a. 28 \<le> a \<and> a + 4 \<le> length p) (swap_positions p)"

lemma words_from_code:
  "words_from a 3 = [a, a + 4, a + 8]"
  "words_from a 4 = [a, a + 4, a + 8, a + 12]"
  "words_from a 5 = [a, a + 4, a + 8, a + 12, a + 16]"
  by (simp_all add: words_from_def upt_conv_Cons)

lemma words_from_0_Suc:
  "words_from a 0 = []" "words_from a (Suc n) = words_from a n @ [a + 4 * n]"
  by (simp_all add: words_from_def)

lemma group_swaps:
  "M_DATAP_SWAP p a = swaps (words_from a 4) p"
  "M_DATA_HEADER_SWAP p a = swaps (words_from a 5) p"
  "M_CONFIG_INFO_SWAP p a = swaps (words_from a 5) p"
  by (simp_all add: M_DATAP_SWAP_def M_DATA_HEADER_SWAP_def M_CONFIG_INFO_SWAP_def
      words_from_code swaps_Cons)

lemma swaps_cancel:
  assumes "spread (A @ B)" "list_all (\<lambda>a. a + 4 \<le> length p) (A @ B)"
  shows "swaps A (swaps (A @ B) p) = swaps B p"
proof -
  have "swaps A (swaps (A @ B) p) = swaps B (swaps A (swaps A p))"
    using assms(1) unfolding swaps_append by (intro swaps_commute) (auto simp: spread_append)
  then show ?thesis
    using assms by (simp add: swaps_twice spread_append)
qed

lemma rd32_swaps_member:
  assumes "spread (A @ B)" "list_all (\<lambda>a. a + 4 \<le> length p) (A @ B)" "a \<in> set A"
  shows "rd32 (swaps A (swaps (A @ B) p)) a = rd32 p a"
proof -
  have "list_all (apart a) B"
    using assms(1,3) by (auto simp: spread_append list_all_iff)
  then show ?thesis
    by (simp add: swaps_cancel [OF assms(1,2)])
qed

section \<open>Both directions, page type by page type\<close>

text \<open>\<open>ok L p\<close>: the words \<open>L\<close> of \<open>p\<close> are disjoint and lie in the body of the page.\<close>

definition words_ok :: "nat list \<Rightarrow> mem \<Rightarrow> bool" where
  "words_ok L p \<longleftrightarrow> spread L \<and> list_all (\<lambda>a. 28 \<le> a \<and> a + 4 \<le> length p) L"

lemma words_okD:
  "words_ok (A @ B) p \<Longrightarrow> words_ok A p" "words_ok (A @ B) p \<Longrightarrow> words_ok B p"
  "words_ok (A @ B) p \<Longrightarrow> a \<in> set B \<Longrightarrow> list_all (apart a) A"
  "words_ok (A @ B) p \<Longrightarrow> a \<in> set A \<Longrightarrow> list_all (apart a) B"
  "words_ok A p \<Longrightarrow> list_all (\<lambda>a. 28 \<le> a) A"
  by (auto simp: words_ok_def spread_append list_all_iff apart_sym)

lemma words_ok_swap: "words_ok (A @ B @ C) p \<Longrightarrow> words_ok (B @ A @ C) p"
  by (auto simp: words_ok_def spread_append list_all_iff) (subst apart_sym, blast)

lemma words_ok_swap2: "words_ok (A @ B) p \<Longrightarrow> words_ok (B @ A) p"
  using words_ok_swap [of A B "[]"] by simp

lemma swaps_swap: "words_ok (A @ B @ C) p \<Longrightarrow> swaps (A @ B @ C) p = swaps (B @ A @ C) p"
  by (simp add: swaps_append)
     (subst swaps_commute [of A B p], auto simp: words_ok_def spread_append apart_sym)

lemma swaps_cancel': "words_ok (A @ B) p \<Longrightarrow> swaps A (swaps (A @ B) p) = swaps B p"
  by (rule swaps_cancel) (auto simp: words_ok_def list_all_iff)

lemma DATAP_swaps:
  "words_ok (bucket_words p i @ R) p \<Longrightarrow> DATAP (swaps R p) i = DATAP p i"
  using words_okD(4) [of "bucket_words p i" R p "pair_pos i + 8"]
  by (simp add: DATAP_def DATAP_OFF_def bucket_words_def words_from_code)

lemma swap_out_bucket_swaps:
  "words_ok (A @ concat (map (bucket_words p) [i..<i + n])) p \<Longrightarrow>
     swap_out_bucket i n (swaps A p) = swaps (A @ concat (map (bucket_words p) [i..<i + n])) p"
proof (induction n arbitrary: i A)
  case (Suc n)
  let ?R = "concat (map (bucket_words p) [Suc i..<Suc i + n])"
  have split: "concat (map (bucket_words p) [i..<i + Suc n]) = bucket_words p i @ ?R"
    by (simp add: upt_conv_Cons del: upt_Suc)
  have ok: "words_ok ((A @ bucket_words p i) @ ?R) p"
    using Suc.prems unfolding split by simp
  have "words_ok (bucket_words p i @ A) p"
    by (rule words_ok_swap2 [OF words_okD(1) [OF ok]])
  then have d: "DATAP (swaps A p) i = DATAP p i"
    by (rule DATAP_swaps)
  have "swap_out_bucket i (Suc n) (swaps A p) = swap_out_bucket (Suc i) n (swaps (A @ bucket_words p i) p)"
    by (simp add: Let_def d group_swaps bucket_words_def swaps_append words_from_code swaps_Cons)
  also have "\<dots> = swaps ((A @ bucket_words p i) @ ?R) p"
    by (rule Suc.IH [OF ok])
  finally show ?case unfolding split by simp
qed simp

lemma swap_in_bucket_swaps:
  assumes "n = unat (NUM_ENT p)" "i \<le> n" "words_ok (concat (map (bucket_words p) [i..<n])) p"
  shows "swap_in_bucket i (swaps (concat (map (bucket_words p) [i..<n])) p) = p"
  using assms(2,3)
proof (induction "n - i" arbitrary: i)
  case 0
  then show ?case using assms(1) by (subst swap_in_bucket.simps) simp
next
  case (Suc k)
  then have i: "i < n" and i': "i < unat (NUM_ENT p)" using assms(1) by simp_all
  let ?R = "concat (map (bucket_words p) [Suc i..<n])"
  let ?D = "words_from (DATAP p i) 4" and ?I = "words_from (pair_pos i) 3"
  have split: "concat (map (bucket_words p) [i..<n]) = ?D @ ?I @ ?R"
    using i by (simp add: upt_conv_Cons bucket_words_def)
  have ok: "words_ok (?D @ ?I @ ?R) p"
    using Suc.prems(2) unfolding split .
  have ok': "words_ok (?I @ ?D @ ?R) p"
    by (rule words_ok_swap [OF ok])
  have num: "NUM_ENT (swaps (?D @ ?I @ ?R) p) = NUM_ENT p"
    by (rule header_fields_swaps) (rule words_okD(5) [OF ok])
  have I: "swaps ?I (swaps (?D @ ?I @ ?R) p) = swaps (?D @ ?R) p"
    unfolding swaps_swap [OF ok] by (rule swaps_cancel' [OF ok'])
  have D: "DATAP (swaps (?D @ ?R) p) i = DATAP p i"
  proof -
    have "list_all (apart (pair_pos i + 8)) (?D @ ?R)"
      by (rule words_okD(4) [OF ok']) (simp add: words_from_code)
    then show ?thesis by (simp only: DATAP_def DATAP_OFF_def rd32_swaps)
  qed
  have R: "swaps ?D (swaps (?D @ ?R) p) = swaps ?R p"
    by (rule swaps_cancel' [OF words_okD(2) [OF ok']])
  have step: "M_32_SWAP (M_32_SWAP (M_32_SWAP m (pair_pos i)) (pair_pos i + 4)) (pair_pos i + 8) = swaps ?I m"
    for m by (simp add: words_from_code swaps_Cons)
  have "swap_in_bucket i (swaps (?D @ ?I @ ?R) p) = swap_in_bucket (Suc i) (swaps ?R p)"
    by (subst swap_in_bucket.simps) (simp only: Let_def step I D num i' group_swaps R if_True)
  also have "\<dots> = p"
    by (rule Suc.hyps(1)) (use Suc.hyps(2) i words_okD(2) [OF words_okD(2) [OF ok]] in auto)
  finally show ?case unfolding split .
qed

lemma NUM_ENT_swaps_ok: "words_ok L p \<Longrightarrow> NUM_ENT (swaps L p) = NUM_ENT p"
  by (rule header_fields_swaps) (simp add: words_ok_def list_all_iff)

lemma swap_out_data_swaps:
  "words_ok (A @ data_chain p n (unat a)) p \<Longrightarrow>
     swap_out_data n a (swaps A p) = swaps (A @ data_chain p n (unat a)) p"
proof (induction n arbitrary: a A)
  case (Suc n)
  let ?W = "words_from (unat a) 5" and ?b = "rd32 p (unat a + 8)"
  have ok: "words_ok ((A @ ?W) @ data_chain p n (unat ?b)) p"
    using Suc.prems by simp
  have "list_all (apart (unat a + 8)) A"
    by (rule words_okD(3) [OF words_okD(1) [OF ok]]) (simp add: words_from_code)
  then have "dh_next (rd_data_header (swaps A p) (unat a)) = ?b"
    by (simp add: rd_data_header_def)
  then have "swap_out_data (Suc n) a (swaps A p) = swap_out_data n ?b (swaps (A @ ?W) p)"
    by (simp only: swap_out_data.simps Let_def group_swaps swaps_append)
  also have "\<dots> = swaps ((A @ ?W) @ data_chain p n (unat ?b)) p"
    by (rule Suc.IH [OF ok])
  finally show ?case by simp
qed simp

lemma swap_in_data_swaps:
  "words_ok (data_chain p n (unat a)) p \<Longrightarrow>
     swap_in_data n a (swaps (data_chain p n (unat a)) p) = p"
proof (induction n arbitrary: a)
  case (Suc n)
  let ?W = "words_from (unat a) 5" and ?b = "rd32 p (unat a + 8)"
  let ?R = "data_chain p n (unat ?b)"
  have ok: "words_ok (?W @ ?R) p"
    using Suc.prems by simp
  have "list_all (apart (unat a + 8)) ?R"
    by (rule words_okD(4) [OF ok]) (simp add: words_from_code)
  then have "dh_next (rd_data_header (swaps ?R p) (unat a)) = ?b"
    by (simp add: rd_data_header_def)
  then have "swap_in_data (Suc n) a (swaps (?W @ ?R) p) = swap_in_data n ?b (swaps ?R p)"
    by (simp only: swap_in_data.simps Let_def group_swaps swaps_cancel' [OF ok])
  also have "\<dots> = p"
    by (rule Suc.IH [OF words_okD(2) [OF ok]])
  finally show ?case by simp
qed simp

lemma words_from_Suc: "words_from (c + i * 4) (Suc n) = (c + i * 4) # words_from (c + Suc i * 4) n"
  by (simp add: words_from_def upt_conv_Cons map_Suc_upt [symmetric] del: upt_Suc)

lemma swap_out_free_swaps: "swap_out_free i n p = swaps (words_from (28 + i * 4) n) p"
  by (induction n arbitrary: i p) (simp_all only: swap_out_free.simps words_from_Suc swaps_Cons
      words_from_0_Suc(1) swaps_Nil)

lemma swap_in_free_swaps:
  assumes "n = unat (NUM_ENT p)" "i \<le> n" "words_ok (words_from (28 + i * 4) (n - i)) p"
  shows "swap_in_free i (swaps (words_from (28 + i * 4) (n - i)) p) = p"
  using assms(2,3)
proof (induction "n - i" arbitrary: i)
  case 0
  then show ?case using assms(1) by (subst swap_in_free.simps) (simp add: words_from_0_Suc)
next
  case (Suc k)
  then have i: "i < n" and i': "i < unat (NUM_ENT p)" using assms(1) by simp_all
  let ?R = "words_from (28 + Suc i * 4) (n - Suc i)"
  have split: "words_from (28 + i * 4) (n - i) = [28 + i * 4] @ ?R"
    using words_from_Suc [of 28 i "n - Suc i"] i by (simp add: Suc_diff_Suc)
  have ok: "words_ok ([28 + i * 4] @ ?R) p"
    using Suc.prems(2) unfolding split .
  have "M_32_SWAP m (28 + i * 4) = swaps [28 + i * 4] m" for m
    by (simp add: swaps_Cons)
  then have "swap_in_free i (swaps ([28 + i * 4] @ ?R) p) = swap_in_free (Suc i) (swaps ?R p)"
    by (subst swap_in_free.simps)
       (simp only: NUM_ENT_swaps_ok [OF ok] i' if_True swaps_cancel' [OF ok])
  also have "\<dots> = p"
    by (rule Suc.hyps(1)) (use Suc.hyps(2) i words_okD(2) [OF ok] in auto)
  finally show ?case unfolding split .
qed

lemma swap_out_config_swaps:
  "swap_out_config i n p = swaps (concat (map config_words [i..<i + n])) p"
proof (induction n arbitrary: i p)
  case (Suc n)
  have split: "concat (map config_words [i..<i + Suc n])
      = config_words i @ concat (map config_words [Suc i..<Suc i + n])"
    by (simp add: upt_conv_Cons del: upt_Suc)
  show ?case
    by (simp only: split swap_out_config.simps Suc.IH swaps_append group_swaps
        config_words_def [symmetric])
qed simp

lemma swap_in_config_swaps:
  assumes "n = unat (NUM_ENT p)" "i \<le> n" "words_ok (concat (map config_words [i..<n])) p"
  shows "swap_in_config i (swaps (concat (map config_words [i..<n])) p) = p"
  using assms(2,3)
proof (induction "n - i" arbitrary: i)
  case 0
  then show ?case using assms(1) by (subst swap_in_config.simps) simp
next
  case (Suc k)
  then have i: "i < n" and i': "i < unat (NUM_ENT p)" using assms(1) by simp_all
  let ?R = "concat (map config_words [Suc i..<n])"
  have split: "concat (map config_words [i..<n]) = config_words i @ ?R"
    using i by (simp add: upt_conv_Cons)
  have ok: "words_ok (config_words i @ ?R) p"
    using Suc.prems(2) unfolding split .
  have "swap_in_config i (swaps (config_words i @ ?R) p) = swap_in_config (Suc i) (swaps ?R p)"
    by (subst swap_in_config.simps)
       (simp only: NUM_ENT_swaps_ok [OF ok] i' if_True swaps_cancel' [OF ok]
          group_swaps config_words_def [symmetric])
  also have "\<dots> = p"
    by (rule Suc.hyps(1)) (use Suc.hyps(2) i words_okD(2) [OF ok] in auto)
  finally show ?case unfolding split .
qed

section \<open>The round trips\<close>

lemma words_ok_length: "length p = length q \<Longrightarrow> words_ok L p \<longleftrightarrow> words_ok L q"
  by (simp add: words_ok_def)

lemma bucket_words_header [simp]: "bucket_words (swap_page_header p) i = bucket_words p i"
  by (simp add: bucket_words_def DATAP_def DATAP_OFF_def pair_pos_def PAGE_OVERHEAD_def)

lemma data_chain_header:
  "words_ok (data_chain p n a) p \<Longrightarrow> data_chain (swap_page_header p) n a = data_chain p n a"
proof (induction n arbitrary: a)
  case (Suc n)
  have "28 \<le> a"
    using Suc.prems by (simp add: words_ok_def words_from_code)
  moreover have "words_ok (data_chain p n (unat (rd32 p (a + 8)))) p"
    using Suc.prems by (simp add: words_okD(2))
  ultimately show ?case
    using Suc.IH by simp
qed simp

lemma page_wf_ok: "page_wf p \<Longrightarrow> words_ok (swap_positions p) p"
  by (simp add: page_wf_def words_ok_def)

lemma swap_out_eq:
  assumes "page_wf p"
  shows "ffdb_swap_page_metainfo_out p = swap_page_header (swaps (swap_positions p) p)"
proof -
  let ?q = "swap_page_header p" and ?t = "ucast (PTYPE p) :: u32" and ?n = "unat (NUM_ENT p)"
  have ok: "words_ok (swap_positions p) p"
    by (rule page_wf_ok [OF assms])
  have len: "words_ok L ?q = words_ok L p" for L
    by (rule words_ok_length) simp
  have bucket: "swap_out_bucket 0 ?n ?q = swaps (swap_positions p) ?q" if "?t = HASH_BUCKET_PAGE"
    using swap_out_bucket_swaps [of "[]" ?q 0 ?n] ok that
    by (simp add: swap_positions_def len cong: map_cong)
  have data: "swap_out_data ?n (FIRST_DATA_POS ?q) (M_32_SWAP ?q 28) = swaps (swap_positions p) ?q"
    if "?t \<noteq> HASH_BUCKET_PAGE" "?t = HASH_DATA_PAGE"
  proof -
    let ?L = "data_chain p ?n (unat (FIRST_DATA_POS p))"
    have ok': "words_ok ([28] @ ?L) p"
      using ok that by (simp add: swap_positions_def ffdb_consts)
    have fd: "FIRST_DATA_POS ?q = FIRST_DATA_POS p"
      by (simp add: FIRST_DATA_POS_def)
    have ch: "data_chain ?q ?n (unat (FIRST_DATA_POS p)) = ?L"
      by (rule data_chain_header [OF words_okD(2) [OF ok']])
    have "M_32_SWAP ?q 28 = swaps [28] ?q"
      by (simp add: swaps_Cons)
    then show ?thesis
      using swap_out_data_swaps [of "[28]" ?q ?n "FIRST_DATA_POS p"] ok' that
      by (simp add: swap_positions_def len ch fd)
  qed
  have "ffdb_swap_page_metainfo_out p = swaps (swap_positions p) ?q"
    unfolding ffdb_swap_page_metainfo_out_def Let_def
    using bucket data swap_out_free_swaps [of 0 ?n ?q] swap_out_config_swaps [of 0 ?n ?q]
    by (simp add: swap_positions_def swaps_Cons)
  also have "\<dots> = swap_page_header (swaps (swap_positions p) p)"
    by (rule swap_page_header_swaps [symmetric]) (rule words_okD(5) [OF ok])
  finally show ?thesis .
qed

lemma swap_in_eq:
  assumes "page_wf p"
  shows "ffdb_swap_page_metainfo_in (swap_page_header (swaps (swap_positions p) p)) = p"
proof -
  let ?m = "swaps (swap_positions p) p" and ?t = "ucast (PTYPE p) :: u32" and ?n = "unat (NUM_ENT p)"
  have ok: "words_ok (swap_positions p) p"
    by (rule page_wf_ok [OF assms])
  have hdr: "swap_page_header (swap_page_header ?m) = ?m"
    by (rule swap_page_header_twice) (use assms in \<open>simp add: page_wf_def\<close>)
  have flds: "PTYPE ?m = PTYPE p" "NUM_ENT ?m = NUM_ENT p"
    using words_okD(5) [OF ok] by simp_all
  have bucket: "swap_in_bucket 0 ?m = p" if "?t = HASH_BUCKET_PAGE"
    using swap_in_bucket_swaps [of ?n p 0] ok that by (simp add: swap_positions_def)
  have data: "swap_in_data ?n (FIRST_DATA_POS (M_32_SWAP ?m 28)) (M_32_SWAP ?m 28) = p"
    if "?t \<noteq> HASH_BUCKET_PAGE" "?t = HASH_DATA_PAGE"
  proof -
    let ?L = "data_chain p ?n (unat (FIRST_DATA_POS p))"
    have L: "swap_positions p = [28] @ ?L"
      using that by (simp add: swap_positions_def ffdb_consts)
    have ok': "words_ok ([28] @ ?L) p"
      using ok by (simp add: L)
    have m: "M_32_SWAP ?m 28 = swaps ?L p"
      using swaps_cancel' [OF ok'] by (simp add: L swaps_Cons)
    have "list_all (apart 28) ?L"
      by (rule words_okD(4) [OF ok']) simp
    then have "FIRST_DATA_POS (swaps ?L p) = FIRST_DATA_POS p"
      by (simp add: FIRST_DATA_POS_def)
    then show ?thesis
      unfolding m using swap_in_data_swaps [OF words_okD(2) [OF ok']] by simp
  qed
  have free: "swap_in_free 0 ?m = p" if "?t = HASH_FREE_PAGE"
    using swap_in_free_swaps [of ?n p 0] ok that by (simp add: swap_positions_def ffdb_consts)
  have config: "swap_in_config 0 ?m = p" if "?t = HASH_CONFIG_PAGE"
    using swap_in_config_swaps [of ?n p 0] ok that by (simp add: swap_positions_def ffdb_consts)
  have uinfo: "M_32_SWAP ?m 28 = p" if "?t = HASH_UINFO_PAGE"
    using ok that by (simp add: swap_positions_def ffdb_consts swaps_Cons words_ok_def)
  have other: "?m = p" if "?t \<noteq> HASH_BUCKET_PAGE" "?t \<noteq> HASH_DATA_PAGE" "?t \<noteq> HASH_FREE_PAGE"
      "?t \<noteq> HASH_UINFO_PAGE" "?t \<noteq> HASH_CONFIG_PAGE"
    using that by (simp add: swap_positions_def)
  show ?thesis
    unfolding ffdb_swap_page_metainfo_in_def Let_def hdr flds
    using bucket data free uinfo config other by simp
qed

lemma checksum_set_CHKSUM [simp]:
  "ffdb_page_checksum hdr (set_CHKSUM v p) = ffdb_page_checksum hdr p"
  by (simp add: ffdb_page_checksum_def set_CHKSUM_def)

lemma header_set_CHKSUM [simp]:
  "PAGE_SIGN (set_CHKSUM v p) = PAGE_SIGN p" "PTYPE (set_CHKSUM v p) = PTYPE p"
  "NUM_ENT (set_CHKSUM v p) = NUM_ENT p" "length (set_CHKSUM v p) = length p"
  "24 \<le> length p \<Longrightarrow> CHKSUM (set_CHKSUM v p) = v"
  "set_CHKSUM w (set_CHKSUM v p) = set_CHKSUM w p"
  by (simp_all add: page_fields)

lemma rd32_set_CHKSUM [simp]: "28 \<le> a \<Longrightarrow> rd32 (set_CHKSUM v p) a = rd32 p a"
  by (simp add: set_CHKSUM_def)

lemma data_chain_set_CHKSUM:
  "words_ok (data_chain p n a) p \<Longrightarrow> data_chain (set_CHKSUM v p) n a = data_chain p n a"
proof (induction n arbitrary: a)
  case (Suc n)
  have "28 \<le> a"
    using Suc.prems by (simp add: words_ok_def words_from_code)
  moreover have "words_ok (data_chain p n (unat (rd32 p (a + 8)))) p"
    using Suc.prems by (simp add: words_okD(2))
  ultimately show ?case
    using Suc.IH by simp
qed simp

lemma bucket_words_set_CHKSUM [simp]: "bucket_words (set_CHKSUM v p) i = bucket_words p i"
  by (simp add: bucket_words_def DATAP_def DATAP_OFF_def pair_pos_def PAGE_OVERHEAD_def)

lemma swap_positions_set_CHKSUM [simp]:
  assumes "page_wf p"
  shows "swap_positions (set_CHKSUM v p) = swap_positions p"
proof (cases "ucast (PTYPE p) = HASH_DATA_PAGE \<and> ucast (PTYPE p) \<noteq> HASH_BUCKET_PAGE")
  case True
  then have "words_ok ([28] @ data_chain p (unat (NUM_ENT p)) (unat (FIRST_DATA_POS p))) p"
    using page_wf_ok [OF assms] by (auto simp: swap_positions_def Let_def)
  then have "data_chain (set_CHKSUM v p) (unat (NUM_ENT p)) (unat (FIRST_DATA_POS p))
      = data_chain p (unat (NUM_ENT p)) (unat (FIRST_DATA_POS p))"
    by (intro data_chain_set_CHKSUM) (rule words_okD(2))
  then show ?thesis
    using True by (auto simp: swap_positions_def FIRST_DATA_POS_def Let_def)
next
  case False
  then show ?thesis by (auto simp: swap_positions_def Let_def cong: map_cong)
qed

lemma page_wf_set_CHKSUM [simp]: "page_wf p \<Longrightarrow> page_wf (set_CHKSUM v p)"
  by (simp add: page_wf_def [of "set_CHKSUM v p"]) (simp add: page_wf_def)

lemma swap_page_header_set_CHKSUM:
  assumes "28 \<le> length p"
  shows "swap_page_header (set_CHKSUM v p) = set_CHKSUM (bswap32 v) (swap_page_header p)"
proof -
  let ?r = "M_16_SWAP (M_16_SWAP p 16) 18"
  have w: "M_16_SWAP (wr32 m 20 v) a = wr32 (M_16_SWAP m a) 20 v" if "a + 2 \<le> 20" for m a v
    using that unfolding M_16_SWAP_def by (simp add: wr32_def wr16_def mem_put_commute)
  have s: "M_32_SWAP (wr32 m 20 v) a = wr32 (M_32_SWAP m a) 20 v" if "apart 20 a" for m a v
    using that wr32_swaps [of 20 "[a]" m v] by (simp add: swaps_Cons)
  have "M_32_SWAP (wr32 m 20 v) 20 = wr32 (M_32_SWAP m 20) 20 (bswap32 v)" if "24 \<le> length m" for m
    using that by (simp add: M_32_SWAP_def)
  then show ?thesis
    using assms by (simp add: swap_page_header_alt set_CHKSUM_def swaps_Cons w s apart_def)
qed

lemma swap_out_set_CHKSUM:
  assumes "page_wf p"
  shows "ffdb_swap_page_metainfo_out (set_CHKSUM v p) = set_CHKSUM (bswap32 v) (ffdb_swap_page_metainfo_out p)"
proof -
  have len: "28 \<le> length p" using assms by (simp add: page_wf_def)
  have "list_all (apart 20) (swap_positions p)"
    using words_okD(5) [OF page_wf_ok [OF assms]] by (auto simp: list_all_iff apart_def)
  then have "swaps (swap_positions p) (set_CHKSUM v p) = set_CHKSUM v (swaps (swap_positions p) p)"
    by (simp add: set_CHKSUM_def wr32_swaps)
  then show ?thesis
    using assms len by (simp add: swap_out_eq swap_page_header_set_CHKSUM)
qed

text \<open>C20: Swapping a well-formed page out for the disk and swapping it in again gives the
  page back, byte for byte, for every type of page.\<close>
theorem swap_in_out:
  assumes "page_wf p"
  shows "ffdb_swap_page_metainfo_in (ffdb_swap_page_metainfo_out p) = p"
  using swap_in_eq [OF assms] by (simp only: swap_out_eq [OF assms])

text \<open>C18: The read filter undoes the write filter: a well-formed page with the page
  signature, written by \<open>ffdb_pgout_routine\<close> and read by \<open>ffdb_pgin_routine\<close>, comes back
  unchanged but for its checksum field, whether or not the file has the byte order of the
  machine; the checksum test never ends the program on it.\<close>
theorem pgin_pgout:
  assumes "page_wf p" "PAGE_SIGN p = FFDB_PAGE_MAGIC"
  shows "ffdb_pgin_routine hdr mborder pg' (ffdb_pgout_routine hdr mborder pg p)
    = Some (set_CHKSUM (ffdb_page_checksum hdr
        (if h_lorder hdr \<noteq> mborder then ffdb_swap_page_metainfo_out p else p)) p)"
proof -
  have len: "28 \<le> length p" using assms(1) by (simp add: page_wf_def)
  show ?thesis
  proof (cases "h_lorder hdr \<noteq> mborder")
    case True
    let ?c = "ffdb_page_checksum hdr (ffdb_swap_page_metainfo_out p)"
    have "ffdb_pgout_routine hdr mborder pg p = ffdb_swap_page_metainfo_out (set_CHKSUM ?c p)"
      using True assms(1) by (simp add: ffdb_pgout_routine_def swap_out_set_CHKSUM Let_def)
    moreover have "ffdb_page_checksum hdr (ffdb_swap_page_metainfo_out (set_CHKSUM ?c p)) = ?c"
      using assms(1) by (simp add: swap_out_set_CHKSUM)
    moreover have "ffdb_swap_page_metainfo_in (ffdb_swap_page_metainfo_out (set_CHKSUM ?c p)) = set_CHKSUM ?c p"
      using swap_in_eq [of "set_CHKSUM ?c p"] assms(1) by (simp add: swap_out_eq)
    ultimately show ?thesis
      using True assms(2) len by (simp add: ffdb_pgin_routine_def Let_def)
  next
    case False
    then show ?thesis
      using assms(2) len by (simp add: ffdb_pgin_routine_def ffdb_pgout_routine_def Let_def)
  qed
qed

lemma nth_pgout_native:
  "h_lorder hdr = mborder \<Longrightarrow> i < length p \<Longrightarrow> i < 20 \<or> 24 \<le> i \<Longrightarrow> 24 \<le> length p \<Longrightarrow>
     ffdb_pgout_routine hdr mborder pg p ! i = p ! i"
  by (auto simp: ffdb_pgout_routine_def Let_def set_CHKSUM_def wr32_def nth_mem_put)

lemma mem_get_list_update:
  "off + n \<le> length m \<Longrightarrow> mem_get (m[i := b]) off n =
     (if off \<le> i \<and> i < off + n then (mem_get m off n)[i - off := b] else mem_get m off n)"
  by (auto simp: mem_get_def drop_update_swap take_update_swap list_update_beyond)

lemma page_checksum_detects:
  assumes "length p = unat (h_bsize hdr)" "24 \<le> length p" "i < length p" "i < 20 \<or> 24 \<le> i" "p ! i \<noteq> b"
  shows "ffdb_page_checksum hdr (p[i := b]) \<noteq> ffdb_page_checksum hdr p"
proof (cases "i < 20")
  case True
  have "mem_get p 0 20 ! i \<noteq> b" using True assms by (simp add: mem_get_def)
  then have "ffdb_crc32_checksum 0 ((mem_get p 0 20)[i := b]) \<noteq> ffdb_crc32_checksum 0 (mem_get p 0 20)"
    using True assms by (intro crc32_one_byte) auto
  then show ?thesis
    using True assms by (auto simp: ffdb_page_checksum_def mem_get_list_update dest: crc32_inj)
next
  case False
  have "mem_get p 24 (length p - 24) ! (i - 24) \<noteq> b" using False assms by (simp add: mem_get_def)
  then have "ffdb_crc32_checksum c ((mem_get p 24 (length p - 24))[i - 24 := b])
      \<noteq> ffdb_crc32_checksum c (mem_get p 24 (length p - 24))" for c
    using False assms by (intro crc32_one_byte) auto
  then show ?thesis
    using False assms by (simp add: ffdb_page_checksum_def mem_get_list_update)
qed

lemma rd32_list_update [simp]: "i < a \<or> a + 4 \<le> i \<Longrightarrow> rd32 (m[i := b]) a = rd32 m a"
  by (auto simp: rd32_def mem_get_def drop_update_swap)

lemma rd32_list_update_neq:
  assumes "a \<le> i" "i < a + 4" "a + 4 \<le> length m" "m ! i \<noteq> b"
  shows "rd32 (m[i := b]) a \<noteq> rd32 m a"
proof
  assume e: "rd32 (m[i := b]) a = rd32 m a"
  have "wr32 (m[i := b]) a (rd32 m a) ! i = wr32 m a (rd32 m a) ! i"
    using assms by (simp add: wr32_def nth_mem_put)
  moreover have "wr32 (m[i := b]) a (rd32 m a) = m[i := b]"
    using wr32_rd32 [of a "m[i := b]"] assms(3) by (simp add: e)
  moreover have "wr32 m a (rd32 m a) = m" using wr32_rd32 [of a m] assms(3) by simp
  ultimately show False using assms by simp
qed

text \<open>C19: Damage to a page on the disk. If one byte of a page that \<open>ffdb_pgout_routine\<close> wrote is
  changed, and the file has the byte order of the machine, \<open>ffdb_pgin_routine\<close> ends the program
  instead of returning the page, with one exception: a change in the four bytes of the
  signature is taken for a page that was never written, and a new page of type
  \<open>HASH_DELETED_PAGE\<close> is made in its place.\<close>
theorem pgin_detects_damage:
  assumes "length p = unat (h_bsize hdr)" "28 \<le> length p" "h_lorder hdr = mborder"
    "PAGE_SIGN p = FFDB_PAGE_MAGIC" "q = ffdb_pgout_routine hdr mborder pg p" "i < length p" "q ! i \<noteq> b"
  shows "ffdb_pgin_routine hdr mborder pg' (q[i := b]) =
    (if 12 \<le> i \<and> i < 16 then Some (ffdb_init_page hdr (q[i := b]) pg' HASH_DELETED_PAGE) else None)"
proof -
  have q: "q = set_CHKSUM (ffdb_page_checksum hdr p) p"
    using assms(3,5) by (simp add: ffdb_pgout_routine_def)
  have len: "length q = length p" by (simp add: q)
  have sum: "ffdb_page_checksum hdr q = ffdb_page_checksum hdr p" "CHKSUM q = ffdb_page_checksum hdr p"
    "PAGE_SIGN q = FFDB_PAGE_MAGIC"
    using assms(1,2,4) by (simp add: q, auto simp: q PAGE_SIGN_def CHKSUM_def set_CHKSUM_def)
  show ?thesis
  proof (cases "12 \<le> i \<and> i < 16")
    case True
    then have "PAGE_SIGN (q[i := b]) \<noteq> FFDB_PAGE_MAGIC"
      using rd32_list_update_neq [of 12 i q b] assms(2,7) len sum(3) by (simp add: PAGE_SIGN_def)
    then show ?thesis using True assms(3) by (simp add: ffdb_pgin_routine_def)
  next
    case False
    then have "i < 12 \<or> 12 + 4 \<le> i" by linarith
    then have sign: "PAGE_SIGN (q[i := b]) = FFDB_PAGE_MAGIC" using sum(3) by (simp only: PAGE_SIGN_def rd32_list_update)
    have "ffdb_page_checksum hdr (q[i := b]) \<noteq> CHKSUM (q[i := b])"
    proof (cases "20 \<le> i \<and> i < 24")
      case True
      then have "CHKSUM (q[i := b]) \<noteq> CHKSUM q"
        using rd32_list_update_neq [of 20 i q b] assms(2,7) len by (simp add: CHKSUM_def)
      moreover have "ffdb_page_checksum hdr (q[i := b]) = ffdb_page_checksum hdr q"
        using True assms(1,2) len by (simp add: ffdb_page_checksum_def mem_get_list_update)
      ultimately show ?thesis using sum by simp
    next
      case False
      then have "ffdb_page_checksum hdr (q[i := b]) \<noteq> ffdb_page_checksum hdr q"
        using assms len by (intro page_checksum_detects) auto
      moreover have "i < 20 \<or> 20 + 4 \<le> i" using False by linarith
      then have "CHKSUM (q[i := b]) = CHKSUM q" by (simp only: CHKSUM_def rd32_list_update)
      ultimately show ?thesis using sum by simp
    qed
    then show ?thesis using False sign assms(3) by (simp add: ffdb_pgin_routine_def)
  qed
qed

section \<open>Witnesses\<close>

text \<open>A bucket page of 64 bytes with one pair, and a header for it.\<close>

definition wit_page :: mem where
  "wit_page = wr32 (wr16 (wr16 (wr32 (replicate 64 0) 12 FFDB_PAGE_MAGIC) 16 1) 18 0x1001) 36 44"

definition wit_hdr :: "u32 \<Rightarrow> hashhdr" where
  "wit_hdr order = \<lparr>h_magic = 0, h_version = 5, h_lorder = order, h_bsize = 64, h_bshift = 6,
     h_ovfl_point = 0, h_max_bucket = 1, h_high_mask = 3, h_low_mask = 1, h_ffactor = 1, h_nkeys = 1,
     h_hdrpages = 1, h_uinfolen = 0, h_uinfo_page = 0, h_uinfo_npages = 0, h_cfig_page = 0,
     h_cfig_npages = 0, h_num_cfigs = 0, h_charkey = 0, h_num_moved_pages = 0,
     h_spares = replicate 32 0, h_free_pages = replicate 32 0, h_chksum = 0\<rparr>"

lemma wit_page_fields: "page_wf wit_page" "PAGE_SIGN wit_page = FFDB_PAGE_MAGIC" "length wit_page = 64"
  by code_simp+

theorem swap_in_out_witness:
  "page_wf wit_page \<and> ffdb_swap_page_metainfo_in (ffdb_swap_page_metainfo_out wit_page) = wit_page"
  using swap_in_out [OF wit_page_fields(1)] wit_page_fields(1) by simp

theorem pgin_pgout_witness:
  "\<exists>v. ffdb_pgin_routine (wit_hdr BIG_ENDIAN) LITTLE_ENDIAN 3
     (ffdb_pgout_routine (wit_hdr BIG_ENDIAN) LITTLE_ENDIAN 3 wit_page) = Some (set_CHKSUM v wit_page)"
  by (rule exI) (rule pgin_pgout [OF wit_page_fields(1,2)])

theorem pgin_detects_damage_witness:
  "ffdb_pgin_routine (wit_hdr 0) 0 3 ((ffdb_pgout_routine (wit_hdr 0) 0 3 wit_page)[44 := 1]) = None \<and>
   ffdb_pgin_routine (wit_hdr 0) 0 3 ((ffdb_pgout_routine (wit_hdr 0) 0 3 wit_page)[12 := 0]) =
     Some (ffdb_init_page (wit_hdr 0) ((ffdb_pgout_routine (wit_hdr 0) 0 3 wit_page)[12 := 0]) 3 HASH_DELETED_PAGE)"
proof -
  have h: "length wit_page = unat (h_bsize (wit_hdr 0))" "28 \<le> length wit_page" "h_lorder (wit_hdr 0) = 0"
    "44 < length wit_page" "12 < length wit_page"
    by (simp_all add: wit_page_fields(3) wit_hdr_def)
  have "wit_page ! 44 \<noteq> 1" "wit_page ! 12 \<noteq> 0" by code_simp+
  then have q: "ffdb_pgout_routine (wit_hdr 0) 0 3 wit_page ! 44 \<noteq> 1" "ffdb_pgout_routine (wit_hdr 0) 0 3 wit_page ! 12 \<noteq> 0"
    using nth_pgout_native [OF h(3), of 44 wit_page 3] nth_pgout_native [OF h(3), of 12 wit_page 3] h by simp_all
  note D = pgin_detects_damage [OF h(1-3) wit_page_fields(2) refl, where pg' = 3]
  show ?thesis unfolding D [OF h(4) q(1)] D [OF h(5) q(2)] by simp
qed

end
