(* ===== verification/FFDB_MergeSort.thy ===== *)
theory FFDB_MergeSort
  imports FFDB_Prelude "HOL-Library.Multiset"
begin

text \<open>
  The non-recursive merge sort of \<open>filehash/ffdb_pagepool.c\<close> that orders dirty pages
  before they are flushed. The singly linked list is the list of its elements; a pointer
  into it is the rest of the list from there. Nodes that are not yet merged keep their
  original successor in the C code, because only the merged tail is relinked. The sort is
  verified against a comparison that agrees with a linearly ordered key on the elements it
  meets.
\<close>

section \<open>The algorithm\<close>

text \<open>The inner loop: merge \<open>psize\<close> elements from \<open>p\<close> with at most \<open>qsize\<close> from \<open>q\<close>.\<close>

function merge_run ::
    "('a \<Rightarrow> 'a \<Rightarrow> int) \<Rightarrow> nat \<Rightarrow> 'a list \<Rightarrow> nat \<Rightarrow> 'a list \<Rightarrow> 'a list \<Rightarrow> 'a list \<times> 'a list" where
  "merge_run cmp psize p qsize q merged =
     (if psize > 0 \<or> (qsize > 0 \<and> q \<noteq> []) then
        if psize = 0 then merge_run cmp psize p (qsize - 1) (tl q) (merged @ [hd q])
        else if qsize = 0 \<or> q = [] then merge_run cmp (psize - 1) (tl p) qsize q (merged @ [hd p])
        else if cmp (hd p) (hd q) \<le> 0 then
          merge_run cmp (psize - 1) (tl p) qsize q (merged @ [hd p])
        else merge_run cmp psize p (qsize - 1) (tl q) (merged @ [hd q])
      else (merged, q))"
  by pat_completeness auto
termination by (relation "measure (\<lambda>(cmp, psize, p, qsize, q, merged). psize + qsize)") auto

declare merge_run.simps [simp del]

text \<open>\<open>for (i = 0; i < insize; i++) { psize++; q = next(q); if (!q) break; }\<close>\<close>

fun step_q :: "nat \<Rightarrow> 'a list \<Rightarrow> nat \<Rightarrow> nat \<times> 'a list" where
  "step_q 0 q psize = (psize, q)"
| "step_q (Suc n) q psize =
     (let q' = tl q in if q' = [] then (Suc psize, q') else step_q n q' (Suc psize))"

lemma step_q_eq: "q \<noteq> [] \<Longrightarrow> step_q n q psize = (psize + min n (length q), drop n q)"
proof (induction n arbitrary: q psize)
  case (Suc n)
  then obtain x xs where q: "q = x # xs" by (cases q) auto
  show ?case
    using Suc.IH [of xs] by (cases "xs = []") (simp_all add: q)
qed simp

lemma merge_run_rest: "snd (merge_run cmp psize p qsize q merged) = drop qsize q"
proof (induction cmp psize p qsize q merged rule: merge_run.induct)
  case (1 cmp psize p qsize q merged)
  have "q \<noteq> [] \<Longrightarrow> qsize > 0 \<Longrightarrow> drop (qsize - 1) (tl q) = drop qsize q"
    by (cases qsize; cases q) auto
  with 1 show ?case
    by (subst merge_run.simps) auto
qed

text \<open>
  One pass with runs of \<open>insize = 2 ^ k\<close> elements (\<open>insize\<close> starts at 1 and is doubled),
  which counts its merges.
\<close>

function merge_pass ::
    "('a \<Rightarrow> 'a \<Rightarrow> int) \<Rightarrow> nat \<Rightarrow> 'a list \<Rightarrow> 'a list \<Rightarrow> nat \<Rightarrow> 'a list \<times> nat" where
  "merge_pass cmp k p merged nmerges =
     (if p = [] then (merged, nmerges)
      else
        let (psize, q) = step_q (2 ^ k) p 0;
            (merged', q') = merge_run cmp psize p (2 ^ k) q merged
        in merge_pass cmp k q' merged' (nmerges + 1))"
  by pat_completeness auto
termination
proof (relation "measure (\<lambda>(cmp, k, p, merged, n). length p)")
  fix cmp :: "'a \<Rightarrow> 'a \<Rightarrow> int" and k p merged nmerges psize q merged' q' x y
  assume a: "p \<noteq> []" "x = step_q (2 ^ k) p 0" "(psize, q) = x"
    "y = merge_run cmp psize p (2 ^ k) q merged" "(merged', q') = y"
  have "q' = drop (2 ^ k) q"
    using merge_run_rest [of cmp psize p "2 ^ k" q merged] a by (metis snd_conv)
  moreover have "q = drop (2 ^ k) p"
    using a by (simp add: step_q_eq)
  ultimately have "length q' = length p - 2 ^ k - 2 ^ k" by simp
  moreover have "0 < length p" using a(1) by simp
  moreover have "0 < (2::nat) ^ k" by simp
  ultimately have "length q' < length p" by linarith
  then show "((cmp, k, q', merged', nmerges + 1), (cmp, k, p, merged, nmerges))
      \<in> measure (\<lambda>(cmp, k, p, merged, n). length p)" by simp
qed auto

declare merge_pass.simps [simp del]

section \<open>The result of one pass\<close>

fun merge_ref :: "('a \<Rightarrow> 'a \<Rightarrow> int) \<Rightarrow> 'a list \<Rightarrow> 'a list \<Rightarrow> 'a list" where
  "merge_ref cmp [] ys = ys"
| "merge_ref cmp xs [] = xs"
| "merge_ref cmp (x # xs) (y # ys) =
     (if cmp x y \<le> 0 then x # merge_ref cmp xs (y # ys) else y # merge_ref cmp (x # xs) ys)"

lemma merge_ref_Nil [simp]: "merge_ref cmp xs [] = xs"
  by (cases xs) simp_all

lemma mset_merge_ref [simp]: "mset (merge_ref cmp xs ys) = mset xs + mset ys"
  by (induction cmp xs ys rule: merge_ref.induct) auto

lemma set_merge_ref [simp]: "set (merge_ref cmp xs ys) = set xs \<union> set ys"
  by (metis mset_merge_ref set_mset_mset set_mset_union)

lemma length_merge_ref [simp]: "length (merge_ref cmp xs ys) = length xs + length ys"
  by (metis mset_merge_ref size_mset size_union)

lemma merge_run_ref:
  "psize \<le> length p \<Longrightarrow>
     fst (merge_run cmp psize p qsize q merged) = merged @ merge_ref cmp (take psize p) (take qsize q)"
proof (induction cmp psize p qsize q merged rule: merge_run.induct)
  case (1 cmp psize p qsize q merged)
  show ?case
  proof (cases "psize = 0")
    case True
    then show ?thesis
      using 1 by (cases "qsize > 0 \<and> q \<noteq> []"; cases q; cases qsize; subst merge_run.simps) auto
  next
    case False
    with "1.prems" obtain x xs n where p: "p = x # xs" "psize = Suc n" "n \<le> length xs"
      by (cases p; cases psize) auto
    show ?thesis
    proof (cases "qsize = 0 \<or> q = []")
      case True
      then show ?thesis
        using 1 p by (subst merge_run.simps) auto
    next
      case False
      then obtain y ys m where q: "q = y # ys" "qsize = Suc m"
        by (cases q; cases qsize) auto
      show ?thesis
        using 1 p q by (subst merge_run.simps) auto
    qed
  qed
qed

function pass_ref :: "('a \<Rightarrow> 'a \<Rightarrow> int) \<Rightarrow> nat \<Rightarrow> 'a list \<Rightarrow> 'a list" where
  "pass_ref cmp m p =
     (if p = [] \<or> m = 0 then []
      else merge_ref cmp (take m p) (take m (drop m p)) @ pass_ref cmp m (drop m (drop m p)))"
  by pat_completeness auto
termination by (relation "measure (\<lambda>(cmp, m, p). length p)") auto

declare pass_ref.simps [simp del]

lemma merge_pass_ref:
  "merge_pass cmp k p merged n = (merged @ pass_ref cmp (2 ^ k) p, n + (length p + 2 * 2 ^ k - 1) div (2 * 2 ^ k))"
proof (induction "length p" arbitrary: p merged n rule: less_induct)
  case less
  show ?case
  proof (cases "p = []")
    case True
    then show ?thesis by (simp add: merge_pass.simps pass_ref.simps)
  next
    case False
    let ?m = "2 ^ k :: nat"
    have pos: "0 < ?m" by simp
    obtain merged' q' where run: "merge_run cmp (min ?m (length p)) p ?m (drop ?m p) merged = (merged', q')"
      by (cases "merge_run cmp (min ?m (length p)) p ?m (drop ?m p) merged") auto
    have merged': "merged' = merged @ merge_ref cmp (take ?m p) (take ?m (drop ?m p))"
      using merge_run_ref [of "min ?m (length p)" p cmp ?m "drop ?m p" merged] run
      by (simp add: min_def split: if_splits)
    have q': "q' = drop ?m (drop ?m p)"
      using merge_run_rest [of cmp "min ?m (length p)" p ?m "drop ?m p" merged] run by simp
    have "merge_pass cmp k p merged n = merge_pass cmp k q' merged' (n + 1)"
      using False by (subst merge_pass.simps) (simp add: step_q_eq run)
    also have "\<dots> = (merged' @ pass_ref cmp ?m q', n + 1 + (length q' + 2 * ?m - 1) div (2 * ?m))"
      by (rule less) (use False q' in auto)
    finally have unfold: "merge_pass cmp k p merged n
        = (merged' @ pass_ref cmp ?m q', n + 1 + (length q' + 2 * ?m - 1) div (2 * ?m))" .
    have "1 + (length q' + 2 * ?m - 1) div (2 * ?m) = (length p + 2 * ?m - 1) div (2 * ?m)"
    proof (cases "length p \<le> 2 * ?m")
      case True
      then have "2 * ?m \<le> length p + 2 * ?m - 1" "length p + 2 * ?m - 1 < 2 * (2 * ?m)"
        using False pos by (cases p, auto)+
      then have "(length p + 2 * ?m - 1) div (2 * ?m) = 1"
        by (intro div_nat_eqI) simp_all
      moreover have "(length q' + 2 * ?m - 1) div (2 * ?m) = 0"
        using True q' by (intro div_less) auto
      ultimately show ?thesis by simp
    next
      case large: False
      then have "length p + 2 * ?m - 1 = (length q' + 2 * ?m - 1) + 2 * ?m"
        using q' by simp
      moreover have "(x + 2 * ?m) div (2 * ?m) = Suc (x div (2 * ?m))" for x
        using pos by (intro div_add_self2 [THEN trans]) auto
      ultimately show ?thesis by (simp only: plus_1_eq_Suc)
    qed
    then show ?thesis
      using unfold False merged' q' by (simp add: pass_ref.simps [of cmp ?m p])
  qed
qed

lemma mset_pass_ref [simp]: "0 < m \<Longrightarrow> mset (pass_ref cmp m p) = mset p"
proof (induction cmp m p rule: pass_ref.induct)
  case (1 cmp m p)
  have "mset p = mset (take m p) + (mset (take m (drop m p)) + mset (drop m (drop m p)))"
    by (metis append_take_drop_id mset_append)
  with 1 show ?case by (subst pass_ref.simps) auto
qed

lemma length_pass_ref [simp]: "0 < m \<Longrightarrow> length (pass_ref cmp m p) = length p"
  by (metis mset_pass_ref size_mset)

lemma set_pass_ref [simp]: "0 < m \<Longrightarrow> set (pass_ref cmp m p) = set p"
  by (metis mset_pass_ref set_mset_mset)

text \<open>The outer loop: passes with doubled runs until a pass makes at most one merge.\<close>

function merge_loop :: "('a \<Rightarrow> 'a \<Rightarrow> int) \<Rightarrow> nat \<Rightarrow> 'a list \<Rightarrow> 'a list" where
  "merge_loop cmp k l =
     (let (merged, nmerges) = merge_pass cmp k l [] 0
      in if nmerges \<le> 1 then merged else merge_loop cmp (Suc k) merged)"
  by pat_completeness auto
termination
proof (relation "measure (\<lambda>(cmp, k, l). length l - 2 ^ k)")
  fix cmp :: "'a \<Rightarrow> 'a \<Rightarrow> int" and k l x merged nmerges
  assume a: "x = merge_pass cmp k l [] 0" "(merged, nmerges) = x" "\<not> nmerges \<le> 1"
  have n: "nmerges = (length l + 2 * 2 ^ k - 1) div (2 * 2 ^ k)" and m: "merged = pass_ref cmp (2 ^ k) l"
    using a by (simp_all add: merge_pass_ref)
  have "2 * 2 ^ k < length l"
  proof (rule ccontr)
    assume "\<not> ?thesis"
    then have "length l + 2 * 2 ^ k - 1 < 2 * (2 * 2 ^ k)"
      using zero_less_power [of "2 :: nat" k] by linarith
    then have "(length l + 2 * 2 ^ k - 1) div (2 * 2 ^ k) < 2"
      by (rule less_mult_imp_div_less)
    with a n show False by simp
  qed
  then show "((cmp, Suc k, merged), (cmp, k, l)) \<in> measure (\<lambda>(cmp, k, l). length l - 2 ^ k)"
    using diff_less_mono2 [of "2 ^ k" "2 * 2 ^ k" "length l"] by (simp add: m)
qed auto

declare merge_loop.simps [simp del]

definition ffdb_slist_merge_sort :: "('a \<Rightarrow> 'a \<Rightarrow> int) \<Rightarrow> 'a list \<Rightarrow> 'a list" where
  "ffdb_slist_merge_sort cmp l = (if l = [] then [] else merge_loop cmp 0 l)"

section \<open>Correctness\<close>

lemma mset_merge_loop [simp]: "mset (merge_loop cmp k l) = mset l"
proof (induction cmp k l rule: merge_loop.induct)
  case (1 cmp k l)
  then show ?case
    by (subst merge_loop.simps) (simp add: merge_pass_ref Let_def)
qed

lemma mset_merge_sort [simp]: "mset (ffdb_slist_merge_sort cmp l) = mset l"
  by (simp add: ffdb_slist_merge_sort_def)

lemma set_merge_sort [simp]: "set (ffdb_slist_merge_sort cmp l) = set l"
  by (metis mset_merge_sort set_mset_mset)

fun blocks_sorted :: "('a \<Rightarrow> 'b :: linorder) \<Rightarrow> nat \<Rightarrow> nat \<Rightarrow> 'a list \<Rightarrow> bool" where
  "blocks_sorted f m 0 l = (l = [])"
| "blocks_sorted f m (Suc n) l =
     (l = [] \<or> (sorted (map f (take m l)) \<and> blocks_sorted f m n (drop m l)))"

text \<open>
  The interface the sort needs: on the elements of \<open>S\<close> the comparison function agrees with
  the order of a key.
\<close>

locale key_comparison =
  fixes cmp :: "'a \<Rightarrow> 'a \<Rightarrow> int" and key :: "'a \<Rightarrow> 'b :: linorder" and S :: "'a set"
  assumes cmp_le: "x \<in> S \<Longrightarrow> y \<in> S \<Longrightarrow> cmp x y \<le> 0 \<longleftrightarrow> key x \<le> key y"
begin

lemma sorted_merge_ref:
  "set xs \<subseteq> S \<Longrightarrow> set ys \<subseteq> S \<Longrightarrow> sorted (map key xs) \<Longrightarrow> sorted (map key ys) \<Longrightarrow>
     sorted (map key (merge_ref cmp xs ys))"
proof (induction "length xs + length ys" arbitrary: xs ys rule: less_induct)
  case less
  show ?case
  proof (cases "xs = [] \<or> ys = []")
    case False
    then obtain x xs' y ys' where l: "xs = x # xs'" "ys = y # ys'"
      by (meson neq_Nil_conv)
    show ?thesis
    proof (cases "cmp x y \<le> 0")
      case True
      then have "key x \<le> key y" using less.prems l by (simp add: cmp_le)
      moreover have "sorted (map key (merge_ref cmp xs' ys))"
        by (rule less.hyps) (use less.prems l in auto)
      ultimately show ?thesis using True less.prems l by fastforce
    next
      case gt: False
      then have "key y \<le> key x" using less.prems l by (simp add: cmp_le)
      moreover have "sorted (map key (merge_ref cmp xs ys'))"
        by (rule less.hyps) (use less.prems l in auto)
      ultimately show ?thesis using gt less.prems l by fastforce
    qed
  qed (use less.prems in auto)
qed

lemma sorted_pass:
  assumes "0 < m"
  shows "set l \<subseteq> S \<Longrightarrow> blocks_sorted key m (2 * n) l \<Longrightarrow> blocks_sorted key (2 * m) n (pass_ref cmp m l)"
proof (induction n arbitrary: l)
  case 0
  then show ?case by (simp add: pass_ref.simps)
next
  case (Suc n)
  show ?case
  proof (cases "l = []")
    case True
    then show ?thesis by (simp add: pass_ref.simps)
  next
    case False
    let ?a = "take m l" and ?b = "take m (drop m l)" and ?r = "drop m (drop m l)"
    have sub: "set ?a \<subseteq> S" "set ?b \<subseteq> S" "set ?r \<subseteq> S"
      using Suc.prems(1) by (meson set_drop_subset set_take_subset subset_trans)+
    have a: "sorted (map key ?a)" and d: "blocks_sorted key m (Suc (2 * n)) (drop m l)"
      using Suc.prems(2) False by simp_all
    have b: "sorted (map key ?b)" and r: "blocks_sorted key m (2 * n) ?r"
      using d by (cases "drop m l = []"; cases n; simp)+
    have srt: "sorted (map key (merge_ref cmp ?a ?b))"
      by (rule sorted_merge_ref [OF sub(1,2) a b])
    have rest: "blocks_sorted key (2 * m) n (pass_ref cmp m ?r)"
      by (rule Suc.IH [OF sub(3) r])
    have len: "length (merge_ref cmp ?a ?b) = min (2 * m) (length l)"
      by (simp add: min_def) arith
    have un: "pass_ref cmp m l = merge_ref cmp ?a ?b @ pass_ref cmp m ?r"
      using False assms by (simp add: pass_ref.simps [of cmp m l])
    show ?thesis
    proof (cases "2 * m \<le> length l")
      case True
      then have "take (2 * m) (pass_ref cmp m l) = merge_ref cmp ?a ?b"
        "drop (2 * m) (pass_ref cmp m l) = pass_ref cmp m ?r"
        using len by (simp_all only: un) simp_all
      then show ?thesis using srt rest by simp
    next
      case short: False
      then have "?r = []" by simp
      then have "pass_ref cmp m l = merge_ref cmp ?a ?b"
        unfolding un by (simp add: pass_ref.simps)
      moreover have "length (pass_ref cmp m l) \<le> 2 * m"
        using short assms by simp
      ultimately show ?thesis using srt by (cases n) simp_all
    qed
  qed
qed

lemma blocks_sorted_1: "length l \<le> n \<Longrightarrow> blocks_sorted key 1 n l"
proof (induction n arbitrary: l)
  case (Suc n)
  then show ?case by (cases l) auto
qed simp

lemma blocks_sorted_more: "blocks_sorted key m n l \<Longrightarrow> n \<le> n' \<Longrightarrow> blocks_sorted key m n' l"
proof (induction n arbitrary: l n')
  case 0
  then show ?case by (cases n') auto
next
  case (Suc n)
  then show ?case by (cases n') auto
qed

lemma merge_loop_sorts:
  "set l \<subseteq> S \<Longrightarrow> blocks_sorted key (2 ^ k) (2 * n) l \<Longrightarrow>
     sorted (map key (merge_loop cmp k l)) \<and> mset (merge_loop cmp k l) = mset l"
proof (induction "length l - 2 ^ k" arbitrary: k l n rule: less_induct)
  case less
  let ?m = "2 ^ k :: nat" and ?l' = "pass_ref cmp (2 ^ k) l"
  have pos: "0 < ?m" by simp
  have blocks: "blocks_sorted key (2 * ?m) n ?l'"
    by (rule sorted_pass [OF pos less.prems])
  have loop: "merge_loop cmp k l =
      (if (length l + 2 * ?m - 1) div (2 * ?m) \<le> 1 then ?l' else merge_loop cmp (Suc k) ?l')"
    by (subst merge_loop.simps) (simp add: merge_pass_ref)
  show ?case
  proof (cases "length l \<le> 2 * ?m")
    case True
    then have "length l + 2 * ?m - 1 < 2 * (2 * ?m)" using pos by linarith
    then have "(length l + 2 * ?m - 1) div (2 * ?m) < 2"
      by (rule less_mult_imp_div_less)
    then have res: "merge_loop cmp k l = ?l'"
      unfolding loop by (intro if_P) linarith
    have "sorted (map key ?l')"
    proof (cases n)
      case (Suc j)
      have "take (2 * ?m) ?l' = ?l'" using True pos by simp
      then show ?thesis using blocks Suc by auto
    qed (use blocks in simp)
    then show ?thesis unfolding res using pos by simp
  next
    case False
    then have "2 * (2 * ?m) \<le> length l + 2 * ?m - 1" by linarith
    then have "2 \<le> (length l + 2 * ?m - 1) div (2 * ?m)"
      using pos by (simp only: less_eq_div_iff_mult_less_eq mult_2 mult.commute add_pos_pos)
    then have res: "merge_loop cmp k l = merge_loop cmp (Suc k) ?l'"
      unfolding loop by (intro if_not_P) linarith
    have dec: "length ?l' - 2 ^ Suc k < length l - 2 ^ k"
      using diff_less_mono2 [of ?m "2 * ?m" "length l"] False pos by simp
    have sub: "set ?l' \<subseteq> S" using less.prems(1) pos by simp
    have "blocks_sorted key (2 ^ Suc k) (2 * n) ?l'"
      using blocks_sorted_more [OF blocks, of "2 * n"] by simp
    then show ?thesis
      unfolding res using less.hyps [OF dec sub] pos by simp
  qed
qed

lemma merge_sort_sorts:
  "set l \<subseteq> S \<Longrightarrow> sorted (map key (ffdb_slist_merge_sort cmp l)) \<and> mset (ffdb_slist_merge_sort cmp l) = mset l"
  using merge_loop_sorts [of l 0 "length l"] blocks_sorted_more [OF blocks_sorted_1 [OF order_refl], of l "2 * length l"]
  by (simp add: ffdb_slist_merge_sort_def)

end

end
