(* ===== verification/FFDB_PagePool.thy ===== *)
theory FFDB_PagePool
  imports FFDB_MergeSort
begin

text \<open>
  The page pool (\<open>filehash/ffdb_pagepool.c\<close>): a cache of the pages of one file with an
  LRU queue, a hash table of chains and a write-back of dirty pages. A pointer to a bucket
  (or to the page inside it, which the code computes from one another) is a natural number;
  \<open>bkts\<close> maps the live ones to their contents. Each operation runs under the pool's lock,
  so it is one function of the pool; a thread that has to wait on the condition variable of
  a page leaves the pool in the state \<open>Waiting\<close>, and continues with
  \<open>get_page_resume\<close> when its wake-up flag is set. \<open>None\<close> is \<open>abort\<close>, or a use of a
  bucket that is not allocated. \<open>malloc\<close> is taken not to fail.
\<close>

section \<open>The file\<close>

text \<open>
  A regular file: its bytes, the size up to which the device has room, and whether the
  descriptor was opened for writing. A write past the end fills the gap with zeros; a write
  that fails leaves the file as it is; a read returns what is there.
\<close>

record osfile =
  f_data :: mem
  f_room :: nat
  f_writable :: bool

definition file_read :: "osfile \<Rightarrow> nat \<Rightarrow> nat \<Rightarrow> mem" where
  "file_read f off n = mem_get (f_data f) off n"

definition file_write :: "osfile \<Rightarrow> nat \<Rightarrow> mem \<Rightarrow> osfile option" where
  "file_write f off bs =
     (if f_writable f \<and> off + length bs \<le> f_room f
      then Some (f\<lparr>f_data := take off (f_data f) @ replicate (off - length (f_data f)) 0 @ bs
             @ drop (off + length bs) (f_data f)\<rparr>)
      else None)"

section \<open>State\<close>

type_synonym thread = nat

record waiter =
  w_thread :: thread
  w_wakeup :: bool

record bkt =
  b_page :: mem
  b_pgno :: pgno
  b_ref :: u32
  b_waiters :: u32
  b_flags :: u32
  b_owner :: "thread option"
  b_wqh :: "waiter list"

record pagepool =
  lqh :: "nat list"
  hqh :: "nat \<Rightarrow> nat list"
  bkts :: "nat \<Rightarrow> bkt option"
  next_bkt :: nat
  curcache :: u32
  maxcache :: u32
  npages :: u32
  maxpgno :: u32
  pagesize :: u32
  fileflags :: u32
  fd :: int
  close_fd :: bool
  pgin :: "(pgno \<Rightarrow> mem \<Rightarrow> mem option) option"
  pgout :: "(pgno \<Rightarrow> mem \<Rightarrow> mem) option"
  backing :: osfile
  self :: thread
  umem :: "nat \<Rightarrow> mem"
  errno :: int

text \<open>
  \<open>next_bkt\<close> is the next address \<open>malloc\<close> returns and \<open>umem\<close> the contents of the page of
  a fresh block; \<open>self\<close> is the calling thread.
\<close>

definition FFDB_CREATE :: u32 where [ffdb_consts]: "FFDB_CREATE = 0x1"
definition FFDB_RDONLY :: u32 where [ffdb_consts]: "FFDB_RDONLY = 0x20"
definition FFDB_DIRECT :: u32 where [ffdb_consts]: "FFDB_DIRECT = 0x40"
definition FFDB_PAGE_CREATE :: u32 where [ffdb_consts]: "FFDB_PAGE_CREATE = 0x1"
definition FFDB_PAGE_DIRTY :: u32 where [ffdb_consts]: "FFDB_PAGE_DIRTY = 0x2"
definition FFDB_PAGE_EDIT :: u32 where [ffdb_consts]: "FFDB_PAGE_EDIT = 0x4"
definition FFDB_PAGE_NEW :: u32 where [ffdb_consts]: "FFDB_PAGE_NEW = 0x20"
definition FFDB_PAGE_PINNED :: u32 where [ffdb_consts]: "FFDB_PAGE_PINNED = 0x100"
definition FFDB_PAGE_VALID :: u32 where [ffdb_consts]: "FFDB_PAGE_VALID = 0x200"
definition FFDB_PAGE_LOCKED :: u32 where [ffdb_consts]: "FFDB_PAGE_LOCKED = 0x400"
definition FFDB_PAGE_REQUEST :: u32 where [ffdb_consts]: "FFDB_PAGE_REQUEST = 0x2000"
definition FFDB_MAX_PAGE_NUMBER :: u32 where [ffdb_consts]: "FFDB_MAX_PAGE_NUMBER = 0xffffffff"
definition FFDB_CLEANHDR_SIZE :: nat where [ffdb_consts]: "FFDB_CLEANHDR_SIZE = 32"
definition FFDB_WRITE_FRAC :: u32 where [ffdb_consts]: "FFDB_WRITE_FRAC = 5"
definition EBADF :: int where [ffdb_consts]: "EBADF = 9"
definition EAGAIN :: int where [ffdb_consts]: "EAGAIN = 11"
definition EINVAL :: int where [ffdb_consts]: "EINVAL = 22"
definition ENOSPC :: int where [ffdb_consts]: "ENOSPC = 28"

definition FLAG_ISSET :: "u32 \<Rightarrow> u32 \<Rightarrow> bool" where
  "FLAG_ISSET flags f \<longleftrightarrow> flags AND f \<noteq> 0"

definition FLAG_SET :: "u32 \<Rightarrow> u32 \<Rightarrow> u32" where
  "FLAG_SET flags f = flags OR f"

definition FLAG_CLR :: "u32 \<Rightarrow> u32 \<Rightarrow> u32" where
  "FLAG_CLR flags f = flags AND NOT f"

definition HASHKEY :: "pgno \<Rightarrow> nat" where
  "HASHKEY pg = unat ((pg - 1 + 16384) mod 16384)"

definition FFDB_POWER_OF_TWO :: "u32 \<Rightarrow> bool" where
  "FFDB_POWER_OF_TWO x \<longleftrightarrow> x AND (x - 1) = 0"

definition IS_VALID_PAGESIZE :: "u32 \<Rightarrow> bool" where
  "IS_VALID_PAGESIZE x \<longleftrightarrow> FFDB_POWER_OF_TWO x \<and> x \<ge> 0x200 \<and> x \<le> 0x100000"

definition upd_bkt :: "nat \<Rightarrow> (bkt \<Rightarrow> bkt) \<Rightarrow> pagepool \<Rightarrow> pagepool" where
  "upd_bkt b f pgp = pgp\<lparr>bkts := (bkts pgp)(b := map_option f (bkts pgp b))\<rparr>"

lemma upd_bkt_fields [simp]:
  "lqh (upd_bkt b f pgp) = lqh pgp" "hqh (upd_bkt b f pgp) = hqh pgp"
  "next_bkt (upd_bkt b f pgp) = next_bkt pgp" "curcache (upd_bkt b f pgp) = curcache pgp"
  "maxcache (upd_bkt b f pgp) = maxcache pgp" "npages (upd_bkt b f pgp) = npages pgp"
  "maxpgno (upd_bkt b f pgp) = maxpgno pgp" "pagesize (upd_bkt b f pgp) = pagesize pgp"
  "fileflags (upd_bkt b f pgp) = fileflags pgp" "pgin (upd_bkt b f pgp) = pgin pgp"
  "pgout (upd_bkt b f pgp) = pgout pgp" "backing (upd_bkt b f pgp) = backing pgp"
  "self (upd_bkt b f pgp) = self pgp" "umem (upd_bkt b f pgp) = umem pgp"
  "errno (upd_bkt b f pgp) = errno pgp"
  by (simp_all add: upd_bkt_def)

lemma bkts_upd_bkt: "bkts (upd_bkt b f pgp) c = (if c = b then map_option f (bkts pgp b) else bkts pgp c)"
  by (simp add: upd_bkt_def)

text \<open>The two queues of a bucket (\<open>FFDB_CIRCLEQ\<close> as the list of its elements).\<close>

definition hq_remove :: "pgno \<Rightarrow> nat \<Rightarrow> pagepool \<Rightarrow> pagepool" where
  "hq_remove pg b pgp = pgp\<lparr>hqh := (hqh pgp)(HASHKEY pg := remove1 b (hqh pgp (HASHKEY pg)))\<rparr>"

definition hq_insert_head :: "pgno \<Rightarrow> nat \<Rightarrow> pagepool \<Rightarrow> pagepool" where
  "hq_insert_head pg b pgp = pgp\<lparr>hqh := (hqh pgp)(HASHKEY pg := b # hqh pgp (HASHKEY pg))\<rparr>"

definition lq_remove :: "nat \<Rightarrow> pagepool \<Rightarrow> pagepool" where
  "lq_remove b pgp = pgp\<lparr>lqh := remove1 b (lqh pgp)\<rparr>"

definition lq_insert_tail :: "nat \<Rightarrow> pagepool \<Rightarrow> pagepool" where
  "lq_insert_tail b pgp = pgp\<lparr>lqh := lqh pgp @ [b]\<rparr>"

section \<open>Writing pages\<close>

definition pagepool_write :: "pagepool \<Rightarrow> nat \<Rightarrow> (int \<times> pagepool) option" where
  "pagepool_write pgp b = do {
     bp \<leftarrow> bkts pgp b;
     let page = (case pgout pgp of None \<Rightarrow> b_page bp | Some f \<Rightarrow> f (b_pgno bp) (b_page bp));
     let pgp1 = upd_bkt b (b_page_update (\<lambda>_. page)) pgp;
     bytes \<leftarrow> mem_read page 0 (unat (pagesize pgp));
     let (ret, pgp2) =
       (case file_write (backing pgp1) (unat (pagesize pgp) * unat (b_pgno bp)) bytes of
          None \<Rightarrow> (- 1, pgp1\<lparr>errno := if f_writable (backing pgp1) then ENOSPC else EBADF\<rparr>)
        | Some f \<Rightarrow> (0, pgp1\<lparr>backing := f\<rparr>));
     let pgp3 = (if ret = 0 then upd_bkt b (b_flags_update (\<lambda>fl. FLAG_CLR fl FFDB_PAGE_DIRTY)) pgp2
                 else pgp2);
     let pgp4 = (if b_pgno bp \<ge> npages pgp3 then pgp3\<lparr>npages := b_pgno bp + 1\<rparr> else pgp3);
     Some (ret, pgp4)
   }"

definition clean_page_ondisk :: "pagepool \<Rightarrow> pgno \<Rightarrow> int \<times> pagepool" where
  "clean_page_ondisk pgp num =
     (case file_write (backing pgp) (unat (pagesize pgp) * unat num) (replicate (unat (pagesize pgp)) 0) of
        None \<Rightarrow> (- 1, pgp\<lparr>errno := if f_writable (backing pgp) then ENOSPC else EBADF\<rparr>)
      | Some f \<Rightarrow> (0, pgp\<lparr>backing := f\<rparr>))"

text \<open>The comparison of page numbers: the difference of two unsigned numbers as an \<open>int\<close>.\<close>

definition bkt_pgno :: "pagepool \<Rightarrow> nat \<Rightarrow> pgno" where
  "bkt_pgno pgp b = (case bkts pgp b of None \<Rightarrow> 0 | Some bp \<Rightarrow> b_pgno bp)"

definition ffdb_sbkt_cmp :: "pagepool \<Rightarrow> nat \<Rightarrow> nat \<Rightarrow> int" where
  "ffdb_sbkt_cmp pgp b1 b2 = sint (bkt_pgno pgp b1 - bkt_pgno pgp b2)"

definition flushable :: "bkt \<Rightarrow> bool" where
  "flushable bp \<longleftrightarrow> \<not> FLAG_ISSET (b_flags bp) FFDB_PAGE_PINNED \<and> b_waiters bp = 0 \<and>
     FLAG_ISSET (b_flags bp) FFDB_PAGE_DIRTY"

fun sync_collect :: "pagepool \<Rightarrow> u32 \<Rightarrow> nat list \<Rightarrow> u32 \<Rightarrow> nat list \<Rightarrow> nat list option" where
  "sync_collect pgp numpages [] num slh = Some slh"
| "sync_collect pgp numpages (b # l) num slh = do {
     bp \<leftarrow> bkts pgp b;
     if flushable bp then
       (if numpages > 0 \<and> num + 1 \<ge> numpages then Some (b # slh)
        else sync_collect pgp numpages l (num + 1) (b # slh))
     else sync_collect pgp numpages l num slh
   }"

fun sync_writes :: "pagepool \<Rightarrow> nat list \<Rightarrow> (int \<times> pagepool) option" where
  "sync_writes pgp [] = Some (0, pgp)"
| "sync_writes pgp (b # l) = do {
     bp \<leftarrow> bkts pgp b;
     if FLAG_ISSET (b_flags bp) FFDB_PAGE_DIRTY then do {
       (ret, pgp1) \<leftarrow> pagepool_write pgp b;
       if ret \<noteq> 0 then Some (- 1, pgp1) else sync_writes pgp1 l
     } else sync_writes pgp l
   }"

definition pagepool_sync_i :: "pagepool \<Rightarrow> u32 \<Rightarrow> (int \<times> pagepool) option" where
  "pagepool_sync_i pgp numpages = do {
     slh \<leftarrow> sync_collect pgp numpages (lqh pgp) 0 [];
     sync_writes pgp (ffdb_slist_merge_sort (ffdb_sbkt_cmp pgp) slh)
   }"

definition pagepool_sync :: "pagepool \<Rightarrow> (int \<times> pagepool) option" where
  "pagepool_sync pgp = pagepool_sync_i pgp 0"

section \<open>Getting a bucket\<close>

definition reusable :: "bkt \<Rightarrow> bool" where
  "reusable bp \<longleftrightarrow> \<not> FLAG_ISSET (b_flags bp) FFDB_PAGE_LOCKED \<and>
     \<not> FLAG_ISSET (b_flags bp) FFDB_PAGE_PINNED \<and> b_waiters bp = 0"

text \<open>The body of the walk for a bucket that can be reused: off the queues and pinned.\<close>

definition reuse_take :: "pagepool \<Rightarrow> nat \<Rightarrow> pagepool" where
  "reuse_take pgp b =
     (let pgp1 = lq_remove b (hq_remove (bkt_pgno pgp b) b pgp)
      in upd_bkt b (\<lambda>bp. bp\<lparr>b_ref := 0, b_waiters := 0, b_owner := Some (self pgp),
           b_flags := FLAG_SET FFDB_PAGE_PINNED FFDB_PAGE_VALID\<rparr>) pgp1)"

text \<open>
  The walk along the LRU queue. The results are \<open>ret\<close>, \<open>needwrite\<close>, the bucket (if one is
  found) and the pool. A page that cannot be flushed is skipped.
\<close>

fun reuse_walk :: "pagepool \<Rightarrow> nat list \<Rightarrow> int \<Rightarrow> (int \<times> bool \<times> nat option \<times> pagepool) option" where
  "reuse_walk pgp [] ret = Some (ret, False, None, pgp)"
| "reuse_walk pgp (b # l) ret = do {
     bp \<leftarrow> bkts pgp b;
     if reusable bp then
       (if FLAG_ISSET (b_flags bp) FFDB_PAGE_DIRTY then do {
          (st, pgp1) \<leftarrow> pagepool_write pgp b;
          if st = - 1 then reuse_walk pgp1 l (errno pgp1)
          else Some (ret, True, Some b, reuse_take pgp1 b)
        } else Some (ret, False, Some b, reuse_take pgp b))
     else reuse_walk pgp l ret
   }"

definition reuse_bkt :: "pagepool \<Rightarrow> (int \<times> nat option \<times> pagepool) option" where
  "reuse_bkt pgp =
     (if lqh pgp = [] then None
      else do {
        (ret, needwrite, retbp, pgp1) \<leftarrow> reuse_walk pgp (lqh pgp) 0;
        let ret1 = (if retbp = None then - 1 else ret);
        pgp2 \<leftarrow> (if needwrite then map_option snd (pagepool_sync_i pgp1 (maxcache pgp1 div FFDB_WRITE_FRAC))
                 else Some pgp1);
        Some (ret1, retbp, pgp2)
      })"

definition new_bkt :: "pagepool \<Rightarrow> nat \<times> pagepool" where
  "new_bkt pgp =
     (let b = next_bkt pgp;
          bp = \<lparr>b_page = umem pgp b, b_pgno = 0, b_ref = 0, b_waiters = 0,
                b_flags = FLAG_SET FFDB_PAGE_PINNED FFDB_PAGE_VALID, b_owner = Some (self pgp), b_wqh = []\<rparr>
      in (b, pgp\<lparr>curcache := curcache pgp + 1, next_bkt := Suc b, bkts := (bkts pgp)(b \<mapsto> bp)\<rparr>))"

text \<open>The common start of \<open>load_new_page\<close> and \<open>new_page_i\<close>.\<close>

definition alloc_bkt :: "pagepool \<Rightarrow> (nat \<times> pagepool) option" where
  "alloc_bkt pgp =
     (if curcache pgp > maxcache pgp then do {
        (status, bp, pgp1) \<leftarrow> reuse_bkt pgp;
        if status = - 1 then Some (new_bkt pgp1)
        else (case bp of None \<Rightarrow> None | Some b \<Rightarrow> Some (b, pgp1))
      } else Some (new_bkt pgp))"

definition mark_flags :: "u32 \<Rightarrow> u32 \<Rightarrow> u32" where
  "mark_flags flags bf =
     (let bf1 = (if FLAG_ISSET flags FFDB_PAGE_DIRTY \<or> FLAG_ISSET flags FFDB_PAGE_EDIT
                 then FLAG_SET bf FFDB_PAGE_DIRTY else bf)
      in if FLAG_ISSET flags FFDB_PAGE_LOCKED then FLAG_SET bf1 FFDB_PAGE_LOCKED else bf1)"

section \<open>Loading and creating pages\<close>

definition load_new_page :: "pagepool \<Rightarrow> pgno \<Rightarrow> u32 \<Rightarrow> (int \<times> nat option \<times> pagepool) option" where
  "load_new_page pgp pageno flags = do {
     (b, pgp1) \<leftarrow> alloc_bkt pgp;
     bp \<leftarrow> bkts pgp1 b;
     let psize = unat (pagesize pgp1);
     let bytes = file_read (backing pgp1) (psize * unat pageno) psize;
     page \<leftarrow> mem_write (b_page bp) 0 bytes;
     if length bytes \<noteq> psize \<and> length bytes > 0 then
       Some (errno pgp1, None, upd_bkt b (b_page_update (\<lambda>_. page)) pgp1)
     else do {
       page0 \<leftarrow> (if bytes = [] then mem_write page 0 (replicate psize 0) else Some page);
       let pgp2 = upd_bkt b (\<lambda>bp. bp\<lparr>b_page := page0, b_pgno := pageno, b_owner := Some (self pgp1),
                    b_ref := 1, b_waiters := 0, b_flags := mark_flags flags (b_flags bp)\<rparr>) pgp1;
       let pgp3 = lq_insert_tail b (hq_insert_head pageno b pgp2);
       page1 \<leftarrow> (case pgin pgp3 of None \<Rightarrow> Some page0 | Some f \<Rightarrow> f pageno page0);
       Some (0, Some b, upd_bkt b (b_page_update (\<lambda>_. page1)) pgp3)
     }
   }"

definition new_page_i :: "pagepool \<Rightarrow> pgno \<Rightarrow> u32 \<Rightarrow> (int \<times> pgno \<times> nat option \<times> pagepool) option" where
  "new_page_i pgp pageno flags =
     (if maxpgno pgp = FFDB_MAX_PAGE_NUMBER then None
      else do {
        (b, pgp1) \<leftarrow> alloc_bkt pgp;
        let (pg, maxp) =
          (if FLAG_ISSET flags FFDB_PAGE_REQUEST
           then (pageno, if pageno > maxpgno pgp1 then pageno else maxpgno pgp1)
           else (maxpgno pgp1 + 1, maxpgno pgp1 + 1));
        let pgp2 = upd_bkt b (\<lambda>bp. bp\<lparr>b_pgno := pg, b_ref := 1, b_owner := Some (self pgp1),
                     b_flags := mark_flags flags (b_flags bp)\<rparr>) (pgp1\<lparr>maxpgno := maxp\<rparr>);
        let pgp3 = lq_insert_tail b (hq_insert_head pg b pgp2);
        bp \<leftarrow> bkts pgp3 b;
        page \<leftarrow> mem_write (b_page bp) 0 (replicate FFDB_CLEANHDR_SIZE 0);
        Some (0, pg, Some b, upd_bkt b (b_page_update (\<lambda>_. page)) pgp3)
      })"

definition pagepool_new_page :: "pagepool \<Rightarrow> pgno \<Rightarrow> u32 \<Rightarrow> (int \<times> pgno \<times> nat option \<times> pagepool) option" where
  "pagepool_new_page pgp pageno flags = new_page_i pgp pageno flags"

section \<open>Getting and putting pages\<close>

datatype get_result =
    Got int pgno "nat option" pagepool
  | Waiting nat pagepool

fun find_page :: "pagepool \<Rightarrow> pgno \<Rightarrow> nat list \<Rightarrow> nat option option" where
  "find_page pgp pg [] = Some None"
| "find_page pgp pg (b # l) = do {
     bp \<leftarrow> bkts pgp b;
     if b_pgno bp = pg then Some (Some b) else find_page pgp pg l
   }"

text \<open>
  The rest of a get of a cached page once the thread may have it: one more reference, the
  caller becomes the owner, the page is pinned, and it moves to the head of its chain and
  the tail of the LRU queue.
\<close>

definition grab_page :: "pagepool \<Rightarrow> nat \<Rightarrow> pgno \<Rightarrow> u32 \<Rightarrow> get_result" where
  "grab_page pgp b pageno flags =
     (let pgp1 = upd_bkt b (\<lambda>bp. bp\<lparr>b_ref := b_ref bp + 1, b_owner := Some (self pgp),
                   b_flags := mark_flags flags (FLAG_SET (b_flags bp) FFDB_PAGE_PINNED)\<rparr>) pgp;
          pgp2 = lq_remove b (hq_remove pageno b pgp1);
          pgp3 = lq_insert_tail b (hq_insert_head pageno b pgp2)
      in Got 0 pageno (Some b) pgp3)"

definition pagepool_get_page :: "pagepool \<Rightarrow> pgno \<Rightarrow> u32 \<Rightarrow> get_result option" where
  "pagepool_get_page pgp pageno flags =
     (if FLAG_ISSET flags FFDB_PAGE_DIRTY \<and> FLAG_ISSET (fileflags pgp) FFDB_RDONLY then
        Some (Got EINVAL pageno None (pgp\<lparr>errno := EINVAL\<rparr>))
      else if FLAG_ISSET flags FFDB_PAGE_NEW then
        (if FLAG_ISSET flags FFDB_PAGE_CREATE then
           Some (Got EINVAL pageno None (pgp\<lparr>errno := EINVAL\<rparr>))
         else do {
           (ret, pg, mem, pgp1) \<leftarrow> new_page_i pgp pageno flags;
           Some (Got ret pg mem pgp1)
         })
      else do {
        found \<leftarrow> find_page pgp pageno (hqh pgp (HASHKEY pageno));
        case found of
          Some b \<Rightarrow> do {
            bp \<leftarrow> bkts pgp b;
            if b_owner bp = Some (self pgp) then Some (grab_page pgp b pageno flags)
            else if b_waiters bp > 0 \<or> FLAG_ISSET (b_flags bp) FFDB_PAGE_PINNED then
              Some (Waiting b (upd_bkt b (\<lambda>bp. bp\<lparr>b_waiters := b_waiters bp + 1,
                b_wqh := \<lparr>w_thread = self pgp, w_wakeup = False\<rparr> # b_wqh bp\<rparr>) pgp))
            else Some (grab_page pgp b pageno flags)
          }
        | None \<Rightarrow>
            if FLAG_ISSET flags FFDB_PAGE_CREATE \<and> pageno \<ge> npages pgp then do {
              (ret, pg, mem, pgp1) \<leftarrow> new_page_i pgp pageno (flags OR FFDB_PAGE_REQUEST);
              Some (Got ret pg mem pgp1)
            } else do {
              (ret, mem, pgp1) \<leftarrow> load_new_page pgp pageno flags;
              Some (Got ret pageno mem pgp1)
            }
      })"

text \<open>
  The code after \<open>FFDB_COND_WAIT\<close>: a waiter whose flag is set must be the last of the
  queue (otherwise the code aborts); it leaves the queue and takes the page.
\<close>

definition get_page_resume :: "pagepool \<Rightarrow> nat \<Rightarrow> pgno \<Rightarrow> u32 \<Rightarrow> get_result option" where
  "get_page_resume pgp b pageno flags = do {
     bp \<leftarrow> bkts pgp b;
     if \<not> list_ex (\<lambda>w. w_thread w = self pgp \<and> w_wakeup w) (b_wqh bp) then Some (Waiting b pgp)
     else if w_thread (last (b_wqh bp)) \<noteq> self pgp then None
     else Some (grab_page (upd_bkt b (\<lambda>bp. bp\<lparr>b_wqh := butlast (b_wqh bp),
            b_waiters := b_waiters bp - 1\<rparr>) pgp) b pageno flags)
   }"

definition wake_last :: "waiter list \<Rightarrow> waiter list" where
  "wake_last ws = butlast ws @ [(last ws)\<lparr>w_wakeup := True\<rparr>]"

definition pagepool_put_page :: "pagepool \<Rightarrow> nat \<Rightarrow> u32 \<Rightarrow> (int \<times> pagepool) option" where
  "pagepool_put_page pgp b flags = do {
     bp \<leftarrow> bkts pgp b;
     if \<not> FLAG_ISSET (b_flags bp) FFDB_PAGE_PINNED then None
     else do {
       let fl = (if FLAG_ISSET flags FFDB_PAGE_DIRTY then FLAG_SET (b_flags bp) FFDB_PAGE_DIRTY else b_flags bp);
       let bp1 = bp\<lparr>b_ref := b_ref bp - 1, b_owner := None, b_flags := FLAG_CLR fl FFDB_PAGE_PINNED\<rparr>;
       bp2 \<leftarrow> (if b_waiters bp > 0
              then (if b_wqh bp = [] then None else Some (bp1\<lparr>b_wqh := wake_last (b_wqh bp)\<rparr>))
              else Some bp1);
       Some (0, upd_bkt b (\<lambda>_. bp2) pgp)
     }
   }"

definition pagepool_change_page :: "pagepool \<Rightarrow> nat \<Rightarrow> pgno \<Rightarrow> (int \<times> pagepool) option" where
  "pagepool_change_page pgp b newpagenum = do {
     bp \<leftarrow> bkts pgp b;
     if \<not> FLAG_ISSET (b_flags bp) FFDB_PAGE_PINNED then None
     else if b_waiters bp > 0 then do {
       (_, pgp1) \<leftarrow> pagepool_put_page pgp b 0;
       Some (EAGAIN, pgp1)
     } else do {
       let pgp1 = lq_remove b (hq_remove (b_pgno bp) b pgp);
       let pgp2 = upd_bkt b (\<lambda>bp. bp\<lparr>b_ref := b_ref bp - 1, b_pgno := newpagenum, b_owner := None,
                    b_flags := FLAG_CLR (FLAG_SET (b_flags bp) FFDB_PAGE_DIRTY) FFDB_PAGE_PINNED\<rparr>) pgp1;
       let pgp3 = lq_insert_tail b (hq_insert_head newpagenum b pgp2);
       let pgp4 = (if newpagenum \<ge> npages pgp3 then pgp3\<lparr>npages := newpagenum + 1\<rparr> else pgp3);
       Some (0, snd (clean_page_ondisk pgp4 (b_pgno bp)))
     }
   }"

definition pagepool_delete :: "pagepool \<Rightarrow> nat \<Rightarrow> (int \<times> pagepool) option" where
  "pagepool_delete pgp b = do {
     bp \<leftarrow> bkts pgp b;
     if b_ref bp = 1 then
       (if \<not> FLAG_ISSET (b_flags bp) FFDB_PAGE_PINNED then None
        else if b_waiters bp > 0 then Some (EAGAIN, pgp)
        else do {
          (st, pgp1) \<leftarrow> (if FLAG_ISSET (b_flags bp) FFDB_PAGE_DIRTY then pagepool_write pgp b
                         else Some (0, pgp));
          if st \<noteq> 0 then Some (errno pgp1, pgp1)
          else (let pgp2 = lq_remove b (hq_remove (b_pgno bp) b pgp1)
                in Some (0, pgp2\<lparr>curcache := curcache pgp2 - 1, bkts := (bkts pgp2)(b := None)\<rparr>))
        })
     else Some (- 1, pgp)
   }"

section \<open>Creating, opening and closing a pool\<close>

definition pagepool_create :: "thread \<Rightarrow> (nat \<Rightarrow> mem) \<Rightarrow> pagepool" where
  "pagepool_create me fresh =
     \<lparr>lqh = [], hqh = \<lambda>_. [], bkts = \<lambda>_. None, next_bkt = 0, curcache = 0, maxcache = 0, npages = 0,
      maxpgno = 0, pagesize = 0, fileflags = 0, fd = - 1, close_fd = False, pgin = None, pgout = None,
      backing = \<lparr>f_data = [], f_room = 0, f_writable = False\<rparr>, self = me, umem = fresh, errno = 0\<rparr>"

text \<open>
  The operating system's part of opening is an argument: the descriptor that \<open>open\<close> returned
  with its error code, whether \<open>fstat\<close> reports a regular file, and the file.
\<close>

record os_open =
  os_fd :: int
  os_errno :: int
  os_regular :: bool
  os_rdonly :: bool
  os_file :: osfile

definition attach_file :: "pagepool \<Rightarrow> os_open \<Rightarrow> bool \<Rightarrow> u32 \<Rightarrow> u32 \<Rightarrow> int \<times> pagepool" where
  "attach_file pgp os close psize maxc =
     (let size = length (f_data (os_file os))
      in if \<not> os_regular os then (EINVAL, pgp\<lparr>errno := EINVAL\<rparr>)
         else if size mod unat psize \<noteq> 0 then (EINVAL, pgp\<lparr>errno := EINVAL\<rparr>)
         else (0, pgp\<lparr>fd := os_fd os, close_fd := close, maxcache := maxc, pagesize := psize,
                 npages := of_nat (size div unat psize), maxpgno := of_nat (size div unat psize),
                 backing := os_file os\<rparr>))"

definition pagepool_open :: "pagepool \<Rightarrow> os_open \<Rightarrow> u32 \<Rightarrow> u32 \<Rightarrow> u32 \<Rightarrow> int \<times> pagepool" where
  "pagepool_open pgp os flags psize maxc =
     (if fd pgp \<noteq> - 1 then (0, pgp)
      else if FLAG_ISSET flags (NOT (FFDB_CREATE OR FFDB_RDONLY OR FFDB_DIRECT)) then (errno pgp, pgp)
      else if \<not> IS_VALID_PAGESIZE psize then (EINVAL, pgp\<lparr>errno := EINVAL\<rparr>)
      else
        let pgp1 = pgp\<lparr>fileflags := flags\<rparr>
        in if os_fd os \<le> 0 then (os_errno os, pgp1\<lparr>errno := os_errno os\<rparr>)
           else attach_file pgp1 os True psize maxc)"

definition pagepool_open_fd :: "pagepool \<Rightarrow> os_open \<Rightarrow> u32 \<Rightarrow> u32 \<Rightarrow> int \<times> pagepool" where
  "pagepool_open_fd pgp os psize maxc =
     (if fd pgp \<noteq> - 1 then (0, pgp)
      else
        let flags = (if os_rdonly os then FLAG_SET 0 FFDB_RDONLY else 0)
        in if FLAG_ISSET flags (NOT (FFDB_CREATE OR FFDB_RDONLY OR FFDB_DIRECT)) then (errno pgp, pgp)
           else
             let pgp1 = pgp\<lparr>fileflags := flags\<rparr>
             in if \<not> IS_VALID_PAGESIZE psize then (EINVAL, pgp1\<lparr>errno := EINVAL\<rparr>)
                else attach_file pgp1 os False psize maxc)"

text \<open>\<open>close\<close> frees every bucket on the LRU queue; what remains is the file.\<close>

fun free_all :: "nat list \<Rightarrow> pagepool \<Rightarrow> pagepool" where
  "free_all [] pgp = pgp"
| "free_all (b # l) pgp = free_all l ((lq_remove b pgp)\<lparr>bkts := (bkts pgp)(b := None)\<rparr>)"

definition pagepool_close :: "pagepool \<Rightarrow> (int \<times> pagepool) option" where
  "pagepool_close pgp = do {
     (_, pgp1) \<leftarrow> pagepool_sync pgp;
     Some (0, (free_all (lqh pgp1) pgp1)\<lparr>fd := - 1\<rparr>)
   }"

definition pagepool_filter ::
    "pagepool \<Rightarrow> (pgno \<Rightarrow> mem \<Rightarrow> mem option) \<Rightarrow> (pgno \<Rightarrow> mem \<Rightarrow> mem) \<Rightarrow> pagepool" where
  "pagepool_filter pgp pin pout = pgp\<lparr>pgin := Some pin, pgout := Some pout\<rparr>"

end
