(* ===== verification/FFDB_PoolView.thy ===== *)
theory FFDB_PoolView
  imports FFDB_PagePool FFDB_Swap
begin

text \<open>
  What the page pool promises: it is transparent. The \<open>view\<close> of a page is its content as a
  client sees it, in the cache if it is cached and on the disk otherwise, up to the
  normalisation \<open>nrm\<close> (the checksum field). The invariant \<open>pool_inv\<close> and the view are
  kept by every operation, under the contract \<open>page_io\<close> of the two page filters, which is
  proved for the filters of the library on a file in the byte order of the machine.
\<close>

section \<open>Pages of a file\<close>

definition byte_at :: "mem \<Rightarrow> nat \<Rightarrow> byte" where
  "byte_at d i = (if i < length d then d ! i else 0)"

definition file_page :: "mem \<Rightarrow> nat \<Rightarrow> nat \<Rightarrow> mem" where
  "file_page d ps n = map (\<lambda>j. byte_at d (ps * n + j)) [0..<ps]"

lemma length_file_page [simp]: "length (file_page d ps n) = ps"
  by (simp add: file_page_def)

lemma file_read_page:
  assumes "ps dvd length (f_data f)" "0 < ps"
  shows "(file_read f (ps * n) ps = [] \<and> file_page (f_data f) ps n = replicate ps 0)
    \<or> (length (file_read f (ps * n) ps) = ps \<and> file_read f (ps * n) ps = file_page (f_data f) ps n)"
proof (cases "ps * n < length (f_data f)")
  case True
  obtain k where k: "length (f_data f) = ps * k" using assms(1) by (auto elim: dvdE)
  then have "Suc n \<le> k" using True assms(2) by simp
  then have le: "ps * n + ps \<le> length (f_data f)"
    using k by (metis mult_Suc_right add.commute mult_le_mono2)
  have "file_read f (ps * n) ps = file_page (f_data f) ps n"
    by (rule nth_equalityI) (use le in \<open>auto simp: file_read_def mem_get_def file_page_def byte_at_def\<close>)
  then show ?thesis by simp
next
  case False
  then have "file_page (f_data f) ps n = replicate ps 0"
    by (intro nth_equalityI) (auto simp: file_page_def byte_at_def)
  moreover have "file_read f (ps * n) ps = []"
    using False by (simp add: file_read_def mem_get_def)
  ultimately show ?thesis by simp
qed

lemma byte_at_write:
  assumes "file_write f off bs = Some f'"
  shows "byte_at (f_data f') i = (if off \<le> i \<and> i < off + length bs then bs ! (i - off) else byte_at (f_data f) i)"
proof -
  have d: "f_data f' = take off (f_data f) @ replicate (off - length (f_data f)) 0 @ bs @ drop (off + length bs) (f_data f)"
    using assms by (auto simp: file_write_def split: if_splits)
  show ?thesis
    unfolding d byte_at_def by (auto simp: nth_append min_def not_less)
qed

lemma dvd_length_write:
  assumes "file_write f (ps * n) bs = Some f'" "length bs = ps" "ps dvd length (f_data f)"
  shows "ps dvd length (f_data f')"
proof -
  have "length (f_data f') = (if length (f_data f) \<le> ps * n + ps then ps * n + ps else length (f_data f))"
    using assms(1,2) by (auto simp: file_write_def min_def split: if_splits)
  then show ?thesis using assms(3) by simp
qed

lemma file_page_write:
  assumes "file_write f (ps * n) bs = Some f'" "length bs = ps"
  shows "file_page (f_data f') ps m = (if m = n then bs else file_page (f_data f) ps m)"
proof (cases "m = n")
  case True
  then show ?thesis
    by (intro nth_equalityI) (use assms in \<open>auto simp: file_page_def byte_at_write [OF assms(1)]\<close>)
next
  case False
  have "\<not> (ps * n \<le> ps * m + j \<and> ps * m + j < ps * n + ps)" if "j < ps" for j
  proof (cases "m < n")
    case True
    then have "ps * Suc m \<le> ps * n" by (intro mult_le_mono2) simp
    then show ?thesis using that by simp
  next
    case gt: False
    then have "ps * Suc n \<le> ps * m" using False by (intro mult_le_mono2) simp
    then show ?thesis by simp
  qed
  then show ?thesis
    using False assms(2) by (auto simp: file_page_def byte_at_write [OF assms(1)])
qed

section \<open>View and invariant\<close>

definition page_size :: "pagepool \<Rightarrow> nat" where
  "page_size pgp = unat (pagesize pgp)"

definition disk_page :: "pagepool \<Rightarrow> pgno \<Rightarrow> mem option" where
  "disk_page pgp n =
     (let p = file_page (f_data (backing pgp)) (page_size pgp) (unat n)
      in case pgin pgp of None \<Rightarrow> Some p | Some f \<Rightarrow> f n p)"

definition cached :: "pagepool \<Rightarrow> pgno \<Rightarrow> nat option" where
  "cached pgp n = find (\<lambda>b. bkt_pgno pgp b = n) (lqh pgp)"

definition bkt_page :: "pagepool \<Rightarrow> nat \<Rightarrow> mem" where
  "bkt_page pgp b = (case bkts pgp b of None \<Rightarrow> [] | Some bp \<Rightarrow> b_page bp)"

definition bkt_flags :: "pagepool \<Rightarrow> nat \<Rightarrow> u32" where
  "bkt_flags pgp b = (case bkts pgp b of None \<Rightarrow> 0 | Some bp \<Rightarrow> b_flags bp)"

definition pinned :: "pagepool \<Rightarrow> nat \<Rightarrow> bool" where
  "pinned pgp b \<longleftrightarrow> FLAG_ISSET (bkt_flags pgp b) FFDB_PAGE_PINNED"

definition dirty :: "pagepool \<Rightarrow> nat \<Rightarrow> bool" where
  "dirty pgp b \<longleftrightarrow> FLAG_ISSET (bkt_flags pgp b) FFDB_PAGE_DIRTY"

definition pool_view :: "(mem \<Rightarrow> mem) \<Rightarrow> pagepool \<Rightarrow> pgno \<Rightarrow> mem option" where
  "pool_view nrm pgp n =
     (case cached pgp n of Some b \<Rightarrow> Some (nrm (bkt_page pgp b))
      | None \<Rightarrow> map_option nrm (disk_page pgp n))"

text \<open>
  The structure: the buckets of the LRU queue are live, have one page each, and are the
  buckets of the hash chains, each on the chain of its page number.
\<close>

definition pool_struct :: "pagepool \<Rightarrow> bool" where
  "pool_struct pgp \<longleftrightarrow>
     distinct (lqh pgp) \<and>
     distinct (map (bkt_pgno pgp) (lqh pgp)) \<and>
     (\<forall>b\<in>set (lqh pgp). bkts pgp b \<noteq> None) \<and>
     (\<forall>k. distinct (hqh pgp k) \<and> set (hqh pgp k) = {b \<in> set (lqh pgp). HASHKEY (bkt_pgno pgp b) = k}) \<and>
     (\<forall>b. next_bkt pgp \<le> b \<longrightarrow> bkts pgp b = None)"

text \<open>
  The contents: a page that is not pinned is good, and the same as on the disk unless it is
  dirty.
\<close>

definition bkt_ok :: "(mem \<Rightarrow> bool) \<Rightarrow> (mem \<Rightarrow> mem) \<Rightarrow> pagepool \<Rightarrow> nat \<Rightarrow> bool" where
  "bkt_ok good nrm pgp b \<longleftrightarrow>
     length (bkt_page pgp b) = page_size pgp \<and>
     (\<not> pinned pgp b \<longrightarrow> good (bkt_page pgp b) \<and>
        (\<not> dirty pgp b \<longrightarrow>
           map_option nrm (disk_page pgp (bkt_pgno pgp b)) = Some (nrm (bkt_page pgp b))))"

definition pool_inv :: "(mem \<Rightarrow> bool) \<Rightarrow> (mem \<Rightarrow> mem) \<Rightarrow> pagepool \<Rightarrow> bool" where
  "pool_inv good nrm pgp \<longleftrightarrow>
     pool_struct pgp \<and> (\<forall>b\<in>set (lqh pgp). bkt_ok good nrm pgp b) \<and>
     0 < page_size pgp \<and> page_size pgp dvd length (f_data (backing pgp)) \<and>
     (\<forall>b. length (umem pgp b) = page_size pgp)"

section \<open>Flags\<close>

lemma isset_exp: "k < 32 \<Longrightarrow> FLAG_ISSET f (2 ^ k) \<longleftrightarrow> bit f k"
proof -
  assume k: "k < 32"
  have b: "bit (f AND 2 ^ k) n \<longleftrightarrow> bit f k \<and> n = k" for n
    using k by (auto simp: bit_and_iff bit_exp_iff)
  show ?thesis
  proof
    assume "bit f k"
    then have "bit (f AND 2 ^ k) k" by (simp add: b)
    then show "FLAG_ISSET f (2 ^ k)" by (auto simp: FLAG_ISSET_def)
  next
    assume "FLAG_ISSET f (2 ^ k)"
    moreover have "f AND 2 ^ k = 0" if "\<not> bit f k"
      by (rule bit_word_eqI) (use that b in simp)
    ultimately show "bit f k" by (auto simp: FLAG_ISSET_def)
  qed
qed

lemma set_clr_exp:
  "k < 32 \<Longrightarrow> bit (FLAG_SET f (2 ^ k)) n \<longleftrightarrow> bit f n \<or> n = k"
  "k < 32 \<Longrightarrow> bit (FLAG_CLR f (2 ^ k)) n \<longleftrightarrow> bit f n \<and> n \<noteq> k"
  "k < 32 \<Longrightarrow> bit (2 ^ k :: u32) n \<longleftrightarrow> n = k"
  by (auto simp: FLAG_SET_def FLAG_CLR_def bit_or_iff bit_and_iff bit_not_iff bit_exp_iff
      dest: bit_imp_le_length)

lemma flag_exps:
  "FFDB_PAGE_DIRTY = 2 ^ 1" "FFDB_PAGE_EDIT = 2 ^ 2" "FFDB_PAGE_PINNED = 2 ^ 8"
  "FFDB_PAGE_VALID = 2 ^ 9" "FFDB_PAGE_LOCKED = 2 ^ 10"
  by (simp_all add: ffdb_consts)

lemma flag_isset [simp]:
  "FLAG_ISSET f FFDB_PAGE_DIRTY \<longleftrightarrow> bit f 1" "FLAG_ISSET f FFDB_PAGE_EDIT \<longleftrightarrow> bit f 2"
  "FLAG_ISSET f FFDB_PAGE_PINNED \<longleftrightarrow> bit f 8" "FLAG_ISSET f FFDB_PAGE_LOCKED \<longleftrightarrow> bit f 10"
  unfolding flag_exps by (rule isset_exp, simp)+

lemma bit_flag_set [simp]:
  "bit (FLAG_SET f FFDB_PAGE_DIRTY) n \<longleftrightarrow> bit f n \<or> n = 1"
  "bit (FLAG_SET f FFDB_PAGE_PINNED) n \<longleftrightarrow> bit f n \<or> n = 8"
  "bit (FLAG_SET f FFDB_PAGE_VALID) n \<longleftrightarrow> bit f n \<or> n = 9"
  "bit (FLAG_SET f FFDB_PAGE_LOCKED) n \<longleftrightarrow> bit f n \<or> n = 10"
  "bit (FLAG_CLR f FFDB_PAGE_DIRTY) n \<longleftrightarrow> bit f n \<and> n \<noteq> 1"
  "bit (FLAG_CLR f FFDB_PAGE_PINNED) n \<longleftrightarrow> bit f n \<and> n \<noteq> 8"
  unfolding flag_exps by (rule set_clr_exp, simp)+

lemma bit_PINNED [simp]: "bit FFDB_PAGE_PINNED n \<longleftrightarrow> n = 8"
  unfolding flag_exps by (rule set_clr_exp) simp

lemma bit_mark_flags [simp]:
  "bit (mark_flags flags f) 8 \<longleftrightarrow> bit f 8"
  "bit (mark_flags flags f) (Suc 0) \<longleftrightarrow> bit f (Suc 0) \<or> bit flags (Suc 0) \<or> bit flags 2"
  by (auto simp: mark_flags_def Let_def)

section \<open>Flushing\<close>

text \<open>
  The steps that flush pages change only page contents, the dirty bits and the file.
\<close>

definition flushed_bkt :: "bkt \<Rightarrow> bkt \<Rightarrow> bool" where
  "flushed_bkt bp bp' \<longleftrightarrow>
     bp' = bp\<lparr>b_page := b_page bp', b_flags := b_flags bp'\<rparr> \<and>
     (b_flags bp' = b_flags bp \<or> b_flags bp' = FLAG_CLR (b_flags bp) FFDB_PAGE_DIRTY)"

definition flushed :: "pagepool \<Rightarrow> pagepool \<Rightarrow> bool" where
  "flushed pgp pgp' \<longleftrightarrow>
     pgp' = pgp\<lparr>bkts := bkts pgp', backing := backing pgp', npages := npages pgp', errno := errno pgp'\<rparr> \<and>
     (\<forall>b. rel_option flushed_bkt (bkts pgp b) (bkts pgp' b))"

lemma FLAG_CLR_twice [simp]: "FLAG_CLR (FLAG_CLR f x) x = FLAG_CLR f x"
  by (simp add: FLAG_CLR_def and.assoc)

lemma flushed_bkt_refl [simp]: "flushed_bkt bp bp"
  by (simp add: flushed_bkt_def)

lemma flushed_bkt_trans: "flushed_bkt a b \<Longrightarrow> flushed_bkt b c \<Longrightarrow> flushed_bkt a c"
  by (cases a; cases b; cases c) (auto simp: flushed_bkt_def)

lemma flushed_refl [simp]: "flushed pgp pgp"
  by (simp add: flushed_def option.rel_refl)

lemma flushed_trans: "flushed p q \<Longrightarrow> flushed q r \<Longrightarrow> flushed p r"
proof -
  assume a: "flushed p q" "flushed q r"
  have "rel_option flushed_bkt (bkts p b) (bkts r b)" for b
    using a [unfolded flushed_def, THEN conjunct2, THEN spec, of b]
    by (cases "bkts p b"; cases "bkts q b"; cases "bkts r b") (auto intro: flushed_bkt_trans)
  moreover have "r = p\<lparr>bkts := bkts r, backing := backing r, npages := npages r, errno := errno r\<rparr>"
    using a by (cases p; cases q; cases r) (auto simp: flushed_def)
  ultimately show ?thesis by (simp add: flushed_def)
qed

lemma flushed_fields:
  assumes "flushed pgp pgp'"
  shows "lqh pgp' = lqh pgp" "hqh pgp' = hqh pgp" "next_bkt pgp' = next_bkt pgp"
    "curcache pgp' = curcache pgp" "maxcache pgp' = maxcache pgp" "maxpgno pgp' = maxpgno pgp"
    "pagesize pgp' = pagesize pgp" "pgin pgp' = pgin pgp" "pgout pgp' = pgout pgp"
    "self pgp' = self pgp" "umem pgp' = umem pgp" "fileflags pgp' = fileflags pgp"
    "page_size pgp' = page_size pgp"
  using assms by (cases pgp; cases pgp'; auto simp: flushed_def page_size_def)+

lemma flushed_bkts:
  assumes "flushed pgp pgp'"
  shows "bkts pgp' b = None \<longleftrightarrow> bkts pgp b = None" "bkt_pgno pgp' b = bkt_pgno pgp b"
    "pinned pgp' b = pinned pgp b" "dirty pgp' b \<Longrightarrow> dirty pgp b"
proof -
  have r: "rel_option flushed_bkt (bkts pgp b) (bkts pgp' b)"
    using assms by (simp add: flushed_def)
  have "b_pgno bp' = b_pgno bp" if "flushed_bkt bp bp'" for bp bp'
    using that by (cases bp; cases bp') (auto simp: flushed_bkt_def)
  then show "bkts pgp' b = None \<longleftrightarrow> bkts pgp b = None" "bkt_pgno pgp' b = bkt_pgno pgp b"
    using r by (cases "bkts pgp b"; cases "bkts pgp' b"; auto simp: bkt_pgno_def)+
  show "pinned pgp' b = pinned pgp b" "dirty pgp' b \<Longrightarrow> dirty pgp b"
    using r by (cases "bkts pgp b"; cases "bkts pgp' b";
        auto simp: pinned_def dirty_def bkt_flags_def flushed_bkt_def)+
qed

lemma flushed_struct: "flushed pgp pgp' \<Longrightarrow> pool_struct pgp \<Longrightarrow> pool_struct pgp'"
  using flushed_bkts(1,2) [of pgp pgp'] flushed_fields [of pgp pgp']
  by (simp add: pool_struct_def cong: map_cong)

lemma flushed_cached: "flushed pgp pgp' \<Longrightarrow> cached pgp' n = cached pgp n"
  using flushed_bkts(2) [of pgp pgp'] flushed_fields [of pgp pgp'] by (simp add: cached_def)

lemma cached_Some:
  assumes "pool_struct pgp"
  shows "cached pgp n = Some b \<longleftrightarrow> b \<in> set (lqh pgp) \<and> bkt_pgno pgp b = n"
proof -
  have inj: "inj_on (bkt_pgno pgp) (set (lqh pgp))"
    using assms by (simp add: pool_struct_def distinct_map)
  have "inj_on f (set l) \<Longrightarrow> find (\<lambda>b. f b = n) l = Some b \<longleftrightarrow> b \<in> set l \<and> f b = n" for f l
    by (induction l) auto
  then show ?thesis
    using inj by (simp add: cached_def)
qed

lemma cached_None: "cached pgp n = None \<longleftrightarrow> (\<forall>b\<in>set (lqh pgp). bkt_pgno pgp b \<noteq> n)"
  by (auto simp: cached_def find_None_iff)

section \<open>The contract of the page filters\<close>

text \<open>
  \<open>good\<close> are the pages a client may hand over, \<open>nrm\<close> forgets what the filters may change.
  The write filter works in place on the cached page, so the page must stay good and keep
  its content under it; reading back what it produced gives the content again; and whatever
  the read filter lets through is a good page. (A pool is opened with pages of at least
  \<open>FFDB_MIN_PGSIZE\<close> = 512 bytes.)
\<close>

locale page_io =
  fixes pin :: "pgno \<Rightarrow> mem \<Rightarrow> mem option" and pout :: "pgno \<Rightarrow> mem \<Rightarrow> mem"
    and good :: "mem \<Rightarrow> bool" and nrm :: "mem \<Rightarrow> mem" and ps :: nat
  assumes good_length: "good p \<Longrightarrow> length p = ps"
    and pout_good: "good p \<Longrightarrow> good (pout n p)"
    and pout_nrm: "good p \<Longrightarrow> nrm (pout n p) = nrm p"
    and pin_pout: "good p \<Longrightarrow> \<exists>p'. pin m (pout n p) = Some p' \<and> nrm p' = nrm p"
    and pin_good: "512 \<le> ps \<Longrightarrow> pin n p = Some p' \<Longrightarrow> length p = ps \<Longrightarrow> good p'"
begin

definition ready :: "pagepool \<Rightarrow> bool" where
  "ready pgp \<longleftrightarrow> pgin pgp = Some pin \<and> pgout pgp = Some pout \<and> page_size pgp = ps \<and>
     512 \<le> ps \<and> pool_inv good nrm pgp"

lemma disk_page_ready:
  "ready pgp \<Longrightarrow> disk_page pgp n = pin n (file_page (f_data (backing pgp)) ps (unat n))"
  by (simp add: ready_def disk_page_def)

lemma ready_bkt_ok: "ready pgp \<Longrightarrow> b \<in> set (lqh pgp) \<Longrightarrow> bkt_ok good nrm pgp b"
  by (simp add: ready_def pool_inv_def)

lemma ready_struct: "ready pgp \<Longrightarrow> pool_struct pgp"
  by (simp add: ready_def pool_inv_def)

text \<open>
  Any step that flushes page \<open>b\<close>: the cached page becomes \<open>q\<close>, the other pages stay, the
  file is either as it was or has the page at its place, in which case the page may be
  marked clean.
\<close>

lemma flush_one:
  assumes r: "ready pgp" and b: "b \<in> set (lqh pgp)" and g: "good (bkt_page pgp b)"
    and fl: "flushed pgp pgp'"
    and q: "bkt_page pgp' b = pout (bkt_pgno pgp b) (bkt_page pgp b)"
    and oth: "\<And>c. c \<noteq> b \<Longrightarrow> bkts pgp' c = bkts pgp c"
    and io: "(backing pgp' = backing pgp \<and> (dirty pgp b \<longrightarrow> dirty pgp' b)) \<or>
      file_write (backing pgp) (ps * unat (bkt_pgno pgp b)) (bkt_page pgp' b) = Some (backing pgp')"
  shows "ready pgp' \<and> pool_view nrm pgp' = pool_view nrm pgp"
proof -
  note S = ready_struct [OF r]
  let ?n = "bkt_pgno pgp b"
  have len: "length (bkt_page pgp' b) = ps" and good': "good (bkt_page pgp' b)"
    and nrm': "nrm (bkt_page pgp' b) = nrm (bkt_page pgp b)"
    using g by (simp_all add: q good_length pout_good pout_nrm)
  have att: "pgin pgp' = Some pin" "pgout pgp' = Some pout" "page_size pgp' = ps" "page_size pgp = ps"
    "pgin pgp = Some pin"
    using r flushed_fields [OF fl] by (simp_all add: ready_def)
  have disk_other: "disk_page pgp' m = disk_page pgp m" if "m \<noteq> ?n" for m
  proof (cases "backing pgp' = backing pgp")
    case False
    have "unat m \<noteq> unat ?n" using that by (simp add: word_unat_eq_iff)
    then show ?thesis
      using False io file_page_write [OF _ len] r att by (simp add: disk_page_def ready_def)
  qed (use r att in \<open>simp add: disk_page_def ready_def\<close>)
  have disk_b: "map_option nrm (disk_page pgp' ?n) = Some (nrm (bkt_page pgp b))"
    if "file_write (backing pgp) (ps * unat ?n) (bkt_page pgp' b) = Some (backing pgp')"
    using pin_pout [OF g, of ?n ?n] file_page_write [OF that len] att by (auto simp: disk_page_def q)
  have page_other: "bkt_page pgp' c = bkt_page pgp c" "dirty pgp' c = dirty pgp c" if "c \<noteq> b" for c
    using oth [OF that] by (simp_all add: bkt_page_def dirty_def bkt_flags_def)
  have ok: "bkt_ok good nrm pgp' c" if c: "c \<in> set (lqh pgp)" for c
  proof (cases "c = b")
    case True
    then show ?thesis
      using ready_bkt_ok [OF r b] len good' nrm' io disk_b att flushed_bkts [OF fl]
      by (auto simp: bkt_ok_def disk_page_def)
  next
    case False
    have "bkt_pgno pgp c \<noteq> ?n"
      using S b c False by (auto simp: pool_struct_def distinct_map dest: inj_onD)
    then show ?thesis
      using ready_bkt_ok [OF r c] page_other [OF False] disk_other flushed_bkts [OF fl] att
      by (simp add: bkt_ok_def)
  qed
  have "ps dvd length (f_data (backing pgp'))"
    using io r dvd_length_write [OF _ len] by (auto simp: ready_def pool_inv_def)
  then have "pool_inv good nrm pgp'"
    using r ok flushed_struct [OF fl S] flushed_fields [OF fl] att by (simp add: pool_inv_def ready_def)
  moreover have "pool_view nrm pgp' m = pool_view nrm pgp m" for m
  proof (cases "cached pgp m")
    case None
    then have "m \<noteq> ?n" using b by (auto simp: cached_None)
    then show ?thesis using None by (simp add: pool_view_def flushed_cached [OF fl] disk_other)
  next
    case (Some c)
    then show ?thesis
      using nrm' page_other by (cases "c = b") (simp_all add: pool_view_def flushed_cached [OF fl])
  qed
  ultimately show ?thesis using att r by (auto simp: ready_def)
qed

lemma write_ok:
  assumes r: "ready pgp" and b: "b \<in> set (lqh pgp)" and g: "good (bkt_page pgp b)"
  obtains ret pgp' where "pagepool_write pgp b = Some (ret, pgp')" "ret = 0 \<or> ret = - 1"
    "ready pgp'" "pool_view nrm pgp' = pool_view nrm pgp" "flushed pgp pgp'"
    "ret = 0 \<Longrightarrow> \<not> dirty pgp' b" "good (bkt_page pgp' b)"
    "\<And>c. c \<noteq> b \<Longrightarrow> bkts pgp' c = bkts pgp c"
proof -
  obtain bp where bp: "bkts pgp b = Some bp"
    using ready_struct [OF r] b by (auto simp: pool_struct_def)
  have pg: "bkt_page pgp b = b_page bp" "bkt_pgno pgp b = b_pgno bp"
    using bp by (simp_all add: bkt_page_def bkt_pgno_def)
  let ?q = "pout (b_pgno bp) (b_page bp)"
  have len: "length ?q = ps" "unat (pagesize pgp) = ps" and att: "pgout pgp = Some pout"
    using g r pg pout_good by (auto simp: good_length ready_def page_size_def)
  have bytes: "mem_read ?q 0 ps = Some ?q"
    using len by (simp add: mem_get_def)
  obtain ret pgp' where w: "pagepool_write pgp b = Some (ret, pgp')"
    using bp len bytes att
    by (cases "file_write (backing pgp) (ps * unat (b_pgno bp)) ?q")
       (auto simp: pagepool_write_def Let_def)
  have fl: "flushed pgp pgp'" and q: "bkt_page pgp' b = ?q"
    and oth: "\<And>c. c \<noteq> b \<Longrightarrow> bkts pgp' c = bkts pgp c"
    and ret: "ret = 0 \<and> \<not> dirty pgp' b \<and> file_write (backing pgp) (ps * unat (b_pgno bp)) ?q = Some (backing pgp')
      \<or> ret = - 1 \<and> backing pgp' = backing pgp \<and> (dirty pgp b \<longrightarrow> dirty pgp' b)"
    using w bp len bytes att
    by (auto simp: pagepool_write_def Let_def upd_bkt_def flushed_def flushed_bkt_def bkt_page_def
        dirty_def bkt_flags_def option.rel_refl split: option.splits if_splits)
  have "ready pgp' \<and> pool_view nrm pgp' = pool_view nrm pgp"
    by (rule flush_one [OF r b g fl]) (use q oth ret pg in auto)
  moreover have "good (bkt_page pgp' b)"
    using g by (simp add: q pout_good pg)
  ultimately show thesis
    by (intro that [OF w]) (use fl oth ret in auto)
qed

end

context page_io
begin

lemma sync_writes_ok:
  "ready pgp \<Longrightarrow> set l \<subseteq> set (lqh pgp) \<Longrightarrow> (\<And>b. b \<in> set l \<Longrightarrow> good (bkt_page pgp b)) \<Longrightarrow>
     \<exists>ret pgp'. sync_writes pgp l = Some (ret, pgp') \<and> (ret = 0 \<or> ret = - 1) \<and> ready pgp' \<and>
       pool_view nrm pgp' = pool_view nrm pgp \<and> flushed pgp pgp' \<and>
       (ret = 0 \<longrightarrow> (\<forall>b\<in>set l. \<not> dirty pgp' b)) \<and>
       (\<forall>c. c \<notin> set l \<longrightarrow> bkts pgp' c = bkts pgp c)"
proof (induction l arbitrary: pgp)
  case (Cons b l)
  obtain bp where bp: "bkts pgp b = Some bp"
    using ready_struct [OF Cons.prems(1)] Cons.prems(2) by (auto simp: pool_struct_def)
  show ?case
  proof (cases "dirty pgp b")
    case True
    obtain ret pgp' where w: "pagepool_write pgp b = Some (ret, pgp')" "ret = 0 \<or> ret = - 1"
      "ready pgp'" "pool_view nrm pgp' = pool_view nrm pgp" "flushed pgp pgp'"
      "ret = 0 \<Longrightarrow> \<not> dirty pgp' b" "good (bkt_page pgp' b)"
      "\<And>c. c \<noteq> b \<Longrightarrow> bkts pgp' c = bkts pgp c"
      using write_ok [OF Cons.prems(1), of b] Cons.prems(2,3) by auto
    show ?thesis
    proof (cases "ret = 0")
      case ret: True
      have "good (bkt_page pgp' c)" if "c \<in> set l" for c
        using w(7,8) Cons.prems(3) that by (cases "c = b") (auto simp: bkt_page_def)
      then obtain ret2 pgp2 where s: "sync_writes pgp' l = Some (ret2, pgp2)" "ret2 = 0 \<or> ret2 = - 1"
        "ready pgp2" "pool_view nrm pgp2 = pool_view nrm pgp'" "flushed pgp' pgp2"
        "ret2 = 0 \<longrightarrow> (\<forall>b\<in>set l. \<not> dirty pgp2 b)" "\<forall>c. c \<notin> set l \<longrightarrow> bkts pgp2 c = bkts pgp' c"
        using Cons.IH [of pgp'] w Cons.prems(2) flushed_fields [OF w(5)] by auto
      moreover have "\<not> dirty pgp2 b"
        using flushed_bkts(4) [OF s(5)] w(6) ret by blast
      ultimately show ?thesis
        using True ret w bp flushed_trans [OF w(5) s(5)] by (auto simp: dirty_def bkt_flags_def)
    next
      case False
      then show ?thesis
        using True w bp by (auto simp: dirty_def bkt_flags_def)
    qed
  next
    case False
    obtain ret2 pgp2 where s: "sync_writes pgp l = Some (ret2, pgp2)" "ret2 = 0 \<or> ret2 = - 1"
      "ready pgp2" "pool_view nrm pgp2 = pool_view nrm pgp" "flushed pgp pgp2"
      "ret2 = 0 \<longrightarrow> (\<forall>b\<in>set l. \<not> dirty pgp2 b)" "\<forall>c. c \<notin> set l \<longrightarrow> bkts pgp2 c = bkts pgp c"
      using Cons.IH [of pgp] Cons.prems by auto
    moreover have "\<not> dirty pgp2 b"
      using flushed_bkts(4) [OF s(5)] False by blast
    ultimately show ?thesis
      using False bp by (auto simp: dirty_def bkt_flags_def)
  qed
qed simp

end

lemma sync_collect_set:
  "(\<And>b. b \<in> set l \<Longrightarrow> bkts pgp b \<noteq> None) \<Longrightarrow>
     \<exists>res. sync_collect pgp k l num slh = Some res \<and>
       set res \<subseteq> set slh \<union> {b \<in> set l. \<exists>bp. bkts pgp b = Some bp \<and> flushable bp} \<and>
       (k = 0 \<longrightarrow> set res = set slh \<union> {b \<in> set l. \<exists>bp. bkts pgp b = Some bp \<and> flushable bp})"
proof (induction l arbitrary: num slh)
  case (Cons b l)
  obtain bp where bp: "bkts pgp b = Some bp" using Cons.prems by fastforce
  show ?case
  proof (cases "flushable bp")
    case True
    then show ?thesis
      using Cons.IH [of "num + 1" "b # slh"] Cons.prems bp by auto
  next
    case False
    then show ?thesis
      using Cons.IH [of num slh] Cons.prems bp by auto
  qed
qed simp

context page_io
begin

lemma sync_i_ok:
  assumes r: "ready pgp"
  obtains ret pgp' where "pagepool_sync_i pgp k = Some (ret, pgp')" "ret = 0 \<or> ret = - 1" "ready pgp'"
    "pool_view nrm pgp' = pool_view nrm pgp" "flushed pgp pgp'"
    "\<And>b bp. ret = 0 \<Longrightarrow> k = 0 \<Longrightarrow> b \<in> set (lqh pgp) \<Longrightarrow> bkts pgp b = Some bp \<Longrightarrow> flushable bp \<Longrightarrow> \<not> dirty pgp' b"
    "\<And>c. pinned pgp c \<or> c \<notin> set (lqh pgp) \<Longrightarrow> bkts pgp' c = bkts pgp c"
proof -
  have live: "bkts pgp c \<noteq> None" if "c \<in> set (lqh pgp)" for c
    using ready_struct [OF r] that by (auto simp: pool_struct_def)
  obtain res where res: "sync_collect pgp k (lqh pgp) 0 [] = Some res"
    "set res \<subseteq> {b \<in> set (lqh pgp). \<exists>bp. bkts pgp b = Some bp \<and> flushable bp}"
    "k = 0 \<longrightarrow> set res = {b \<in> set (lqh pgp). \<exists>bp. bkts pgp b = Some bp \<and> flushable bp}"
    using sync_collect_set [of "lqh pgp" pgp k 0 "[]", OF live] by auto
  let ?l = "ffdb_slist_merge_sort (ffdb_sbkt_cmp pgp) res"
  have "good (bkt_page pgp c)" if "c \<in> set ?l" for c
  proof -
    from that res(2) obtain bp where "c \<in> set (lqh pgp)" "bkts pgp c = Some bp" "flushable bp" by auto
    then show ?thesis
      using ready_bkt_ok [OF r, of c] by (auto simp: bkt_ok_def pinned_def bkt_flags_def flushable_def)
  qed
  then obtain ret pgp' where s: "sync_writes pgp ?l = Some (ret, pgp')" "ret = 0 \<or> ret = - 1"
    "ready pgp'" "pool_view nrm pgp' = pool_view nrm pgp" "flushed pgp pgp'"
    "ret = 0 \<longrightarrow> (\<forall>b\<in>set ?l. \<not> dirty pgp' b)" "\<forall>c. c \<notin> set ?l \<longrightarrow> bkts pgp' c = bkts pgp c"
    using sync_writes_ok [OF r, of ?l] res(2) by auto
  have "c \<notin> set ?l" if "pinned pgp c \<or> c \<notin> set (lqh pgp)" for c
    using that res(2) by (auto simp: pinned_def bkt_flags_def flushable_def)
  then show thesis
    by (intro that [of ret pgp']) (use s res in \<open>auto simp: pagepool_sync_i_def\<close>)
qed

end

section \<open>Taking buckets off the queues and putting them on\<close>

lemma queue_fields [simp]:
  "bkts (lq_remove b p) = bkts p" "bkts (hq_remove n b p) = bkts p"
  "bkts (lq_insert_tail b p) = bkts p" "bkts (hq_insert_head n b p) = bkts p"
  "lqh (hq_remove n b p) = lqh p" "lqh (hq_insert_head n b p) = lqh p"
  "hqh (lq_remove b p) = hqh p" "hqh (lq_insert_tail b p) = hqh p"
  "lqh (lq_remove b p) = remove1 b (lqh p)" "lqh (lq_insert_tail b p) = lqh p @ [b]"
  "bkt_pgno (lq_remove b p) = bkt_pgno p" "bkt_pgno (hq_remove n b p) = bkt_pgno p"
  "bkt_pgno (lq_insert_tail b p) = bkt_pgno p" "bkt_pgno (hq_insert_head n b p) = bkt_pgno p"
  by (simp_all add: lq_remove_def hq_remove_def lq_insert_tail_def hq_insert_head_def fun_eq_iff bkt_pgno_def)

lemma queue_fields2 [simp]:
  "next_bkt (lq_remove b p) = next_bkt p" "next_bkt (hq_remove n b p) = next_bkt p"
  "next_bkt (lq_insert_tail b p) = next_bkt p" "next_bkt (hq_insert_head n b p) = next_bkt p"
  "pgin (lq_remove b p) = pgin p" "pgin (hq_remove n b p) = pgin p"
  "pgin (lq_insert_tail b p) = pgin p" "pgin (hq_insert_head n b p) = pgin p"
  "pgout (lq_remove b p) = pgout p" "pgout (hq_remove n b p) = pgout p"
  "pgout (lq_insert_tail b p) = pgout p" "pgout (hq_insert_head n b p) = pgout p"
  "pagesize (lq_remove b p) = pagesize p" "pagesize (hq_remove n b p) = pagesize p"
  "pagesize (lq_insert_tail b p) = pagesize p" "pagesize (hq_insert_head n b p) = pagesize p"
  "backing (lq_remove b p) = backing p" "backing (hq_remove n b p) = backing p"
  "backing (lq_insert_tail b p) = backing p" "backing (hq_insert_head n b p) = backing p"
  "umem (lq_remove b p) = umem p" "umem (hq_remove n b p) = umem p"
  "umem (lq_insert_tail b p) = umem p" "umem (hq_insert_head n b p) = umem p"
  "self (lq_remove b p) = self p" "self (hq_remove n b p) = self p"
  "self (lq_insert_tail b p) = self p" "self (hq_insert_head n b p) = self p"
  by (simp_all add: lq_remove_def hq_remove_def lq_insert_tail_def hq_insert_head_def)

lemma queue_hqh [simp]:
  "hqh (hq_remove n b p) = (hqh p)(HASHKEY n := remove1 b (hqh p (HASHKEY n)))"
  "hqh (hq_insert_head n b p) = (hqh p)(HASHKEY n := b # hqh p (HASHKEY n))"
  by (simp_all add: hq_remove_def hq_insert_head_def)

lemma page_size_same [simp]:
  "page_size (upd_bkt b f p) = page_size p" "page_size (lq_remove b p) = page_size p"
  "page_size (hq_remove n b p) = page_size p" "page_size (lq_insert_tail b p) = page_size p"
  "page_size (hq_insert_head n b p) = page_size p"
  by (simp_all add: page_size_def)

lemma disk_page_same [simp]:
  "disk_page (upd_bkt b f p) = disk_page p" "disk_page (lq_remove b p) = disk_page p"
  "disk_page (hq_remove n b p) = disk_page p" "disk_page (lq_insert_tail b p) = disk_page p"
  "disk_page (hq_insert_head n b p) = disk_page p"
  by (simp_all add: disk_page_def fun_eq_iff)

lemma struct_remove:
  assumes "pool_struct p" "b \<in> set (lqh p)"
  shows "pool_struct (lq_remove b (hq_remove (bkt_pgno p b) b p))"
proof -
  have d: "distinct (lqh p)" "distinct (map (bkt_pgno p) (lqh p))"
    using assms by (simp_all add: pool_struct_def)
  have "distinct (map (bkt_pgno p) (remove1 b (lqh p)))"
    using d by (auto simp: distinct_map intro: inj_on_subset)
  then show ?thesis
    using assms d by (auto simp: pool_struct_def)
qed

lemma struct_insert:
  assumes "pool_struct p" "b \<notin> set (lqh p)" "bkts p b \<noteq> None" "\<forall>c\<in>set (lqh p). bkt_pgno p c \<noteq> bkt_pgno p b"
  shows "pool_struct (lq_insert_tail b (hq_insert_head (bkt_pgno p b) b p))"
  using assms by (auto simp: pool_struct_def)

lemma bkt_pgno_upd: "bkt_pgno (upd_bkt b f p) c =
    (if c = b then (case bkts p b of None \<Rightarrow> 0 | Some bp \<Rightarrow> b_pgno (f bp)) else bkt_pgno p c)"
  by (simp add: bkt_pgno_def bkts_upd_bkt split: option.split)

lemma struct_upd_off:
  assumes "pool_struct p" "b \<notin> set (lqh p)"
  shows "pool_struct (upd_bkt b f p)"
proof -
  have m: "map (bkt_pgno (upd_bkt b f p)) (lqh p) = map (bkt_pgno p) (lqh p)"
    using assms(2) by (auto simp: bkt_pgno_upd)
  have h: "{c \<in> set (lqh p). HASHKEY (bkt_pgno (upd_bkt b f p) c) = k}
      = {c \<in> set (lqh p). HASHKEY (bkt_pgno p c) = k}" for k
    using assms(2) by (auto simp: bkt_pgno_upd)
  show ?thesis
    using assms unfolding pool_struct_def upd_bkt_fields m h by (auto simp: bkts_upd_bkt)
qed

lemma struct_upd_same:
  assumes "pool_struct p" "\<And>bp. b_pgno (f bp) = b_pgno bp"
  shows "pool_struct (upd_bkt b f p)"
proof -
  have "bkt_pgno (upd_bkt b f p) = bkt_pgno p"
    using assms(2) by (auto simp: fun_eq_iff bkt_pgno_upd) (auto simp: bkt_pgno_def split: option.split)
  then show ?thesis
    using assms by (auto simp: pool_struct_def bkts_upd_bkt)
qed

text \<open>What every operation leaves alone: the buckets some thread has pinned.\<close>

definition keeps :: "pagepool \<Rightarrow> pagepool \<Rightarrow> bool" where
  "keeps p p' \<longleftrightarrow>
     (\<forall>c\<in>set (lqh p). pinned p c \<longrightarrow> c \<in> set (lqh p') \<and> bkts p' c = bkts p c) \<and>
     self p' = self p"

lemma keeps_refl [simp]: "keeps p p"
  by (simp add: keeps_def)

lemma pinned_cong: "bkts p' c = bkts p c \<Longrightarrow> pinned p' c = pinned p c"
  by (simp add: pinned_def bkt_flags_def)

lemma keeps_trans: "keeps p q \<Longrightarrow> keeps q r \<Longrightarrow> keeps p r"
  unfolding keeps_def by (metis pinned_cong)

context page_io
begin

lemma ready_upd_off:
  assumes "ready p" "b \<notin> set (lqh p)"
  shows "ready (upd_bkt b f p) \<and> pool_view nrm (upd_bkt b f p) = pool_view nrm p"
proof -
  let ?q = "upd_bkt b f p"
  have same: "bkts ?q c = bkts p c" if "c \<in> set (lqh p)" for c
    using that assms(2) by (auto simp: bkts_upd_bkt)
  have "bkt_ok good nrm ?q c" if "c \<in> set (lqh p)" for c
    using ready_bkt_ok [OF assms(1) that] same [OF that]
    by (simp add: bkt_ok_def pinned_def dirty_def bkt_flags_def bkt_page_def bkt_pgno_def)
  then have "ready ?q"
    using assms struct_upd_off [OF ready_struct [OF assms(1)] assms(2)]
    by (auto simp: ready_def pool_inv_def)
  moreover have "pool_view nrm ?q n = pool_view nrm p n" for n
  proof -
    have "cached ?q n = cached p n"
      unfolding cached_def upd_bkt_fields by (rule find_cong) (auto simp: bkt_pgno_def same)
    moreover have "bkt_page ?q c = bkt_page p c" if "cached p n = Some c" for c
      using same that by (simp add: cached_Some [OF ready_struct [OF assms(1)]] bkt_page_def)
    ultimately show ?thesis
      by (cases "cached p n") (simp_all add: pool_view_def)
  qed
  ultimately show ?thesis by auto
qed

lemma remove_ok:
  assumes r: "ready p" and b: "b \<in> set (lqh p)" and "\<not> pinned p b" "\<not> dirty p b"
  shows "ready (lq_remove b (hq_remove (bkt_pgno p b) b p)) \<and>
    pool_view nrm (lq_remove b (hq_remove (bkt_pgno p b) b p)) = pool_view nrm p"
proof -
  let ?q = "lq_remove b (hq_remove (bkt_pgno p b) b p)"
  have S: "pool_struct p" "pool_struct ?q"
    using ready_struct [OF r] struct_remove b by auto
  have "distinct (lqh p)" using S by (simp add: pool_struct_def)
  then have l: "set (lqh ?q) = set (lqh p) - {b}" by simp
  have "bkt_ok good nrm ?q c" if "c \<in> set (lqh p)" for c
    using ready_bkt_ok [OF r that]
    by (simp add: bkt_ok_def pinned_def dirty_def bkt_flags_def bkt_page_def)
  then have "ready ?q"
    using r S(2) l by (auto simp: ready_def pool_inv_def)
  moreover have "pool_view nrm ?q n = pool_view nrm p n" for n
  proof (cases "cached p n")
    case None
    then have "cached ?q n = None" using l by (auto simp: cached_None)
    then show ?thesis using None by (simp add: pool_view_def)
  next
    case (Some c)
    then have c: "c \<in> set (lqh p)" "bkt_pgno p c = n" using cached_Some [OF S(1)] by auto
    show ?thesis
    proof (cases "c = b")
      case True
      have inj: "inj_on (bkt_pgno p) (set (lqh p))" using S by (simp add: pool_struct_def distinct_map)
      then have "cached ?q n = None"
        using True c l by (auto simp: cached_None dest: inj_onD)
      then show ?thesis
        using Some True c assms ready_bkt_ok [OF r b] by (simp add: pool_view_def bkt_ok_def)
    next
      case False
      then have "cached ?q n = Some c"
        using c l cached_Some [OF S(2)] by simp
      then show ?thesis using Some by (simp add: pool_view_def bkt_page_def)
    qed
  qed
  ultimately show ?thesis by auto
qed

end

section \<open>Allocating buckets\<close>

text \<open>
  An allocation step may flush pages and drop one from the cache: the invariant and the view
  stay, no page comes into the cache, and no pinned page is touched.
\<close>

definition shrinks :: "pagepool \<Rightarrow> pagepool \<Rightarrow> bool" where
  "shrinks p p' \<longleftrightarrow> keeps p p' \<and> set (lqh p') \<subseteq> set (lqh p) \<and>
     (\<forall>c\<in>set (lqh p'). bkt_pgno p' c = bkt_pgno p c)"

lemma shrinks_refl [simp]: "shrinks p p"
  by (simp add: shrinks_def)

lemma shrinks_trans: "shrinks p q \<Longrightarrow> shrinks q r \<Longrightarrow> shrinks p r"
  by (auto simp: shrinks_def intro: keeps_trans)

lemma shrinks_uncached: "shrinks p p' \<Longrightarrow> cached p n = None \<Longrightarrow> cached p' n = None"
  by (auto simp: shrinks_def cached_None)

text \<open>A bucket in hand: off the queues, with room for a page, pinned and clean.\<close>

definition in_hand :: "nat \<Rightarrow> pagepool \<Rightarrow> nat \<Rightarrow> bool" where
  "in_hand ps p b \<longleftrightarrow> b \<notin> set (lqh p) \<and>
     (\<exists>bp. bkts p b = Some bp \<and> length (b_page bp) = ps \<and> bit (b_flags bp) 8 \<and> \<not> bit (b_flags bp) 1 \<and>
        b_owner bp = Some (self p) \<and> b_waiters bp = 0)"

lemma shrinks_flushed:
  assumes "flushed p p'" "\<And>c. pinned p c \<or> c \<notin> set (lqh p) \<Longrightarrow> bkts p' c = bkts p c"
  shows "shrinks p p'"
  using assms flushed_fields [OF assms(1)] flushed_bkts [OF assms(1)] by (auto simp: shrinks_def keeps_def)

lemma flag_PV [simp]: "bit (FLAG_SET FFDB_PAGE_PINNED FFDB_PAGE_VALID) n \<longleftrightarrow> n = 8 \<or> n = 9"
  by simp

context page_io
begin

lemma insert_ok:
  assumes r: "ready p" and b: "b \<notin> set (lqh p)" and bp: "bkts p b = Some bp" "length (b_page bp) = ps"
    "bit (b_flags bp) 8" and n: "b_pgno bp = n" "cached p n = None"
  shows "ready (lq_insert_tail b (hq_insert_head n b p)) \<and>
    pool_view nrm (lq_insert_tail b (hq_insert_head n b p)) = (pool_view nrm p)(n \<mapsto> nrm (b_page bp))"
proof -
  let ?q = "lq_insert_tail b (hq_insert_head n b p)"
  have pg: "bkt_pgno p b = n" using bp n by (simp add: bkt_pgno_def)
  have S: "pool_struct p" by (rule ready_struct [OF r])
  have S': "pool_struct ?q"
    using struct_insert [OF S b] bp n pg by (auto simp: cached_None)
  have "bkt_ok good nrm ?q c" if "c \<in> set (lqh p)" for c
    using ready_bkt_ok [OF r that]
    by (simp add: bkt_ok_def pinned_def dirty_def bkt_flags_def bkt_page_def)
  moreover have "bkt_ok good nrm ?q b"
    using bp r by (simp add: bkt_ok_def pinned_def bkt_flags_def bkt_page_def ready_def)
  ultimately have "ready ?q"
    using r S' by (auto simp: ready_def pool_inv_def)
  moreover have "pool_view nrm ?q m = ((pool_view nrm p)(n \<mapsto> nrm (b_page bp))) m" for m
  proof (cases "m = n")
    case True
    then have "cached ?q m = Some b" using pg cached_Some [OF S'] by simp
    then show ?thesis using True bp by (simp add: pool_view_def bkt_page_def)
  next
    case False
    have "cached ?q m = cached p m"
    proof (cases "cached p m")
      case None
      then have "cached ?q m = None" using False pg by (auto simp: cached_None)
      then show ?thesis using None by simp
    next
      case (Some c)
      then have "cached ?q m = Some c" using cached_Some [OF S'] cached_Some [OF S] by simp
      then show ?thesis using Some by simp
    qed
    then show ?thesis using False by (cases "cached p m") (simp_all add: pool_view_def bkt_page_def)
  qed
  ultimately show ?thesis by auto
qed

lemma reuse_take_ok:
  assumes r: "ready p" and b: "b \<in> set (lqh p)" "\<not> pinned p b" "\<not> dirty p b"
  shows "ready (reuse_take p b)" "pool_view nrm (reuse_take p b) = pool_view nrm p"
    "shrinks p (reuse_take p b)" "in_hand ps (reuse_take p b) b"
proof -
  let ?q = "lq_remove b (hq_remove (bkt_pgno p b) b p)"
  have S: "distinct (lqh p)" using ready_struct [OF r] by (simp add: pool_struct_def)
  obtain bp where bp: "bkts p b = Some bp"
    using ready_struct [OF r] b by (auto simp: pool_struct_def)
  have len: "length (b_page bp) = ps"
    using ready_bkt_ok [OF r b(1)] bp r by (auto simp: bkt_ok_def bkt_page_def ready_def)
  have q: "ready ?q" "pool_view nrm ?q = pool_view nrm p"
    using remove_ok [OF r b] by auto
  have off: "b \<notin> set (lqh ?q)" using S by simp
  show "ready (reuse_take p b)" "pool_view nrm (reuse_take p b) = pool_view nrm p"
    using ready_upd_off [OF q(1) off] q(2) by (simp_all add: reuse_take_def)
  have "pinned p c \<Longrightarrow> c \<noteq> b" for c using b by auto
  then show "shrinks p (reuse_take p b)"
    using S off by (auto simp: shrinks_def keeps_def reuse_take_def bkts_upd_bkt bkt_pgno_upd)
  show "in_hand ps (reuse_take p b) b"
    using S bp len by (simp add: in_hand_def reuse_take_def bkts_upd_bkt)
qed

lemma reuse_walk_ok:
  "ready p \<Longrightarrow> set l \<subseteq> set (lqh p) \<Longrightarrow>
     \<exists>ret nw rb p'. reuse_walk p l r0 = Some (ret, nw, rb, p') \<and> ready p' \<and>
       pool_view nrm p' = pool_view nrm p \<and> shrinks p p' \<and> (\<forall>b. rb = Some b \<longrightarrow> in_hand ps p' b)"
proof (induction l arbitrary: p r0)
  case (Cons b l)
  obtain bp where bp: "bkts p b = Some bp"
    using ready_struct [OF Cons.prems(1)] Cons.prems(2) by (auto simp: pool_struct_def)
  have fl: "bkt_flags p b = b_flags bp" using bp by (simp add: bkt_flags_def)
  have bl: "b \<in> set (lqh p)" using Cons.prems by simp
  show ?case
  proof (cases "reusable bp")
    case False
    then show ?thesis using Cons bp by auto
  next
    case True
    then have unp: "\<not> pinned p b" by (simp add: reusable_def pinned_def fl)
    show ?thesis
    proof (cases "dirty p b")
      case False
      then show ?thesis
        using True bp reuse_take_ok [OF Cons.prems(1) bl unp False] by (auto simp: dirty_def fl)
    next
      case d: True
      have g: "good (bkt_page p b)"
        using ready_bkt_ok [OF Cons.prems(1) bl] unp by (simp add: bkt_ok_def)
      obtain st p1 where w: "pagepool_write p b = Some (st, p1)" "st = 0 \<or> st = - 1" "ready p1"
        "pool_view nrm p1 = pool_view nrm p" "flushed p p1" "st = 0 \<Longrightarrow> \<not> dirty p1 b"
        "\<And>c. c \<noteq> b \<Longrightarrow> bkts p1 c = bkts p c"
        by (rule write_ok [OF Cons.prems(1) bl g]) blast
      have sh: "shrinks p p1"
        by (rule shrinks_flushed [OF w(5)]) (use unp bl w(7) in metis)
      have p1: "lqh p1 = lqh p" "\<not> pinned p1 b"
        using flushed_fields [OF w(5)] flushed_bkts [OF w(5)] unp by auto
      show ?thesis
      proof (cases "st = - 1")
        case True
        obtain ret nw rb p' where s: "reuse_walk p1 l (errno p1) = Some (ret, nw, rb, p')" "ready p'"
          "pool_view nrm p' = pool_view nrm p1" "shrinks p1 p'" "\<forall>b. rb = Some b \<longrightarrow> in_hand ps p' b"
          using Cons.IH [OF w(3), of "errno p1"] p1 Cons.prems(2) by auto
        then show ?thesis
          using w(1,4) True \<open>reusable bp\<close> bp d shrinks_trans [OF sh s(4)] by (auto simp: dirty_def fl)
      next
        case False
        then have st: "st = 0" using w(2) by simp
        have "b \<in> set (lqh p1)" using p1 bl by simp
        note t = reuse_take_ok [OF w(3) this p1(2) w(6) [OF st]]
        then show ?thesis
          using w(1,4) st True bp d shrinks_trans [OF sh t(3)] by (auto simp: dirty_def fl)
      qed
    qed
  qed
qed (auto intro: exI [of _ False])

end

context page_io
begin

lemma ready_frame:
  assumes r: "ready p" and same: "lqh p' = lqh p" "hqh p' = hqh p" "pgin p' = pgin p" "pgout p' = pgout p"
    "pagesize p' = pagesize p" "backing p' = backing p" "umem p' = umem p"
    and bk: "\<And>c. c \<in> set (lqh p) \<Longrightarrow> bkts p' c = bkts p c"
    and nx: "\<And>c. next_bkt p' \<le> c \<Longrightarrow> bkts p' c = None"
  shows "ready p' \<and> pool_view nrm p' = pool_view nrm p"
proof -
  have psz: "page_size p' = page_size p" and dp: "disk_page p' = disk_page p"
    using same by (simp_all add: page_size_def disk_page_def fun_eq_iff)
  have pg: "bkt_pgno p' c = bkt_pgno p c" "bkt_page p' c = bkt_page p c" "pinned p' c = pinned p c"
      "dirty p' c = dirty p c" if "c \<in> set (lqh p)" for c
    using bk [OF that] by (simp_all add: bkt_pgno_def bkt_page_def pinned_def dirty_def bkt_flags_def)
  have m: "map (bkt_pgno p') (lqh p) = map (bkt_pgno p) (lqh p)"
    and h: "{c \<in> set (lqh p). HASHKEY (bkt_pgno p' c) = k} = {c \<in> set (lqh p). HASHKEY (bkt_pgno p c) = k}" for k
    using pg by auto
  have "pool_struct p'"
    using ready_struct [OF r] bk nx unfolding pool_struct_def same m h by auto
  moreover have "bkt_ok good nrm p' c" if "c \<in> set (lqh p)" for c
    using ready_bkt_ok [OF r that] pg [OF that] by (simp add: bkt_ok_def psz dp)
  ultimately have "ready p'"
    using r same psz by (auto simp: ready_def pool_inv_def)
  moreover have "pool_view nrm p' n = pool_view nrm p n" for n
  proof -
    have "cached p' n = cached p n"
      unfolding cached_def same by (rule find_cong) (auto simp: pg)
    moreover have "bkt_page p' c = bkt_page p c" if "cached p n = Some c" for c
      using that pg by (simp add: cached_Some [OF ready_struct [OF r]])
    ultimately show ?thesis
      by (cases "cached p n") (simp_all add: pool_view_def dp)
  qed
  ultimately show ?thesis by auto
qed

lemma new_bkt_ok:
  assumes r: "ready p" and n: "new_bkt p = (b, p')"
  shows "ready p'" "pool_view nrm p' = pool_view nrm p" "shrinks p p'" "in_hand ps p' b"
proof -
  have S: "pool_struct p" by (rule ready_struct [OF r])
  have b: "b = next_bkt p" and p': "lqh p' = lqh p" "hqh p' = hqh p" "pgin p' = pgin p"
      "pgout p' = pgout p" "pagesize p' = pagesize p" "backing p' = backing p" "umem p' = umem p"
      "next_bkt p' = Suc b" "self p' = self p"
    using n by (auto simp: new_bkt_def Let_def)
  have bk: "bkts p' = (bkts p)(b \<mapsto> \<lparr>b_page = umem p b, b_pgno = 0, b_ref = 0, b_waiters = 0,
      b_flags = FLAG_SET FFDB_PAGE_PINNED FFDB_PAGE_VALID, b_owner = Some (self p), b_wqh = []\<rparr>)"
    using n by (auto simp: new_bkt_def Let_def)
  have dead: "bkts p c = None" if "next_bkt p \<le> c" for c
    using S that by (simp add: pool_struct_def)
  then have off: "b \<notin> set (lqh p)"
    using S b by (auto simp: pool_struct_def)
  have "ready p' \<and> pool_view nrm p' = pool_view nrm p"
    by (rule ready_frame [OF r p'(1-7)]) (use off b dead p'(8) in \<open>auto simp: bk\<close>)
  then show "ready p'" "pool_view nrm p' = pool_view nrm p" by auto
  show "shrinks p p'"
    using off by (auto simp: shrinks_def keeps_def p' bk bkt_pgno_def)
  have "length (umem p b) = ps" using r by (auto simp: ready_def pool_inv_def)
  then show "in_hand ps p' b"
    using off by (simp add: in_hand_def p' bk del: bit_flag_set)
qed

lemma reuse_bkt_ok:
  assumes r: "ready p" and ne: "lqh p \<noteq> []"
  obtains ret rb p' where "reuse_bkt p = Some (ret, rb, p')" "ready p'" "pool_view nrm p' = pool_view nrm p"
    "shrinks p p'" "\<And>b. rb = Some b \<Longrightarrow> in_hand ps p' b" "rb = None \<Longrightarrow> ret = - 1"
proof -
  obtain ret nw rb p1 where w: "reuse_walk p (lqh p) 0 = Some (ret, nw, rb, p1)" "ready p1"
    "pool_view nrm p1 = pool_view nrm p" "shrinks p p1" "\<forall>b. rb = Some b \<longrightarrow> in_hand ps p1 b"
    using reuse_walk_ok [OF r, of "lqh p" 0] by auto
  show thesis
  proof (cases nw)
    case False
    show thesis
      by (rule that [of "if rb = None then - 1 else ret" rb p1])
         (use w ne False in \<open>auto simp: reuse_bkt_def\<close>)
  next
    case True
    obtain st p2 where s: "pagepool_sync_i p1 (maxcache p1 div FFDB_WRITE_FRAC) = Some (st, p2)"
      "ready p2" "pool_view nrm p2 = pool_view nrm p1" "flushed p1 p2"
      "\<And>c. pinned p1 c \<or> c \<notin> set (lqh p1) \<Longrightarrow> bkts p2 c = bkts p1 c"
      by (rule sync_i_ok [OF w(2), of "maxcache p1 div FFDB_WRITE_FRAC"]) blast
    have sh: "shrinks p1 p2" by (rule shrinks_flushed [OF s(4,5)])
    have "in_hand ps p2 b" if "rb = Some b" for b
    proof -
      have i: "in_hand ps p1 b" using w(5) that by simp
      then have "bkts p2 b = bkts p1 b" by (intro s(5)) (simp add: in_hand_def)
      then show ?thesis
        using i sh flushed_fields [OF s(4)] by (auto simp: in_hand_def)
    qed
    then show thesis
      by (intro that [of "if rb = None then - 1 else ret" rb p2])
         (use w s ne True shrinks_trans [OF w(4) sh] in \<open>auto simp: reuse_bkt_def\<close>)
  qed
qed

lemma alloc_bkt_ok:
  assumes r: "ready p" and a: "alloc_bkt p = Some (b, p')"
  shows "ready p' \<and> pool_view nrm p' = pool_view nrm p \<and> shrinks p p' \<and> in_hand ps p' b"
proof (cases "curcache p > maxcache p")
  case False
  then show ?thesis using a new_bkt_ok [OF r] by (cases "new_bkt p") (auto simp: alloc_bkt_def)
next
  case True
  have ne: "lqh p \<noteq> []" using a True by (auto simp: alloc_bkt_def reuse_bkt_def)
  obtain ret rb p1 where s: "reuse_bkt p = Some (ret, rb, p1)" "ready p1" "pool_view nrm p1 = pool_view nrm p"
    "shrinks p p1" "\<And>b. rb = Some b \<Longrightarrow> in_hand ps p1 b" "rb = None \<Longrightarrow> ret = - 1"
    by (rule reuse_bkt_ok [OF r ne]) blast
  show ?thesis
  proof (cases "ret = - 1")
    case True
    then have n: "new_bkt p1 = (b, p')"
      using a s \<open>curcache p > maxcache p\<close> by (auto simp: alloc_bkt_def)
    show ?thesis
      using new_bkt_ok [OF s(2) n] s shrinks_trans by metis
  next
    case False
    then show ?thesis
      using a s True by (auto simp: alloc_bkt_def split: option.splits)
  qed
qed

lemma alloc_bkt_total: "ready p \<Longrightarrow> lqh p \<noteq> [] \<or> curcache p \<le> maxcache p \<Longrightarrow> alloc_bkt p \<noteq> None"
  by (cases "lqh p = []")
     (auto simp: alloc_bkt_def not_less [symmetric] elim: reuse_bkt_ok split: option.splits prod.splits)

end

section \<open>Loading, getting and putting pages\<close>

lemma mem_put_full [simp]: "length bs = length m \<Longrightarrow> mem_put m 0 bs = bs"
  by (simp add: mem_put_def)

lemma mem_write_full [simp]: "length bs = length m \<Longrightarrow> mem_write m 0 bs = Some bs"
  by (simp add: mem_write_def mem_put_def)

lemma upd_bkt_queues:
  "upd_bkt b f (lq_insert_tail b' (hq_insert_head n b' p)) = lq_insert_tail b' (hq_insert_head n b' (upd_bkt b f p))"
  by (simp add: upd_bkt_def lq_insert_tail_def hq_insert_head_def)

lemma upd_bkt_twice: "upd_bkt b g (upd_bkt b f p) = upd_bkt b (g \<circ> f) p"
  by (cases "bkts p b") (simp_all add: upd_bkt_def)

text \<open>What an operation on bucket \<open>b\<close> leaves alone: the other buckets that are pinned.\<close>

definition keeps_others :: "nat \<Rightarrow> pagepool \<Rightarrow> pagepool \<Rightarrow> bool" where
  "keeps_others b p p' \<longleftrightarrow>
     (\<forall>c\<in>set (lqh p). pinned p c \<and> c \<noteq> b \<longrightarrow> c \<in> set (lqh p') \<and> bkts p' c = bkts p c) \<and> self p' = self p"

text \<open>The caller holds page \<open>n\<close> in bucket \<open>b\<close>.\<close>

definition holds :: "pagepool \<Rightarrow> nat \<Rightarrow> pgno \<Rightarrow> bool" where
  "holds p b n \<longleftrightarrow> b \<in> set (lqh p) \<and> pinned p b \<and>
     (\<exists>bp. bkts p b = Some bp \<and> b_pgno bp = n \<and> b_owner bp = Some (self p))"

text \<open>The pool after page \<open>n\<close> with the content \<open>q\<close> is loaded into bucket \<open>b\<close>.\<close>

definition load_bkt :: "thread \<Rightarrow> pgno \<Rightarrow> u32 \<Rightarrow> mem \<Rightarrow> bkt \<Rightarrow> bkt" where
  "load_bkt me n flags q = (\<lambda>bp. bp\<lparr>b_page := q, b_pgno := n, b_owner := Some me, b_ref := 1,
     b_waiters := 0, b_flags := mark_flags flags (b_flags bp)\<rparr>)"

definition loaded :: "nat \<Rightarrow> pgno \<Rightarrow> u32 \<Rightarrow> mem \<Rightarrow> pagepool \<Rightarrow> pagepool" where
  "loaded b n flags q p = lq_insert_tail b (hq_insert_head n b (upd_bkt b (load_bkt (self p) n flags q) p))"

context page_io
begin

lemma load_new_page_eq:
  assumes a: "alloc_bkt p = Some (b, p1)" and r1: "ready p1" and hand: "in_hand ps p1 b"
  shows "load_new_page p n flags =
    do { page1 \<leftarrow> disk_page p1 n; Some (0, Some b, loaded b n flags page1 p1) }"
proof -
  obtain bp where bp: "bkts p1 b = Some bp" "length (b_page bp) = ps"
    using hand by (auto simp: in_hand_def)
  have psz: "unat (pagesize p1) = ps" and pin1: "pgin p1 = Some pin" and dv: "ps dvd length (f_data (backing p1))" "0 < ps"
    using r1 by (auto simp: ready_def page_size_def pool_inv_def)
  let ?d = "file_page (f_data (backing p1)) ps (unat n)"
  have upd: "upd_bkt b (b_page_update (\<lambda>_. q')) (loaded b n flags q p1) = loaded b n flags q' p1" for q q'
  proof -
    have "b_page_update (\<lambda>_. q') \<circ> load_bkt (self p1) n flags q = load_bkt (self p1) n flags q'"
      by (rule ext, rule bkt.equality) (simp_all add: load_bkt_def)
    then show ?thesis by (simp add: loaded_def upd_bkt_queues upd_bkt_twice)
  qed
  have pgin_res: "pgin (loaded b n flags q p1) = Some pin" for q by (simp add: loaded_def pin1)
  note exp = loaded_def load_bkt_def
  have "load_new_page p n flags = do { page1 \<leftarrow> pin n ?d; Some (0, Some b, loaded b n flags page1 p1) }"
  proof (cases "file_read (backing p1) (ps * unat n) ps = []")
    case True
    then have "?d = replicate ps 0" using file_read_page [OF dv] dv(2) by fastforce
    then show ?thesis
      using True bp pgin_res [unfolded exp] upd [unfolded exp]
      by (simp add: load_new_page_def a psz Let_def mem_write_def [of _ _ "[]"] mem_put_def exp)
  next
    case False
    then have rd: "file_read (backing p1) (ps * unat n) ps = ?d" using file_read_page [OF dv] by blast
    have ne: "?d \<noteq> []" using dv(2) by (simp add: file_page_def)
    show ?thesis
      using pgin_res [unfolded exp] upd [unfolded exp]
      by (simp add: load_new_page_def a psz Let_def exp rd ne bp)
  qed
  then show ?thesis using r1 by (simp add: disk_page_ready)
qed

lemma load_new_page_ok:
  assumes r: "ready p" and n: "cached p n = None" and l: "load_new_page p n flags = Some (st, mem, p')"
  obtains b where "st = 0" "mem = Some b" "ready p'" "pool_view nrm p' = pool_view nrm p" "holds p' b n"
    "keeps_others b p p'" "dirty p' b \<longleftrightarrow> bit flags 1 \<or> bit flags 2"
proof -
  obtain b p1 where a: "alloc_bkt p = Some (b, p1)"
    using l by (auto simp: load_new_page_def split: bind_splits)
  have r1: "ready p1" and v1: "pool_view nrm p1 = pool_view nrm p" and sh: "shrinks p p1"
    and hand: "in_hand ps p1 b"
    using alloc_bkt_ok [OF r a] by auto
  have n1: "cached p1 n = None" by (rule shrinks_uncached [OF sh n])
  obtain bp where bp: "bkts p1 b = Some bp" "bit (b_flags bp) 8" "\<not> bit (b_flags bp) 1"
    and off: "b \<notin> set (lqh p1)"
    using hand by (auto simp: in_hand_def)
  obtain q where q: "disk_page p1 n = Some q" "st = 0" "mem = Some b" "p' = loaded b n flags q p1"
    using l load_new_page_eq [OF a r1 hand, of n flags] by (auto split: bind_splits)
  let ?f = "load_bkt (self p1) n flags q"
  have g: "good q"
    using q(1) r1 by (intro pin_good [of n]) (auto simp: disk_page_ready ready_def)
  have r2: "ready (upd_bkt b ?f p1)" and v2: "pool_view nrm (upd_bkt b ?f p1) = pool_view nrm p1"
    using ready_upd_off [OF r1 off] by auto
  have n2: "cached (upd_bkt b ?f p1) n = None"
    using n1 off by (auto simp: cached_None bkt_pgno_upd)
  have ins: "ready p' \<and> pool_view nrm p' = (pool_view nrm (upd_bkt b ?f p1))(n \<mapsto> nrm q)"
    unfolding q(4) loaded_def
    using insert_ok [OF r2, of b "?f bp" n] off bp g n2 by (simp add: bkts_upd_bkt load_bkt_def good_length)
  have "pool_view nrm p1 n = Some (nrm q)"
    using n1 q(1) by (simp add: pool_view_def)
  then have "pool_view nrm p' = pool_view nrm p"
    using ins v1 v2 by (simp add: fun_upd_idem)
  moreover have "holds p' b n"
    using bp by (simp add: holds_def q(4) loaded_def pinned_def bkt_flags_def bkts_upd_bkt load_bkt_def)
  moreover have "keeps_others b p p'"
    using sh by (auto simp: keeps_others_def shrinks_def keeps_def q(4) loaded_def bkts_upd_bkt)
  moreover have "dirty p' b \<longleftrightarrow> bit flags 1 \<or> bit flags 2"
    using bp by (simp add: dirty_def q(4) loaded_def bkt_flags_def bkts_upd_bkt load_bkt_def)
  ultimately show thesis using that q ins by blast
qed

lemma load_new_page_total:
  assumes r: "ready p" and n: "cached p n = None" and v: "pool_view nrm p n \<noteq> None"
    and room: "lqh p \<noteq> [] \<or> curcache p \<le> maxcache p"
  shows "load_new_page p n flags \<noteq> None"
proof -
  obtain b p1 where a: "alloc_bkt p = Some (b, p1)" using alloc_bkt_total [OF r room] by auto
  have A: "ready p1" "pool_view nrm p1 = pool_view nrm p" "shrinks p p1" "in_hand ps p1 b"
    using alloc_bkt_ok [OF r a] by auto
  have "disk_page p1 n \<noteq> None"
    using v shrinks_uncached [OF A(3) n] by (auto simp: pool_view_def simp flip: A(2))
  then show ?thesis
    using load_new_page_eq [OF a A(1,4)] by auto
qed

end

lemma find_unique: "b \<in> set l \<Longrightarrow> P b \<Longrightarrow> (\<And>c. c \<in> set l \<Longrightarrow> P c \<Longrightarrow> c = b) \<Longrightarrow> find P l = Some b"
proof (induction l)
  case (Cons a l)
  show ?case
  proof (cases "P a")
    case True
    then show ?thesis using Cons.prems(3) [of a] by simp
  next
    case False
    then have "b \<in> set l" using Cons.prems(1,2) by auto
    moreover have "c = b" if "c \<in> set l" "P c" for c
      by (rule Cons.prems(3)) (use that in simp_all)
    ultimately have "find P l = Some b" by (intro Cons.IH Cons.prems(2))
    then show ?thesis using False by simp
  qed
qed simp

lemma upd_bkt_same:
  "(\<And>bp. bkts p b = Some bp \<Longrightarrow> b_pgno (f bp) = b_pgno bp) \<Longrightarrow> bkt_pgno (upd_bkt b f p) = bkt_pgno p"
  "(\<And>bp. bkts p b = Some bp \<Longrightarrow> b_page (f bp) = b_page bp) \<Longrightarrow> bkt_page (upd_bkt b f p) = bkt_page p"
  by (rule ext, auto simp: bkt_pgno_def bkt_page_def bkts_upd_bkt split: option.split)+

context page_io
begin

text \<open>A step that keeps the cached pages and the disk, and pins bucket \<open>b\<close>.\<close>

lemma repin_ok:
  assumes r: "ready p" and S': "pool_struct q" and b: "b \<in> set (lqh p)"
    and l: "set (lqh q) = set (lqh p)" and pg: "bkt_pgno q = bkt_pgno p" and page: "bkt_page q = bkt_page p"
    and dk: "disk_page q = disk_page p"
    and oth: "\<And>c. c \<noteq> b \<Longrightarrow> bkts q c = bkts p c" and pin: "pinned q b"
    and same: "pgin q = pgin p" "pgout q = pgout p" "page_size q = page_size p" "backing q = backing p"
      "umem q = umem p"
  shows "ready q \<and> pool_view nrm q = pool_view nrm p"
proof -
  have "bkt_ok good nrm q c" if "c \<in> set (lqh p)" for c
  proof (cases "c = b")
    case True
    then show ?thesis using ready_bkt_ok [OF r b] pin by (simp add: bkt_ok_def page same)
  next
    case False
    then show ?thesis
      using ready_bkt_ok [OF r that] oth [OF False]
      by (simp add: bkt_ok_def page same dk pg pinned_def dirty_def bkt_flags_def)
  qed
  then have "ready q" using r S' l by (auto simp: ready_def pool_inv_def same)
  moreover have "pool_view nrm q m = pool_view nrm p m" for m
  proof -
    have "cached q m = Some c \<longleftrightarrow> cached p m = Some c" for c
      by (simp add: cached_Some [OF S'] cached_Some [OF ready_struct [OF r]] l pg)
    then have "cached q m = cached p m" by (metis not_None_eq)
    then show ?thesis by (cases "cached p m") (simp_all add: pool_view_def dk page)
  qed
  ultimately show ?thesis by auto
qed

lemma grab_ok:
  assumes r: "ready p" and b: "b \<in> set (lqh p)" "bkt_pgno p b = n"
    and g: "grab_page p b n flags = Got st pg mem p'"
  shows "st = 0" "pg = n" "mem = Some b" "ready p'" "pool_view nrm p' = pool_view nrm p" "holds p' b n"
    "keeps_others b p p'" "dirty p' b \<longleftrightarrow> dirty p b \<or> bit flags 1 \<or> bit flags 2"
proof -
  obtain bp where bp: "bkts p b = Some bp"
    using ready_struct [OF r] b by (auto simp: pool_struct_def)
  have n: "b_pgno bp = n" using bp b by (simp add: bkt_pgno_def)
  define f where "f = (\<lambda>bp :: bkt. bp\<lparr>b_ref := b_ref bp + 1, b_owner := Some (self p),
      b_flags := mark_flags flags (FLAG_SET (b_flags bp) FFDB_PAGE_PINNED)\<rparr>)"
  let ?p1 = "upd_bkt b f p"
  let ?p2 = "lq_remove b (hq_remove n b ?p1)"
  have S1: "pool_struct ?p1"
    by (rule struct_upd_same [OF ready_struct [OF r]]) (simp add: f_def)
  have pg1: "bkt_pgno ?p1 = bkt_pgno p"
    by (rule upd_bkt_same) (simp add: f_def)
  have S2: "pool_struct ?p2" using struct_remove [OF S1, of b] b pg1 by simp
  have d: "distinct (lqh p)" "inj_on (bkt_pgno p) (set (lqh p))"
    using ready_struct [OF r] by (simp_all add: pool_struct_def distinct_map)
  have p': "p' = lq_insert_tail b (hq_insert_head n b ?p2)" and res: "st = 0" "pg = n" "mem = Some b"
    using g by (auto simp: grab_page_def Let_def f_def)
  have S': "pool_struct p'"
    unfolding p' using struct_insert [OF S2, of b] d b bp pg1 by (auto simp: bkts_upd_bkt dest: inj_onD)
  have fl: "pinned p' b" "dirty p' b \<longleftrightarrow> dirty p b \<or> bit flags 1 \<or> bit flags 2"
    using bp by (simp_all add: p' pinned_def dirty_def bkt_flags_def bkts_upd_bkt f_def)
  have "ready p' \<and> pool_view nrm p' = pool_view nrm p"
  proof (rule repin_ok [OF r S' b(1) _ _ _ _ _ fl(1)])
    show "set (lqh p') = set (lqh p)" using d b by (auto simp: p')
    show "bkt_pgno p' = bkt_pgno p" using pg1 by (simp add: p')
    have "bkt_page ?p1 = bkt_page p" by (rule upd_bkt_same) (simp add: f_def)
    then show "bkt_page p' = bkt_page p" by (simp add: p' bkt_page_def fun_eq_iff)
  qed (auto simp: p' bkts_upd_bkt)
  moreover have "holds p' b n"
    using fl bp n by (auto simp: holds_def p' bkts_upd_bkt f_def)
  moreover have "keeps_others b p p'"
    using d by (auto simp: keeps_others_def p' bkts_upd_bkt)
  ultimately show "st = 0" "pg = n" "mem = Some b" "ready p'" "pool_view nrm p' = pool_view nrm p"
    "holds p' b n" "keeps_others b p p'" "dirty p' b \<longleftrightarrow> dirty p b \<or> bit flags 1 \<or> bit flags 2"
    using res fl by auto
qed

lemma find_page_cached:
  assumes r: "ready p"
  shows "find_page p n (hqh p (HASHKEY n)) = Some (cached p n)"
proof -
  have gen: "find_page p n l = Some (find (\<lambda>b. bkt_pgno p b = n) l)" if "\<forall>b\<in>set l. bkts p b \<noteq> None" for l
    using that by (induction l) (auto simp: bkt_pgno_def)
  note S = ready_struct [OF r]
  have live: "\<forall>b\<in>set (hqh p (HASHKEY n)). bkts p b \<noteq> None"
    using S by (auto simp: pool_struct_def)
  have "find (\<lambda>b. bkt_pgno p b = n) (hqh p (HASHKEY n)) = cached p n"
  proof (cases "cached p n")
    case None
    then have "find (\<lambda>b. bkt_pgno p b = n) (hqh p (HASHKEY n)) = None"
      using S by (auto simp: pool_struct_def cached_None find_None_iff)
    then show ?thesis using None by simp
  next
    case (Some b)
    then have b: "b \<in> set (lqh p)" "bkt_pgno p b = n" using cached_Some [OF S] by auto
    then have "b \<in> set (hqh p (HASHKEY n))" using S by (auto simp: pool_struct_def)
    moreover have "c = b" if "c \<in> set (hqh p (HASHKEY n))" "bkt_pgno p c = n" for c
      using that b S by (auto simp: pool_struct_def distinct_map dest: inj_onD)
    ultimately have "find (\<lambda>b. bkt_pgno p b = n) (hqh p (HASHKEY n)) = Some b"
      using find_unique [of b "hqh p (HASHKEY n)" "\<lambda>b. bkt_pgno p b = n"] b(2) by blast
    then show ?thesis using Some by simp
  qed
  then show ?thesis using gen [OF live] by simp
qed

lemma get_ok:
  assumes r: "ready p" and flags: "\<not> FLAG_ISSET flags FFDB_PAGE_NEW"
      "\<not> (FLAG_ISSET flags FFDB_PAGE_CREATE \<and> n \<ge> npages p)"
      "\<not> (FLAG_ISSET flags FFDB_PAGE_DIRTY \<and> FLAG_ISSET (fileflags p) FFDB_RDONLY)"
    and g: "pagepool_get_page p n flags = Some (Got st pg mem p')"
  obtains b where "st = 0" "pg = n" "mem = Some b" "ready p'" "pool_view nrm p' = pool_view nrm p"
    "holds p' b n" "keeps_others b p p'" "bit flags 1 \<or> bit flags 2 \<Longrightarrow> dirty p' b"
proof (cases "cached p n")
  case None
  then have "do { (ret, mem, pgp1) \<leftarrow> load_new_page p n flags; Some (Got ret n mem pgp1) } = Some (Got st pg mem p')"
    using g flags find_page_cached [OF r, of n] by (auto simp: pagepool_get_page_def)
  then have l: "load_new_page p n flags = Some (st, mem, p')" "pg = n"
    by (auto split: bind_splits)
  show thesis
    by (rule load_new_page_ok [OF r None l(1)]) (use that l(2) in auto)
next
  case (Some b)
  then have b: "b \<in> set (lqh p)" "bkt_pgno p b = n"
    using cached_Some [OF ready_struct [OF r]] by auto
  then obtain bp where bp: "bkts p b = Some bp"
    using ready_struct [OF r] by (auto simp: pool_struct_def)
  have "grab_page p b n flags = Got st pg mem p'"
    using g flags find_page_cached [OF r, of n] Some bp
    by (auto simp: pagepool_get_page_def simp del: flag_isset split: if_splits)
  note G = grab_ok [OF r b this]
  show thesis by (rule that [OF G(1-7)]) (use G(8) in auto)
qed

text \<open>The client's own step: writing to a page it has pinned.\<close>

lemma poke_ok:
  assumes r: "ready p" and h: "b \<in> set (lqh p)" "pinned p b" "bkt_pgno p b = n" and len: "length q = ps"
  shows "ready (upd_bkt b (b_page_update (\<lambda>_. q)) p) \<and>
    pool_view nrm (upd_bkt b (b_page_update (\<lambda>_. q)) p) = (pool_view nrm p)(n \<mapsto> nrm q)"
proof -
  let ?q = "upd_bkt b (b_page_update (\<lambda>_. q)) p"
  obtain bp where bp: "bkts p b = Some bp" using ready_struct [OF r] h by (auto simp: pool_struct_def)
  have S: "pool_struct ?q" by (rule struct_upd_same [OF ready_struct [OF r]]) simp
  have pg: "bkt_pgno ?q = bkt_pgno p" by (rule upd_bkt_same) simp
  have pin: "pinned ?q b" using h bp by (simp add: pinned_def bkt_flags_def bkts_upd_bkt)
  have oth: "bkts ?q c = bkts p c" if "c \<noteq> b" for c using that by (simp add: bkts_upd_bkt)
  have page: "bkt_page ?q b = q" using bp by (simp add: bkt_page_def bkts_upd_bkt)
  have "bkt_ok good nrm ?q c" if "c \<in> set (lqh p)" for c
  proof (cases "c = b")
    case True
    then show ?thesis using pin page len r by (simp add: bkt_ok_def ready_def)
  next
    case False
    then show ?thesis
      using ready_bkt_ok [OF r that] oth [OF False] pg
      by (simp add: bkt_ok_def pinned_def dirty_def bkt_flags_def bkt_page_def)
  qed
  then have "ready ?q" using r S by (auto simp: ready_def pool_inv_def)
  moreover have "pool_view nrm ?q m = ((pool_view nrm p)(n \<mapsto> nrm q)) m" for m
  proof (cases "cached p m")
    case None
    then have "m \<noteq> n" using h by (auto simp: cached_None)
    moreover have "cached ?q m = None" using None pg by (simp add: cached_None)
    ultimately show ?thesis using None by (simp add: pool_view_def)
  next
    case (Some c)
    then have c: "c \<in> set (lqh p)" "bkt_pgno p c = m" using cached_Some [OF ready_struct [OF r]] by auto
    have "cached ?q m = Some c" using c cached_Some [OF S] pg by simp
    moreover have "c = b \<longleftrightarrow> m = n"
      using c h ready_struct [OF r] by (auto simp: pool_struct_def distinct_map dest: inj_onD)
    ultimately show ?thesis
      using Some page oth [of c] by (cases "c = b") (simp_all add: pool_view_def bkt_page_def)
  qed
  ultimately show ?thesis by auto
qed

lemma put_ok:
  assumes r: "ready p" and h: "b \<in> set (lqh p)" "bkts p b = Some bp" "pinned p b"
    and w: "b_waiters bp > 0 \<Longrightarrow> b_wqh bp \<noteq> []"
    and g: "good (b_page bp)"
    and d: "dirty p b \<or> bit flags 1 \<or> map_option nrm (disk_page p (b_pgno bp)) = Some (nrm (b_page bp))"
  obtains p' where "pagepool_put_page p b flags = Some (0, p')" "ready p'"
    "pool_view nrm p' = pool_view nrm p" "keeps_others b p p'" "\<not> pinned p' b" "lqh p' = lqh p"
proof -
  have fl: "bit (b_flags bp) 8" using h by (simp add: pinned_def bkt_flags_def)
  obtain bp' where put: "pagepool_put_page p b flags = Some (0, upd_bkt b (\<lambda>_. bp') p)"
    and bp': "b_page bp' = b_page bp" "b_pgno bp' = b_pgno bp" "\<not> bit (b_flags bp') 8"
      "bit (b_flags bp') (Suc 0) \<longleftrightarrow> bit (b_flags bp) (Suc 0) \<or> bit flags (Suc 0)"
    using h fl w by (cases "b_waiters bp > 0") (auto simp: pagepool_put_page_def Let_def)
  let ?q = "upd_bkt b (\<lambda>_. bp') p"
  have q: "bkts ?q b = Some bp'" "\<And>c. c \<noteq> b \<Longrightarrow> bkts ?q c = bkts p c"
    using h by (simp_all add: bkts_upd_bkt)
  have pg: "bkt_pgno ?q = bkt_pgno p"
    by (rule upd_bkt_same) (use h bp' in simp)
  have page: "bkt_page ?q = bkt_page p"
    by (rule upd_bkt_same) (use h bp' in simp)
  have S: "pool_struct ?q"
    using ready_struct [OF r] h unfolding pool_struct_def pg by (auto simp: bkts_upd_bkt)
  have "bkt_ok good nrm ?q c" if "c \<in> set (lqh p)" for c
  proof (cases "c = b")
    case True
    have "dirty p b \<or> bit flags (Suc 0) \<longleftrightarrow> dirty ?q b"
      using h q bp' by (simp add: dirty_def bkt_flags_def)
    then show ?thesis
      using True ready_bkt_ok [OF r h(1)] g d h by (auto simp: bkt_ok_def page pg bkt_page_def bkt_pgno_def)
  next
    case False
    then show ?thesis
      using ready_bkt_ok [OF r that] q(2) [OF False]
      by (simp add: bkt_ok_def page pg pinned_def dirty_def bkt_flags_def)
  qed
  then have "ready ?q" using r S by (auto simp: ready_def pool_inv_def)
  moreover have "pool_view nrm ?q m = pool_view nrm p m" for m
  proof -
    have "cached ?q m = cached p m" by (simp add: cached_def pg)
    then show ?thesis by (cases "cached p m") (simp_all add: pool_view_def page)
  qed
  moreover have "\<not> pinned ?q b" using q bp' by (simp add: pinned_def bkt_flags_def)
  moreover have "keeps_others b p ?q" by (simp add: keeps_others_def q)
  ultimately show thesis using that [OF put] by auto
qed

end

end
