(* ===== verification/FFDB_PoolNative.thy ===== *)
theory FFDB_PoolNative
  imports FFDB_PoolView
begin

text \<open>
  The contract \<open>page_io\<close> discharged for the filters of the library on a file in the byte
  order of the machine, and what the page pool guarantees with them: reads are what was
  last written, whatever is evicted or flushed in between, and a successful flush brings
  every page nobody holds to the disk.
\<close>

definition page_good :: "hashhdr \<Rightarrow> mem \<Rightarrow> bool" where
  "page_good hdr p \<longleftrightarrow> length p = unat (h_bsize hdr) \<and> PAGE_SIGN p = FFDB_PAGE_MAGIC \<and> 28 \<le> length p"

text \<open>The content of a page without its checksum field.\<close>

definition page_content :: "mem \<Rightarrow> mem" where
  "page_content p = set_CHKSUM 0 p"

lemma length_init_page [simp]: "length (ffdb_init_page hdr p n t) = length p"
  by (simp add: ffdb_init_page_def Let_def page_fields)

lemma sign_init_page: "28 \<le> length p \<Longrightarrow> PAGE_SIGN (ffdb_init_page hdr p n t) = FFDB_PAGE_MAGIC"
  by (simp add: ffdb_init_page_def Let_def page_fields)

interpretation native: page_io "ffdb_pgin_routine hdr (h_lorder hdr)" "ffdb_pgout_routine hdr (h_lorder hdr)"
  "page_good hdr" page_content "unat (h_bsize hdr)" for hdr
proof
  fix p p' :: mem and n m :: pgno
  assume g: "page_good hdr p"
  then show "length p = unat (h_bsize hdr)" by (simp add: page_good_def)
  have out: "ffdb_pgout_routine hdr (h_lorder hdr) n p = set_CHKSUM (ffdb_page_checksum hdr p) p" for n
    by (simp add: ffdb_pgout_routine_def)
  show "page_good hdr (ffdb_pgout_routine hdr (h_lorder hdr) n p)"
    using g by (simp add: out page_good_def)
  show "page_content (ffdb_pgout_routine hdr (h_lorder hdr) n p) = page_content p"
    by (simp add: out page_content_def)
  have "ffdb_pgin_routine hdr (h_lorder hdr) m (ffdb_pgout_routine hdr (h_lorder hdr) n p)
      = Some (set_CHKSUM (ffdb_page_checksum hdr p) p)"
    using g by (simp add: out ffdb_pgin_routine_def page_good_def)
  then show "\<exists>p'. ffdb_pgin_routine hdr (h_lorder hdr) m (ffdb_pgout_routine hdr (h_lorder hdr) n p) = Some p' \<and>
      page_content p' = page_content p"
    by (simp add: page_content_def)
next
  fix p p' :: mem and n :: pgno
  assume "512 \<le> unat (h_bsize hdr)" "ffdb_pgin_routine hdr (h_lorder hdr) n p = Some p'"
    "length p = unat (h_bsize hdr)"
  then show "page_good hdr p'"
    by (auto simp: ffdb_pgin_routine_def page_good_def sign_init_page Let_def split: if_splits)
qed

text \<open>A pool over a file of pages in the byte order of the machine, with the library's filters.\<close>

definition native_pool :: "hashhdr \<Rightarrow> pagepool \<Rightarrow> bool" where
  "native_pool hdr p \<longleftrightarrow>
     pgin p = Some (ffdb_pgin_routine hdr (h_lorder hdr)) \<and>
     pgout p = Some (ffdb_pgout_routine hdr (h_lorder hdr)) \<and>
     page_size p = unat (h_bsize hdr) \<and> 512 \<le> unat (h_bsize hdr) \<and>
     pool_inv (page_good hdr) page_content p"

definition page_view :: "pagepool \<Rightarrow> pgno \<Rightarrow> mem option" where
  "page_view = pool_view page_content"

lemma native_ready: "native_pool hdr p \<longleftrightarrow> native.ready hdr p"
  by (auto simp: native_pool_def native.ready_def)

lemma holds_view:
  "pool_struct p \<Longrightarrow> holds p b n \<Longrightarrow> page_view p n = Some (page_content (bkt_page p b))"
  using cached_Some [of p n b] by (auto simp: holds_def page_view_def pool_view_def bkt_pgno_def)

text \<open>C12: \<open>ffdb_pagepool_get_page\<close> is transparent. Whatever it evicts or flushes to make
  room, a get that returns gives a page with the current content of the page number, pinned
  and owned by the caller; no other page number changes its content and no page that is
  pinned is moved or altered.\<close>
theorem get_page_transparent:
  assumes "native_pool hdr p" "\<not> FLAG_ISSET flags FFDB_PAGE_NEW"
    "\<not> (FLAG_ISSET flags FFDB_PAGE_CREATE \<and> n \<ge> npages p)"
    "\<not> (FLAG_ISSET flags FFDB_PAGE_DIRTY \<and> FLAG_ISSET (fileflags p) FFDB_RDONLY)"
    "pagepool_get_page p n flags = Some (Got st pg mem p')"
  shows "st = 0 \<and> pg = n \<and> (\<exists>b. mem = Some b \<and> holds p' b n \<and> keeps_others b p p' \<and>
      page_view p n = Some (page_content (bkt_page p' b))) \<and>
    native_pool hdr p' \<and> page_view p' = page_view p"
proof -
  obtain b where g: "st = 0" "pg = n" "mem = Some b" "native.ready hdr p'"
    "pool_view page_content p' = pool_view page_content p" "holds p' b n" "keeps_others b p p'"
    using native.get_ok [OF _ assms(2-5)] assms(1) by (metis native_ready)
  then show ?thesis
    using holds_view [of p' b n] native.ready_struct [OF g(4)] by (auto simp: native_ready page_view_def)
qed



text \<open>C16: \<open>ffdb_pagepool_put_page\<close> returns for a page the caller has pinned, and keeps the
  content of every page: of a page that was changed under the dirty flag too, which from
  then on is in the cache or on the disk.\<close>
theorem put_page_keeps:
  assumes "native_pool hdr p" "holds p b n" "bkts p b = Some bp"
    "b_waiters bp > 0 \<Longrightarrow> b_wqh bp \<noteq> []" "page_good hdr (b_page bp)"
    "dirty p b \<or> FLAG_ISSET flags FFDB_PAGE_DIRTY \<or>
       map_option page_content (disk_page p n) = Some (page_content (b_page bp))"
  shows "\<exists>p'. pagepool_put_page p b flags = Some (0, p') \<and> native_pool hdr p' \<and>
    page_view p' = page_view p \<and> keeps_others b p p' \<and> \<not> pinned p' b \<and> lqh p' = lqh p"
proof -
  have r: "native.ready hdr p" using assms(1) by (simp add: native_ready)
  have h: "b \<in> set (lqh p)" "pinned p b" "b_pgno bp = n" using assms(2,3) by (auto simp: holds_def)
  show ?thesis
    by (rule native.put_ok [OF r h(1) assms(3) h(2) assms(4) assms(5), of flags])
       (use assms(6) h(3) in \<open>auto simp: native_ready page_view_def\<close>)
qed

text \<open>C13: Durability. After a successful \<open>ffdb_pagepool_sync\<close>, every page that nobody has
  pinned or waits for is on the disk: reading the file gives what the cache held. The call
  never aborts, and with or without success it changes no page's content.\<close>
theorem sync_durable:
  assumes "native_pool hdr p"
  shows "\<exists>ret p'. pagepool_sync p = Some (ret, p') \<and> native_pool hdr p' \<and> page_view p' = page_view p \<and>
    (ret = 0 \<longrightarrow> (\<forall>n. (\<forall>b bp. cached p n = Some b \<and> bkts p b = Some bp \<longrightarrow> \<not> pinned p b \<and> b_waiters bp = 0) \<longrightarrow>
       map_option page_content (disk_page p' n) = page_view p n))"
proof -
  have r: "native.ready hdr p" using assms by (simp add: native_ready)
  obtain ret p' where s: "pagepool_sync_i p 0 = Some (ret, p')" "native.ready hdr p'"
    "pool_view page_content p' = pool_view page_content p" "flushed p p'"
    "\<And>b bp. ret = 0 \<Longrightarrow> (0::u32) = 0 \<Longrightarrow> b \<in> set (lqh p) \<Longrightarrow> bkts p b = Some bp \<Longrightarrow> flushable bp \<Longrightarrow> \<not> dirty p' b"
    by (rule native.sync_i_ok [OF r, of 0]) blast
  have "map_option page_content (disk_page p' n) = page_view p n"
    if ret: "ret = 0" and free: "\<forall>b bp. cached p n = Some b \<and> bkts p b = Some bp \<longrightarrow> \<not> pinned p b \<and> b_waiters bp = 0" for n
  proof (cases "cached p n")
    case None
    then show ?thesis
      using flushed_cached [OF s(4), of n] fun_cong [OF s(3), of n] by (simp add: pool_view_def page_view_def)
  next
    case (Some b)
    then have b: "b \<in> set (lqh p)" "bkt_pgno p b = n"
      using cached_Some [OF native.ready_struct [OF r]] by auto
    then obtain bp where bp: "bkts p b = Some bp"
      using native.ready_struct [OF r] by (auto simp: pool_struct_def)
    have unp: "\<not> pinned p b" and w: "b_waiters bp = 0" using free Some bp by auto
    have "\<not> dirty p' b"
    proof (cases "dirty p b")
      case True
      then have "flushable bp" using unp w bp by (simp add: flushable_def dirty_def pinned_def bkt_flags_def)
      then show ?thesis using s(5) ret b bp by simp
    next
      case False
      then show ?thesis using flushed_bkts(4) [OF s(4)] by blast
    qed
    moreover have "b \<in> set (lqh p')" "\<not> pinned p' b" "bkt_pgno p' b = n" "cached p' n = Some b"
      using b unp Some flushed_fields [OF s(4)] flushed_bkts [OF s(4)] flushed_cached [OF s(4)] by auto
    ultimately have "map_option page_content (disk_page p' n) = pool_view page_content p' n"
      using native.ready_bkt_ok [OF s(2), of b] by (auto simp: bkt_ok_def pool_view_def)
    then show ?thesis using s(3) by (simp add: page_view_def)
  qed
  then show ?thesis
    using s by (auto simp: pagepool_sync_def native_ready page_view_def)
qed

section \<open>Sessions\<close>

lemma put_page_bkt:
  assumes "pagepool_put_page p b flags = Some (r, p')"
  shows "\<exists>bp bp'. bkts p b = Some bp \<and> bkts p' b = Some bp' \<and> b_waiters bp' = b_waiters bp \<and>
    b_pgno bp' = b_pgno bp \<and> \<not> bit (b_flags bp') 8"
proof -
  obtain bp where bp: "bkts p b = Some bp" using assms by (auto simp: pagepool_put_page_def split: bind_splits)
  then show ?thesis
    using assms by (auto simp: pagepool_put_page_def bkts_upd_bkt Let_def split: bind_splits if_splits)
qed

lemma native_holdsD:
  assumes "native.ready hdr p" "holds p b n"
  shows "b \<in> set (lqh p)" "pinned p b" "bkt_pgno p b = n" "cached p n = Some b"
  using assms cached_Some [OF native.ready_struct [OF assms(1)], of n b]
  by (auto simp: holds_def bkt_pgno_def)

text \<open>C10: A whole update: get a page for writing, fill it with a good page, put it back and
  flush the pool. If the flush succeeds, the file has the new content at the page's place;
  every other page keeps its content, in the cache or in the file.\<close>
theorem update_reaches_disk:
  assumes "native_pool hdr p" "\<not> FLAG_ISSET (fileflags p) FFDB_RDONLY"
    "pagepool_get_page p n FFDB_PAGE_DIRTY = Some (Got st pg (Some b) p1)"
    "b_waiters (the (bkts p1 b)) = 0" "page_good hdr q"
    "pagepool_put_page (upd_bkt b (b_page_update (\<lambda>_. q)) p1) b 0 = Some (r, p2)"
    "pagepool_sync p2 = Some (0, p3)"
  shows "map_option page_content (disk_page p3 n) = Some (page_content q) \<and>
    page_view p3 = (page_view p)(n \<mapsto> page_content q) \<and> native_pool hdr p3"
proof -
  have r: "native.ready hdr p" using assms(1) by (simp add: native_ready)
  have fl: "\<not> FLAG_ISSET FFDB_PAGE_DIRTY FFDB_PAGE_NEW"
    "\<not> (FLAG_ISSET FFDB_PAGE_DIRTY FFDB_PAGE_CREATE \<and> n \<ge> npages p)"
    "\<not> (FLAG_ISSET FFDB_PAGE_DIRTY FFDB_PAGE_DIRTY \<and> FLAG_ISSET (fileflags p) FFDB_RDONLY)"
    "bit FFDB_PAGE_DIRTY 1"
    using assms(2) by (simp_all add: FLAG_ISSET_def ffdb_consts)
  have g: "native.ready hdr p1" "pool_view page_content p1 = pool_view page_content p" "holds p1 b n" "dirty p1 b"
    using native.get_ok [OF r fl(1-3) assms(3)] fl(4) by (metis option.inject)+
  note h = native_holdsD [OF g(1,3)]
  let ?u = "upd_bkt b (b_page_update (\<lambda>_. q)) p1"
  have len: "length q = unat (h_bsize hdr)" using assms(5) by (simp add: page_good_def)
  have u: "native.ready hdr ?u" "pool_view page_content ?u = (pool_view page_content p)(n \<mapsto> page_content q)"
    using native.poke_ok [OF g(1) h(1,2,3) len] g(2) by auto
  obtain bp where bp: "bkts p1 b = Some bp" using g(3) by (auto simp: holds_def)
  let ?bp = "bp\<lparr>b_page := q\<rparr>"
  have ub: "bkts ?u b = Some ?bp" "b \<in> set (lqh ?u)" "pinned ?u b" "dirty ?u b"
    using bp h g(4) by (simp_all add: bkts_upd_bkt pinned_def dirty_def bkt_flags_def)
  obtain p2' where put: "pagepool_put_page ?u b 0 = Some (0, p2')" "native.ready hdr p2'"
    "pool_view page_content p2' = pool_view page_content ?u" "\<not> pinned p2' b" "lqh p2' = lqh ?u"
    by (rule native.put_ok [OF u(1) ub(2,1,3), of 0]) (use assms(4,5) bp ub in auto)
  have p2: "p2' = p2" using put(1) assms(6) by simp
  have w2: "b_waiters bp' = 0" if "bkts p2 b = Some bp'" for bp'
    using put_page_bkt [OF put(1)] that p2 ub(1) assms(4) bp by auto
  obtain p3' ret where s: "pagepool_sync_i p2 0 = Some (ret, p3')" "native.ready hdr p3'"
    "pool_view page_content p3' = pool_view page_content p2" "flushed p2 p3'"
    "\<And>b bp. ret = 0 \<Longrightarrow> (0::u32) = 0 \<Longrightarrow> b \<in> set (lqh p2) \<Longrightarrow> bkts p2 b = Some bp \<Longrightarrow> flushable bp \<Longrightarrow> \<not> dirty p3' b"
    by (rule native.sync_i_ok [of hdr p2 0]) (use put(2) p2 in auto)
  have p3: "p3' = p3" "ret = 0" using s(1) assms(7) by (simp_all add: pagepool_sync_def)
  have l2: "b \<in> set (lqh p2)" "\<not> pinned p2 b" using put p2 h by auto
  then obtain bp2 where bp2: "bkts p2 b = Some bp2"
    using native.ready_struct [of hdr p2] put(2) p2 by (auto simp: pool_struct_def)
  have "\<not> dirty p3 b"
  proof (cases "dirty p2 b")
    case True
    then have "flushable bp2"
      using l2 bp2 w2 [OF bp2] by (simp add: flushable_def pinned_def dirty_def bkt_flags_def)
    then show ?thesis using s(5) p3 l2 bp2 by simp
  qed (use flushed_bkts(4) [OF s(4)] p3 in blast)
  moreover have c3: "b \<in> set (lqh p3)" "\<not> pinned p3 b" "bkt_pgno p3 b = n"
  proof -
    have "bkt_pgno p2 b = n"
      using put_page_bkt [OF put(1)] p2 ub(1) h(3) bp by (auto simp: bkt_pgno_def)
    then show "b \<in> set (lqh p3)" "\<not> pinned p3 b" "bkt_pgno p3 b = n"
      using l2 flushed_fields [OF s(4)] flushed_bkts [OF s(4)] p3 by auto
  qed
  moreover have v: "pool_view page_content p3 = (pool_view page_content p)(n \<mapsto> page_content q)"
    using s(3) p3 put(3) p2 u(2) by simp
  moreover have "pool_view page_content p3 n = Some (page_content (bkt_page p3 b))"
    using cached_Some [OF native.ready_struct [OF s(2)], of n b] c3 p3 by (simp add: pool_view_def)
  moreover have "bkt_ok (page_good hdr) page_content p3 b"
    using native.ready_bkt_ok [OF s(2)] c3(1) p3 by simp
  ultimately have "map_option page_content (disk_page p3 n) = Some (page_content q)"
    by (simp add: bkt_ok_def)
  then show ?thesis using v s(2) p3 by (simp add: page_view_def native_ready)
qed

text \<open>C23: The reference count of a page is not a nesting count: when one thread gets the
  same page twice, the first put unpins it, and the second put aborts the program.\<close>
theorem nested_gets_abort:
  assumes "native_pool hdr p"
    "\<not> FLAG_ISSET flags FFDB_PAGE_NEW" "\<not> FLAG_ISSET flags FFDB_PAGE_CREATE" "\<not> FLAG_ISSET flags FFDB_PAGE_DIRTY"
    "pagepool_get_page p n flags = Some (Got st pg (Some b) p1)"
    "pagepool_get_page p1 n flags = Some (Got st' pg' (Some b') p2)"
    "pagepool_put_page p2 b 0 = Some (r, p3)"
  shows "b' = b \<and> pagepool_put_page p3 b' 0 = None"
proof -
  have r: "native.ready hdr p" using assms(1) by (simp add: native_ready)
  have g: "native.ready hdr p1" "holds p1 b n"
    using native.get_ok [OF r assms(2) _ _ assms(5)] assms(3,4) by (metis option.inject)+
  note h = native_holdsD [OF g]
  obtain bp where bp: "bkts p1 b = Some bp" "b_owner bp = Some (self p1)" using g(2) by (auto simp: holds_def)
  have "Some (grab_page p1 b n flags) = Some (Got st' pg' (Some b') p2)"
    using assms(6) assms(2-4) native.find_page_cached [OF g(1), of n] h bp
    by (auto simp: pagepool_get_page_def simp del: flag_isset)
  then have b': "b' = b" by (simp add: grab_page_def Let_def)
  show ?thesis
    using put_page_bkt [OF assms(7)] b' by (auto simp: pagepool_put_page_def)
qed

section \<open>The order of a flush\<close>

lemma sint_diff_le:
  fixes a b :: u32
  assumes "unat a < 2 ^ 31" "unat b < 2 ^ 31"
  shows "sint (a - b) \<le> 0 \<longleftrightarrow> unat a \<le> unat b"
proof -
  have "a - b = word_of_int (int (unat a) - int (unat b))"
    by simp
  moreover have "\<bar>int (unat a) - int (unat b)\<bar> < 2 ^ 31"
  proof -
    have "unat a < 2147483648" "unat b < 2147483648" using assms by simp_all
    then have "\<bar>int (unat a) - int (unat b)\<bar> < 2147483648" by linarith
    then show ?thesis by (simp only: power_numeral Num.pow.simps Num.sqr.simps) simp
  qed
  ultimately have "sint (a - b) = int (unat a) - int (unat b)"
    by (simp only: sint_word_of_int_small)
  then show ?thesis by linarith
qed

interpretation page_order: key_comparison "ffdb_sbkt_cmp p" "\<lambda>b. unat (bkt_pgno p b)"
  "{b. unat (bkt_pgno p b) < 2 ^ 31}" for p
  by unfold_locales (simp add: ffdb_sbkt_cmp_def sint_diff_le)

text \<open>The bottom-up merge sort orders the pages to be flushed by page number and loses
  none, for page numbers below \<open>2 ^ 31\<close>, where their difference fits an \<open>int\<close>.\<close>
theorem flush_order_sorted:
  assumes "\<forall>b\<in>set l. unat (bkt_pgno p b) < 2 ^ 31"
  shows "sorted (map (\<lambda>b. unat (bkt_pgno p b)) (ffdb_slist_merge_sort (ffdb_sbkt_cmp p) l)) \<and>
    mset (ffdb_slist_merge_sort (ffdb_sbkt_cmp p) l) = mset l"
  by (rule page_order.merge_sort_sorts) (use assms in auto)

section \<open>Witnesses\<close>

text \<open>An empty file of 512-byte pages, opened with room for four pages in the cache.\<close>

definition wit_os :: os_open where
  "wit_os = \<lparr>os_fd = 3, os_errno = 0, os_regular = True, os_rdonly = False,
     os_file = \<lparr>f_data = [], f_room = 100000, f_writable = True\<rparr>\<rparr>"

definition wit_hdr512 :: hashhdr where
  "wit_hdr512 = (wit_hdr LITTLE_ENDIAN)\<lparr>h_bsize := 512\<rparr>"

definition wit_pool :: pagepool where
  "wit_pool = pagepool_filter (snd (pagepool_open (pagepool_create 1 (\<lambda>_. replicate 512 0)) wit_os FFDB_CREATE 512 4))
     (ffdb_pgin_routine wit_hdr512 LITTLE_ENDIAN) (ffdb_pgout_routine wit_hdr512 LITTLE_ENDIAN)"

lemma wit_pool_fields: "lqh wit_pool = []" "bkts wit_pool = (\<lambda>_. None)" "hqh wit_pool = (\<lambda>_. [])"
  "curcache wit_pool = 0" "maxcache wit_pool = 4" "pagesize wit_pool = 512" "npages wit_pool = 0"
  "fileflags wit_pool = FFDB_CREATE" "self wit_pool = 1" "next_bkt wit_pool = 0"
  "backing wit_pool = \<lparr>f_data = [], f_room = 100000, f_writable = True\<rparr>" "umem wit_pool = (\<lambda>_. replicate 512 0)"
  "pgin wit_pool = Some (ffdb_pgin_routine wit_hdr512 LITTLE_ENDIAN)"
  "pgout wit_pool = Some (ffdb_pgout_routine wit_hdr512 LITTLE_ENDIAN)"
  by (simp_all add: wit_pool_def pagepool_filter_def pagepool_open_def pagepool_create_def wit_os_def
      FLAG_ISSET_def ffdb_consts IS_VALID_PAGESIZE_def FFDB_POWER_OF_TWO_def attach_file_def)

lemma wit_hdr_fields: "h_lorder wit_hdr512 = LITTLE_ENDIAN" "h_bsize wit_hdr512 = 512"
  by (simp_all add: wit_hdr512_def wit_hdr_def)

lemma wit_native: "native_pool wit_hdr512 wit_pool"
  by (simp add: native_pool_def wit_pool_fields wit_hdr_fields page_size_def pool_inv_def pool_struct_def)

lemma wit_page_readable: "disk_page wit_pool n = Some (ffdb_init_page wit_hdr512 (replicate 512 0) n HASH_DELETED_PAGE)"
proof -
  have z: "file_page [] 512 (unat n) = replicate 512 0"
    by (rule nth_equalityI) (simp_all add: file_page_def byte_at_def)
  have "rd32 (replicate 512 0) 12 = 0"
    by (simp add: rd32_def mem_get_def numeral_eq_Suc)
  then have "PAGE_SIGN (replicate 512 0) \<noteq> FFDB_PAGE_MAGIC"
    by (simp add: PAGE_SIGN_def ffdb_consts)
  then show ?thesis
    by (simp add: disk_page_def wit_pool_fields page_size_def z ffdb_pgin_routine_def wit_hdr_fields Let_def)
qed

lemma wit_load: "\<exists>st mem p'. load_new_page wit_pool n flags = Some (st, mem, p')"
proof -
  have r: "native.ready wit_hdr512 wit_pool" using wit_native by (simp add: native_ready)
  have "load_new_page wit_pool n flags \<noteq> None"
    by (rule native.load_new_page_total [OF r])
       (simp_all add: wit_pool_fields cached_def pool_view_def wit_page_readable)
  then show ?thesis by auto
qed

lemma wit_flags: "\<not> FLAG_ISSET 0 x" "\<not> FLAG_ISSET FFDB_PAGE_DIRTY FFDB_PAGE_NEW"
  "\<not> FLAG_ISSET FFDB_PAGE_DIRTY FFDB_PAGE_CREATE" "\<not> FLAG_ISSET FFDB_CREATE FFDB_RDONLY"
  by (simp_all add: FLAG_ISSET_def ffdb_consts)

lemma wit_get:
  assumes "flags = 0 \<or> flags = FFDB_PAGE_DIRTY"
  shows "\<exists>st mem p'. pagepool_get_page wit_pool n flags = Some (Got st n mem p')"
proof -
  obtain st mem p' where "load_new_page wit_pool n flags = Some (st, mem, p')" using wit_load by blast
  then have "pagepool_get_page wit_pool n flags = Some (Got st n mem p')"
    using assms wit_flags by (auto simp: pagepool_get_page_def wit_pool_fields simp del: flag_isset)
  then show ?thesis by blast
qed

theorem get_page_transparent_witness:
  "\<exists>b p'. pagepool_get_page wit_pool 3 0 = Some (Got 0 3 (Some b) p') \<and> page_view p' = page_view wit_pool \<and>
     holds p' b 3"
proof -
  obtain st mem p' where g: "pagepool_get_page wit_pool 3 0 = Some (Got st 3 mem p')" using wit_get by blast
  show ?thesis
    using get_page_transparent [OF wit_native _ _ _ g] g by (auto simp: wit_flags simp del: flag_isset)
qed

theorem sync_durable_witness: "\<exists>ret p'. pagepool_sync wit_pool = Some (ret, p') \<and> page_view p' = page_view wit_pool"
  using sync_durable [OF wit_native] by blast

theorem flush_order_sorted_witness:
  "sorted (map (\<lambda>b. unat (bkt_pgno wit_pool b)) (ffdb_slist_merge_sort (ffdb_sbkt_cmp wit_pool) [2, 0, 1]))"
  by (rule conjunct1 [OF flush_order_sorted]) (simp add: bkt_pgno_def wit_pool_fields)

text \<open>The witness pool after a get of page 3.\<close>

definition wit_init :: mem where
  "wit_init = ffdb_init_page wit_hdr512 (replicate 512 0) 3 HASH_DELETED_PAGE"

definition wit_got :: "u32 \<Rightarrow> pagepool" where
  "wit_got flags = loaded 0 3 flags wit_init (snd (new_bkt wit_pool))"

lemma wit_init_good: "page_good wit_hdr512 wit_init"
  by (simp add: page_good_def wit_init_def sign_init_page wit_hdr_fields)

lemma wit_got_eq:
  assumes "flags = 0 \<or> flags = FFDB_PAGE_DIRTY"
  shows "pagepool_get_page wit_pool 3 flags = Some (Got 0 3 (Some 0) (wit_got flags))"
proof -
  have r: "native.ready wit_hdr512 wit_pool" using wit_native by (simp add: native_ready)
  obtain b p1 where n: "new_bkt wit_pool = (b, p1)" by fastforce
  then have b: "b = 0" by (auto simp: new_bkt_def Let_def wit_pool_fields)
  have a: "alloc_bkt wit_pool = Some (0, p1)" using n b by (simp add: alloc_bkt_def wit_pool_fields)
  note A = native.alloc_bkt_ok [OF r a]
  have d: "disk_page p1 3 = Some wit_init"
  proof -
    have "pgin p1 = pgin wit_pool" "backing p1 = backing wit_pool" "pagesize p1 = pagesize wit_pool"
      using n by (auto simp: new_bkt_def Let_def)
    then have "disk_page p1 = disk_page wit_pool"
      by (simp add: fun_eq_iff disk_page_def page_size_def)
    then show ?thesis by (simp add: wit_page_readable wit_init_def)
  qed
  have "load_new_page wit_pool 3 flags = Some (0, Some 0, wit_got flags)"
    using native.load_new_page_eq [OF a, of wit_hdr512 3 flags] A d n by (simp add: wit_got_def)
  then show ?thesis
    using assms wit_flags by (auto simp: pagepool_get_page_def wit_pool_fields simp del: flag_isset)
qed

lemma wit_got_bkt: "bkts (wit_got flags) 0 = Some \<lparr>b_page = wit_init, b_pgno = 3, b_ref = 1, b_waiters = 0,
    b_flags = mark_flags flags (FLAG_SET FFDB_PAGE_PINNED FFDB_PAGE_VALID), b_owner = Some 1, b_wqh = []\<rparr>"
  by (simp add: wit_got_def loaded_def load_bkt_def bkts_upd_bkt new_bkt_def Let_def wit_pool_fields)

lemma wit_got_fields: "lqh (wit_got flags) = [0]" "self (wit_got flags) = 1" "fileflags (wit_got flags) = FFDB_CREATE"
  "pagesize (wit_got flags) = 512" "npages (wit_got flags) = 0"
  "backing (wit_got flags) = \<lparr>f_data = [], f_room = 100000, f_writable = True\<rparr>"
  "pgout (wit_got flags) = Some (ffdb_pgout_routine wit_hdr512 LITTLE_ENDIAN)"
  "hqh (wit_got flags) = (\<lambda>_. [])(HASHKEY 3 := [0])"
  by (simp_all add: wit_got_def loaded_def new_bkt_def Let_def wit_pool_fields
      lq_insert_tail_def hq_insert_head_def)

lemma wit_got_native:
  assumes "flags = 0 \<or> flags = FFDB_PAGE_DIRTY"
  shows "native_pool wit_hdr512 (wit_got flags)" "holds (wit_got flags) 0 3"
proof -
  have r: "native.ready wit_hdr512 wit_pool" using wit_native by (simp add: native_ready)
  obtain b where "Some (0::nat) = Some b" "native.ready wit_hdr512 (wit_got flags)" "holds (wit_got flags) b 3"
    by (rule native.get_ok [OF r _ _ _ wit_got_eq [OF assms]])
       (use assms wit_flags in \<open>auto simp: wit_pool_fields simp del: flag_isset\<close>)
  then show "native_pool wit_hdr512 (wit_got flags)" "holds (wit_got flags) 0 3"
    by (simp_all add: native_ready)
qed



theorem put_page_keeps_witness:
  "\<exists>p'. pagepool_put_page (wit_got FFDB_PAGE_DIRTY) 0 0 = Some (0, p') \<and> page_view p' = page_view (wit_got FFDB_PAGE_DIRTY)"
proof -
  note W = wit_got_native [of FFDB_PAGE_DIRTY, simplified]
  have "dirty (wit_got FFDB_PAGE_DIRTY) 0"
    by (simp add: dirty_def bkt_flags_def wit_got_bkt) (simp add: ffdb_consts)
  then show ?thesis
    using put_page_keeps [OF W wit_got_bkt, of 0] wit_init_good by auto
qed

theorem nested_gets_abort_witness:
  "\<exists>p2 p3. pagepool_get_page (wit_got 0) 3 0 = Some (Got 0 3 (Some 0) p2) \<and>
     pagepool_put_page p2 0 0 = Some (0, p3) \<and> pagepool_put_page p3 0 0 = None"
proof -
  let ?g = "grab_page (wit_got 0) 0 3 0"
  obtain p2 where p2: "?g = Got 0 3 (Some 0) p2" by (simp add: grab_page_def Let_def)
  have g: "pagepool_get_page (wit_got 0) 3 0 = Some (Got 0 3 (Some 0) p2)"
    using p2 by (simp add: pagepool_get_page_def wit_got_fields wit_got_bkt wit_flags del: flag_isset)
  obtain bp where bp: "bkts p2 0 = Some bp" "bit (b_flags bp) 8" "b_waiters bp = 0"
    using p2 by (auto simp: grab_page_def Let_def bkts_upd_bkt wit_got_bkt)
  obtain p3 where p3: "pagepool_put_page p2 0 0 = Some (0, p3)"
    using bp by (simp add: pagepool_put_page_def Let_def)
  have "pagepool_put_page p3 0 0 = None"
    using nested_gets_abort [OF wit_native _ _ _ wit_got_eq [of 0] g p3] by (simp add: wit_flags del: flag_isset)
  then show ?thesis using g p3 by blast
qed

lemma merge_sort_single [simp]: "ffdb_slist_merge_sort cmp [x] = [x]"
proof -
  have "mset (ffdb_slist_merge_sort cmp [x]) = {#x#}" by simp
  then show ?thesis by (simp only: mset_single_iff)
qed

theorem update_reaches_disk_witness:
  "\<exists>p2 p3. pagepool_put_page (upd_bkt 0 (b_page_update (\<lambda>_. wit_init)) (wit_got FFDB_PAGE_DIRTY)) 0 0 = Some (0, p2) \<and>
     pagepool_sync p2 = Some (0, p3) \<and> map_option page_content (disk_page p3 3) = Some (page_content wit_init)"
proof -
  let ?g = "wit_got FFDB_PAGE_DIRTY" and ?u = "upd_bkt 0 (b_page_update (\<lambda>_. wit_init)) (wit_got FFDB_PAGE_DIRTY)"
  define bp where "bp = \<lparr>b_page = wit_init, b_pgno = 3, b_ref = 0, b_waiters = 0,
    b_flags = FLAG_CLR (mark_flags FFDB_PAGE_DIRTY (FLAG_SET FFDB_PAGE_PINNED FFDB_PAGE_VALID)) FFDB_PAGE_PINNED,
    b_owner = None, b_wqh = []\<rparr>"
  let ?p2 = "upd_bkt 0 (\<lambda>_. bp) ?u"
  have put: "pagepool_put_page ?u 0 0 = Some (0, ?p2)"
    by (simp add: pagepool_put_page_def bkts_upd_bkt wit_got_bkt bp_def wit_flags Let_def)
  have dirt: "bit (b_flags bp) (Suc 0)" "\<not> bit (b_flags bp) 8" "b_waiters bp = 0"
    by (simp_all add: bp_def) (simp add: ffdb_consts)
  have b2: "bkts ?p2 0 = Some bp" "lqh ?p2 = [0]" "pagesize ?p2 = 512"
    by (simp_all add: bkts_upd_bkt wit_got_bkt wit_got_fields)
  have len: "length wit_init = 512" by (simp add: wit_init_def)
  let ?w = "ffdb_pgout_routine wit_hdr512 LITTLE_ENDIAN 3 wit_init"
  have "length ?w = 512" by (simp add: ffdb_pgout_routine_def wit_hdr_fields len Let_def)
  then have io: "mem_read ?w 0 512 = Some ?w"
    "\<exists>f. file_write \<lparr>f_data = [], f_room = 100000, f_writable = True\<rparr> (512 * unat (3::u32)) ?w = Some f"
    by (simp_all add: mem_get_def file_write_def)
  then obtain p3 where "pagepool_write ?p2 0 = Some (0, p3)"
    using b2 by (auto simp: pagepool_write_def wit_got_fields Let_def bp_def)
  then have sync: "pagepool_sync ?p2 = Some (0, p3)"
    using b2 dirt by (simp add: pagepool_sync_def pagepool_sync_i_def flushable_def)
  have "map_option page_content (disk_page p3 3) = Some (page_content wit_init) \<and>
      page_view p3 = (page_view wit_pool)(3 \<mapsto> page_content wit_init) \<and> native_pool wit_hdr512 p3"
    by (rule update_reaches_disk [OF wit_native _ wit_got_eq _ wit_init_good put sync])
       (simp_all add: wit_pool_fields wit_flags wit_got_bkt del: flag_isset)
  then show ?thesis using put sync by blast
qed

end
