(* ===== verification/FFDB_Hash.thy ===== *)
theory FFDB_Hash
  imports FFDB_Page
begin

text \<open>
  Linear hashing (\<open>_ffdb_call_hash\<close>, the address part of \<open>_ffdb_expand_table\<close>, and
  \<open>BUCKET_TO_PAGE\<close> of \<open>ffdb_hash.h\<close>): the bucket of a key, the bucket that is split when
  the table grows by one, and the page of a bucket. The hash function the user supplies is
  an argument.
\<close>

section \<open>Addresses\<close>

type_synonym hash_fun = "mem \<Rightarrow> u32 \<Rightarrow> u32"

definition ffdb_call_hash :: "hash_fun \<Rightarrow> hashhdr \<Rightarrow> mem \<Rightarrow> u32 \<Rightarrow> u32" where
  "ffdb_call_hash hash hdr k len =
     (let n = hash k len;
          bucket = n AND h_high_mask hdr
      in if bucket > h_max_bucket hdr then n AND h_low_mask hdr else bucket)"

text \<open>An access to one of the two tables of \<open>NCACHED\<close> entries; outside, the read is undefined.\<close>

definition table_get :: "u32 list \<Rightarrow> u32 \<Rightarrow> u32 option" where
  "table_get tab i = (if unat i < length tab then Some (tab ! unat i) else None)"

definition table_set :: "u32 \<Rightarrow> u32 \<Rightarrow> u32 list \<Rightarrow> u32 list option" where
  "table_set i v tab = (if unat i < length tab then Some (tab[unat i := v]) else None)"

definition POW2 :: "u32 \<Rightarrow> u32" where
  "POW2 n = push_bit (unat n) 1"

definition BUCKET_TO_PAGE :: "hashhdr \<Rightarrow> u32 \<Rightarrow> pgno option" where
  "BUCKET_TO_PAGE hdr B = do {
     slevel \<leftarrow> ffdb_log2 (B + 1);
     start \<leftarrow> table_get (h_spares hdr) slevel;
     Some (if B > 0 then B - POW2 (slevel - 1) + start else start)
   }"

text \<open>
  The first half of \<open>_ffdb_expand_table\<close>: one bucket more, the bucket to split, the masks,
  and whether the table is being doubled. The result also says whether \<open>curr_dpage\<close> is
  reset.
\<close>

definition expand_header :: "hashhdr \<Rightarrow> (u32 \<times> u32 \<times> bool \<times> hashhdr) option" where
  "expand_header hdr = (
     let new_bucket = h_max_bucket hdr + 1;
         hdr1 = hdr\<lparr>h_max_bucket := new_bucket\<rparr>;
         old_bucket = h_max_bucket hdr1 AND h_low_mask hdr1;
         hdr2 = (if new_bucket > h_high_mask hdr1
                 then hdr1\<lparr>h_low_mask := h_high_mask hdr1, h_high_mask := new_bucket OR h_high_mask hdr1\<rparr>
                 else hdr1)
     in do {
       spare_indx \<leftarrow> ffdb_log2 (h_max_bucket hdr2 + 1);
       if spare_indx > h_ovfl_point hdr2
       then Some (old_bucket, new_bucket, True, hdr2\<lparr>h_ovfl_point := spare_indx\<rparr>)
       else Some (old_bucket, new_bucket, False, hdr2)
     })"

section \<open>The masks\<close>

text \<open>
  The address space in use: \<open>low\<close> and \<open>high\<close> are the masks of \<open>k\<close> and \<open>k + 1\<close> bits, and
  the last bucket has exactly \<open>k + 1\<close> bits.
\<close>

definition masks_ok :: "hashhdr \<Rightarrow> nat \<Rightarrow> bool" where
  "masks_ok hdr k \<longleftrightarrow> k < 31 \<and> h_low_mask hdr = mask k \<and> h_high_mask hdr = mask (Suc k) \<and>
     2 ^ k \<le> unat (h_max_bucket hdr) \<and> unat (h_max_bucket hdr) < 2 ^ Suc k"

definition nat_address :: "nat \<Rightarrow> nat \<Rightarrow> nat \<Rightarrow> nat" where
  "nat_address k m n = (if n mod 2 ^ Suc k > m then n mod 2 ^ k else n mod 2 ^ Suc k)"

lemma unat_and_mask: "unat (x AND mask j :: u32) = unat x mod 2 ^ j"
  by (simp only: take_bit_eq_mask [symmetric] unsigned_take_bit_eq) (simp add: take_bit_eq_mod)

lemma unat_mask32: "j \<le> 31 \<Longrightarrow> unat (mask j :: u32) = 2 ^ j - 1"
proof -
  assume "j \<le> 31"
  then have e: "unat (2 ^ j :: u32) = 2 ^ j" by (rule unat_exp32)
  then have "(2 ^ j :: u32) \<noteq> 0" by (metis power_not_zero unsigned_0 zero_neq_numeral)
  then have "unat (2 ^ j - 1 :: u32) = unat (2 ^ j :: u32) - 1" by (rule unat_minus_one)
  then show ?thesis using e by (simp only: mask_eq_exp_minus_1)
qed

lemma call_hash_nat:
  assumes "masks_ok hdr k"
  shows "unat (ffdb_call_hash hash hdr key len) = nat_address k (unat (h_max_bucket hdr)) (unat (hash key len))"
  using assms
  by (simp add: ffdb_call_hash_def Let_def masks_ok_def nat_address_def unat_and_mask word_less_nat_alt)

lemma nat_address_le: "2 ^ k \<le> m \<Longrightarrow> nat_address k m n \<le> m"
proof -
  assume "2 ^ k \<le> m"
  moreover have "n mod 2 ^ k < 2 ^ k" by simp
  ultimately have "n mod 2 ^ k \<le> m" by linarith
  then show ?thesis by (simp add: nat_address_def)
qed

lemma mod_pow_Suc: "n mod 2 ^ Suc k mod 2 ^ k = n mod 2 ^ (k :: nat)" for n :: nat
  by (simp add: mod_mod_cancel)

lemma nat_address_grow:
  assumes "2 ^ k \<le> m" "Suc m < 2 ^ Suc k"
  shows "nat_address k (Suc m) n = nat_address k m n \<or>
    nat_address k m n = Suc m mod 2 ^ k \<and> nat_address k (Suc m) n = Suc m"
proof (cases "n mod 2 ^ Suc k = Suc m")
  case True
  then have "n mod 2 ^ k = Suc m mod 2 ^ k" by (metis mod_pow_Suc)
  then show ?thesis using True by (simp add: nat_address_def)
next
  case False
  then show ?thesis by (auto simp: nat_address_def)
qed

lemma nat_address_double:
  assumes "Suc m = 2 ^ Suc k"
  shows "nat_address (Suc k) (Suc m) n = nat_address k m n \<or>
    nat_address k m n = 0 \<and> nat_address (Suc k) (Suc m) n = Suc m"
proof -
  let ?h = "n mod 2 ^ Suc (Suc k)"
  have "n mod 2 ^ Suc k < 2 ^ Suc k" by simp
  then have "\<not> n mod 2 ^ Suc k > m" using assms by linarith
  then have old: "nat_address k m n = n mod 2 ^ Suc k"
    unfolding nat_address_def by (rule if_not_P)
  have r: "?h mod 2 ^ Suc k = n mod 2 ^ Suc k" by (rule mod_pow_Suc)
  consider "?h > Suc m" | "?h = Suc m" | "?h < Suc m" by linarith
  then show ?thesis
  proof cases
    case 1
    then have "nat_address (Suc k) (Suc m) n = n mod 2 ^ Suc k"
      unfolding nat_address_def by (rule if_P)
    then show ?thesis using old by simp
  next
    case 2
    then have "n mod 2 ^ Suc k = 0" using r assms by (metis mod_self)
    then show ?thesis using 2 old by (simp add: nat_address_def)
  next
    case 3
    then have "?h = n mod 2 ^ Suc k" using r assms by (metis mod_less)
    then show ?thesis using 3 old by (simp add: nat_address_def)
  qed
qed

lemma ovfl_point_upd [simp]: "h_low_mask (if b then h\<lparr>h_ovfl_point := x\<rparr> else h) = h_low_mask h"
  "h_high_mask (if b then h\<lparr>h_ovfl_point := x\<rparr> else h) = h_high_mask h"
  "h_max_bucket (if b then h\<lparr>h_ovfl_point := x\<rparr> else h) = h_max_bucket h"
  by simp_all

lemma mask_Suc_or: "(2 ^ k OR mask k :: u32) = mask (Suc k)"
  by (rule bit_word_eqI) (auto simp: bit_simps bit_exp_iff)

lemma expand_header_masks:
  assumes ok: "masks_ok hdr k" and small: "unat (h_max_bucket hdr) + 1 < 2 ^ 31"
    and e: "expand_header hdr = Some (old, new, dbl, hdr')"
  shows "unat new = Suc (unat (h_max_bucket hdr))" "h_max_bucket hdr' = new"
    "unat old = unat new mod 2 ^ k"
    "masks_ok hdr' (if unat new = 2 ^ Suc k then Suc k else k)"
proof -
  let ?m = "h_max_bucket hdr"
  have n: "unat (?m + 1) = Suc (unat ?m)"
    using small by (simp add: unat_word_ariths)
  have new: "new = ?m + 1" and mx: "h_max_bucket hdr' = new" and old: "old = (?m + 1) AND h_low_mask hdr"
    using e by (auto simp: expand_header_def Let_def split: bind_splits if_splits)
  show "unat new = Suc (unat ?m)" "h_max_bucket hdr' = new" using n new mx by simp_all
  show "unat old = unat new mod 2 ^ k"
    using ok by (simp add: old new masks_ok_def unat_and_mask)
  have grow: "new > h_high_mask hdr \<longleftrightarrow> unat new = 2 ^ Suc k"
  proof -
    have "unat (mask (Suc k) :: u32) = 2 ^ Suc k - 1"
      using ok by (intro unat_mask32) (simp add: masks_ok_def)
    then show ?thesis using ok n new by (auto simp: word_less_nat_alt masks_ok_def)
  qed
  have hl: "h_low_mask hdr' = (if new > h_high_mask hdr then h_high_mask hdr else h_low_mask hdr)"
    and hh: "h_high_mask hdr' = (if new > h_high_mask hdr then new OR h_high_mask hdr else h_high_mask hdr)"
    using e by (auto simp: expand_header_def Let_def split: bind_splits if_splits)
  show "masks_ok hdr' (if unat new = 2 ^ Suc k then Suc k else k)"
  proof (cases "unat new = 2 ^ Suc k")
    case True
    have "(2::nat) ^ Suc k < 2 ^ 31" using True n new small by simp
    then have k: "Suc k < 31" by (rule power_less_imp_less_exp [rotated]) simp
    then have "unat (2 ^ Suc k :: u32) = 2 ^ Suc k" by (intro unat_exp32) simp
    then have "new = 2 ^ Suc k" using True by (simp only: word_unat_eq_iff)
    then have "new OR mask (Suc k) = mask (Suc (Suc k))" by (simp only: mask_Suc_or)
    then show ?thesis
      using True grow ok k mx by (simp add: masks_ok_def hl hh)
  next
    case False
    then show ?thesis
      using grow ok mx n new by (auto simp: masks_ok_def hl hh)
  qed
qed

text \<open>Every key hashes to an existing bucket.\<close>
lemma call_hash_in_range:
  assumes "masks_ok hdr k"
  shows "ffdb_call_hash hash hdr key len \<le> h_max_bucket hdr"
  using assms nat_address_le [of k "unat (h_max_bucket hdr)" "unat (hash key len)"]
  unfolding word_le_nat_alt call_hash_nat [OF assms] by (simp add: masks_ok_def)

text \<open>The address of a key before and after a bucket is added.\<close>

lemma call_hash_grow:
  assumes "masks_ok hdr k" "unat (h_max_bucket hdr) + 1 < 2 ^ 31"
    "expand_header hdr = Some (old, new, dbl, hdr')"
  shows "ffdb_call_hash hash hdr' key len = ffdb_call_hash hash hdr key len \<or>
    ffdb_call_hash hash hdr key len = old \<and> ffdb_call_hash hash hdr' key len = new"
proof -
  note E = expand_header_masks [OF assms]
  let ?m = "unat (h_max_bucket hdr)" and ?n = "unat (hash key len)"
  have before: "unat (ffdb_call_hash hash hdr key len) = nat_address k ?m ?n"
    by (rule call_hash_nat [OF assms(1)])
  have after: "unat (ffdb_call_hash hash hdr' key len)
      = nat_address (if unat new = 2 ^ Suc k then Suc k else k) (Suc ?m) ?n"
    using call_hash_nat [OF E(4), of hash key len] E(1,2) by simp
  have m: "2 ^ k \<le> ?m" "?m < 2 ^ Suc k" using assms(1) by (auto simp: masks_ok_def)
  have "nat_address (if unat new = 2 ^ Suc k then Suc k else k) (Suc ?m) ?n = nat_address k ?m ?n \<or>
      nat_address k ?m ?n = unat old \<and>
      nat_address (if unat new = 2 ^ Suc k then Suc k else k) (Suc ?m) ?n = unat new"
  proof (cases "unat new = 2 ^ Suc k")
    case True
    moreover have "(2::nat) ^ Suc k mod 2 ^ k = 0" by simp
    ultimately show ?thesis using nat_address_double [of ?m k ?n] E(1,3) by auto
  next
    case False
    then have "Suc ?m < 2 ^ Suc k" using m E(1) by linarith
    then show ?thesis using nat_address_grow [OF m(1), of ?n] False E(1,3) by auto
  qed
  then show ?thesis
    unfolding word_unat_eq_iff before after .
qed

text \<open>C11: The law of linear hashing. When \<open>_ffdb_expand_table\<close> adds a bucket, a key keeps
  its bucket, or it was in the bucket that is split and moves to the new one; so splitting
  one bucket is enough to keep every key where \<open>_ffdb_call_hash\<close> looks for it.\<close>
theorem expand_moves_only_split_bucket:
  assumes "masks_ok hdr k" "unat (h_max_bucket hdr) + 1 < 2 ^ 31"
    "expand_header hdr = Some (old, new, dbl, hdr')"
  shows "ffdb_call_hash hash hdr' key len = ffdb_call_hash hash hdr key len \<or>
    ffdb_call_hash hash hdr key len = old \<and> ffdb_call_hash hash hdr' key len = new"
  by (rule call_hash_grow [OF assms])

text \<open>A table of four buckets, three of them in use.\<close>

definition wit_table :: hashhdr where
  "wit_table = \<lparr>h_magic = 0, h_version = 6, h_lorder = 1234, h_bsize = 4096, h_bshift = 12, h_ovfl_point = 2,
     h_max_bucket = 2, h_high_mask = 3, h_low_mask = 1, h_ffactor = 0, h_nkeys = 0, h_hdrpages = 3,
     h_uinfolen = 0, h_uinfo_page = 0, h_uinfo_npages = 0, h_cfig_page = 0, h_cfig_npages = 0,
     h_num_cfigs = 0, h_charkey = 0, h_num_moved_pages = 0,
     h_spares = [3, 6, 7] @ replicate 29 0, h_free_pages = replicate 32 0xffffffff, h_chksum = 0\<rparr>"

lemma wit_table_masks: "masks_ok wit_table 1"
  by (simp add: masks_ok_def wit_table_def mask_eq_exp_minus_1)

lemma log2_4: "ffdb_log2 4 = Some 2"
  by (simp add: ffdb_log2_def log2_loop.simps)

lemma wit_table_expand: "expand_header wit_table = Some (1, 3, False, wit_table\<lparr>h_max_bucket := 3\<rparr>)"
  by (simp add: expand_header_def wit_table_def Let_def log2_4)

theorem expand_moves_only_split_bucket_witness:
  "ffdb_call_hash (\<lambda>k len. 7) (wit_table\<lparr>h_max_bucket := 3\<rparr>) [] 0 = ffdb_call_hash (\<lambda>k len. 7) wit_table [] 0 \<or>
   ffdb_call_hash (\<lambda>k len. 7) wit_table [] 0 = 1 \<and> ffdb_call_hash (\<lambda>k len. 7) (wit_table\<lparr>h_max_bucket := 3\<rparr>) [] 0 = 3"
  by (rule expand_moves_only_split_bucket [OF wit_table_masks _ wit_table_expand]) (simp add: wit_table_def)

text \<open>C15: The masks stay consistent: \<open>_ffdb_expand_table\<close> can always compute the grown
  header of a table with fewer than \<open>2 ^ 31 - 1\<close> buckets, it has one bucket more, and its
  masks are again those of the address bits in use.\<close>
theorem expand_keeps_masks:
  assumes "masks_ok hdr k" "unat (h_max_bucket hdr) + 1 < 2 ^ 31"
  shows "\<exists>old new dbl hdr' k'. expand_header hdr = Some (old, new, dbl, hdr') \<and> masks_ok hdr' k' \<and>
    unat (h_max_bucket hdr') = Suc (unat (h_max_bucket hdr)) \<and> old < new \<and> h_spares hdr' = h_spares hdr"
proof -
  let ?m = "h_max_bucket hdr"
  have "unat (?m + 1 + 1) \<le> 2 ^ 31" using assms(2) by (simp add: unat_word_ariths)
  then obtain i where "ffdb_log2 (?m + 1 + 1) = Some i"
    using log2_loop_finds [of 0 "?m + 1 + 1"] by (auto simp: ffdb_log2_def)
  then have "expand_header hdr \<noteq> None"
    by (cases "h_high_mask hdr < ?m + 1") (auto simp: expand_header_def Let_def)
  then obtain old new dbl hdr' where e: "expand_header hdr = Some (old, new, dbl, hdr')"
    by auto
  note E = expand_header_masks [OF assms e]
  have "2 ^ k \<le> unat ?m" using assms(1) by (simp add: masks_ok_def)
  moreover have "unat new mod 2 ^ k < 2 ^ k" by simp
  ultimately have "unat old < unat new" using E(1,3) by linarith
  moreover have "h_spares hdr' = h_spares hdr"
    using e by (auto simp: expand_header_def Let_def split: bind_splits if_splits)
  ultimately show ?thesis
    using e E by (auto simp: word_less_nat_alt)
qed

theorem expand_keeps_masks_witness:
  "\<exists>old new dbl hdr' k'. expand_header wit_table = Some (old, new, dbl, hdr') \<and> masks_ok hdr' k' \<and>
    unat (h_max_bucket hdr') = Suc (unat (h_max_bucket wit_table)) \<and> old < new \<and> h_spares hdr' = h_spares wit_table"
  by (rule expand_keeps_masks [OF wit_table_masks]) (simp add: wit_table_def)

section \<open>Pages of buckets\<close>

text \<open>
  Level 0 is bucket 0 and level \<open>s\<close> the \<open>2 ^ (s - 1)\<close> buckets from \<open>2 ^ (s - 1)\<close> on; the
  buckets of a level are consecutive pages from \<open>spares[s]\<close>. \<open>spares_ok\<close> says that up to
  level \<open>L\<close> each level ends before the next one starts.
\<close>

definition level_size :: "nat \<Rightarrow> nat" where
  "level_size s = (if s = 0 then 1 else 2 ^ (s - 1))"

definition level_base :: "nat \<Rightarrow> nat" where
  "level_base s = (if s = 0 then 0 else 2 ^ (s - 1))"

definition spares_ok :: "hashhdr \<Rightarrow> nat \<Rightarrow> bool" where
  "spares_ok hdr L \<longleftrightarrow> length (h_spares hdr) = NCACHED \<and> L < 32 \<and>
     (\<forall>s<L. unat (h_spares hdr ! s) + level_size s \<le> unat (h_spares hdr ! Suc s)) \<and>
     unat (h_spares hdr ! L) + level_size L < 2 ^ 32"

lemma spares_ok_mono:
  assumes "spares_ok hdr L" "s < t" "t \<le> L"
  shows "unat (h_spares hdr ! s) + level_size s \<le> unat (h_spares hdr ! t)"
  using assms(2,3)
proof (induction t rule: less_induct)
  case (less t)
  then obtain u where u: "t = Suc u" by (cases t) auto
  have step: "unat (h_spares hdr ! u) + level_size u \<le> unat (h_spares hdr ! Suc u)"
    using assms(1) less.prems u by (simp add: spares_ok_def)
  show ?case
  proof (cases "s = u")
    case True
    then show ?thesis using step u by simp
  next
    case False
    then have "s < u" using less.prems u by simp
    then have "unat (h_spares hdr ! s) + level_size s \<le> unat (h_spares hdr ! u)"
      using less.IH [of u] less.prems u by simp
    then show ?thesis using step u by simp
  qed
qed

lemma bucket_level:
  assumes "unat B < 2 ^ L" "L < 32"
  shows "\<exists>s \<le> L. ffdb_log2 (B + 1) = Some (of_nat s) \<and> level_base s \<le> unat B \<and> unat B < level_base s + level_size s"
proof -
  have "(2::nat) ^ L \<le> 2 ^ 31" using assms(2) by (intro power_increasing) auto
  then have n: "unat (B + 1) = Suc (unat B)" "unat (B + 1) \<le> 2 ^ 31"
    using assms(1) by (auto simp: unat_word_ariths)
  obtain s where s: "ffdb_log2 (B + 1) = Some (of_nat s)" "unat (B + 1) \<le> 2 ^ s"
    "\<forall>j < s. 2 ^ j < unat (B + 1)"
    using log2_loop_finds [of 0 "B + 1"] n(2) by (auto simp: ffdb_log2_def)
  have "s \<le> L" using s(3) assms(1) n(1) by (metis Suc_leI leD leI)
  moreover have "level_base s \<le> unat B \<and> unat B < level_base s + level_size s"
  proof (cases s)
    case 0
    then show ?thesis using s(2) n(1) by (simp add: level_base_def level_size_def)
  next
    case (Suc r)
    then have "2 ^ r < Suc (unat B)" using s(3) n(1) by auto
    then show ?thesis using s(2) n(1) Suc by (simp add: level_base_def level_size_def)
  qed
  ultimately show ?thesis using s(1) by blast
qed

lemma bucket_page:
  assumes "spares_ok hdr L" "unat B < 2 ^ L"
  shows "\<exists>s p. s \<le> L \<and> BUCKET_TO_PAGE hdr B = Some p \<and> level_base s \<le> unat B \<and>
    unat B < level_base s + level_size s \<and> unat p = unat (h_spares hdr ! s) + (unat B - level_base s)"
proof -
  have L: "L < 32" using assms(1) by (simp add: spares_ok_def)
  obtain s where s: "s \<le> L" "ffdb_log2 (B + 1) = Some (of_nat s)" "level_base s \<le> unat B"
    "unat B < level_base s + level_size s"
    using bucket_level [OF assms(2) L] by blast
  have us: "unat (of_nat s :: u32) = s" using s(1) L by (simp add: unsigned_of_nat take_bit_nat_eq_self)
  have le: "unat (h_spares hdr ! s) + level_size s < 2 ^ 32"
  proof (cases "s = L")
    case True
    then show ?thesis using assms(1) by (simp add: spares_ok_def)
  next
    case False
    then have "unat (h_spares hdr ! s) + level_size s \<le> unat (h_spares hdr ! L)"
      using spares_ok_mono [OF assms(1), of s L] s(1) by simp
    also have "\<dots> < 2 ^ 32" using unsigned_less [of "h_spares hdr ! L"] by simp
    finally show ?thesis .
  qed
  have tab: "table_get (h_spares hdr) (of_nat s) = Some (h_spares hdr ! s)"
    using assms(1) s(1) us by (simp add: table_get_def spares_ok_def NCACHED_def)
  show ?thesis
  proof (cases "s = 0")
    case True
    then have "B = 0" using s(4) by (simp add: level_base_def level_size_def word_unat_eq_iff)
    then show ?thesis
      using s tab True by (intro exI [of _ 0] exI [of _ "h_spares hdr ! 0"])
        (simp add: BUCKET_TO_PAGE_def level_base_def level_size_def)
  next
    case False
    then obtain r where r: "s = Suc r" by (cases s) auto
    have "of_nat s - 1 = (of_nat r :: u32)" by (simp add: r)
    moreover have "unat (of_nat r :: u32) = r" using r s(1) L by (simp add: unsigned_of_nat take_bit_nat_eq_self)
    ultimately have pow: "POW2 (of_nat s - 1) = 2 ^ r" by (simp add: POW2_def push_bit_eq_mult)
    have u2: "unat (2 ^ r :: u32) = 2 ^ r" using r s(1) L by (intro unat_exp32) simp
    have base: "level_base s = 2 ^ r" "level_size s = 2 ^ r" by (simp_all add: r level_base_def level_size_def)
    have B: "B > 0" "2 ^ r \<le> B"
      using s(3) base u2 by (auto simp: word_less_nat_alt word_le_nat_alt intro: le_less_trans [rotated])
         (metis gr0I le_zero_eq power_not_zero zero_neq_numeral)
    have "unat (B - 2 ^ r) = unat B - 2 ^ r" using B(2) u2 by (simp add: unat_sub)
    then have "unat (B - 2 ^ r + h_spares hdr ! s) = unat (h_spares hdr ! s) + (unat B - 2 ^ r)"
      using le s(4) base by (simp add: unat_word_ariths)
    then show ?thesis
      using s tab B(1) pow base
      by (intro exI [of _ s] exI [of _ "B - 2 ^ r + h_spares hdr ! s"]) (simp add: BUCKET_TO_PAGE_def)
  qed
qed

text \<open>C27: Two buckets of the table never share a page, as long as the start pages of the
  levels leave room for the buckets of each level.\<close>
theorem buckets_have_own_pages:
  assumes "spares_ok hdr L" "unat A < 2 ^ L" "unat B < 2 ^ L" "A \<noteq> B"
  shows "BUCKET_TO_PAGE hdr A \<noteq> None \<and> BUCKET_TO_PAGE hdr A \<noteq> BUCKET_TO_PAGE hdr B"
proof -
  obtain s p where a: "s \<le> L" "BUCKET_TO_PAGE hdr A = Some p" "level_base s \<le> unat A"
    "unat A < level_base s + level_size s" "unat p = unat (h_spares hdr ! s) + (unat A - level_base s)"
    using bucket_page [OF assms(1,2)] by blast
  obtain t q where b: "t \<le> L" "BUCKET_TO_PAGE hdr B = Some q" "level_base t \<le> unat B"
    "unat B < level_base t + level_size t" "unat q = unat (h_spares hdr ! t) + (unat B - level_base t)"
    using bucket_page [OF assms(1,3)] by blast
  consider "s < t" | "t < s" | "s = t" by linarith
  then have "unat p \<noteq> unat q"
  proof cases
    case 1
    then show ?thesis using spares_ok_mono [OF assms(1) 1 b(1)] a b by linarith
  next
    case 2
    then show ?thesis using spares_ok_mono [OF assms(1) 2 a(1)] a b by linarith
  next
    case 3
    then show ?thesis using a b assms(4) by (auto simp: word_unat_eq_iff)
  qed
  then show ?thesis using a b by auto
qed

lemma wit_table_spares: "spares_ok wit_table 2"
proof -
  have "s = 0 \<or> s = 1" if "s < 2" for s :: nat using that by linarith
  then show ?thesis
    by (auto simp: spares_ok_def wit_table_def NCACHED_def level_size_def)
qed

theorem buckets_have_own_pages_witness:
  "BUCKET_TO_PAGE wit_table 2 \<noteq> None \<and> BUCKET_TO_PAGE wit_table 2 \<noteq> BUCKET_TO_PAGE wit_table 3"
  by (rule buckets_have_own_pages [OF wit_table_spares]) simp_all

end
