(* ===== verification/FFDB_Store.thy ===== *)
theory FFDB_Store
  imports FFDB_Hash FFDB_PoolNative
begin

text \<open>
  The open table \<open>ffdb_htab_t\<close> and its page store: getting, creating and putting pages
  through the pool (\<open>ffdb_get_page\<close>, \<open>ffdb_new_page\<close>, \<open>ffdb_put_page\<close>), and where data
  and overflow pages come from and go to (\<open>_ffdb_data_page\<close>, \<open>_ffdb_ovfl_page\<close>, the lists
  of free pages). A page in use is named by its pool bucket, as in the pool. The functions
  run in one thread; a get that would have to wait for another thread does not return.
\<close>

section \<open>The open table\<close>

record htab =
  hdr :: hashhdr
  ht_hash :: hash_fun
  h_compare :: "dbt \<Rightarrow> dbt \<Rightarrow> int"
  mborder :: u32
  rdonly :: bool
  split_buf :: mem
  db_errno :: int
  new_file :: bool
  save_file :: bool
  curr_dpage :: pgno
  rearrange_pages :: bool
  mp :: pagepool
  data_valid_flag :: u32
  data_invalid_flag :: u32

text \<open>The memory of a page in use, and stores to it.\<close>

definition page_at :: "htab \<Rightarrow> nat \<Rightarrow> mem option" where
  "page_at hashp b = map_option b_page (bkts (mp hashp) b)"

definition poke :: "nat \<Rightarrow> (mem \<Rightarrow> mem) \<Rightarrow> htab \<Rightarrow> htab" where
  "poke b f hashp = hashp\<lparr>mp := upd_bkt b (b_page_update f) (mp hashp)\<rparr>"

section \<open>Pages\<close>

text \<open>The result is the page, or \<open>None\<close> for a null pointer, and its number.\<close>

definition ffdb_get_page :: "htab \<Rightarrow> pgno \<Rightarrow> u32 \<Rightarrow> u32 \<Rightarrow> (nat option \<times> pgno \<times> htab) option" where
  "ffdb_get_page hashp addr addrtype flags = do {
     page \<leftarrow> (if addrtype = HASH_BUCKET_PAGE then BUCKET_TO_PAGE (hdr hashp) addr else Some addr);
     r \<leftarrow> pagepool_get_page (mp hashp) page flags;
     (case r of
        Waiting _ _ \<Rightarrow> None
      | Got status pg mem p \<Rightarrow>
          if status \<noteq> 0 then Some (None, pg, hashp\<lparr>mp := p\<rparr>)
          else do {
            b \<leftarrow> mem;
            bp \<leftarrow> bkts p b;
            Some (Some b, pg,
              if FLAG_ISSET flags FFDB_CREATE \<and> CURR_PGNO (b_page bp) = 0
              then poke b (\<lambda>m. ffdb_init_page (hdr hashp) m pg addrtype) (hashp\<lparr>mp := p\<rparr>)
              else hashp\<lparr>mp := p\<rparr>)
          })
   }"

definition ffdb_put_page :: "htab \<Rightarrow> nat \<Rightarrow> bool \<Rightarrow> (int \<times> htab) option" where
  "ffdb_put_page hashp b isdirty = do {
     (st, p) \<leftarrow> pagepool_put_page (mp hashp) b (if isdirty then FFDB_PAGE_DIRTY else 0);
     Some (st, hashp\<lparr>mp := p\<rparr>)
   }"

definition ffdb_new_page :: "htab \<Rightarrow> pgno \<Rightarrow> u32 \<Rightarrow> (int \<times> htab) option" where
  "ffdb_new_page hashp addr addrtype = do {
     page \<leftarrow> (if addrtype = HASH_BUCKET_PAGE then BUCKET_TO_PAGE (hdr hashp) addr else Some addr);
     (status, pg, mem, p) \<leftarrow> pagepool_new_page (mp hashp) page FFDB_PAGE_REQUEST;
     if status \<noteq> 0 then Some (status, hashp\<lparr>mp := p\<rparr>)
     else do {
       b \<leftarrow> mem;
       (_, hashp1) \<leftarrow> ffdb_put_page
         (poke b (\<lambda>m. ffdb_init_page (hdr hashp) m pg addrtype) (hashp\<lparr>mp := p\<rparr>)) b True;
       Some (0, hashp1)
     }
   }"

section \<open>Where new pages come from\<close>

definition ffdb_reuse_free_ovflpage :: "htab \<Rightarrow> (pgno \<times> htab) option" where
  "ffdb_reuse_free_ovflpage hashp = do {
     let clevel = h_ovfl_point (hdr hashp);
     fpage \<leftarrow> table_get (h_free_pages (hdr hashp)) clevel;
     if fpage \<noteq> INVALID_PGNO then do {
       (pg, _, hashp1) \<leftarrow> ffdb_get_page hashp fpage HASH_FREE_PAGE 0;
       fpagep \<leftarrow> pg;
       p \<leftarrow> page_at hashp1 fpagep;
       if NUM_FREE_PAGES p > 0 then do {
         let num = FREE_PAGE p (unat (NUM_FREE_PAGES p) - 1);
         (_, hashp2) \<leftarrow> ffdb_put_page (poke fpagep (\<lambda>m. set_NUM_ENT (NUM_FREE_PAGES m - 1) m) hashp1) fpagep True;
         Some (num, hashp2)
       } else do {
         let nextp = NEXT_PGNO p;
         (_, hashp2) \<leftarrow> ffdb_put_page hashp1 fpagep True;
         tab \<leftarrow> table_set clevel nextp (h_free_pages (hdr hashp2));
         Some (fpage, hashp2\<lparr>hdr := (hdr hashp2)\<lparr>h_free_pages := tab\<rparr>\<rparr>)
       }
     } else Some (0, hashp)
   }"

text \<open>
  The common start of \<open>_ffdb_data_page\<close> and \<open>_ffdb_ovfl_page\<close>: set \<open>curr_dpage\<close> if it is
  not known, and the start of the next level if it is not known. The page of the last bucket
  is only computed for a message.
\<close>

definition level_start :: "htab \<Rightarrow> htab option" where
  "level_start hashp = do {
     let level = h_ovfl_point (hdr hashp) + 1;
     hashp1 \<leftarrow> (if curr_dpage hashp = INVALID_PGNO then do {
         dp \<leftarrow> BUCKET_TO_PAGE (hdr hashp) (h_high_mask (hdr hashp));
         maxp \<leftarrow> BUCKET_TO_PAGE (hdr hashp) (h_max_bucket (hdr hashp));
         Some (hashp\<lparr>curr_dpage := dp + 1\<rparr>)
       } else Some hashp);
     sp \<leftarrow> table_get (h_spares (hdr hashp1)) level;
     if sp = 0 then do {
       tab \<leftarrow> table_set level (curr_dpage hashp1 + 1) (h_spares (hdr hashp1));
       Some (hashp1\<lparr>hdr := (hdr hashp1)\<lparr>h_spares := tab\<rparr>\<rparr>)
     } else Some hashp1
   }"

text \<open>The next page of the level: a page that was freed, or the next one never used.\<close>

definition next_level_page :: "htab \<Rightarrow> (pgno \<times> bool \<times> htab) option" where
  "next_level_page hashp = do {
     let level = h_ovfl_point (hdr hashp) + 1;
     (num, hashp1) \<leftarrow> ffdb_reuse_free_ovflpage hashp;
     if num > 0 then Some (num, True, hashp1)
     else do {
       sp \<leftarrow> table_get (h_spares (hdr hashp1)) level;
       tab \<leftarrow> table_set level (sp + 1) (h_spares (hdr hashp1));
       Some (sp, False, hashp1\<lparr>hdr := (hdr hashp1)\<lparr>h_spares := tab\<rparr>\<rparr>)
     }
   }"

definition ffdb_data_page :: "htab \<Rightarrow> bool \<Rightarrow> (pgno \<times> bool \<times> htab) option" where
  "ffdb_data_page hashp new_page = do {
     hashp1 \<leftarrow> level_start hashp;
     if \<not> new_page then Some (curr_dpage hashp1, False, hashp1)
     else do {
       (num, reuse, hashp2) \<leftarrow> next_level_page hashp1;
       Some (num, reuse, hashp2\<lparr>curr_dpage := num\<rparr>)
     }
   }"

definition ffdb_ovfl_page :: "htab \<Rightarrow> (pgno \<times> bool \<times> htab) option" where
  "ffdb_ovfl_page hashp = do {
     hashp1 \<leftarrow> level_start hashp;
     next_level_page hashp1
   }"

text \<open>The search backwards for the last data page; it may run for ever.\<close>

partial_function (option) ffdb_last_data_page :: "htab \<Rightarrow> pgno \<Rightarrow> (pgno \<times> htab) option" where
  "ffdb_last_data_page hashp page = do {
     (pg, _, hashp1) \<leftarrow> ffdb_get_page hashp page HASH_RAW_PAGE 0;
     b \<leftarrow> pg;
     p \<leftarrow> page_at hashp1 b;
     (_, hashp2) \<leftarrow> ffdb_put_page hashp1 b False;
     if ucast (PTYPE p) = HASH_DATA_PAGE \<and> NEXT_PGNO p = INVALID_PGNO
     then Some (page, hashp2)
     else ffdb_last_data_page hashp2 (page - 1)
   }"

section \<open>Freeing overflow pages\<close>

definition MAX_NUM_FREE_PAGES :: "hashhdr \<Rightarrow> nat" where
  "MAX_NUM_FREE_PAGES h = bsize_less h 28 div 4"

definition ffdb_update_free_page :: "pgno \<Rightarrow> mem \<Rightarrow> mem" where
  "ffdb_update_free_page opage p =
     (let p1 = set_FREE_PAGE (unat (NUM_FREE_PAGES p)) opage p
      in set_NUM_ENT (NUM_FREE_PAGES p1 + 1) p1)"

text \<open>The level above the one the page belongs to.\<close>

partial_function (option) level_above :: "u32 list \<Rightarrow> u32 \<Rightarrow> pgno \<Rightarrow> u32 \<Rightarrow> u32 option" where
  "level_above spares ovfl_point opage level =
     (if level \<le> ovfl_point then do {
        sp \<leftarrow> table_get spares level;
        if opage < sp then Some level else level_above spares ovfl_point opage (level + 1)
      } else Some level)"

text \<open>
  The walk along the free pages of a level. Its results: the page number was stored; the
  last page of the chain is full (it is still held); the next page of the chain could not
  be loaded.
\<close>

datatype free_walk = Stored htab | ChainFull nat pgno htab | ChainBroken htab

partial_function (option) free_chain :: "htab \<Rightarrow> nat \<Rightarrow> pgno \<Rightarrow> pgno \<Rightarrow> free_walk option" where
  "free_chain hashp fpagep fpage opage = do {
     p \<leftarrow> page_at hashp fpagep;
     if (of_nat (unat (NUM_FREE_PAGES p)) :: u64) < of_nat (MAX_NUM_FREE_PAGES (hdr hashp)) - 1 then do {
       (_, hashp1) \<leftarrow> ffdb_put_page (poke fpagep (ffdb_update_free_page opage) hashp) fpagep True;
       Some (Stored hashp1)
     } else (
       let nextpage = NEXT_PGNO p in
       if nextpage = INVALID_PGNO then Some (ChainFull fpagep fpage hashp)
       else do {
         (fnext, _, hashp1) \<leftarrow> ffdb_get_page hashp nextpage HASH_FREE_PAGE 0;
         (_, hashp2) \<leftarrow> ffdb_put_page hashp1 fpagep False;
         (case fnext of
            None \<Rightarrow> Some (ChainBroken hashp2)
          | Some b \<Rightarrow> free_chain hashp2 b nextpage opage)
       })
   }"

text \<open>The Boolean result is \<open>*deleteit\<close>.\<close>

definition ffdb_free_ovflpage :: "htab \<Rightarrow> nat \<Rightarrow> (bool \<times> htab) option" where
  "ffdb_free_ovflpage hashp memp = do {
     m \<leftarrow> page_at hashp memp;
     let opage = CURR_PGNO m;
     lv \<leftarrow> level_above (h_spares (hdr hashp)) (h_ovfl_point (hdr hashp)) opage 0;
     let level = lv - 1;
     fpage \<leftarrow> table_get (h_free_pages (hdr hashp)) level;
     if fpage = INVALID_PGNO then do {
       tab \<leftarrow> table_set level opage (h_free_pages (hdr hashp));
       let hashp1 = hashp\<lparr>hdr := (hdr hashp)\<lparr>h_free_pages := tab\<rparr>\<rparr>;
       Some (False, poke memp (\<lambda>p. ffdb_init_page (hdr hashp1) p opage HASH_FREE_PAGE) hashp1)
     } else do {
       (pg, _, hashp1) \<leftarrow> ffdb_get_page hashp fpage HASH_FREE_PAGE FFDB_CREATE;
       fpagep \<leftarrow> pg;
       w \<leftarrow> free_chain hashp1 fpagep fpage opage;
       (case w of
          Stored hashp2 \<Rightarrow> Some (True, hashp2)
        | ChainBroken hashp2 \<Rightarrow> Some (True, hashp2)
        | ChainFull fp fpg hashp2 \<Rightarrow> do {
            let hashp3 = poke memp (\<lambda>p. ffdb_init_page (hdr hashp2) p opage HASH_FREE_PAGE) hashp2;
            let hashp4 = poke fp (set_NEXT_PGNO opage) hashp3;
            let hashp5 = poke memp (set_PREV_PGNO fpg) hashp4;
            (_, hashp6) \<leftarrow> ffdb_put_page hashp5 fp False;
            Some (False, hashp6)
          })
     }
   }"

definition ffdb_delete_page :: "htab \<Rightarrow> nat \<Rightarrow> u32 \<Rightarrow> (int \<times> htab) option" where
  "ffdb_delete_page hashp pagep addrtype =
     (if addrtype = HASH_OVFL_PAGE then do {
        (deleteit, hashp1) \<leftarrow> ffdb_free_ovflpage hashp pagep;
        if deleteit then do {
          let hashp2 = poke pagep (\<lambda>p. ffdb_init_page (hdr hashp1) p (CURR_PGNO p) HASH_DELETED_PAGE) hashp1;
          (st, p) \<leftarrow> pagepool_delete (mp hashp2) pagep;
          Some (st, hashp2\<lparr>mp := p\<rparr>)
        } else ffdb_put_page hashp1 pagep True
      } else do {
        (st, p) \<leftarrow> pagepool_delete (mp hashp) pagep;
        Some (st, hashp\<lparr>mp := p\<rparr>)
      })"

section \<open>Items\<close>

definition ITEM_ERROR :: int where [ffdb_consts]: "ITEM_ERROR = - 1"
definition ITEM_CLEAN :: int where [ffdb_consts]: "ITEM_CLEAN = 0"
definition ITEM_OK :: int where [ffdb_consts]: "ITEM_OK = 1"
definition ITEM_NO_MORE :: int where [ffdb_consts]: "ITEM_NO_MORE = 2"

record hent =
  it_pgno :: pgno
  it_pagep :: "nat option"
  it_bucket :: pgno
  it_pgndx :: u16
  it_status :: int
  it_seek_size :: int
  it_key_off :: pgno
  it_key_len :: pgno
  it_data_off :: pgno
  it_data_chksum :: u32
  it_caused_expand :: u32

definition ffdb_release_item :: "htab \<Rightarrow> hent \<Rightarrow> (int \<times> hent \<times> htab) option" where
  "ffdb_release_item hashp item = do {
     b \<leftarrow> it_pagep item;
     (status, hashp1) \<leftarrow> ffdb_put_page hashp b False;
     Some (status, item\<lparr>it_pagep := None, it_pgno := INVALID_PGNO, it_bucket := INVALID_PGNO,
       it_status := ITEM_ERROR\<rparr>, hashp1)
   }"

end
