(* ===== verification/FFDB_Data.thy ===== *)
theory FFDB_Data
  imports FFDB_Store
begin

text \<open>
  Data on data pages: \<open>_ffdb_get_data\<close>, \<open>_ffdb_add_data\<close>, \<open>_ffdb_replace_data\<close> and
  \<open>_ffdb_update_data_info\<close>. A datum is a header and its bytes, on one page or on a chain
  of pages. A failed assertion, a copy outside a page or a buffer, and a null dereference
  do not return.
\<close>

section \<open>Values\<close>

text \<open>The storage for a value that is fetched: a null or an application buffer, and its size.\<close>

record valbuf =
  v_data :: "mem option"
  v_size :: int

definition FFDB_VERSION_5 :: int where [ffdb_consts]: "FFDB_VERSION_5 = 5"
definition FFDB_VERSION :: int where [ffdb_consts]: "FFDB_VERSION = 6"

text \<open>The comparisons of \<open>hdr.version\<close>, a signed number.\<close>

definition after_v5 :: "htab \<Rightarrow> bool" where
  "after_v5 hashp \<longleftrightarrow> sint (h_version (hdr hashp)) > FFDB_VERSION_5"

definition bsz :: "htab \<Rightarrow> nat" where
  "bsz hashp = unat (h_bsize (hdr hashp))"

definition BIG_DATA_TOTAL_SIZE :: "dbt \<Rightarrow> nat" where
  "BIG_DATA_TOTAL_SIZE val = BIG_DATA_OVERHEAD + dt_size val"

text \<open>The data header at an offset that must lie in the page.\<close>

definition BIG_DATA_HEADER :: "mem \<Rightarrow> nat \<Rightarrow> data_header option" where
  "BIG_DATA_HEADER p off = (if off + BIG_DATA_OVERHEAD \<le> length p then Some (rd_data_header p off) else None)"

definition datap_roff :: "htab \<Rightarrow> datap \<Rightarrow> u32" where
  "datap_roff hashp d = (if after_v5 hashp then GET_PGOFFSET (dp_offset d) else dp_offset d)"

definition datap_len :: "htab \<Rightarrow> datap \<Rightarrow> nat" where
  "datap_len hashp d = (if after_v5 hashp then REAL_DATA_LEN (dp_len d) (dp_offset d) else unat (dp_len d))"

section \<open>Fetching\<close>

text \<open>The assertions on the header of the datum.\<close>

definition data_header_ok :: "htab \<Rightarrow> hent \<Rightarrow> datap \<Rightarrow> data_header \<Rightarrow> bool" where
  "data_header_ok hashp item d dh \<longleftrightarrow>
     (if after_v5 hashp
      then REAL_DATA_LEN (dh_len dh) (dh_status dh) = datap_len hashp d \<and>
        GET_STATUS (dh_status dh) = data_valid_flag hashp
      else dh_len dh = dp_len d \<and> dh_status dh = data_valid_flag hashp) \<and>
     dh_key_page dh = it_pgno item \<and> dh_key_idx dh = ucast (it_pgndx item)"

partial_function (option) get_data_loop ::
    "htab \<Rightarrow> mem \<Rightarrow> nat \<Rightarrow> nat \<Rightarrow> pgno \<Rightarrow> u32 \<Rightarrow> nat \<Rightarrow> (bool \<times> mem \<times> htab) option" where
  "get_data_loop hashp buf vsize pagep nxt start rlen =
     (if rlen = 0 then Some (True, buf, hashp)
      else do {
        let idx = vsize - rlen;
        let copylen = (if unat start + rlen \<le> bsz hashp then rlen else unat (h_bsize (hdr hashp) - start));
        p \<leftarrow> page_at hashp pagep;
        bytes \<leftarrow> mem_read p (unat start) copylen;
        buf1 \<leftarrow> mem_write buf idx bytes;
        (_, hashp1) \<leftarrow> ffdb_put_page hashp pagep False;
        if rlen - copylen > 0 then do {
          (pg, _, hashp2) \<leftarrow> ffdb_get_page hashp1 nxt HASH_DATA_PAGE 0;
          (case pg of
             None \<Rightarrow> Some (False, buf1, hashp2)
           | Some b \<Rightarrow> do {
               q \<leftarrow> page_at hashp2 b;
               get_data_loop hashp2 buf1 vsize b (NEXT_PGNO q) (of_nat BIG_PAGE_OVERHEAD) (rlen - copylen)
             })
        } else Some (True, buf1, hashp1)
      })"

text \<open>A block from \<open>malloc\<close> has some contents; all of it is overwritten.\<close>

definition fresh_block :: "nat \<Rightarrow> mem" where
  "fresh_block n = replicate n 0"

definition ffdb_get_data :: "htab \<Rightarrow> hent \<Rightarrow> valbuf \<Rightarrow> datap \<Rightarrow> (int \<times> valbuf \<times> htab) option" where
  "ffdb_get_data hashp item val datap = do {
     (pg, _, hashp1) \<leftarrow> ffdb_get_page hashp (dp_first datap) HASH_DATA_PAGE 0;
     (case pg of
        None \<Rightarrow> Some (- 1, val, hashp1)
      | Some pagep \<Rightarrow> do {
          p \<leftarrow> page_at hashp1 pagep;
          if dp_first datap \<noteq> CURR_PGNO p \<or> NUM_ENT p < 1 then None
          else do {
            let datalen = datap_len hashp1 datap;
            let roff = datap_roff hashp1 datap;
            dh \<leftarrow> BIG_DATA_HEADER p (unat roff);
            if \<not> data_header_ok hashp1 item datap dh then None
            else do {
              let own = (v_data val \<noteq> None \<and> v_size val > 0);
              if own \<and> v_size val < int datalen then Some (- 1, val, hashp1)
              else do {
                let buf = (if own then the (v_data val) else fresh_block datalen);
                (done, buf1, hashp2) \<leftarrow> get_data_loop hashp1 buf datalen pagep (NEXT_PGNO p)
                  (roff + of_nat BIG_DATA_OVERHEAD) datalen;
                let failed = \<lparr>v_data = (if own then Some buf1 else None), v_size = 0\<rparr>;
                if \<not> done then Some (- 1, failed, hashp2)
                else if ffdb_crc32_checksum 0 (take datalen buf1) \<noteq> dp_chksum datap then Some (- 1, failed, hashp2)
                else Some (0, \<lparr>v_data = Some buf1, v_size = int datalen\<rparr>, hashp2)
              }
            }
          }
        })
   }"

section \<open>Adding\<close>

text \<open>The header of a new datum.\<close>

definition new_data_header :: "htab \<Rightarrow> pgno \<Rightarrow> pgno \<Rightarrow> nat \<Rightarrow> data_header" where
  "new_data_header hashp key_page key_index vsize =
     \<lparr>dh_len = of_nat vsize,
      dh_status = (if after_v5 hashp \<and> IS_HUGE_DATA vsize
        then INSERT_LEN_TO_STATUS vsize (data_valid_flag hashp) else data_valid_flag hashp),
      dh_next = 0, dh_key_page = key_page, dh_key_idx = key_index\<rparr>"

text \<open>Where the next datum of the page would start; 0 when there is no room for a header.\<close>

definition next_data_pos :: "nat \<Rightarrow> u32 \<Rightarrow> nat \<Rightarrow> u32" where
  "next_data_pos bs start tlen =
     (let n = ALIGN_ADDR (start + of_nat tlen) in if unat n + BIG_DATA_OVERHEAD \<ge> bs then 0 else n)"

text \<open>
  The pages after the first one. \<open>rlen\<close> is signed, because the last copy may take more than
  what is left.
\<close>

partial_function (option) add_data_loop ::
    "htab \<Rightarrow> dbt \<Rightarrow> pgno \<Rightarrow> pgno \<Rightarrow> bool \<Rightarrow> int \<Rightarrow> (bool \<times> htab) option" where
  "add_data_loop hashp val currp prevp reuse rlen =
     (if rlen \<le> 0 then Some (True, hashp)
      else do {
        (pg, _, hashp1) \<leftarrow> ffdb_get_page hashp currp HASH_DATA_PAGE FFDB_CREATE;
        (case pg of
           None \<Rightarrow> Some (False, hashp1)
         | Some b \<Rightarrow> do {
             let hashp2 = (if reuse then poke b (\<lambda>p. ffdb_init_page (hdr hashp1) p currp HASH_DATA_PAGE) hashp1
                           else hashp1);
             let hashp3 = poke b (set_PREV_PGNO prevp) hashp2;
             let lastp = (rlen \<le> int (bsize_less (hdr hashp3) (BIG_PAGE_OVERHEAD + BIG_DATA_OVERHEAD)));
             let pos = (if lastp then ALIGN_ADDR (of_nat BIG_PAGE_OVERHEAD + word_of_int rlen) else 0);
             let copylen = (if lastp then nat rlen else bsize_less (hdr hashp3) BIG_PAGE_OVERHEAD);
             bytes \<leftarrow> mem_read (dt_data val) (nat (int (dt_size val) - rlen)) copylen;
             p \<leftarrow> page_at hashp3 b;
             p1 \<leftarrow> mem_write (set_FIRST_DATA_POS pos (set_HIGHEST_FREE pos p)) BIG_PAGE_OVERHEAD bytes;
             let hashp4 = poke b (\<lambda>_. p1) hashp3;
             if rlen - int copylen > 0 then do {
               (nextp, reuse1, hashp5) \<leftarrow> ffdb_data_page hashp4 True;
               (_, hashp6) \<leftarrow> ffdb_put_page (poke b (set_NEXT_PGNO nextp) hashp5) b True;
               add_data_loop hashp6 val nextp currp reuse1 (rlen - int copylen)
             } else do {
               (_, hashp6) \<leftarrow> ffdb_put_page hashp4 b True;
               Some (True, hashp6)
             }
           })
      })"

text \<open>The page a datum starts on: the given one, or a new one if that is full.\<close>

definition data_start_page :: "htab \<Rightarrow> nat \<Rightarrow> pgno \<Rightarrow> ((nat \<times> pgno) option \<times> htab) option" where
  "data_start_page hashp m pnum = do {
     p \<leftarrow> page_at hashp m;
     if HIGHEST_FREE p = 0 then do {
       (cpage, reuse, hashp1) \<leftarrow> ffdb_data_page hashp True;
       (pg, _, hashp2) \<leftarrow> ffdb_get_page hashp1 cpage HASH_DATA_PAGE FFDB_CREATE;
       (case pg of
          None \<Rightarrow> do {
            (_, hashp3) \<leftarrow> ffdb_put_page hashp2 m False;
            Some (None, hashp3)
          }
        | Some cpagep \<Rightarrow> do {
            let hashp3 = (if reuse then poke cpagep (\<lambda>p. ffdb_init_page (hdr hashp2) p cpage HASH_DATA_PAGE) hashp2
                          else hashp2);
            let hashp4 = poke cpagep (set_PREV_PGNO pnum) (poke m (set_NEXT_PGNO cpage) hashp3);
            (_, hashp5) \<leftarrow> ffdb_put_page hashp4 m False;
            Some (Some (cpagep, cpage), hashp5)
          })
     } else Some (Some (m, pnum), hashp)
   }"

text \<open>A datum that fits on its page: header, data, and the new free position.\<close>

definition write_data_on_page :: "nat \<Rightarrow> u32 \<Rightarrow> data_header \<Rightarrow> dbt \<Rightarrow> mem \<Rightarrow> mem option" where
  "write_data_on_page bs start dh val p = do {
     let nxt = next_data_pos bs start (BIG_DATA_TOTAL_SIZE val);
     p1 \<leftarrow> mem_write p (unat start) (data_header_bytes (dh\<lparr>dh_next := nxt\<rparr>));
     bytes \<leftarrow> mem_read (dt_data val) 0 (dt_size val);
     p2 \<leftarrow> mem_write p1 (unat start + BIG_DATA_OVERHEAD) bytes;
     let p3 = set_HIGHEST_FREE nxt p2;
     Some (set_NUM_ENT (NUM_ENT p3 + 1) p3)
   }"

definition ffdb_add_data ::
    "htab \<Rightarrow> pgno \<Rightarrow> pgno \<Rightarrow> dbt \<Rightarrow> nat \<Rightarrow> pgno \<Rightarrow> datap \<Rightarrow> (int \<times> datap \<times> htab) option" where
  "ffdb_add_data hashp key_page key_index val m pnum datap = do {
     (cp, hashp1) \<leftarrow> data_start_page hashp m pnum;
     (case cp of
        None \<Rightarrow> Some (- 1, datap, hashp1)
      | Some (cpagep, cpage) \<Rightarrow> do {
          p \<leftarrow> page_at hashp1 cpagep;
          let start = HIGHEST_FREE p;
          let fspace = unat (h_bsize (hdr hashp1) - start);
          let dh = new_data_header hashp1 key_page key_index (dt_size val);
          let fits = ((sint (h_version (hdr hashp1)) = FFDB_VERSION_5 \<or> \<not> IS_HUGE_DATA (dt_size val)) \<and>
                      BIG_DATA_TOTAL_SIZE val \<le> fspace);
          let datap1 = datap\<lparr>dp_first := cpage,
             dp_offset := (if after_v5 hashp1 then INSERT_LEN_TO_PGOFFSET (dt_size val) start else start)\<rparr>;
          if fspace < BIG_DATA_OVERHEAD then None
          else if fits then do {
            p1 \<leftarrow> write_data_on_page (bsz hashp1) start dh val p;
            (_, hashp2) \<leftarrow> ffdb_put_page (poke cpagep (\<lambda>_. p1) hashp1) cpagep True;
            Some (0, datap1, hashp2)
          } else do {
            let room = fspace - BIG_DATA_OVERHEAD;
            bytes \<leftarrow> mem_read (dt_data val) 0 room;
            p1 \<leftarrow> mem_write p (unat start + BIG_DATA_OVERHEAD) bytes;
            let hashp2 = poke cpagep (\<lambda>_. p1) hashp1;
            (fp, reuse, hashp3) \<leftarrow> ffdb_data_page hashp2 True;
            (ok, hashp4) \<leftarrow> add_data_loop hashp3 val fp cpage reuse (int (dt_size val) - int room);
            if \<not> ok then Some (- 1, datap, hashp4)
            else do {
              q \<leftarrow> page_at hashp4 cpagep;
              q1 \<leftarrow> mem_write q (unat start) (data_header_bytes dh);
              let q2 = set_HIGHEST_FREE (dh_next dh) (set_NEXT_PGNO fp q1);
              let q3 = set_NUM_ENT (NUM_ENT q2 + 1) q2;
              (_, hashp5) \<leftarrow> ffdb_put_page (poke cpagep (\<lambda>_. q3) hashp4) cpagep True;
              Some (0, datap1, hashp5)
            }
          }
        })
   }"

section \<open>Replacing\<close>

partial_function (option) replace_data_loop :: "htab \<Rightarrow> dbt \<Rightarrow> pgno \<Rightarrow> int \<Rightarrow> (bool \<times> htab) option" where
  "replace_data_loop hashp val currp rlen =
     (if rlen \<le> 0 then Some (True, hashp)
      else do {
        (pg, _, hashp1) \<leftarrow> ffdb_get_page hashp currp HASH_DATA_PAGE 0;
        (case pg of
           None \<Rightarrow> Some (False, hashp1)
         | Some b \<Rightarrow> do {
             let copylen = (if rlen \<le> int (bsize_less (hdr hashp1) (BIG_PAGE_OVERHEAD + BIG_DATA_OVERHEAD))
                            then nat rlen else bsize_less (hdr hashp1) BIG_PAGE_OVERHEAD);
             bytes \<leftarrow> mem_read (dt_data val) (nat (int (dt_size val) - rlen)) copylen;
             p \<leftarrow> page_at hashp1 b;
             p1 \<leftarrow> mem_write p BIG_PAGE_OVERHEAD bytes;
             (_, hashp2) \<leftarrow> ffdb_put_page (poke b (\<lambda>_. p1) hashp1) b True;
             replace_data_loop hashp2 val
               (if rlen - int copylen > 0 then NEXT_PGNO p1 else currp) (rlen - int copylen)
           })
      })"

definition ffdb_replace_data :: "htab \<Rightarrow> dbt \<Rightarrow> nat \<Rightarrow> datap \<Rightarrow> (int \<times> htab) option" where
  "ffdb_replace_data hashp val m datap = do {
     let roffset = datap_roff hashp datap;
     p \<leftarrow> page_at hashp m;
     dh \<leftarrow> BIG_DATA_HEADER p (unat roffset);
     let dh1 = dh\<lparr>dh_len := dp_len datap, dh_status := (if after_v5 hashp
         then INSERT_LEN_TO_STATUS (dt_size val) (dh_status dh) else dh_status dh)\<rparr>;
     p1 \<leftarrow> mem_write p (unat roffset) (data_header_bytes dh1);
     let fspace = unat (h_bsize (hdr hashp) - roffset);
     if fspace < BIG_DATA_OVERHEAD then None
     else if BIG_DATA_TOTAL_SIZE val \<le> fspace then do {
       bytes \<leftarrow> mem_read (dt_data val) 0 (dt_size val);
       p2 \<leftarrow> mem_write p1 (unat roffset + BIG_DATA_OVERHEAD) bytes;
       (_, hashp1) \<leftarrow> ffdb_put_page (poke m (\<lambda>_. p2) hashp) m True;
       Some (0, hashp1)
     } else do {
       let room = fspace - BIG_DATA_OVERHEAD;
       bytes \<leftarrow> mem_read (dt_data val) 0 room;
       p2 \<leftarrow> mem_write p1 (unat roffset + BIG_DATA_OVERHEAD) bytes;
       (ok, hashp1) \<leftarrow> replace_data_loop (poke m (\<lambda>_. p2) hashp) val (NEXT_PGNO p2)
         (int (dt_size val) - int room);
       if \<not> ok then Some (- 1, hashp1)
       else do {
         (_, hashp2) \<leftarrow> ffdb_put_page hashp1 m True;
         Some (0, hashp2)
       }
     }
   }"

section \<open>The way back to the key\<close>

definition ffdb_update_data_info :: "htab \<Rightarrow> datap \<Rightarrow> pgno \<Rightarrow> u32 \<Rightarrow> (int \<times> htab) option" where
  "ffdb_update_data_info hashp datap kpage kpgindx = do {
     (pg, _, hashp1) \<leftarrow> ffdb_get_page hashp (dp_first datap) HASH_DATA_PAGE 0;
     (case pg of
        None \<Rightarrow> Some (- 1, hashp1)
      | Some b \<Rightarrow> do {
          let roff = unat (datap_roff hashp1 datap);
          p \<leftarrow> page_at hashp1 b;
          dh \<leftarrow> BIG_DATA_HEADER p roff;
          p1 \<leftarrow> mem_write p roff (data_header_bytes (dh\<lparr>dh_key_page := kpage, dh_key_idx := kpgindx\<rparr>));
          (_, hashp2) \<leftarrow> ffdb_put_page (poke b (\<lambda>_. p1) hashp1) b True;
          Some (0, hashp2)
        })
   }"

end
