(* ===== verification/FFDB_Bucket.thy ===== *)
theory FFDB_Bucket
  imports FFDB_Data
begin

text \<open>
  Pairs on bucket pages: looking a key up (\<open>ffdb_find_item\<close>, \<open>ffdb_get_item\<close>), adding and
  replacing pairs (\<open>ffdb_add_pair\<close>, \<open>ffdb_add_ovflpage\<close>), and splitting a bucket
  (\<open>ffdb_split_bucket\<close>).
\<close>

definition FFDB_NOT_FOUND :: int where [ffdb_consts]: "FFDB_NOT_FOUND = 1"

section \<open>Looking up a key\<close>

text \<open>Key \<open>i\<close> of a page; it must lie in the page.\<close>

definition page_key :: "mem \<Rightarrow> nat \<Rightarrow> dbt option" where
  "page_key p i =
     (if unat (KEY_OFF p i) + unat (KEY_LEN p i) \<le> length p
      then Some \<lparr>dt_data = KEY p i, dt_size = unat (KEY_LEN p i)\<rparr> else None)"

fun scan_keys :: "(dbt \<Rightarrow> dbt \<Rightarrow> int) \<Rightarrow> dbt \<Rightarrow> mem \<Rightarrow> nat \<Rightarrow> nat \<Rightarrow> (nat \<times> bool) option" where
  "scan_keys cmp key p i 0 = Some (i, False)"
| "scan_keys cmp key p i (Suc n) = do {
     ekey \<leftarrow> page_key p i;
     if cmp key ekey = 0 then Some (i, True) else scan_keys cmp key p (Suc i) n
   }"

text \<open>
  The walk along the pages of a bucket. The result is the page (or none, if a page could
  not be loaded), its number, the index, and whether the key was found.
\<close>

partial_function (option) find_chain ::
    "htab \<Rightarrow> dbt \<Rightarrow> nat \<Rightarrow> pgno \<Rightarrow> (nat option \<times> pgno \<times> nat \<times> bool \<times> htab) option" where
  "find_chain hashp key pagep pg = do {
     p \<leftarrow> page_at hashp pagep;
     (i, found) \<leftarrow> scan_keys (h_compare hashp) key p 0 (unat (NUM_ENT p));
     if found \<or> NEXT_PGNO p = INVALID_PGNO then Some (Some pagep, pg, i, found, hashp)
     else do {
       (_, hashp1) \<leftarrow> ffdb_put_page hashp pagep False;
       (mem, pg1, hashp2) \<leftarrow> ffdb_get_page hashp1 (NEXT_PGNO p) HASH_OVFL_PAGE 0;
       (case mem of
          None \<Rightarrow> Some (None, pg1, i, False, hashp2)
        | Some b \<Rightarrow> find_chain hashp2 key b pg1)
     }
   }"

definition ffdb_find_item :: "htab \<Rightarrow> dbt \<Rightarrow> dbt option \<Rightarrow> hent \<Rightarrow> (int \<times> hent \<times> htab) option" where
  "ffdb_find_item hashp key val item = do {
     (mem, pg, hashp1) \<leftarrow> ffdb_get_page hashp (it_bucket item) HASH_BUCKET_PAGE FFDB_PAGE_CREATE;
     let item1 = item\<lparr>it_pagep := mem, it_pgno := pg\<rparr>;
     (case mem of
        None \<Rightarrow> Some (- 1, item1\<lparr>it_status := ITEM_ERROR\<rparr>, hashp1)
      | Some pagep \<Rightarrow> do {
          let item2 = item1\<lparr>it_data_chksum := (case val of None \<Rightarrow> 0
                        | Some v \<Rightarrow> ffdb_crc32_checksum 0 (take (dt_size v) (dt_data v)))\<rparr>;
          p \<leftarrow> page_at hashp1 pagep;
          if NUM_ENT p = 0 then
            Some (0, item2\<lparr>it_pgndx := 0, it_status := ITEM_NO_MORE\<rparr>,
              poke pagep (\<lambda>m. ffdb_init_page (hdr hashp1) m pg HASH_BUCKET_PAGE) hashp1)
          else do {
            (mem1, pg1, i, found, hashp2) \<leftarrow> find_chain hashp1 key pagep (CURR_PGNO p);
            let item3 = item2\<lparr>it_pagep := mem1, it_pgno := pg1, it_status := ITEM_NO_MORE\<rparr>;
            (case mem1 of
               None \<Rightarrow> Some (- 1, item3\<lparr>it_status := ITEM_ERROR\<rparr>, hashp2)
             | Some b \<Rightarrow> do {
                 q \<leftarrow> page_at hashp2 b;
                 let item4 = item3\<lparr>it_pgndx := of_nat i\<rparr>;
                 Some (0, (if found then item4\<lparr>it_status := ITEM_OK, it_key_off := KEY_OFF q i,
                    it_key_len := KEY_LEN q i, it_data_off := DATAP_OFF q i\<rparr> else item4), hashp2)
               })
          }
        })
   }"

text \<open>The data pointer of a pair; it must lie in the page.\<close>

definition page_datap :: "mem \<Rightarrow> nat \<Rightarrow> datap option" where
  "page_datap p i = (if DATAP p i + SIZEOF_DATAP \<le> length p then Some (rd_datap p (DATAP p i)) else None)"

definition ffdb_get_item :: "htab \<Rightarrow> valbuf \<Rightarrow> hent \<Rightarrow> bool \<Rightarrow> (int \<times> valbuf \<times> htab) option" where
  "ffdb_get_item hashp val item freepage = do {
     pagep \<leftarrow> it_pagep item;
     p \<leftarrow> page_at hashp pagep;
     datap \<leftarrow> page_datap p (unat (it_pgndx item));
     (status, val1, hashp1) \<leftarrow> ffdb_get_data hashp item val datap;
     if status \<noteq> 0 then Some (status, val1, hashp1)
     else do {
       (_, hashp2) \<leftarrow> (if freepage then ffdb_put_page hashp1 pagep False else Some (0, hashp1));
       Some (0, val1, hashp2)
     }
   }"

section \<open>Adding a pair\<close>

text \<open>
  The key goes to the end of the free space, the data pointer before it on a 4-byte
  boundary, with zeros in the gap. The result is the page and the place of the pointer.
\<close>

definition write_key :: "mem \<Rightarrow> dbt \<Rightarrow> (mem \<times> u32) option" where
  "write_key p key = do {
     let n = unat (NUM_ENT p);
     let off = OFFSET p - of_nat (dt_size key) + 1;
     bytes \<leftarrow> mem_read (dt_data key) 0 (unat (of_nat (dt_size key) :: u32));
     p1 \<leftarrow> mem_write p (unat off) bytes;
     let p2 = set_KEY_LEN n (of_nat (dt_size key)) (set_KEY_OFF n off p1);
     let soff = off - of_nat SIZEOF_DATAP;
     let aoff = ALIGN_DATAP_OFFSET_VAL soff;
     p3 \<leftarrow> (if aoff \<noteq> soff
           then mem_write p2 (unat aoff + SIZEOF_DATAP) (replicate (unat (soff - aoff)) 0) else Some p2);
     Some (p3, aoff)
   }"

text \<open>The number of pairs and the end of the free space once the pointer is written.\<close>

definition commit_pair :: "u16 \<Rightarrow> u32 \<Rightarrow> mem \<Rightarrow> mem" where
  "commit_pair n off p = set_OFFSET (off - 1) (set_NUM_ENT (n + 1) p)"

definition write_datap :: "mem \<Rightarrow> u16 \<Rightarrow> u32 \<Rightarrow> datap \<Rightarrow> mem option" where
  "write_datap p n off d = do {
     p1 \<leftarrow> mem_write p (unat off) (datap_bytes d);
     Some (set_DATAP_OFF (unat n) off p1)
   }"

definition ffdb_add_item_on_page ::
    "htab \<Rightarrow> nat \<Rightarrow> pgno \<Rightarrow> dbt \<Rightarrow> dbt \<Rightarrow> u32 \<Rightarrow> (int \<times> htab) option" where
  "ffdb_add_item_on_page hashp pagep page key val data_chksum = do {
     p \<leftarrow> page_at hashp pagep;
     (p1, off) \<leftarrow> write_key p key;
     let hashp1 = poke pagep (\<lambda>_. p1) hashp;
     (fpage, reuse, hashp2) \<leftarrow> ffdb_data_page hashp1 False;
     (mem, dpage, hashp3) \<leftarrow> ffdb_get_page hashp2 fpage HASH_DATA_PAGE FFDB_CREATE;
     (case mem of
        None \<Rightarrow> Some (- 1, hashp3)
      | Some memp \<Rightarrow> do {
          let d = \<lparr>dp_first = fpage, dp_offset = 0, dp_len = of_nat (dt_size val), dp_chksum = data_chksum\<rparr>;
          (status, d1, hashp4) \<leftarrow> ffdb_add_data hashp3 page (ucast (NUM_ENT p)) val memp dpage d;
          if status \<noteq> 0 then Some (- 1, hashp4)
          else do {
            q \<leftarrow> page_at hashp4 pagep;
            q1 \<leftarrow> write_datap q (NUM_ENT p) off d1;
            Some (0, poke pagep (\<lambda>_. commit_pair (NUM_ENT p) off q1) hashp4)
          }
        })
   }"

definition ffdb_replace_item_on_page :: "htab \<Rightarrow> dbt \<Rightarrow> hent \<Rightarrow> (int \<times> htab) option" where
  "ffdb_replace_item_on_page hashp val item = do {
     pagep \<leftarrow> it_pagep item;
     p \<leftarrow> page_at hashp pagep;
     let i = unat (it_pgndx item);
     d \<leftarrow> page_datap p i;
     if dt_size val > datap_len hashp d then Some (- 1, hashp)
     else do {
       (mem, dpage, hashp1) \<leftarrow> ffdb_get_page hashp (dp_first d) HASH_DATA_PAGE 0;
       (case mem of
          None \<Rightarrow> Some (- 1, hashp1)
        | Some memp \<Rightarrow> do {
            let d1 = d\<lparr>dp_offset := (if after_v5 hashp1 \<and> IS_HUGE_DATA (dt_size val)
                         then INSERT_LEN_TO_PGOFFSET (dt_size val) (dp_offset d) else dp_offset d),
                       dp_len := of_nat (dt_size val), dp_chksum := it_data_chksum item\<rparr>;
            q \<leftarrow> page_at hashp1 pagep;
            q1 \<leftarrow> mem_write q (DATAP q i) (datap_bytes d1);
            (status, hashp2) \<leftarrow> ffdb_replace_data (poke pagep (\<lambda>_. q1) hashp1) val memp d1;
            Some (if status \<noteq> 0 then - 1 else 0, hashp2)
          })
     }
   }"

definition ffdb_add_pair :: "htab \<Rightarrow> dbt \<Rightarrow> dbt \<Rightarrow> hent \<Rightarrow> bool \<Rightarrow> (int \<times> htab) option" where
  "ffdb_add_pair hashp key val item replace = do {
     pagep \<leftarrow> it_pagep item;
     (status, hashp1) \<leftarrow> (if \<not> replace
        then ffdb_add_item_on_page hashp pagep (it_pgno item) key val (it_data_chksum item)
        else ffdb_replace_item_on_page hashp val item);
     (_, hashp2) \<leftarrow> ffdb_put_page hashp1 pagep (status = 0);
     Some (status, hashp2)
   }"

definition ffdb_add_ovflpage :: "htab \<Rightarrow> dbt \<Rightarrow> dbt \<Rightarrow> hent \<Rightarrow> (int \<times> htab) option" where
  "ffdb_add_ovflpage hashp key val item = do {
     pagep \<leftarrow> it_pagep item;
     (ovflpage, reuse, hashp1) \<leftarrow> ffdb_ovfl_page hashp;
     (mem, _, hashp2) \<leftarrow> ffdb_get_page hashp1 ovflpage HASH_OVFL_PAGE FFDB_CREATE;
     (case mem of
        None \<Rightarrow> do {
          (_, hashp3) \<leftarrow> ffdb_put_page hashp2 pagep False;
          Some (- 1, hashp3)
        }
      | Some opagep \<Rightarrow> do {
          let hashp3 = (if reuse then poke opagep (\<lambda>m. ffdb_init_page (hdr hashp2) m ovflpage HASH_OVFL_PAGE) hashp2
                        else hashp2);
          let hashp4 = poke opagep (set_PREV_PGNO (it_pgno item)) (poke pagep (set_NEXT_PGNO ovflpage) hashp3);
          (status, hashp5) \<leftarrow> ffdb_add_item_on_page hashp4 opagep ovflpage key val (it_data_chksum item);
          (_, hashp6) \<leftarrow> ffdb_put_page hashp5 opagep (status = 0);
          (_, hashp7) \<leftarrow> ffdb_put_page hashp6 pagep (status = 0);
          Some (0, hashp7)
        })
   }"

section \<open>Moving pairs when a bucket is split\<close>

definition ffdb_write_key_datap_to_page ::
    "htab \<Rightarrow> dbt \<Rightarrow> datap \<Rightarrow> nat \<Rightarrow> pgno \<Rightarrow> (int \<times> htab) option" where
  "ffdb_write_key_datap_to_page hashp key d pagep page = do {
     p \<leftarrow> page_at hashp pagep;
     (p1, off) \<leftarrow> write_key p key;
     p2 \<leftarrow> write_datap p1 (NUM_ENT p) off d;
     (status, hashp1) \<leftarrow> ffdb_update_data_info (poke pagep (\<lambda>_. p2) hashp) d page (ucast (NUM_ENT p));
     Some (status, poke pagep (commit_pair (NUM_ENT p) off) hashp1)
   }"

text \<open>
  The walk to a page of the bucket with room for the pair: the pair was written; the last
  page is full (it is still held); a page could not be loaded.
\<close>

datatype room_walk = Written htab | Full nat pgno htab | Broken htab

partial_function (option) bucket_room :: "htab \<Rightarrow> dbt \<Rightarrow> datap \<Rightarrow> nat \<Rightarrow> pgno \<Rightarrow> room_walk option" where
  "bucket_room hashp key d pagep page = do {
     p \<leftarrow> page_at hashp pagep;
     if PAIRFITS p (dt_size key) then do {
       (_, hashp1) \<leftarrow> ffdb_write_key_datap_to_page hashp key d pagep page;
       (_, hashp2) \<leftarrow> ffdb_put_page hashp1 pagep True;
       Some (Written hashp2)
     } else (
       let nextpage = NEXT_PGNO p in
       if nextpage = INVALID_PGNO then Some (Full pagep page hashp)
       else do {
         (mem, _, hashp1) \<leftarrow> ffdb_get_page hashp nextpage HASH_OVFL_PAGE 0;
         (_, hashp2) \<leftarrow> ffdb_put_page hashp1 pagep False;
         (case mem of
            None \<Rightarrow> Some (Broken hashp2)
          | Some b \<Rightarrow> bucket_room hashp2 key d b nextpage)
       })
   }"

definition ffdb_add_key_datap_to_bucket :: "htab \<Rightarrow> dbt \<Rightarrow> datap \<Rightarrow> u32 \<Rightarrow> (int \<times> htab) option" where
  "ffdb_add_key_datap_to_bucket hashp key d bucket = do {
     (mem, page, hashp1) \<leftarrow> ffdb_get_page hashp bucket HASH_BUCKET_PAGE FFDB_CREATE;
     (case mem of
        None \<Rightarrow> Some (- 1, hashp1)
      | Some pagep \<Rightarrow> do {
          w \<leftarrow> bucket_room hashp1 key d pagep page;
          (case w of
             Written hashp2 \<Rightarrow> Some (0, hashp2)
           | Broken hashp2 \<Rightarrow> Some (- 1, hashp2)
           | Full lastp lastpg hashp2 \<Rightarrow> do {
               (ovflpage, reuse, hashp3) \<leftarrow> ffdb_ovfl_page hashp2;
               (omem, _, hashp4) \<leftarrow> ffdb_get_page hashp3 ovflpage HASH_OVFL_PAGE FFDB_CREATE;
               (case omem of
                  None \<Rightarrow> do {
                    (_, hashp5) \<leftarrow> ffdb_put_page hashp4 lastp False;
                    Some (- 1, hashp5)
                  }
                | Some opagep \<Rightarrow> do {
                    let hashp5 = (if reuse
                       then poke opagep (\<lambda>m. ffdb_init_page (hdr hashp4) m ovflpage HASH_OVFL_PAGE) hashp4
                       else hashp4);
                    let hashp6 = poke opagep (set_PREV_PGNO lastpg) (poke lastp (set_NEXT_PGNO ovflpage) hashp5);
                    (_, hashp7) \<leftarrow> ffdb_put_page hashp6 lastp True;
                    (_, hashp8) \<leftarrow> ffdb_write_key_datap_to_page hashp7 key d opagep ovflpage;
                    (_, hashp9) \<leftarrow> ffdb_put_page hashp8 opagep True;
                    Some (0, hashp9)
                  })
             })
        })
   }"

text \<open>
  The page whose pairs are being moved is the split buffer (\<open>None\<close>) or an overflow page in
  use.
\<close>

definition temp_page :: "htab \<Rightarrow> nat option \<Rightarrow> mem option" where
  "temp_page hashp t = (case t of None \<Rightarrow> Some (split_buf hashp) | Some b \<Rightarrow> page_at hashp b)"

partial_function (option) split_items :: "htab \<Rightarrow> nat option \<Rightarrow> u32 \<Rightarrow> u32 \<Rightarrow> nat \<Rightarrow> htab option" where
  "split_items hashp t oldbucket newbucket i = do {
     p \<leftarrow> temp_page hashp t;
     if i < unat (NUM_ENT p) then do {
       key \<leftarrow> page_key p i;
       d \<leftarrow> page_datap p i;
       (_, hashp1) \<leftarrow> ffdb_add_key_datap_to_bucket hashp key d
         (if ffdb_call_hash (ht_hash hashp) (hdr hashp) (dt_data key) (of_nat (dt_size key)) = oldbucket
          then oldbucket else newbucket);
       split_items hashp1 t oldbucket newbucket (Suc i)
     } else Some hashp
   }"

partial_function (option) split_pages :: "htab \<Rightarrow> nat option \<Rightarrow> u32 \<Rightarrow> u32 \<Rightarrow> htab option" where
  "split_pages hashp t oldbucket newbucket = do {
     hashp1 \<leftarrow> split_items hashp t oldbucket newbucket 0;
     p \<leftarrow> temp_page hashp1 t;
     let nextpage = NEXT_PGNO p;
     hashp2 \<leftarrow> (case t of None \<Rightarrow> Some hashp1
               | Some b \<Rightarrow> map_option snd (ffdb_delete_page hashp1 b HASH_OVFL_PAGE));
     if nextpage \<noteq> INVALID_PGNO then do {
       (mem, _, hashp3) \<leftarrow> ffdb_get_page hashp2 nextpage HASH_OVFL_PAGE 0;
       (case mem of
          None \<Rightarrow> Some hashp3
        | Some b \<Rightarrow> split_pages hashp3 (Some b) oldbucket newbucket)
     } else Some hashp2
   }"

definition ffdb_split_bucket :: "htab \<Rightarrow> u32 \<Rightarrow> u32 \<Rightarrow> (int \<times> htab) option" where
  "ffdb_split_bucket hashp oldbucket newbucket = do {
     (mem, oldpage, hashp1) \<leftarrow> ffdb_get_page hashp oldbucket HASH_BUCKET_PAGE FFDB_CREATE;
     (case mem of
        None \<Rightarrow> Some (- 1, hashp1)
      | Some oldpagep \<Rightarrow> do {
          p \<leftarrow> page_at hashp1 oldpagep;
          buf \<leftarrow> mem_read p 0 (bsz hashp1);
          let hashp2 = poke oldpagep (\<lambda>m. ffdb_init_page (hdr hashp1) m oldpage HASH_BUCKET_PAGE)
                         (hashp1\<lparr>split_buf := buf\<rparr>);
          (_, hashp3) \<leftarrow> ffdb_put_page hashp2 oldpagep True;
          hashp4 \<leftarrow> split_pages hashp3 None oldbucket newbucket;
          Some (0, hashp4)
        })
   }"

end
