(* ===== verification/FFDB_Rearrange.thy ===== *)
theory FFDB_Rearrange
  imports FFDB_Bucket
begin

text \<open>
  Moving the last pages of the file into the pages of buckets that are not in use when a
  table is closed, and back when it is opened for writing
  (\<open>ffdb_rearrage_pages_on_close\<close>, \<open>ffdb_rearrage_pages_on_open\<close>), and cutting the file.
\<close>

section \<open>Links between key pages and data pages\<close>

partial_function (option) ffdb_update_data_pages_content ::
    "htab \<Rightarrow> nat \<Rightarrow> pgno \<Rightarrow> pgno \<Rightarrow> pgno \<Rightarrow> pgno \<Rightarrow> nat \<Rightarrow> (int \<times> htab) option" where
  "ffdb_update_data_pages_content hashp pagep oldpage newpage newfirst newlast i = do {
     p \<leftarrow> page_at hashp pagep;
     if i < unat (NUM_ENT p) then do {
       d \<leftarrow> page_datap p i;
       if dp_first d \<ge> newfirst \<and> dp_first d \<le> newlast
       then ffdb_update_data_pages_content hashp pagep oldpage newpage newfirst newlast (Suc i)
       else do {
         (mem, _, hashp1) \<leftarrow> ffdb_get_page hashp (dp_first d) HASH_DATA_PAGE 0;
         (case mem of
            None \<Rightarrow> Some (- 1, hashp1)
          | Some b \<Rightarrow> do {
              q \<leftarrow> page_at hashp1 b;
              let off = unat (datap_roff hashp1 d);
              dh \<leftarrow> BIG_DATA_HEADER q off;
              if dh_key_page dh \<noteq> oldpage then None
              else do {
                q1 \<leftarrow> mem_write q off (data_header_bytes (dh\<lparr>dh_key_page := newpage\<rparr>));
                (_, hashp2) \<leftarrow> ffdb_put_page (poke b (\<lambda>_. q1) hashp1) b True;
                ffdb_update_data_pages_content hashp2 pagep oldpage newpage newfirst newlast (Suc i)
              }
            })
       }
     } else Some (0, hashp)
   }"

text \<open>\<open>nxt\<close> is the place of the header of datum \<open>i\<close> of the data page.\<close>

partial_function (option) update_key_pages_loop ::
    "htab \<Rightarrow> nat \<Rightarrow> pgno \<Rightarrow> pgno \<Rightarrow> pgno \<Rightarrow> pgno \<Rightarrow> pgno \<Rightarrow> nat \<Rightarrow> u32 \<Rightarrow> (int \<times> htab) option" where
  "update_key_pages_loop hashp pagep oldpage newpage oldfirst oldlast newfirst i nxt = do {
     p \<leftarrow> page_at hashp pagep;
     if i < unat (NUM_ENT p) then do {
       dh \<leftarrow> BIG_DATA_HEADER p (unat nxt);
       (mem, _, hashp1) \<leftarrow> ffdb_get_page hashp (dh_key_page dh) HASH_RAW_PAGE 0;
       (case mem of
          None \<Rightarrow> Some (- 1, hashp1)
        | Some b \<Rightarrow> do {
            q \<leftarrow> page_at hashp1 b;
            d \<leftarrow> page_datap q (unat (dh_key_idx dh));
            if dp_first d \<noteq> oldpage then None
            else do {
              q1 \<leftarrow> mem_write q (DATAP q (unat (dh_key_idx dh))) (datap_bytes (d\<lparr>dp_first := newpage\<rparr>));
              let hashp2 = poke b (\<lambda>_. q1) hashp1;
              let newkp = newfirst + (dh_key_page dh - oldfirst);
              p1 \<leftarrow> page_at hashp2 pagep;
              p2 \<leftarrow> (if dh_key_page dh \<ge> oldfirst \<and> dh_key_page dh \<le> oldlast
                    then mem_write p1 (unat nxt) (data_header_bytes (dh\<lparr>dh_key_page := newkp\<rparr>)) else Some p1);
              (_, hashp3) \<leftarrow> ffdb_put_page (poke pagep (\<lambda>_. p2) hashp2) b True;
              update_key_pages_loop hashp3 pagep oldpage newpage oldfirst oldlast newfirst (Suc i) (dh_next dh)
            }
          })
     } else Some (0, hashp)
   }"

definition ffdb_update_key_pages_content ::
    "htab \<Rightarrow> nat \<Rightarrow> pgno \<Rightarrow> pgno \<Rightarrow> pgno \<Rightarrow> pgno \<Rightarrow> pgno \<Rightarrow> (int \<times> htab) option" where
  "ffdb_update_key_pages_content hashp pagep oldpage newpage oldfirst oldlast newfirst = do {
     p \<leftarrow> page_at hashp pagep;
     update_key_pages_loop hashp pagep oldpage newpage oldfirst oldlast newfirst 0 (FIRST_DATA_POS p)
   }"

section \<open>Moving pages\<close>

fun remove_loop :: "htab \<Rightarrow> pgno \<Rightarrow> nat \<Rightarrow> htab option" where
  "remove_loop hashp page 0 = Some hashp"
| "remove_loop hashp page (Suc n) = do {
     (mem, _, hashp1) \<leftarrow> ffdb_get_page hashp page HASH_RAW_PAGE 0;
     (case mem of
        None \<Rightarrow> remove_loop hashp1 (page + 1) n
      | Some b \<Rightarrow> do {
          (_, p) \<leftarrow> pagepool_delete (mp hashp1) b;
          remove_loop (hashp1\<lparr>mp := p\<rparr>) (page + 1) n
        })
   }"

definition ffdb_remove_pages :: "htab \<Rightarrow> pgno \<Rightarrow> pgno \<Rightarrow> htab option" where
  "ffdb_remove_pages hashp pfirst plast = remove_loop hashp pfirst (unat (plast - pfirst + 1))"

text \<open>
  One link of a page that is moved: a neighbour that stays gets its link back changed, for
  a neighbour that moves too the own link is changed. The result is whether it succeeded.
\<close>

definition relink ::
    "htab \<Rightarrow> nat \<Rightarrow> pgno \<Rightarrow> (pgno \<Rightarrow> mem \<Rightarrow> mem) \<Rightarrow> (pgno \<Rightarrow> mem \<Rightarrow> mem) \<Rightarrow> pgno \<Rightarrow> pgno \<Rightarrow> pgno \<Rightarrow> pgno
      \<Rightarrow> (bool \<times> htab) option" where
  "relink hashp pagep link set_own set_back oldfirst oldlast newfirst rpage =
     (if link < oldfirst \<or> link > oldlast then do {
        (mem, _, hashp1) \<leftarrow> ffdb_get_page hashp link HASH_RAW_PAGE 0;
        (case mem of
           None \<Rightarrow> do {
             (_, hashp2) \<leftarrow> ffdb_put_page hashp1 pagep False;
             Some (False, hashp2)
           }
         | Some b \<Rightarrow> do {
             (_, hashp2) \<leftarrow> ffdb_put_page (poke b (set_back rpage) hashp1) b True;
             Some (True, hashp2)
           })
      } else Some (True, poke pagep (set_own (newfirst + (link - oldfirst))) hashp))"

text \<open>The entries that point to a page that is moved, by the type of the page.\<close>

definition update_contents ::
    "htab \<Rightarrow> u32 \<Rightarrow> nat \<Rightarrow> pgno \<Rightarrow> pgno \<Rightarrow> pgno \<Rightarrow> pgno \<Rightarrow> pgno \<Rightarrow> pgno \<Rightarrow> (int \<times> htab) option" where
  "update_contents hashp ty pagep page rpage oldfirst oldlast newfirst newlast =
     (if ty = HASH_DATA_PAGE
      then ffdb_update_key_pages_content hashp pagep page rpage oldfirst oldlast newfirst
      else if ty = HASH_BUCKET_PAGE
      then ffdb_update_data_pages_content hashp pagep page rpage newfirst newlast 0
      else Some (0, hashp))"

fun move_loop ::
    "htab \<Rightarrow> u32 \<Rightarrow> pgno \<Rightarrow> pgno \<Rightarrow> pgno \<Rightarrow> pgno \<Rightarrow> pgno \<Rightarrow> pgno \<Rightarrow> pgno \<Rightarrow> nat \<Rightarrow> (pgno \<times> htab) option" where
  "move_loop hashp ty oldfirst oldlast newfirst newlast dlast page rpage 0 = Some (dlast, hashp)"
| "move_loop hashp ty oldfirst oldlast newfirst newlast dlast page rpage (Suc n) = do {
     (mem, _, hashp1) \<leftarrow> ffdb_get_page hashp page HASH_RAW_PAGE 0;
     (case mem of
        None \<Rightarrow> Some (dlast, hashp1)
      | Some pagep \<Rightarrow> do {
          p \<leftarrow> page_at hashp1 pagep;
          if ucast (PTYPE p) \<noteq> ty then do {
            (_, hashp2) \<leftarrow> ffdb_put_page hashp1 pagep False;
            move_loop hashp2 ty oldfirst oldlast newfirst newlast dlast (page + 1) (rpage + 1) n
          } else do {
            let nextp = NEXT_PGNO p;
            let prevp = PREV_PGNO p;
            (ok, hashp2) \<leftarrow> (if nextp \<noteq> INVALID_PGNO
               then relink hashp1 pagep nextp set_NEXT_PGNO set_PREV_PGNO oldfirst oldlast newfirst rpage
               else Some (True, hashp1));
            let dlast1 = (if nextp = INVALID_PGNO \<and> ty = HASH_DATA_PAGE then rpage else dlast);
            if \<not> ok then Some (dlast1, hashp2)
            else do {
              (ok1, hashp3) \<leftarrow> (if prevp \<noteq> INVALID_PGNO
                 then relink hashp2 pagep prevp set_PREV_PGNO set_NEXT_PGNO oldfirst oldlast newfirst rpage
                 else Some (True, hashp2));
              if \<not> ok1 then Some (dlast1, hashp3)
              else do {
                (st, hashp4) \<leftarrow> update_contents (poke pagep (set_CURR_PGNO rpage) hashp3) ty pagep page rpage
                   oldfirst oldlast newfirst newlast;
                if st \<noteq> 0 then do {
                  (_, hashp5) \<leftarrow> ffdb_put_page hashp4 pagep False;
                  Some (dlast1, hashp5)
                } else do {
                  q \<leftarrow> page_at hashp4 pagep;
                  (_, pl) \<leftarrow> pagepool_change_page (mp hashp4) pagep (CURR_PGNO q);
                  move_loop (hashp4\<lparr>mp := pl\<rparr>) ty oldfirst oldlast newfirst newlast dlast1 (page + 1) (rpage + 1) n
                }
              }
            }
          }
        })
   }"

definition ffdb_move_pages :: "htab \<Rightarrow> u32 \<Rightarrow> pgno \<Rightarrow> pgno \<Rightarrow> pgno \<Rightarrow> pgno \<Rightarrow> (pgno \<times> htab) option" where
  "ffdb_move_pages hashp ty oldfirst oldlast newfirst newlast =
     move_loop hashp ty oldfirst oldlast newfirst newlast INVALID_PGNO oldfirst newfirst
       (unat (oldlast - oldfirst + 1))"

text \<open>Data pages first, then overflow pages, then pages of free page numbers.\<close>

definition move_all :: "htab \<Rightarrow> pgno \<Rightarrow> pgno \<Rightarrow> pgno \<Rightarrow> pgno \<Rightarrow> (pgno \<times> htab) option" where
  "move_all hashp oldfirst oldlast newfirst newlast = do {
     (lastd, hashp1) \<leftarrow> ffdb_move_pages hashp HASH_DATA_PAGE oldfirst oldlast newfirst newlast;
     (_, hashp2) \<leftarrow> ffdb_move_pages hashp1 HASH_BUCKET_PAGE oldfirst oldlast newfirst newlast;
     (_, hashp3) \<leftarrow> ffdb_move_pages hashp2 HASH_FREE_PAGE oldfirst oldlast newfirst newlast;
     Some (lastd, hashp3)
   }"

section \<open>On close and on open\<close>

text \<open>Which pages move where on close: \<open>(number, first old, last old, first new, last new)\<close>.\<close>

definition close_plan :: "hashhdr \<Rightarrow> (u32 \<times> pgno \<times> pgno \<times> pgno \<times> pgno) option" where
  "close_plan h = do {
     let num_unused = h_high_mask h - h_max_bucket h;
     funused \<leftarrow> BUCKET_TO_PAGE h (h_max_bucket h + 1);
     lunused \<leftarrow> BUCKET_TO_PAGE h (h_high_mask h);
     sp \<leftarrow> table_get (h_spares h) (h_ovfl_point h + 1);
     let dlast = sp - 1;
     if \<not> dlast > 0 \<or> \<not> dlast > lunused then None
     else do {
       let num_pages = dlast - lunused;
       let moved = (if num_pages < num_unused then num_pages else num_unused);
       Some (moved, dlast - moved + 1, dlast, funused, funused + moved - 1)
     }
   }"

definition ffdb_rearrage_pages_on_close :: "htab \<Rightarrow> (int \<times> htab) option" where
  "ffdb_rearrage_pages_on_close hashp =
     (if h_high_mask (hdr hashp) - h_max_bucket (hdr hashp) = 0 then Some (0, hashp)
      else do {
        (moved, dfirst, dlast, funused, lunused) \<leftarrow> close_plan (hdr hashp);
        (_, hashp1) \<leftarrow> move_all hashp dfirst dlast funused lunused;
        Some (0, hashp1\<lparr>hdr := (hdr hashp1)\<lparr>h_num_moved_pages := moved\<rparr>\<rparr>)
      })"

text \<open>Which pages move where on open.\<close>

definition open_plan :: "hashhdr \<Rightarrow> (pgno \<times> pgno \<times> pgno \<times> pgno) option" where
  "open_plan h = do {
     oldfirst \<leftarrow> BUCKET_TO_PAGE h (h_max_bucket h + 1);
     let oldlast = oldfirst + h_num_moved_pages h - 1;
     sp \<leftarrow> table_get (h_spares h) (h_ovfl_point h + 1);
     let newlast = sp - 1;
     Some (oldfirst, oldlast, newlast - h_num_moved_pages h + 1, newlast)
   }"

definition ffdb_rearrage_pages_on_open :: "htab \<Rightarrow> (int \<times> htab) option" where
  "ffdb_rearrage_pages_on_open hashp =
     (if h_num_moved_pages (hdr hashp) = 0 then Some (0, hashp)
      else if h_max_bucket (hdr hashp) = h_high_mask (hdr hashp) then Some (0, hashp)
      else do {
        (oldfirst, oldlast, newfirst, newlast) \<leftarrow> open_plan (hdr hashp);
        (lastd, hashp1) \<leftarrow> move_all hashp oldfirst oldlast newfirst newlast;
        hashp2 \<leftarrow> (if lastd = INVALID_PGNO then do {
            (dp, h2) \<leftarrow> ffdb_last_data_page hashp1 (newfirst - 1);
            Some (h2\<lparr>curr_dpage := dp\<rparr>)
          } else Some hashp1);
        hashp3 \<leftarrow> ffdb_remove_pages (hashp2\<lparr>hdr := (hdr hashp2)\<lparr>h_num_moved_pages := 0\<rparr>\<rparr>) oldfirst oldlast;
        Some (0, hashp3)
      })"

text \<open>\<open>ftruncate\<close>, and the last step of closing.\<close>

definition file_truncate :: "osfile \<Rightarrow> nat \<Rightarrow> osfile option" where
  "file_truncate f len =
     (if f_writable f \<and> len \<le> f_room f
      then Some (f\<lparr>f_data := take len (f_data f) @ replicate (len - length (f_data f)) 0\<rparr>) else None)"

definition ffdb_reduce_filesize :: "htab \<Rightarrow> htab option" where
  "ffdb_reduce_filesize hashp = do {
     sp \<leftarrow> table_get (h_spares (hdr hashp)) (h_ovfl_point (hdr hashp) + 1);
     let lastp = sp - 1 - h_num_moved_pages (hdr hashp);
     Some (if h_num_moved_pages (hdr hashp) > 0 then
       (case file_truncate (backing (mp hashp)) (bsz hashp * unat (lastp + 1)) of
          None \<Rightarrow> hashp
        | Some f \<Rightarrow> hashp\<lparr>mp := (mp hashp)\<lparr>backing := f\<rparr>\<rparr>)
     else hashp)
   }"

end
