(* ===== verification/FFDB_BucketPage.thy ===== *)
theory FFDB_BucketPage
  imports FFDB_Bucket
begin

text \<open>
  The format of bucket pages. A well-formed page has an index that does not run into the
  pairs, and every pair lies in the page. Seen as the list of its pairs, writing a pair that
  fits appends it, and the scan for a key finds the first pair with that key.
\<close>

section \<open>Well-formed pages\<close>

definition page_top :: "mem \<Rightarrow> nat" where
  "page_top p = unat (OFFSET p) + 1"

definition page_num :: "mem \<Rightarrow> nat" where
  "page_num p = unat (NUM_ENT p)"

definition entry_ok :: "nat \<Rightarrow> mem \<Rightarrow> nat \<Rightarrow> bool" where
  "entry_ok lo p i \<longleftrightarrow> lo \<le> DATAP p i \<and> DATAP p i + 16 \<le> unat (KEY_OFF p i) \<and>
     unat (KEY_OFF p i) + unat (KEY_LEN p i) \<le> length p"

text \<open>The data pointer of pair \<open>i\<close> does not reach into pair \<open>j\<close>.\<close>

definition entries_apart :: "mem \<Rightarrow> nat \<Rightarrow> nat \<Rightarrow> bool" where
  "entries_apart p i j \<longleftrightarrow> unat (KEY_OFF p j) + unat (KEY_LEN p j) \<le> DATAP p i \<or> DATAP p i + 16 \<le> DATAP p j"

definition bucket_wf :: "mem \<Rightarrow> bool" where
  "bucket_wf p \<longleftrightarrow> length p \<le> 2 ^ 20 \<and> pair_pos (page_num p) \<le> page_top p \<and>
     page_top p + 16 * page_num p \<le> length p \<and> (\<forall>i < page_num p. entry_ok (page_top p) p i) \<and>
     (\<forall>i < page_num p. \<forall>j < page_num p. i \<noteq> j \<longrightarrow> entries_apart p i j)"

definition page_pair :: "mem \<Rightarrow> nat \<Rightarrow> mem \<times> datap" where
  "page_pair p i = (mem_get p (unat (KEY_OFF p i)) (unat (KEY_LEN p i)), rd_datap p (DATAP p i))"

definition page_pairs :: "mem \<Rightarrow> (mem \<times> datap) list" where
  "page_pairs p = map (page_pair p) [0..<page_num p]"

section \<open>Arithmetic\<close>

lemma align_down: "unat (ALIGN_DATAP_OFFSET_VAL v) = unat v - unat v mod 4"
proof -
  have three: "(4 - 1 :: u32) = mask 2" by (simp add: mask_eq_exp_minus_1)
  have all: "ALIGN_DATAP_OFFSET_VAL v = push_bit 2 (drop_bit 2 v)"
  proof (cases "v AND mask 2 = 0")
    case True
    have "v = push_bit 2 (drop_bit 2 v)"
    proof (rule bit_word_eqI)
      fix n assume "n < LENGTH(32)"
      have "\<not> bit (v AND mask 2) n" using True by simp
      moreover have "Suc (Suc (n - 2)) = n" if "2 \<le> n" using that by simp
      ultimately show "bit v n \<longleftrightarrow> bit (push_bit 2 (drop_bit 2 v)) n"
        using \<open>n < LENGTH(32)\<close> by (auto simp: bit_simps)
    qed
    then show ?thesis using True by (simp only: ALIGN_DATAP_OFFSET_VAL_def three) simp
  next
    case False
    have "v AND NOT (mask 2) = push_bit 2 (drop_bit 2 v)"
    proof (rule bit_word_eqI)
      fix n assume "n < LENGTH(32)"
      moreover have "Suc (Suc (n - 2)) = n" if "2 \<le> n" using that by simp
      ultimately show "bit (v AND NOT (mask 2)) n \<longleftrightarrow> bit (push_bit 2 (drop_bit 2 v)) n"
        by (auto simp: bit_simps)
    qed
    then show ?thesis using False by (simp only: ALIGN_DATAP_OFFSET_VAL_def three) simp
  qed
  have le: "unat v div 4 * 4 \<le> unat v" by (rule div_times_less_eq_dividend)
  have "unat v < 2 ^ LENGTH(32)" by (rule unsigned_less)
  then have "unat v div 4 * 4 < 2 ^ 32" using le by simp
  then have "unat (push_bit 2 (drop_bit 2 v)) = unat v div 4 * 4"
    by (simp only: unsigned_push_bit_eq unsigned_drop_bit_eq push_bit_eq_mult drop_bit_eq_div)
       (simp add: take_bit_nat_eq_self mult.commute unat_word_ariths unat_div)
  then show ?thesis by (simp add: all minus_mod_eq_div_mult)
qed

lemma unat_ucast64 [simp]: "unat (ucast (x :: u32) :: 64 word) = unat x" "unat (ucast (y :: u16) :: 64 word) = unat y"
proof -
  have "unat x < 2 ^ LENGTH(32)" by (rule unsigned_less)
  then have "unat x < 2 ^ 64" by simp
  then show "unat (ucast x :: 64 word) = unat x" by (simp add: unsigned_ucast_eq take_bit_nat_eq_self)
  have "unat y < 2 ^ 64" by (rule less_trans [OF unat_u16_less]) simp
  then show "unat (ucast y :: 64 word) = unat y" by (simp add: unsigned_ucast_eq take_bit_nat_eq_self)
qed

lemma unat64_of_nat: "n < 2 ^ 64 \<Longrightarrow> unat (of_nat n :: 64 word) = n"
  by (simp add: unsigned_of_nat take_bit_nat_eq_self)

text \<open>On a well-formed page \<open>PAIRFITS\<close> is the comparison of the sizes as numbers.\<close>

lemma page_top_small: "bucket_wf p \<Longrightarrow> page_top p \<le> 2 ^ 20"
  by (simp add: bucket_wf_def)

lemma unat_top: "bucket_wf p \<Longrightarrow> unat (OFFSET p + 1) = page_top p"
  using page_top_small [of p] by (simp add: page_top_def unat_word_ariths)

lemma FREESPACE_nat:
  assumes "bucket_wf p"
  shows "unat (FREESPACE p) = page_top p - pair_pos (page_num p)"
proof -
  have wf: "pair_pos (page_num p) \<le> page_top p" "page_top p \<le> 2 ^ 20"
    using assms by (simp_all add: bucket_wf_def)
  let ?t = "ucast (OFFSET p + 1) :: 64 word"
  have t: "unat ?t = page_top p" using unat_top [OF assms] by simp
  have s1: "unat (?t - of_nat PAGE_OVERHEAD) = page_top p - 28"
    using wf t by (subst unat_sub) (simp_all add: word_le_nat_alt pair_pos_def ffdb_consts)
  have m: "unat (ucast (NUM_ENT p) * of_nat PAIR_OVERHEAD :: 64 word) = 12 * page_num p"
    using wf by (simp add: unat_word_ariths page_num_def pair_pos_def ffdb_consts)
  show ?thesis
    unfolding FREESPACE_def using wf s1 m
    by (subst unat_sub) (simp_all add: word_le_nat_alt pair_pos_def ffdb_consts)
qed

lemma PAIRFITS_nat:
  assumes "bucket_wf p" "k < 2 ^ 32"
  shows "PAIRFITS p k \<longleftrightarrow> k + 31 \<le> page_top p - pair_pos (page_num p)"
proof -
  have "PAIRSIZE k = of_nat (k + 31)" by (simp add: PAIRSIZE_def ffdb_consts)
  moreover have "k + 31 < 2 ^ 64" using assms(2) by simp
  ultimately have "unat (PAIRSIZE k) = k + 31" by (simp only: unat64_of_nat)
  then show ?thesis using FREESPACE_nat [OF assms(1)] by (simp add: PAIRFITS_def word_le_nat_alt)
qed

section \<open>Writing a pair\<close>

text \<open>The places a pair of \<open>k\<close> bytes takes on a page where it fits.\<close>

lemma pair_places:
  assumes wf: "bucket_wf p" and fits: "PAIRFITS p k" and k: "k < 2 ^ 32"
  defines "off \<equiv> OFFSET p - of_nat k + 1"
  defines "soff \<equiv> off - of_nat SIZEOF_DATAP"
  defines "aoff \<equiv> ALIGN_DATAP_OFFSET_VAL soff"
  shows "unat off = page_top p - k" "k \<le> page_top p" "unat (of_nat k :: u32) = k"
    "unat aoff + 16 + unat (soff - aoff) = page_top p - k" "pair_pos (Suc (page_num p)) \<le> unat aoff"
    "unat soff - unat aoff < 4"
proof -
  have f: "k + 31 \<le> page_top p - pair_pos (page_num p)" using fits PAIRFITS_nat [OF wf k] by simp
  have top: "page_top p \<le> 2 ^ 20" using wf by (simp add: bucket_wf_def)
  show le: "k \<le> page_top p" using f by linarith
  show uk: "unat (of_nat k :: u32) = k" using k by (simp add: unsigned_of_nat take_bit_nat_eq_self)
  have off: "off = (OFFSET p + 1) - of_nat k" by (simp add: off_def)
  show uoff: "unat off = page_top p - k"
    unfolding off using unat_top [OF wf] le uk by (subst unat_sub) (simp_all add: word_le_nat_alt)
  have us: "unat soff = page_top p - k - 16"
    unfolding soff_def using uoff f by (subst unat_sub) (simp_all add: word_le_nat_alt ffdb_consts)
  have ua: "unat aoff = unat soff - unat soff mod 4" by (simp add: aoff_def align_down)
  have "unat soff mod 4 < 4" by simp
  then show "unat soff - unat aoff < 4" using ua by linarith
  have "aoff \<le> soff" using ua by (simp add: word_le_nat_alt)
  then have "unat (soff - aoff) = unat soff - unat aoff" by (simp add: unat_sub)
  then show "unat aoff + 16 + unat (soff - aoff) = page_top p - k" using us ua f by (simp add: pair_pos_def)
  show "pair_pos (Suc (page_num p)) \<le> unat aoff"
    using ua us f \<open>unat soff mod 4 < 4\<close> by (simp add: pair_pos_def ffdb_consts)
qed

text \<open>The page after the pair was written, as one composition of stores.\<close>

definition pair_written :: "mem \<Rightarrow> dbt \<Rightarrow> datap \<Rightarrow> u32 \<Rightarrow> u32 \<Rightarrow> mem" where
  "pair_written p key d off aoff =
     (let n = page_num p;
          p1 = mem_put p (unat off) (dbt_bytes key);
          p2 = wr32 (wr32 p1 (pair_pos n) off) (pair_pos n + 4) (of_nat (dt_size key));
          p3 = mem_put p2 (unat aoff + 16) (replicate (unat (off - 16 - aoff)) 0);
          p4 = mem_put p3 (unat aoff) (datap_bytes d)
      in wr32 (wr16 (wr32 p4 (pair_pos n + 8) aoff) 16 (NUM_ENT p + 1)) 24 (aoff - 1))"

lemma length_datap_bytes [simp]: "length (datap_bytes d) = 16"
  by (simp add: datap_bytes_def)

lemma write_pair_eq:
  assumes wf: "bucket_wf p" and fits: "PAIRFITS p (dt_size key)" and k: "dt_size key < 2 ^ 32" and ok: "dbt_ok key"
  shows "\<exists>p1 p2 off aoff. write_key p key = Some (p1, aoff) \<and> write_datap p1 (NUM_ENT p) aoff d = Some p2 \<and>
    commit_pair (NUM_ENT p) aoff p2 = pair_written p key d off aoff \<and> off = OFFSET p - of_nat (dt_size key) + 1 \<and>
    aoff = ALIGN_DATAP_OFFSET_VAL (off - of_nat SIZEOF_DATAP)"
proof -
  define off where "off = OFFSET p - of_nat (dt_size key) + 1"
  define soff where "soff = off - of_nat SIZEOF_DATAP"
  define aoff where "aoff = ALIGN_DATAP_OFFSET_VAL soff"
  note P = pair_places [OF wf fits k, folded off_def, folded soff_def, folded aoff_def]
  have top: "page_top p \<le> length p" using wf by (simp add: bucket_wf_def)
  have bytes: "mem_read (dt_data key) 0 (dt_size key) = Some (dbt_bytes key)" "length (dbt_bytes key) = dt_size key"
    using ok by (simp_all add: dbt_ok_def dbt_bytes_def mem_get_def)
  let ?p1 = "mem_put p (unat off) (dbt_bytes key)"
  let ?p2 = "set_KEY_LEN (page_num p) (of_nat (dt_size key)) (set_KEY_OFF (page_num p) off ?p1)"
  let ?p3 = "mem_put ?p2 (unat aoff + 16) (replicate (unat (soff - aoff)) 0)"
  have len2: "length ?p2 = length p" by (simp add: set_KEY_LEN_def set_KEY_OFF_def)
  have w1: "mem_write p (unat off) (dbt_bytes key) = Some ?p1"
    using P top bytes by simp
  have w3: "(if aoff \<noteq> soff then mem_write ?p2 (unat aoff + SIZEOF_DATAP) (replicate (unat (soff - aoff)) 0)
      else Some ?p2) = Some ?p3"
  proof (cases "aoff = soff")
    case True
    then show ?thesis using P(4) top len2 by (simp add: mem_put_def)
  next
    case False
    then show ?thesis using P(4) top len2 by (simp add: SIZEOF_DATAP_def)
  qed
  have wk: "write_key p key = Some (?p3, aoff)"
    using bytes w1 w3 [unfolded page_num_def] P(3)
    by (cases "aoff = soff")
       (simp_all add: write_key_def off_def [symmetric] soff_def [symmetric] aoff_def [symmetric] Let_def page_num_def)
  have w4: "mem_write ?p3 (unat aoff) (datap_bytes d) = Some (mem_put ?p3 (unat aoff) (datap_bytes d))"
    using P(4) top len2 by simp
  have s16: "soff - aoff = off - 16 - aoff" by (simp add: soff_def SIZEOF_DATAP_def)
  show ?thesis
    by (intro exI conjI, rule wk)
       (simp add: write_datap_def w4, simp add: commit_pair_def pair_written_def Let_def set_KEY_LEN_def
          set_KEY_OFF_def set_DATAP_OFF_def set_NUM_ENT_def set_OFFSET_def page_num_def s16,
        simp_all add: off_def aoff_def soff_def)
qed

lemma rd_datap_get: "off + 16 \<le> length p \<Longrightarrow> rd_datap p off = rd_datap (mem_get p off 16) 0"
  by (simp add: rd_datap_def rd32_def mem_get_def drop_take min_def add.commute)

lemma rd_datap_bytes: "rd_datap (datap_bytes d) 0 = d"
  by (rule datap.equality) (simp_all add: rd_datap_def datap_bytes_def rd32_def mem_get_def)


text \<open>
  What can be read from the page afterwards: the old pairs and the fields of the header are
  untouched, the new pair is at the end of the index.
\<close>

lemma u16_inc: "unat (x :: u16) + 1 < 65536 \<Longrightarrow> unat (x + 1) = unat x + 1"
  by (simp add: unat_word_ariths)

lemma pair_written_reads:
  fixes p :: mem and key :: dbt and d :: datap
  assumes wf: "bucket_wf p" and fits: "PAIRFITS p (dt_size key)" and k: "dt_size key < 2 ^ 32" and ok: "dbt_ok key"
  defines "off \<equiv> OFFSET p - of_nat (dt_size key) + 1"
  defines "aoff \<equiv> ALIGN_DATAP_OFFSET_VAL (off - of_nat SIZEOF_DATAP)"
  defines "q \<equiv> pair_written p key d off aoff"
  shows "length q = length p" "page_num q = Suc (page_num p)" "page_top q = unat aoff"
    "rd32 q (pair_pos (page_num p)) = off" "rd32 q (pair_pos (page_num p) + 4) = of_nat (dt_size key)"
    "rd32 q (pair_pos (page_num p) + 8) = aoff"
    "\<And>a. a + 4 \<le> 16 \<or> 18 \<le> a \<and> a + 4 \<le> 24 \<or> 28 \<le> a \<and> a + 4 \<le> pair_pos (page_num p) \<Longrightarrow> rd32 q a = rd32 p a"
    "rd16 q 18 = rd16 p 18"
    "\<And>a n. page_top p \<le> a \<Longrightarrow> mem_get q a n = mem_get p a n"
    "mem_get q (unat off) (dt_size key) = dbt_bytes key" "mem_get q (unat aoff) 16 = datap_bytes d"
proof -
  note P = pair_places [OF wf fits k, folded off_def, folded aoff_def]
  let ?n = "page_num p"
  have W: "pair_pos ?n \<le> page_top p" "page_top p + 16 * ?n \<le> length p" "length p \<le> 2 ^ 20"
    using wf by (simp_all add: bucket_wf_def)
  have kb: "length (dbt_bytes key) = dt_size key" using ok by (simp add: dbt_ok_def dbt_bytes_def)
  define z where "z = unat (off - 16 - aoff)"
  have z: "unat aoff + 16 + z = page_top p - dt_size key" using P(4) by (simp add: z_def SIZEOF_DATAP_def)
  define p1 where "p1 = mem_put p (unat off) (dbt_bytes key)"
  define p2 where "p2 = wr32 (wr32 p1 (pair_pos ?n) off) (pair_pos ?n + 4) (of_nat (dt_size key))"
  define p3 where "p3 = mem_put p2 (unat aoff + 16) (replicate z 0)"
  define p4 where "p4 = mem_put p3 (unat aoff) (datap_bytes d)"
  have q: "q = wr32 (wr16 (wr32 p4 (pair_pos ?n + 8) aoff) 16 (NUM_ENT p + 1)) 24 (aoff - 1)"
    by (simp add: q_def pair_written_def Let_def p1_def p2_def p3_def p4_def z_def)
  have len: "length p1 = length p" "length p2 = length p" "length p3 = length p" "length p4 = length p"
    by (simp_all add: p1_def p2_def p3_def p4_def)
  then show "length q = length p" by (simp add: q)
  have pos: "28 \<le> pair_pos ?n" "pair_pos ?n + 12 \<le> unat aoff"
    using P(5) by (simp_all add: pair_pos_def ffdb_consts)
  have fin: "unat aoff + 16 \<le> unat off" "unat off + dt_size key = page_top p" "unat off + dt_size key \<le> length p"
    "unat aoff + 16 + z \<le> unat off" "pair_pos ?n + 12 \<le> length p" "28 \<le> length p"
    using z P(1,2) W pos by linarith+
  show "page_num q = Suc ?n"
  proof -
    have "12 * ?n + 28 + 16 * ?n \<le> 2 ^ 20" using W by (simp add: pair_pos_def ffdb_consts)
    then have "unat (NUM_ENT p) + 1 < 65536" by (simp add: page_num_def)
    then show ?thesis
      using len fin by (simp add: page_num_def q NUM_ENT_def [of q] NUM_ENT_def [of "wr32 m b c" for m b c] u16_inc)
  qed
  have "aoff \<noteq> 0" using pos by auto
  then show "page_top q = unat aoff"
    using len fin by (simp add: page_top_def OFFSET_def q unat_minus_one unat_gt_0)
  have low: "rd32 p4 a = rd32 p2 a" "rd32 p2 a = (if a = pair_pos ?n then off else if a = pair_pos ?n + 4
      then of_nat (dt_size key) else rd32 p a)"
    if "a + 4 \<le> pair_pos ?n \<or> a = pair_pos ?n \<or> a = pair_pos ?n + 4" for a
  proof -
    have a: "a + 4 \<le> unat aoff" "a + 4 \<le> unat aoff + 16" "a + 4 \<le> unat off" using that pos fin by auto
    then show "rd32 p4 a = rd32 p2 a" by (simp add: p4_def p3_def)
    have "rd32 p1 a = rd32 p a" using a by (simp add: p1_def)
    then show "rd32 p2 a = (if a = pair_pos ?n then off else if a = pair_pos ?n + 4
      then of_nat (dt_size key) else rd32 p a)"
      using that len fin by (auto simp: p2_def)
  qed
  have outer: "rd32 q a = rd32 p4 a" if "a + 4 \<le> pair_pos ?n + 8" "a + 4 \<le> 16 \<or> 18 \<le> a" "a + 4 \<le> 24 \<or> 28 \<le> a" for a
    using that by (simp add: q)
  show "rd32 q (pair_pos ?n) = off" "rd32 q (pair_pos ?n + 4) = of_nat (dt_size key)"
    using low [of "pair_pos ?n"] low [of "pair_pos ?n + 4"] outer [of "pair_pos ?n"] outer [of "pair_pos ?n + 4"] pos
    by simp_all
  have "pair_pos ?n + 8 + 4 \<le> length p4" "18 \<le> pair_pos ?n + 8" "28 \<le> pair_pos ?n + 8" using len fin pos by simp_all
  then show "rd32 q (pair_pos ?n + 8) = aoff" by (simp add: q)
  show "rd32 q a = rd32 p a"
    if "a + 4 \<le> 16 \<or> 18 \<le> a \<and> a + 4 \<le> 24 \<or> 28 \<le> a \<and> a + 4 \<le> pair_pos ?n" for a
  proof -
    have "a + 4 \<le> pair_pos ?n" "a \<noteq> pair_pos ?n" "a \<noteq> pair_pos ?n + 4" using that pos by auto
    then show ?thesis using low [of a] outer [of a] that by auto
  qed
  have "(18::nat) + 2 \<le> unat aoff" "(18::nat) + 2 \<le> unat aoff + 16" "(18::nat) + 2 \<le> unat off"
    "(18::nat) + 2 \<le> pair_pos ?n" "(18::nat) + 2 \<le> pair_pos ?n + 4" "(18::nat) + 2 \<le> pair_pos ?n + 8"
    using pos fin by linarith+
  then show "rd16 q 18 = rd16 p 18" by (simp add: q p4_def p3_def p2_def p1_def)
  have high: "mem_get q a n = mem_get p4 a n" if "pair_pos ?n + 12 \<le> a" for a n
    using that pos by (simp add: q)
  show "mem_get q a n = mem_get p a n" if "page_top p \<le> a" for a n
  proof -
    have "pair_pos ?n + 12 \<le> a" "unat aoff + 16 + z \<le> a" "unat off + dt_size key \<le> a" using that fin pos by linarith+
    then show ?thesis
      using high [of a n] by (simp add: p4_def p3_def p2_def p1_def mem_get_put_disjoint kb)
  qed
  have "pair_pos ?n + 12 \<le> unat off" using pos fin by linarith
  then show "mem_get q (unat off) (dt_size key) = dbt_bytes key"
    using fin high [of "unat off" "dt_size key"] kb
    by (simp add: p4_def p3_def p2_def p1_def mem_get_put_disjoint)
  show "mem_get q (unat aoff) 16 = datap_bytes d"
    using pos high [of "unat aoff" 16] fin len by (simp add: p4_def)
qed

lemma page_pair_cong:
  assumes "length q = length p" "\<And>a. 28 \<le> a \<Longrightarrow> a + 4 \<le> pair_pos m \<Longrightarrow> rd32 q a = rd32 p a" "i < m"
  shows "KEY_OFF q i = KEY_OFF p i" "KEY_LEN q i = KEY_LEN p i" "DATAP_OFF q i = DATAP_OFF p i" "DATAP q i = DATAP p i"
proof -
  have "28 \<le> pair_pos i" "pair_pos i + 12 \<le> pair_pos m"
    using assms(3) by (simp_all add: pair_pos_def ffdb_consts)
  then show "KEY_OFF q i = KEY_OFF p i" "KEY_LEN q i = KEY_LEN p i" "DATAP_OFF q i = DATAP_OFF p i"
    "DATAP q i = DATAP p i"
    by (simp_all add: KEY_OFF_def KEY_LEN_def DATAP_OFF_def DATAP_def assms(2))
qed

lemma write_pair_aux:
  assumes "bucket_wf p" "PAIRFITS p (dt_size key)" "dt_size key < 2 ^ 32" "dbt_ok key"
  shows "\<exists>p1 p2 off. write_key p key = Some (p1, off) \<and> write_datap p1 (NUM_ENT p) off d = Some p2 \<and>
    (let q = commit_pair (NUM_ENT p) off p2
     in bucket_wf q \<and> length q = length p \<and> page_pairs q = page_pairs p @ [(dbt_bytes key, d)] \<and>
        CURR_PGNO q = CURR_PGNO p \<and> PREV_PGNO q = PREV_PGNO p \<and> NEXT_PGNO q = NEXT_PGNO p \<and>
        PAGE_SIGN q = PAGE_SIGN p \<and> PTYPE q = PTYPE p)"
proof -
  obtain p1 p2 off aoff where w: "write_key p key = Some (p1, aoff)" "write_datap p1 (NUM_ENT p) aoff d = Some p2"
    "commit_pair (NUM_ENT p) aoff p2 = pair_written p key d off aoff"
    "off = OFFSET p - of_nat (dt_size key) + 1" "aoff = ALIGN_DATAP_OFFSET_VAL (off - of_nat SIZEOF_DATAP)"
    using write_pair_eq [OF assms] by blast
  note R = pair_written_reads [OF assms, where d = d, folded w(4), folded w(5)]
  note P = pair_places [OF assms(1-3), folded w(4), folded w(5)]
  let ?q = "pair_written p key d off aoff" and ?n = "page_num p"
  have W: "page_top p + 16 * ?n \<le> length p" "length p \<le> 2 ^ 20" "\<forall>i < ?n. entry_ok (page_top p) p i"
    using assms(1) by (simp_all add: bucket_wf_def)
  have new: "KEY_OFF ?q ?n = off" "KEY_LEN ?q ?n = of_nat (dt_size key)" "DATAP_OFF ?q ?n = aoff" "DATAP ?q ?n = unat aoff"
    using R(4-6) by (simp_all add: KEY_OFF_def KEY_LEN_def DATAP_OFF_def DATAP_def)
  note old = page_pair_cong [OF R(1), of "?n"]
  have old': "KEY_OFF ?q i = KEY_OFF p i" "KEY_LEN ?q i = KEY_LEN p i" "DATAP ?q i = DATAP p i" if "i < ?n" for i
    using old [OF _ that] R(7) by simp_all
  have entry: "entry_ok (unat aoff) ?q i" if "i < Suc ?n" for i
  proof (cases "i = ?n")
    case True
    then show ?thesis using new P(1-4) W R(1) by (simp add: entry_ok_def)
  next
    case False
    then have i: "i < ?n" using that by simp
    then have "entry_ok (page_top p) p i" using W by simp
    moreover have "unat aoff \<le> page_top p" using P(4) by linarith
    ultimately show ?thesis using old' [OF i] R(1) by (simp add: entry_ok_def)
  qed
  have apart: "entries_apart ?q i j" if ij: "i < Suc ?n" "j < Suc ?n" "i \<noteq> j" for i j
  proof -
    have low: "unat aoff + 16 \<le> page_top p" "unat off + dt_size key = page_top p" using P(1,2,4) by linarith+
    have e: "entry_ok (page_top p) p i" if "i < ?n" for i using W that by simp
    consider "i < ?n" "j < ?n" | "i = ?n" "j < ?n" | "i < ?n" "j = ?n" using ij by linarith
    then show ?thesis
    proof cases
      case 1
      then have "entries_apart p i j" using assms(1) ij(3) by (simp add: bucket_wf_def)
      then show ?thesis using old' 1 by (simp add: entries_apart_def)
    next
      case 2
      then show ?thesis using e [of j] old' [of j] new low by (simp add: entries_apart_def entry_ok_def)
    next
      case 3
      then show ?thesis using e [of i] old' [of i] new low P(3) by (simp add: entries_apart_def entry_ok_def)
    qed
  qed
  have wf: "bucket_wf ?q"
    using entry apart R(1-3) P(4,5) W by (simp add: bucket_wf_def)
  have pair: "page_pair ?q i = page_pair p i" if i: "i < ?n" for i
  proof -
    have e: "page_top p \<le> DATAP p i" "DATAP p i + 16 \<le> length p" "page_top p \<le> unat (KEY_OFF p i)"
      using W i by (auto simp: entry_ok_def)
    have "rd_datap ?q (DATAP p i) = rd_datap p (DATAP p i)"
      using rd_datap_get [of "DATAP p i" ?q] rd_datap_get [of "DATAP p i" p] e R(9) [OF e(1)] R(1) by simp
    then show ?thesis using R(9) [OF e(3)] old' [OF i] by (simp add: page_pair_def)
  qed
  have newpair: "page_pair ?q ?n = (dbt_bytes key, d)"
  proof -
    have "rd_datap ?q (unat aoff) = d"
      using rd_datap_get [of "unat aoff" ?q] R(1,11) P(4) W by (simp add: rd_datap_bytes)
    then show ?thesis using new R(10) P(3) by (simp add: page_pair_def)
  qed
  have "page_pairs ?q = page_pairs p @ [(dbt_bytes key, d)]"
    using pair newpair by (simp add: page_pairs_def R(2))
  moreover have "CURR_PGNO ?q = CURR_PGNO p" "PREV_PGNO ?q = PREV_PGNO p" "NEXT_PGNO ?q = NEXT_PGNO p"
    "PAGE_SIGN ?q = PAGE_SIGN p" "PTYPE ?q = PTYPE p"
    using R(7,8) by (simp_all add: CURR_PGNO_def PREV_PGNO_def NEXT_PGNO_def PAGE_SIGN_def PTYPE_def)
  ultimately show ?thesis
    using w(1,2) wf R(1) by (intro exI [of _ p1] exI [of _ p2] exI [of _ aoff]) (simp add: w(3))
qed

text \<open>Another data pointer in the place of one: only that pair changes.\<close>

lemma overwrite_datap:
  fixes p :: mem and d :: datap and i :: nat
  assumes wf: "bucket_wf p" and i: "i < page_num p"
  defines "q \<equiv> mem_put p (DATAP p i) (datap_bytes d)"
  shows "mem_write p (DATAP p i) (datap_bytes d) = Some q" "length q = length p" "bucket_wf q" "page_num q = page_num p"
    "page_pairs q = (page_pairs p)[i := (fst (page_pair p i), d)]" "OFFSET q = OFFSET p"
    "CURR_PGNO q = CURR_PGNO p" "PREV_PGNO q = PREV_PGNO p" "NEXT_PGNO q = NEXT_PGNO p" "PAGE_SIGN q = PAGE_SIGN p"
    "PTYPE q = PTYPE p" "NUM_ENT q = NUM_ENT p"
proof -
  have W: "pair_pos (page_num p) \<le> page_top p" "page_top p + 16 * page_num p \<le> length p" "length p \<le> 2 ^ 20"
    "\<And>j. j < page_num p \<Longrightarrow> entry_ok (page_top p) p j" "\<And>j. j < page_num p \<Longrightarrow> i \<noteq> j \<Longrightarrow> entries_apart p i j"
    using wf i by (simp_all add: bucket_wf_def)
  have e: "page_top p \<le> DATAP p i" "DATAP p i + 16 \<le> unat (KEY_OFF p i)" "DATAP p i + 16 \<le> length p" "28 \<le> DATAP p i"
    using W(4) [OF i] W(1) by (simp_all add: entry_ok_def pair_pos_def ffdb_consts)
  show w: "mem_write p (DATAP p i) (datap_bytes d) = Some q" using e by (simp add: q_def)
  show len: "length q = length p" by (simp add: q_def)
  have rd: "rd32 q a = rd32 p a" "rd16 q a = rd16 p a" if "a + 4 \<le> DATAP p i" for a using that by (simp_all add: q_def)
  have hdr: "OFFSET q = OFFSET p" "NUM_ENT q = NUM_ENT p" using rd e by (simp_all add: OFFSET_def NUM_ENT_def)
  show "OFFSET q = OFFSET p" "NUM_ENT q = NUM_ENT p" by (rule hdr)+
  show "CURR_PGNO q = CURR_PGNO p" "PREV_PGNO q = PREV_PGNO p" "NEXT_PGNO q = NEXT_PGNO p" "PAGE_SIGN q = PAGE_SIGN p"
    "PTYPE q = PTYPE p"
    using rd e by (simp_all add: CURR_PGNO_def PREV_PGNO_def NEXT_PGNO_def PAGE_SIGN_def PTYPE_def)
  show num: "page_num q = page_num p" by (simp add: page_num_def hdr)
  have top: "page_top q = page_top p" by (simp add: page_top_def hdr)
  have old: "KEY_OFF q j = KEY_OFF p j" "KEY_LEN q j = KEY_LEN p j" "DATAP q j = DATAP p j" if "j < page_num p" for j
    using page_pair_cong [OF len, of "page_num p" j] that rd W(1) e(1) by auto
  show "bucket_wf q"
    using wf old by (simp add: bucket_wf_def num top len entry_ok_def entries_apart_def)
  have pair: "page_pair q j = page_pair p j" if j: "j < page_num p" "i \<noteq> j" for j
  proof -
    have ej: "DATAP p j + 16 \<le> unat (KEY_OFF p j)" "unat (KEY_OFF p j) + unat (KEY_LEN p j) \<le> length p"
      using W(4) [OF j(1)] by (simp_all add: entry_ok_def)
    have "mem_get q (DATAP p j) 16 = mem_get p (DATAP p j) 16"
      "mem_get q (unat (KEY_OFF p j)) (unat (KEY_LEN p j)) = mem_get p (unat (KEY_OFF p j)) (unat (KEY_LEN p j))"
      using W(5) [OF j] ej unfolding q_def entries_apart_def by (auto intro!: mem_get_put_disjoint)
    then show ?thesis
      using rd_datap_get [of "DATAP p j" q] rd_datap_get [of "DATAP p j" p] ej len old [OF j(1)] by (simp add: page_pair_def)
  qed
  have "page_pair q i = (fst (page_pair p i), d)"
  proof -
    have "mem_get q (DATAP p i) 16 = datap_bytes d" using e mem_get_put_same [of "DATAP p i" "datap_bytes d" p] by (simp add: q_def)
    then have "rd_datap q (DATAP p i) = d"
      using rd_datap_get [of "DATAP p i" q] e len by (simp add: rd_datap_bytes)
    moreover have "mem_get q (unat (KEY_OFF p i)) (unat (KEY_LEN p i)) = mem_get p (unat (KEY_OFF p i)) (unat (KEY_LEN p i))"
      using e unfolding q_def by (auto intro!: mem_get_put_disjoint)
    ultimately show ?thesis using old [OF i] by (simp add: page_pair_def)
  qed
  then show "page_pairs q = (page_pairs p)[i := (fst (page_pair p i), d)]"
    using pair num i by (intro nth_equalityI) (auto simp add: page_pairs_def nth_list_update)
qed

text \<open>C14: Writing a pair on a bucket page. On a well-formed page where \<open>PAIRFITS\<close> holds, the
  key and the data pointer are written within the page, the page stays well-formed, its
  pairs are the old ones and the new one after them, and the links, the type and the
  signature of the page are not changed.\<close>
theorem write_pair_appends:
  assumes "bucket_wf p" "PAIRFITS p (dt_size key)" "dt_size key < 2 ^ 32" "dbt_ok key"
  shows "\<exists>p1 p2 off. write_key p key = Some (p1, off) \<and> write_datap p1 (NUM_ENT p) off d = Some p2 \<and>
    (let q = commit_pair (NUM_ENT p) off p2
     in bucket_wf q \<and> length q = length p \<and> page_pairs q = page_pairs p @ [(dbt_bytes key, d)] \<and>
        CURR_PGNO q = CURR_PGNO p \<and> PREV_PGNO q = PREV_PGNO p \<and> NEXT_PGNO q = NEXT_PGNO p \<and>
        PAGE_SIGN q = PAGE_SIGN p \<and> PTYPE q = PTYPE p)"
  by (rule write_pair_aux [OF assms])

section \<open>Looking up\<close>

text \<open>What the scan needs of the comparison function: it is 0 exactly on equal keys.\<close>

locale key_equality =
  fixes cmp :: "dbt \<Rightarrow> dbt \<Rightarrow> int" and small :: nat
  assumes cmp_eq: "dbt_ok a \<Longrightarrow> dbt_ok b \<Longrightarrow> dt_size a < small \<Longrightarrow> dt_size b < small \<Longrightarrow>
    cmp a b = 0 \<longleftrightarrow> dbt_bytes a = dbt_bytes b"
begin

lemma scan_finds:
  assumes "dbt_ok key" "dt_size key < small"
    and "\<And>j. j < i + n \<Longrightarrow> \<exists>k. page_key p j = Some k \<and> dbt_ok k \<and> dt_size k < small \<and> dbt_bytes k = f j"
  shows "\<exists>r found. scan_keys cmp key p i n = Some (r, found) \<and> i \<le> r \<and> r \<le> i + n \<and>
    (found \<longleftrightarrow> r < i + n) \<and> (found \<longrightarrow> f r = dbt_bytes key) \<and> (\<forall>j. i \<le> j \<and> j < r \<longrightarrow> f j \<noteq> dbt_bytes key)"
  using assms(3)
proof (induction n arbitrary: i)
  case 0
  show ?case by auto
next
  case (Suc n)
  obtain k where k: "page_key p i = Some k" "dbt_ok k" "dt_size k < small" "dbt_bytes k = f i"
    using Suc.prems [of i] by auto
  have eq: "cmp key k = 0 \<longleftrightarrow> dbt_bytes key = f i"
    using cmp_eq [OF assms(1) k(2) assms(2) k(3)] k(4) by simp
  show ?case
  proof (cases "dbt_bytes key = f i")
    case True
    then show ?thesis using k(1) eq by auto
  next
    case False
    obtain r found where r: "scan_keys cmp key p (Suc i) n = Some (r, found)" "Suc i \<le> r" "r \<le> Suc i + n"
      "found \<longleftrightarrow> r < Suc i + n" "found \<longrightarrow> f r = dbt_bytes key" "\<forall>j. Suc i \<le> j \<and> j < r \<longrightarrow> f j \<noteq> dbt_bytes key"
      using Suc.IH [of "Suc i"] Suc.prems by auto
    have "f j \<noteq> dbt_bytes key" if "i \<le> j" "j < r" for j
      using r(6) that False by (cases "j = i") auto
    then show ?thesis using r k(1) eq False by auto
  qed
qed

end

interpretation hamcmp: key_equality ham_defcmp "2 ^ 31"
  by unfold_locales (rule ham_defcmp_zero_iff)

definition page_keys :: "mem \<Rightarrow> mem list" where
  "page_keys p = map fst (page_pairs p)"

lemma page_key_wf:
  assumes "bucket_wf p" "i < page_num p"
  shows "\<exists>k. page_key p i = Some k \<and> dbt_ok k \<and> dt_size k < 2 ^ 31 \<and> dbt_bytes k = fst (page_pair p i)"
proof -
  have e: "unat (KEY_OFF p i) + unat (KEY_LEN p i) \<le> length p" "length p \<le> 2 ^ 20"
    using assms by (auto simp: bucket_wf_def entry_ok_def)
  then show ?thesis
    by (simp add: page_key_def dbt_ok_def dbt_bytes_def KEY_def page_pair_def mem_get_def)
qed

lemma nth_page_pairs: "i < page_num p \<Longrightarrow> page_pairs p ! i = page_pair p i"
  by (simp add: page_pairs_def)

lemma length_page_pairs [simp]: "length (page_pairs p) = page_num p"
  by (simp add: page_pairs_def)

lemma scan_page_aux:
  assumes "bucket_wf p" "dbt_ok key" "dt_size key < 2 ^ 31"
  shows "\<exists>i found. scan_keys ham_defcmp key p 0 (unat (NUM_ENT p)) = Some (i, found) \<and>
    (found \<longleftrightarrow> dbt_bytes key \<in> set (page_keys p)) \<and>
    (if found then i < page_num p \<and> page_keys p ! i = dbt_bytes key \<and> (\<forall>j < i. page_keys p ! j \<noteq> dbt_bytes key)
     else i = page_num p)"
proof -
  obtain r found where r: "scan_keys ham_defcmp key p 0 (page_num p) = Some (r, found)" "r \<le> page_num p"
    "found \<longleftrightarrow> r < page_num p" "found \<longrightarrow> fst (page_pair p r) = dbt_bytes key"
    "\<forall>j < r. fst (page_pair p j) \<noteq> dbt_bytes key"
    using hamcmp.scan_finds [OF assms(2,3), of 0 "page_num p" p "\<lambda>j. fst (page_pair p j)"] page_key_wf [OF assms(1)]
    by auto
  have nth: "page_keys p ! j = fst (page_pair p j)" if "j < page_num p" for j
    using that by (simp add: page_keys_def nth_page_pairs)
  have "dbt_bytes key \<in> set (page_keys p) \<longleftrightarrow> (\<exists>j < page_num p. fst (page_pair p j) = dbt_bytes key)"
    by (auto simp: page_keys_def page_pairs_def intro: rev_image_eqI)
  then have "found \<longleftrightarrow> dbt_bytes key \<in> set (page_keys p)"
    using r(2-5) by (metis le_neq_implies_less)
  then show ?thesis
    using r nth by (intro exI [of _ r] exI [of _ found]) (auto simp: page_num_def)
qed

lemma find_upt:
  "find P [0..<n] = Some i \<longleftrightarrow> i < n \<and> P i \<and> (\<forall>j < i. \<not> P j)"
  "find P [0..<n] = None \<longleftrightarrow> (\<forall>j < n. \<not> P j)"
  by (auto simp: find_Some_iff find_None_iff) 

text \<open>The scan as an equation.\<close>

lemma scan_page_find:
  assumes "bucket_wf p" "dbt_ok key" "dt_size key < 2 ^ 31"
  shows "scan_keys ham_defcmp key p 0 (unat (NUM_ENT p)) =
    Some (case find (\<lambda>i. page_keys p ! i = dbt_bytes key) [0..<page_num p] of
      Some i \<Rightarrow> (i, True) | None \<Rightarrow> (page_num p, False))"
proof -
  obtain i found where s: "scan_keys ham_defcmp key p 0 (unat (NUM_ENT p)) = Some (i, found)"
    "found \<longleftrightarrow> dbt_bytes key \<in> set (page_keys p)"
    "if found then i < page_num p \<and> page_keys p ! i = dbt_bytes key \<and> (\<forall>j < i. page_keys p ! j \<noteq> dbt_bytes key)
     else i = page_num p"
    using scan_page_aux [OF assms] by blast
  show ?thesis
  proof (cases found)
    case True
    then have "find (\<lambda>i. page_keys p ! i = dbt_bytes key) [0..<page_num p] = Some i"
      using s(3) by (simp add: find_upt)
    then show ?thesis using s(1) True by simp
  next
    case False
    have "length (page_keys p) = page_num p" by (simp add: page_keys_def)
    then have "page_keys p ! j \<noteq> dbt_bytes key" if "j < page_num p" for j
      using False s(2) nth_mem [of j "page_keys p"] that by metis
    then have "find (\<lambda>i. page_keys p ! i = dbt_bytes key) [0..<page_num p] = None"
      by (simp add: find_upt)
    then show ?thesis using s(1,3) False by simp
  qed
qed

text \<open>The scan of a bucket page with the default comparison. On a well-formed page it
  returns without leaving the page; it finds a key exactly if a pair of the page has it, and
  then it stops at the first such pair.\<close>
theorem scan_page:
  assumes "bucket_wf p" "dbt_ok key" "dt_size key < 2 ^ 31"
  shows "\<exists>i found. scan_keys ham_defcmp key p 0 (unat (NUM_ENT p)) = Some (i, found) \<and>
    (found \<longleftrightarrow> dbt_bytes key \<in> set (page_keys p)) \<and>
    (if found then i < page_num p \<and> page_keys p ! i = dbt_bytes key \<and> (\<forall>j < i. page_keys p ! j \<noteq> dbt_bytes key)
     else i = page_num p)"
  by (rule scan_page_aux [OF assms])

text \<open>A new bucket page is well-formed and has no pairs.\<close>

lemma init_bucket_fields:
  fixes pg :: pgno and p :: mem
  assumes "512 \<le> unat (h_bsize h)" "unat (h_bsize h) \<le> 2 ^ 20" "length p = unat (h_bsize h)"
    and t: "t = HASH_BUCKET_PAGE \<or> t = HASH_OVFL_PAGE"
  defines "q \<equiv> ffdb_init_page h p pg t"
  shows "page_top q = length p" "page_num q = 0" "NEXT_PGNO q = INVALID_PGNO" "CURR_PGNO q = pg"
    "PAGE_SIGN q = FFDB_PAGE_MAGIC" "length q = length p"
proof -
  have "h_bsize h \<noteq> 0" using assms(1) by auto
  then have u: "unat (h_bsize h - 1) + 1 = length p"
    using assms(1,3) by (simp add: unat_minus_one)
  show "page_top q = length p" "page_num q = 0" "NEXT_PGNO q = INVALID_PGNO" "CURR_PGNO q = pg"
    "PAGE_SIGN q = FFDB_PAGE_MAGIC" "length q = length p"
    using t u assms(1,3)
    by (auto simp: q_def ffdb_init_page_def Let_def page_fields page_top_def page_num_def)
qed

lemma init_page_wf:
  assumes "512 \<le> unat (h_bsize h)" "unat (h_bsize h) \<le> 2 ^ 20" "length p = unat (h_bsize h)"
    "t = HASH_BUCKET_PAGE \<or> t = HASH_OVFL_PAGE"
  shows "bucket_wf (ffdb_init_page h p pg t) \<and> page_pairs (ffdb_init_page h p pg t) = [] \<and>
    NEXT_PGNO (ffdb_init_page h p pg t) = INVALID_PGNO \<and> CURR_PGNO (ffdb_init_page h p pg t) = pg \<and>
    (\<forall>k < 2 ^ 32. PAIRFITS (ffdb_init_page h p pg t) k \<longleftrightarrow> k + 59 \<le> unat (h_bsize h))"
proof -
  note F = init_bucket_fields [OF assms(1-4), of pg]
  have wf: "bucket_wf (ffdb_init_page h p pg t)"
    using F assms(1-3) by (simp add: bucket_wf_def pair_pos_def ffdb_consts)
  have "PAIRFITS (ffdb_init_page h p pg t) k \<longleftrightarrow> k + 59 \<le> unat (h_bsize h)" if "k < 2 ^ 32" for k
    using PAIRFITS_nat [OF wf that] F(1,2) assms(1,3) by (auto simp: pair_pos_def ffdb_consts)
  then show ?thesis using wf F by (simp add: page_pairs_def)
qed

text \<open>A page of the smallest block size with one pair.\<close>

definition wit_bpage :: mem where
  "wit_bpage = ffdb_init_page wit_hdr512 (replicate 512 0) 2 HASH_BUCKET_PAGE"

definition wit_key :: dbt where
  "wit_key = \<lparr>dt_data = [1, 2, 3], dt_size = 3\<rparr>"

lemma wit_bpage_empty: "bucket_wf wit_bpage" "page_pairs wit_bpage = []"
  "k < 2 ^ 32 \<Longrightarrow> PAIRFITS wit_bpage k \<longleftrightarrow> k + 59 \<le> 512" "length wit_bpage = 512"
  using init_page_wf [of wit_hdr512 "replicate 512 0" HASH_BUCKET_PAGE 2]
  by (simp_all add: wit_bpage_def wit_hdr_fields)

lemma wit_key_bytes: "dbt_bytes wit_key = [1, 2, 3]" "dbt_ok wit_key" "dt_size wit_key = 3"
  by (simp_all add: wit_key_def dbt_bytes_def dbt_ok_def)

theorem write_pair_appends_witness:
  "\<forall>d. \<exists>p1 p2 off. write_key wit_bpage wit_key = Some (p1, off) \<and> write_datap p1 (NUM_ENT wit_bpage) off d = Some p2 \<and>
     page_pairs (commit_pair (NUM_ENT wit_bpage) off p2) = [([1, 2, 3], d)]"
proof
  fix d
  show "\<exists>p1 p2 off. write_key wit_bpage wit_key = Some (p1, off) \<and> write_datap p1 (NUM_ENT wit_bpage) off d = Some p2 \<and>
     page_pairs (commit_pair (NUM_ENT wit_bpage) off p2) = [([1, 2, 3], d)]"
    using write_pair_appends [of wit_bpage wit_key d] wit_bpage_empty(1,2) wit_bpage_empty(3) [of 3] wit_key_bytes
    by (auto simp: Let_def)
qed

theorem scan_page_witness:
  "\<exists>i. scan_keys ham_defcmp wit_key wit_bpage 0 (unat (NUM_ENT wit_bpage)) = Some (i, False)"
  using scan_page [of wit_bpage wit_key] wit_bpage_empty(1,2) wit_key_bytes by (auto simp: page_keys_def)

end
