(* ===== verification/FFDB_Meta.thy ===== *)
theory FFDB_Meta
  imports FFDB_Store
begin

text \<open>
  The file header and the pages after it (\<open>filehash/ffdb_hash.c\<close>): the layout of
  \<open>ffdb_hashhdr_t\<close> in memory, writing and reading it with its checksum in big-endian
  byte order, and the initialisation of a new table.
\<close>

section \<open>The header in memory\<close>

text \<open>The struct: 13 \<open>int\<close>s, 4 \<open>short\<close>s, 3 \<open>int\<close>s, the two tables and the checksum.\<close>

definition SIZEOF_HASHHDR :: nat where [ffdb_consts]: "SIZEOF_HASHHDR = 332"

definition hdr_words :: "hashhdr \<Rightarrow> u32 list" where
  "hdr_words h = [h_magic h, h_version h, h_lorder h, h_bsize h, h_bshift h, h_ovfl_point h, h_max_bucket h,
     h_high_mask h, h_low_mask h, h_ffactor h, h_nkeys h, h_hdrpages h, h_uinfolen h]"

definition hdr_shorts :: "hashhdr \<Rightarrow> u16 list" where
  "hdr_shorts h = [h_uinfo_page h, h_uinfo_npages h, h_cfig_page h, h_cfig_npages h]"

definition hdr_tail :: "hashhdr \<Rightarrow> u32 list" where
  "hdr_tail h = [h_num_cfigs h, h_charkey h, h_num_moved_pages h] @ h_spares h @ h_free_pages h @ [h_chksum h]"

definition hdr_bytes :: "hashhdr \<Rightarrow> mem" where
  "hdr_bytes h = concat (map u32_bytes (hdr_words h)) @ concat (map u16_bytes (hdr_shorts h)) @
     concat (map u32_bytes (hdr_tail h))"

definition hdr_of_bytes :: "mem \<Rightarrow> hashhdr" where
  "hdr_of_bytes m = \<lparr>h_magic = rd32 m 0, h_version = rd32 m 4, h_lorder = rd32 m 8, h_bsize = rd32 m 12,
     h_bshift = rd32 m 16, h_ovfl_point = rd32 m 20, h_max_bucket = rd32 m 24, h_high_mask = rd32 m 28,
     h_low_mask = rd32 m 32, h_ffactor = rd32 m 36, h_nkeys = rd32 m 40, h_hdrpages = rd32 m 44,
     h_uinfolen = rd32 m 48, h_uinfo_page = rd16 m 52, h_uinfo_npages = rd16 m 54, h_cfig_page = rd16 m 56,
     h_cfig_npages = rd16 m 58, h_num_cfigs = rd32 m 60, h_charkey = rd32 m 64, h_num_moved_pages = rd32 m 68,
     h_spares = map (\<lambda>i. rd32 m (72 + 4 * i)) [0..<NCACHED],
     h_free_pages = map (\<lambda>i. rd32 m (200 + 4 * i)) [0..<NCACHED],
     h_chksum = rd32 m 328\<rparr>"

text \<open>\<open>_ffdb_swap_header\<close> in place; \<open>_ffdb_swap_header_copy\<close> the same into another header.\<close>

definition ffdb_swap_header :: "hashhdr \<Rightarrow> hashhdr" where
  "ffdb_swap_header h = \<lparr>h_magic = bswap32 (h_magic h), h_version = bswap32 (h_version h),
     h_lorder = bswap32 (h_lorder h), h_bsize = bswap32 (h_bsize h), h_bshift = bswap32 (h_bshift h),
     h_ovfl_point = bswap32 (h_ovfl_point h), h_max_bucket = bswap32 (h_max_bucket h),
     h_high_mask = bswap32 (h_high_mask h), h_low_mask = bswap32 (h_low_mask h),
     h_ffactor = bswap32 (h_ffactor h), h_nkeys = bswap32 (h_nkeys h), h_hdrpages = bswap32 (h_hdrpages h),
     h_uinfolen = bswap32 (h_uinfolen h), h_uinfo_page = bswap16 (h_uinfo_page h),
     h_uinfo_npages = bswap16 (h_uinfo_npages h), h_cfig_page = bswap16 (h_cfig_page h),
     h_cfig_npages = bswap16 (h_cfig_npages h), h_num_cfigs = bswap32 (h_num_cfigs h),
     h_charkey = bswap32 (h_charkey h), h_num_moved_pages = bswap32 (h_num_moved_pages h),
     h_spares = map bswap32 (h_spares h), h_free_pages = map bswap32 (h_free_pages h),
     h_chksum = bswap32 (h_chksum h)\<rparr>"

definition ffdb_swap_header_copy :: "hashhdr \<Rightarrow> hashhdr" where
  "ffdb_swap_header_copy src = ffdb_swap_header src"

section \<open>Writing and reading the header\<close>

text \<open>The bytes that are written: on a little-endian machine those of a swapped copy.\<close>

definition hput_image :: "u32 \<Rightarrow> hashhdr \<Rightarrow> hashhdr \<times> mem" where
  "hput_image mbo h =
     (let le = (mbo = LITTLE_ENDIAN);
          whdr = (if le then ffdb_swap_header_copy h else h);
          c = ffdb_crc32_checksum 0 (mem_get (hdr_bytes whdr) 0 (SIZEOF_HASHHDR - 4));
          whdr1 = whdr\<lparr>h_chksum := if le then bswap32 c else c\<rparr>
      in (if le then h else whdr1, hdr_bytes whdr1))"

definition ffdb_hput_header :: "htab \<Rightarrow> int \<times> htab" where
  "ffdb_hput_header hashp =
     (let (h, bytes) = hput_image (mborder hashp) (hdr hashp);
          hashp1 = hashp\<lparr>hdr := h\<rparr>
      in case file_write (backing (mp hashp)) 0 bytes of
           None \<Rightarrow> (- 1, hashp1\<lparr>mp := (mp hashp1)\<lparr>errno := if f_writable (backing (mp hashp)) then ENOSPC else EBADF\<rparr>\<rparr>)
         | Some f \<Rightarrow> (0, hashp1\<lparr>mp := (mp hashp1)\<lparr>backing := f\<rparr>\<rparr>))"

text \<open>\<open>CHARKEY\<close> with its terminating zero.\<close>

definition CHARKEY :: mem where
  "CHARKEY = [0x25, 0x24, 0x73, 0x6e, 0x69, 0x67, 0x6c, 0x65, 0x74, 0x5e, 0x26, 0]"

definition ffdb_flush_meta :: "htab \<Rightarrow> int \<times> htab" where
  "ffdb_flush_meta hashp =
     (if \<not> save_file hashp then (0, hashp)
      else ffdb_hput_header (hashp\<lparr>hdr := (hdr hashp)\<lparr>h_charkey := ht_hash hashp CHARKEY 12\<rparr>\<rparr>))"

text \<open>
  The result is the number of bytes read; a wrong checksum exits. A short read fills the
  front of the header only.
\<close>

definition ffdb_hget_header :: "htab \<Rightarrow> (nat \<times> htab) option" where
  "ffdb_hget_header hashp =
     (let bytes = file_read (backing (mp hashp)) 0 SIZEOF_HASHHDR;
          image = mem_put (hdr_bytes (hdr hashp)) 0 bytes
      in if length bytes \<noteq> SIZEOF_HASHHDR then Some (0, hashp\<lparr>hdr := hdr_of_bytes image\<rparr>)
         else
           let newchksum = ffdb_crc32_checksum 0 (mem_get image 0 (SIZEOF_HASHHDR - 4));
               h = hdr_of_bytes image;
               h1 = (if mborder hashp = LITTLE_ENDIAN then ffdb_swap_header h else h)
           in if newchksum \<noteq> h_chksum h1 then None else Some (length bytes, hashp\<lparr>hdr := h1\<rparr>))"

section \<open>The pages of user and configuration information\<close>

fun new_pages :: "htab \<Rightarrow> u32 \<Rightarrow> pgno list \<Rightarrow> htab option" where
  "new_pages hashp ty [] = Some hashp"
| "new_pages hashp ty (n # ns) = do {
     (_, hashp1) \<leftarrow> ffdb_new_page hashp n ty;
     new_pages hashp1 ty ns
   }"

fun touch_pages :: "htab \<Rightarrow> u32 \<Rightarrow> u32 \<Rightarrow> bool \<Rightarrow> pgno list \<Rightarrow> htab option" where
  "touch_pages hashp ty flags isdirty [] = Some hashp"
| "touch_pages hashp ty flags isdirty (n # ns) = do {
     (pg, _, hashp1) \<leftarrow> ffdb_get_page hashp n ty flags;
     b \<leftarrow> pg;
     (_, hashp2) \<leftarrow> ffdb_put_page hashp1 b isdirty;
     touch_pages hashp2 ty flags isdirty ns
   }"

definition page_range :: "u16 \<Rightarrow> u16 \<Rightarrow> pgno list" where
  "page_range start n = map (\<lambda>i. ucast start + of_nat i) [0..<unat n]"

definition read_info_pages :: "htab \<Rightarrow> u32 \<Rightarrow> pgno list \<Rightarrow> htab option" where
  "read_info_pages hashp ty pages = do {
     hashp1 \<leftarrow> (if new_file hashp then new_pages hashp ty pages else Some hashp);
     touch_pages hashp1 ty (if save_file hashp then FFDB_PAGE_DIRTY OR FFDB_PAGE_LOCKED else 0)
       (save_file hashp) pages
   }"

definition ffdb_read_user_info :: "htab \<Rightarrow> htab option" where
  "ffdb_read_user_info hashp =
     read_info_pages hashp HASH_UINFO_PAGE (page_range (h_uinfo_page (hdr hashp)) (h_uinfo_npages (hdr hashp)))"

definition ffdb_read_config_info :: "htab \<Rightarrow> htab option" where
  "ffdb_read_config_info hashp =
     read_info_pages hashp HASH_CONFIG_PAGE (page_range (h_cfig_page (hdr hashp)) (h_cfig_npages (hdr hashp)))"

text \<open>
  The quotient is a \<open>size_t\<close> and is stored in an \<open>unsigned int\<close>. The loop runs for ever when not
  one configuration fits on a page.
\<close>

definition configs_per_page :: "hashhdr \<Rightarrow> u32" where
  "configs_per_page h = of_nat (bsize_less h PAGE_OVERHEAD div SIZEOF_CONFIG_INFO)"

partial_function (option) config_pages_loop :: "hashhdr \<Rightarrow> u32 \<Rightarrow> u32 \<Rightarrow> u32 option" where
  "config_pages_loop h num np =
     (if num > 0 then
        let numelems = configs_per_page h;
            numelems1 = (if numelems > num then num else numelems)
        in config_pages_loop h (num - numelems1) (np + 1)
      else Some np)"

definition ffdb_num_config_info_pages :: "hashhdr \<Rightarrow> u32 \<Rightarrow> u32 option" where
  "ffdb_num_config_info_pages h num = config_pages_loop h num 0"

section \<open>A new table\<close>

record hashinfo =
  hi_bsize :: u32
  hi_nbuckets :: u32
  hi_cachesize :: nat
  hi_rearrange :: bool
  hi_userinfolen :: u32
  hi_numconfigs :: u32
  hi_hash :: "hash_fun option"
  hi_cmp :: "(dbt \<Rightarrow> dbt \<Rightarrow> int) option"

definition MAX_BSIZE :: u32 where [ffdb_consts]: "MAX_BSIZE = 1048576"
definition DEF_FFACTOR :: u32 where [ffdb_consts]: "DEF_FFACTOR = 65536"
definition FFDB_DEFAULT_UINFO_LEN :: u32 where [ffdb_consts]: "FFDB_DEFAULT_UINFO_LEN = 4000"
definition FFDB_HASHMAGIC :: u32 where [ffdb_consts]: "FFDB_HASHMAGIC = 0xcece3434"

text \<open>
  \<open>st_blksize\<close> is what \<open>stat\<close> reports for the new file, \<open>None\<close> when it fails, with the
  error code. The result is the error code and the table.
\<close>

definition ffdb_init_hash :: "htab \<Rightarrow> u32 option \<Rightarrow> int \<Rightarrow> hashinfo option \<Rightarrow> (int \<times> htab) option" where
  "ffdb_init_hash hashp st_blksize err info = (
     let h0 = (hdr hashp)\<lparr>h_lorder := ffdb_test_endian, h_nkeys := 0, h_bsize := 4096, h_bshift := 12,
                 h_ffactor := DEF_FFACTOR, h_spares := replicate NCACHED 0\<rparr>;
         hashp0 = hashp\<lparr>ht_hash := ham_func5, h_compare := ham_defcmp\<rparr>
     in case st_blksize of
          None \<Rightarrow> Some (err, hashp0\<lparr>hdr := h0\<rparr>)
        | Some blk \<Rightarrow> do {
            sh \<leftarrow> ffdb_log2 blk;
            let h1 = h0\<lparr>h_bsize := blk, h_bshift := sh\<rparr>;
            (case info of
               None \<Rightarrow> Some (0, hashp0\<lparr>hdr := h1\<rparr>)
             | Some i \<Rightarrow> do {
                 h2 \<leftarrow> (if hi_bsize i \<noteq> 0 then do {
                     s \<leftarrow> ffdb_log2 (hi_bsize i);
                     Some (h1\<lparr>h_bshift := s, h_bsize := push_bit (unat s) 1\<rparr>)
                   } else Some h1);
                 if hi_bsize i \<noteq> 0 \<and> sint (h_bsize h2) > sint MAX_BSIZE then Some (EINVAL, hashp0\<lparr>hdr := h2\<rparr>)
                 else if hi_bsize i \<noteq> 0 \<and> unat (h_bsize h2) < SIZEOF_HASHHDR
                 then Some (EINVAL, hashp0\<lparr>hdr := h2\<rparr>)
                 else Some (0, hashp0\<lparr>hdr := h2, rearrange_pages := hi_rearrange i,
                   ht_hash := (case hi_hash i of None \<Rightarrow> ham_func5 | Some f \<Rightarrow> f),
                   h_compare := (case hi_cmp i of None \<Rightarrow> ham_defcmp | Some f \<Rightarrow> f)\<rparr>)
               })
          })"

text \<open>The start pages of the levels of a new table: levels above \<open>l2\<close> are not known yet.\<close>

fun init_spares_loop :: "nat \<Rightarrow> nat \<Rightarrow> u32 list \<Rightarrow> u32 list" where
  "init_spares_loop i 0 sp = sp"
| "init_spares_loop i (Suc n) sp =
     init_spares_loop (Suc i) n (sp[i := sp ! (i - 1) + POW2 (of_nat i - 2)])"

definition init_spares :: "u32 list \<Rightarrow> u32 \<Rightarrow> nat \<Rightarrow> u32 list" where
  "init_spares sp npg l2 =
     (let sp1 = sp[0 := npg];
          sp2 = (if l2 \<ge> 1 then sp1[1 := npg + 1] else sp1);
          sp3 = init_spares_loop 2 (l2 - 1) sp2;
          i = max 2 (l2 + 1)
      in take i sp3 @ replicate (NCACHED - i) 0)"

definition ffdb_init_htab :: "htab \<Rightarrow> u32 \<Rightarrow> hashinfo option \<Rightarrow> htab option" where
  "ffdb_init_htab hashp nb info = do {
     l2 \<leftarrow> ffdb_log2 nb;
     let nbuckets = (push_bit (unat l2) 1 :: u32);
     let h = hdr hashp;
     let ulen = (case info of None \<Rightarrow> FFDB_DEFAULT_UINFO_LEN
                 | Some i \<Rightarrow> if hi_userinfolen i > 0 then hi_userinfolen i else FFDB_DEFAULT_UINFO_LEN);
     let usize = unat (ulen + 4);
     let room = bsize_less h PAGE_OVERHEAD;
     _ \<leftarrow> (if room = 0 then None else Some ());
     let unp = (if usize mod room = 0 then usize div room else usize div room + 1);
     let ncfg = (case info of None \<Rightarrow> 1 | Some i \<Rightarrow> if hi_numconfigs i > 0 then hi_numconfigs i else 1);
     let pg = (of_nat (1 + unp) :: u32);
     cnp \<leftarrow> ffdb_num_config_info_pages h ncfg;
     let nhdr = pg + cnp;
     Some (hashp\<lparr>hdr := h\<lparr>h_uinfolen := ulen, h_uinfo_page := 1, h_uinfo_npages := of_nat unp,
        h_cfig_page := ucast pg, h_num_cfigs := ncfg, h_cfig_npages := ucast cnp, h_hdrpages := nhdr,
        h_spares := init_spares (h_spares h) nhdr (unat l2),
        h_free_pages := replicate NCACHED INVALID_PGNO, h_ovfl_point := l2,
        h_max_bucket := nbuckets - 1, h_high_mask := nbuckets - 1,
        h_low_mask := signed_drop_bit 1 nbuckets - 1, h_magic := FFDB_HASHMAGIC, h_version := 6\<rparr>,
        data_valid_flag := DATA_VALID, data_invalid_flag := DATA_INVALID\<rparr>)
   }"

section \<open>The layout of the header\<close>

definition hdr_shape :: "hashhdr \<Rightarrow> bool" where
  "hdr_shape h \<longleftrightarrow> length (h_spares h) = NCACHED \<and> length (h_free_pages h) = NCACHED"

lemma length_concat_u32 [simp]: "length (concat (map u32_bytes ws)) = 4 * length ws"
  by (induction ws) simp_all

lemma length_concat_u16 [simp]: "length (concat (map u16_bytes ws)) = 2 * length ws"
  by (induction ws) simp_all

lemma length_hdr_bytes [simp]: "hdr_shape h \<Longrightarrow> length (hdr_bytes h) = 332"
  by (simp add: hdr_bytes_def hdr_words_def hdr_shorts_def hdr_tail_def hdr_shape_def NCACHED_def)

lemma rd_skip:
  "rd32 (xs @ ys) (length xs + k) = rd32 ys k" "rd16 (xs @ ys) (length xs + k) = rd16 ys k"
  by (simp_all add: rd32_def rd16_def mem_get_def)

lemma rd32_concat: "i < length ws \<Longrightarrow> rd32 (concat (map u32_bytes ws) @ ys) (4 * i) = ws ! i"
proof (induction ws arbitrary: i)
  case (Cons w ws)
  show ?case
  proof (cases i)
    case 0
    then show ?thesis by (simp add: rd32_def mem_get_def)
  next
    case (Suc j)
    have "rd32 (u32_bytes w @ concat (map u32_bytes ws) @ ys) (length (u32_bytes w) + 4 * j)
        = rd32 (concat (map u32_bytes ws) @ ys) (4 * j)"
      by (rule rd_skip)
    then show ?thesis using Cons Suc by simp
  qed
qed simp

lemma rd16_concat: "i < length ws \<Longrightarrow> rd16 (concat (map u16_bytes ws) @ ys) (2 * i) = ws ! i"
proof (induction ws arbitrary: i)
  case (Cons w ws)
  show ?case
  proof (cases i)
    case 0
    then show ?thesis by (simp add: rd16_def mem_get_def)
  next
    case (Suc j)
    have "rd16 (u16_bytes w @ concat (map u16_bytes ws) @ ys) (length (u16_bytes w) + 2 * j)
        = rd16 (concat (map u16_bytes ws) @ ys) (2 * j)"
      by (rule rd_skip)
    then show ?thesis using Cons Suc by simp
  qed
qed simp

lemma hdr_word_at: "i < 13 \<Longrightarrow> rd32 (hdr_bytes h) (4 * i) = hdr_words h ! i"
  unfolding hdr_bytes_def by (rule rd32_concat) (simp add: hdr_words_def)

lemma hdr_short_at: "i < 4 \<Longrightarrow> rd16 (hdr_bytes h) (52 + 2 * i) = hdr_shorts h ! i"
proof -
  assume i: "i < 4"
  have "rd16 (hdr_bytes h) (length (concat (map u32_bytes (hdr_words h))) + 2 * i) = hdr_shorts h ! i"
    unfolding hdr_bytes_def rd_skip by (rule rd16_concat) (use i in \<open>simp add: hdr_shorts_def\<close>)
  then show ?thesis by (simp add: hdr_words_def)
qed

lemma hdr_tail_at: "i < length (hdr_tail h) \<Longrightarrow> rd32 (hdr_bytes h) (60 + 4 * i) = hdr_tail h ! i"
proof -
  assume i: "i < length (hdr_tail h)"
  let ?A = "concat (map u32_bytes (hdr_words h)) @ concat (map u16_bytes (hdr_shorts h))"
  have "rd32 (?A @ concat (map u32_bytes (hdr_tail h)) @ []) (length ?A + 4 * i) = hdr_tail h ! i"
    unfolding rd_skip by (rule rd32_concat [OF i])
  then show ?thesis by (simp add: hdr_bytes_def hdr_words_def hdr_shorts_def)
qed

lemma hdr_of_bytes_hdr_bytes:
  assumes "hdr_shape h"
  shows "hdr_of_bytes (hdr_bytes h) = h"
proof -
  let ?m = "hdr_bytes h"
  have w: "rd32 ?m 0 = h_magic h" "rd32 ?m 4 = h_version h" "rd32 ?m 8 = h_lorder h" "rd32 ?m 12 = h_bsize h"
    "rd32 ?m 16 = h_bshift h" "rd32 ?m 20 = h_ovfl_point h" "rd32 ?m 24 = h_max_bucket h"
    "rd32 ?m 28 = h_high_mask h" "rd32 ?m 32 = h_low_mask h" "rd32 ?m 36 = h_ffactor h"
    "rd32 ?m 40 = h_nkeys h" "rd32 ?m 44 = h_hdrpages h" "rd32 ?m 48 = h_uinfolen h"
    using hdr_word_at [of 0 h] hdr_word_at [of 1 h] hdr_word_at [of 2 h] hdr_word_at [of 3 h]
      hdr_word_at [of 4 h] hdr_word_at [of 5 h] hdr_word_at [of 6 h] hdr_word_at [of 7 h]
      hdr_word_at [of 8 h] hdr_word_at [of 9 h] hdr_word_at [of 10 h] hdr_word_at [of 11 h] hdr_word_at [of 12 h]
    by (simp_all add: hdr_words_def)
  have s: "rd16 ?m 52 = h_uinfo_page h" "rd16 ?m 54 = h_uinfo_npages h" "rd16 ?m 56 = h_cfig_page h"
    "rd16 ?m 58 = h_cfig_npages h"
    using hdr_short_at [of 0 h] hdr_short_at [of 1 h] hdr_short_at [of 2 h] hdr_short_at [of 3 h]
    by (simp_all add: hdr_shorts_def)
  have len: "length (hdr_tail h) = 68" using assms by (simp add: hdr_tail_def hdr_shape_def NCACHED_def)
  have t: "rd32 ?m 60 = h_num_cfigs h" "rd32 ?m 64 = h_charkey h" "rd32 ?m 68 = h_num_moved_pages h"
    using hdr_tail_at [of 0 h] hdr_tail_at [of 1 h] hdr_tail_at [of 2 h] len by (simp_all add: hdr_tail_def)
  have c: "rd32 ?m 328 = h_chksum h"
    using hdr_tail_at [of 67 h] len assms by (simp add: hdr_tail_def hdr_shape_def NCACHED_def nth_append)
  have sp: "map (\<lambda>i. rd32 ?m (72 + 4 * i)) [0..<NCACHED] = h_spares h"
  proof (rule nth_equalityI)
    fix i assume "i < length (map (\<lambda>i. rd32 ?m (72 + 4 * i)) [0..<NCACHED])"
    then have i: "i < 32" by (simp add: NCACHED_def)
    have "rd32 ?m (60 + 4 * (3 + i)) = hdr_tail h ! (3 + i)" by (rule hdr_tail_at) (use i len in simp)
    then show "map (\<lambda>i. rd32 ?m (72 + 4 * i)) [0..<NCACHED] ! i = h_spares h ! i"
      using i assms by (simp add: hdr_tail_def hdr_shape_def NCACHED_def nth_append)
  qed (use assms in \<open>simp add: hdr_shape_def\<close>)
  have fp: "map (\<lambda>i. rd32 ?m (200 + 4 * i)) [0..<NCACHED] = h_free_pages h"
  proof (rule nth_equalityI)
    fix i assume "i < length (map (\<lambda>i. rd32 ?m (200 + 4 * i)) [0..<NCACHED])"
    then have i: "i < 32" by (simp add: NCACHED_def)
    have "rd32 ?m (60 + 4 * (35 + i)) = hdr_tail h ! (35 + i)" by (rule hdr_tail_at) (use i len in simp)
    then show "map (\<lambda>i. rd32 ?m (200 + 4 * i)) [0..<NCACHED] ! i = h_free_pages h ! i"
      using i assms by (simp add: hdr_tail_def hdr_shape_def NCACHED_def nth_append)
  qed (use assms in \<open>simp add: hdr_shape_def\<close>)
  show ?thesis
    by (rule hashhdr.equality) (simp_all add: hdr_of_bytes_def w s t c sp fp)
qed

lemma hdr_shape_swap [simp]: "hdr_shape (ffdb_swap_header h) = hdr_shape h"
  by (simp add: hdr_shape_def ffdb_swap_header_def)

lemma hdr_shape_chksum [simp]: "hdr_shape (h\<lparr>h_chksum := c\<rparr>) = hdr_shape h"
  by (simp add: hdr_shape_def)

lemma swap_header_swap: "ffdb_swap_header (ffdb_swap_header h) = h"
  by (rule hashhdr.equality) (simp_all add: ffdb_swap_header_def comp_def)

lemma swap_header_chksum: "ffdb_swap_header (h\<lparr>h_chksum := c\<rparr>) = (ffdb_swap_header h)\<lparr>h_chksum := bswap32 c\<rparr>"
  by (simp add: ffdb_swap_header_def)

text \<open>Everything but the last four bytes does not depend on the checksum.\<close>

definition hdr_front :: "hashhdr \<Rightarrow> mem" where
  "hdr_front h = concat (map u32_bytes (hdr_words h)) @ concat (map u16_bytes (hdr_shorts h)) @
     concat (map u32_bytes ([h_num_cfigs h, h_charkey h, h_num_moved_pages h] @ h_spares h @ h_free_pages h))"

lemma hdr_bytes_front: "hdr_bytes h = hdr_front h @ u32_bytes (h_chksum h)"
  by (simp add: hdr_bytes_def hdr_front_def hdr_tail_def)

lemma length_hdr_front [simp]: "hdr_shape h \<Longrightarrow> length (hdr_front h) = 328"
  using length_hdr_bytes [of h] by (simp add: hdr_bytes_front)

lemma hdr_front_chksum [simp]: "hdr_front (h\<lparr>h_chksum := c\<rparr>) = hdr_front h"
  by (simp add: hdr_front_def hdr_words_def hdr_shorts_def)

lemma mem_get_front [simp]: "hdr_shape h \<Longrightarrow> mem_get (hdr_bytes h) 0 328 = hdr_front h"
  by (simp add: hdr_bytes_front mem_get_def)

lemma file_read_write_0:
  "file_write f 0 bs = Some f' \<Longrightarrow> n = length bs \<Longrightarrow> file_read f' 0 n = bs"
  by (auto simp: file_write_def file_read_def mem_get_def split: if_splits)

text \<open>What \<open>_ffdb_hget_header\<close> does with the 332 bytes it reads.\<close>

lemma hget_full:
  assumes "length bytes = 332" "file_read (backing (mp g)) 0 332 = bytes" "hdr_shape (hdr g)"
  shows "ffdb_hget_header g =
    (let h = (if mborder g = LITTLE_ENDIAN then ffdb_swap_header (hdr_of_bytes bytes) else hdr_of_bytes bytes)
     in if ffdb_crc32_checksum 0 (mem_get bytes 0 328) \<noteq> h_chksum h then None else Some (332, g\<lparr>hdr := h\<rparr>))"
proof -
  have "mem_put (hdr_bytes (hdr g)) 0 bytes = bytes" using assms by simp
  then show ?thesis using assms(1,2) by (simp add: ffdb_hget_header_def SIZEOF_HASHHDR_def Let_def)
qed

lemma hput_written:
  assumes "ffdb_hput_header hashp = (0, hashp')" "hdr_shape (hdr hashp)"
  defines "le \<equiv> mborder hashp = LITTLE_ENDIAN"
  defines "w \<equiv> if le then ffdb_swap_header (hdr hashp) else hdr hashp"
  defines "c \<equiv> ffdb_crc32_checksum 0 (hdr_front w)"
  shows "file_read (backing (mp hashp')) 0 332 = hdr_bytes (w\<lparr>h_chksum := if le then bswap32 c else c\<rparr>)"
    "hdr_shape w" "mborder hashp' = mborder hashp"
    "hdr hashp' = (if le then hdr hashp else w\<lparr>h_chksum := c\<rparr>)"
proof -
  show s: "hdr_shape w" using assms(2) by (simp add: w_def)
  have img: "hput_image (mborder hashp) (hdr hashp) =
      (if le then hdr hashp else w\<lparr>h_chksum := c\<rparr>, hdr_bytes (w\<lparr>h_chksum := if le then bswap32 c else c\<rparr>))"
    using s by (cases le) (simp_all add: hput_image_def Let_def le_def w_def c_def ffdb_swap_header_copy_def SIZEOF_HASHHDR_def)
  obtain f where f: "file_write (backing (mp hashp)) 0 (hdr_bytes (w\<lparr>h_chksum := if le then bswap32 c else c\<rparr>)) = Some f"
    "backing (mp hashp') = f" "mborder hashp' = mborder hashp" "hdr hashp' = (if le then hdr hashp else w\<lparr>h_chksum := c\<rparr>)"
    using assms(1) by (auto simp: ffdb_hput_header_def img Let_def split: option.splits)
  show "file_read (backing (mp hashp')) 0 332 = hdr_bytes (w\<lparr>h_chksum := if le then bswap32 c else c\<rparr>)"
    unfolding f(2) by (rule file_read_write_0 [OF f(1)]) (use s in simp)
  show "mborder hashp' = mborder hashp" "hdr hashp' = (if le then hdr hashp else w\<lparr>h_chksum := c\<rparr>)"
    using f by auto
qed

text \<open>C24: The header survives the way through the file, on machines of both byte orders:
  what \<open>_ffdb_hget_header\<close> reads after \<open>_ffdb_hput_header\<close> has written is the same header
  with its checksum filled in.\<close>
theorem header_roundtrip:
  assumes "ffdb_hput_header hashp = (0, hashp')" "hdr_shape (hdr hashp)"
    "backing (mp g) = backing (mp hashp')" "mborder g = mborder hashp" "hdr_shape (hdr g)"
  shows "\<exists>c. ffdb_hget_header g = Some (332, g\<lparr>hdr := (hdr hashp)\<lparr>h_chksum := c\<rparr>\<rparr>)"
proof -
  note W = hput_written [OF assms(1,2)]
  note R = hget_full [OF _ W(1) [folded assms(3)] assms(5), unfolded Let_def assms(4)]
  show ?thesis
  proof (cases "mborder hashp = LITTLE_ENDIAN")
    case True
    then show ?thesis
      using assms(2) by (subst R) (simp_all add: hdr_of_bytes_hdr_bytes swap_header_chksum swap_header_swap, blast)
  next
    case False
    then show ?thesis
      using assms(2) by (subst R) (simp_all add: hdr_of_bytes_hdr_bytes, blast)
  qed
qed

text \<open>C25: Damage to the header is caught: if one of its 332 bytes in the file is changed,
  \<open>_ffdb_hget_header\<close> ends the program.\<close>
theorem header_damage_detected:
  assumes "ffdb_hput_header hashp = (0, hashp')" "hdr_shape (hdr hashp)"
    "i < 332" "file_read (backing (mp hashp')) 0 332 ! i \<noteq> b"
    "file_read (backing (mp g)) 0 332 = (file_read (backing (mp hashp')) 0 332)[i := b]"
    "mborder g = mborder hashp" "hdr_shape (hdr g)"
  shows "ffdb_hget_header g = None"
proof -
  let ?le = "mborder hashp = LITTLE_ENDIAN"
  let ?w = "if ?le then ffdb_swap_header (hdr hashp) else hdr hashp"
  let ?c = "ffdb_crc32_checksum 0 (hdr_front ?w)"
  let ?m = "hdr_bytes (?w\<lparr>h_chksum := if ?le then bswap32 ?c else ?c\<rparr>)"
  note W = hput_written [OF assms(1,2)]
  have len: "length (?m[i := b]) = 332" using W(2) by simp
  have stored: "h_chksum (if mborder g = LITTLE_ENDIAN then ffdb_swap_header (hdr_of_bytes x) else hdr_of_bytes x)
      = (if ?le then bswap32 (rd32 x 328) else rd32 x 328)" for x
    by (simp add: assms(6) ffdb_swap_header_def hdr_of_bytes_def)
  have "rd32 ?m 328 = (if ?le then bswap32 ?c else ?c)"
    using arg_cong [OF hdr_of_bytes_hdr_bytes, of "?w\<lparr>h_chksum := if ?le then bswap32 ?c else ?c\<rparr>" h_chksum] W(2)
    by (simp add: hdr_of_bytes_def)
  then have sum: "(if ?le then bswap32 (rd32 ?m 328) else rd32 ?m 328) = ?c" by (cases ?le) simp_all
  have "ffdb_crc32_checksum 0 (mem_get (?m[i := b]) 0 328) \<noteq>
      (if ?le then bswap32 (rd32 (?m[i := b]) 328) else rd32 (?m[i := b]) 328)"
  proof (cases "i < 328")
    case True
    have "hdr_front ?w ! i \<noteq> b" using assms(4) True W by (simp add: hdr_bytes_front nth_append)
    then have "ffdb_crc32_checksum 0 ((hdr_front ?w)[i := b]) \<noteq> ?c"
      using True W(2) by (intro crc32_one_byte) simp_all
    moreover have "mem_get (?m[i := b]) 0 328 = (hdr_front ?w)[i := b]"
      using W(2) True by (simp add: mem_get_def hdr_bytes_front list_update_append)
    moreover have "rd32 (?m[i := b]) 328 = rd32 ?m 328" using True by (intro rd32_list_update) simp
    ultimately show ?thesis using sum by metis
  next
    case False
    have "mem_get (?m[i := b]) 0 328 = hdr_front ?w"
      using W(2) False by (simp add: mem_get_def hdr_bytes_front list_update_append)
    moreover have "rd32 (?m[i := b]) 328 \<noteq> rd32 ?m 328"
    proof
      assume e: "rd32 (?m[i := b]) 328 = rd32 ?m 328"
      have "mem_get x 328 4 = u32_bytes (rd32 x 328)" if "length x = 332" for x
        using that by (simp add: rd32_def u32_bytes_bytes)
      then have "mem_get (?m[i := b]) 328 4 = mem_get ?m 328 4" using len e by simp
      then have "drop 328 (?m[i := b]) ! (i - 328) = drop 328 ?m ! (i - 328)"
        using len by (simp add: mem_get_def)
      then show False using False assms(3,4) len W(1) by simp
    qed
    then have "(if ?le then bswap32 (rd32 (?m[i := b]) 328) else rd32 (?m[i := b]) 328) \<noteq> ?c"
      using sum by (metis bswap_bswap(2))
    ultimately show ?thesis by metis
  qed
  then show ?thesis
    using W(1) assms(5) by (subst hget_full [OF len _ assms(7)]) (simp_all only: stored Let_def, simp_all)
qed

section \<open>The number of configuration pages\<close>

lemma config_loop_step:
  "num > 0 \<Longrightarrow> config_pages_loop h num np =
     config_pages_loop h (num - (if configs_per_page h > num then num else configs_per_page h)) (np + 1)"
  "config_pages_loop h 0 np = Some np"
  by (simp_all add: config_pages_loop.simps [of h num] config_pages_loop.simps [of h 0] Let_def)

lemma config_loop_count:
  assumes c: "configs_per_page h \<noteq> 0"
  shows "config_pages_loop h num np =
    Some (np + of_nat ((unat num + unat (configs_per_page h) - 1) div unat (configs_per_page h)))"
proof (induction "unat num" arbitrary: num np rule: less_induct)
  case less
  let ?c = "unat (configs_per_page h)"
  have c: "1 \<le> ?c" using assms by (simp add: Suc_le_eq unat_gt_0)
  show ?case
  proof (cases "num = 0")
    case True
    then show ?thesis using c by (simp add: config_loop_step)
  next
    case False
    define d where "d = (if configs_per_page h > num then num else configs_per_page h)"
    have pos: "0 < unat num" using False by (simp add: unat_gt_0)
    have d: "unat d = min ?c (unat num)"
      by (auto simp: d_def word_less_nat_alt)
    then have "d \<le> num" by (simp add: word_le_nat_alt)
    then have s: "unat (num - d) = unat num - min ?c (unat num)" using d by (simp add: unat_sub)
    then have "unat (num - d) < unat num" using c pos by simp
    then have IH: "config_pages_loop h (num - d) (np + 1) =
        Some (np + 1 + of_nat ((unat (num - d) + ?c - 1) div ?c))" by (rule less.hyps)
    have "(unat num + ?c - 1) div ?c = Suc ((unat (num - d) + ?c - 1) div ?c)"
    proof (cases "?c \<le> unat num")
      case True
      then have "unat num + ?c - 1 = (unat (num - d) + ?c - 1) + ?c" using s c by simp
      then show ?thesis using c by (metis One_nat_def div_add_self2 le_zero_eq not_one_le_zero Suc_eq_plus1)
    next
      case False
      then have "unat (num - d) = 0" using s by simp
      moreover have "(unat num + ?c - 1) div ?c = 1"
        using False pos c by (intro div_nat_eqI) auto
      moreover have "(0 + ?c - 1) div ?c = 0" using c by simp
      ultimately show ?thesis by simp
    qed
    moreover have "0 < num" using False by (simp add: word_neq_0_conv)
    ultimately show ?thesis
      using config_loop_step(1) [of num h np] IH by (simp add: d_def ac_simps)
  qed
qed

lemma config_loop_stuck: "config_pages_loop h num np = Some r \<Longrightarrow> configs_per_page h = 0 \<Longrightarrow> num = 0"
proof -
  assume r: "config_pages_loop h num np = Some r" and z: "configs_per_page h = 0"
  have "configs_per_page h = 0 \<longrightarrow> num = 0"
  proof (rule config_pages_loop.raw_induct [where P = "\<lambda>h num np r. configs_per_page h = 0 \<longrightarrow> num = 0", OF _ r])
    fix f h num np r
    assume IH: "\<And>h num np r. f h num np = Some r \<Longrightarrow> configs_per_page h = 0 \<longrightarrow> num = 0"
      and e: "(if (num :: u32) > 0 then let numelems = configs_per_page h;
            numelems1 = (if numelems > num then num else numelems) in f h (num - numelems1) (np + 1)
          else Some np) = Some r"
    show "configs_per_page h = 0 \<longrightarrow> num = 0"
    proof (intro impI, rule ccontr)
      assume z: "configs_per_page h = 0" "num \<noteq> 0"
      then have "f h num (np + 1) = Some r" using e by (simp add: Let_def word_gt_0)
      then show False using IH z by blast
    qed
  qed
  then show ?thesis using z by simp
qed

lemma config_pages_eval:
  "ffdb_num_config_info_pages h num =
     (if configs_per_page h = 0 \<and> num \<noteq> 0 then None
      else Some (of_nat ((unat num + unat (configs_per_page h) - 1) div unat (configs_per_page h))))"
proof (cases "configs_per_page h = 0")
  case True
  then show ?thesis
    using config_loop_stuck [of h num 0] config_loop_step(2) [of h 0]
    by (cases "config_pages_loop h num 0") (auto simp: ffdb_num_config_info_pages_def)
next
  case False
  then show ?thesis using config_loop_count [of h num 0] by (simp add: ffdb_num_config_info_pages_def)
qed

text \<open>How many fit: for blocks smaller than the page header the difference wraps.\<close>

lemma configs_per_page_unat:
  "int (unat (configs_per_page h)) =
     (if 28 \<le> sint (h_bsize h) then (sint (h_bsize h) - 28) div 148
      else (2 ^ 64 + sint (h_bsize h) - 28) div 148 mod 2 ^ 32)"
proof -
  have s: "sint (h_bsize h) < 2 ^ 31" using sint_lt [of "h_bsize h"] by simp
  have "int (unat (configs_per_page h)) = int (bsize_less h 28) div 148 mod 2 ^ 32"
    by (simp only: configs_per_page_def ffdb_consts unat_of_nat) (simp add: zdiv_int zmod_int)
  then have e: "int (unat (configs_per_page h)) =
      (if 28 \<le> sint (h_bsize h) then sint (h_bsize h) - 28 else 2 ^ 64 + sint (h_bsize h) - 28) div 148 mod 2 ^ 32"
    using bsize_less_sint [of 28 h] by simp
  have "(sint (h_bsize h) - 28) div 148 mod 2 ^ 32 = (sint (h_bsize h) - 28) div 148" if "28 \<le> sint (h_bsize h)"
    using s that by (intro mod_pos_pos_trivial) simp_all
  then show ?thesis using e by simp
qed

lemma div148_zero: "28 \<le> x \<Longrightarrow> (x - 28) div 148 = 0 \<longleftrightarrow> x < 176" for x :: int
  by (subst zdiv_eq_0_iff) auto

lemma wrapped_not_zero:
  fixes x :: int
  assumes "- (2 ^ 31) \<le> x" "x < 28"
  shows "(2 ^ 64 + x - 28) div 148 mod 2 ^ 32 \<noteq> 0"
proof -
  let ?K = "29020049 :: int"
  define q where "q = (2 ^ 64 + x - 28) div 148"
  have "?K * 2 ^ 32 < q" "q < ?K * 2 ^ 32 + 2 ^ 32" unfolding q_def using assms by simp_all
  then have "(q + - ?K * 2 ^ 32) mod 2 ^ 32 = q + - ?K * 2 ^ 32" "0 < q + - ?K * 2 ^ 32"
    by (intro mod_pos_pos_trivial, simp_all)
  then show ?thesis by (simp only: mod_mult_self1 q_def [symmetric])
qed

lemma configs_per_page_zero: "configs_per_page h = 0 \<longleftrightarrow> 28 \<le> sint (h_bsize h) \<and> sint (h_bsize h) < 176"
proof -
  have z: "configs_per_page h = 0 \<longleftrightarrow> int (unat (configs_per_page h)) = 0" by (simp only: of_nat_eq_0_iff unat_eq_0)
  have s: "- (2 ^ 31) \<le> sint (h_bsize h)" using sint_ge [of "h_bsize h"] by simp
  show ?thesis
  proof (cases "28 \<le> sint (h_bsize h)")
    case True
    then show ?thesis unfolding z configs_per_page_unat by (simp only: if_True div148_zero simp_thms)
  next
    case False
    then have "(2 ^ 64 + sint (h_bsize h) - 28) div 148 mod 2 ^ 32 \<noteq> 0" by (intro wrapped_not_zero [OF s]) linarith
    then show ?thesis unfolding z configs_per_page_unat using False by (simp only: if_False simp_thms)
  qed
qed

text \<open>C28: \<open>_ffdb_num_config_info_pages\<close> runs for ever exactly if there is a configuration to store
  and the block size lies between 28 and 175, where the header fits on a page and no
  configuration does. Otherwise it returns the number of configurations divided by the
  number that fit, rounded up; with blocks smaller than the header that number is the
  wrapped one, and not 0.\<close>
theorem config_pages_count:
  "ffdb_num_config_info_pages h num =
     (if 28 \<le> sint (h_bsize h) \<and> sint (h_bsize h) < 176 \<and> num \<noteq> 0 then None
      else Some (of_nat ((unat num + unat (configs_per_page h) - 1) div unat (configs_per_page h)))) \<and>
   int (unat (configs_per_page h)) =
     (if 28 \<le> sint (h_bsize h) then (sint (h_bsize h) - 28) div 148
      else (2 ^ 64 + sint (h_bsize h) - 28) div 148 mod 2 ^ 32)"
  unfolding config_pages_eval configs_per_page_zero configs_per_page_unat by simp

section \<open>A new table\<close>

lemma POW2_of_nat: "i \<le> 31 \<Longrightarrow> POW2 (of_nat i) = 2 ^ i"
proof -
  assume "i \<le> 31"
  then have "unat (of_nat i :: u32) = i" by (simp add: unsigned_of_nat take_bit_nat_eq_self)
  then show ?thesis by (simp add: POW2_def push_bit_eq_mult)
qed

lemma length_init_loop [simp]: "length (init_spares_loop i n sp) = length sp"
  by (induction i n sp rule: init_spares_loop.induct) simp_all

lemma init_loop_nth:
  "2 \<le> i \<Longrightarrow> i + n \<le> 32 \<Longrightarrow> length sp = 32 \<Longrightarrow> sp ! (i - 1) = c + 2 ^ (i - 2) \<Longrightarrow> j < i + n \<Longrightarrow>
     init_spares_loop i n sp ! j = (if j < i then sp ! j else c + 2 ^ (j - 1))"
proof (induction i n sp rule: init_spares_loop.induct)
  case (2 i n sp)
  have "of_nat i - 2 = (of_nat (i - 2) :: u32)" using 2(2) by (simp add: of_nat_diff)
  then have p: "POW2 (of_nat i - 2) = 2 ^ (i - 2)" using POW2_of_nat [of "i - 2"] 2(2,3) by simp
  have "(2::u32) ^ (i - 1) = 2 * 2 ^ (i - 2)" using 2(2) by (metis Suc_1 Suc_diff_Suc diff_Suc_1 Suc_le_lessD less_eq_Suc_le power_Suc Suc_diff_le One_nat_def)
  then have v: "sp ! (i - 1) + POW2 (of_nat i - 2) = c + 2 ^ (i - 1)" using 2(5) p by simp
  have "init_spares_loop (Suc i) n (sp[i := sp ! (i - 1) + POW2 (of_nat i - 2)]) ! j =
      (if j < Suc i then sp[i := sp ! (i - 1) + POW2 (of_nat i - 2)] ! j else c + 2 ^ (j - 1))"
    by (rule 2(1)) (use 2 v in auto)
  then show ?case using 2 v by (cases "j = i") (auto simp: nth_list_update)
qed simp

lemma init_spares_nth:
  assumes "length sp = 32" "l2 \<le> 30" "s \<le> l2"
  shows "init_spares sp n l2 ! s = (if s = 0 then n else n + 2 ^ (s - 1))"
proof -
  define sp2 where "sp2 = (if l2 \<ge> 1 then (sp[0 := n])[1 := n + 1] else sp[0 := n])"
  have len: "length sp2 = 32" using assms(1) by (simp add: sp2_def)
  have "init_spares_loop 2 (l2 - 1) sp2 ! s = (if s < 2 then sp2 ! s else n + 2 ^ (s - 1))"
  proof (cases "l2 = 0")
    case True
    then show ?thesis using assms by simp
  next
    case False
    then show ?thesis
      using assms len by (intro init_loop_nth) (auto simp: sp2_def)
  qed
  moreover have "s < Suc (max (Suc 0) l2)" "Suc (max (Suc 0) l2) \<le> 32" using assms by simp_all
  then have "init_spares sp n l2 ! s = init_spares_loop 2 (l2 - 1) sp2 ! s"
    using assms len by (simp add: init_spares_def Let_def sp2_def nth_append)
  ultimately show ?thesis
    using assms by (auto simp: sp2_def less_Suc_eq numeral_2_eq_2)
qed

lemma length_init_spares: "length sp = 32 \<Longrightarrow> l2 \<le> 30 \<Longrightarrow> length (init_spares sp n l2) = 32"
  by (auto simp: init_spares_def Let_def NCACHED_def)

lemma init_htab_fields:
  assumes i: "ffdb_init_htab hashp nb info = Some hashp'" and nb: "unat nb \<le> 2 ^ 30"
    and sp: "length (h_spares (hdr hashp)) = 32"
  shows "\<exists>L \<le> 30. (\<forall>j < L. 2 ^ j < unat nb) \<and> unat nb \<le> 2 ^ L \<and> h_ovfl_point (hdr hashp') = of_nat L \<and>
    h_max_bucket (hdr hashp') = 2 ^ L - 1 \<and> h_high_mask (hdr hashp') = 2 ^ L - 1 \<and>
    h_low_mask (hdr hashp') = signed_drop_bit 1 (2 ^ L) - 1 \<and>
    h_spares (hdr hashp') = init_spares (h_spares (hdr hashp)) (h_hdrpages (hdr hashp')) L"
proof -
  have "unat nb \<le> 2 ^ 31" using nb by simp
  then obtain L where L: "L \<le> 31" "ffdb_log2 nb = Some (of_nat L)" "unat nb \<le> 2 ^ L" "\<forall>j < L. 2 ^ j < unat nb"
    using log2_loop_finds [of 0 nb] by (auto simp: ffdb_log2_def)
  have L30: "L \<le> 30" using L(4) nb by (metis leD leI)
  have u: "unat (of_nat L :: u32) = L" using L(1) by (simp add: unsigned_of_nat take_bit_nat_eq_self)
  have p: "push_bit L (1 :: u32) = 2 ^ L" by (simp add: push_bit_eq_mult)
  show ?thesis
    using i L L30 by (auto simp: ffdb_init_htab_def Let_def u p split: bind_splits)
qed

lemma signed_half: "L \<le> 29 \<Longrightarrow> signed_drop_bit 1 (2 ^ Suc L :: u32) = 2 ^ L"
  by (rule bit_word_eqI) (auto simp: bit_signed_drop_bit_iff bit_exp_iff simp del: power_Suc)

lemma signed_half_one: "signed_drop_bit 1 (1 :: u32) = 0"
  by code_simp

text \<open>C26: A new table: it has as many buckets as were asked for, rounded up to a power of
  two; bucket \<open>B\<close> lies on page \<open>hdrpages + B\<close> and the levels do not overlap. With at least
  two buckets the masks are those of the address bits; with one bucket, the default, they
  are not: the low mask has all bits set.\<close>
theorem new_table_layout:
  assumes "ffdb_init_htab hashp nb info = Some hashp'" "unat nb \<le> 2 ^ 30"
    "length (h_spares (hdr hashp)) = NCACHED" "unat (h_hdrpages (hdr hashp')) \<le> 2 ^ 31"
  shows "\<exists>L \<le> 30. (\<forall>j < L. 2 ^ j < unat nb) \<and> unat nb \<le> 2 ^ L \<and>
    unat (h_max_bucket (hdr hashp')) = 2 ^ L - 1 \<and> spares_ok (hdr hashp') L \<and>
    (\<forall>B. unat B < 2 ^ L \<longrightarrow>
       (\<exists>p. BUCKET_TO_PAGE (hdr hashp') B = Some p \<and> unat p = unat (h_hdrpages (hdr hashp')) + unat B)) \<and>
    (case L of 0 \<Rightarrow> h_high_mask (hdr hashp') = 0 \<and> h_low_mask (hdr hashp') = - 1 \<and> \<not> masks_ok (hdr hashp') 0
     | Suc k \<Rightarrow> masks_ok (hdr hashp') k)"
proof -
  have sp: "length (h_spares (hdr hashp)) = 32" using assms(3) by (simp add: NCACHED_def)
  let ?h = "hdr hashp'" and ?n = "h_hdrpages (hdr hashp')"
  obtain L where L: "L \<le> 30" "\<forall>j < L. 2 ^ j < unat nb" "unat nb \<le> 2 ^ L"
    "h_max_bucket ?h = 2 ^ L - 1" "h_high_mask ?h = 2 ^ L - 1"
    "h_low_mask ?h = signed_drop_bit 1 (2 ^ L) - 1" "h_spares ?h = init_spares (h_spares (hdr hashp)) ?n L"
    using init_htab_fields [OF assms(1,2) sp] by blast
  have pow: "(2::nat) ^ s \<le> 2 ^ 30" if "s \<le> L" for s using that L(1) by (intro power_increasing) auto
  have start: "unat (h_spares ?h ! s) = unat ?n + level_base s" if "s \<le> L" for s
  proof (cases s)
    case 0
    then show ?thesis using init_spares_nth [OF sp L(1) that, of ?n] by (simp add: L(7) level_base_def)
  next
    case (Suc r)
    have "unat (2 ^ r :: u32) = 2 ^ r" using Suc that L(1) by (intro unat_exp32) simp
    moreover have "(2::nat) ^ r \<le> 2 ^ 30" using pow [of r] Suc that by simp
    ultimately show ?thesis
      using init_spares_nth [OF sp L(1) that, of ?n] assms(4) Suc
      by (simp add: L(7) level_base_def unat_word_ariths)
  qed
  have base: "level_base s + level_size s = level_base (Suc s)" for s
    by (cases s) (simp_all add: level_base_def level_size_def)
  have len: "length (h_spares ?h) = NCACHED" using length_init_spares [OF sp L(1)] by (simp add: L(7) NCACHED_def)
  have mono: "unat (h_spares ?h ! s) + level_size s \<le> unat (h_spares ?h ! Suc s)" if "s < L" for s
    using start [of s] start [of "Suc s"] that base [of s] by simp
  have last: "unat (h_spares ?h ! L) + level_size L < 2 ^ 32"
    using start [of L] base [of L] assms(4) pow [of L] by (simp add: level_base_def)
  have ok: "spares_ok ?h L" using len mono last L(1) by (simp add: spares_ok_def)
  have uL: "unat (2 ^ L :: u32) = 2 ^ L" using L(1) by (intro unat_exp32) simp
  have max: "unat (h_max_bucket ?h) = 2 ^ L - 1"
    using unat_mask32 [of L] L(1) by (simp add: L(4) mask_eq_exp_minus_1)
  have page: "\<exists>p. BUCKET_TO_PAGE ?h B = Some p \<and> unat p = unat ?n + unat B" if B: "unat B < 2 ^ L" for B
    using bucket_page [OF ok B] start by fastforce
  have masks: "masks_ok ?h k" if "L = Suc k" for k
  proof -
    have k: "k \<le> 29" using that L(1) by simp
    have "(1::nat) \<le> 2 ^ k" by simp
    then have "(2::nat) ^ k \<le> 2 ^ Suc k - 1" by simp
    then show ?thesis
      using signed_half [OF k] that k max by (simp add: masks_ok_def L(4,5,6) mask_eq_exp_minus_1)
  qed
  have "h_high_mask ?h = 0 \<and> h_low_mask ?h = - 1 \<and> \<not> masks_ok ?h 0" if "L = 0"
    using that L(4,5,6) signed_half_one by (simp add: masks_ok_def)
  then have "case L of 0 \<Rightarrow> h_high_mask ?h = 0 \<and> h_low_mask ?h = - 1 \<and> \<not> masks_ok ?h 0 | Suc k \<Rightarrow> masks_ok ?h k"
    using masks by (cases L) simp_all
  then show ?thesis
    using L(1-3) max ok page by (intro exI [of _ L]) blast
qed

text \<open>C29: A table that starts with the default of one bucket grows wrongly: the low mask of
  one bucket is all ones, so the first expansion splits bucket 1, the new bucket, instead
  of bucket 0; the pairs of bucket 0 stay there, but from then on keys with an odd hash are
  looked for in bucket 1.\<close>
theorem first_split_of_one_bucket:
  assumes "ffdb_init_htab hashp 1 info = Some hashp'" "length (h_spares (hdr hashp)) = NCACHED"
  shows "\<exists>h. expand_header (hdr hashp') = Some (1, 1, True, h) \<and>
    ffdb_call_hash hash (hdr hashp') key len = 0 \<and>
    (odd (hash key len) \<longrightarrow> ffdb_call_hash hash h key len = 1)"
proof -
  obtain L where L: "\<forall>j < L. 2 ^ j < unat (1 :: u32)" "h_ovfl_point (hdr hashp') = of_nat L"
    "h_max_bucket (hdr hashp') = 2 ^ L - 1" "h_high_mask (hdr hashp') = 2 ^ L - 1"
    "h_low_mask (hdr hashp') = signed_drop_bit 1 (2 ^ L) - 1"
    using init_htab_fields [OF assms(1)] assms(2) by (auto simp: NCACHED_def)
  have "L = 0" using L(1) by (cases L) auto
  have h: "h_ovfl_point (hdr hashp') = 0" "h_max_bucket (hdr hashp') = 0" "h_high_mask (hdr hashp') = 0"
    "h_low_mask (hdr hashp') = - 1"
    using L \<open>L = 0\<close> signed_half_one by simp_all
  have lg: "ffdb_log2 2 = Some 1" by (simp add: ffdb_log2_def log2_loop.simps)
  have e: "expand_header (hdr hashp') = Some (1, 1, True, (hdr hashp')\<lparr>h_max_bucket := 1, h_low_mask := 0,
      h_high_mask := 1, h_ovfl_point := 1\<rparr>)"
    by (simp add: expand_header_def Let_def h lg)
  have one: "n AND 1 = 1" if "odd n" for n :: u32
    using that by (simp add: and_one_eq odd_iff_mod_2_eq_one)
  show ?thesis
    by (intro exI conjI, rule e) (auto simp: ffdb_call_hash_def h one)
qed

section \<open>Witnesses\<close>

definition wit_file :: osfile where
  "wit_file = \<lparr>f_data = [], f_room = 1000000, f_writable = True\<rparr>"

definition wit_htab :: htab where
  "wit_htab = \<lparr>hdr = wit_table, ht_hash = (\<lambda>k len. len), h_compare = ham_defcmp, mborder = LITTLE_ENDIAN,
     rdonly = False, split_buf = [], db_errno = 0, new_file = False, save_file = True,
     curr_dpage = INVALID_PGNO, rearrange_pages = False, mp = (pagepool_create 0 (\<lambda>_. []))\<lparr>backing := wit_file\<rparr>,
     data_valid_flag = DATA_VALID, data_invalid_flag = DATA_INVALID\<rparr>"

lemma wit_shape: "hdr_shape (hdr wit_htab)"
  by (simp add: wit_htab_def wit_table_def hdr_shape_def NCACHED_def)

lemma length_hput_image: "hdr_shape h \<Longrightarrow> length (snd (hput_image m h)) = 332"
  by (simp add: hput_image_def Let_def ffdb_swap_header_copy_def)

lemma wit_hput:
  "ffdb_hput_header wit_htab = (0, snd (ffdb_hput_header wit_htab))"
  "f_data (backing (mp (snd (ffdb_hput_header wit_htab)))) = snd (hput_image (mborder wit_htab) (hdr wit_htab))"
proof -
  obtain h bytes where i: "hput_image (mborder wit_htab) (hdr wit_htab) = (h, bytes)" by fastforce
  have l: "length bytes = 332" using length_hput_image [OF wit_shape, of "mborder wit_htab"] i by simp
  have b: "backing (mp wit_htab) = wit_file" by (simp add: wit_htab_def)
  have w: "file_write wit_file 0 bytes = Some (wit_file\<lparr>f_data := bytes\<rparr>)"
    using l by (simp add: file_write_def wit_file_def)
  show "ffdb_hput_header wit_htab = (0, snd (ffdb_hput_header wit_htab))"
    "f_data (backing (mp (snd (ffdb_hput_header wit_htab)))) = snd (hput_image (mborder wit_htab) (hdr wit_htab))"
    by (simp_all add: ffdb_hput_header_def i b w Let_def)
qed

theorem header_roundtrip_witness:
  "\<exists>c. ffdb_hget_header (wit_htab\<lparr>mp := mp (snd (ffdb_hput_header wit_htab))\<rparr>) =
     Some (332, (wit_htab\<lparr>mp := mp (snd (ffdb_hput_header wit_htab))\<rparr>)\<lparr>hdr := (hdr wit_htab)\<lparr>h_chksum := c\<rparr>\<rparr>)"
  by (rule header_roundtrip [OF wit_hput(1) wit_shape]) (simp_all add: wit_shape)

text \<open>The table whose file has one byte of the header changed.\<close>

definition wit_damaged :: "htab \<Rightarrow> htab" where
  "wit_damaged h = h\<lparr>mp := (mp h)\<lparr>backing := (backing (mp h))\<lparr>f_data :=
     (f_data (backing (mp h)))[5 := f_data (backing (mp h)) ! 5 + 1]\<rparr>\<rparr>\<rparr>"

theorem header_damage_detected_witness:
  "ffdb_hget_header (wit_damaged (wit_htab\<lparr>mp := mp (snd (ffdb_hput_header wit_htab))\<rparr>)) = None"
proof -
  let ?d = "snd (hput_image (mborder wit_htab) (hdr wit_htab))"
  have l: "length ?d = 332" by (rule length_hput_image [OF wit_shape])
  show ?thesis
    by (rule header_damage_detected [OF wit_hput(1) wit_shape, where i = 5 and b = "?d ! 5 + 1"])
       (simp_all add: file_read_def mem_get_def wit_hput(2) wit_damaged_def l wit_shape)
qed

lemma wit_init:
  "ffdb_log2 4 = Some 2" "ffdb_log2 1 = Some 0"
  "ffdb_num_config_info_pages wit_table 1 = Some 1"
  by (simp_all add: log2_4 config_pages_eval configs_per_page_def bsize_less_eq wit_table_def ffdb_consts)
     (simp add: ffdb_log2_def log2_loop.simps)

lemma wit_init_htab:
  "\<exists>h. ffdb_init_htab wit_htab 4 None = Some h \<and> unat (h_hdrpages (hdr h)) \<le> 2 ^ 31"
  "\<exists>h. ffdb_init_htab wit_htab 1 None = Some h"
  using wit_init by (simp_all add: ffdb_init_htab_def wit_htab_def Let_def)
    (simp_all add: wit_table_def bsize_less_eq ffdb_consts)

theorem new_table_layout_witness:
  "\<exists>h. ffdb_init_htab wit_htab 4 None = Some h \<and> (\<exists>L \<le> 30. (\<forall>j < L. 2 ^ j < unat (4 :: u32)) \<and> unat (4 :: u32) \<le> 2 ^ L \<and>
    unat (h_max_bucket (hdr h)) = 2 ^ L - 1 \<and> spares_ok (hdr h) L \<and>
    (\<forall>B. unat B < 2 ^ L \<longrightarrow>
       (\<exists>p. BUCKET_TO_PAGE (hdr h) B = Some p \<and> unat p = unat (h_hdrpages (hdr h)) + unat B)) \<and>
    (case L of 0 \<Rightarrow> h_high_mask (hdr h) = 0 \<and> h_low_mask (hdr h) = - 1 \<and> \<not> masks_ok (hdr h) 0 | Suc k \<Rightarrow> masks_ok (hdr h) k))"
proof -
  obtain h where h: "ffdb_init_htab wit_htab 4 None = Some h" "unat (h_hdrpages (hdr h)) \<le> 2 ^ 31"
    using wit_init_htab(1) by blast
  have "length (h_spares (hdr wit_htab)) = NCACHED" using wit_shape by (simp add: hdr_shape_def)
  from new_table_layout [OF h(1) _ this h(2)] show ?thesis using h(1) by (intro exI [of _ h]) simp
qed

theorem first_split_of_one_bucket_witness:
  "\<exists>h0 h. ffdb_init_htab wit_htab 1 None = Some h0 \<and> expand_header (hdr h0) = Some (1, 1, True, h) \<and>
    ffdb_call_hash (\<lambda>k len. 7) (hdr h0) [] 0 = 0 \<and> (odd (7 :: u32) \<longrightarrow> ffdb_call_hash (\<lambda>k len. 7) h [] 0 = 1)"
proof -
  obtain h0 where h0: "ffdb_init_htab wit_htab 1 None = Some h0" using wit_init_htab(2) by blast
  have "length (h_spares (hdr wit_htab)) = NCACHED" using wit_shape by (simp add: hdr_shape_def)
  from first_split_of_one_bucket [OF h0 this, of "\<lambda>k len. 7" "[]" 0] show ?thesis using h0 by blast
qed

end
