(* ===== verification/FFDB_Info.thy ===== *)
theory FFDB_Info
  imports FFDB_Meta FFDB_Data
begin

text \<open>
  The user information and the configuration table in the pages after the header
  (\<open>ffdb_set_uinfo\<close>, \<open>ffdb_get_uinfo\<close>, the \<open>config\<close> functions of \<open>ffdb_page.c\<close> and their
  callers in \<open>ffdb_hash.c\<close>).
\<close>

section \<open>Configurations\<close>

record config_info =
  ci_config :: u32
  ci_index :: u32
  ci_inserted :: u32
  ci_type :: u32
  ci_mtime :: u32
  ci_fname :: mem

definition ci_bytes :: "config_info \<Rightarrow> mem" where
  "ci_bytes c = u32_bytes (ci_config c) @ u32_bytes (ci_index c) @ u32_bytes (ci_inserted c)
     @ u32_bytes (ci_type c) @ u32_bytes (ci_mtime c) @ ci_fname c"

text \<open>Entry \<open>k\<close> of a configuration page; it must lie in the page.\<close>

definition rd_config :: "mem \<Rightarrow> nat \<Rightarrow> config_info option" where
  "rd_config p k =
     (let off = CONFIG_INFO k
      in if off + SIZEOF_CONFIG_INFO \<le> length p
         then Some \<lparr>ci_config = rd32 p off, ci_index = rd32 p (off + 4), ci_inserted = rd32 p (off + 8),
           ci_type = rd32 p (off + 12), ci_mtime = rd32 p (off + 16), ci_fname = mem_get p (off + 20) 128\<rparr>
         else None)"

fun put_configs :: "mem \<Rightarrow> config_info list \<Rightarrow> nat \<Rightarrow> nat \<Rightarrow> mem option" where
  "put_configs p cs k 0 = Some p"
| "put_configs p [] k (Suc n) = None"
| "put_configs p (c # cs) k (Suc n) = do {
     p1 \<leftarrow> mem_write p (CONFIG_INFO k) (ci_bytes c);
     put_configs p1 cs (Suc k) n
   }"

fun set_configs_pages ::
    "htab \<Rightarrow> config_info list \<Rightarrow> u32 \<Rightarrow> pgno \<Rightarrow> nat \<Rightarrow> (int \<times> htab) option" where
  "set_configs_pages hashp cs tnums page 0 = Some (0, hashp)"
| "set_configs_pages hashp cs tnums page (Suc n) = do {
     (mem, _, hashp1) \<leftarrow> ffdb_get_page hashp page HASH_CONFIG_PAGE 0;
     (case mem of
        None \<Rightarrow> Some (- 1, hashp1)
      | Some b \<Rightarrow> do {
          p \<leftarrow> page_at hashp1 b;
          let numelems = configs_per_page (hdr hashp1);
          let numelems1 = (if numelems > tnums then tnums else numelems);
          let p1 = set_NUM_ENT (ucast numelems1) p;
          let k = unat (NUM_ENT p1);
          p2 \<leftarrow> put_configs p1 cs 0 k;
          (_, hashp2) \<leftarrow> ffdb_put_page (poke b (\<lambda>_. p2) hashp1) b True;
          set_configs_pages hashp2 (drop k cs) (tnums - numelems1) (page + 1) n
        })
   }"

definition ffdb_set_configs :: "htab \<Rightarrow> config_info list \<Rightarrow> (int \<times> htab) option" where
  "ffdb_set_configs hashp cs =
     set_configs_pages hashp cs (h_num_cfigs (hdr hashp)) (ucast (h_cfig_page (hdr hashp)))
       (unat (h_cfig_npages (hdr hashp)))"

fun take_configs :: "mem \<Rightarrow> nat \<Rightarrow> nat \<Rightarrow> config_info list option" where
  "take_configs p k 0 = Some []"
| "take_configs p k (Suc n) = do {
     c \<leftarrow> rd_config p k;
     cs \<leftarrow> take_configs p (Suc k) n;
     Some (c # cs)
   }"

fun get_configs_pages :: "htab \<Rightarrow> pgno \<Rightarrow> nat \<Rightarrow> (int \<times> config_info list \<times> htab) option" where
  "get_configs_pages hashp page 0 = Some (0, [], hashp)"
| "get_configs_pages hashp page (Suc n) = do {
     (mem, _, hashp1) \<leftarrow> ffdb_get_page hashp page HASH_CONFIG_PAGE 0;
     (case mem of
        None \<Rightarrow> Some (- 1, [], hashp1)
      | Some b \<Rightarrow> do {
          p \<leftarrow> page_at hashp1 b;
          cs \<leftarrow> take_configs p 0 (unat (NUM_ENT p));
          (_, hashp2) \<leftarrow> ffdb_put_page hashp1 b False;
          (st, ds, hashp3) \<leftarrow> get_configs_pages hashp2 (page + 1) n;
          Some (st, cs @ ds, hashp3)
        })
   }"

text \<open>The array has room for \<open>room\<close> configurations; a copy past its end does not return.\<close>

definition ffdb_get_configs :: "htab \<Rightarrow> nat \<Rightarrow> (int \<times> config_info list \<times> htab) option" where
  "ffdb_get_configs hashp room = do {
     (st, cs, hashp1) \<leftarrow> get_configs_pages hashp (ucast (h_cfig_page (hdr hashp))) (unat (h_cfig_npages (hdr hashp)));
     if length cs > room then None else Some (st, cs, hashp1)
   }"

text \<open>The first of the entries \<open>k\<close> to \<open>k + n - 1\<close> of a page with a property.\<close>

fun find_config :: "(config_info \<Rightarrow> bool) \<Rightarrow> mem \<Rightarrow> nat \<Rightarrow> nat \<Rightarrow> (nat \<times> config_info) option option" where
  "find_config P p k 0 = Some None"
| "find_config P p k (Suc n) = do {
     c \<leftarrow> rd_config p k;
     if P c then Some (Some (k, c)) else find_config P p (Suc k) n
   }"

fun set_config_pages :: "htab \<Rightarrow> config_info \<Rightarrow> pgno \<Rightarrow> nat \<Rightarrow> (int \<times> htab) option" where
  "set_config_pages hashp config page 0 = Some (- 1, hashp)"
| "set_config_pages hashp config page (Suc n) = do {
     (mem, _, hashp1) \<leftarrow> ffdb_get_page hashp page HASH_CONFIG_PAGE 0;
     (case mem of
        None \<Rightarrow> Some (- 1, hashp1)
      | Some b \<Rightarrow> do {
          p \<leftarrow> page_at hashp1 b;
          r \<leftarrow> find_config (\<lambda>c. ci_index c = ci_index config \<and> ci_config c = ci_config config) p 0 (unat (NUM_ENT p));
          (case r of
             Some (k, _) \<Rightarrow> do {
               p1 \<leftarrow> mem_write p (CONFIG_INFO k) (ci_bytes config);
               (_, hashp2) \<leftarrow> ffdb_put_page (poke b (\<lambda>_. p1) hashp1) b True;
               Some (0, hashp2)
             }
           | None \<Rightarrow> do {
               (_, hashp2) \<leftarrow> ffdb_put_page hashp1 b False;
               set_config_pages hashp2 config (page + 1) n
             })
        })
   }"

definition ffdb_set_config_info :: "htab \<Rightarrow> config_info \<Rightarrow> (int \<times> htab) option" where
  "ffdb_set_config_info hashp config =
     set_config_pages hashp config (ucast (h_cfig_page (hdr hashp))) (unat (h_cfig_npages (hdr hashp)))"

fun get_config_pages :: "htab \<Rightarrow> u32 \<Rightarrow> config_info \<Rightarrow> pgno \<Rightarrow> nat \<Rightarrow> (int \<times> config_info \<times> htab) option" where
  "get_config_pages hashp confignum config page 0 = Some (- 1, config, hashp)"
| "get_config_pages hashp confignum config page (Suc n) = do {
     (mem, _, hashp1) \<leftarrow> ffdb_get_page hashp page HASH_CONFIG_PAGE 0;
     (case mem of
        None \<Rightarrow> Some (- 1, config, hashp1)
      | Some b \<Rightarrow> do {
          p \<leftarrow> page_at hashp1 b;
          r \<leftarrow> find_config (\<lambda>c. ci_config c = confignum) p 0 (unat (NUM_ENT p));
          (_, hashp2) \<leftarrow> ffdb_put_page hashp1 b False;
          (case r of
             Some (_, c) \<Rightarrow> Some (0, c, hashp2)
           | None \<Rightarrow> get_config_pages hashp2 confignum config (page + 1) n)
        })
   }"

definition ffdb_get_config_info :: "htab \<Rightarrow> u32 \<Rightarrow> config_info \<Rightarrow> (int \<times> config_info \<times> htab) option" where
  "ffdb_get_config_info hashp confignum config =
     get_config_pages hashp confignum config (ucast (h_cfig_page (hdr hashp))) (unat (h_cfig_npages (hdr hashp)))"

section \<open>The interface for configurations\<close>

definition ffdb_set_all_configs :: "htab \<Rightarrow> u32 \<Rightarrow> config_info list \<Rightarrow> (int \<times> htab) option" where
  "ffdb_set_all_configs hashp numconfigs cs =
     (if numconfigs \<noteq> h_num_cfigs (hdr hashp) then Some (- 1, hashp\<lparr>mp := (mp hashp)\<lparr>errno := EINVAL\<rparr>\<rparr>)
      else ffdb_set_configs hashp cs)"

definition ffdb_get_all_configs :: "htab \<Rightarrow> (int \<times> config_info list \<times> htab) option" where
  "ffdb_get_all_configs hashp = ffdb_get_configs hashp (unat (h_num_cfigs (hdr hashp)))"

definition ffdb_num_configs :: "htab \<Rightarrow> u32" where
  "ffdb_num_configs hashp = h_num_cfigs (hdr hashp)"

definition ffdb_set_config :: "htab \<Rightarrow> config_info \<Rightarrow> (int \<times> htab) option" where
  "ffdb_set_config hashp config =
     (if ci_index config \<ge> h_num_cfigs (hdr hashp) \<or> sint (ci_index config) < 0
      then Some (- 1, hashp\<lparr>mp := (mp hashp)\<lparr>errno := EINVAL\<rparr>\<rparr>)
      else ffdb_set_config_info hashp config)"

definition ffdb_get_config :: "htab \<Rightarrow> u32 \<Rightarrow> config_info \<Rightarrow> (int \<times> config_info \<times> htab) option" where
  "ffdb_get_config hashp confignum config =
     (if sint (ci_index config) \<ge> int (unat (h_cfig_npages (hdr hashp))) \<or> sint (ci_index config) < 0
      then Some (- 1, config, hashp\<lparr>mp := (mp hashp)\<lparr>errno := EINVAL\<rparr>\<rparr>)
      else ffdb_get_config_info hashp confignum config)"

section \<open>User information\<close>

text \<open>Where the data starts on page \<open>i\<close> of the user information, and how much fits.\<close>

definition uinfo_start :: "bool \<Rightarrow> nat" where
  "uinfo_start firstp = (if firstp then PAGE_OVERHEAD + 4 else PAGE_OVERHEAD)"

definition uinfo_room :: "hashhdr \<Rightarrow> bool \<Rightarrow> nat" where
  "uinfo_room h firstp = bsize_less h (uinfo_start firstp)"

fun set_uinfo_pages :: "htab \<Rightarrow> mem \<Rightarrow> nat \<Rightarrow> bool \<Rightarrow> nat \<Rightarrow> pgno \<Rightarrow> nat \<Rightarrow> (int \<times> htab) option" where
  "set_uinfo_pages hashp data len firstp rlen page 0 = Some (0, hashp)"
| "set_uinfo_pages hashp data len firstp rlen page (Suc n) = do {
     (mem, _, hashp1) \<leftarrow> ffdb_get_page hashp page HASH_UINFO_PAGE 0;
     (case mem of
        None \<Rightarrow> Some (- 1, hashp1)
      | Some b \<Rightarrow> do {
          p \<leftarrow> page_at hashp1 b;
          let p1 = (if firstp then set_USER_DATA_LEN (of_nat rlen) (set_NUM_ENT 1 p) else set_NUM_ENT 0 p);
          let copylen = min rlen (uinfo_room (hdr hashp1) firstp);
          bytes \<leftarrow> mem_read data (len - rlen) copylen;
          p2 \<leftarrow> mem_write p1 (uinfo_start firstp) bytes;
          (_, hashp2) \<leftarrow> ffdb_put_page (poke b (\<lambda>_. p2) hashp1) b True;
          set_uinfo_pages hashp2 data len False (rlen - copylen) (page + 1) n
        })
   }"

definition ffdb_set_uinfo :: "htab \<Rightarrow> mem \<Rightarrow> u32 \<Rightarrow> (int \<times> htab) option" where
  "ffdb_set_uinfo hashp data len =
     set_uinfo_pages hashp data (unat len) True (unat len) (ucast (h_uinfo_page (hdr hashp)))
       (unat (h_uinfo_npages (hdr hashp)))"

text \<open>The results are the status, the buffer, the length, and the table.\<close>

fun get_uinfo_pages ::
    "htab \<Rightarrow> mem \<Rightarrow> nat \<Rightarrow> bool \<Rightarrow> nat \<Rightarrow> pgno \<Rightarrow> nat \<Rightarrow> (int \<times> mem \<times> nat \<times> htab) option" where
  "get_uinfo_pages hashp data len firstp rlen page 0 = Some (0, data, len, hashp)"
| "get_uinfo_pages hashp data len firstp rlen page (Suc n) = do {
     (mem, _, hashp1) \<leftarrow> ffdb_get_page hashp page HASH_UINFO_PAGE 0;
     (case mem of
        None \<Rightarrow> Some (- 1, data, len, hashp1)
      | Some b \<Rightarrow> do {
          p \<leftarrow> page_at hashp1 b;
          let stored = unat (USER_DATA_LEN p);
          if firstp \<and> len < stored then Some (- 1, data, len, hashp1)
          else do {
            let len1 = (if firstp then stored else len);
            let rlen1 = (if firstp then stored else rlen);
            let copylen = min rlen1 (uinfo_room (hdr hashp1) firstp);
            bytes \<leftarrow> mem_read p (uinfo_start firstp) copylen;
            data1 \<leftarrow> mem_write data (len1 - rlen1) bytes;
            (_, hashp2) \<leftarrow> ffdb_put_page hashp1 b False;
            get_uinfo_pages hashp2 data1 len1 False (rlen1 - copylen) (page + 1) n
          }
        })
   }"

definition ffdb_get_uinfo :: "htab \<Rightarrow> mem \<Rightarrow> u32 \<Rightarrow> (int \<times> mem \<times> nat \<times> htab) option" where
  "ffdb_get_uinfo hashp data len =
     get_uinfo_pages hashp data (unat len) True (unat len) (ucast (h_uinfo_page (hdr hashp)))
       (unat (h_uinfo_npages (hdr hashp)))"

definition ffdb_set_user_info :: "htab \<Rightarrow> mem \<Rightarrow> u32 \<Rightarrow> (int \<times> htab) option" where
  "ffdb_set_user_info hashp data len =
     (if len > h_uinfolen (hdr hashp) then Some (- 1, hashp\<lparr>mp := (mp hashp)\<lparr>errno := EINVAL\<rparr>\<rparr>)
      else ffdb_set_uinfo hashp data len)"

definition ffdb_get_user_info :: "htab \<Rightarrow> mem \<Rightarrow> u32 \<Rightarrow> (int \<times> mem \<times> nat \<times> htab) option" where
  "ffdb_get_user_info hashp data len = ffdb_get_uinfo hashp data len"

definition ffdb_max_user_info_len :: "htab \<Rightarrow> u32" where
  "ffdb_max_user_info_len hashp = h_uinfolen (hdr hashp)"

end
