(* ===== verification/FFDB_Cursor.thy ===== *)
theory FFDB_Cursor
  imports FFDB_Bucket
begin

text \<open>
  Cursors: stepping forwards and backwards over the pairs of the table
  (\<open>ffdb_cursor_find_by_key\<close>) and the cursor operations of \<open>ffdb_hash.c\<close>. A cursor holds
  the page it stands on. The queue of cursors of the table is only used to enter and remove
  them and is not modelled.
\<close>

definition FFDB_FIRST :: u32 where [ffdb_consts]: "FFDB_FIRST = 7"
definition FFDB_LAST :: u32 where [ffdb_consts]: "FFDB_LAST = 15"
definition FFDB_NEXT :: u32 where [ffdb_consts]: "FFDB_NEXT = 16"
definition FFDB_PREV :: u32 where [ffdb_consts]: "FFDB_PREV = 23"
definition FFDB_KEY_CURSOR :: u32 where [ffdb_consts]: "FFDB_KEY_CURSOR = 0x1001"
definition FFDB_DATA_CURSOR :: u32 where [ffdb_consts]: "FFDB_DATA_CURSOR = 0x1004"

record crs =
  c_item :: hent
  c_type :: u32

section \<open>Skipping empty buckets\<close>

text \<open>
  Where a scan for a bucket with pairs ends: at a page with its number and bucket; at a
  page that cannot be loaded; or with no bucket left.
\<close>

datatype scan = AtPage nat pgno u32 htab | NoPage u32 htab | NoMore u32 htab

text \<open>The loop of \<open>FFDB_FIRST\<close>, which looks at one bucket after the last one.\<close>

partial_function (option) scan_first :: "htab \<Rightarrow> nat \<Rightarrow> pgno \<Rightarrow> u32 \<Rightarrow> scan option" where
  "scan_first hashp pagep tp bucket = do {
     p \<leftarrow> page_at hashp pagep;
     if NUM_ENT p = 0 \<and> bucket \<le> h_max_bucket (hdr hashp) then do {
       (_, hashp1) \<leftarrow> ffdb_put_page hashp pagep False;
       (mem, tp1, hashp2) \<leftarrow> ffdb_get_page hashp1 (bucket + 1) HASH_BUCKET_PAGE 0;
       (case mem of
          None \<Rightarrow> Some (NoPage (bucket + 1) hashp2)
        | Some b \<Rightarrow> scan_first hashp2 b tp1 (bucket + 1))
     } else if bucket > h_max_bucket (hdr hashp) then do {
       (_, hashp1) \<leftarrow> ffdb_put_page hashp pagep False;
       Some (NoMore bucket hashp1)
     } else Some (AtPage pagep tp bucket hashp)
   }"

text \<open>The loop of \<open>FFDB_LAST\<close>.\<close>

partial_function (option) scan_last :: "htab \<Rightarrow> nat \<Rightarrow> pgno \<Rightarrow> u32 \<Rightarrow> scan option" where
  "scan_last hashp pagep tp bucket = do {
     p \<leftarrow> page_at hashp pagep;
     if NUM_ENT p = 0 then do {
       (_, hashp1) \<leftarrow> ffdb_put_page hashp pagep False;
       (mem, tp1, hashp2) \<leftarrow> ffdb_get_page hashp1 (bucket - 1) HASH_BUCKET_PAGE 0;
       (case mem of
          None \<Rightarrow> Some (NoPage (bucket - 1) hashp2)
        | Some b \<Rightarrow> do {
            q \<leftarrow> page_at hashp2 b;
            if bucket - 1 = 0 \<and> NUM_ENT q = 0 then do {
              (_, hashp3) \<leftarrow> ffdb_put_page hashp2 b False;
              Some (NoMore (bucket - 1) hashp3)
            } else scan_last hashp2 b tp1 (bucket - 1)
          })
     } else Some (AtPage pagep tp bucket hashp)
   }"

text \<open>The loops of \<open>FFDB_NEXT\<close> and \<open>FFDB_PREV\<close>: the bucket after which they stop and the step.\<close>

partial_function (option) scan_step :: "u32 \<Rightarrow> u32 \<Rightarrow> htab \<Rightarrow> nat \<Rightarrow> pgno \<Rightarrow> u32 \<Rightarrow> scan option" where
  "scan_step final step hashp pagep tp bucket = do {
     p \<leftarrow> page_at hashp pagep;
     if NUM_ENT p = 0 then do {
       (_, hashp1) \<leftarrow> ffdb_put_page hashp pagep False;
       if bucket = final then Some (NoMore bucket hashp1)
       else do {
         (mem, tp1, hashp2) \<leftarrow> ffdb_get_page hashp1 (bucket + step) HASH_BUCKET_PAGE 0;
         (case mem of
            None \<Rightarrow> Some (NoPage (bucket + step) hashp2)
          | Some b \<Rightarrow> scan_step final step hashp2 b tp1 (bucket + step))
       }
     } else Some (AtPage pagep tp bucket hashp)
   }"

section \<open>Moving a cursor\<close>

definition item_error :: "hent \<Rightarrow> hent" where
  "item_error item = item\<lparr>it_pagep := None, it_status := ITEM_ERROR\<rparr>"

definition item_no_more :: "hent \<Rightarrow> hent" where
  "item_no_more item = item\<lparr>it_pagep := None, it_status := ITEM_NO_MORE\<rparr>"

text \<open>Releasing the page a cursor holds, if any.\<close>

definition item_release :: "htab \<Rightarrow> hent \<Rightarrow> htab option" where
  "item_release hashp item = (case it_pagep item of None \<Rightarrow> Some hashp
     | Some b \<Rightarrow> map_option snd (ffdb_put_page hashp b False))"

text \<open>The status is 0 when the cursor stands on a pair.\<close>

definition move_first :: "htab \<Rightarrow> hent \<Rightarrow> (int \<times> hent \<times> htab) option" where
  "move_first hashp item = do {
     hashp1 \<leftarrow> item_release hashp item;
     (mem, tp, hashp2) \<leftarrow> ffdb_get_page hashp1 0 HASH_BUCKET_PAGE 0;
     (case mem of
        None \<Rightarrow> Some (- 1, item_error item, hashp2)
      | Some b \<Rightarrow> do {
          s \<leftarrow> scan_first hashp2 b tp 0;
          (case s of
             NoPage _ hashp3 \<Rightarrow> Some (- 1, item_error item, hashp3)
           | NoMore _ hashp3 \<Rightarrow> Some (FFDB_NOT_FOUND, item_no_more item, hashp3)
           | AtPage pagep pg bucket hashp3 \<Rightarrow>
               Some (0, item\<lparr>it_pagep := Some pagep, it_bucket := bucket, it_pgno := pg, it_pgndx := 0,
                 it_status := ITEM_OK\<rparr>, hashp3))
        })
   }"

definition move_last :: "htab \<Rightarrow> hent \<Rightarrow> (int \<times> hent \<times> htab) option" where
  "move_last hashp item = do {
     hashp1 \<leftarrow> item_release hashp item;
     let bucket = h_max_bucket (hdr hashp1);
     (mem, tp, hashp2) \<leftarrow> ffdb_get_page hashp1 bucket HASH_BUCKET_PAGE 0;
     (case mem of
        None \<Rightarrow> Some (- 1, item_error item, hashp2)
      | Some b \<Rightarrow> do {
          s \<leftarrow> scan_last hashp2 b tp bucket;
          (case s of
             NoPage _ hashp3 \<Rightarrow> Some (- 1, item_error item, hashp3)
           | NoMore _ hashp3 \<Rightarrow> Some (FFDB_NOT_FOUND, item_no_more item, hashp3)
           | AtPage pagep pg bucket1 hashp3 \<Rightarrow> do {
               p \<leftarrow> page_at hashp3 pagep;
               Some (0, item\<lparr>it_pagep := Some pagep, it_bucket := bucket1, it_pgno := pg,
                 it_pgndx := NUM_ENT p - 1, it_status := ITEM_OK\<rparr>, hashp3)
             })
        })
   }"

text \<open>
  Standing on a page after a move; the index is the first pair of the page, or the last one
  when going backwards.
\<close>

definition land_on :: "bool \<Rightarrow> hent \<Rightarrow> nat \<Rightarrow> pgno \<Rightarrow> u32 \<Rightarrow> htab \<Rightarrow> (int \<times> hent \<times> htab) option" where
  "land_on backward item pagep pg bucket hashp = do {
     p \<leftarrow> page_at hashp pagep;
     Some (0, item\<lparr>it_pagep := Some pagep, it_bucket := bucket, it_pgno := pg,
       it_pgndx := (if backward then NUM_ENT p - 1 else 0), it_status := ITEM_OK\<rparr>, hashp)
   }"

definition land_scan :: "bool \<Rightarrow> hent \<Rightarrow> scan \<Rightarrow> (int \<times> hent \<times> htab) option" where
  "land_scan backward item s = (case s of
     AtPage pagep pg bucket hashp \<Rightarrow> land_on backward item pagep pg bucket hashp
   | NoPage bucket hashp \<Rightarrow> Some (- 1, item_error (item\<lparr>it_bucket := bucket\<rparr>), hashp)
   | NoMore bucket hashp \<Rightarrow> Some (FFDB_NOT_FOUND, item_no_more (item\<lparr>it_bucket := bucket\<rparr>), hashp))"

definition move_next :: "htab \<Rightarrow> hent \<Rightarrow> (int \<times> hent \<times> htab) option" where
  "move_next hashp item = do {
     pagep \<leftarrow> it_pagep item;
     p \<leftarrow> page_at hashp pagep;
     if int (unat (it_pgndx item)) = int (unat (NUM_ENT p)) - 1 then do {
       let nextp = NEXT_PGNO p;
       (_, hashp1) \<leftarrow> ffdb_put_page hashp pagep False;
       let maxb = h_max_bucket (hdr hashp1);
       if it_bucket item \<ge> maxb \<and> nextp = INVALID_PGNO
       then Some (FFDB_NOT_FOUND, item_no_more item, hashp1)
       else if nextp = INVALID_PGNO then do {
         let bucket = it_bucket item + 1;
         (mem, tp, hashp2) \<leftarrow> ffdb_get_page hashp1 bucket HASH_BUCKET_PAGE 0;
         (case mem of
            None \<Rightarrow> Some (- 1, item_error (item\<lparr>it_bucket := bucket\<rparr>), hashp2)
          | Some b \<Rightarrow> do {
              s \<leftarrow> scan_step maxb 1 hashp2 b tp bucket;
              land_scan False item s
            })
       } else do {
         (mem, tp, hashp2) \<leftarrow> ffdb_get_page hashp1 nextp HASH_RAW_PAGE 0;
         (case mem of
            None \<Rightarrow> Some (- 1, item_error item, hashp2)
          | Some b \<Rightarrow> land_on False item b tp (it_bucket item) hashp2)
       }
     } else Some (0, item\<lparr>it_pgndx := it_pgndx item + 1\<rparr>, hashp)
   }"

text \<open>Here the page of the bucket before is not checked for null.\<close>

definition move_prev :: "htab \<Rightarrow> hent \<Rightarrow> (int \<times> hent \<times> htab) option" where
  "move_prev hashp item =
     (if it_pgndx item = 0 then do {
        pagep \<leftarrow> it_pagep item;
        p \<leftarrow> page_at hashp pagep;
        let nextp = NEXT_PGNO p;
        (_, hashp1) \<leftarrow> ffdb_put_page hashp pagep False;
        if it_bucket item = 0 \<and> nextp = INVALID_PGNO
        then Some (FFDB_NOT_FOUND, item_no_more item, hashp1)
        else if nextp = INVALID_PGNO then do {
          let bucket = it_bucket item - 1;
          (mem, tp, hashp2) \<leftarrow> ffdb_get_page hashp1 bucket HASH_BUCKET_PAGE 0;
          b \<leftarrow> mem;
          s \<leftarrow> scan_step 0 (- 1) hashp2 b tp bucket;
          land_scan True item s
        } else do {
          (mem, tp, hashp2) \<leftarrow> ffdb_get_page hashp1 nextp HASH_RAW_PAGE 0;
          (case mem of
             None \<Rightarrow> Some (- 1, item_error item, hashp2)
           | Some b \<Rightarrow> land_on True item b tp (it_bucket item) hashp2)
        }
      } else Some (0, item\<lparr>it_pgndx := it_pgndx item - 1\<rparr>, hashp))"

definition move_item :: "htab \<Rightarrow> hent \<Rightarrow> u32 \<Rightarrow> (int \<times> hent \<times> htab) option" where
  "move_item hashp item flags =
     (if flags = FFDB_FIRST then move_first hashp item
      else if flags = FFDB_LAST then move_last hashp item
      else if flags = FFDB_NEXT then move_next hashp item
      else if flags = FFDB_PREV then move_prev hashp item
      else Some (- 1, item, hashp))"

section \<open>Reading the pair\<close>

text \<open>The key under the cursor, copied to the application's space or to a new block.\<close>

definition copy_key :: "mem \<Rightarrow> nat \<Rightarrow> valbuf \<Rightarrow> (int \<times> valbuf) option" where
  "copy_key p i key = do {
     let eksize = unat (KEY_LEN p i);
     let own = (v_data key \<noteq> None \<and> v_size key > 0);
     if own \<and> v_size key < int eksize then Some (- 1, key)
     else do {
       bytes \<leftarrow> mem_read p (unat (KEY_OFF p i)) eksize;
       buf \<leftarrow> mem_write (if own then the (v_data key) else fresh_block eksize) 0 bytes;
       Some (0, \<lparr>v_data = Some buf, v_size = int eksize\<rparr>)
     }
   }"

definition ffdb_cursor_find_by_key ::
    "htab \<Rightarrow> hent \<Rightarrow> valbuf \<Rightarrow> valbuf option \<Rightarrow> u32 \<Rightarrow> (int \<times> hent \<times> valbuf \<times> valbuf option \<times> htab) option" where
  "ffdb_cursor_find_by_key hashp item key data flags = do {
     (st, item1, hashp1) \<leftarrow> move_item hashp item flags;
     if st \<noteq> 0 then Some (st, item1, key, data, hashp1)
     else do {
       pagep \<leftarrow> it_pagep item1;
       p \<leftarrow> page_at hashp1 pagep;
       let i = unat (it_pgndx item1);
       (ks, key1) \<leftarrow> copy_key p i key;
       if ks \<noteq> 0 then Some (- 1, item1, key, data, hashp1)
       else (case data of
          None \<Rightarrow> Some (0, item1, key1, None, hashp1)
        | Some val \<Rightarrow> do {
            let item2 = item1\<lparr>it_status := ITEM_OK, it_key_off := KEY_OFF p i, it_key_len := KEY_LEN p i,
                              it_data_off := DATAP_OFF p i\<rparr>;
            (ds, val1, hashp2) \<leftarrow> ffdb_get_item hashp1 val item2 False;
            Some (ds, item2, key1, Some val1, hashp2)
          })
     }
   }"

section \<open>Cursor operations\<close>

definition empty_item :: hent where
  "empty_item = \<lparr>it_pgno = 0, it_pagep = None, it_bucket = 0, it_pgndx = 0, it_status = ITEM_CLEAN,
     it_seek_size = 0, it_key_off = 0, it_key_len = 0, it_data_off = 0, it_data_chksum = 0, it_caused_expand = 0\<rparr>"

definition ffdb_hash_cursor :: "htab \<Rightarrow> u32 \<Rightarrow> int \<times> crs option \<times> htab" where
  "ffdb_hash_cursor hashp type =
     (if type \<noteq> FFDB_KEY_CURSOR \<and> type \<noteq> FFDB_DATA_CURSOR
      then (- 1, None, hashp\<lparr>mp := (mp hashp)\<lparr>errno := EINVAL\<rparr>\<rparr>)
      else (0, Some \<lparr>c_item = empty_item, c_type = type\<rparr>, hashp))"

definition ffdb_cursor_get ::
    "htab \<Rightarrow> crs \<Rightarrow> valbuf \<Rightarrow> valbuf option \<Rightarrow> u32 \<Rightarrow> (int \<times> crs \<times> valbuf \<times> valbuf option \<times> htab) option" where
  "ffdb_cursor_get hashp c key data flags =
     (if flags \<notin> {FFDB_FIRST, FFDB_LAST, FFDB_NEXT, FFDB_PREV} then Some (- 1, c, key, data, hashp)
      else if c_type c = FFDB_KEY_CURSOR then do {
        let clean = (it_status (c_item c) = ITEM_CLEAN);
        let realflags = (if flags = FFDB_NEXT \<and> clean then FFDB_FIRST
                         else if flags = FFDB_PREV \<and> clean then FFDB_LAST else flags);
        (st, item, key1, data1, hashp1) \<leftarrow> ffdb_cursor_find_by_key hashp (c_item c) key data realflags;
        Some (st, c\<lparr>c_item := item\<rparr>, key1, data1, hashp1)
      } else Some (0, c, key, data, hashp))"

definition ffdb_cursor_close :: "htab \<Rightarrow> crs \<Rightarrow> (int \<times> htab) option" where
  "ffdb_cursor_close hashp c = do {
     hashp1 \<leftarrow> item_release hashp (c_item c);
     Some (0, hashp1)
   }"

end
