(* ===== verification/FFDB_Table.thy ===== *)
theory FFDB_Table
  imports FFDB_Rearrange FFDB_Meta
begin

text \<open>
  The operations of the database (\<open>filehash/ffdb_hash.c\<close>, \<open>ffdb_db.c\<close>): growing the table,
  get, put, sync, close and open. The operating system's part of opening is an argument.
\<close>

section \<open>Growing the table\<close>

text \<open>\<open>None\<close> is also the exit when the largest page number is reached.\<close>

definition ffdb_expand_table :: "htab \<Rightarrow> (int \<times> htab) option" where
  "ffdb_expand_table hashp = do {
     (old_bucket, new_bucket, isdoubling, h) \<leftarrow> expand_header (hdr hashp);
     let hashp1 = hashp\<lparr>hdr := h, curr_dpage := (if isdoubling then INVALID_PGNO else curr_dpage hashp)\<rparr>;
     p \<leftarrow> BUCKET_TO_PAGE h new_bucket;
     if p = 0xffffffff then None
     else do {
       (st, hashp2) \<leftarrow> ffdb_new_page hashp1 new_bucket HASH_BUCKET_PAGE;
       if st \<noteq> 0 then Some (- 1, hashp2)
       else do {
         hashp3 \<leftarrow> (if isdoubling then do {
             let hm = snd (ffdb_flush_meta hashp2);
             (_, pl) \<leftarrow> pagepool_sync (mp hm);
             Some (hm\<lparr>mp := pl\<rparr>)
           } else Some hashp2);
         ffdb_split_bucket hashp3 old_bucket new_bucket
       }
     }
   }"

section \<open>Get and put\<close>

definition EPERM :: int where [ffdb_consts]: "EPERM = 1"
definition FFDB_NOOVERWRITE :: u32 where [ffdb_consts]: "FFDB_NOOVERWRITE = 20"
definition FFDB_MAX_DATASIZE :: nat where [ffdb_consts]: "FFDB_MAX_DATASIZE = 1099511627775"

definition FFDB_MAX_KEYSIZE :: "hashhdr \<Rightarrow> nat" where
  "FFDB_MAX_KEYSIZE h = bsize_less h (PAGE_OVERHEAD + PAIR_OVERHEAD + SIZEOF_DATAP)"

text \<open>The zeroed item with the size of the pair and the bucket of the key.\<close>

definition new_item :: "htab \<Rightarrow> dbt \<Rightarrow> hent" where
  "new_item hashp key =
     \<lparr>it_pgno = 0, it_pagep = None,
      it_bucket = ffdb_call_hash (ht_hash hashp) (hdr hashp) (dt_data key) (of_nat (dt_size key)),
      it_pgndx = 0, it_status = 0, it_seek_size = sint (ucast (PAIRSIZE (dt_size key)) :: u32), it_key_off = 0,
      it_key_len = 0, it_data_off = 0, it_data_chksum = 0, it_caused_expand = 0\<rparr>"

definition ffdb_hash_get :: "htab \<Rightarrow> dbt \<Rightarrow> valbuf \<Rightarrow> (int \<times> valbuf \<times> htab) option" where
  "ffdb_hash_get hashp key data = do {
     (st, item, hashp1) \<leftarrow> ffdb_find_item hashp key None (new_item hashp key);
     if st \<noteq> 0 then Some (- 1, data, hashp1)
     else if it_status item = ITEM_NO_MORE then do {
       (_, _, hashp2) \<leftarrow> ffdb_release_item hashp1 item;
       Some (FFDB_NOT_FOUND, data, hashp2)
     } else ffdb_get_item hashp1 data item True
   }"

text \<open>The checks on sizes, flag and permission that come before anything is changed.\<close>

definition put_refused :: "htab \<Rightarrow> dbt \<Rightarrow> dbt \<Rightarrow> bool" where
  "put_refused hashp key data \<longleftrightarrow>
     (if after_v5 hashp then dt_size data > FFDB_MAX_DATASIZE else dt_size data > 0xffffffff) \<or>
     dt_size key > FFDB_MAX_KEYSIZE (hdr hashp)"

definition set_db_errno :: "int \<Rightarrow> htab \<Rightarrow> htab" where
  "set_db_errno e hashp = hashp\<lparr>db_errno := e, mp := (mp hashp)\<lparr>errno := e\<rparr>\<rparr>"

definition count_key :: "htab \<Rightarrow> htab" where
  "count_key hashp = hashp\<lparr>hdr := (hdr hashp)\<lparr>h_nkeys := h_nkeys (hdr hashp) + 1\<rparr>\<rparr>"

text \<open>A key that is not in the table: on its page, or on a new overflow page.\<close>

definition put_new_key :: "htab \<Rightarrow> dbt \<Rightarrow> dbt \<Rightarrow> hent \<Rightarrow> (int \<times> htab) option" where
  "put_new_key hashp key data item = do {
     pagep \<leftarrow> it_pagep item;
     p \<leftarrow> page_at hashp pagep;
     if PAIRFITS p (dt_size key) then do {
       (st, hashp1) \<leftarrow> ffdb_add_pair hashp key data item False;
       if st \<noteq> 0 then Some (st, hashp1) else Some (0, count_key hashp1)
     } else do {
       (st, hashp1) \<leftarrow> ffdb_add_ovflpage hashp key data item;
       if st \<noteq> 0 then Some (st, hashp1)
       else do {
         (st1, hashp2) \<leftarrow> ffdb_expand_table hashp1;
         if st1 \<noteq> 0 then Some (st1, count_key hashp2) else Some (0, count_key hashp2)
       }
     }
   }"

definition ffdb_hash_put :: "htab \<Rightarrow> dbt \<Rightarrow> dbt \<Rightarrow> u32 \<Rightarrow> (int \<times> htab) option" where
  "ffdb_hash_put hashp key data flag =
     (if put_refused hashp key data then Some (- 1, hashp)
      else if flag \<noteq> 0 \<and> flag \<noteq> FFDB_NOOVERWRITE then Some (- 1, set_db_errno EINVAL hashp)
      else if rdonly hashp then Some (- 1, set_db_errno EPERM hashp)
      else do {
        (st, item, hashp1) \<leftarrow> ffdb_find_item hashp key (Some data) (new_item hashp key);
        if st \<noteq> 0 then Some (st, hashp1)
        else if it_status item = ITEM_NO_MORE then put_new_key hashp1 key data item
        else if it_status item = ITEM_OK then
          (if flag = FFDB_NOOVERWRITE then Some (- 1, hashp1)
           else do {
             (st1, hashp2) \<leftarrow> ffdb_add_pair hashp1 key data item True;
             if st1 \<noteq> 0 then Some (- 1, hashp2) else Some (0, hashp2)
           })
        else Some (0, count_key hashp1)
      })"

text \<open>Deleting does nothing.\<close>

definition ffdb_hash_delete :: "htab \<Rightarrow> dbt \<Rightarrow> u32 \<Rightarrow> int \<times> htab" where
  "ffdb_hash_delete hashp key flag = (0, hashp)"

definition ENOENT :: int where [ffdb_consts]: "ENOENT = 2"

definition ffdb_hash_fd :: "htab \<Rightarrow> int \<times> htab" where
  "ffdb_hash_fd hashp =
     (if fd (mp hashp) = - 1 then (- 1, hashp\<lparr>mp := (mp hashp)\<lparr>errno := ENOENT\<rparr>\<rparr>) else (fd (mp hashp), hashp))"

section \<open>Sync and close\<close>

definition ffdb_hash_sync :: "htab \<Rightarrow> (int \<times> htab) option" where
  "ffdb_hash_sync hashp = (
     let (st, hashp1) = ffdb_flush_meta hashp
     in if st \<noteq> 0 then Some (- 1, hashp1)
        else do {
          (_, p) \<leftarrow> pagepool_sync (mp hashp1);
          Some (0, hashp1\<lparr>mp := p\<rparr>)
        })"

text \<open>What remains of the table is its file.\<close>

definition ffdb_hdestroy :: "htab \<Rightarrow> (int \<times> htab) option" where
  "ffdb_hdestroy hashp = do {
     (_, hashp1) \<leftarrow> (if rearrange_pages hashp \<and> save_file hashp
        then ffdb_rearrage_pages_on_close hashp else Some (0, hashp));
     let (st, hashp2) = ffdb_flush_meta hashp1;
     let save_errno = (if st \<noteq> 0 then errno (mp hashp2) else 0);
     (_, p) \<leftarrow> pagepool_sync (mp hashp2);
     (_, p1) \<leftarrow> pagepool_close p;
     let hashp3 = hashp2\<lparr>mp := p1\<rparr>;
     hashp4 \<leftarrow> (if rearrange_pages hashp3 then ffdb_reduce_filesize hashp3 else Some hashp3);
     if save_errno \<noteq> 0 then Some (- 1, hashp4\<lparr>mp := (mp hashp4)\<lparr>errno := save_errno\<rparr>\<rparr>) else Some (0, hashp4)
   }"

definition ffdb_hash_close :: "htab \<Rightarrow> (int \<times> htab) option" where
  "ffdb_hash_close hashp = ffdb_hdestroy hashp"

section \<open>Open\<close>

text \<open>The flags of \<open>open\<close> on Linux; \<open>O_EXLOCK\<close> and \<open>O_SHLOCK\<close> are 0 there.\<close>

definition O_ACCMODE :: u32 where [ffdb_consts]: "O_ACCMODE = 3"
definition O_RDONLY :: u32 where [ffdb_consts]: "O_RDONLY = 0"
definition O_WRONLY :: u32 where [ffdb_consts]: "O_WRONLY = 1"
definition O_RDWR :: u32 where [ffdb_consts]: "O_RDWR = 2"
definition O_CREAT :: u32 where [ffdb_consts]: "O_CREAT = 0x40"
definition O_EXCL :: u32 where [ffdb_consts]: "O_EXCL = 0x80"
definition O_TRUNC :: u32 where [ffdb_consts]: "O_TRUNC = 0x200"
definition O_NONBLOCK :: u32 where [ffdb_consts]: "O_NONBLOCK = 0x800"

definition DEF_CACHESIZE :: nat where [ffdb_consts]: "DEF_CACHESIZE = 134217728"

text \<open>
  What the system calls report: whether \<open>stat\<close> finds no file, its block size for the file
  (or its error), and the file that \<open>open\<close> gives; the calling thread and the contents of
  fresh memory.
\<close>

record open_env =
  oe_null_name :: bool
  oe_absent :: bool
  oe_blksize :: "u32 option"
  oe_stat_err :: int
  oe_os :: os_open
  oe_self :: thread
  oe_fresh :: "nat \<Rightarrow> mem"

definition zero_hdr :: hashhdr where
  "zero_hdr = \<lparr>h_magic = 0, h_version = 0, h_lorder = 0, h_bsize = 0, h_bshift = 0, h_ovfl_point = 0,
     h_max_bucket = 0, h_high_mask = 0, h_low_mask = 0, h_ffactor = 0, h_nkeys = 0, h_hdrpages = 0,
     h_uinfolen = 0, h_uinfo_page = 0, h_uinfo_npages = 0, h_cfig_page = 0, h_cfig_npages = 0,
     h_num_cfigs = 0, h_charkey = 0, h_num_moved_pages = 0, h_spares = replicate NCACHED 0,
     h_free_pages = replicate NCACHED 0, h_chksum = 0\<rparr>"

text \<open>The zeroed table; the hash and comparison functions are set before they are used.\<close>

definition empty_htab :: "open_env \<Rightarrow> u32 \<Rightarrow> htab" where
  "empty_htab env flags =
     \<lparr>hdr = zero_hdr, ht_hash = ham_func5, h_compare = ham_defcmp, mborder = ffdb_test_endian,
      rdonly = (flags AND O_ACCMODE = O_RDONLY), split_buf = [], db_errno = 0, new_file = False,
      save_file = FLAG_ISSET flags O_RDWR, curr_dpage = INVALID_PGNO, rearrange_pages = True,
      mp = (pagepool_create (oe_self env) (oe_fresh env))\<lparr>backing := os_file (oe_os env)\<rparr>,
      data_valid_flag = 0, data_invalid_flag = 0\<rparr>"

text \<open>An existing file: the header is read and checked. \<open>None\<close> inside is a null result.\<close>

definition open_existing :: "htab \<Rightarrow> hashinfo option \<Rightarrow> htab option option" where
  "open_existing hashp info = do {
     let hashp0 = (case info of None \<Rightarrow> hashp\<lparr>ht_hash := ham_func5, h_compare := ham_defcmp\<rparr>
        | Some i \<Rightarrow> hashp\<lparr>ht_hash := (case hi_hash i of None \<Rightarrow> ham_func5 | Some f \<Rightarrow> f),
            h_compare := (case hi_cmp i of None \<Rightarrow> ham_defcmp | Some f \<Rightarrow> f), rearrange_pages := hi_rearrange i\<rparr>);
     (n, hashp1) \<leftarrow> ffdb_hget_header hashp0;
     let v = sint (h_version (hdr hashp1));
     let hashp2 = (if v = FFDB_VERSION_5
        then hashp1\<lparr>data_valid_flag := DATA_VALID_5, data_invalid_flag := DATA_INVALID_5\<rparr>
        else hashp1\<lparr>data_valid_flag := DATA_VALID, data_invalid_flag := DATA_INVALID\<rparr>);
     if n \<noteq> SIZEOF_HASHHDR then Some None
     else if h_magic (hdr hashp1) \<noteq> FFDB_HASHMAGIC then Some None
     else if v \<noteq> FFDB_VERSION \<and> v \<noteq> FFDB_VERSION_5 then Some None
     else if ht_hash hashp2 CHARKEY 12 \<noteq> h_charkey (hdr hashp2) then Some None
     else Some (Some hashp2)
   }"

text \<open>The pool: its size in pages, the file, the filters.\<close>

definition cache_pages :: "hashinfo option \<Rightarrow> hashhdr \<Rightarrow> u32 option" where
  "cache_pages info h =
     (let bytes = (case info of None \<Rightarrow> DEF_CACHESIZE
                   | Some i \<Rightarrow> if hi_cachesize i \<noteq> 0 then hi_cachesize i else DEF_CACHESIZE);
          n = bytes div unat (h_bsize h)
      in if h_bsize h = 0 \<or> n > 0x7fffffff then None else Some (of_nat n))"

definition open_pool :: "open_env \<Rightarrow> htab \<Rightarrow> u32 \<Rightarrow> htab option" where
  "open_pool env hashp csize =
     (let (st, p) = pagepool_open_fd (pagepool_create (oe_self env) (oe_fresh env)) (oe_os env)
                      (h_bsize (hdr hashp)) csize
      in if st \<noteq> 0 then None
         else Some (hashp\<lparr>mp := pagepool_filter p (ffdb_pgin_routine (hdr hashp) (mborder hashp))
                (ffdb_pgout_routine (hdr hashp) (mborder hashp))\<rparr>))"

text \<open>The rest of opening: the information pages, moving pages back, the current data page.\<close>

definition open_finish :: "htab \<Rightarrow> bool \<Rightarrow> htab option" where
  "open_finish hashp new_table = do {
     let hashp0 = hashp\<lparr>split_buf := fresh_block (bsz hashp), new_file := new_table\<rparr>;
     hashp1 \<leftarrow> ffdb_read_user_info hashp0;
     hashp2 \<leftarrow> ffdb_read_config_info hashp1;
     (_, hashp3) \<leftarrow> (if \<not> new_table \<and> save_file hashp2 \<and> (rearrange_pages hashp2 \<or> h_num_moved_pages (hdr hashp2) > 0)
        then ffdb_rearrage_pages_on_open hashp2 else Some (0, hashp2));
     sp \<leftarrow> table_get (h_spares (hdr hashp3)) (h_ovfl_point (hdr hashp3) + 1);
     if sp > 0 then do {
       (dp, hashp4) \<leftarrow> ffdb_last_data_page hashp3 (sp - 1);
       Some (hashp4\<lparr>curr_dpage := dp\<rparr>)
     } else Some hashp3
   }"

definition ffdb_hash_open :: "open_env \<Rightarrow> u32 \<Rightarrow> hashinfo option \<Rightarrow> htab option option" where
  "ffdb_hash_open env flags info =
     (if flags AND O_ACCMODE = O_WRONLY \<or> oe_null_name env then Some None
      else if os_fd (oe_os env) = - 1 then Some None
      else do {
        let new_table = (FLAG_ISSET flags O_TRUNC \<or> oe_absent env);
        let hashp = empty_htab env flags;
        r \<leftarrow> (if new_table then do {
             (st, h1) \<leftarrow> ffdb_init_hash hashp (oe_blksize env) (oe_stat_err env) info;
             Some (if st \<noteq> 0 then None else Some h1)
           } else open_existing hashp info);
        (case r of
           None \<Rightarrow> Some None
         | Some hashp1 \<Rightarrow> do {
             csize \<leftarrow> cache_pages info (hdr hashp1);
             (case open_pool env hashp1 csize of
                None \<Rightarrow> Some None
              | Some hashp2 \<Rightarrow> do {
                  hashp3 \<leftarrow> (if new_table
                     then ffdb_init_htab hashp2 (case info of None \<Rightarrow> 1
                       | Some i \<Rightarrow> if hi_nbuckets i \<noteq> 0 then hi_nbuckets i else 1) info
                     else Some hashp2);
                  hashp4 \<leftarrow> open_finish hashp3 new_table;
                  Some (Some hashp4)
                })
           })
      })"

definition USE_OPEN_FLAGS :: u32 where
  "USE_OPEN_FLAGS = O_CREAT OR O_EXCL OR O_NONBLOCK OR O_RDONLY OR O_RDWR OR O_TRUNC"

definition ffdb_dbopen :: "open_env \<Rightarrow> u32 \<Rightarrow> hashinfo option \<Rightarrow> htab option option" where
  "ffdb_dbopen env flags info =
     (if FLAG_ISSET flags (NOT USE_OPEN_FLAGS) then Some None
      else ffdb_hash_open env (flags AND USE_OPEN_FLAGS) info)"

end
