(* ===== verification/FFDB_PoolFrame.thy ===== *)
theory FFDB_PoolFrame
  imports FFDB_PoolNative
begin

text \<open>
  What making room in the cache leaves alone. Flushing pages and dropping one from the cache
  keeps who has pinned what, and changes the file only where an unpinned page is cached.
\<close>

section \<open>Calm steps\<close>

definition file_at :: "pagepool \<Rightarrow> pgno \<Rightarrow> mem" where
  "file_at p n = file_page (f_data (backing p)) (page_size p) (unat n)"

text \<open>A bucket as a client sees it that does not own it.\<close>

definition same_hold :: "pagepool \<Rightarrow> pagepool \<Rightarrow> nat \<Rightarrow> bool" where
  "same_hold p p' c \<longleftrightarrow> (\<exists>bp bp'. bkts p c = Some bp \<and> bkts p' c = Some bp' \<and>
     b_waiters bp' = b_waiters bp \<and> b_pgno bp' = b_pgno bp \<and> (bit (b_flags bp') 8 \<longleftrightarrow> bit (b_flags bp) 8))"

text \<open>A page that was written once, or that will be: it is not new to a get.\<close>

definition known :: "pagepool \<Rightarrow> pgno \<Rightarrow> bool" where
  "known p n \<longleftrightarrow> n < npages p \<or> (\<exists>b\<in>set (lqh p). bkt_pgno p b = n \<and> dirty p b)"

definition calm :: "pagepool \<Rightarrow> pagepool \<Rightarrow> bool" where
  "calm p p' \<longleftrightarrow>
     pagesize p' = pagesize p \<and> pgin p' = pgin p \<and> fileflags p' = fileflags p \<and> maxpgno p' = maxpgno p \<and>
     maxcache p' = maxcache p \<and>
     ((\<forall>c\<in>set (lqh p). bkt_pgno p c \<noteq> - 1) \<longrightarrow> (\<forall>n. known p n \<longrightarrow> known p' n)) \<and> set (lqh p') \<subseteq> set (lqh p) \<and>
     (distinct (lqh p) \<longrightarrow> distinct (lqh p')) \<and> (\<forall>c\<in>set (lqh p'). same_hold p p' c) \<and>
     (\<forall>n. (\<forall>c\<in>set (lqh p). bkt_pgno p c = n \<longrightarrow> pinned p c) \<longrightarrow> file_at p' n = file_at p n)"

lemma same_holdD:
  assumes "same_hold p p' c"
  shows "bkt_pgno p' c = bkt_pgno p c" "pinned p' c = pinned p c"
  using assms by (auto simp: same_hold_def bkt_pgno_def pinned_def bkt_flags_def)

lemma calm_refl [simp]: "(\<forall>c\<in>set (lqh p). bkts p c \<noteq> None) \<Longrightarrow> calm p p"
  by (auto simp: calm_def same_hold_def)

lemma calm_trans:
  assumes "calm p q" "calm q r"
  shows "calm p r"
proof -
  have "same_hold p r c" if "c \<in> set (lqh r)" for c
  proof -
    have "same_hold p q c" "same_hold q r c" using assms that by (auto simp: calm_def)
    then show ?thesis by (auto simp: same_hold_def)
  qed
  moreover have "file_at r n = file_at p n" if "\<forall>c\<in>set (lqh p). bkt_pgno p c = n \<longrightarrow> pinned p c" for n
  proof -
    have "\<forall>c\<in>set (lqh q). bkt_pgno q c = n \<longrightarrow> pinned q c"
      using assms(1) that same_holdD [of p q] by (auto simp: calm_def)
    then show ?thesis using assms that by (simp add: calm_def)
  qed
  moreover have "\<forall>n. known p n \<longrightarrow> known r n" if no: "\<forall>c\<in>set (lqh p). bkt_pgno p c \<noteq> - 1"
  proof -
    have "\<forall>c\<in>set (lqh q). bkt_pgno q c \<noteq> - 1"
      using assms(1) no same_holdD [of p q] by (auto simp: calm_def)
    then show ?thesis using assms no by (auto simp: calm_def)
  qed
  ultimately show ?thesis using assms unfolding calm_def by simp blast
qed

lemma calm_frame:
  assumes "\<forall>c\<in>set (lqh p). bkts p c \<noteq> None" "\<And>c. c \<in> set (lqh p) \<Longrightarrow> bkts p' c = bkts p c"
    "lqh p' = lqh p" "backing p' = backing p" "pagesize p' = pagesize p" "pgin p' = pgin p"
    "fileflags p' = fileflags p" "maxpgno p' = maxpgno p" "maxcache p' = maxcache p" "npages p' = npages p"
  shows "calm p p'"
proof -
  have "bkt_pgno p' c = bkt_pgno p c" "pinned p' c = pinned p c" "dirty p' c = dirty p c" if "c \<in> set (lqh p)" for c
    using assms(2) [OF that] by (simp_all add: bkt_pgno_def pinned_def dirty_def bkt_flags_def)
  then have "known p' n = known p n" for n using assms(3,10) by (auto simp: known_def)
  then show ?thesis using assms by (auto simp: calm_def same_hold_def file_at_def page_size_def)
qed

section \<open>Flushing and making room\<close>

lemma write_calm:
  assumes w: "pagepool_write p b = Some (ret, p')" and b: "b \<in> set (lqh p)" "\<not> pinned p b"
    and live: "\<forall>c\<in>set (lqh p). bkts p c \<noteq> None"
  shows "calm p p'" "lqh p' = lqh p"
proof -
  obtain bp where bp: "bkts p b = Some bp" using w by (auto simp: pagepool_write_def split: bind_splits)
  let ?page = "case pgout p of None \<Rightarrow> b_page bp | Some f \<Rightarrow> f (b_pgno bp) (b_page bp)"
  let ?bytes = "mem_get ?page 0 (unat (pagesize p))"
  let ?off = "unat (pagesize p) * unat (b_pgno bp)"
  have rd: "mem_read ?page 0 (unat (pagesize p)) = Some ?bytes"
    using w bp by (auto simp: pagepool_write_def Let_def mem_read_Some_iff split: bind_splits)
  then have len: "length ?bytes = page_size p" by (simp add: page_size_def mem_read_Some_iff)
  define q where "q = upd_bkt b (b_page_update (\<lambda>_. ?page)) p"
  define q2 where "q2 = (case file_write (backing q) ?off ?bytes of
      None \<Rightarrow> q\<lparr>errno := if f_writable (backing q) then ENOSPC else EBADF\<rparr>
    | Some f \<Rightarrow> upd_bkt b (b_flags_update (\<lambda>fl. FLAG_CLR fl FFDB_PAGE_DIRTY)) (q\<lparr>backing := f\<rparr>))"
  have p': "p' = (if b_pgno bp \<ge> npages q2 then q2\<lparr>npages := b_pgno bp + 1\<rparr> else q2)"
    using w bp rd
    by (cases "file_write (backing p) ?off ?bytes") (auto simp: pagepool_write_def q2_def q_def Let_def split: if_splits)
  have q: "lqh q2 = lqh p" "pagesize q2 = pagesize p" "pgin q2 = pgin p" "fileflags q2 = fileflags p"
      "maxpgno q2 = maxpgno p" "maxcache q2 = maxcache p" "npages q2 = npages p"
      "\<And>c. c \<noteq> b \<Longrightarrow> bkts q2 c = bkts p c"
      "\<exists>bp'. bkts q2 b = Some bp' \<and> b_waiters bp' = b_waiters bp \<and> b_pgno bp' = b_pgno bp \<and>
         (bit (b_flags bp') 8 \<longleftrightarrow> bit (b_flags bp) 8)"
      "backing q2 = backing p \<or> file_write (backing p) ?off ?bytes = Some (backing q2)"
    using bp by (auto simp: q2_def q_def bkts_upd_bkt split: option.splits)
  have F: "lqh p' = lqh p" "pagesize p' = pagesize p" "pgin p' = pgin p" "fileflags p' = fileflags p"
      "maxpgno p' = maxpgno p" "maxcache p' = maxcache p" "bkts p' = bkts q2" "backing p' = backing q2"
    using q by (auto simp: p')
  have np: "npages p \<le> npages p' \<and> b_pgno bp < npages p'" if "b_pgno bp \<noteq> - 1"
  proof -
    have "unat (b_pgno bp) < 2 ^ LENGTH(32)" by (rule unsigned_less)
    moreover have "unat (b_pgno bp) \<noteq> 2 ^ 32 - 1"
    proof
      assume "unat (b_pgno bp) = 2 ^ 32 - 1"
      moreover have "unat (- 1 :: u32) = 2 ^ 32 - 1" by (simp add: unsigned_minus_1_eq_mask mask_eq_exp_minus_1)
      ultimately have "b_pgno bp = - 1" by (simp only: word_unat_eq_iff)
      then show False using that by simp
    qed
    ultimately have "unat (b_pgno bp + 1) = unat (b_pgno bp) + 1" by (simp add: unat_word_ariths)
    then have "b_pgno bp < b_pgno bp + 1" by (simp add: word_less_nat_alt)
    then show ?thesis using q(7) by (auto simp: p' not_le)
  qed
  show "lqh p' = lqh p" by (rule F(1))
  have "file_at p' n = file_at p n" if "\<forall>c\<in>set (lqh p). bkt_pgno p c = n \<longrightarrow> pinned p c" for n
  proof -
    have "b_pgno bp \<noteq> n" using that b bp by (auto simp: bkt_pgno_def)
    then show ?thesis
      using q(10) F(2,8) len by (auto simp: file_at_def page_size_def file_page_write word_unat_eq_iff)
  qed
  moreover have "same_hold p p' c" if "c \<in> set (lqh p)" for c
    using live that q(8,9) bp F(7) by (cases "c = b") (auto simp: same_hold_def)
  moreover have "known p' n" if no: "\<forall>c\<in>set (lqh p). bkt_pgno p c \<noteq> - 1" and k: "known p n" for n
  proof -
    have n: "npages p \<le> npages p'" "bkt_pgno p b < npages p'"
      using np no b(1) bp by (auto simp: bkt_pgno_def)
    have "bkts p' c = bkts p c" if "c \<noteq> b" for c using that q(8) F(7) by simp
    then have "bkt_pgno p' c = bkt_pgno p c \<and> pinned p' c = pinned p c \<and> dirty p' c = dirty p c" if "c \<noteq> b" for c
      using that by (simp add: bkt_pgno_def pinned_def dirty_def bkt_flags_def)
    then show ?thesis using k n F(1) unfolding known_def by (metis order_less_le_trans)
  qed
  ultimately show "calm p p'" using F by (simp add: calm_def)
qed

lemma write_clears:
  assumes "pagepool_write p b = Some (st, p1)" "st \<noteq> - 1"
  shows "\<not> dirty p1 b"
proof -
  obtain bp where bp: "bkts p b = Some bp" using assms(1) by (auto simp: pagepool_write_def split: bind_splits)
  then show ?thesis
    using assms
    by (auto simp: pagepool_write_def Let_def dirty_def bkt_flags_def bkts_upd_bkt
        split: bind_splits option.splits if_splits)
qed

lemma calm_live: "calm p q \<Longrightarrow> \<forall>c\<in>set (lqh q). bkts q c \<noteq> None"
  by (auto simp: calm_def same_hold_def)

lemma sync_writes_calm:
  "sync_writes p l = Some (ret, p') \<Longrightarrow> set l \<subseteq> set (lqh p) \<Longrightarrow> \<forall>b\<in>set l. \<not> pinned p b \<Longrightarrow>
     \<forall>c\<in>set (lqh p). bkts p c \<noteq> None \<Longrightarrow> calm p p' \<and> lqh p' = lqh p"
proof (induction l arbitrary: p)
  case (Cons b l)
  obtain bp where bp: "bkts p b = Some bp" using Cons.prems(2,4) by auto
  show ?case
  proof (cases "FLAG_ISSET (b_flags bp) FFDB_PAGE_DIRTY")
    case False
    then show ?thesis using Cons bp by auto
  next
    case True
    then obtain r1 p1 where w: "pagepool_write p b = Some (r1, p1)"
      using Cons.prems(1) bp by (auto split: bind_splits)
    have c: "calm p p1" "lqh p1 = lqh p"
      using write_calm [OF w] Cons.prems(2-4) by auto
    show ?thesis
    proof (cases "r1 = 0")
      case False
      then show ?thesis using True w bp c Cons.prems(1) by auto
    next
      case ret: True
      have "\<forall>b\<in>set l. \<not> pinned p1 b"
        using Cons.prems(2,3) c by (auto simp: calm_def dest!: same_holdD(2))
      then have "calm p1 p' \<and> lqh p' = lqh p1"
        using Cons.IH [of p1] True w bp c ret Cons.prems(1,2) calm_live [OF c(1)] by auto
      then show ?thesis using c calm_trans by auto
    qed
  qed
qed auto

lemma sync_i_calm:
  assumes "pagepool_sync_i p k = Some (ret, p')" "\<forall>c\<in>set (lqh p). bkts p c \<noteq> None"
  shows "calm p p' \<and> lqh p' = lqh p"
proof -
  obtain slh where s: "sync_collect p k (lqh p) 0 [] = Some slh"
    "sync_writes p (ffdb_slist_merge_sort (ffdb_sbkt_cmp p) slh) = Some (ret, p')"
    using assms(1) by (auto simp: pagepool_sync_i_def split: bind_splits)
  have "set slh \<subseteq> {b \<in> set (lqh p). \<exists>bp. bkts p b = Some bp \<and> flushable bp}"
    using sync_collect_set [of "lqh p" p k 0 "[]"] assms(2) s(1) by auto
  then have "set slh \<subseteq> set (lqh p)" "\<forall>b\<in>set slh. \<not> pinned p b"
    by (auto simp: flushable_def pinned_def bkt_flags_def)
  then show ?thesis using sync_writes_calm [OF s(2)] assms(2) by simp
qed

lemma reuse_take_calm:
  assumes "distinct (lqh p)" "\<forall>c\<in>set (lqh p). bkts p c \<noteq> None" "\<not> pinned p b" "\<not> dirty p b"
  shows "calm p (reuse_take p b)"
proof -
  have "same_hold p (reuse_take p b) c" if "c \<in> set (lqh p)" "c \<noteq> b" for c
    using assms(2) that by (auto simp: same_hold_def reuse_take_def bkts_upd_bkt Let_def)
  moreover have "file_at (reuse_take p b) = file_at p"
    by (simp add: fun_eq_iff file_at_def reuse_take_def Let_def)
  moreover have "known (reuse_take p b) n" if "known p n" for n
  proof -
    have "bkt_pgno (reuse_take p b) c = bkt_pgno p c" "pinned (reuse_take p b) c = pinned p c"
      "dirty (reuse_take p b) c = dirty p c" if "c \<noteq> b" for c
      using that by (simp_all add: bkt_pgno_def pinned_def dirty_def bkt_flags_def reuse_take_def Let_def bkts_upd_bkt)
    moreover have "lqh (reuse_take p b) = remove1 b (lqh p)" "npages (reuse_take p b) = npages p"
      by (simp_all add: reuse_take_def Let_def lq_remove_def hq_remove_def)
    ultimately show ?thesis using that assms by (auto simp: known_def)
  qed
  ultimately show ?thesis
    using assms(1) set_remove1_subset [of b "lqh p"]
    by (auto simp: calm_def reuse_take_def Let_def lq_remove_def hq_remove_def)
qed

lemma reuse_walk_calm:
  "reuse_walk p l r0 = Some (ret, nw, rb, p') \<Longrightarrow> set l \<subseteq> set (lqh p) \<Longrightarrow> distinct (lqh p) \<Longrightarrow>
     \<forall>c\<in>set (lqh p). bkts p c \<noteq> None \<Longrightarrow> calm p p'"
proof (induction l arbitrary: p r0)
  case (Cons b l)
  obtain bp where bp: "bkts p b = Some bp" using Cons.prems(2,4) by auto
  show ?case
  proof (cases "reusable bp")
    case False
    then show ?thesis using Cons bp by auto
  next
    case reu: True
    then have unp: "\<not> pinned p b" using bp by (simp add: reusable_def pinned_def bkt_flags_def)
    show ?thesis
    proof (cases "FLAG_ISSET (b_flags bp) FFDB_PAGE_DIRTY")
      case False
      then have "\<not> dirty p b" using bp by (simp add: dirty_def bkt_flags_def)
      then show ?thesis using Cons.prems bp reu reuse_take_calm [of p b] False unp by auto
    next
      case True
      then obtain st p1 where w: "pagepool_write p b = Some (st, p1)"
        using Cons.prems(1) bp reu by (auto split: bind_splits)
      have c: "calm p p1" "lqh p1 = lqh p"
        using write_calm [OF w _ unp Cons.prems(4)] Cons.prems(2) by auto
      have "calm p1 p'"
      proof (cases "st = - 1")
        case st: True
        then have "reuse_walk p1 l (errno p1) = Some (ret, nw, rb, p')"
          using Cons.prems(1) bp reu True w by simp
        then show ?thesis
          using Cons.IH [of p1 "errno p1"] c Cons.prems(2,3) calm_live [OF c(1)] by auto
      next
        case False
        then have "p' = reuse_take p1 b" using Cons.prems(1) bp reu True w by simp
        moreover have "\<not> dirty p1 b" "\<not> pinned p1 b"
          using write_clears [OF w False] same_holdD(2) [of p p1 b] c unp Cons.prems(2) by (auto simp: calm_def)
        ultimately show ?thesis using reuse_take_calm [of p1 b] c Cons.prems(3) calm_live [OF c(1)] by simp
      qed
      then show ?thesis using c(1) calm_trans by blast
    qed
  qed
qed auto

lemma reuse_bkt_calm:
  assumes "reuse_bkt p = Some (ret, rb, p')" "distinct (lqh p)" "\<forall>c\<in>set (lqh p). bkts p c \<noteq> None"
  shows "calm p p'"
proof -
  obtain r1 nw rb1 p1 where w: "reuse_walk p (lqh p) 0 = Some (r1, nw, rb1, p1)"
    using assms(1) by (auto simp: reuse_bkt_def Let_def split: bind_splits if_splits)
  have c: "calm p p1" using reuse_walk_calm [OF w] assms(2,3) by simp
  have "p' = p1 \<or> (\<exists>r. pagepool_sync_i p1 (maxcache p1 div FFDB_WRITE_FRAC) = Some (r, p'))"
    using assms(1) w by (auto simp: reuse_bkt_def Let_def split: bind_splits if_splits)
  then show ?thesis
    using c calm_trans [OF c] sync_i_calm [OF _ calm_live [OF c]] by blast
qed

lemma new_bkt_calm:
  assumes "new_bkt p = (b, p')" "pool_struct p"
  shows "calm p p'"
proof (rule calm_frame)
  have b: "b \<notin> set (lqh p)" using assms by (auto simp: new_bkt_def Let_def pool_struct_def)
  show "bkts p' c = bkts p c" if "c \<in> set (lqh p)" for c
    using assms(1) b that by (auto simp: new_bkt_def Let_def)
qed (use assms in \<open>auto simp: new_bkt_def Let_def pool_struct_def\<close>)

context page_io
begin

lemma alloc_bkt_calm:
  assumes r: "ready p" and a: "alloc_bkt p = Some (b, p')"
  shows "calm p p'"
proof (cases "curcache p > maxcache p")
  case False
  then have "new_bkt p = (b, p')" using a by (simp add: alloc_bkt_def)
  then show ?thesis using new_bkt_calm ready_struct [OF r] by blast
next
  case True
  have S: "distinct (lqh p)" "\<forall>c\<in>set (lqh p). bkts p c \<noteq> None"
    using ready_struct [OF r] by (auto simp: pool_struct_def)
  have ne: "lqh p \<noteq> []" using a True by (auto simp: alloc_bkt_def reuse_bkt_def)
  obtain ret rb p1 where s: "reuse_bkt p = Some (ret, rb, p1)" "ready p1"
    by (rule reuse_bkt_ok [OF r ne]) blast
  note c = reuse_bkt_calm [OF s(1) S]
  show ?thesis
  proof (cases "ret = - 1")
    case m: True
    then have "new_bkt p1 = (b, p')" using a s True by (auto simp: alloc_bkt_def)
    then show ?thesis using calm_trans [OF c] new_bkt_calm ready_struct [OF s(2)] by blast
  next
    case False
    then show ?thesis using a s True c by (auto simp: alloc_bkt_def split: option.splits)
  qed
qed

end

end
