(* ===== verification/FFDB_Session.thy ===== *)
theory FFDB_Session
  imports FFDB_PoolFrame
begin

text \<open>
  Sessions of one client on the page pool. The pool is seen as two maps: the view, from page
  numbers to contents, and the pages the client holds, from buckets to page number and
  memory. Each operation is an update of these maps; a held page that is changed must be put
  back as dirty.
\<close>

definition held :: "pagepool \<Rightarrow> nat \<Rightarrow> (pgno \<times> mem) option" where
  "held p b = (if b \<in> set (lqh p) \<and> pinned p b
     then map_option (\<lambda>bp. (b_pgno bp, b_page bp)) (bkts p b) else None)"

definition num_waiters :: "pagepool \<Rightarrow> nat \<Rightarrow> u32" where
  "num_waiters p b = (case bkts p b of None \<Rightarrow> 0 | Some bp \<Rightarrow> b_waiters bp)"

lemma heldD:
  assumes "held p b = Some (n, m)"
  shows "b \<in> set (lqh p)" "pinned p b" "bkt_pgno p b = n" "bkt_page p b = m"
    "\<exists>bp. bkts p b = Some bp \<and> b_pgno bp = n \<and> b_page bp = m"
  using assms by (auto simp: held_def bkt_pgno_def bkt_page_def split: if_splits)

lemma heldI:
  "b \<in> set (lqh p) \<Longrightarrow> pinned p b \<Longrightarrow> bkts p b = Some bp \<Longrightarrow> held p b = Some (b_pgno bp, b_page bp)"
  by (simp add: held_def)

lemma held_calm:
  assumes "calm p q" "keeps p q"
  shows "held q = held p"
proof
  fix c
  show "held q c = held p c"
  proof (cases "c \<in> set (lqh p) \<and> pinned p c")
    case True
    then have "c \<in> set (lqh q)" "bkts q c = bkts p c" using assms(2) by (auto simp: keeps_def)
    then show ?thesis using True by (simp add: held_def pinned_def bkt_flags_def)
  next
    case False
    then have "\<not> (c \<in> set (lqh q) \<and> pinned q c)"
      using assms(1) by (auto simp: calm_def dest: same_holdD)
    then show ?thesis using False by (auto simp: held_def)
  qed
qed

lemma known_mono:
  assumes "known p k" "npages p' = npages p" "set (lqh p) \<subseteq> set (lqh p')"
    "\<And>c. c \<in> set (lqh p) \<Longrightarrow> bkt_pgno p' c = bkt_pgno p c \<and> (dirty p c \<longrightarrow> dirty p' c)"
  shows "known p' k"
proof (cases "k < npages p")
  case False
  then obtain b where "b \<in> set (lqh p)" "bkt_pgno p b = k" "dirty p b"
    using assms(1) by (auto simp: known_def)
  then show ?thesis using assms(3,4) by (auto simp: known_def)
qed (use assms(2) in \<open>simp add: known_def\<close>)

lemma bkt_eq_same:
  assumes "bkts p' c = bkts p c"
  shows "bkt_pgno p' c = bkt_pgno p c" "bkt_page p' c = bkt_page p c" "dirty p' c = dirty p c"
    "pinned p' c = pinned p c" "num_waiters p' c = num_waiters p c"
  using assms by (simp_all add: bkt_pgno_def bkt_page_def dirty_def pinned_def bkt_flags_def num_waiters_def)

text \<open>The flags of a get that neither creates nor marks the page.\<close>

lemma get_flags:
  assumes "flags = 0 \<or> flags = FFDB_CREATE"
  shows "\<not> FLAG_ISSET flags FFDB_PAGE_NEW" "\<not> FLAG_ISSET flags FFDB_PAGE_DIRTY"
    "\<not> bit flags (Suc 0)" "\<not> bit flags 2" "flags = 0 \<Longrightarrow> \<not> FLAG_ISSET flags x"
  using assms by (auto simp: FLAG_ISSET_def ffdb_consts)

context page_io
begin

definition on_disk :: "pagepool \<Rightarrow> nat \<Rightarrow> bool" where
  "on_disk p c \<longleftrightarrow> map_option nrm (disk_page p (bkt_pgno p c)) = Some (nrm (bkt_page p c))"

text \<open>\<open>M\<close> are the held buckets that the client has changed.\<close>

definition settled :: "pagepool \<Rightarrow> nat set \<Rightarrow> bool" where
  "settled p M \<longleftrightarrow> ready p \<and> M \<subseteq> dom (held p) \<and>
     (\<forall>c\<in>set (lqh p). bkt_pgno p c \<noteq> - 1 \<and> num_waiters p c = 0) \<and>
     (\<forall>c\<in>dom (held p) - M. dirty p c \<or> on_disk p c)"

definition session :: "pagepool \<Rightarrow> nat set \<Rightarrow> bool" where
  "session p M \<longleftrightarrow> settled p M \<and> (lqh p \<noteq> [] \<or> curcache p \<le> maxcache p)"

lemma unpinned_ok:
  "ready p \<Longrightarrow> c \<in> set (lqh p) \<Longrightarrow> \<not> pinned p c \<Longrightarrow> good (bkt_page p c) \<and> (dirty p c \<or> on_disk p c)"
  using ready_bkt_ok [of p c] by (auto simp: bkt_ok_def on_disk_def)

lemma disk_calm:
  assumes r: "ready p" "ready q" and c: "calm p q" and b: "b \<in> set (lqh p)" "pinned p b"
  shows "disk_page q (bkt_pgno p b) = disk_page p (bkt_pgno p b)"
proof -
  have "\<forall>c\<in>set (lqh p). bkt_pgno p c = bkt_pgno p b \<longrightarrow> pinned p c"
    using ready_struct [OF r(1)] b by (auto simp: pool_struct_def distinct_map dest: inj_onD)
  then have "file_at q (bkt_pgno p b) = file_at p (bkt_pgno p b)" using c by (simp add: calm_def)
  then show ?thesis using r by (simp add: disk_page_ready file_at_def) (simp add: ready_def)
qed

text \<open>A calm step that keeps the pinned pages keeps the session.\<close>

lemma settled_calm:
  assumes s: "settled p M" and r: "ready q" and c: "calm p q" "keeps p q"
  shows "settled q M"
proof -
  note h = held_calm [OF c]
  have p: "ready p" using s by (simp add: settled_def)
  have "bkt_pgno q b \<noteq> - 1 \<and> num_waiters q b = 0" if "b \<in> set (lqh q)" for b
  proof -
    have "same_hold p q b" "b \<in> set (lqh p)" using c(1) that by (auto simp: calm_def)
    then show ?thesis using s by (auto simp: settled_def same_hold_def num_waiters_def bkt_pgno_def)
  qed
  moreover have "dirty q b \<or> on_disk q b" if "b \<in> dom (held q) - M" for b
  proof -
    have b: "b \<in> set (lqh p)" "pinned p b" using that h by (auto simp: held_def split: if_splits)
    then have same: "bkts q b = bkts p b" using c(2) by (simp add: keeps_def)
    then have "bkt_pgno q b = bkt_pgno p b" "bkt_page q b = bkt_page p b" "dirty q b = dirty p b"
      by (simp_all add: bkt_pgno_def bkt_page_def dirty_def bkt_flags_def)
    moreover have "dirty p b \<or> on_disk p b" using s that h by (simp add: settled_def)
    ultimately show ?thesis using disk_calm [OF p r c(1) b] by (auto simp: on_disk_def)
  qed
  ultimately show ?thesis using s r h by (simp add: settled_def)
qed

text \<open>Putting a bucket in hand on the queues, with page number \<open>n\<close> and memory \<open>q\<close>.\<close>

lemma settled_insert:
  assumes s: "settled p M" and p': "ready p'"
    and q: "set (lqh p') = insert b (set (lqh p))" "\<And>c. c \<noteq> b \<Longrightarrow> bkts p' c = bkts p c"
      "bkts p' b = Some bp" "bit (b_flags bp) 8" "b_waiters bp = 0" "b_pgno bp \<noteq> - 1"
    and dk: "disk_page p' = disk_page p"
    and cl: "b \<in> N \<or> dirty p' b \<or> on_disk p' b" "N \<subseteq> {b}"
  shows "settled p' (M \<union> N) \<and> held p' = (held p)(b \<mapsto> (b_pgno bp, b_page bp))"
proof -
  note same = bkt_eq_same [OF q(2)]
  have h: "held p' = (held p)(b \<mapsto> (b_pgno bp, b_page bp))"
  proof
    fix c
    show "held p' c = ((held p)(b \<mapsto> (b_pgno bp, b_page bp))) c"
      using q same [where c = c] by (cases "c = b") (auto simp: held_def pinned_def bkt_flags_def)
  qed
  have "dirty p' c \<or> on_disk p' c" if "c \<in> dom (held p') - (M \<union> N)" for c
  proof (cases "c = b")
    case True
    then show ?thesis using that cl by auto
  next
    case False
    then have "c \<in> dom (held p) - M" using that h by (auto split: if_splits)
    then show ?thesis using s same [OF False] dk by (auto simp: settled_def on_disk_def)
  qed
  moreover have "bkt_pgno p' c \<noteq> - 1 \<and> num_waiters p' c = 0" if "c \<in> set (lqh p')" for c
    using s that q same [where c = c] by (cases "c = b") (auto simp: settled_def bkt_pgno_def num_waiters_def)
  moreover have "M \<union> N \<subseteq> dom (held p')" using s cl(2) by (auto simp: settled_def h)
  ultimately show ?thesis using p' h by (simp add: settled_def)
qed

lemma settled_load:
  assumes s: "settled p M" and a: "alloc_bkt p = Some (b, p1)"
  shows "settled p1 M" "held p1 = held p" "b \<notin> set (lqh p1)" "in_hand ps p1 b"
    "pool_view nrm p1 = pool_view nrm p" "calm p p1" "ready p1" "shrinks p p1"
proof -
  have r: "ready p" using s by (simp add: settled_def)
  have A: "ready p1" "pool_view nrm p1 = pool_view nrm p" "shrinks p p1" "in_hand ps p1 b"
    using alloc_bkt_ok [OF r a] by auto
  note c = alloc_bkt_calm [OF r a]
  have k: "keeps p p1" using A(3) by (simp add: shrinks_def)
  show "settled p1 M" by (rule settled_calm [OF s A(1) c k])
  show "held p1 = held p" by (rule held_calm [OF c k])
  show "b \<notin> set (lqh p1)" "in_hand ps p1 b" using A(4) by (auto simp: in_hand_def)
  show "pool_view nrm p1 = pool_view nrm p" "calm p p1" "ready p1" "shrinks p p1" using A c by auto
qed

lemma session_get:
  assumes s: "session p M" and n: "n \<noteq> - 1" "\<And>b m. held p b \<noteq> Some (n, m)"
    and v: "pool_view nrm p n = Some c" and fl: "flags = 0 \<or> flags = FFDB_CREATE \<and> known p n"
  obtains b m p' where "pagepool_get_page p n flags = Some (Got 0 n (Some b) p')" "held p b = None"
    "held p' = (held p)(b \<mapsto> (n, m))" "nrm m = c" "good m" "pool_view nrm p' = pool_view nrm p"
    "session p' M" "\<And>k. known p k \<Longrightarrow> known p' k" "maxpgno p' = maxpgno p" "fileflags p' = fileflags p"
proof -
  note F = get_flags [of flags]
  have fl': "flags = 0 \<or> flags = FFDB_CREATE" using fl by blast
  have r: "ready p" and st: "settled p M" and room: "lqh p \<noteq> [] \<or> curcache p \<le> maxcache p"
    using s by (auto simp: session_def settled_def)
  have pos: "\<forall>c\<in>set (lqh p). bkt_pgno p c \<noteq> - 1" using st by (simp add: settled_def)
  show thesis
  proof (cases "cached p n")
    case None
    have cr: "\<not> (FLAG_ISSET flags FFDB_PAGE_CREATE \<and> n \<ge> npages p)"
      using fl F(5) None by (auto simp: not_le known_def cached_None)
    obtain st' mem p' where l: "load_new_page p n flags = Some (st', mem, p')"
      using load_new_page_total [OF r None _ room, of flags] v by auto
    obtain b p1 where a: "alloc_bkt p = Some (b, p1)"
      using l by (auto simp: load_new_page_def split: bind_splits)
    note L = settled_load [OF st a]
    obtain bp where bp: "bkts p1 b = Some bp" "length (b_page bp) = ps" "bit (b_flags bp) 8"
      using L(4) by (auto simp: in_hand_def)
    obtain q where q: "disk_page p1 n = Some q" "st' = 0" "mem = Some b" "p' = loaded b n flags q p1"
      using l load_new_page_eq [OF a L(7,4), of n flags] by (auto split: bind_splits)
    obtain b' where lo: "ready p'" "pool_view nrm p' = pool_view nrm p"
      by (rule load_new_page_ok [OF r None l]) blast
    have g: "good q" using q(1) L(7) by (intro pin_good [of n]) (auto simp: disk_page_ready ready_def)
    have page: "pool_view nrm p n = Some (nrm q)"
      using q(1) shrinks_uncached [OF L(8) None] by (simp flip: L(5) add: pool_view_def)
    let ?bp = "load_bkt (self p1) n flags q bp"
    have fields: "set (lqh p') = insert b (set (lqh p1))" "\<And>c. c \<noteq> b \<Longrightarrow> bkts p' c = bkts p1 c"
        "bkts p' b = Some ?bp" "disk_page p' = disk_page p1" "npages p' = npages p1" "maxpgno p' = maxpgno p1"
        "fileflags p' = fileflags p1"
      using bp by (auto simp: q(4) loaded_def bkts_upd_bkt lq_insert_tail_def hq_insert_head_def
        disk_page_def page_size_def fun_eq_iff)
    have od: "on_disk p' b"
      using q(1) fields(3,4) by (simp add: on_disk_def bkt_pgno_def bkt_page_def load_bkt_def)
    have S: "settled p' (M \<union> {}) \<and> held p' = (held p1)(b \<mapsto> (b_pgno ?bp, b_page ?bp))"
      by (rule settled_insert [OF L(1) lo(1) fields(1,2,3) _ _ _ fields(4)])
         (use bp n(1) od in \<open>simp_all add: load_bkt_def\<close>)
    have get: "pagepool_get_page p n flags = Some (Got 0 n (Some b) p')"
      using F(1,2) fl' cr find_page_cached [OF r, of n] None l q(2,3)
      by (auto simp: pagepool_get_page_def simp del: flag_isset)
    show thesis
    proof (rule that [OF get])
      show "held p b = None" using L(2,3) by (metis held_def)
      show "held p' = (held p)(b \<mapsto> (n, q))" using S L(2) by (simp add: load_bkt_def)
      show "nrm q = c" using page v by simp
      show "session p' M" using S fields(1) by (auto simp: session_def)
      show "known p' k" if "known p k" for k
      proof (rule known_mono)
        show "known p1 k" using L(6) pos that by (simp add: calm_def)
        show "bkt_pgno p' c = bkt_pgno p1 c \<and> (dirty p1 c \<longrightarrow> dirty p' c)"
          if "c \<in> set (lqh p1)" for c
          using bkt_eq_same [OF fields(2), of c] L(3) that by (cases "c = b") auto
      qed (use fields in auto)
    qed (use g lo fields L(6) in \<open>auto simp: calm_def\<close>)
  next
    case (Some b)
    then have b: "b \<in> set (lqh p)" "bkt_pgno p b = n"
      using cached_Some [OF ready_struct [OF r]] by auto
    then obtain bp where bp: "bkts p b = Some bp"
      using ready_struct [OF r] by (auto simp: pool_struct_def)
    have pg: "b_pgno bp = n" using b bp by (simp add: bkt_pgno_def)
    have unp: "\<not> pinned p b" using n(2) [of b "b_page bp"] heldI [OF b(1) _ bp] pg by auto
    have w: "b_waiters bp = 0" using st b(1) bp by (auto simp: settled_def num_waiters_def)
    have np: "\<not> bit (b_flags bp) 8" using unp bp by (simp add: pinned_def bkt_flags_def)
    obtain p' where g: "grab_page p b n flags = Got 0 n (Some b) p'" by (simp add: grab_page_def Let_def)
    have get: "pagepool_get_page p n flags = Some (Got 0 n (Some b) p')"
      using F(1,2) fl' find_page_cached [OF r, of n] Some bp w np g
      by (simp add: pagepool_get_page_def)
    note G = grab_ok [OF r b g]
    let ?bp = "bp\<lparr>b_ref := b_ref bp + 1, b_owner := Some (self p),
                   b_flags := mark_flags flags (FLAG_SET (b_flags bp) FFDB_PAGE_PINNED)\<rparr>"
    have fields: "set (lqh p') = insert b (set (lqh p))" "\<And>c. c \<noteq> b \<Longrightarrow> bkts p' c = bkts p c"
        "bkts p' b = Some ?bp" "disk_page p' = disk_page p" "npages p' = npages p" "maxpgno p' = maxpgno p"
        "fileflags p' = fileflags p"
    proof -
      have "distinct (lqh p)" using ready_struct [OF r] by (simp add: pool_struct_def)
      then show "set (lqh p') = insert b (set (lqh p))" "\<And>c. c \<noteq> b \<Longrightarrow> bkts p' c = bkts p c"
        "bkts p' b = Some ?bp" "disk_page p' = disk_page p"
        using bp g b by (auto simp: grab_page_def Let_def bkts_upd_bkt)
      show "npages p' = npages p" "maxpgno p' = maxpgno p" "fileflags p' = fileflags p"
        using g by (auto simp: grab_page_def Let_def lq_insert_tail_def hq_insert_head_def lq_remove_def hq_remove_def)
    qed
    have same: "bkt_page p' b = bkt_page p b" "bkt_pgno p' b = bkt_pgno p b"
      using bp fields(3) by (simp_all add: bkt_page_def bkt_pgno_def)
    note U = unpinned_ok [OF r b(1) unp]
    have d: "dirty p' b \<or> on_disk p' b"
      using U G(8) same fields(4) by (auto simp: on_disk_def)
    have S: "settled p' (M \<union> {}) \<and> held p' = (held p)(b \<mapsto> (b_pgno ?bp, b_page ?bp))"
      by (rule settled_insert [OF st G(4) fields(1,2,3) _ _ _ fields(4)]) (use d w pg n(1) in simp_all)
    show thesis
    proof (rule that [OF get])
      show "held p b = None" using unp by (simp add: held_def)
      show "held p' = (held p)(b \<mapsto> (n, b_page bp))" using S pg by simp
      show "nrm (b_page bp) = c" using v Some bp by (simp add: pool_view_def bkt_page_def)
      show "good (b_page bp)" using U bp by (simp add: bkt_page_def)
      show "session p' M" using S fields(1) by (auto simp: session_def)
      show "known p' k" if "known p k" for k
      proof (rule known_mono [OF that])
        show "bkt_pgno p' c = bkt_pgno p c \<and> (dirty p c \<longrightarrow> dirty p' c)"
          if "c \<in> set (lqh p)" for c
          using G(8) same(2) bkt_eq_same [OF fields(2), of c] by (cases "c = b") auto
      qed (use fields in auto)
    qed (use G fields in auto)
  qed
qed

text \<open>Writing to a held page: it counts as changed from now on.\<close>

lemma session_poke:
  assumes s: "session p M" and h: "held p b = Some (n, m)" and len: "length (f m) = ps"
  shows "session (upd_bkt b (b_page_update f) p) (insert b M)"
    "held (upd_bkt b (b_page_update f) p) = (held p)(b \<mapsto> (n, f m))"
    "pool_view nrm (upd_bkt b (b_page_update f) p) = (pool_view nrm p)(n \<mapsto> nrm (f m))"
    "known (upd_bkt b (b_page_update f) p) = known p"
proof -
  obtain bp where bp: "bkts p b = Some bp" "b_pgno bp = n" "b_page bp = m" using heldD(5) [OF h] by blast
  note H = heldD [OF h]
  let ?q = "upd_bkt b (b_page_update (\<lambda>_. f m)) p"
  have q: "upd_bkt b (b_page_update f) p = ?q" using bp by (cases bp) (simp add: upd_bkt_def)
  have st: "settled p M" using s by (simp add: session_def)
  have r: "ready p" using st by (simp add: settled_def)
  note P = poke_ok [OF r H(1,2,3) len]
  have f: "bkts ?q b = Some (bp\<lparr>b_page := f m\<rparr>)" "\<And>c. c \<noteq> b \<Longrightarrow> bkts ?q c = bkts p c" "lqh ?q = lqh p"
      "npages ?q = npages p" "disk_page ?q = disk_page p"
    using bp by (simp_all add: bkts_upd_bkt)
  have fl: "bit (b_flags bp) 8" using H(2) bp by (simp add: pinned_def bkt_flags_def)
  have S: "settled ?q (M \<union> {b}) \<and> held ?q = (held p)(b \<mapsto> (b_pgno (bp\<lparr>b_page := f m\<rparr>), b_page (bp\<lparr>b_page := f m\<rparr>)))"
    by (rule settled_insert [OF st _ _ f(2,1) _ _ _ f(5)])
       (use P H st bp fl in \<open>auto simp: settled_def num_waiters_def bkt_pgno_def\<close>)
  show "session (upd_bkt b (b_page_update f) p) (insert b M)"
    using S s f(3) unfolding q by (auto simp: session_def)
  show "held (upd_bkt b (b_page_update f) p) = (held p)(b \<mapsto> (n, f m))"
    using S bp unfolding q by simp
  show "pool_view nrm (upd_bkt b (b_page_update f) p) = (pool_view nrm p)(n \<mapsto> nrm (f m))"
    using P unfolding q by simp
  have same: "bkt_pgno ?q c = bkt_pgno p c" "pinned ?q c = pinned p c" "dirty ?q c = dirty p c" for c
    using f(1) bkt_eq_same [OF f(2), of c] bp
    by (cases "c = b"; simp add: bkt_pgno_def pinned_def dirty_def bkt_flags_def)+
  show "known (upd_bkt b (b_page_update f) p) = known p"
    unfolding q by (simp add: fun_eq_iff known_def same f(3,4))
qed

text \<open>A store that leaves the content as it is does not count as a change.\<close>

lemma session_poke_same:
  assumes s: "session p M" and h: "held p b = Some (n, m)" and len: "length (f m) = ps" and same: "nrm (f m) = nrm m"
  shows "session (upd_bkt b (b_page_update f) p) M"
proof -
  let ?q = "upd_bkt b (b_page_update f) p"
  note P = session_poke [OF s h, of f, OF len]
  obtain bp where bp: "bkts p b = Some bp" "b_pgno bp = n" "b_page bp = m" using heldD(5) [OF h] by blast
  have q: "bkts ?q b = Some (b_page_update f bp)" using bp by (simp add: bkts_upd_bkt)
  have "M \<subseteq> dom (held ?q)" using s P(2) by (auto simp: session_def settled_def)
  moreover have "dirty ?q b \<or> on_disk ?q b" if "b \<notin> M"
  proof -
    have "dirty p b \<or> on_disk p b" using s that h by (auto simp: session_def settled_def)
    then show ?thesis
      using q bp same by (simp add: dirty_def on_disk_def bkt_flags_def bkt_pgno_def bkt_page_def)
  qed
  ultimately show ?thesis using P(1) by (auto simp: session_def settled_def)
qed

text \<open>Putting a held page back, as dirty or unchanged.\<close>

lemma session_put:
  assumes s: "session p M" and h: "held p b = Some (n, m)" and g: "good m"
    and d: "FLAG_ISSET flags FFDB_PAGE_DIRTY \<or> b \<notin> M"
  obtains p' where "pagepool_put_page p b flags = Some (0, p')" "session p' (M - {b})"
    "held p' = (held p)(b := None)" "pool_view nrm p' = pool_view nrm p"
    "FLAG_ISSET flags FFDB_PAGE_DIRTY \<Longrightarrow> known p' n" "\<And>k. known p k \<Longrightarrow> known p' k" "maxpgno p' = maxpgno p" "fileflags p' = fileflags p"
proof -
  obtain bp where bp: "bkts p b = Some bp" "b_pgno bp = n" "b_page bp = m" using heldD(5) [OF h] by blast
  note H = heldD [OF h]
  have st: "settled p M" using s by (simp add: session_def)
  have r: "ready p" using st by (simp add: settled_def)
  have w: "b_waiters bp = 0" using st H(1) bp by (auto simp: settled_def num_waiters_def)
  have fl: "bit (b_flags bp) 8" using H(2) bp by (simp add: pinned_def bkt_flags_def)
  have od: "dirty p b \<or> bit flags 1 \<or> map_option nrm (disk_page p (b_pgno bp)) = Some (nrm (b_page bp))"
    using d st h bp by (auto simp: settled_def on_disk_def bkt_pgno_def bkt_page_def)
  define bp' where "bp' = bp\<lparr>b_ref := b_ref bp - 1, b_owner := None, b_flags := FLAG_CLR
     (if FLAG_ISSET flags FFDB_PAGE_DIRTY then FLAG_SET (b_flags bp) FFDB_PAGE_DIRTY else b_flags bp) FFDB_PAGE_PINNED\<rparr>"
  let ?q = "upd_bkt b (\<lambda>_. bp') p"
  have put: "pagepool_put_page p b flags = Some (0, ?q)"
    using bp fl w by (simp add: pagepool_put_page_def bp'_def Let_def)
  obtain p' where P: "pagepool_put_page p b flags = Some (0, p')" "ready p'" "pool_view nrm p' = pool_view nrm p"
    by (rule put_ok [OF r H(1) bp(1) H(2) _ _ od]) (use w g bp in auto)
  have p': "p' = ?q" using P(1) put by simp
  have f: "bkts p' b = Some bp'" "\<And>c. c \<noteq> b \<Longrightarrow> bkts p' c = bkts p c" "lqh p' = lqh p" "npages p' = npages p"
      "disk_page p' = disk_page p" "maxpgno p' = maxpgno p" "fileflags p' = fileflags p" "curcache p' = curcache p"
      "maxcache p' = maxcache p"
    using bp by (simp_all add: p' bkts_upd_bkt upd_bkt_def disk_page_def page_size_def fun_eq_iff)
  note same = bkt_eq_same [OF f(2)]
  have unp: "\<not> pinned p' b" using f(1) by (simp add: pinned_def bkt_flags_def bp'_def)
  have pgb: "bkt_pgno p' b = n" "num_waiters p' b = 0"
    using f(1) bp w by (simp_all add: bkt_pgno_def bp'_def num_waiters_def)
  have hd: "held p' = (held p)(b := None)"
  proof
    fix c
    show "held p' c = ((held p)(b := None)) c"
      using unp f same(4) by (cases "c = b") (auto simp: held_def)
  qed
  have "bkt_pgno p' c \<noteq> - 1 \<and> num_waiters p' c = 0" if "c \<in> set (lqh p')" for c
    using st that pgb same [where c = c] f(3) H(1,3) by (cases "c = b") (auto simp: settled_def)
  moreover have "dirty p' c \<or> on_disk p' c" if "c \<in> dom (held p') - (M - {b})" for c
  proof -
    have c: "c \<noteq> b" "c \<in> dom (held p) - M" using that hd by (auto split: if_splits)
    then show ?thesis using st same [OF c(1)] f(5) by (auto simp: settled_def on_disk_def)
  qed
  moreover have "M - {b} \<subseteq> dom (held p')" using st hd by (auto simp: settled_def)
  ultimately have S: "session p' (M - {b})" using P(2) s f(3,8,9) by (simp add: settled_def session_def)
  show thesis
  proof (rule that [OF P(1) S hd P(3)])
    show "known p' n" if "FLAG_ISSET flags FFDB_PAGE_DIRTY"
      using that f(1,3) H(1) pgb(1) by (auto simp: known_def dirty_def bkt_flags_def bp'_def)
    show "known p' k" if "known p k" for k
    proof (rule known_mono [OF that])
      have "dirty p b \<longrightarrow> dirty p' b" using f(1) bp by (simp add: dirty_def bkt_flags_def bp'_def)
      then show "bkt_pgno p' c = bkt_pgno p c \<and> (dirty p c \<longrightarrow> dirty p' c)" for c
        using same [where c = c] pgb(1) H(3) by (cases "c = b") auto
    qed (use f in auto)
  qed (rule f)+
qed

text \<open>A page that is not in the cache and was never written can be made new.\<close>

lemma session_new:
  assumes s: "session p M" and n: "n \<noteq> - 1" "cached p n = None"
    and mx: "maxpgno p \<noteq> FFDB_MAX_PAGE_NUMBER" and fl: "FLAG_ISSET flags FFDB_PAGE_REQUEST"
  obtains b m p' where "new_page_i p n flags = Some (0, n, Some b, p')" "held p b = None"
    "held p' = (held p)(b \<mapsto> (n, m))" "length m = ps" "mem_get m 0 FFDB_CLEANHDR_SIZE = replicate FFDB_CLEANHDR_SIZE 0"
    "pool_view nrm p' = (pool_view nrm p)(n \<mapsto> nrm m)" "session p' (insert b M)"
    "\<And>k. known p k \<Longrightarrow> known p' k" "maxpgno p' = max (maxpgno p) n" "fileflags p' = fileflags p"
proof -
  have st: "settled p M" and room: "lqh p \<noteq> [] \<or> curcache p \<le> maxcache p"
    using s by (auto simp: session_def)
  have r: "ready p" using st by (simp add: settled_def)
  have pos: "\<forall>c\<in>set (lqh p). bkt_pgno p c \<noteq> - 1" using st by (simp add: settled_def)
  obtain b p1 where a: "alloc_bkt p = Some (b, p1)" using alloc_bkt_total [OF r room] by auto
  note L = settled_load [OF st a]
  obtain bp where bp: "bkts p1 b = Some bp" "length (b_page bp) = ps" "bit (b_flags bp) 8"
    using L(4) by (auto simp: in_hand_def)
  have big: "FFDB_CLEANHDR_SIZE \<le> ps" using r by (simp add: ready_def ffdb_consts)
  define m where "m = mem_put (b_page bp) 0 (replicate FFDB_CLEANHDR_SIZE 0)"
  define bp' where "bp' = bp\<lparr>b_page := m, b_pgno := n, b_ref := 1, b_owner := Some (self p1),
    b_flags := mark_flags flags (b_flags bp)\<rparr>"
  let ?maxp = "if n > maxpgno p1 then n else maxpgno p1"
  let ?p1 = "p1\<lparr>maxpgno := ?maxp\<rparr>"
  let ?p2 = "upd_bkt b (\<lambda>_. bp') ?p1"
  let ?p' = "lq_insert_tail b (hq_insert_head n b ?p2)"
  have new: "new_page_i p n flags = Some (0, n, Some b, ?p')"
    using mx a fl bp big
    by (cases p1; cases bp)
       (simp add: new_page_i_def Let_def m_def bp'_def upd_bkt_def lq_insert_tail_def hq_insert_head_def
        del: flag_isset)
  have r1: "ready ?p1 \<and> pool_view nrm ?p1 = pool_view nrm p1"
    by (rule ready_frame [OF L(7)]) (use ready_struct [OF L(7)] in \<open>auto simp: pool_struct_def\<close>)
  have u: "ready ?p2 \<and> pool_view nrm ?p2 = pool_view nrm ?p1"
    by (rule ready_upd_off) (use r1 L(3) in simp_all)
  have ins: "ready ?p' \<and> pool_view nrm ?p' = (pool_view nrm ?p2)(n \<mapsto> nrm (b_page bp'))"
  proof (rule insert_ok)
    show "cached ?p2 n = None"
      using shrinks_uncached [OF L(8) n(2)] L(3) by (auto simp: cached_None bkt_pgno_upd) (auto simp: bkt_pgno_def)
  qed (use u L(3) bp in \<open>auto simp: bkts_upd_bkt bp'_def m_def\<close>)
  have fields: "set (lqh ?p') = insert b (set (lqh p1))" "\<And>c. c \<noteq> b \<Longrightarrow> bkts ?p' c = bkts p1 c"
      "bkts ?p' b = Some bp'" "disk_page ?p' = disk_page p1" "npages ?p' = npages p1"
      "maxpgno ?p' = max (maxpgno p1) n" "fileflags ?p' = fileflags p1"
    using bp by (auto simp: bkts_upd_bkt lq_insert_tail_def hq_insert_head_def
        disk_page_def page_size_def fun_eq_iff upd_bkt_def max_def)
  have S: "settled ?p' (M \<union> {b}) \<and> held ?p' = (held p1)(b \<mapsto> (b_pgno bp', b_page bp'))"
    by (rule settled_insert [OF L(1) _ fields(1,2,3) _ _ _ fields(4)])
       (use ins bp n(1) L(4) in \<open>auto simp: bp'_def in_hand_def\<close>)
  show thesis
  proof (rule that [OF new])
    show "held p b = None" using L(2,3) by (metis held_def)
    show "held ?p' = (held p)(b \<mapsto> (n, m))" using S L(2) by (simp add: bp'_def)
    show "length m = ps" using bp by (simp add: m_def)
    show "mem_get m 0 FFDB_CLEANHDR_SIZE = replicate FFDB_CLEANHDR_SIZE 0" using bp big by (simp add: m_def)
    show "pool_view nrm ?p' = (pool_view nrm p)(n \<mapsto> nrm m)" using ins u r1 L(5) by (simp add: bp'_def)
    show "session ?p' (insert b M)" using S by (auto simp: session_def)
    show "known ?p' k" if "known p k" for k
    proof (rule known_mono)
      show "known p1 k" using L(6) pos that by (simp add: calm_def)
      show "bkt_pgno ?p' c = bkt_pgno p1 c \<and> (dirty p1 c \<longrightarrow> dirty ?p' c)" if "c \<in> set (lqh p1)" for c
        using bkt_eq_same [OF fields(2), of c] L(3) that by (cases "c = b") auto
    qed (use fields in auto)
  qed (use fields L(6) in \<open>auto simp: calm_def\<close>)
qed

end

end
