(* ===== verification/FFDB_TableSession.thy ===== *)
theory FFDB_TableSession
  imports FFDB_Session FFDB_Store
begin

text \<open>
  Sessions on the pages of an open table: what \<open>ffdb_get_page\<close>, \<open>ffdb_put_page\<close> and stores
  to a page do to the contents of the pages and to the pages in use.
\<close>

section \<open>Reading the content\<close>

text \<open>Everything but the checksum can be read off the content of a page.\<close>

lemma content_fields [simp]:
  "CURR_PGNO (page_content p) = CURR_PGNO p" "PREV_PGNO (page_content p) = PREV_PGNO p"
  "NEXT_PGNO (page_content p) = NEXT_PGNO p" "PAGE_SIGN (page_content p) = PAGE_SIGN p"
  "NUM_ENT (page_content p) = NUM_ENT p" "PTYPE (page_content p) = PTYPE p" "OFFSET (page_content p) = OFFSET p"
  "length (page_content p) = length p"
  by (simp_all add: page_content_def page_fields)

lemma content_rd32: "a + 4 \<le> 20 \<or> 24 \<le> a \<Longrightarrow> rd32 (page_content p) a = rd32 p a"
  by (auto simp: page_content_def page_fields)

lemma content_get: "24 \<le> a \<Longrightarrow> mem_get (page_content p) a n = mem_get p a n"
  by (simp add: page_content_def page_fields)

lemma INVALID_minus: "INVALID_PGNO = - 1"
  by (simp add: INVALID_PGNO_def word_unat_eq_iff unsigned_minus_1_eq_mask mask_eq_exp_minus_1)

section \<open>The state\<close>

abbreviation tview :: "htab \<Rightarrow> pgno \<Rightarrow> mem option" where
  "tview h \<equiv> page_view (mp h)"

abbreviation theld :: "htab \<Rightarrow> nat \<Rightarrow> (pgno \<times> mem) option" where
  "theld h \<equiv> held (mp h)"

definition tsession :: "htab \<Rightarrow> nat set \<Rightarrow> bool" where
  "tsession h M \<longleftrightarrow> native.session (hdr h) (mp h) M"

text \<open>A step that changes only the pool, and forgets no page.\<close>

definition pool_step :: "htab \<Rightarrow> htab \<Rightarrow> bool" where
  "pool_step h h' \<longleftrightarrow> h' = h\<lparr>mp := mp h'\<rparr> \<and> (\<forall>k. known (mp h) k \<longrightarrow> known (mp h') k)"

lemma pool_step_refl [simp]: "pool_step h h"
  by (simp add: pool_step_def)

lemma pool_step_trans: "pool_step a b \<Longrightarrow> pool_step b c \<Longrightarrow> pool_step a c"
  unfolding pool_step_def by (metis (no_types, lifting) htab.surjective htab.update_convs(12))

lemma pool_step_fields:
  assumes "pool_step h h'"
  shows "hdr h' = hdr h" "curr_dpage h' = curr_dpage h" "data_valid_flag h' = data_valid_flag h"
    "h_compare h' = h_compare h" "ht_hash h' = ht_hash h" "mborder h' = mborder h" "rdonly h' = rdonly h"
    "known (mp h) k \<Longrightarrow> known (mp h') k"
proof -
  have "h' = h\<lparr>mp := mp h'\<rparr>" using assms by (simp add: pool_step_def)
  then show "hdr h' = hdr h" "curr_dpage h' = curr_dpage h" "data_valid_flag h' = data_valid_flag h"
    "h_compare h' = h_compare h" "ht_hash h' = ht_hash h" "mborder h' = mborder h" "rdonly h' = rdonly h"
    by (metis htab.select_convs htab.surjective htab.update_convs(12))+
  show "known (mp h) k \<Longrightarrow> known (mp h') k" using assms by (simp add: pool_step_def)
qed

lemma pool_stepI: "(\<And>k. known (mp h) k \<Longrightarrow> known p k) \<Longrightarrow> pool_step h (h\<lparr>mp := p\<rparr>)"
  by (simp add: pool_step_def)

lemma theld_page: "theld h b = Some (n, m) \<Longrightarrow> page_at h b = Some m"
  using heldD(5) [of "mp h" b n m] by (auto simp: page_at_def)

text \<open>The filters depend only on the page size and the byte order in the header.\<close>

lemma native_cong:
  assumes "h_bsize a = h_bsize b" "h_lorder a = h_lorder b"
  shows "native.session a = native.session b"
proof -
  have cs: "ffdb_page_checksum a = ffdb_page_checksum b"
    by (simp add: fun_eq_iff ffdb_page_checksum_def assms)
  have ip: "ffdb_init_page a = ffdb_init_page b"
    by (intro ext) (simp only: ffdb_init_page_def assms)
  have "ffdb_pgin_routine a = ffdb_pgin_routine b" "ffdb_pgout_routine a = ffdb_pgout_routine b"
    by (intro ext, simp only: ffdb_pgin_routine_def ffdb_pgout_routine_def assms cs ip)+
  moreover have "page_good a = page_good b"
    by (simp add: fun_eq_iff page_good_def assms)
  ultimately show ?thesis by (simp only: assms)
qed

lemma tsession_hdr:
  "tsession h M \<Longrightarrow> mp h' = mp h \<Longrightarrow> h_bsize (hdr h') = h_bsize (hdr h) \<Longrightarrow> h_lorder (hdr h') = h_lorder (hdr h) \<Longrightarrow>
    tsession h' M"
  using native_cong [of "hdr h'" "hdr h"] by (simp add: tsession_def)

section \<open>Getting, changing and putting pages\<close>

lemma get_page_session:
  assumes s: "tsession h M" and n: "n \<noteq> - 1" "\<And>b m. theld h b \<noteq> Some (n, m)" and v: "tview h n = Some c"
    and fl: "flags = 0 \<or> flags = FFDB_CREATE \<and> known (mp h) n \<and> CURR_PGNO c \<noteq> 0"
    and ad: "(if addrtype = HASH_BUCKET_PAGE then BUCKET_TO_PAGE (hdr h) addr else Some addr) = Some n"
  obtains b m h' where "ffdb_get_page h addr addrtype flags = Some (Some b, n, h')" "theld h b = None"
    "theld h' = (theld h)(b \<mapsto> (n, m))" "page_content m = c" "page_good (hdr h) m" "tview h' = tview h"
    "tsession h' M" "pool_step h h'"
proof -
  have s': "native.session (hdr h) (mp h) M" using s by (simp add: tsession_def)
  have fl': "flags = 0 \<or> flags = FFDB_CREATE \<and> known (mp h) n" using fl by blast
  obtain b m p' where g: "pagepool_get_page (mp h) n flags = Some (Got 0 n (Some b) p')" "held (mp h) b = None"
    "held p' = (held (mp h))(b \<mapsto> (n, m))" "page_content m = c" "page_good (hdr h) m"
    "pool_view page_content p' = pool_view page_content (mp h)" "native.session (hdr h) p' M"
    "\<And>k. known (mp h) k \<Longrightarrow> known p' k"
    by (rule native.session_get [OF s' n v [unfolded page_view_def] fl']) blast
  obtain bp where bp: "bkts p' b = Some bp" "b_page bp = m" using heldD(5) [of p' b n m] g(3) by auto
  have no: "\<not> (FLAG_ISSET flags FFDB_CREATE \<and> CURR_PGNO m = 0)"
    using fl g(4) get_flags(5) [of flags FFDB_CREATE] by auto
  show thesis
  proof (rule that)
    show "ffdb_get_page h addr addrtype flags = Some (Some b, n, h\<lparr>mp := p'\<rparr>)"
      using ad g(1) bp no by (auto simp: ffdb_get_page_def)
  qed (use g pool_stepI in \<open>auto simp: page_view_def tsession_def\<close>)
qed

lemma poke_session:
  assumes s: "tsession h M" and h: "theld h b = Some (n, m)" and len: "length (f m) = unat (h_bsize (hdr h))"
  shows "tsession (poke b f h) (insert b M)" "theld (poke b f h) = (theld h)(b \<mapsto> (n, f m))"
    "tview (poke b f h) = (tview h)(n \<mapsto> page_content (f m))" "pool_step h (poke b f h)"
  using native.session_poke [OF s [unfolded tsession_def] h, of f, OF len]
  by (simp_all add: tsession_def poke_def page_view_def pool_stepI)

lemma poke_same_session:
  assumes s: "tsession h M" and h: "theld h b = Some (n, m)" and len: "length (f m) = unat (h_bsize (hdr h))"
    and same: "page_content (f m) = page_content m"
  shows "tsession (poke b f h) M"
  using native.session_poke_same [OF s [unfolded tsession_def] h, of f, OF len same]
  by (simp add: tsession_def poke_def)

lemma tview_length:
  assumes s: "tsession h M" and v: "tview h n = Some q"
  shows "length q = unat (h_bsize (hdr h))"
proof -
  have r: "native.ready (hdr h) (mp h)"
    using s by (simp add: tsession_def native.session_def native.settled_def)
  show ?thesis
  proof (cases "cached (mp h) n")
    case None
    then obtain p where p: "disk_page (mp h) n = Some p" "q = page_content p"
      using v by (auto simp: page_view_def pool_view_def)
    have "page_good (hdr h) p"
      using p(1) r by (intro native.pin_good [of "hdr h" n]) (auto simp: native.disk_page_ready native.ready_def)
    then show ?thesis using p(2) by (simp add: page_good_def)
  next
    case (Some b)
    then have "native.ready (hdr h) (mp h) \<and> b \<in> set (lqh (mp h))"
      using r cached_Some [OF native.ready_struct [OF r]] by simp
    then have "length (bkt_page (mp h) b) = page_size (mp h)"
      using native.ready_bkt_ok by (auto simp: bkt_ok_def)
    then show ?thesis using v Some r by (auto simp: page_view_def pool_view_def native.ready_def)
  qed
qed

lemma held_view: "tsession h M \<Longrightarrow> theld h b = Some (n, m) \<Longrightarrow> tview h n = Some (page_content m)"
proof -
  assume s: "tsession h M" and h: "theld h b = Some (n, m)"
  have "native.ready (hdr h) (mp h)"
    using s by (simp add: tsession_def native.session_def native.settled_def)
  then have "cached (mp h) n = Some b"
    using heldD(1,3) [OF h] cached_Some [OF native.ready_struct] by blast
  then show ?thesis using heldD(4) [OF h] by (simp add: page_view_def pool_view_def)
qed

lemma put_page_session:
  assumes s: "tsession h M" and h: "theld h b = Some (n, m)" and g: "page_good (hdr h) m" and d: "dirt \<or> b \<notin> M"
  obtains h' where "ffdb_put_page h b dirt = Some (0, h')" "tsession h' (M - {b})" "theld h' = (theld h)(b := None)"
    "tview h' = tview h" "pool_step h h'" "dirt \<Longrightarrow> known (mp h') n"
proof -
  have fl: "FLAG_ISSET (if dirt then FFDB_PAGE_DIRTY else 0) FFDB_PAGE_DIRTY \<longleftrightarrow> dirt"
    by (simp add: FLAG_ISSET_def ffdb_consts)
  obtain p' where p: "pagepool_put_page (mp h) b (if dirt then FFDB_PAGE_DIRTY else 0) = Some (0, p')"
    "native.session (hdr h) p' (M - {b})" "held p' = (held (mp h))(b := None)"
    "pool_view page_content p' = pool_view page_content (mp h)" "dirt \<Longrightarrow> known p' n"
    "\<And>k. known (mp h) k \<Longrightarrow> known p' k"
    by (rule native.session_put [OF s [unfolded tsession_def] h g, of "if dirt then FFDB_PAGE_DIRTY else 0"])
       (use d fl in auto)
  show thesis
  proof (rule that)
    show "ffdb_put_page h b dirt = Some (0, h\<lparr>mp := p'\<rparr>)" using p(1) by (simp add: ffdb_put_page_def)
  qed (use p pool_stepI in \<open>auto simp: page_view_def tsession_def\<close>)
qed

text \<open>A page number that was never used becomes a new, initialised page.\<close>

lemma get_new_session:
  assumes s: "tsession h M" and n: "n \<noteq> - 1" "cached (mp h) n = None" "npages (mp h) \<le> n"
    and mx: "maxpgno (mp h) \<noteq> FFDB_MAX_PAGE_NUMBER" and t: "addrtype \<noteq> HASH_BUCKET_PAGE"
  obtains b z h' where "ffdb_get_page h n addrtype FFDB_CREATE = Some (Some b, n, h')" "theld h b = None"
    "theld h' = (theld h)(b \<mapsto> (n, ffdb_init_page (hdr h) z n addrtype))" "length z = unat (h_bsize (hdr h))"
    "tview h' = (tview h)(n \<mapsto> page_content (ffdb_init_page (hdr h) z n addrtype))" "tsession h' (insert b M)"
    "pool_step h h'" "maxpgno (mp h') = max (maxpgno (mp h)) n"
proof -
  have s': "native.session (hdr h) (mp h) M" using s by (simp add: tsession_def)
  let ?fl = "FFDB_CREATE OR FFDB_PAGE_REQUEST"
  have fl: "FLAG_ISSET ?fl FFDB_PAGE_REQUEST" "FLAG_ISSET FFDB_CREATE FFDB_PAGE_CREATE" "FLAG_ISSET FFDB_CREATE FFDB_CREATE"
    by (simp_all add: FLAG_ISSET_def ffdb_consts)
  note F = get_flags [of FFDB_CREATE, OF disjI2 [OF refl]]
  obtain b m p' where g: "new_page_i (mp h) n ?fl = Some (0, n, Some b, p')" "held (mp h) b = None"
    "held p' = (held (mp h))(b \<mapsto> (n, m))" "length m = unat (h_bsize (hdr h))"
    "mem_get m 0 FFDB_CLEANHDR_SIZE = replicate FFDB_CLEANHDR_SIZE 0"
    "pool_view page_content p' = (pool_view page_content (mp h))(n \<mapsto> page_content m)"
    "native.session (hdr h) p' (insert b M)" "\<And>k. known (mp h) k \<Longrightarrow> known p' k" "maxpgno p' = max (maxpgno (mp h)) n"
    by (rule native.session_new [OF s' n(1,2) mx fl(1)]) blast
  have r: "native.ready (hdr h) (mp h)" using s' by (simp add: native.session_def native.settled_def)
  have get: "pagepool_get_page (mp h) n FFDB_CREATE = Some (Got 0 n (Some b) p')"
    using F(1,2) native.find_page_cached [OF r, of n] n(2,3) g(1) fl(2)
    by (auto simp: pagepool_get_page_def simp del: flag_isset)
  obtain bp where bp: "bkts p' b = Some bp" "b_page bp = m" using heldD(5) [of p' b n m] g(3) by auto
  have "rd32 m 0 = rd32 (mem_get m 0 FFDB_CLEANHDR_SIZE) 0"
    using g(4) r by (simp add: rd32_def mem_get_def native.ready_def min_def ffdb_consts)
  then have zero: "CURR_PGNO m = 0"
    by (simp add: g(5) CURR_PGNO_def) (simp add: rd32_def mem_get_def ffdb_consts numeral_eq_Suc)
  let ?f = "\<lambda>m. ffdb_init_page (hdr h) m n addrtype"
  let ?h' = "poke b ?f (h\<lparr>mp := p'\<rparr>)"
  have s2: "tsession (h\<lparr>mp := p'\<rparr>) (insert b M)" using g(7) by (simp add: tsession_def)
  have h2: "theld (h\<lparr>mp := p'\<rparr>) b = Some (n, m)" using g(3) by simp
  note P = poke_session [OF s2 h2, of ?f]
  show thesis
  proof (rule that)
    show "ffdb_get_page h n addrtype FFDB_CREATE = Some (Some b, n, ?h')"
      using t get bp zero fl(3) by (simp add: ffdb_get_page_def)
    have "pool_step h (h\<lparr>mp := p'\<rparr>)" by (rule pool_stepI) (rule g(8))
    moreover have "pool_step (h\<lparr>mp := p'\<rparr>) ?h'" using P(4) g(4) by simp
    ultimately show "pool_step h ?h'" by (rule pool_step_trans)
  qed (use P g in \<open>simp_all add: page_view_def poke_def\<close>)
qed

end
