(* ===== verification/FFDB_Lookup.thy ===== *)
theory FFDB_Lookup
  imports FFDB_BucketPage FFDB_TableSession
begin

text \<open>
  Looking up in a bucket. A bucket is a chain of well-formed pages, seen as the list of its
  pairs with their places; the walk along the chain finds the first pair with the key, and
  ends with one page in use, the one of the pair or the last one.
\<close>

section \<open>Pages and their content\<close>

lemma bucket_wf_reads:
  assumes "bucket_wf p" "i < page_num p"
  shows "28 \<le> pair_pos i" "pair_pos i + 12 \<le> DATAP p i" "DATAP p i + 16 \<le> unat (KEY_OFF p i)"
    "unat (KEY_OFF p i) + unat (KEY_LEN p i) \<le> length p" "pair_pos i + 12 \<le> page_top p"
proof -
  have e: "pair_pos (page_num p) \<le> page_top p" "page_top p \<le> DATAP p i"
    using assms by (auto simp: bucket_wf_def entry_ok_def)
  moreover have "pair_pos i + 12 \<le> pair_pos (page_num p)"
    using assms(2) by (simp add: pair_pos_def ffdb_consts)
  ultimately show "pair_pos i + 12 \<le> DATAP p i" "pair_pos i + 12 \<le> page_top p" by linarith+
  show "28 \<le> pair_pos i" by (simp add: pair_pos_def ffdb_consts)
  show "DATAP p i + 16 \<le> unat (KEY_OFF p i)" "unat (KEY_OFF p i) + unat (KEY_LEN p i) \<le> length p"
    using assms by (auto simp: bucket_wf_def entry_ok_def)
qed

lemma content_index [simp]:
  "KEY_OFF (page_content p) = KEY_OFF p" "KEY_LEN (page_content p) = KEY_LEN p"
  "DATAP_OFF (page_content p) = DATAP_OFF p" "DATAP (page_content p) = DATAP p"
proof -
  have "24 \<le> pair_pos i" for i by (simp add: pair_pos_def ffdb_consts)
  then show "KEY_OFF (page_content p) = KEY_OFF p" "KEY_LEN (page_content p) = KEY_LEN p"
    "DATAP_OFF (page_content p) = DATAP_OFF p" "DATAP (page_content p) = DATAP p"
    by (simp_all add: fun_eq_iff KEY_OFF_def KEY_LEN_def DATAP_OFF_def DATAP_def content_rd32 trans_le_add1)
qed

lemma content_page [simp]: "page_num (page_content p) = page_num p" "page_top (page_content p) = page_top p"
  by (simp_all add: page_num_def page_top_def)

lemma content_wf [simp]: "bucket_wf (page_content p) = bucket_wf p"
  by (simp add: bucket_wf_def entry_ok_def entries_apart_def)

lemma content_datap: "24 \<le> off \<Longrightarrow> rd_datap (page_content p) off = rd_datap p off"
  by (simp add: rd_datap_def content_rd32)

lemma content_pair:
  assumes "bucket_wf p" "i < page_num p"
  shows "page_pair (page_content p) i = page_pair p i"
  using bucket_wf_reads [OF assms] by (simp add: page_pair_def content_get content_datap)

lemma content_pairs [simp]: "bucket_wf p \<Longrightarrow> page_pairs (page_content p) = page_pairs p"
  by (simp add: page_pairs_def content_pair)

lemma content_keys [simp]: "bucket_wf p \<Longrightarrow> page_keys (page_content p) = page_keys p"
  by (simp add: page_keys_def)

lemma length_page_keys [simp]: "length (page_keys p) = page_num p"
  by (simp add: page_keys_def)

section \<open>Chains\<close>

fun chain :: "(pgno \<Rightarrow> mem option) \<Rightarrow> pgno \<Rightarrow> (pgno \<times> mem) list \<Rightarrow> bool" where
  "chain V n [] \<longleftrightarrow> False"
| "chain V n ((k, p) # r) \<longleftrightarrow> k = n \<and> n \<noteq> INVALID_PGNO \<and> V n = Some p \<and> CURR_PGNO p = n \<and> bucket_wf p \<and>
     PTYPE p = ucast HASH_BUCKET_PAGE \<and> (if NEXT_PGNO p = INVALID_PGNO then r = [] else chain V (NEXT_PGNO p) r)"

text \<open>A chain is determined by its first page.\<close>

lemma chain_Cons:
  "chain V n (a # r) \<longleftrightarrow> (\<exists>p. a = (n, p) \<and> n \<noteq> INVALID_PGNO \<and> V n = Some p \<and> CURR_PGNO p = n \<and> bucket_wf p \<and>
     PTYPE p = ucast HASH_BUCKET_PAGE \<and> (if NEXT_PGNO p = INVALID_PGNO then r = [] else chain V (NEXT_PGNO p) r))"
  by (cases a) auto

lemma chain_unique: "chain V n ps \<Longrightarrow> chain V n qs \<Longrightarrow> ps = qs"
proof (induction ps arbitrary: n qs)
  case (Cons a r)
  obtain b s where qs: "qs = b # s" using Cons.prems(2) by (cases qs) auto
  obtain p where p: "a = (n, p)" "V n = Some p" "if NEXT_PGNO p = INVALID_PGNO then r = [] else chain V (NEXT_PGNO p) r"
    using Cons.prems(1) unfolding chain_Cons by blast
  obtain q where q: "b = (n, q)" "V n = Some q" "if NEXT_PGNO q = INVALID_PGNO then s = [] else chain V (NEXT_PGNO q) s"
    using Cons.prems(2) unfolding qs chain_Cons by blast
  have "q = p" using p(2) q(2) by simp
  then show ?case
    using Cons.IH [of "NEXT_PGNO p" s] p q qs by (cases "NEXT_PGNO p = INVALID_PGNO") simp_all
qed simp

lemma chain_nonempty: "chain V n ps \<Longrightarrow> ps \<noteq> []"
  by auto

lemma chain_wf: "chain V n ps \<Longrightarrow> (k, p) \<in> set ps \<Longrightarrow> bucket_wf p \<and> V k = Some p \<and> k \<noteq> INVALID_PGNO \<and> CURR_PGNO p = k \<and>
    PTYPE p = ucast HASH_BUCKET_PAGE"
  by (induction ps arbitrary: n) (auto split: if_splits)

lemma chain_cong: "chain V n ps \<Longrightarrow> (\<And>k p. (k, p) \<in> set ps \<Longrightarrow> W k = V k) \<Longrightarrow> chain W n ps"
proof (induction ps arbitrary: n)
  case (Cons a r)
  obtain p where p: "a = (n, p)" "n \<noteq> INVALID_PGNO" "V n = Some p" "CURR_PGNO p = n" "bucket_wf p"
    "PTYPE p = ucast HASH_BUCKET_PAGE" "if NEXT_PGNO p = INVALID_PGNO then r = [] else chain V (NEXT_PGNO p) r"
    using Cons.prems(1) unfolding chain_Cons by blast
  have "W n = Some p" using Cons.prems(2) [of n p] p(1,3) by simp
  moreover have "chain W (NEXT_PGNO p) r" if "NEXT_PGNO p \<noteq> INVALID_PGNO"
    by (rule Cons.IH) (use Cons.prems(2) p(7) that in auto)
  ultimately show ?case using p by (simp add: chain_Cons)
qed simp

lemma chain_suffix: "chain V n ps \<Longrightarrow> (k, p) \<in> set ps \<Longrightarrow> \<exists>xs ys. ps = xs @ (k, p) # ys \<and> chain V k ((k, p) # ys)"
proof (induction ps arbitrary: n)
  case (Cons a r)
  show ?case
  proof (cases "a = (k, p)")
    case True
    then show ?thesis using Cons.prems(1) by (intro exI [of _ "[]"] exI [of _ r]) (auto split: if_splits)
  next
    case False
    then have m: "(k, p) \<in> set r" using Cons.prems(2) by auto
    moreover have "chain V (NEXT_PGNO (snd a)) r" using Cons.prems(1) m by (cases a) (auto split: if_splits)
    ultimately obtain xs ys where "r = xs @ (k, p) # ys" "chain V k ((k, p) # ys)" using Cons.IH by blast
    then show ?thesis by (intro exI [of _ "a # xs"] exI [of _ ys]) auto
  qed
qed simp

lemma chain_distinct: "chain V n ps \<Longrightarrow> distinct (map fst ps)"
proof (induction ps arbitrary: n)
  case (Cons a r)
  obtain p where a: "a = (n, p)" using Cons.prems by (cases a) auto
  show ?case
  proof (cases "r = []")
    case False
    then have r: "chain V (NEXT_PGNO p) r" using Cons.prems a by (auto split: if_splits)
    have "n \<notin> fst ` set r"
    proof
      assume "n \<in> fst ` set r"
      then obtain q where q: "(n, q) \<in> set r" by auto
      then obtain xs ys where "r = xs @ (n, q) # ys" "chain V n ((n, q) # ys)"
        using chain_suffix [OF r] by blast
      then show False using chain_unique [OF Cons.prems, of "(n, q) # ys"] by auto
    qed
    then show ?thesis using Cons.IH [OF r] a by simp
  qed simp
qed simp

text \<open>Where a key is found first: the page, the index on it, and the data pointer.\<close>

definition key_index :: "mem \<Rightarrow> mem \<Rightarrow> nat option" where
  "key_index k p = find (\<lambda>i. page_keys p ! i = k) [0..<page_num p]"

fun first_at :: "mem \<Rightarrow> (pgno \<times> mem) list \<Rightarrow> (pgno \<times> nat \<times> datap) option" where
  "first_at k [] = None"
| "first_at k ((n, p) # r) =
     (case key_index k p of Some i \<Rightarrow> Some (n, i, snd (page_pair p i)) | None \<Rightarrow> first_at k r)"

lemma key_index_Some: "key_index k p = Some i \<Longrightarrow> i < page_num p \<and> page_keys p ! i = k"
  by (simp add: key_index_def find_upt)

lemma key_index_content [simp]: "bucket_wf p \<Longrightarrow> key_index k (page_content p) = key_index k p"
  by (simp add: key_index_def)

text \<open>The walk along the chain.\<close>

lemma find_chain_finds:
  assumes "tsession h M" "theld h b = Some (n, m)" "b \<notin> M" "page_good (hdr h) m"
    "chain (tview h) n ((n, page_content m) # r)" "\<forall>k\<in>fst ` set r. \<forall>b' m'. theld h b' \<noteq> Some (k, m')"
    "dbt_ok key" "dt_size key < 2 ^ 31" "h_compare h = ham_defcmp"
  shows "\<exists>b' k m' i found h'. find_chain h key b n = Some (Some b', k, i, found, h') \<and>
    (k, page_content m') \<in> set ((n, page_content m) # r) \<and> ((theld h)(b := None)) b' = None \<and>
    theld h' = ((theld h)(b := None))(b' \<mapsto> (k, m')) \<and> page_good (hdr h) m' \<and> tview h' = tview h \<and> tsession h' M \<and> pool_step h h' \<and> b' \<notin> M \<and>
    (if found then first_at (dbt_bytes key) ((n, page_content m) # r) = Some (k, i, snd (page_pair m' i)) \<and> i < page_num m'
     else first_at (dbt_bytes key) ((n, page_content m) # r) = None \<and> i = page_num m' \<and> NEXT_PGNO m' = INVALID_PGNO)"
  using assms
proof (induction "length r" arbitrary: h b n m r rule: less_induct)
  case less
  let ?kb = "dbt_bytes key"
  have wf: "bucket_wf m" and c: "chain (tview h) n ((n, page_content m) # r)" using less.prems(5) by auto
  have at: "page_at h b = Some m" by (rule theld_page [OF less.prems(2)])
  have scan: "scan_keys (h_compare h) key m 0 (unat (NUM_ENT m)) =
      Some (case key_index ?kb m of Some i \<Rightarrow> (i, True) | None \<Rightarrow> (page_num m, False))"
    using scan_page_find [OF wf less.prems(7,8)] less.prems(9) by (simp add: key_index_def)
  show ?case
  proof (cases "key_index ?kb m")
    case (Some i)
    then have "find_chain h key b n = Some (Some b, n, i, True, h)"
      using at scan by (subst find_chain.simps) simp
    moreover have "first_at ?kb ((n, page_content m) # r) = Some (n, i, snd (page_pair m i))" "i < page_num m"
      using Some wf key_index_Some [OF Some] by (simp_all add: content_pair)
    moreover have "((theld h)(b := None))(b \<mapsto> (n, m)) = theld h" using less.prems(2) by auto
    ultimately show ?thesis
      using less.prems(1-4) by (intro exI [of _ b] exI [of _ n] exI [of _ m] exI [of _ i] exI [of _ True] exI [of _ h]) simp
  next
    case None
    show ?thesis
    proof (cases "NEXT_PGNO m = INVALID_PGNO")
      case True
      then have r: "r = []" using c by simp
      have "find_chain h key b n = Some (Some b, n, page_num m, False, h)"
        using at scan None True by (subst find_chain.simps) simp
      moreover have "((theld h)(b := None))(b \<mapsto> (n, m)) = theld h" using less.prems(2) by auto
      ultimately show ?thesis
        using less.prems(1-4) None wf True r
        by (intro exI [of _ b] exI [of _ n] exI [of _ m] exI [of _ "page_num m"] exI [of _ False] exI [of _ h]) simp
    next
      case False
      let ?n' = "NEXT_PGNO m"
      have c2: "chain (tview h) ?n' r" using c False by simp
      then obtain p2 r2 where r: "r = (?n', p2) # r2" "tview h ?n' = Some p2" "?n' \<noteq> INVALID_PGNO"
        by (cases r) (auto simp: chain_Cons)
      obtain h1 where put: "ffdb_put_page h b False = Some (0, h1)" "tsession h1 (M - {b})"
        "theld h1 = (theld h)(b := None)" "tview h1 = tview h" "pool_step h h1"
        by (rule put_page_session [OF less.prems(1,2,4), of False]) (use less.prems(3) in auto)
      have M: "M - {b} = M" using less.prems(3) by simp
      have fresh: "theld h1 b' \<noteq> Some (?n', m')" for b' m'
        using less.prems(6) r(1) put(3) by auto
      have inv: "?n' \<noteq> - 1" using r(3) by (simp add: INVALID_minus)
      have ad: "(if HASH_OVFL_PAGE = HASH_BUCKET_PAGE then BUCKET_TO_PAGE (hdr h1) ?n' else Some ?n') = Some ?n'"
        by (simp add: ffdb_consts)
      obtain b2 m2 h2 where get: "ffdb_get_page h1 ?n' HASH_OVFL_PAGE 0 = Some (Some b2, ?n', h2)"
        "theld h1 b2 = None" "theld h2 = (theld h1)(b2 \<mapsto> (?n', m2))" "page_content m2 = p2" "page_good (hdr h1) m2"
        "tview h2 = tview h1" "tsession h2 M" "pool_step h1 h2"
        by (rule get_page_session [OF put(2) [unfolded M] inv fresh, of p2 0 HASH_OVFL_PAGE ?n'])
           (use r(2) put(4) ad in auto)
      have st: "pool_step h h2" by (rule pool_step_trans [OF put(5) get(8)])
      note F = pool_step_fields [OF st] pool_step_fields [OF put(5)]
      have b2: "b2 \<notin> M"
      proof
        assume "b2 \<in> M"
        then have "theld h1 b2 \<noteq> None" using put(2) by (auto simp: M tsession_def native.session_def native.settled_def)
        then show False using get(2) by simp
      qed
      have dist: "?n' \<notin> fst ` set r2" using chain_distinct [OF c2] r(1) by auto
      have ih: "\<exists>b' k m' i found h'. find_chain h2 key b2 ?n' = Some (Some b', k, i, found, h') \<and>
          (k, page_content m') \<in> set ((?n', page_content m2) # r2) \<and> ((theld h2)(b2 := None)) b' = None \<and>
          theld h' = ((theld h2)(b2 := None))(b' \<mapsto> (k, m')) \<and> page_good (hdr h2) m' \<and> tview h' = tview h2 \<and> tsession h' M \<and> pool_step h2 h' \<and> b' \<notin> M \<and>
          (if found then first_at ?kb ((?n', page_content m2) # r2) = Some (k, i, snd (page_pair m' i)) \<and> i < page_num m'
           else first_at ?kb ((?n', page_content m2) # r2) = None \<and> i = page_num m' \<and> NEXT_PGNO m' = INVALID_PGNO)"
      proof (rule less.hyps)
        show "length r2 < length r" using r(1) by simp
        show "chain (tview h2) ?n' ((?n', page_content m2) # r2)" using c2 r(1) get(4,6) put(4) by simp
        show "\<forall>k\<in>fst ` set r2. \<forall>b' m'. theld h2 b' \<noteq> Some (k, m')"
          using less.prems(6) r(1) dist get(3) put(3) by auto
      qed (use get b2 F less.prems(7-9) in auto)
      have step: "find_chain h key b n = find_chain h2 key b2 ?n'"
        using at scan None False put(1) get(1) by (subst find_chain.simps) simp
      have held: "(theld h2)(b2 := None) = (theld h)(b := None)"
        using get(2,3) put(3) by (auto simp: fun_eq_iff)
      have fa: "first_at ?kb ((n, page_content m) # r) = first_at ?kb ((?n', page_content m2) # r2)"
        using None wf r(1) get(4) by simp
      obtain b' k m' i found h' where R: "find_chain h2 key b2 ?n' = Some (Some b', k, i, found, h')"
        "(k, page_content m') \<in> set ((?n', page_content m2) # r2)" "theld h' = ((theld h2)(b2 := None))(b' \<mapsto> (k, m'))"
        "page_good (hdr h2) m'" "tview h' = tview h2" "tsession h' M" "pool_step h2 h'" "b' \<notin> M"
        "if found then first_at ?kb ((?n', page_content m2) # r2) = Some (k, i, snd (page_pair m' i)) \<and> i < page_num m'
         else first_at ?kb ((?n', page_content m2) # r2) = None \<and> i = page_num m' \<and> NEXT_PGNO m' = INVALID_PGNO"
        "((theld h2)(b2 := None)) b' = None"
        using ih by blast
      have "(k, page_content m') \<in> set ((n, page_content m) # r)" using R(2) r(1) get(4) by auto
      moreover have "pool_step h h'" by (rule pool_step_trans [OF st R(7)])
      moreover have "tview h' = tview h" using R(5) get(6) put(4) by simp
      ultimately show ?thesis
        unfolding step fa using R(1,4,6,8,9) R(3,10) [unfolded held] F(1) by metis
    qed
  qed
qed

section \<open>Finding an item\<close>

text \<open>
  A bucket: a chain from its page. An empty first page has no chain, and its header is as it
  is initialised (\<open>ffdb_find_item\<close> initialises it again).
\<close>

definition blank_header :: "hashhdr \<Rightarrow> mem \<Rightarrow> bool" where
  "blank_header h p \<longleftrightarrow> PREV_PGNO p = INVALID_PGNO \<and> NEXT_PGNO p = INVALID_PGNO \<and> PAGE_SIGN p = FFDB_PAGE_MAGIC \<and>
     NUM_ENT p = 0 \<and> PTYPE p = ucast HASH_BUCKET_PAGE \<and> OFFSET p = h_bsize h - 1"

definition bucket_chain :: "hashhdr \<Rightarrow> (pgno \<Rightarrow> mem option) \<Rightarrow> pgno \<Rightarrow> (pgno \<times> mem) list \<Rightarrow> bool" where
  "bucket_chain h V n ps \<longleftrightarrow> chain V n ps \<and> n \<noteq> 0 \<and>
     (NUM_ENT (snd (hd ps)) = 0 \<longrightarrow> blank_header h (snd (hd ps)))"

lemma init_blank:
  assumes "blank_header h m" "CURR_PGNO m = n" "28 \<le> length m"
  shows "ffdb_init_page h m n HASH_BUCKET_PAGE = page_content m"
proof -
  have w: "set_CURR_PGNO n m = m" "set_PREV_PGNO INVALID_PGNO m = m" "set_NEXT_PGNO INVALID_PGNO m = m"
    "set_PAGE_SIGN FFDB_PAGE_MAGIC m = m" "set_NUM_ENT 0 m = m" "set_PTYPE (ucast HASH_BUCKET_PAGE) m = m"
    using assms wr32_rd32 [of 0 m] wr32_rd32 [of 4 m] wr32_rd32 [of 8 m] wr32_rd32 [of 12 m] wr16_rd16 [of 16 m] wr16_rd16 [of 18 m]
    by (simp_all add: blank_header_def page_fields)
  have l: "length (page_content m) = length m" by simp
  have "rd32 (page_content m) 24 = h_bsize h - 1" "rd16 (page_content m) 18 = ucast HASH_BUCKET_PAGE"
    using assms by (simp_all add: blank_header_def page_content_def page_fields)
  then have "set_OFFSET (h_bsize h - 1) (page_content m) = page_content m"
    "set_PTYPE (ucast HASH_BUCKET_PAGE) (page_content m) = page_content m"
    using wr32_rd32 [of 24 "page_content m"] wr16_rd16 [of 18 "page_content m"] assms(3) l
    by (simp_all add: set_OFFSET_def set_PTYPE_def)
  then show ?thesis by (simp add: ffdb_init_page_def w page_content_def Let_def)
qed

lemma find_item_finds:
  assumes s: "tsession h M" and b: "BUCKET_TO_PAGE (hdr h) (it_bucket item) = Some n" "known (mp h) n"
    and c: "bucket_chain (hdr h) (tview h) n ps" and fr: "\<forall>k\<in>fst ` set ps. \<forall>b' m'. theld h b' \<noteq> Some (k, m')"
    and key: "dbt_ok key" "dt_size key < 2 ^ 31" "h_compare h = ham_defcmp"
  shows "\<exists>b k m i h' item'. ffdb_find_item h key val item = Some (0, item', h') \<and>
    it_pagep item' = Some b \<and> it_pgno item' = k \<and> it_pgndx item' = of_nat i \<and> it_bucket item' = it_bucket item \<and>
    it_data_chksum item' = (case val of None \<Rightarrow> 0 | Some v \<Rightarrow> ffdb_crc32_checksum 0 (dbt_bytes v)) \<and>
    (k, page_content m) \<in> set ps \<and> theld h b = None \<and> theld h' = (theld h)(b \<mapsto> (k, m)) \<and> page_good (hdr h) m \<and>
    tview h' = tview h \<and> tsession h' M \<and> pool_step h h' \<and> b \<notin> M \<and>
    (case first_at (dbt_bytes key) ps of
       Some (k', i', d) \<Rightarrow> it_status item' = ITEM_OK \<and> k' = k \<and> i' = i \<and> i < page_num m \<and> d = snd (page_pair m i)
     | None \<Rightarrow> it_status item' = ITEM_NO_MORE \<and> i = page_num m \<and> NEXT_PGNO m = INVALID_PGNO)"
proof -
  obtain p r where ps: "ps = (n, p) # r" using c by (cases ps) (auto simp: bucket_chain_def)
  have C: "chain (tview h) n ((n, p) # r)" "n \<noteq> 0" "NUM_ENT p = 0 \<longrightarrow> blank_header (hdr h) p"
    using c ps by (auto simp: bucket_chain_def)
  have p: "n \<noteq> INVALID_PGNO" "tview h n = Some p" "CURR_PGNO p = n" "bucket_wf p" using C(1) by auto
  have n1: "n \<noteq> - 1" using p(1) by (simp add: INVALID_minus)
  have cr: "FFDB_PAGE_CREATE = FFDB_CREATE" by (simp add: ffdb_consts)
  obtain b m h1 where g: "ffdb_get_page h (it_bucket item) HASH_BUCKET_PAGE FFDB_CREATE = Some (Some b, n, h1)"
    "theld h b = None" "theld h1 = (theld h)(b \<mapsto> (n, m))" "page_content m = p" "page_good (hdr h) m" "tview h1 = tview h"
    "tsession h1 M" "pool_step h h1"
    by (rule get_page_session [OF s n1, where c = p and flags = FFDB_CREATE and addr = "it_bucket item" and addrtype = HASH_BUCKET_PAGE])
       (use fr ps p C(2) b in auto)
  note F = pool_step_fields [OF g(8)]
  have at: "page_at h1 b = Some m" by (rule theld_page) (simp add: g(3))
  have bM: "b \<notin> M"
    using s g(2) by (auto simp: tsession_def native.session_def native.settled_def)
  have ne: "NUM_ENT m = NUM_ENT p" using g(4) content_fields(5) [of m] by simp
  define ch where "ch = (case val of None \<Rightarrow> 0 | Some v \<Rightarrow> ffdb_crc32_checksum 0 (dbt_bytes v))"
  let ?item2 = "item\<lparr>it_pagep := Some b, it_pgno := n, it_data_chksum := ch\<rparr>"
  show ?thesis
  proof (cases "NUM_ENT p = 0")
    case True
    let ?f = "\<lambda>m. ffdb_init_page (hdr h1) m n HASH_BUCKET_PAGE"
    have bl: "blank_header (hdr h) m" using C(3) True g(4) by (auto simp: blank_header_def)
    have cu: "CURR_PGNO m = n" using p(3) g(4) by auto
    have len: "28 \<le> length m" "length m = unat (h_bsize (hdr h1))" using g(5) F(1) by (auto simp: page_good_def)
    have fm: "?f m = page_content m" using init_blank [OF bl cu len(1)] F(1) by simp
    have hb: "theld h1 b = Some (n, m)" using g(3) by simp
    have len2: "length (?f m) = unat (h_bsize (hdr h1))" using len(2) by (simp add: fm)
    have cc: "page_content (page_content m) = page_content m"
      using len(1) by (simp add: page_content_def page_fields)
    have fm2: "page_content (?f m) = page_content m" by (simp only: fm cc)
    note P = poke_session [OF g(7) hb, of ?f, OF len2]
    have P1: "tsession (poke b ?f h1) M" by (rule poke_same_session [OF g(7) hb, of ?f, OF len2 fm2])
    have st: "pool_step h (poke b ?f h1)" by (rule pool_step_trans [OF g(8) P(4)])
    have r0: "r = []" using C True by (auto simp: blank_header_def)
    have num: "page_num p = 0" using True by (simp add: page_num_def)
    have fi: "ffdb_find_item h key val item = Some (0, ?item2\<lparr>it_pgndx := 0, it_status := ITEM_NO_MORE\<rparr>, poke b ?f h1)"
      using g(1) at ne True cr
      by (simp add: ffdb_find_item_def ch_def dbt_bytes_def Let_def cong: option.case_cong)
    have "first_at (dbt_bytes key) ps = None"
      using ps r0 num by (simp add: key_index_def)
    moreover have "tview (poke b ?f h1) = tview h"
      using P(3) fm2 g(4,6) p(2) by (simp add: fun_upd_idem)
    moreover have "theld (poke b ?f h1) = (theld h)(b \<mapsto> (n, page_content m))" using P(2) g(3) fm by simp
    moreover have "page_good (hdr h) (page_content m)" using g(5) by (auto simp: page_good_def)
    moreover have "NEXT_PGNO m = INVALID_PGNO" using bl by (simp add: blank_header_def)
    ultimately show ?thesis
      using fi P1 st g(2,4) bM ps num cc ch_def
      by (intro exI [of _ b] exI [of _ n] exI [of _ "page_content m"] exI [of _ 0] exI [of _ "poke b ?f h1"] exI) auto
  next
    case False
    have hb: "theld h1 b = Some (n, m)" using g(3) by simp
    have c1: "chain (tview h1) n ((n, page_content m) # r)" using C(1) g(4,6) by simp
    have fr1: "\<forall>k\<in>fst ` set r. \<forall>b' m'. theld h1 b' \<noteq> Some (k, m')"
      using fr ps g(3) chain_distinct [OF C(1)] by auto
    have good1: "page_good (hdr h1) m" and cmp1: "h_compare h1 = ham_defcmp" using g(5) F(1,4) key(3) by simp_all
    obtain b' k m' i found h' where R: "find_chain h1 key b n = Some (Some b', k, i, found, h')"
      "(k, page_content m') \<in> set ((n, page_content m) # r)" "theld h' = ((theld h1)(b := None))(b' \<mapsto> (k, m'))"
      "page_good (hdr h1) m'" "tview h' = tview h1" "tsession h' M" "pool_step h1 h'" "b' \<notin> M"
      "if found then first_at (dbt_bytes key) ((n, page_content m) # r) = Some (k, i, snd (page_pair m' i)) \<and> i < page_num m'
       else first_at (dbt_bytes key) ((n, page_content m) # r) = None \<and> i = page_num m' \<and> NEXT_PGNO m' = INVALID_PGNO"
      "((theld h1)(b := None)) b' = None"
      using find_chain_finds [OF g(7) hb bM good1 c1 fr1 key(1,2) cmp1] by blast
    have at': "page_at h' b' = Some m'" by (rule theld_page) (simp add: R(3))
    have cu: "CURR_PGNO m = n" using p(3) g(4) by auto
    let ?item4 = "?item2\<lparr>it_pagep := Some b', it_pgno := k, it_status := ITEM_NO_MORE, it_pgndx := of_nat i\<rparr>"
    let ?item = "if found then ?item4\<lparr>it_status := ITEM_OK, it_key_off := KEY_OFF m' i,
                    it_key_len := KEY_LEN m' i, it_data_off := DATAP_OFF m' i\<rparr> else ?item4"
    have fi: "ffdb_find_item h key val item = Some (0, ?item, h')"
      using g(1) at ne False cr R(1) at' cu
      by (cases item) (simp add: ffdb_find_item_def ch_def dbt_bytes_def Let_def cong: option.case_cong)
    have held: "(theld h1)(b := None) = theld h" using g(2,3) by (auto simp: fun_eq_iff)
    have st: "pool_step h h'" by (rule pool_step_trans [OF g(8) R(7)])
    have hp: "theld h b' = None" using R(10) held by simp
    show ?thesis
      using fi R held st F(1) ch_def g(4,6) ps hp
      by (intro exI [of _ b'] exI [of _ k] exI [of _ m'] exI [of _ i] exI [of _ h'] exI [of _ ?item]) (cases found; simp)
  qed
qed

end
