(* ===== verification/FFDB_Datum.thy ===== *)
theory FFDB_Datum
  imports FFDB_Data FFDB_TableSession
begin

text \<open>
  A datum as it lies on the data pages: a header, and the bytes from behind it to the end of
  the page and on along the chain of pages. Fetching it gives these bytes; adding one that
  fits on the page makes it readable and leaves what the page held before.
\<close>

section \<open>Reading along the pages\<close>

lemma mem_put_append:
  "i + length xs + length ys \<le> length buf \<Longrightarrow>
     mem_put (mem_put buf i xs) (i + length xs) ys = mem_put buf i (xs @ ys)"
  by (rule nth_equalityI) (auto simp: nth_mem_put nth_append)

text \<open>
  The pages after the first one and the bytes of a datum of \<open>len\<close> bytes from place \<open>start\<close>
  of page \<open>p\<close>.
\<close>

function data_from :: "(pgno \<Rightarrow> mem option) \<Rightarrow> nat \<Rightarrow> mem \<Rightarrow> nat \<Rightarrow> nat \<Rightarrow> (pgno list \<times> mem) option" where
  "data_from V bs p start len =
     (if start + len \<le> bs then Some ([], mem_get p start len)
      else if bs \<le> start then None
      else do {
        q \<leftarrow> V (NEXT_PGNO p);
        (ns, rest) \<leftarrow> data_from V bs q BIG_PAGE_OVERHEAD (len - (bs - start));
        Some (NEXT_PGNO p # ns, mem_get p start (bs - start) @ rest)
      })"
  by pat_completeness auto
termination by (relation "measure (\<lambda>(V, bs, p, start, len). len)") auto

declare data_from.simps [simp del]

lemma data_from_length:
  "data_from V bs p start len = Some (ns, bytes) \<Longrightarrow> bs \<le> length p \<Longrightarrow> (\<And>k q. V k = Some q \<Longrightarrow> bs \<le> length q) \<Longrightarrow>
     length bytes = len"
proof (induction V bs p start len arbitrary: ns bytes rule: data_from.induct)
  case (1 V bs p start len)
  show ?case
  proof (cases "start + len \<le> bs")
    case True
    then show ?thesis using 1 by (auto simp: data_from.simps [of V bs p start len])
  next
    case False
    then obtain q ns2 rest where q: "\<not> bs \<le> start" "V (NEXT_PGNO p) = Some q"
      "data_from V bs q BIG_PAGE_OVERHEAD (len - (bs - start)) = Some (ns2, rest)"
      "bytes = mem_get p start (bs - start) @ rest"
      using 1(2) by (auto simp: data_from.simps [of V bs p start len] split: if_splits bind_splits)
    have "length rest = len - (bs - start)" using 1(1) [OF False q(1,2,3)] q(2) 1(3,4) by blast
    then show ?thesis using q(1,4) False 1(3) by simp
  qed
qed

text \<open>Reading depends on the pages only.\<close>

lemma data_from_cong:
  "data_from V bs p start len = Some (ns, bytes) \<Longrightarrow> (\<And>k. k \<in> set ns \<Longrightarrow> W k = V k) \<Longrightarrow>
     data_from W bs p start len = Some (ns, bytes)"
proof (induction V bs p start len arbitrary: ns bytes rule: data_from.induct)
  case (1 V bs p start len)
  show ?case
  proof (cases "start + len \<le> bs")
    case True
    then show ?thesis using 1(2) by (simp add: data_from.simps [of _ bs p start len])
  next
    case False
    then obtain q ns2 rest where q: "\<not> bs \<le> start" "V (NEXT_PGNO p) = Some q"
      "data_from V bs q BIG_PAGE_OVERHEAD (len - (bs - start)) = Some (ns2, rest)"
      "bytes = mem_get p start (bs - start) @ rest" "ns = NEXT_PGNO p # ns2"
      using 1(2) by (auto simp: data_from.simps [of V bs p start len] split: if_splits bind_splits)
    have "data_from W bs q BIG_PAGE_OVERHEAD (len - (bs - start)) = Some (ns2, rest)"
      by (rule 1(1) [OF False q(1,2,3)]) (use 1(3) q(5) in auto)
    moreover have "W (NEXT_PGNO p) = Some q" using 1(3) q(2,5) by simp
    ultimately show ?thesis using False q(1,4,5) by (simp add: data_from.simps [of W bs p start len])
  qed
qed

lemma get_data_loop_reads:
  assumes "data_from V bs p start len = Some (ns, bytes)" "V = tview h" "bs = bsz h" "p = page_content m"
    "tsession h M" "theld h b = Some (n, m)" "b \<notin> M" "page_good (hdr h) m"
    "unat st = start" "24 \<le> start" "0 < len" "idx + len = vs" "vs \<le> length buf"
    "\<forall>k\<in>set ns. k \<noteq> INVALID_PGNO \<and> (\<forall>b' m'. ((theld h)(b := None)) b' \<noteq> Some (k, m'))"
  shows "\<exists>h'. get_data_loop h buf vs b (NEXT_PGNO m) st len = Some (True, mem_put buf idx bytes, h') \<and>
    tview h' = tview h \<and> theld h' = (theld h)(b := None) \<and> tsession h' M \<and> pool_step h h'"
  using assms
proof (induction V bs p start len arbitrary: ns bytes h m b n buf st idx rule: data_from.induct)
  case (1 V bs p start len)
  note A = 1(2-)
  have at: "page_at h b = Some m" by (rule theld_page [OF A(6)])
  have lm: "length m = bs" using A(3,8) by (simp add: page_good_def bsz_def)
  obtain h1 where put: "ffdb_put_page h b False = Some (0, h1)" "tsession h1 (M - {b})"
    "theld h1 = (theld h)(b := None)" "tview h1 = tview h" "pool_step h h1"
    by (rule put_page_session [OF A(5,6,8), of False]) (use A(7) in auto)
  have M: "M - {b} = M" using A(7) by simp
  show ?case
  proof (cases "start + len \<le> bs")
    case True
    then have "data_from V bs p start len = Some ([], mem_get p start len)" by (subst data_from.simps) simp
    then have bytes: "bytes = mem_get m start len" using A(1,4,10) by (simp add: content_get)
    have "get_data_loop h buf vs b (NEXT_PGNO m) st len = Some (True, mem_put buf idx bytes, h1)"
      using A(3,9,11-13) True at put(1) lm bytes by (subst get_data_loop.simps) (auto simp: Let_def)
    then show ?thesis using put(2-5) unfolding M by blast
  next
    case False
    then obtain q ns2 rest where q: "\<not> bs \<le> start" "V (NEXT_PGNO p) = Some q"
      "data_from V bs q BIG_PAGE_OVERHEAD (len - (bs - start)) = Some (ns2, rest)"
      "bytes = mem_get p start (bs - start) @ rest" "ns = NEXT_PGNO p # ns2"
      using A(1) by (auto simp: data_from.simps [of V bs p start len] split: if_splits bind_splits)
    have nx: "NEXT_PGNO p = NEXT_PGNO m" using A(4) by simp
    have inv: "NEXT_PGNO m \<noteq> - 1" using A(14) q(5) nx by (simp add: INVALID_minus)
    obtain b2 m2 h2 where get: "ffdb_get_page h1 (NEXT_PGNO m) HASH_DATA_PAGE 0 = Some (Some b2, NEXT_PGNO m, h2)"
      "theld h1 b2 = None" "theld h2 = (theld h1)(b2 \<mapsto> (NEXT_PGNO m, m2))" "page_content m2 = q" "page_good (hdr h1) m2"
      "tview h2 = tview h1" "tsession h2 M" "pool_step h1 h2"
      by (rule get_page_session [OF put(2) [unfolded M] inv, of q 0 HASH_DATA_PAGE "NEXT_PGNO m"])
         (use A(2,14) q(2,5) nx put(3,4) in \<open>auto simp: ffdb_consts\<close>)
    have st: "pool_step h h2" by (rule pool_step_trans [OF put(5) get(8)])
    note F = pool_step_fields [OF st] pool_step_fields [OF put(5)]
    have b2: "b2 \<notin> M"
      using put(2) get(2) by (auto simp: M tsession_def native.session_def native.settled_def)
    have held: "(theld h2)(b2 := None) = (theld h)(b := None)" using get(2,3) put(3) by (auto simp: fun_eq_iff)
    let ?c = "bs - start"
    let ?buf = "mem_put buf idx (mem_get m start ?c)"
    have bs2: "unat (h_bsize (hdr h)) = bs" using A(3) by (simp add: bsz_def)
    have cl: "unat (h_bsize (hdr h) - st) = ?c"
      using bs2 A(9) q(1) by (subst unat_sub) (simp_all add: word_le_nat_alt)
    have step: "get_data_loop h buf vs b (NEXT_PGNO m) st len =
        get_data_loop h2 ?buf vs b2 (NEXT_PGNO m2) (of_nat BIG_PAGE_OVERHEAD) (len - ?c)"
    proof -
      have at2: "page_at h2 b2 = Some m2" by (rule theld_page) (simp add: get(3))
      have i: "vs - len = idx" "?c < len" using A(12) False q(1) by simp_all
      show ?thesis
        using A(3,9,11-13) False q(1) at put(1) lm cl get(1) at2 i
        by (subst get_data_loop.simps) (simp add: Let_def)
    qed
    have "\<exists>h'. get_data_loop h2 ?buf vs b2 (NEXT_PGNO m2) (of_nat BIG_PAGE_OVERHEAD) (len - ?c) =
          Some (True, mem_put ?buf (idx + ?c) rest, h') \<and>
        tview h' = tview h2 \<and> theld h' = (theld h2)(b2 := None) \<and> tsession h' M \<and> pool_step h2 h'"
    proof (rule 1(1) [OF False q(1,2,3)])
      show "V = tview h2" using A(2) get(6) put(4) by simp
      show "bs = bsz h2" using A(3) F(1) by (simp add: bsz_def)
      show "q = page_content m2" using get(4) by simp
      show "theld h2 b2 = Some (NEXT_PGNO m, m2)" using get(3) by simp
      show "page_good (hdr h2) m2" using get(5) F by simp
      show "unat (of_nat BIG_PAGE_OVERHEAD :: u32) = BIG_PAGE_OVERHEAD" by (simp add: ffdb_consts)
      show "24 \<le> BIG_PAGE_OVERHEAD" by (simp add: ffdb_consts)
      show "0 < len - (bs - start)" using False q(1) by simp
      show "idx + ?c + (len - (bs - start)) = vs" using A(12) False q(1) by simp
      show "vs \<le> length ?buf" using A(13) by simp
      show "\<forall>k\<in>set ns2. k \<noteq> INVALID_PGNO \<and> (\<forall>b' m'. ((theld h2)(b2 := None)) b' \<noteq> Some (k, m'))"
        unfolding held using A(14) q(5) by simp
    qed (rule get(7), rule b2)
    then obtain h' where R: "get_data_loop h2 ?buf vs b2 (NEXT_PGNO m2) (of_nat BIG_PAGE_OVERHEAD) (len - ?c) =
          Some (True, mem_put ?buf (idx + ?c) rest, h')" "tview h' = tview h2" "theld h' = (theld h2)(b2 := None)"
        "tsession h' M" "pool_step h2 h'" by blast
    have "length rest = len - ?c"
      by (rule data_from_length [OF q(3)]) (use q(2) A(2,3,5) tview_length in \<open>auto simp: bsz_def\<close>)
    then have "mem_put ?buf (idx + ?c) rest = mem_put buf idx bytes"
      using mem_put_append [of idx "mem_get m start ?c" rest buf] A(4,10,12,13) q(1,4) lm False
      by (simp add: content_get length_mem_get)
    then show ?thesis
      using R step held get(6) put(4) pool_step_trans [OF st R(5)] by (intro exI [of _ h']) simp
  qed
qed

section \<open>A datum\<close>

text \<open>
  What a data pointer refers to: the page and place of its header, the pages after the first
  one, and the bytes. \<open>kp\<close> and \<open>ki\<close> are the page and index of the key.
\<close>

definition datum :: "htab \<Rightarrow> (pgno \<Rightarrow> mem option) \<Rightarrow> hent \<Rightarrow> datap \<Rightarrow> pgno list \<Rightarrow> mem \<Rightarrow> bool" where
  "datum h V item d ns bytes \<longleftrightarrow> (\<exists>p. dp_first d \<noteq> INVALID_PGNO \<and> V (dp_first d) = Some p \<and> CURR_PGNO p = dp_first d \<and>
     1 \<le> NUM_ENT p \<and> BIG_PAGE_OVERHEAD \<le> unat (datap_roff h d) \<and> unat (datap_roff h d) + BIG_DATA_OVERHEAD \<le> bsz h \<and>
     data_header_ok h item d (rd_data_header p (unat (datap_roff h d))) \<and>
     data_from V (bsz h) p (unat (datap_roff h d) + BIG_DATA_OVERHEAD) (datap_len h d) = Some (ns, bytes) \<and>
     (\<forall>k\<in>insert (dp_first d) (set ns). \<exists>q. V k = Some q \<and> PTYPE q = ucast HASH_DATA_PAGE) \<and>
     INVALID_PGNO \<notin> set ns \<and> 0 < datap_len h d \<and> ffdb_crc32_checksum 0 bytes = dp_chksum d)"

definition own_buffer :: "valbuf \<Rightarrow> bool" where
  "own_buffer val \<longleftrightarrow> v_data val \<noteq> None \<and> v_size val > 0"

text \<open>An application buffer that is large enough, or none.\<close>

definition room_for :: "valbuf \<Rightarrow> nat \<Rightarrow> bool" where
  "room_for val len \<longleftrightarrow> (own_buffer val \<longrightarrow> int len \<le> v_size val \<and> len \<le> length (the (v_data val)))"

lemma get_data_reads:
  assumes s: "tsession h M" and d: "datum h (tview h) item d ns bytes" and room: "room_for val (datap_len h d)"
    and fr: "\<forall>k\<in>insert (dp_first d) (set ns). \<forall>b' m'. theld h b' \<noteq> Some (k, m')"
  shows "\<exists>h'. ffdb_get_data h item val d = Some (0, \<lparr>v_data = Some (if own_buffer val then mem_put (the (v_data val)) 0 bytes else bytes),
      v_size = int (length bytes)\<rparr>, h') \<and>
    tview h' = tview h \<and> theld h' = theld h \<and> tsession h' M \<and> pool_step h h'"
proof -
  obtain p where p: "dp_first d \<noteq> INVALID_PGNO" "tview h (dp_first d) = Some p" "CURR_PGNO p = dp_first d" "1 \<le> NUM_ENT p"
    "BIG_PAGE_OVERHEAD \<le> unat (datap_roff h d)" "unat (datap_roff h d) + BIG_DATA_OVERHEAD \<le> bsz h"
    "data_header_ok h item d (rd_data_header p (unat (datap_roff h d)))"
    "data_from (tview h) (bsz h) p (unat (datap_roff h d) + BIG_DATA_OVERHEAD) (datap_len h d) = Some (ns, bytes)"
    "INVALID_PGNO \<notin> set ns" "0 < datap_len h d" "ffdb_crc32_checksum 0 bytes = dp_chksum d"
    using d by (auto simp: datum_def)
  have n1: "dp_first d \<noteq> - 1" using p(1) by (simp add: INVALID_minus)
  obtain b m h1 where g: "ffdb_get_page h (dp_first d) HASH_DATA_PAGE 0 = Some (Some b, dp_first d, h1)"
    "theld h b = None" "theld h1 = (theld h)(b \<mapsto> (dp_first d, m))" "page_content m = p" "page_good (hdr h) m"
    "tview h1 = tview h" "tsession h1 M" "pool_step h h1"
    by (rule get_page_session [OF s n1, where c = p and flags = 0 and addr = "dp_first d" and addrtype = HASH_DATA_PAGE])
       (use fr p(2) in \<open>auto simp: ffdb_consts\<close>)
  note F = pool_step_fields [OF g(8)]
  have same: "datap_roff h1 = datap_roff h" "datap_len h1 = datap_len h" "bsz h1 = bsz h" "data_header_ok h1 = data_header_ok h"
    by (simp_all add: fun_eq_iff datap_roff_def datap_len_def after_v5_def bsz_def data_header_ok_def F)
  have at: "page_at h1 b = Some m" by (rule theld_page) (simp add: g(3))
  have bM: "b \<notin> M" using s g(2) by (auto simp: tsession_def native.session_def native.settled_def)
  have lm: "length m = bsz h" using g(5) by (simp add: page_good_def bsz_def)
  let ?roff = "datap_roff h d" and ?len = "datap_len h d"
  have lb: "length bytes = ?len"
    by (rule data_from_length [OF p(8)]) (use p(2) tview_length [OF s] in \<open>auto simp: bsz_def\<close>)
  have hd: "rd_data_header m (unat ?roff) = rd_data_header p (unat ?roff)"
    using g(4) p(5) by (auto simp: rd_data_header_def content_rd32 ffdb_consts)
  have dh: "BIG_DATA_HEADER m (unat ?roff) = Some (rd_data_header p (unat ?roff))"
    using p(6) lm hd by (simp add: BIG_DATA_HEADER_def)
  have curr: "CURR_PGNO m = dp_first d" "NUM_ENT m \<noteq> 0" using p(3,4) g(4) by auto
  let ?buf = "if own_buffer val then the (v_data val) else fresh_block ?len"
  have bl: "?len \<le> length ?buf" using room by (simp add: room_for_def fresh_block_def)
  have st: "unat (?roff + of_nat BIG_DATA_OVERHEAD) = unat ?roff + BIG_DATA_OVERHEAD"
  proof -
    have "bsz h < 2 ^ LENGTH(32)" unfolding bsz_def by (rule unsigned_less)
    then have "unat ?roff + BIG_DATA_OVERHEAD < 2 ^ 32" using p(6) by simp
    then show ?thesis by (simp add: unat_word_ariths ffdb_consts)
  qed
  have "\<exists>h'. get_data_loop h1 ?buf ?len b (NEXT_PGNO m) (?roff + of_nat BIG_DATA_OVERHEAD) ?len =
        Some (True, mem_put ?buf 0 bytes, h') \<and>
      tview h' = tview h1 \<and> theld h' = (theld h1)(b := None) \<and> tsession h' M \<and> pool_step h1 h'"
    by (rule get_data_loop_reads [where start = "unat ?roff + BIG_DATA_OVERHEAD" and V = "tview h" and bs = "bsz h" and
          p = p and ns = ns and n = "dp_first d" and m = m])
       (use p g F st same bM bl fr in \<open>auto simp: ffdb_consts\<close>)
  then obtain h' where L: "get_data_loop h1 ?buf ?len b (NEXT_PGNO m) (?roff + of_nat BIG_DATA_OVERHEAD) ?len =
        Some (True, mem_put ?buf 0 bytes, h')"
      "tview h' = tview h1" "theld h' = (theld h1)(b := None)" "tsession h' M" "pool_step h1 h'" by blast
  have tk: "take ?len (mem_put ?buf 0 bytes) = bytes"
    using lb bl by (simp add: mem_put_def)
  have whole: "mem_put (fresh_block ?len) 0 bytes = bytes" using lb by (simp add: fresh_block_def)
  have big: "\<not> (own_buffer val \<and> v_size val < int ?len)" using room by (auto simp: room_for_def)
  have "ffdb_get_data h item val d = Some (0, \<lparr>v_data = Some (mem_put ?buf 0 bytes), v_size = int ?len\<rparr>, h')"
    using g(1) at curr dh p(7,11) L(1) tk big same
    by (simp add: ffdb_get_data_def Let_def own_buffer_def not_less cong: if_cong)
  moreover have "(theld h1)(b := None) = theld h" using g(2,3) by (auto simp: fun_eq_iff)
  ultimately show ?thesis
    using L g(6) pool_step_trans [OF g(8) L(5)] whole lb by (intro exI [of _ h']) auto
qed

section \<open>Writing a datum on a page\<close>

lemma align_up:
  assumes "unat v + 3 < 2 ^ 32"
  shows "unat v \<le> unat (ALIGN_ADDR v)" "unat (ALIGN_ADDR v) \<le> unat v + 3"
proof -
  have three: "(4 - 1 :: u32) = mask 2" by (simp add: mask_eq_exp_minus_1)
  have down: "unat (w AND NOT (mask 2) :: u32) = unat w - unat w mod 4" for w
  proof -
    have "unat (w AND NOT (mask 2)) = unat (push_bit 2 (drop_bit 2 w))"
    proof (rule arg_cong [where f = unat], rule bit_word_eqI)
      fix n assume "n < LENGTH(32)"
      moreover have "Suc (Suc (n - 2)) = n" if "2 \<le> n" using that by simp
      ultimately show "bit (w AND NOT (mask 2)) n \<longleftrightarrow> bit (push_bit 2 (drop_bit 2 w)) n"
        by (auto simp: bit_simps)
    qed
    moreover have "unat w div 4 * 4 < 2 ^ 32"
      using le_less_trans [OF div_times_less_eq_dividend [of "unat w" 4], of "2 ^ LENGTH(32)"] unsigned_less [of w] by simp
    ultimately show ?thesis
      by (simp add: unsigned_push_bit_eq unsigned_drop_bit_eq push_bit_eq_mult drop_bit_eq_div
          take_bit_nat_eq_self mult.commute minus_mod_eq_div_mult unat_word_ariths unat_div)
  qed
  have add: "unat (v + mask 2) = unat v + 3"
    using assms by (simp add: unat_word_ariths mask_eq_exp_minus_1)
  have "(unat v + 3) mod 4 \<le> 3" by simp
  then have "unat v \<le> unat (ALIGN_ADDR v) \<and> unat (ALIGN_ADDR v) \<le> unat v + 3"
    unfolding ALIGN_ADDR_def three using down [of "v + mask 2"] add by auto
  then show "unat v \<le> unat (ALIGN_ADDR v)" "unat (ALIGN_ADDR v) \<le> unat v + 3" by auto
qed

lemma length_data_header_bytes [simp]: "length (data_header_bytes dh) = 20"
  by (simp add: data_header_bytes_def)

lemma rd_header_bytes: "rd_data_header (data_header_bytes dh) 0 = dh"
  by (rule data_header.equality) (simp_all add: rd_data_header_def data_header_bytes_def rd32_def mem_get_def)

lemma rd_header_get: "off + 20 \<le> length p \<Longrightarrow> rd_data_header p off = rd_data_header (mem_get p off 20) 0"
  by (simp add: rd_data_header_def rd32_def mem_get_def drop_take min_def add.commute)

text \<open>The page with the new datum: nothing before it changes but the two counters.\<close>

lemma write_data_page:
  fixes m :: mem and bs :: nat
  assumes st: "32 \<le> unat start" and fits: "unat start + BIG_DATA_TOTAL_SIZE val \<le> length m" and small: "length m \<le> 2 ^ 20"
    and val: "dbt_ok val"
  defines "nxt \<equiv> next_data_pos bs start (BIG_DATA_TOTAL_SIZE val)"
  shows "\<exists>q. write_data_on_page bs start dh val m = Some q \<and> length q = length m \<and>
    CURR_PGNO q = CURR_PGNO m \<and> PREV_PGNO q = PREV_PGNO m \<and> NEXT_PGNO q = NEXT_PGNO m \<and> PAGE_SIGN q = PAGE_SIGN m \<and>
    PTYPE q = PTYPE m \<and> NUM_ENT q = NUM_ENT m + 1 \<and> OFFSET q = nxt \<and>
    rd_data_header q (unat start) = dh\<lparr>dh_next := nxt\<rparr> \<and>
    mem_get q (unat start + BIG_DATA_OVERHEAD) (dt_size val) = dbt_bytes val \<and>
    (\<forall>a n. 28 \<le> a \<and> a + n \<le> unat start \<longrightarrow> mem_get q a n = mem_get m a n)"
proof -
  let ?s = "unat start" and ?b = "dbt_bytes val"
  have lb: "length ?b = dt_size val" and rd: "mem_read (dt_data val) 0 (dt_size val) = Some ?b"
    using val by (simp_all add: dbt_ok_def dbt_bytes_def mem_get_def)
  have f: "?s + 20 + dt_size val \<le> length m" using fits by (simp add: BIG_DATA_TOTAL_SIZE_def ffdb_consts)
  let ?p1 = "mem_put m ?s (data_header_bytes (dh\<lparr>dh_next := nxt\<rparr>))"
  let ?p2 = "mem_put ?p1 (?s + 20) ?b"
  let ?q = "set_NUM_ENT (NUM_ENT (set_HIGHEST_FREE nxt ?p2) + 1) (set_HIGHEST_FREE nxt ?p2)"
  have w: "write_data_on_page bs start dh val m = Some ?q"
    using f lb rd by (simp add: write_data_on_page_def nxt_def Let_def BIG_DATA_OVERHEAD_def)
  have ne: "NUM_ENT (set_HIGHEST_FREE nxt ?p2) = NUM_ENT m"
    using st by (simp add: page_fields)
  have "mem_get ?q ?s 20 = mem_get ?p2 ?s 20"
    using st by (simp add: page_fields)
  also have "\<dots> = mem_get ?p1 ?s 20" by (rule mem_get_put_disjoint) simp
  finally have "mem_get ?q ?s 20 = mem_get ?p1 ?s 20" .
  then have "mem_get ?q ?s 20 = data_header_bytes (dh\<lparr>dh_next := nxt\<rparr>)"
    using f by simp
  then have hd: "rd_data_header ?q ?s = dh\<lparr>dh_next := nxt\<rparr>"
    using rd_header_get [of ?s ?q] f by (simp add: rd_header_bytes page_fields)
  have body: "mem_get ?q (?s + 20) (dt_size val) = ?b"
    using st f lb mem_get_put_same [of "?s + 20" ?b ?p1] by (simp add: page_fields)
  have old: "mem_get ?q a n = mem_get m a n" if "28 \<le> a" "a + n \<le> ?s" for a n
    using that by (simp add: page_fields mem_get_put_disjoint)
  have keep: "CURR_PGNO ?q = CURR_PGNO m" "PREV_PGNO ?q = PREV_PGNO m" "NEXT_PGNO ?q = NEXT_PGNO m"
    "PAGE_SIGN ?q = PAGE_SIGN m" "PTYPE ?q = PTYPE m"
    using st by (simp_all add: page_fields)
  have "NUM_ENT ?q = NUM_ENT m + 1" "OFFSET ?q = nxt"
    using st f by (simp_all add: page_fields)
  then show ?thesis
    using w hd body old keep by (intro exI [of _ ?q]) (simp add: BIG_DATA_OVERHEAD_def page_fields)
qed

section \<open>Adding a datum that fits\<close>

text \<open>The pointer to a datum on page \<open>n\<close> at \<open>start\<close>.\<close>

definition new_datap :: "htab \<Rightarrow> dbt \<Rightarrow> pgno \<Rightarrow> u32 \<Rightarrow> datap \<Rightarrow> datap" where
  "new_datap h val n start d =
     d\<lparr>dp_first := n, dp_offset := (if after_v5 h then INSERT_LEN_TO_PGOFFSET (dt_size val) start else start)\<rparr>"

text \<open>The flag that marks a valid datum, as opening the table sets it.\<close>

definition flag_ok :: "htab \<Rightarrow> bool" where
  "flag_ok h \<longleftrightarrow> (after_v5 h \<longrightarrow> data_valid_flag h = DATA_VALID)"

lemma add_data_fits:
  assumes s: "tsession h M" and hb: "theld h b = Some (n, m)" and g: "page_good (hdr h) m"
    and st: "32 \<le> unat (OFFSET m)" "unat (OFFSET m) + BIG_DATA_TOTAL_SIZE val \<le> bsz h" "bsz h \<le> 2 ^ 20"
    and val: "dbt_ok val"
  defines "start \<equiv> OFFSET m"
  shows "\<exists>q h'. ffdb_add_data h kp ki val b n d = Some (0, new_datap h val n start d, h') \<and>
    write_data_on_page (bsz h) start (new_data_header h kp ki (dt_size val)) val m = Some q \<and>
    tview h' = (tview h)(n \<mapsto> page_content q) \<and> theld h' = (theld h)(b := None) \<and> tsession h' (M - {b}) \<and>
    pool_step h h' \<and> known (mp h') n"
proof -
  have lm: "length m = bsz h" using g by (simp add: page_good_def bsz_def)
  have at: "page_at h b = Some m" by (rule theld_page [OF hb])
  have f: "unat start + BIG_DATA_TOTAL_SIZE val \<le> length m" "length m \<le> 2 ^ 20" "32 \<le> unat start"
    using st lm by (simp_all add: start_def)
  let ?dh = "new_data_header h kp ki (dt_size val)"
  obtain q where q: "write_data_on_page (bsz h) start ?dh val m = Some q" "length q = length m"
    "PAGE_SIGN q = PAGE_SIGN m"
    using write_data_page [OF f(3,1,2) val, of "bsz h" ?dh] by blast
  have len: "length ((\<lambda>_. q) m) = unat (h_bsize (hdr h))" using q(2) lm by (simp add: bsz_def)
  note P = poke_session [OF s hb, of "\<lambda>_. q", OF len]
  have hb2: "theld (poke b (\<lambda>_. q) h) b = Some (n, q)" using P(2) by simp
  have g2: "page_good (hdr (poke b (\<lambda>_. q) h)) q"
    using g q by (simp add: page_good_def poke_def)
  obtain h' where put: "ffdb_put_page (poke b (\<lambda>_. q) h) b True = Some (0, h')" "tsession h' (insert b M - {b})"
    "theld h' = (theld (poke b (\<lambda>_. q) h))(b := None)" "tview h' = tview (poke b (\<lambda>_. q) h)"
    "pool_step (poke b (\<lambda>_. q) h) h'" "known (mp h') n"
    by (rule put_page_session [OF P(1) hb2 g2, of True]) simp_all
  have nz: "OFFSET m \<noteq> 0" using st(1) by auto
  have fs: "unat (h_bsize (hdr h) - start) = bsz h - unat start"
    using f lm by (subst unat_sub) (simp_all add: word_le_nat_alt bsz_def)
  have fits: "BIG_DATA_TOTAL_SIZE val \<le> bsz h - unat start" "BIG_DATA_OVERHEAD \<le> bsz h - unat start"
    using f lm by (simp_all add: BIG_DATA_TOTAL_SIZE_def)
  have hg: "\<not> IS_HUGE_DATA (dt_size val)"
    using f by (simp add: IS_HUGE_DATA_def BIG_DATA_TOTAL_SIZE_def)
  have sp: "data_start_page h b n = Some (Some (b, n), h)" using at nz by (simp add: data_start_page_def)
  have "ffdb_add_data h kp ki val b n d = Some (0, new_datap h val n start d, h')"
    using sp at fs fits hg q(1) put(1)
    by (simp add: ffdb_add_data_def Let_def start_def new_datap_def not_less)
  moreover have "theld h' = (theld h)(b := None)" using put(3) P(2) by simp
  moreover have "tview h' = (tview h)(n \<mapsto> page_content q)" using put(4) P(3) by simp
  moreover have "pool_step h h'" by (rule pool_step_trans [OF P(4) put(5)])
  ultimately show ?thesis using q(1) put(2,6) by auto
qed

lemma new_header_ok:
  assumes fl: "flag_ok h" and item: "it_pgno item = kp" "ucast (it_pgndx item) = ki" and sz: "dt_size val < 2 ^ 32"
    and start: "unat start < 2 ^ 20" and d: "dp_len d = of_nat (dt_size val)"
  shows "data_header_ok h item (new_datap h val n start d) ((new_data_header h kp ki (dt_size val))\<lparr>dh_next := x\<rparr>)"
    "datap_roff h (new_datap h val n start d) = start" "datap_len h (new_datap h val n start d) = dt_size val"
    "dp_first (new_datap h val n start d) = n" "dp_chksum (new_datap h val n start d) = dp_chksum d"
proof -
  have hg: "\<not> IS_HUGE_DATA (dt_size val)" using sz by (simp add: IS_HUGE_DATA_def)
  have small: "start < 0x100000" using start by (simp add: word_less_nat_alt)
  have un: "unat (of_nat (dt_size val) :: u32) = dt_size val"
    using sz by (simp add: unsigned_of_nat take_bit_nat_eq_self)
  have rl: "REAL_DATA_LEN (of_nat (dt_size val)) DATA_VALID = dt_size val"
    by (simp add: REAL_DATA_LEN_def GET_LEN_FROM_PGOFFSET_def DATA_VALID_def un)
  have gs: "GET_STATUS DATA_VALID = DATA_VALID"
    by (simp add: GET_STATUS_def GET_PGOFFSET_small DATA_VALID_def)
  show "datap_roff h (new_datap h val n start d) = start"
    using small by (simp add: datap_roff_def new_datap_def GET_PGOFFSET_small)
  show len: "datap_len h (new_datap h val n start d) = dt_size val"
    using d sz un by (simp add: datap_len_def new_datap_def real_len_packed)
  show "data_header_ok h item (new_datap h val n start d) ((new_data_header h kp ki (dt_size val))\<lparr>dh_next := x\<rparr>)"
    using len fl item hg rl gs d un
    by (auto simp: data_header_ok_def new_data_header_def flag_ok_def) (auto simp: new_datap_def)
qed (simp_all add: new_datap_def)

text \<open>What was written is a datum, for the item of the key it was written for.\<close>

lemma datum_written:
  assumes w: "write_data_on_page (bsz h) start (new_data_header h kp ki (dt_size val)) val m = Some q"
    and m: "length m = bsz h" "CURR_PGNO m = n" "n \<noteq> INVALID_PGNO" "NUM_ENT m + 1 \<noteq> 0"
      "PTYPE m = ucast HASH_DATA_PAGE"
    and st: "32 \<le> unat start" "unat start + BIG_DATA_TOTAL_SIZE val \<le> bsz h" "bsz h \<le> 2 ^ 20"
    and val: "dbt_ok val" "0 < dt_size val" and V: "V n = Some (page_content q)" and fl: "flag_ok h"
    and item: "it_pgno item = kp" "ucast (it_pgndx item) = ki"
    and d: "dp_len d = of_nat (dt_size val)" "dp_chksum d = ffdb_crc32_checksum 0 (dbt_bytes val)"
  shows "datum h V item (new_datap h val n start d) [] (dbt_bytes val)"
proof -
  let ?dh = "new_data_header h kp ki (dt_size val)" and ?d = "new_datap h val n start d"
  have f: "unat start + BIG_DATA_TOTAL_SIZE val \<le> length m" "length m \<le> 2 ^ 20" using st m(1) by simp_all
  define x where "x = next_data_pos (bsz h) start (BIG_DATA_TOTAL_SIZE val)"
  have q: "length q = length m" "CURR_PGNO q = CURR_PGNO m" "NUM_ENT q = NUM_ENT m + 1" "PTYPE q = PTYPE m"
    "rd_data_header q (unat start) = ?dh\<lparr>dh_next := x\<rparr>"
    "mem_get q (unat start + BIG_DATA_OVERHEAD) (dt_size val) = dbt_bytes val"
    using write_data_page [OF st(1) f val(1), of "bsz h" ?dh] w unfolding x_def by auto
  have sz: "dt_size val < 2 ^ 32" "unat start < 2 ^ 20" using st by (simp_all add: BIG_DATA_TOTAL_SIZE_def ffdb_consts)
  note H = new_header_ok [OF fl item sz d(1), where n = n]
  have H1: "data_header_ok h item ?d (?dh\<lparr>dh_next := x\<rparr>)" by (rule new_header_ok(1) [OF fl item sz d(1)])
  have hd: "rd_data_header (page_content q) (unat start) = ?dh\<lparr>dh_next := x\<rparr>"
    using q(5) st(1) by (simp add: rd_data_header_def content_rd32)
  have body: "mem_get (page_content q) (unat start + BIG_DATA_OVERHEAD) (dt_size val) = dbt_bytes val"
    using q(6) st(1) by (simp add: content_get)
  have one: "1 \<le> NUM_ENT q" using m(4) q(3) by (simp add: word_le_nat_alt Suc_le_eq unat_gt_0)
  have df: "data_from V (bsz h) (page_content q) (unat start + BIG_DATA_OVERHEAD) (dt_size val) = Some ([], dbt_bytes val)"
    using st(2) body by (subst data_from.simps) (simp add: BIG_DATA_TOTAL_SIZE_def)
  show ?thesis
    unfolding datum_def
    by (rule exI [of _ "page_content q"])
       (use H(2-5) H1 hd df one V m q st val d in \<open>simp add: BIG_DATA_TOTAL_SIZE_def ffdb_consts\<close>)
qed

end
