(* ===== verification/FFDB_Database.thy ===== *)
theory FFDB_Database
  imports FFDB_Lookup FFDB_Datum FFDB_Table
begin

text \<open>
  The table as a map from keys to values. An open table in which every bucket is a chain of
  well-formed pages and every pair points to its datum represents a map; getting a key looks
  it up, and putting a new key that fits updates it.
\<close>

section \<open>Data below a position\<close>

text \<open>No part of a datum on page \<open>D\<close> reaches over \<open>lim\<close>.\<close>

function data_below :: "(pgno \<Rightarrow> mem option) \<Rightarrow> nat \<Rightarrow> pgno \<Rightarrow> nat \<Rightarrow> pgno \<Rightarrow> mem \<Rightarrow> nat \<Rightarrow> nat \<Rightarrow> bool" where
  "data_below V bs D lim n p start len =
     (if start + len \<le> bs then (n = D \<longrightarrow> start + len \<le> lim)
      else if bs \<le> start then True
      else (n = D \<longrightarrow> bs \<le> lim) \<and>
        (case V (NEXT_PGNO p) of None \<Rightarrow> True
         | Some q \<Rightarrow> data_below V bs D lim (NEXT_PGNO p) q BIG_PAGE_OVERHEAD (len - (bs - start))))"
  by pat_completeness auto
termination by (relation "measure (\<lambda>(V, bs, D, lim, n, p, start, len). len)") auto

declare data_below.simps [simp del]

text \<open>Page \<open>D\<close> with \<open>q\<close> for its memory \<open>p\<close>: the links and what is below \<open>lim\<close> are kept.\<close>

definition grown :: "nat \<Rightarrow> mem \<Rightarrow> mem \<Rightarrow> bool" where
  "grown lim p q \<longleftrightarrow> length q = length p \<and> CURR_PGNO q = CURR_PGNO p \<and> NEXT_PGNO q = NEXT_PGNO p \<and> PTYPE q = PTYPE p \<and>
     (1 \<le> NUM_ENT p \<longrightarrow> 1 \<le> NUM_ENT q) \<and> (\<forall>a n. 28 \<le> a \<longrightarrow> a + n \<le> lim \<longrightarrow> mem_get q a n = mem_get p a n)"

lemma data_below_grown:
  assumes D: "V D = Some p" "W D = Some q" "grown lim p q" "lim \<le> lim'" and W: "\<And>k. k \<in> set ns \<Longrightarrow> k \<noteq> D \<Longrightarrow> W k = V k"
    and df: "data_from V bs a start len = Some (ns, bytes)" "data_below V bs D lim n a start len" "28 \<le> start"
    and a: "a' = (if n = D then q else a)" "n = D \<longrightarrow> a = p"
  shows "data_from W bs a' start len = Some (ns, bytes) \<and> data_below W bs D lim' n a' start len"
  using D(1) W df a
proof (induction V bs a start len arbitrary: ns bytes n a' rule: data_from.induct)
  case (1 V bs a start len)
  note A = 1(2-)
  have same: "mem_get a' start k = mem_get a start k" if "n = D \<longrightarrow> start + k \<le> lim" for k
    using A(5-7) D(3) that by (auto simp: grown_def)
  have nx: "NEXT_PGNO a' = NEXT_PGNO a" using A(6,7) D(3) by (auto simp: grown_def)
  show ?case
  proof (cases "start + len \<le> bs")
    case True
    then have "n = D \<longrightarrow> start + len \<le> lim" using A(4) by (simp add: data_below.simps [of V])
    then show ?thesis
      using A(3) True same [of len] D(4) by (auto simp: data_from.simps [of _ bs _ start len] data_below.simps [of W])
  next
    case False
    then obtain b ns2 rest where b: "\<not> bs \<le> start" "V (NEXT_PGNO a) = Some b"
      "data_from V bs b BIG_PAGE_OVERHEAD (len - (bs - start)) = Some (ns2, rest)"
      "bytes = mem_get a start (bs - start) @ rest" "ns = NEXT_PGNO a # ns2"
      using A(3) by (auto simp: data_from.simps [of V bs a start len] split: if_splits bind_splits)
    have below: "n = D \<longrightarrow> bs \<le> lim" "data_below V bs D lim (NEXT_PGNO a) b BIG_PAGE_OVERHEAD (len - (bs - start))"
      using A(4) False b(1,2) by (auto simp: data_below.simps [of V])
    let ?b = "if NEXT_PGNO a = D then q else b"
    have "data_from W bs ?b BIG_PAGE_OVERHEAD (len - (bs - start)) = Some (ns2, rest) \<and>
        data_below W bs D lim' (NEXT_PGNO a) ?b BIG_PAGE_OVERHEAD (len - (bs - start))"
      by (rule 1(1) [OF False b(1,2) A(1) _ b(3) below(2)])
         (use A(2) b(2,5) A(1) in \<open>auto simp: ffdb_consts\<close>)
    moreover have "W (NEXT_PGNO a) = Some ?b" using A(2) b(2,5) D(2) by auto
    moreover have "mem_get a' start (bs - start) = mem_get a start (bs - start)"
      using same below(1) b(1) by simp
    ultimately show ?thesis
      using False b nx below(1) D(4) by (auto simp: data_from.simps [of W bs a'] data_below.simps [of W bs D lim' n])
  qed
qed

text \<open>Where the free part of a data page starts; a full page has 0 in its header.\<close>

definition free_from :: "nat \<Rightarrow> mem \<Rightarrow> nat" where
  "free_from bs p = (if HIGHEST_FREE p = 0 then bs else unat (HIGHEST_FREE p))"

definition datum_below :: "htab \<Rightarrow> (pgno \<Rightarrow> mem option) \<Rightarrow> pgno \<Rightarrow> nat \<Rightarrow> datap \<Rightarrow> bool" where
  "datum_below h V D lim d \<longleftrightarrow> (case V (dp_first d) of None \<Rightarrow> True
     | Some p \<Rightarrow> data_below V (bsz h) D lim (dp_first d) p (unat (datap_roff h d) + BIG_DATA_OVERHEAD) (datap_len h d))"

lemma header_mono: "grown lim p q \<Longrightarrow> 28 \<le> off \<Longrightarrow> off + 20 \<le> lim \<Longrightarrow> off + 20 \<le> length p \<Longrightarrow>
    rd_data_header q off = rd_data_header p off"
  using rd_header_get [of off p] rd_header_get [of off q] by (simp add: grown_def)

lemma datum_grown:
  assumes D: "V D = Some p" "W D = Some q" "grown lim p q" "lim \<le> lim'" "bsz h \<le> length p"
    and W: "\<And>k. k \<in> insert (dp_first d) (set ns) \<Longrightarrow> k \<noteq> D \<Longrightarrow> W k = V k"
    and d: "datum h V item d ns bytes" "datum_below h V D lim d"
  shows "datum h W item d ns bytes \<and> datum_below h W D lim' d"
proof -
  let ?n = "dp_first d" and ?o = "unat (datap_roff h d)"
  obtain a where a: "?n \<noteq> INVALID_PGNO" "V ?n = Some a" "CURR_PGNO a = ?n" "1 \<le> NUM_ENT a" "BIG_PAGE_OVERHEAD \<le> ?o"
    "?o + BIG_DATA_OVERHEAD \<le> bsz h" "data_header_ok h item d (rd_data_header a ?o)"
    "data_from V (bsz h) a (?o + BIG_DATA_OVERHEAD) (datap_len h d) = Some (ns, bytes)"
    "\<forall>k\<in>insert ?n (set ns). \<exists>q. V k = Some q \<and> PTYPE q = ucast HASH_DATA_PAGE"
    "INVALID_PGNO \<notin> set ns" "0 < datap_len h d" "ffdb_crc32_checksum 0 bytes = dp_chksum d"
    using d(1) by (auto simp: datum_def)
  have below: "data_below V (bsz h) D lim ?n a (?o + BIG_DATA_OVERHEAD) (datap_len h d)"
    using d(2) a(2) by (simp add: datum_below_def)
  define b where "b = (if ?n = D then q else a)"
  have b: "W ?n = Some b" "CURR_PGNO b = ?n" "1 \<le> NUM_ENT b"
    using W a(2,3,4) D(1-3) by (auto simp: b_def grown_def)
  have "?n = D \<longrightarrow> a = p" using a(2) D(1) by auto
  then have df: "data_from W (bsz h) b (?o + BIG_DATA_OVERHEAD) (datap_len h d) = Some (ns, bytes) \<and>
      data_below W (bsz h) D lim' ?n b (?o + BIG_DATA_OVERHEAD) (datap_len h d)"
    by (intro data_below_grown [of V D p W q lim lim' ns, OF D(1-4) _ a(8) below]) (use W a(5) in \<open>auto simp: b_def ffdb_consts\<close>)
  have "rd_data_header b ?o = rd_data_header a ?o"
  proof (cases "?n = D")
    case True
    have "?o + BIG_DATA_OVERHEAD \<le> lim"
      using below True a(6,8,11) by (auto simp: data_below.simps [of V] data_from.simps [of V] split: if_splits)
    then show ?thesis using header_mono [OF D(3), of ?o] a(2,5,6) D(1,5) True by (simp add: b_def ffdb_consts)
  qed (simp add: b_def)
  moreover have "\<forall>k\<in>insert ?n (set ns). \<exists>q. W k = Some q \<and> PTYPE q = ucast HASH_DATA_PAGE"
  proof
    fix k assume k: "k \<in> insert ?n (set ns)"
    then obtain c where c: "V k = Some c" "PTYPE c = ucast HASH_DATA_PAGE" using a(9) by blast
    then show "\<exists>q. W k = Some q \<and> PTYPE q = ucast HASH_DATA_PAGE"
      using W [OF k] D(1-3) by (cases "k = D") (auto simp: grown_def)
  qed
  ultimately show ?thesis
    using a df b by (auto simp: datum_def datum_below_def)
qed

section \<open>The map\<close>

definition bucket_of :: "htab \<Rightarrow> mem \<Rightarrow> u32" where
  "bucket_of h k = ffdb_call_hash (ht_hash h) (hdr h) k (of_nat (length k))"

text \<open>The item of pair \<open>i\<close> on page \<open>n\<close>.\<close>

definition item_of :: "pgno \<Rightarrow> nat \<Rightarrow> hent" where
  "item_of n i = \<lparr>it_pgno = n, it_pagep = None, it_bucket = 0, it_pgndx = of_nat i, it_status = 0, it_seek_size = 0,
     it_key_off = 0, it_key_len = 0, it_data_off = 0, it_data_chksum = 0, it_caused_expand = 0\<rparr>"

lemma datum_item: "it_pgno a = it_pgno b \<Longrightarrow> it_pgndx a = it_pgndx b \<Longrightarrow> datum h V a d ns v = datum h V b d ns v"
  by (simp add: datum_def data_header_ok_def)

text \<open>The pages of the bucket of a key.\<close>

definition bucket_pages :: "htab \<Rightarrow> mem \<Rightarrow> (pgno \<times> mem) list \<Rightarrow> bool" where
  "bucket_pages h k ps \<longleftrightarrow> (\<exists>n. BUCKET_TO_PAGE (hdr h) (bucket_of h k) = Some n \<and> known (mp h) n \<and>
     bucket_chain (hdr h) (tview h) n ps)"

definition stored :: "htab \<Rightarrow> mem \<Rightarrow> mem \<Rightarrow> bool" where
  "stored h k v \<longleftrightarrow> (\<exists>ps n i d ns. bucket_pages h k ps \<and> first_at k ps = Some (n, i, d) \<and>
     datum h (tview h) (item_of n i) d ns v)"

lemma storedI: "bucket_pages h k ps \<Longrightarrow> first_at k ps = Some (n, i, d) \<Longrightarrow> datum h (tview h) (item_of n i) d ns v \<Longrightarrow>
    stored h k v"
  unfolding stored_def by blast

definition absent :: "htab \<Rightarrow> mem \<Rightarrow> bool" where
  "absent h k \<longleftrightarrow> (\<exists>ps. bucket_pages h k ps \<and> first_at k ps = None)"

text \<open>The current data page, on which the next datum is written; its level has started.\<close>

definition data_page_ok :: "htab \<Rightarrow> mem \<Rightarrow> bool" where
  "data_page_ok h p \<longleftrightarrow> curr_dpage h \<noteq> INVALID_PGNO \<and> curr_dpage h \<noteq> 0 \<and> known (mp h) (curr_dpage h) \<and>
     tview h (curr_dpage h) = Some p \<and> CURR_PGNO p = curr_dpage h \<and> PTYPE p = ucast HASH_DATA_PAGE \<and>
     (HIGHEST_FREE p = 0 \<or> BIG_PAGE_OVERHEAD \<le> unat (HIGHEST_FREE p)) \<and>
     BIG_DATA_OVERHEAD * unat (NUM_ENT p) \<le> free_from (bsz h) p \<and>
     (\<exists>sp. table_get (h_spares (hdr h)) (h_ovfl_point (hdr h) + 1) = Some sp \<and> sp \<noteq> 0)"

text \<open>
  A consistent table that nobody uses: no page is held, the hash function reads the bytes of
  the key only, every bucket is a chain, buckets share no page, and every pair that can be
  found has its datum, below the free part of the current data page.
\<close>

definition db_ok :: "htab \<Rightarrow> bool" where
  "db_ok h \<longleftrightarrow> tsession h {} \<and> theld h = Map.empty \<and> h_compare h = ham_defcmp \<and> flag_ok h \<and> bsz h \<le> 2 ^ 20 \<and>
     (\<forall>xs n. n \<le> length xs \<longrightarrow> ht_hash h xs (of_nat n) = ht_hash h (take n xs) (of_nat n)) \<and>
     (\<forall>k k' ps ps'. bucket_of h k \<noteq> bucket_of h k' \<longrightarrow> bucket_pages h k ps \<longrightarrow> bucket_pages h k' ps' \<longrightarrow>
        fst ` set ps \<inter> fst ` set ps' = {}) \<and>
     (\<exists>p. data_page_ok h p \<and>
        (\<forall>k. \<exists>ps. bucket_pages h k ps \<and> (\<forall>n i d. first_at k ps = Some (n, i, d) \<longrightarrow>
           (\<exists>ns v. datum h (tview h) (item_of n i) d ns v \<and>
              datum_below h (tview h) (curr_dpage h) (free_from (bsz h) p) d))))"

text \<open>The table represents the map \<open>f\<close>.\<close>

definition represents :: "htab \<Rightarrow> (mem \<Rightarrow> mem option) \<Rightarrow> bool" where
  "represents h f \<longleftrightarrow> db_ok h \<and> (\<forall>k. case f k of None \<Rightarrow> absent h k | Some v \<Rightarrow> stored h k v)"

section \<open>Steps that keep the table\<close>

lemma datum_same:
  assumes "h_version (hdr h') = h_version (hdr h)" "h_bsize (hdr h') = h_bsize (hdr h)" "data_valid_flag h' = data_valid_flag h"
  shows "datum h' = datum h" "datum_below h' = datum_below h" "bsz h' = bsz h" "flag_ok h' = flag_ok h"
proof -
  have e: "after_v5 h' = after_v5 h" "bsz h' = bsz h" using assms by (simp_all add: after_v5_def bsz_def)
  then have "datap_roff h' = datap_roff h" "datap_len h' = datap_len h"
    by (simp_all add: fun_eq_iff datap_roff_def datap_len_def)
  moreover from this have "data_header_ok h' = data_header_ok h"
    using e assms by (simp add: fun_eq_iff data_header_ok_def)
  ultimately show "datum h' = datum h" "datum_below h' = datum_below h" "bsz h' = bsz h" "flag_ok h' = flag_ok h"
    using e assms by (simp_all add: fun_eq_iff datum_def datum_below_def flag_ok_def cong: option.case_cong)
qed

lemma step_bucket_pages:
  assumes "pool_step h h'" "tview h' = tview h" "bucket_pages h k ps"
  shows "bucket_pages h' k ps"
  using assms(3) pool_step_fields [OF assms(1)] by (auto simp: bucket_pages_def bucket_of_def assms(2))

lemma bucket_pages_unique: "bucket_pages h k ps \<Longrightarrow> bucket_pages h k qs \<Longrightarrow> ps = qs"
  by (auto simp: bucket_pages_def bucket_chain_def dest: chain_unique)

lemma db_pages: "db_ok h \<Longrightarrow> \<exists>ps. bucket_pages h x ps"
  unfolding db_ok_def by meson

lemma step_pages_iff:
  assumes "db_ok h" "pool_step h h'" "tview h' = tview h"
  shows "bucket_pages h' k ps \<longleftrightarrow> bucket_pages h k ps"
  using db_pages [OF assms(1), of k] step_bucket_pages [OF assms(2,3)] bucket_pages_unique by metis

text \<open>Pages and their headers determine what the table represents.\<close>

lemma represents_step:
  assumes r: "represents h f" and st: "pool_step h h'" "tview h' = tview h" and s: "tsession h' {}" "theld h' = Map.empty"
  shows "represents h' f"
proof -
  note F = pool_step_fields [OF st(1)]
  have db: "db_ok h" using r by (simp add: represents_def)
  note D = datum_same [of h' h, unfolded F, OF refl refl refl]
  note iff = step_pages_iff [OF db st]
  have bo: "bucket_of h' = bucket_of h" by (simp add: fun_eq_iff bucket_of_def F)
  have dp: "data_page_ok h p \<Longrightarrow> data_page_ok h' p" for p
    using F(8) by (simp add: data_page_ok_def F st(2) D)
  have "db_ok h'"
    using db s dp unfolding db_ok_def D iff bo F(2,4,5) st(2) by blast
  moreover have "stored h' = stored h" "absent h' = absent h"
    by (simp_all add: fun_eq_iff stored_def absent_def iff D st(2))
  ultimately show ?thesis using r by (simp add: represents_def cong: option.case_cong)
qed

lemma new_item_bucket:
  assumes "db_ok h" "dbt_ok key"
  shows "it_bucket (new_item h key) = bucket_of h (dbt_bytes key)"
proof -
  have len: "dt_size key \<le> length (dt_data key)" using assms(2) by (simp add: dbt_ok_def)
  then have "ht_hash h (dt_data key) (of_nat (dt_size key)) = ht_hash h (take (dt_size key) (dt_data key)) (of_nat (dt_size key))"
    using assms(1) unfolding db_ok_def by blast
  then show ?thesis using len by (simp add: new_item_def bucket_of_def ffdb_call_hash_def dbt_bytes_def)
qed

text \<open>Finding the item of a key in a table that nobody uses.\<close>

lemma find_item_db:
  assumes db: "db_ok h" and key: "dbt_ok key" "dt_size key < 2 ^ 31" and ps: "bucket_pages h (dbt_bytes key) ps"
  obtains b k m i h1 item where "ffdb_find_item h key val (new_item h key) = Some (0, item, h1)"
    "it_pagep item = Some b" "it_pgno item = k" "it_pgndx item = of_nat i"
    "it_data_chksum item = (case val of None \<Rightarrow> 0 | Some v \<Rightarrow> ffdb_crc32_checksum 0 (dbt_bytes v))"
    "(k, page_content m) \<in> set ps" "theld h1 = [b \<mapsto> (k, m)]" "page_good (hdr h) m" "tview h1 = tview h"
    "tsession h1 {}" "pool_step h h1"
    "case first_at (dbt_bytes key) ps of
       Some (k', i', d) \<Rightarrow> it_status item = ITEM_OK \<and> k' = k \<and> i' = i \<and> i < page_num m \<and> d = snd (page_pair m i)
     | None \<Rightarrow> it_status item = ITEM_NO_MORE \<and> i = page_num m \<and> NEXT_PGNO m = INVALID_PGNO"
proof -
  have d: "tsession h {}" "theld h = Map.empty" "h_compare h = ham_defcmp" using db by (simp_all add: db_ok_def)
  note nb = new_item_bucket [OF db key(1)]
  obtain n where n: "BUCKET_TO_PAGE (hdr h) (it_bucket (new_item h key)) = Some n" "known (mp h) n"
    "bucket_chain (hdr h) (tview h) n ps" using ps by (auto simp: bucket_pages_def nb)
  show thesis
    using find_item_finds [OF d(1) n _ key d(3), of val] that unfolding d(2) by auto
qed

section \<open>Getting\<close>

lemma page_num_small: "page_num p < 65536"
  unfolding page_num_def by (rule unat_u16_less)

lemma unat_index: "i < page_num p \<or> i = page_num p \<Longrightarrow> unat (of_nat i :: u16) = i"
  using page_num_small [of p] by (auto simp: unsigned_of_nat take_bit_nat_eq_self)

lemma get_item_reads:
  assumes s: "tsession h M" "theld h b = Some (n, m)" "b \<notin> M" "\<forall>c. c \<noteq> b \<longrightarrow> theld h c = None" and g: "page_good (hdr h) m"
    and m: "bucket_wf m" "i < page_num m" "PTYPE m = ucast HASH_BUCKET_PAGE"
    and item: "it_pagep item = Some b" "it_pgno item = n" "it_pgndx item = of_nat i"
    and d: "datum h (tview h) item (snd (page_pair m i)) ns v" and room: "room_for buf (length v)"
  shows "\<exists>h'. ffdb_get_item h buf item rel = Some (0, \<lparr>v_data = Some (if own_buffer buf then mem_put (the (v_data buf)) 0 v else v),
      v_size = int (length v)\<rparr>, h') \<and>
    tview h' = tview h \<and> theld h' = (if rel then Map.empty else theld h) \<and> tsession h' M \<and> pool_step h h'"
proof -
  let ?d = "snd (page_pair m i)"
  have at: "page_at h b = Some m" by (rule theld_page [OF s(2)])
  have ix: "unat (of_nat i :: u16) = i" using unat_index m(2) by blast
  have pd: "page_datap m i = Some ?d"
    using bucket_wf_reads [OF m(1,2)] by (simp add: page_datap_def page_pair_def ffdb_consts)
  have lv: "length v = datap_len h ?d"
  proof -
    obtain p where "tview h (dp_first ?d) = Some p"
      "data_from (tview h) (bsz h) p (unat (datap_roff h ?d) + BIG_DATA_OVERHEAD) (datap_len h ?d) = Some (ns, v)"
      using d by (auto simp: datum_def)
    then show ?thesis using tview_length [OF s(1)] by (auto simp: bsz_def intro: data_from_length)
  qed
  have data: "\<exists>q. tview h k = Some q \<and> PTYPE q = ucast HASH_DATA_PAGE" if "k \<in> insert (dp_first ?d) (set ns)" for k
    using d that by (auto simp: datum_def)
  have "tview h n = Some (page_content m)" by (rule held_view [OF s(1,2)])
  then have "n \<notin> insert (dp_first ?d) (set ns)" using data [of n] m(3) by (auto simp: ffdb_consts)
  then have fr: "\<forall>k\<in>insert (dp_first ?d) (set ns). \<forall>b' m'. theld h b' \<noteq> Some (k, m')"
    using s(2,4) by (metis option.distinct(1) option.inject prod.inject)
  obtain h1 where h1: "ffdb_get_data h item buf ?d = Some (0, \<lparr>v_data = Some (if own_buffer buf then mem_put (the (v_data buf)) 0 v else v),
      v_size = int (length v)\<rparr>, h1)" "tview h1 = tview h" "theld h1 = theld h" "tsession h1 M" "pool_step h h1"
    using get_data_reads [OF s(1) d room [unfolded lv] fr] by blast
  note F = pool_step_fields [OF h1(5)]
  have hb: "theld h1 b = Some (n, m)" and g1: "page_good (hdr h1) m" using h1(3) s(2) g F by simp_all
  obtain h2 where h2: "ffdb_put_page h1 b False = Some (0, h2)" "tsession h2 (M - {b})" "theld h2 = (theld h1)(b := None)"
    "tview h2 = tview h1" "pool_step h1 h2"
    by (rule put_page_session [OF h1(4) hb g1, of False]) (use s(3) in auto)
  have "ffdb_get_item h buf item rel = Some (0, \<lparr>v_data = Some (if own_buffer buf then mem_put (the (v_data buf)) 0 v else v),
      v_size = int (length v)\<rparr>, if rel then h2 else h1)"
    using item at ix pd h1(1) h2(1) by (simp add: ffdb_get_item_def)
  moreover have "theld h2 = Map.empty" using h2(3) h1(3) s(4) by (auto simp: fun_eq_iff)
  moreover have "M - {b} = M" using s(3) by simp
  ultimately show ?thesis
    using h2(2,4) h1(2-5) pool_step_trans [OF h1(5) h2(5)] by auto
qed

lemma hash_get_step:
  assumes r: "represents h f" and key: "dbt_ok key" "dt_size key < 2 ^ 31"
  shows "case f (dbt_bytes key) of
      None \<Rightarrow> \<exists>h'. ffdb_hash_get h key buf = Some (FFDB_NOT_FOUND, buf, h') \<and> represents h' f \<and>
        tview h' = tview h \<and> pool_step h h'
    | Some v \<Rightarrow> room_for buf (length v) \<longrightarrow> (\<exists>h'. ffdb_hash_get h key buf =
        Some (0, \<lparr>v_data = Some (if own_buffer buf then mem_put (the (v_data buf)) 0 v else v), v_size = int (length v)\<rparr>, h') \<and>
        represents h' f \<and> tview h' = tview h \<and> pool_step h h')"
proof -
  have db: "db_ok h" using r by (simp add: represents_def)
  obtain ps where ps: "bucket_pages h (dbt_bytes key) ps" using db unfolding db_ok_def by meson
  obtain b k m i h1 item where F: "ffdb_find_item h key None (new_item h key) = Some (0, item, h1)"
    "it_pagep item = Some b" "it_pgno item = k" "it_pgndx item = of_nat i"
    "(k, page_content m) \<in> set ps" "theld h1 = [b \<mapsto> (k, m)]" "page_good (hdr h) m" "tview h1 = tview h"
    "tsession h1 {}" "pool_step h h1"
    "case first_at (dbt_bytes key) ps of
       Some (k', i', d) \<Rightarrow> it_status item = ITEM_OK \<and> k' = k \<and> i' = i \<and> i < page_num m \<and> d = snd (page_pair m i)
     | None \<Rightarrow> it_status item = ITEM_NO_MORE \<and> i = page_num m \<and> NEXT_PGNO m = INVALID_PGNO"
    by (rule find_item_db [OF db key ps, of None])
  note S = pool_step_fields [OF F(10)]
  have m: "bucket_wf m" "PTYPE m = ucast HASH_BUCKET_PAGE"
  proof -
    obtain n where "chain (tview h) n ps" using ps by (auto simp: bucket_pages_def bucket_chain_def)
    then show "bucket_wf m" "PTYPE m = ucast HASH_BUCKET_PAGE" using chain_wf [OF _ F(5)] by simp_all
  qed
  have g: "page_good (hdr h1) m" using F(7) S by simp
  have hb: "theld h1 b = Some (k, m)" "\<forall>c. c \<noteq> b \<longrightarrow> theld h1 c = None" using F(6) by simp_all
  show ?thesis
  proof (cases "f (dbt_bytes key)")
    case None
    then have "absent h (dbt_bytes key)" using r unfolding represents_def by (metis option.simps(4))
    then have fa: "first_at (dbt_bytes key) ps = None"
      using ps bucket_pages_unique by (auto simp: absent_def)
    obtain h2 where h2: "ffdb_put_page h1 b False = Some (0, h2)" "tsession h2 ({} - {b})" "theld h2 = (theld h1)(b := None)"
      "tview h2 = tview h1" "pool_step h1 h2"
      by (rule put_page_session [OF F(9) hb(1) g, of False]) auto
    have "represents h2 f"
      using represents_step [OF r pool_step_trans [OF F(10) h2(5)]] h2 F(6,8) by simp
    moreover have "ffdb_hash_get h key buf = Some (FFDB_NOT_FOUND, buf, h2)"
      using F(1,2,11) fa h2(1) by (simp add: ffdb_hash_get_def ffdb_release_item_def)
    ultimately show ?thesis using None h2(4) F(8) pool_step_trans [OF F(10) h2(5)] by simp
  next
    case (Some v)
    then have "stored h (dbt_bytes key) v" using r unfolding represents_def by (metis option.simps(5))
    then obtain n j d ns where st: "first_at (dbt_bytes key) ps = Some (n, j, d)" "datum h (tview h) (item_of n j) d ns v"
      using ps bucket_pages_unique unfolding stored_def by blast
    then have I: "it_status item = ITEM_OK" "n = k" "j = i" "i < page_num m" "d = snd (page_pair m i)" using F(11) by auto
    have "datum h1 (tview h1) item (snd (page_pair m i)) ns v"
      using st(2) datum_item [of item "item_of k i"] F(3,4,8) I datum_same(1) [of h1 h] S by (simp add: item_of_def)
    then have "room_for buf (length v) \<longrightarrow> (\<exists>h'. ffdb_get_item h1 buf item True =
        Some (0, \<lparr>v_data = Some (if own_buffer buf then mem_put (the (v_data buf)) 0 v else v), v_size = int (length v)\<rparr>, h') \<and>
        tview h' = tview h1 \<and> theld h' = Map.empty \<and> tsession h' {} \<and> pool_step h1 h')"
      using get_item_reads [OF F(9) hb(1) _ hb(2) g m(1) I(4) m(2) F(2-4), of ns v buf True] by auto
    moreover have "ffdb_hash_get h key buf = ffdb_get_item h1 buf item True"
      using F(1) I(1) by (simp add: ffdb_hash_get_def ffdb_consts)
    moreover have "represents h' f" if "tview h' = tview h1" "theld h' = Map.empty" "tsession h' {}" "pool_step h1 h'" for h'
      using represents_step [OF r pool_step_trans [OF F(10) that(4)]] that F(8) by simp
    moreover have "tview h' = tview h \<and> pool_step h h'" if "tview h' = tview h1" "pool_step h1 h'" for h'
      using that F(8) pool_step_trans [OF F(10) that(2)] by simp
    ultimately show ?thesis using Some by fastforce
  qed
qed

lemma hash_get_represents:
  assumes "represents h f" "dbt_ok key" "dt_size key < 2 ^ 31"
  shows "case f (dbt_bytes key) of
      None \<Rightarrow> \<exists>h'. ffdb_hash_get h key buf = Some (FFDB_NOT_FOUND, buf, h') \<and> represents h' f
    | Some v \<Rightarrow> room_for buf (length v) \<longrightarrow> (\<exists>h'. ffdb_hash_get h key buf =
        Some (0, \<lparr>v_data = Some (if own_buffer buf then mem_put (the (v_data buf)) 0 v else v), v_size = int (length v)\<rparr>, h') \<and>
        represents h' f)"
  using hash_get_step [OF assms, of buf] by (cases "f (dbt_bytes key)") auto

section \<open>A pair more\<close>

definition upd_pages :: "pgno \<Rightarrow> mem \<Rightarrow> (pgno \<times> mem) list \<Rightarrow> (pgno \<times> mem) list" where
  "upd_pages k c ps = map (\<lambda>(j, q). (j, if j = k then c else q)) ps"

lemma upd_pages_simps [simp]:
  "upd_pages k c [] = []" "upd_pages k c ((j, q) # r) = (j, if j = k then c else q) # upd_pages k c r"
  "upd_pages k c (xs @ ys) = upd_pages k c xs @ upd_pages k c ys" "upd_pages k c ps = [] \<longleftrightarrow> ps = []"
  by (simp_all add: upd_pages_def)

lemma upd_pages_fst [simp]: "fst ` set (upd_pages k c ps) = fst ` set ps"
  by (force simp: upd_pages_def)

lemma upd_pages_other: "k \<notin> fst ` set ps \<Longrightarrow> upd_pages k c ps = ps"
  by (induction ps) (auto split: prod.splits)

lemma chain_update:
  assumes "chain V n ps" "\<And>j q. (j, q) \<in> set ps \<Longrightarrow> j \<noteq> k \<Longrightarrow> W j = V j" "W k = Some c" "bucket_wf c" "CURR_PGNO c = k"
    "PTYPE c = ucast HASH_BUCKET_PAGE" "\<And>p. (k, p) \<in> set ps \<Longrightarrow> NEXT_PGNO c = NEXT_PGNO p"
  shows "chain W n (upd_pages k c ps)"
  using assms(1,2,7)
proof (induction ps arbitrary: n)
  case (Cons a r)
  obtain p where p: "a = (n, p)" "n \<noteq> INVALID_PGNO" "V n = Some p" "CURR_PGNO p = n" "bucket_wf p"
    "PTYPE p = ucast HASH_BUCKET_PAGE" "if NEXT_PGNO p = INVALID_PGNO then r = [] else chain V (NEXT_PGNO p) r"
    using Cons.prems(1) unfolding chain_Cons by blast
  have "chain W (NEXT_PGNO p) (upd_pages k c r)" if "NEXT_PGNO p \<noteq> INVALID_PGNO"
    by (rule Cons.IH) (use Cons.prems(2,3) p(7) that in auto)
  moreover have "W n = Some p" if "n \<noteq> k" using Cons.prems(2) [of n p] p(1,3) that by simp
  ultimately show ?case using p Cons.prems(3) [of p] assms(3-6) by (cases "n = k") (auto simp: chain_Cons)
qed simp

lemma first_at_append: "first_at x (xs @ ys) = (case first_at x xs of None \<Rightarrow> first_at x ys | Some r \<Rightarrow> Some r)"
  by (induction xs) (auto split: option.splits)

lemma chain_last: "chain V n ps \<Longrightarrow> (k, p) \<in> set ps \<Longrightarrow> NEXT_PGNO p = INVALID_PGNO \<Longrightarrow> \<exists>xs. ps = xs @ [(k, p)]"
  by (induction ps arbitrary: n) (auto split: if_splits, metis append_Cons)

lemma key_index_append:
  assumes "page_pairs c = page_pairs p @ [(kb, d)]"
  shows "key_index x c = (case key_index x p of None \<Rightarrow> if x = kb then Some (page_num p) else None | Some i \<Rightarrow> Some i)"
    "i < page_num p \<Longrightarrow> page_pair c i = page_pair p i" "page_pair c (page_num p) = (kb, d)" "page_num c = Suc (page_num p)"
proof -
  show n: "page_num c = Suc (page_num p)" using arg_cong [OF assms, of length] by simp
  have nth: "page_pair c i = (page_pairs p @ [(kb, d)]) ! i" if "i < Suc (page_num p)" for i
    using nth_page_pairs [of i c] that n assms by simp
  show "page_pair c i = page_pair p i" if "i < page_num p" for i
    using nth [of i] that by (simp add: nth_append nth_page_pairs)
  show "page_pair c (page_num p) = (kb, d)" using nth [of "page_num p"] by (simp add: nth_append)
  have k: "page_keys c = page_keys p @ [kb]" by (simp add: page_keys_def assms)
  show "key_index x c = (case key_index x p of None \<Rightarrow> if x = kb then Some (page_num p) else None | Some i \<Rightarrow> Some i)"
  proof (cases "key_index x p")
    case None
    then have "\<forall>j < page_num p. page_keys p ! j \<noteq> x" by (simp add: key_index_def find_upt)
    then have "find (\<lambda>i. page_keys c ! i = x) [0..<Suc (page_num p)] = (if x = kb then Some (page_num p) else None)"
      by (auto simp: find_upt k nth_append less_Suc_eq simp del: upt_Suc)
    then show ?thesis using None n by (simp add: key_index_def)
  next
    case (Some i)
    then have i: "i < page_num p" "page_keys p ! i = x" "\<forall>j < i. page_keys p ! j \<noteq> x" by (simp_all add: key_index_def find_upt)
    then have "key_index x c = Some i" by (simp add: key_index_def find_upt k n nth_append del: upt_Suc)
    then show ?thesis using Some by simp
  qed
qed

lemma first_at_update:
  assumes "chain V n ps" "(k, p) \<in> set ps" "NEXT_PGNO p = INVALID_PGNO" "page_pairs c = page_pairs p @ [(kb, d)]"
    "first_at kb ps = None"
  shows "first_at x (upd_pages k c ps) = (if x = kb then Some (k, page_num p, d) else first_at x ps)"
proof -
  obtain xs where xs: "ps = xs @ [(k, p)]" using chain_last [OF assms(1-3)] by blast
  have "k \<notin> fst ` set xs" using chain_distinct [OF assms(1)] xs by auto
  then have u: "upd_pages k c ps = xs @ [(k, c)]" using upd_pages_other xs by simp
  note K = key_index_append [OF assms(4)]
  have one: "first_at x [(k, c)] = (if x = kb \<and> key_index x p = None then Some (k, page_num p, d) else first_at x [(k, p)])" for x
    using K(1) [of x] K(2,3) key_index_Some [of x p] by (auto split: option.splits)
  have "first_at x (xs @ [(k, c)]) = (if x = kb then Some (k, page_num p, d) else first_at x (xs @ [(k, p)]))"
    using assms(5) unfolding xs first_at_append one by (auto split: option.splits)
  then show ?thesis by (simp only: u xs [symmetric])
qed

section \<open>Putting a new key that fits\<close>

text \<open>What a put changes: the bucket page and the current data page.\<close>

lemma add_pair_fits:
  assumes s: "tsession h {}" "theld h = [b \<mapsto> (k, m)]" and g: "page_good (hdr h) m" and bs: "bsz h \<le> 2 ^ 20"
    and m: "bucket_wf m" "PTYPE m = ucast HASH_BUCKET_PAGE" "PAIRFITS m (dt_size key)"
    and key: "dbt_ok key" "dt_size key < 2 ^ 32" and item: "it_pagep item = Some b" "it_pgno item = k"
    and D: "data_page_ok h p" "HIGHEST_FREE p \<noteq> 0" "unat (HIGHEST_FREE p) + BIG_DATA_TOTAL_SIZE val \<le> bsz h"
    and val: "dbt_ok val"
  defines "d \<equiv> new_datap h val (curr_dpage h) (HIGHEST_FREE p)
      \<lparr>dp_first = curr_dpage h, dp_offset = 0, dp_len = of_nat (dt_size val), dp_chksum = it_data_chksum item\<rparr>"
  shows "\<exists>q dm dq h'. ffdb_add_pair h key val item False = Some (0, h') \<and> theld h' = Map.empty \<and> tsession h' {} \<and>
    pool_step h h' \<and> tview h' = (tview h)(curr_dpage h \<mapsto> page_content dq, k \<mapsto> page_content q) \<and>
    page_content dm = p \<and> length dm = bsz h \<and>
    write_data_on_page (bsz h) (HIGHEST_FREE p) (new_data_header h k (ucast (NUM_ENT m)) (dt_size val)) val dm = Some dq \<and>
    bucket_wf q \<and> page_pairs q = page_pairs m @ [(dbt_bytes key, d)] \<and> CURR_PGNO q = CURR_PGNO m \<and>
    NEXT_PGNO q = NEXT_PGNO m \<and> PTYPE q = PTYPE m"
proof -
  let ?D = "curr_dpage h"
  have DP: "?D \<noteq> INVALID_PGNO" "?D \<noteq> 0" "known (mp h) ?D" "tview h ?D = Some p" "CURR_PGNO p = ?D"
    "PTYPE p = ucast HASH_DATA_PAGE" "BIG_PAGE_OVERHEAD \<le> unat (HIGHEST_FREE p)"
    "\<exists>sp. table_get (h_spares (hdr h)) (h_ovfl_point (hdr h) + 1) = Some sp \<and> sp \<noteq> 0"
    using D(1,2) by (auto simp: data_page_ok_def)
  have hb: "theld h b = Some (k, m)" using s(2) by simp
  have "tview h k = Some (page_content m)" by (rule held_view [OF s(1) hb])
  then have kD: "k \<noteq> ?D" using DP(4,6) m(2) by (auto simp: ffdb_consts)
  obtain p1 p2 off where W: "write_key m key = Some (p1, off)" "write_datap p1 (NUM_ENT m) off d = Some p2"
    "let q = commit_pair (NUM_ENT m) off p2
     in bucket_wf q \<and> length q = length m \<and> page_pairs q = page_pairs m @ [(dbt_bytes key, d)] \<and>
        CURR_PGNO q = CURR_PGNO m \<and> PREV_PGNO q = PREV_PGNO m \<and> NEXT_PGNO q = NEXT_PGNO m \<and>
        PAGE_SIGN q = PAGE_SIGN m \<and> PTYPE q = PTYPE m"
    using write_pair_aux [OF m(1,3) key(2,1), of d] by blast
  define q where "q = commit_pair (NUM_ENT m) off p2"
  have q: "bucket_wf q" "length q = length m" "page_pairs q = page_pairs m @ [(dbt_bytes key, d)]"
    "CURR_PGNO q = CURR_PGNO m" "NEXT_PGNO q = NEXT_PGNO m" "PAGE_SIGN q = PAGE_SIGN m" "PTYPE q = PTYPE m"
    using W(3) by (simp_all add: q_def Let_def)
  have lm: "length m = unat (h_bsize (hdr h))" using g by (simp add: page_good_def)
  have l1: "length p1 = length m"
    using W(2) q(2) by (auto simp: q_def write_datap_def commit_pair_def page_fields mem_write_Some_iff
        set_DATAP_OFF_def split: bind_splits)
  let ?A = "poke b (\<lambda>_. p1) h"
  have len1: "length ((\<lambda>_. p1) m) = unat (h_bsize (hdr h))" using l1 lm by simp
  note A = poke_session [OF s(1) hb, of "\<lambda>_. p1", OF len1]
  note FA = pool_step_fields [OF A(4)]
  have dp: "ffdb_data_page ?A False = Some (?D, False, ?A)"
    using DP(1,8) by (auto simp: ffdb_data_page_def level_start_def FA)
  have D1: "?D \<noteq> - 1" using DP(1) by (simp add: INVALID_minus)
  have vA: "tview ?A ?D = Some p" using A(3) DP(4) kD by simp
  have kA: "known (mp ?A) ?D" using FA(8) DP(3) by simp
  obtain c dm B where B: "ffdb_get_page ?A ?D HASH_DATA_PAGE FFDB_CREATE = Some (Some c, ?D, B)" "theld ?A c = None"
    "theld B = (theld ?A)(c \<mapsto> (?D, dm))" "page_content dm = p" "page_good (hdr ?A) dm" "tview B = tview ?A"
    "tsession B {b}" "pool_step ?A B"
    by (rule get_page_session [OF A(1) D1 _ vA, where flags = FFDB_CREATE and addrtype = HASH_DATA_PAGE and addr = ?D])
       (use A(2) s(2) kD kA DP(2,5) in \<open>auto simp: ffdb_consts split: if_splits\<close>)
  note FB = pool_step_fields [OF pool_step_trans [OF A(4) B(8)]]
  have cb: "c \<noteq> b" using B(2) A(2) by auto
  have off: "OFFSET dm = HIGHEST_FREE p" using B(4) by auto
  have bB: "bsz B = bsz h" by (simp add: bsz_def FB)
  have nd: "new_data_header B = new_data_header h" "new_datap B = new_datap h"
    by (simp_all add: fun_eq_iff new_data_header_def new_datap_def after_v5_def FB)
  have fits: "32 \<le> unat (OFFSET dm)" "unat (OFFSET dm) + BIG_DATA_TOTAL_SIZE val \<le> bsz B" "bsz B \<le> 2 ^ 20"
    using DP(7) D(3) off bs by (simp_all add: bB ffdb_consts)
  have gB: "page_good (hdr B) dm" using B(5) FA FB by simp
  have hc: "theld B c = Some (?D, dm)" using B(3) by simp
  let ?d0 = "\<lparr>dp_first = ?D, dp_offset = 0, dp_len = of_nat (dt_size val), dp_chksum = it_data_chksum item\<rparr>"
  obtain dq C where C: "ffdb_add_data B k (ucast (NUM_ENT m)) val c ?D ?d0 = Some (0, d, C)"
    "write_data_on_page (bsz h) (HIGHEST_FREE p) (new_data_header h k (ucast (NUM_ENT m)) (dt_size val)) val dm = Some dq"
    "tview C = (tview B)(?D \<mapsto> page_content dq)" "theld C = (theld B)(c := None)" "tsession C ({b} - {c})" "pool_step B C"
    using add_data_fits [OF B(7) hc gB fits val, of k "ucast (NUM_ENT m)" ?d0]
    unfolding nd bB off d_def by blast
  have stC: "pool_step h C" by (rule pool_step_trans [OF pool_step_trans [OF A(4) B(8)] C(6)])
  note FC = pool_step_fields [OF stC]
  have hC: "theld C = [b \<mapsto> (k, p1)]"
    using C(4) B(2,3) A(2) s(2) cb by (auto simp: fun_eq_iff)
  have hCb: "theld C b = Some (k, p1)" using hC by simp
  have sC: "tsession C {b}" using C(5) cb by simp
  have len2: "length ((\<lambda>_. q) p1) = unat (h_bsize (hdr C))" using q(2) lm by (simp add: FC)
  note P = poke_session [OF sC hCb, of "\<lambda>_. q", OF len2]
  have gq: "page_good (hdr (poke b (\<lambda>_. q) C)) q" using g q by (simp add: page_good_def poke_def FC)
  have hP: "theld (poke b (\<lambda>_. q) C) b = Some (k, q)" using P(2) by simp
  obtain E where E: "ffdb_put_page (poke b (\<lambda>_. q) C) b True = Some (0, E)" "tsession E (insert b {b} - {b})"
    "theld E = (theld (poke b (\<lambda>_. q) C))(b := None)" "tview E = tview (poke b (\<lambda>_. q) C)" "pool_step (poke b (\<lambda>_. q) C) E"
    by (rule put_page_session [OF P(1) hP gq, of True]) simp_all
  have add: "ffdb_add_item_on_page h b k key val (it_data_chksum item) = Some (0, poke b (\<lambda>_. q) C)"
    using theld_page [OF hb] theld_page [OF hCb] W(1,2) dp B(1) C(1)
    by (simp add: ffdb_add_item_on_page_def q_def)
  have "ffdb_add_pair h key val item False = Some (0, E)"
    using item add E(1) by (simp add: ffdb_add_pair_def)
  moreover have "theld E = Map.empty" using E(3) P(2) hC by (auto simp: fun_eq_iff)
  moreover have "tview E = (tview h)(?D \<mapsto> page_content dq, k \<mapsto> page_content q)"
    using E(4) P(3) C(3) B(6) A(3) kD by (auto simp: fun_eq_iff)
  moreover have "pool_step h E" by (rule pool_step_trans [OF pool_step_trans [OF stC P(4)] E(5)])
  moreover have "length dm = bsz h" using gB by (simp add: page_good_def bsz_def FB)
  ultimately show ?thesis using B(4) C(2) q E(2) by (intro exI [of _ q] exI [of _ dm] exI [of _ dq] exI [of _ E]) simp
qed

text \<open>The data page after a datum was written behind all others.\<close>

lemma next_pos_bounds:
  assumes "32 \<le> unat start" "unat start + len \<le> bs" "bs \<le> 2 ^ 20"
  shows "next_data_pos bs start len = 0 \<or>
    unat start + len \<le> unat (next_data_pos bs start len) \<and> unat (next_data_pos bs start len) < bs"
proof -
  have u: "unat (start + of_nat len) = unat start + len"
  proof -
    have l: "len < 2 ^ 32" using assms by simp
    then have "unat (of_nat len :: u32) = len" by (simp add: unsigned_of_nat take_bit_nat_eq_self)
    then show ?thesis using assms by (simp add: unat_word_ariths)
  qed
  have "unat (start + of_nat len) + 3 < 2 ^ 32" using u assms by simp
  note A = align_up [OF this]
  show ?thesis using A u by (simp add: next_data_pos_def Let_def)
qed

lemma data_page_grown:
  assumes w: "write_data_on_page bs (HIGHEST_FREE p) dh val dm = Some dq" and dm: "page_content dm = p" "length dm = bs"
    and fits: "32 \<le> unat (HIGHEST_FREE p)" "unat (HIGHEST_FREE p) + BIG_DATA_TOTAL_SIZE val \<le> bs" "bs \<le> 2 ^ 20"
    and num: "BIG_DATA_OVERHEAD * unat (NUM_ENT p) \<le> free_from bs p" and val: "dbt_ok val"
  defines "c \<equiv> page_content dq"
  shows "grown (free_from bs p) p c" "free_from bs p \<le> free_from bs c" "HIGHEST_FREE c = 0 \<or> 32 \<le> unat (HIGHEST_FREE c)"
    "BIG_DATA_OVERHEAD * unat (NUM_ENT c) \<le> free_from bs c" "NUM_ENT dm + 1 \<noteq> 0"
    "unat (HIGHEST_FREE p) + BIG_DATA_TOTAL_SIZE val \<le> free_from bs c"
proof -
  have off: "OFFSET dm = HIGHEST_FREE p" "NUM_ENT dm = NUM_ENT p" using dm(1) by auto
  have f: "unat (HIGHEST_FREE p) + BIG_DATA_TOTAL_SIZE val \<le> length dm" "length dm \<le> 2 ^ 20" using fits dm(2) by simp_all
  have q: "length dq = length dm" "CURR_PGNO dq = CURR_PGNO dm" "NEXT_PGNO dq = NEXT_PGNO dm" "PTYPE dq = PTYPE dm"
    "NUM_ENT dq = NUM_ENT dm + 1" "OFFSET dq = next_data_pos bs (HIGHEST_FREE p) (BIG_DATA_TOTAL_SIZE val)"
    "\<And>a n. 28 \<le> a \<Longrightarrow> a + n \<le> unat (HIGHEST_FREE p) \<Longrightarrow> mem_get dq a n = mem_get dm a n"
    using write_data_page [OF fits(1) f val, of bs dh] w by auto
  have nz: "HIGHEST_FREE p \<noteq> 0" using fits(1) by auto
  then have free: "free_from bs p = unat (HIGHEST_FREE p)" by (simp add: free_from_def)
  have small: "BIG_DATA_OVERHEAD * unat (NUM_ENT p) \<le> unat (HIGHEST_FREE p)" "unat (HIGHEST_FREE p) \<le> 2 ^ 20"
    using num free fits by simp_all
  then have n1: "unat (NUM_ENT p) + 1 < 65536" by (simp add: ffdb_consts)
  then have un: "unat (NUM_ENT p + 1) = unat (NUM_ENT p) + 1" by (rule u16_inc)
  show "NUM_ENT dm + 1 \<noteq> 0" using un off(2) by auto
  note B = next_pos_bounds [OF fits]
  have fc: "HIGHEST_FREE c = next_data_pos bs (HIGHEST_FREE p) (BIG_DATA_TOTAL_SIZE val)" "NUM_ENT c = NUM_ENT p + 1"
    using q off by (simp_all add: c_def)
  show "HIGHEST_FREE c = 0 \<or> 32 \<le> unat (HIGHEST_FREE c)" using B fits fc by auto
  show room: "unat (HIGHEST_FREE p) + BIG_DATA_TOTAL_SIZE val \<le> free_from bs c"
    using B fits fc by (auto simp: free_from_def)
  then show "free_from bs p \<le> free_from bs c" using free by simp
  show "BIG_DATA_OVERHEAD * unat (NUM_ENT c) \<le> free_from bs c"
    using room small un fc(2) by (simp add: BIG_DATA_TOTAL_SIZE_def)
  have "mem_get c a n = mem_get p a n" if "28 \<le> a" "a + n \<le> free_from bs p" for a n
    using q(7) [of a n] that free content_get [of a dm n] content_get [of a dq n] dm(1) by (simp add: c_def)
  moreover have "1 \<le> NUM_ENT c" using un fc(2) by (simp add: word_le_nat_alt)
  ultimately show "grown (free_from bs p) p c"
    using q dm(1) by (auto simp: grown_def c_def)
qed

lemma bucket_pages_update:
  assumes h: "bucket_pages h x qs" and st: "pool_step h E" "tview E = (tview h)(D \<mapsto> c', k \<mapsto> c)"
    and D: "tview h D = Some p" "PTYPE p = ucast HASH_DATA_PAGE" and k: "tview h k = Some c0"
    and c: "bucket_wf c" "CURR_PGNO c = k" "NEXT_PGNO c = NEXT_PGNO c0" "PTYPE c = ucast HASH_BUCKET_PAGE" "page_num c \<noteq> 0"
  shows "bucket_pages E x (upd_pages k c qs)"
proof -
  note F = pool_step_fields [OF st(1)]
  obtain n where n: "BUCKET_TO_PAGE (hdr h) (bucket_of h x) = Some n" "known (mp h) n" "chain (tview h) n qs" "n \<noteq> 0"
    "NUM_ENT (snd (hd qs)) = 0 \<longrightarrow> blank_header (hdr h) (snd (hd qs))"
    using h by (auto simp: bucket_pages_def bucket_chain_def)
  note C = chain_wf [OF n(3)]
  have "j \<noteq> D" if "(j, q) \<in> set qs" for j q using C [OF that] D by (auto simp: ffdb_consts)
  then have "chain (tview E) n (upd_pages k c qs)"
    using C k c st(2) by (intro chain_update [OF n(3)]) auto
  moreover have "NUM_ENT (snd (hd (upd_pages k c qs))) = 0 \<longrightarrow> blank_header (hdr h) (snd (hd (upd_pages k c qs)))"
    using n(3,5) c(5) by (cases qs) (auto simp: page_num_def)
  moreover have "bucket_of E x = bucket_of h x" by (simp add: bucket_of_def F)
  ultimately show ?thesis using n F by (auto simp: bucket_pages_def bucket_chain_def)
qed

text \<open>Where the pair of a key is found.\<close>

definition found :: "htab \<Rightarrow> mem \<Rightarrow> pgno \<Rightarrow> nat \<Rightarrow> datap \<Rightarrow> bool" where
  "found h x n i d \<longleftrightarrow> (\<exists>ps. bucket_pages h x ps \<and> first_at x ps = Some (n, i, d))"

lemma db_found:
  assumes db: "db_ok h" and p: "data_page_ok h p" and f: "found h x n i d"
  shows "\<exists>ns v. datum h (tview h) (item_of n i) d ns v \<and> datum_below h (tview h) (curr_dpage h) (free_from (bsz h) p) d"
proof -
  obtain p0 where p0: "data_page_ok h p0" "\<forall>x. \<exists>ps. bucket_pages h x ps \<and> (\<forall>n i d. first_at x ps = Some (n, i, d) \<longrightarrow>
      (\<exists>ns v. datum h (tview h) (item_of n i) d ns v \<and> datum_below h (tview h) (curr_dpage h) (free_from (bsz h) p0) d))"
    using db unfolding db_ok_def by blast
  have "p0 = p" using p0(1) p by (simp add: data_page_ok_def)
  moreover obtain ps where "bucket_pages h x ps" "first_at x ps = Some (n, i, d)" using f by (auto simp: found_def)
  ultimately show ?thesis using p0(2) bucket_pages_unique by metis
qed

lemma db_data_page: "db_ok h \<Longrightarrow> \<exists>p. data_page_ok h p"
  unfolding db_ok_def by blast

text \<open>
  A new content of a page in the bucket of \<open>kb\<close>, with which this key, and no other, is found
  in a new place.
\<close>

lemma pages_change:
  assumes db: "db_ok h" and ps: "bucket_pages h kb ps" "(k, c0) \<in> set ps"
    and D: "tview h D = Some p" "PTYPE p = ucast HASH_DATA_PAGE"
    and st: "pool_step h E" "tview E = (tview h)(D \<mapsto> c', k \<mapsto> c)"
    and c: "bucket_wf c" "CURR_PGNO c = CURR_PGNO c0" "NEXT_PGNO c = NEXT_PGNO c0" "PTYPE c = PTYPE c0" "page_num c \<noteq> 0"
    and first: "\<And>x. first_at x (upd_pages k c ps) = (if x = kb then Some r else first_at x ps)"
  shows "bucket_pages h x qs \<Longrightarrow> bucket_pages E x (upd_pages k c qs) \<and>
      first_at x (upd_pages k c qs) = (if x = kb then Some r else first_at x qs)"
    "bucket_pages E x qs' \<Longrightarrow> \<exists>qs. bucket_pages h x qs \<and> qs' = upd_pages k c qs"
    "found E x n i e \<longleftrightarrow> (if x = kb then r = (n, i, e) else found h x n i e)"
proof -
  obtain n0 where n0: "chain (tview h) n0 ps" using ps(1) by (auto simp: bucket_pages_def bucket_chain_def)
  note C0 = chain_wf [OF n0 ps(2)]
  have upd: "bucket_pages E x (upd_pages k c qs)" if "bucket_pages h x qs" for x qs
    by (rule bucket_pages_update [OF that st D, of c0]) (use C0 c in auto)
  have fst: "first_at x (upd_pages k c qs) = (if x = kb then Some r else first_at x qs)" if q: "bucket_pages h x qs" for x qs
  proof (cases "bucket_of h x = bucket_of h kb")
    case True
    then have "bucket_pages h kb qs" using q by (simp add: bucket_pages_def)
    then have "qs = ps" using ps(1) bucket_pages_unique by blast
    then show ?thesis using first by simp
  next
    case False
    then have "fst ` set qs \<inter> fst ` set ps = {}" using db q ps(1) unfolding db_ok_def by blast
    then have "k \<notin> fst ` set qs" using ps(2) by force
    then show ?thesis using False by (auto simp: upd_pages_other)
  qed
  have before: "\<exists>qs. bucket_pages h x qs \<and> qs' = upd_pages k c qs" if "bucket_pages E x qs'" for x qs'
    using db_pages [OF db, of x] upd that bucket_pages_unique by blast
  show "bucket_pages E x (upd_pages k c qs) \<and> first_at x (upd_pages k c qs) = (if x = kb then Some r else first_at x qs)"
    if "bucket_pages h x qs" using that upd fst by blast
  show "\<exists>qs. bucket_pages h x qs \<and> qs' = upd_pages k c qs" if "bucket_pages E x qs'" by (rule before [OF that])
  show "found E x n i e \<longleftrightarrow> (if x = kb then r = (n, i, e) else found h x n i e)"
  proof
    assume "found E x n i e"
    then obtain qs where "bucket_pages h x qs" "first_at x (upd_pages k c qs) = Some (n, i, e)"
      using before by (auto simp: found_def)
    then show "if x = kb then r = (n, i, e) else found h x n i e" using fst by (auto simp: found_def split: if_splits)
  next
    assume f: "if x = kb then r = (n, i, e) else found h x n i e"
    obtain qs where qs: "bucket_pages h x qs" using db_pages [OF db] by blast
    have "first_at x qs = Some (n, i, e)" if "found h x n i e"
      using that bucket_pages_unique [OF qs] by (auto simp: found_def)
    then have "first_at x (upd_pages k c qs) = Some (n, i, e)" using f fst [OF qs] by (cases "x = kb") simp_all
    then show "found E x n i e" using upd [OF qs] by (auto simp: found_def)
  qed
qed

lemma represents_change:
  assumes r: "represents h f" and ps: "bucket_pages h kb ps" "(k, c0) \<in> set ps"
    and D: "tview h D = Some p" "PTYPE p = ucast HASH_DATA_PAGE"
    and st: "pool_step h E" "tview E = (tview h)(D \<mapsto> c', k \<mapsto> c)" "tsession E {}" "theld E = Map.empty"
    and c: "bucket_wf c" "CURR_PGNO c = CURR_PGNO c0" "NEXT_PGNO c = NEXT_PGNO c0" "PTYPE c = PTYPE c0" "page_num c \<noteq> 0"
    and first: "\<And>x. first_at x (upd_pages k c ps) = (if x = kb then Some (k, i, d) else first_at x ps)"
    and pe: "data_page_ok E pe"
    and old: "\<And>x n j e ms w. x \<noteq> kb \<Longrightarrow> found h x n j e \<Longrightarrow> datum h (tview h) (item_of n j) e ms w \<Longrightarrow>
      datum h (tview E) (item_of n j) e ms w \<and> datum_below h (tview E) (curr_dpage h) (free_from (bsz h) pe) e"
    and d: "datum h (tview E) (item_of k i) d ns v" "datum_below h (tview E) (curr_dpage h) (free_from (bsz h) pe) d"
  shows "represents E (f(kb \<mapsto> v))"
proof -
  let ?D = "curr_dpage h" and ?V = "tview h" and ?W = "tview E"
  note F = pool_step_fields [OF st(1)]
  note S = datum_same [of E h, unfolded F, OF refl refl refl]
  have db: "db_ok h" using r by (simp add: represents_def)
  have bo: "bucket_of E = bucket_of h" by (simp add: fun_eq_iff bucket_of_def F)
  note P = pages_change [OF db ps D st(1,2) c first]
  obtain p0 where p0: "data_page_ok h p0" using db_data_page [OF db] by blast
  have keep: "\<exists>ms w. datum h ?W (item_of n j) e ms w \<and> datum_below h ?W ?D (free_from (bsz h) pe) e"
    if "found E x n j e" for x n j e
  proof (cases "x = kb")
    case True
    then show ?thesis using that P(3) [of x n j e] d by auto
  next
    case False
    then have e: "found h x n j e" using that P(3) [of x n j e] by simp
    then show ?thesis using old [OF False e] db_found [OF db p0 e] by blast
  qed
  have dj: "fst ` set qs \<inter> fst ` set qs' = {}"
    if A: "bucket_of h x \<noteq> bucket_of h y" "bucket_pages E x qs" "bucket_pages E y qs'" for x y qs qs'
  proof -
    obtain rs where rs: "bucket_pages h x rs" "qs = upd_pages k c rs" using P(2) [OF A(2)] by blast
    obtain rs' where rs': "bucket_pages h y rs'" "qs' = upd_pages k c rs'" using P(2) [OF A(3)] by blast
    have "fst ` set rs \<inter> fst ` set rs' = {}" using db A(1) rs(1) rs'(1) unfolding db_ok_def by blast
    then show ?thesis by (simp add: rs(2) rs'(2))
  qed
  have all: "\<exists>qs. bucket_pages E x qs \<and> (\<forall>n j e. first_at x qs = Some (n, j, e) \<longrightarrow>
      (\<exists>ms w. datum h ?W (item_of n j) e ms w \<and> datum_below h ?W ?D (free_from (bsz h) pe) e))" for x
  proof -
    obtain qs where "bucket_pages h x qs" using db_pages [OF db] by blast
    then have "bucket_pages E x (upd_pages k c qs)" using P(1) by blast
    then show ?thesis using keep [of x] unfolding found_def by blast
  qed
  have "h_compare h = ham_defcmp \<and> flag_ok h \<and> bsz h \<le> 2 ^ 20 \<and>
      (\<forall>xs n. n \<le> length xs \<longrightarrow> ht_hash h xs (of_nat n) = ht_hash h (take n xs) (of_nat n))"
    using db unfolding db_ok_def by (elim conjE) (intro conjI)
  then have "db_ok E"
    unfolding db_ok_def S bo F(2,4,5) using st(3,4) all pe dj by blast
  moreover have "case (f(kb \<mapsto> v)) x of None \<Rightarrow> absent E x | Some w \<Rightarrow> stored E x w" for x
  proof -
    obtain qs where qs: "bucket_pages h x qs" using db_pages [OF db] by blast
    have U: "bucket_pages E x (upd_pages k c qs)" "first_at x (upd_pages k c qs) = (if x = kb then Some (k, i, d) else first_at x qs)"
      using P(1) [OF qs] by simp_all
    show ?thesis
    proof (cases "x = kb")
      case True
      then have "stored E x v" using U d(1) by (intro storedI [where ps = "upd_pages k c qs"]) (simp_all add: S)
      then show ?thesis using True by simp
    next
      case False
      show ?thesis
      proof (cases "f x")
        case None
        then have "absent h x" using r unfolding represents_def by (metis option.simps(4))
        then have "first_at x qs = None" using qs bucket_pages_unique by (auto simp: absent_def)
        then show ?thesis using U False None by (auto simp: absent_def)
      next
        case (Some w)
        then have "stored h x w" using r unfolding represents_def by (metis option.simps(5))
        then obtain n j e ms where e: "first_at x qs = Some (n, j, e)" "datum h ?V (item_of n j) e ms w"
          using qs bucket_pages_unique unfolding stored_def by blast
        then have "found h x n j e" using qs by (auto simp: found_def)
        then have "datum h ?W (item_of n j) e ms w" using old [OF False _ e(2)] by blast
        then have "stored E x w" using U e(1) False by (intro storedI [where ps = "upd_pages k c qs"]) (simp_all add: S)
        then show ?thesis using Some False by simp
      qed
    qed
  qed
  ultimately show ?thesis by (simp add: represents_def)
qed

lemma represents_put:
  assumes r: "represents h f" and ps: "bucket_pages h kb ps" "first_at kb ps = None" "(k, c0) \<in> set ps"
      "NEXT_PGNO c0 = INVALID_PGNO"
    and p: "data_page_ok h p" and st: "pool_step h E" "tview E = (tview h)(curr_dpage h \<mapsto> c', k \<mapsto> c)"
      "tsession E {}" "theld E = Map.empty"
    and c: "bucket_wf c" "page_pairs c = page_pairs c0 @ [(kb, d)]" "CURR_PGNO c = CURR_PGNO c0"
      "NEXT_PGNO c = NEXT_PGNO c0" "PTYPE c = PTYPE c0"
    and c': "grown (free_from (bsz h) p) p c'" "free_from (bsz h) p \<le> free_from (bsz h) c'" "data_page_ok E c'"
    and d: "datum h (tview E) (item_of k (page_num c0)) d ns v"
      "datum_below h (tview E) (curr_dpage h) (free_from (bsz h) c') d"
  shows "represents E (f(kb \<mapsto> v))"
proof -
  let ?D = "curr_dpage h" and ?V = "tview h" and ?W = "tview E"
  have db: "db_ok h" using r by (simp add: represents_def)
  have D: "?V ?D = Some p" "PTYPE p = ucast HASH_DATA_PAGE" using p by (simp_all add: data_page_ok_def)
  obtain n0 where n0: "chain ?V n0 ps" using ps(1) by (auto simp: bucket_pages_def bucket_chain_def)
  note C0 = chain_wf [OF n0 ps(3)]
  have num: "page_num c \<noteq> 0" using key_index_append(4) [OF c(2)] by simp
  have old: "datum h ?W it e ms w \<and> datum_below h ?W ?D (free_from (bsz h) c') e"
    if e: "datum h ?V it e ms w" "datum_below h ?V ?D (free_from (bsz h) p) e" for it e ms w
  proof (rule datum_grown [OF D(1) _ c'(1,2) _ _ e])
    have "?D \<noteq> k" using D C0 by (auto simp: ffdb_consts)
    then show "?W ?D = Some c'" using st(2) by simp
    show "bsz h \<le> length p" using tview_length [of h "{}" ?D p] db D(1) by (simp add: db_ok_def bsz_def)
    fix j assume j: "j \<in> insert (dp_first e) (set ms)" "j \<noteq> ?D"
    then obtain q where "?V j = Some q" "PTYPE q = ucast HASH_DATA_PAGE" using e(1) by (auto simp: datum_def)
    then have "j \<noteq> k" using C0 by (auto simp: ffdb_consts)
    then show "?W j = ?V j" using st(2) j(2) by simp
  qed
  show ?thesis
  proof (rule represents_change [OF r ps(1,3) D st c(1,3-5) num _ c'(3) _ d])
    show "first_at x (upd_pages k c ps) = (if x = kb then Some (k, page_num c0, d) else first_at x ps)" for x
      by (rule first_at_update [OF n0 ps(3,4) c(2) ps(2)])
    fix x n j e ms w assume "found h x n j e" "datum h ?V (item_of n j) e ms w"
    then show "datum h ?W (item_of n j) e ms w \<and> datum_below h ?W ?D (free_from (bsz h) c') e"
      using old db_found [OF db p] by blast
  qed
qed

text \<open>The counter of the keys is not part of the map.\<close>

lemma count_key_same:
  "datum (count_key h) = datum h" "datum_below (count_key h) = datum_below h" "bsz (count_key h) = bsz h"
  "flag_ok (count_key h) = flag_ok h" "bucket_of (count_key h) = bucket_of h" "bucket_pages (count_key h) = bucket_pages h"
proof -
  show "datum (count_key h) = datum h" "datum_below (count_key h) = datum_below h" "bsz (count_key h) = bsz h"
    "flag_ok (count_key h) = flag_ok h"
    by (rule datum_same; simp add: count_key_def)+
  show bo: "bucket_of (count_key h) = bucket_of h"
    by (auto simp: fun_eq_iff bucket_of_def ffdb_call_hash_def count_key_def Let_def)
  have "BUCKET_TO_PAGE (hdr (count_key h)) = BUCKET_TO_PAGE (hdr h)"
    by (simp add: fun_eq_iff BUCKET_TO_PAGE_def count_key_def)
  moreover have "bucket_chain (hdr (count_key h)) = bucket_chain (hdr h)"
    by (simp add: fun_eq_iff bucket_chain_def blank_header_def count_key_def)
  ultimately show "bucket_pages (count_key h) = bucket_pages h"
    by (simp add: fun_eq_iff bucket_pages_def bo) (simp add: count_key_def)
qed

lemma count_key_represents:
  assumes r: "represents h f"
  shows "represents (count_key h) f"
proof -
  let ?E = "count_key h"
  have F: "mp ?E = mp h" "curr_dpage ?E = curr_dpage h" "h_compare ?E = h_compare h" "ht_hash ?E = ht_hash h"
    "h_spares (hdr ?E) = h_spares (hdr h)" "h_ovfl_point (hdr ?E) = h_ovfl_point (hdr h)"
    by (simp_all add: count_key_def)
  note S = count_key_same(1-4) [of h] and B = count_key_same(5,6) [of h]
  have P: "data_page_ok ?E = data_page_ok h" by (simp add: fun_eq_iff data_page_ok_def F S)
  have "tsession ?E {}"
    by (rule tsession_hdr [of h]) (use r in \<open>simp_all add: represents_def db_ok_def count_key_def\<close>)
  then have "db_ok ?E"
    using r unfolding represents_def db_ok_def F S B P by (elim conjE) (intro conjI)
  moreover have "stored ?E = stored h" "absent ?E = absent h"
    by (simp_all add: fun_eq_iff stored_def absent_def F S B)
  ultimately show ?thesis using r by (simp add: represents_def cong: option.case_cong)
qed

text \<open>
  Whether a new pair fits: the key on the last page of its bucket, and the datum on the
  current data page.
\<close>

definition put_fits :: "htab \<Rightarrow> dbt \<Rightarrow> dbt \<Rightarrow> bool" where
  "put_fits h key val \<longleftrightarrow>
     (\<exists>ps. bucket_pages h (dbt_bytes key) ps \<and> PAIRFITS (snd (last ps)) (dt_size key)) \<and>
     (\<exists>p. tview h (curr_dpage h) = Some p \<and> HIGHEST_FREE p \<noteq> 0 \<and>
        unat (HIGHEST_FREE p) + BIG_DATA_TOTAL_SIZE val \<le> bsz h)"

lemma max_keysize: "56 \<le> bsz h \<Longrightarrow> bsz h \<le> 2 ^ 20 \<Longrightarrow> FFDB_MAX_KEYSIZE (hdr h) = bsz h - 56"
  by (simp add: FFDB_MAX_KEYSIZE_def bsize_less_eq bsz_def ffdb_consts)

lemma fits_not_refused:
  assumes db: "db_ok h" and f: "put_fits h key val" and key: "dt_size key < 2 ^ 31"
  shows "\<not> put_refused h key val"
proof -
  obtain ps p where ps: "bucket_pages h (dbt_bytes key) ps" "PAIRFITS (snd (last ps)) (dt_size key)"
    and p: "unat (HIGHEST_FREE p) + BIG_DATA_TOTAL_SIZE val \<le> bsz h" using f by (auto simp: put_fits_def)
  obtain n where n: "chain (tview h) n ps" using ps(1) by (auto simp: bucket_pages_def bucket_chain_def)
  then have l: "(fst (last ps), snd (last ps)) \<in> set ps" using chain_nonempty by auto
  note C = chain_wf [OF n l]
  have "length (snd (last ps)) = bsz h"
    using C tview_length [of h "{}"] db by (auto simp: db_ok_def bsz_def)
  moreover have "dt_size key + 31 \<le> page_top (snd (last ps)) - pair_pos (page_num (snd (last ps)))"
    using PAIRFITS_nat [of "snd (last ps)" "dt_size key"] C ps(2) key by simp
  moreover have "page_top (snd (last ps)) \<le> length (snd (last ps))" using C by (simp add: bucket_wf_def)
  ultimately have "dt_size key + 59 \<le> bsz h" by (simp add: pair_pos_def ffdb_consts)
  then have "dt_size key \<le> FFDB_MAX_KEYSIZE (hdr h)" using db max_keysize [of h] by (simp add: db_ok_def)
  moreover have "dt_size val \<le> 2 ^ 20" using p db by (simp add: db_ok_def BIG_DATA_TOTAL_SIZE_def)
  ultimately show ?thesis by (simp add: put_refused_def FFDB_MAX_DATASIZE_def)
qed

text \<open>What it does to the pages: the last page of the bucket gets the pair, the data page the datum.\<close>

definition put_effect :: "htab \<Rightarrow> mem \<Rightarrow> pgno \<Rightarrow> mem \<Rightarrow> htab \<Rightarrow> bool" where
  "put_effect h kb k c E \<longleftrightarrow> pool_step h E \<and> (\<exists>ps c0 c' d p. tview E = (tview h)(curr_dpage h \<mapsto> c', k \<mapsto> c) \<and>
     data_page_ok h p \<and> grown (free_from (bsz h) p) p c' \<and>
     dp_first d = curr_dpage h \<and> unat (datap_roff h d) = free_from (bsz h) p \<and>
     unat (datap_roff h d) + BIG_DATA_OVERHEAD + datap_len h d \<le> bsz h \<and>
     bucket_pages h kb ps \<and> first_at kb ps = None \<and> (k, c0) \<in> set ps \<and> NEXT_PGNO c0 = INVALID_PGNO \<and> bucket_wf c \<and>
     page_pairs c = page_pairs c0 @ [(kb, d)] \<and> CURR_PGNO c = CURR_PGNO c0 \<and> NEXT_PGNO c = NEXT_PGNO c0 \<and> PTYPE c = PTYPE c0)"

lemma hash_put_step:
  assumes r: "represents h f" and key: "dbt_ok key" "dt_size key < 2 ^ 31" "f (dbt_bytes key) = None"
    and val: "dbt_ok val" "0 < dt_size val" and fits: "put_fits h key val"
    and flag: "flag = 0 \<or> flag = FFDB_NOOVERWRITE" "\<not> rdonly h"
  shows "\<exists>E k c. ffdb_hash_put h key val flag = Some (0, count_key E) \<and> put_effect h (dbt_bytes key) k c E \<and>
    represents (count_key E) (f(dbt_bytes key \<mapsto> dbt_bytes val))"
proof -
  let ?kb = "dbt_bytes key" and ?D = "curr_dpage h"
  have db: "db_ok h" using r by (simp add: represents_def)
  have dbs: "flag_ok h" "bsz h \<le> 2 ^ 20" using db by (simp_all add: db_ok_def)
  obtain ps where ps: "bucket_pages h ?kb ps" "PAIRFITS (snd (last ps)) (dt_size key)" using fits by (auto simp: put_fits_def)
  have "absent h ?kb" using r key(3) unfolding represents_def by (metis option.simps(4))
  then have fa: "first_at ?kb ps = None" using ps(1) bucket_pages_unique by (auto simp: absent_def)
  obtain p where p: "data_page_ok h p" using db unfolding db_ok_def by blast
  then have room: "HIGHEST_FREE p \<noteq> 0" "unat (HIGHEST_FREE p) + BIG_DATA_TOTAL_SIZE val \<le> bsz h"
    using fits by (auto simp: put_fits_def data_page_ok_def)
  obtain b k m i h1 item where F: "ffdb_find_item h key (Some val) (new_item h key) = Some (0, item, h1)"
    "it_pagep item = Some b" "it_pgno item = k" "it_data_chksum item = ffdb_crc32_checksum 0 (dbt_bytes val)"
    "(k, page_content m) \<in> set ps" "theld h1 = [b \<mapsto> (k, m)]" "page_good (hdr h) m" "tview h1 = tview h"
    "tsession h1 {}" "pool_step h h1" "it_status item = ITEM_NO_MORE" "NEXT_PGNO m = INVALID_PGNO"
  proof (rule find_item_db [OF db key(1,2) ps(1), of "Some val"])
  qed (use that fa in simp)
  note S = pool_step_fields [OF F(10)]
  obtain n where n: "chain (tview h) n ps" using ps(1) by (auto simp: bucket_pages_def bucket_chain_def)
  note C = chain_wf [OF n F(5)]
  have lst: "last ps = (k, page_content m)" using chain_last [OF n F(5)] F(12) by auto
  then have pf: "PAIRFITS m (dt_size key)" using ps(2) by (simp add: PAIRFITS_def FREESPACE_def)
  have st1: "data_page_ok h1 p" "bsz h1 = bsz h"
    using p S(8) by (simp_all add: data_page_ok_def S F(8) datum_same(3) [of h1 h])
  have m: "bucket_wf m" "PTYPE m = ucast HASH_BUCKET_PAGE" "page_good (hdr h1) m" using C F(7) S by simp_all
  let ?blank = "\<lparr>dp_first = ?D, dp_offset = 0, dp_len = of_nat (dt_size val), dp_chksum = it_data_chksum item\<rparr>"
  let ?d = "new_datap h1 val (curr_dpage h1) (HIGHEST_FREE p) ?blank" and ?dh = "new_data_header h1 k (ucast (NUM_ENT m)) (dt_size val)"
  obtain q dm dq E where E: "ffdb_add_pair h1 key val item False = Some (0, E)" "theld E = Map.empty" "tsession E {}"
    "pool_step h1 E" "tview E = (tview h1)(?D \<mapsto> page_content dq, k \<mapsto> page_content q)"
    "page_content dm = p" "length dm = bsz h" "write_data_on_page (bsz h) (HIGHEST_FREE p) ?dh val dm = Some dq"
    "bucket_wf q" "page_pairs q = page_pairs m @ [(?kb, ?d)]" "CURR_PGNO q = CURR_PGNO m"
    "NEXT_PGNO q = NEXT_PGNO m" "PTYPE q = PTYPE m"
    using add_pair_fits [OF F(9,6) m(3) _ m(1,2) pf key(1) _ F(2,3) st1(1) room(1) _ val(1)] room(2) dbs(2) key(2)
    unfolding st1(2) S(2) by auto
  have st: "pool_step h E" by (rule pool_step_trans [OF F(10) E(4)])
  note SE = pool_step_fields [OF st]
  have hf: "32 \<le> unat (HIGHEST_FREE p)" using p room(1) by (auto simp: data_page_ok_def ffdb_consts)
  have num: "BIG_DATA_OVERHEAD * unat (NUM_ENT p) \<le> free_from (bsz h) p" using p by (simp add: data_page_ok_def)
  note G = data_page_grown [OF E(8,6,7) hf room(2) dbs(2) num val(1)]
  have P: "CURR_PGNO p = ?D" "PTYPE p = ucast HASH_DATA_PAGE" "?D \<noteq> INVALID_PGNO" "?D \<noteq> 0"
    "\<exists>sp. table_get (h_spares (hdr h)) (h_ovfl_point (hdr h) + 1) = Some sp \<and> sp \<noteq> 0" "known (mp h) ?D" "tview h ?D = Some p"
    using p by (simp_all add: data_page_ok_def)
  have kD: "?D \<noteq> k" using P(2,7) C by (auto simp: ffdb_consts)
  have v: "tview E ?D = Some (page_content dq)" "tview E = (tview h)(?D \<mapsto> page_content dq, k \<mapsto> page_content q)"
    using E(5) kD F(8) by simp_all
  have dqf: "CURR_PGNO dq = ?D" "PTYPE dq = ucast HASH_DATA_PAGE" using G(1) P(1,2) by (simp_all add: grown_def)
  have dm: "CURR_PGNO dm = ?D" "PTYPE dm = ucast HASH_DATA_PAGE" using P(1,2) E(6) by auto
  have fl: "flag_ok h1" using dbs(1) datum_same(4) [of h1 h] S by simp
  have D1: "datum h1 = datum h" "datum_below h1 = datum_below h" by (rule datum_same; simp add: S)+
  have dat: "datum h (tview E) (item_of k (page_num m)) ?d [] (dbt_bytes val)"
    unfolding D1(1) [symmetric] S(2)
    by (rule datum_written [where kp = k and ki = "ucast (NUM_ENT m)"])
       (use E(7,8) dm P(3) G(5) hf room(2) dbs(2) val v(1) fl F(4) st1(2) in
         \<open>simp_all add: item_of_def page_num_def unsigned_ucast_eq\<close>)
  have sz: "dt_size val < 2 ^ 32" "unat (HIGHEST_FREE p) < 2 ^ 20"
    using room(2) dbs(2) by (simp_all add: BIG_DATA_TOTAL_SIZE_def ffdb_consts)
  have item: "it_pgno (item_of k (page_num m)) = k" "ucast (it_pgndx (item_of k (page_num m))) = (ucast (NUM_ENT m) :: u32)"
    by (simp_all add: item_of_def page_num_def)
  note H = new_header_ok [OF fl item sz, where d = ?blank and n = "curr_dpage h1", simplified, unfolded S(2)]
  have below: "datum_below h (tview E) ?D (free_from (bsz h) (page_content dq)) ?d"
    unfolding D1(2) [symmetric] S(2) datum_below_def
    using H(2-4) room(2) G(6) v(1) st1(2)
    by (simp add: S(2) data_below.simps [of "tview E"] BIG_DATA_TOTAL_SIZE_def add.commute add.left_commute)
  have "data_page_ok E (page_content dq)"
    unfolding data_page_ok_def SE datum_same(3) [of E h, unfolded SE, OF refl refl refl]
    using P G(3,4) v(1) SE(8) dqf by (simp add: ffdb_consts)
  then have "represents E (f(?kb \<mapsto> dbt_bytes val))"
    by (intro represents_put [OF r ps(1) fa F(5) _ p st v(2) E(3,2) _ _ _ _ _ G(1,2) _ _ below])
       (use E(9-13) F(12) dat m(1) in simp_all)
  then have "represents (count_key E) (f(?kb \<mapsto> dbt_bytes val))" by (rule count_key_represents)
  moreover have "ffdb_hash_put h key val flag = Some (0, count_key E)"
  proof -
    have "page_at h1 b = Some m" by (rule theld_page) (simp add: F(6))
    then have "put_new_key h1 key val item = Some (0, count_key E)"
      using F(2) pf E(1) by (simp add: put_new_key_def)
    then show ?thesis
      using fits_not_refused [OF db fits key(2)] flag F(1,11) by (auto simp: ffdb_hash_put_def)
  qed
  moreover have "put_effect h ?kb k (page_content q) E"
    unfolding put_effect_def
  proof (rule conjI, rule st, rule exI [of _ ps], rule exI [of _ "page_content m"], rule exI [of _ "page_content dq"],
      rule exI [of _ ?d], rule exI [of _ p], intro conjI)
    have L: "datap_roff h = datap_roff h1" "datap_len h = datap_len h1"
      by (simp_all add: fun_eq_iff datap_roff_def datap_len_def after_v5_def S)
    show "dp_first ?d = ?D" "unat (datap_roff h ?d) = free_from (bsz h) p"
      "unat (datap_roff h ?d) + BIG_DATA_OVERHEAD + datap_len h ?d \<le> bsz h"
      using H(2-4) room by (simp_all add: L S(2) free_from_def BIG_DATA_TOTAL_SIZE_def)
  qed (use v(2) p G(1) fa ps(1) F(5,12) E(9-13) m(1) in simp_all)
  ultimately show ?thesis by blast
qed

lemma hash_put_new:
  assumes "represents h f" "dbt_ok key" "dt_size key < 2 ^ 31" "f (dbt_bytes key) = None"
    "dbt_ok val" "0 < dt_size val" "put_fits h key val" "flag = 0 \<or> flag = FFDB_NOOVERWRITE" "\<not> rdonly h"
  shows "\<exists>h'. ffdb_hash_put h key val flag = Some (0, h') \<and> represents h' (f(dbt_bytes key \<mapsto> dbt_bytes val))"
  using hash_put_step [OF assms] by blast

end
