(* ===== verification/FFDB_Map.thy ===== *)
theory FFDB_Map
  imports FFDB_Database
begin

text \<open>
  What a user of the table relies on: get and put on the map the table represents, and
  sequences of them.
\<close>

section \<open>An empty table\<close>

lemma ham_func5_local: "n \<le> length xs \<Longrightarrow> ham_func5 xs (of_nat n) = ham_func5 (take n xs) (of_nat n)"
  by (simp add: ham_func5_def unsigned_of_nat take_bit_eq_mod min_absorb1 mod_le_divisor)

text \<open>
  One bucket on page 3 and a data page 4, both new and not yet on the disk, in a file of
  512-byte pages.
\<close>

definition wit_db_hdr :: hashhdr where
  "wit_db_hdr = wit_hdr512\<lparr>h_version := 6, h_max_bucket := 0, h_high_mask := 0, h_low_mask := 0, h_ovfl_point := 0,
     h_spares := [3, 5] @ replicate 30 0, h_free_pages := replicate 32 INVALID_PGNO\<rparr>"

definition wit_new_page :: "pgno \<Rightarrow> u32 \<Rightarrow> mem" where
  "wit_new_page n t = ffdb_init_page wit_db_hdr (replicate 512 0) n t"

definition wit_db_bkt :: "pgno \<Rightarrow> u32 \<Rightarrow> bkt" where
  "wit_db_bkt n t = \<lparr>b_page = wit_new_page n t, b_pgno = n, b_ref = 0, b_waiters = 0,
     b_flags = FFDB_PAGE_DIRTY, b_owner = None, b_wqh = []\<rparr>"

definition wit_db_pool :: pagepool where
  "wit_db_pool = wit_pool\<lparr>lqh := [2, 3], hqh := (\<lambda>_. [])(2 := [2], 3 := [3]), next_bkt := 4, curcache := 2,
     bkts := [2 \<mapsto> wit_db_bkt 3 HASH_BUCKET_PAGE, 3 \<mapsto> wit_db_bkt 4 HASH_DATA_PAGE]\<rparr>"

definition wit_db :: htab where
  "wit_db = \<lparr>hdr = wit_db_hdr, ht_hash = ham_func5, h_compare = ham_defcmp, mborder = LITTLE_ENDIAN, rdonly = False,
     split_buf = [], db_errno = 0, new_file = True, save_file = True, curr_dpage = 4, rearrange_pages = True,
     mp = wit_db_pool, data_valid_flag = DATA_VALID, data_invalid_flag = DATA_INVALID\<rparr>"

lemma wit_db_fields: "hdr wit_db = wit_db_hdr" "ht_hash wit_db = ham_func5" "h_compare wit_db = ham_defcmp" "rdonly wit_db = False"
  "curr_dpage wit_db = 4" "mp wit_db = wit_db_pool" "data_valid_flag wit_db = DATA_VALID"
  by (simp_all add: wit_db_def)

lemma wit_db_hdr_fields: "h_bsize wit_db_hdr = 512" "h_lorder wit_db_hdr = LITTLE_ENDIAN" "h_max_bucket wit_db_hdr = 0"
  "h_high_mask wit_db_hdr = 0" "h_low_mask wit_db_hdr = 0" "h_ovfl_point wit_db_hdr = 0" "h_spares wit_db_hdr = [3, 5] @ replicate 30 0"
  "h_version wit_db_hdr = 6"
  by (simp_all add: wit_db_hdr_def wit_hdr_fields)

lemma wit_new_page_fields:
  "length (wit_new_page n t) = 512" "CURR_PGNO (wit_new_page n t) = n" "PAGE_SIGN (wit_new_page n t) = FFDB_PAGE_MAGIC"
  "PREV_PGNO (wit_new_page n t) = INVALID_PGNO" "NEXT_PGNO (wit_new_page n t) = INVALID_PGNO" "NUM_ENT (wit_new_page n t) = 0"
  "page_content (wit_new_page n t) = wit_new_page n t"
proof -
  show "length (wit_new_page n t) = 512" "CURR_PGNO (wit_new_page n t) = n" "PAGE_SIGN (wit_new_page n t) = FFDB_PAGE_MAGIC"
    "PREV_PGNO (wit_new_page n t) = INVALID_PGNO" "NEXT_PGNO (wit_new_page n t) = INVALID_PGNO" "NUM_ENT (wit_new_page n t) = 0"
    by (simp_all add: wit_new_page_def ffdb_init_page_def Let_def page_fields)
  have "rd32 (wit_new_page n t) 20 = 0" by (simp add: wit_new_page_def ffdb_init_page_def Let_def page_fields)
  then show "page_content (wit_new_page n t) = wit_new_page n t"
    using wr32_rd32 [of 20 "wit_new_page n t"] \<open>length (wit_new_page n t) = 512\<close> by (simp add: page_content_def set_CHKSUM_def)
qed

lemma wit_page_types:
  "PTYPE (wit_new_page n HASH_BUCKET_PAGE) = ucast HASH_BUCKET_PAGE" "OFFSET (wit_new_page n HASH_BUCKET_PAGE) = 511"
  "PTYPE (wit_new_page n HASH_DATA_PAGE) = ucast HASH_DATA_PAGE" "OFFSET (wit_new_page n HASH_DATA_PAGE) = 32"
  by (simp_all add: wit_new_page_def ffdb_init_page_def Let_def page_fields wit_db_hdr_fields ffdb_consts)

lemma wit_db_pool_fields: "lqh wit_db_pool = [2, 3]" "num_waiters wit_db_pool 2 = 0" "num_waiters wit_db_pool 3 = 0"
  "bkt_pgno wit_db_pool 2 = 3" "bkt_pgno wit_db_pool 3 = 4"
  "bkt_page wit_db_pool 2 = wit_new_page 3 HASH_BUCKET_PAGE" "bkt_page wit_db_pool 3 = wit_new_page 4 HASH_DATA_PAGE"
  "\<not> pinned wit_db_pool b" "dirty wit_db_pool 2" "dirty wit_db_pool 3" "page_size wit_db_pool = 512"
  "hqh wit_db_pool k = (if k = 2 then [2] else if k = 3 then [3] else [])"
  "bkts wit_db_pool b = (if b = 2 then Some (wit_db_bkt 3 HASH_BUCKET_PAGE) else if b = 3 then Some (wit_db_bkt 4 HASH_DATA_PAGE) else None)"
  "next_bkt wit_db_pool = 4" "pgin wit_db_pool = pgin wit_pool" "pgout wit_db_pool = pgout wit_pool"
  "backing wit_db_pool = backing wit_pool" "umem wit_db_pool = umem wit_pool"
  by (simp_all add: wit_db_pool_def wit_db_bkt_def num_waiters_def bkt_pgno_def bkt_page_def pinned_def dirty_def bkt_flags_def
      page_size_def wit_pool_fields FLAG_ISSET_def ffdb_consts)

lemma wit_db_native: "native.ready wit_hdr512 wit_db_pool"
proof -
  have k: "HASHKEY 3 = 2" "HASHKEY 4 = 3" by (simp_all add: HASHKEY_def)
  have "pool_struct wit_db_pool"
    by (auto simp: pool_struct_def wit_db_pool_fields k split: if_splits)
  moreover have "bkt_ok (page_good wit_hdr512) page_content wit_db_pool b" if "b \<in> {2, 3}" for b
    using that by (auto simp: bkt_ok_def wit_db_pool_fields wit_new_page_fields page_good_def wit_hdr_fields)
  ultimately have "native_pool wit_hdr512 wit_db_pool"
    by (simp add: native_pool_def pool_inv_def wit_db_pool_fields wit_pool_fields wit_hdr_fields del: One_nat_def)
  then show ?thesis by (simp add: native_ready)
qed

lemma wit_db_held: "theld wit_db = Map.empty"
  by (simp add: fun_eq_iff held_def wit_db_fields wit_db_pool_fields)

lemma wit_db_session: "tsession wit_db {}"
proof -
  have "h_bsize wit_db_hdr = h_bsize wit_hdr512" "h_lorder wit_db_hdr = h_lorder wit_hdr512"
    by (simp_all add: wit_db_hdr_fields wit_hdr_fields)
  then have e: "native.session wit_db_hdr = native.session wit_hdr512" by (rule native_cong)
  have "dom (held wit_db_pool) = {}" using wit_db_held by (simp add: wit_db_fields)
  then have "native.session wit_hdr512 wit_db_pool {}"
    using wit_db_native by (simp add: native.session_def native.settled_def wit_db_pool_fields)
  then show ?thesis by (simp add: tsession_def wit_db_fields e)
qed

lemma wit_db_view: "tview wit_db 3 = Some (wit_new_page 3 HASH_BUCKET_PAGE)" "tview wit_db 4 = Some (wit_new_page 4 HASH_DATA_PAGE)"
  "known wit_db_pool 3" "known wit_db_pool 4"
proof -
  note s = native.ready_struct [OF wit_db_native]
  have "cached wit_db_pool 3 = Some 2" "cached wit_db_pool 4 = Some 3"
    using cached_Some [OF s] by (simp_all add: wit_db_pool_fields)
  then show "tview wit_db 3 = Some (wit_new_page 3 HASH_BUCKET_PAGE)" "tview wit_db 4 = Some (wit_new_page 4 HASH_DATA_PAGE)"
    by (simp_all add: page_view_def pool_view_def wit_db_fields wit_db_pool_fields wit_new_page_fields)
  show "known wit_db_pool 3" "known wit_db_pool 4"
    by (auto simp: known_def wit_db_pool_fields)
qed

lemma log2_1: "ffdb_log2 1 = Some 0"
  by (simp add: ffdb_log2_def log2_loop.simps)

lemma wit_db_pages: "bucket_pages wit_db k [(3, wit_new_page 3 HASH_BUCKET_PAGE)]"
proof -
  have "bucket_of wit_db k = 0" by (simp add: bucket_of_def ffdb_call_hash_def wit_db_fields wit_db_hdr_fields)
  moreover have "BUCKET_TO_PAGE wit_db_hdr 0 = Some 3"
    using log2_1 by (simp add: BUCKET_TO_PAGE_def wit_db_hdr_fields table_get_def)
  moreover have "bucket_wf (wit_new_page 3 HASH_BUCKET_PAGE)"
    by (simp add: bucket_wf_def page_num_def page_top_def pair_pos_def wit_new_page_fields wit_page_types PAGE_OVERHEAD_def)
  ultimately show ?thesis
    using wit_db_view
    by (simp add: bucket_pages_def bucket_chain_def blank_header_def wit_db_fields wit_db_hdr_fields wit_new_page_fields wit_page_types
      INVALID_minus)
qed

lemma wit_db_data: "data_page_ok wit_db (wit_new_page 4 HASH_DATA_PAGE)"
  using wit_db_view
  by (simp add: data_page_ok_def wit_db_fields wit_db_hdr_fields wit_new_page_fields wit_page_types table_get_def
      INVALID_minus BIG_PAGE_OVERHEAD_def)

lemma wit_db_first: "first_at k [(3, wit_new_page 3 HASH_BUCKET_PAGE)] = None"
  by (simp add: key_index_def page_num_def wit_new_page_fields)

lemma wit_db_represents: "represents wit_db Map.empty"
proof -
  have one: "ps = [(3, wit_new_page 3 HASH_BUCKET_PAGE)]" if "bucket_pages wit_db k ps" for k ps
    using bucket_pages_unique [OF that wit_db_pages] .
  have bk: "bucket_of wit_db k = 0" for k by (simp add: bucket_of_def ffdb_call_hash_def wit_db_fields wit_db_hdr_fields)
  have e: "flag_ok wit_db \<and> bsz wit_db \<le> 2 ^ 20 \<and> h_compare wit_db = ham_defcmp"
    using wit_db_fields(1,3,7) wit_db_hdr_fields(1) by (simp add: flag_ok_def bsz_def)
  have l: "\<forall>xs n. n \<le> length xs \<longrightarrow> ht_hash wit_db xs (of_nat n) = ht_hash wit_db (take n xs) (of_nat n)"
    unfolding wit_db_fields by (intro allI impI, rule ham_func5_local)
  have a: "\<forall>k. \<exists>ps. bucket_pages wit_db k ps \<and> (\<forall>n i d. first_at k ps = Some (n, i, d) \<longrightarrow>
           (\<exists>ns v. datum wit_db (tview wit_db) (item_of n i) d ns v \<and>
              datum_below wit_db (tview wit_db) (curr_dpage wit_db) (free_from (bsz wit_db) (wit_new_page 4 HASH_DATA_PAGE)) d))"
    by (intro allI exI conjI, rule wit_db_pages) (simp add: wit_db_first del: first_at.simps)
  have "db_ok wit_db"
    unfolding db_ok_def bk
    by (intro conjI exI [of _ "wit_new_page 4 HASH_DATA_PAGE"] wit_db_session wit_db_held wit_db_data l a) (use e in simp_all)
  moreover have "absent wit_db k" for k
    unfolding absent_def by (intro exI conjI, rule wit_db_pages, rule wit_db_first)
  ultimately show ?thesis by (simp add: represents_def)
qed

definition wit_val :: dbt where
  "wit_val = \<lparr>dt_data = [10, 20, 30, 40], dt_size = 4\<rparr>"

lemma wit_val_bytes: "dbt_ok wit_val" "dt_size wit_val = 4" "dbt_bytes wit_val = [10, 20, 30, 40]"
  by (simp_all add: wit_val_def dbt_ok_def dbt_bytes_def)

lemma wit_db_fits: "put_fits wit_db wit_key wit_val"
proof -
  have "bucket_wf (wit_new_page 3 HASH_BUCKET_PAGE)"
    using wit_db_pages by (auto simp: bucket_pages_def bucket_chain_def)
  then have "PAIRFITS (wit_new_page 3 HASH_BUCKET_PAGE) (dt_size wit_key)"
    by (simp add: PAIRFITS_nat wit_key_bytes page_num_def page_top_def pair_pos_def wit_new_page_fields wit_page_types PAGE_OVERHEAD_def)
  then have "\<exists>ps. bucket_pages wit_db (dbt_bytes wit_key) ps \<and> PAIRFITS (snd (last ps)) (dt_size wit_key)"
    using wit_db_pages by fastforce
  moreover have "unat (OFFSET (wit_new_page 4 HASH_DATA_PAGE)) + BIG_DATA_TOTAL_SIZE wit_val \<le> bsz wit_db"
    by (simp add: wit_page_types BIG_DATA_TOTAL_SIZE_def BIG_DATA_OVERHEAD_def wit_val_bytes bsz_def wit_db_fields wit_db_hdr_fields)
  ultimately show ?thesis
    using wit_db_view by (simp add: put_fits_def wit_db_fields wit_page_types)
qed

definition no_buffer :: valbuf where
  "no_buffer = \<lparr>v_data = None, v_size = 0\<rparr>"

section \<open>Get and put\<close>

text \<open>C5: Fetching. In a table that represents the map \<open>f\<close>, \<open>ffdb_hash_get\<close> returns for every
  key: not found for a key outside \<open>f\<close>, and otherwise success with exactly the bytes of the
  value, in the buffer of the application if it gave one that is large enough, or in a new
  one. The table still represents \<open>f\<close> and no page is left in use, whatever the pool wrote
  out or evicted on the way.\<close>
theorem hash_get_correct:
  assumes "represents h f" "dbt_ok key" "dt_size key < 2 ^ 31"
  shows "case f (dbt_bytes key) of
      None \<Rightarrow> \<exists>h'. ffdb_hash_get h key buf = Some (FFDB_NOT_FOUND, buf, h') \<and> represents h' f
    | Some v \<Rightarrow> room_for buf (length v) \<longrightarrow> (\<exists>h'. ffdb_hash_get h key buf =
        Some (0, \<lparr>v_data = Some (if own_buffer buf then mem_put (the (v_data buf)) 0 v else v), v_size = int (length v)\<rparr>, h') \<and>
        represents h' f)"
  by (rule hash_get_represents [OF assms])

theorem hash_get_correct_witness:
  "\<exists>h'. ffdb_hash_get wit_db wit_key no_buffer = Some (FFDB_NOT_FOUND, no_buffer, h') \<and> represents h' Map.empty"
  using hash_get_correct [OF wit_db_represents, of wit_key no_buffer] wit_key_bytes by simp

text \<open>C1: Storing. If a key is not in the map, it fits on the last page of its bucket and the
  value on the current data page, \<open>ffdb_hash_put\<close> succeeds, and the table then represents the
  map updated with the pair: the new value is found, every other key has the value or the
  absence it had, and the invariants of the table hold again.\<close>
theorem hash_put_correct:
  assumes "represents h f" "dbt_ok key" "dt_size key < 2 ^ 31" "f (dbt_bytes key) = None"
    "dbt_ok val" "0 < dt_size val" "put_fits h key val" "flag = 0 \<or> flag = FFDB_NOOVERWRITE" "\<not> rdonly h"
  shows "\<exists>h'. ffdb_hash_put h key val flag = Some (0, h') \<and> represents h' (f(dbt_bytes key \<mapsto> dbt_bytes val))"
  by (rule hash_put_new [OF assms])

theorem hash_put_correct_witness:
  "\<exists>h'. ffdb_hash_put wit_db wit_key wit_val 0 = Some (0, h') \<and> represents h' [[1, 2, 3] \<mapsto> [10, 20, 30, 40]]"
  using hash_put_correct [OF wit_db_represents, of wit_key wit_val 0] wit_key_bytes wit_val_bytes wit_db_fits wit_db_fields
  by simp

text \<open>The errors a put meets first leave the table as it was.\<close>

lemma put_existing_pins:
  assumes r: "represents h f" and key: "dbt_ok key" "dt_size key < 2 ^ 31" "f (dbt_bytes key) = Some v"
    and ok: "\<not> put_refused h key val" "\<not> rdonly h"
  shows "\<exists>h' b n m ps i d. ffdb_hash_put h key val FFDB_NOOVERWRITE = Some (- 1, h') \<and>
    bucket_pages h (dbt_bytes key) ps \<and> first_at (dbt_bytes key) ps = Some (n, i, d) \<and> (n, page_content m) \<in> set ps \<and>
    theld h' = [b \<mapsto> (n, m)] \<and> tview h' = tview h"
proof -
  have db: "db_ok h" using r by (simp add: represents_def)
  obtain ps where ps: "bucket_pages h (dbt_bytes key) ps" using db unfolding db_ok_def by meson
  have "stored h (dbt_bytes key) v" using r key(3) unfolding represents_def by (metis option.simps(5))
  then obtain n j d where fa: "first_at (dbt_bytes key) ps = Some (n, j, d)"
    using ps bucket_pages_unique unfolding stored_def by blast
  obtain b m h1 item where F: "ffdb_find_item h key (Some val) (new_item h key) = Some (0, item, h1)"
    "(n, page_content m) \<in> set ps" "theld h1 = [b \<mapsto> (n, m)]" "tview h1 = tview h" "it_status item = ITEM_OK"
    by (rule find_item_db [OF db key(1,2) ps, of "Some val"]) (use fa in auto)
  have "ffdb_hash_put h key val FFDB_NOOVERWRITE = Some (- 1, h1)"
    using F(1,5) ok by (simp add: ffdb_hash_put_def) (simp add: ffdb_consts)
  then show ?thesis using F(2-4) ps fa by blast
qed

text \<open>C30: A defect. When \<open>ffdb_hash_put\<close> with \<open>FFDB_NOOVERWRITE\<close> meets a key that is in the
  table it reports \<open>-1\<close> and changes nothing, but it does not put back the page of the key:
  the page of its bucket on which the key is found stays in use, and its pool bucket pinned,
  although the caller has no handle on it. No other page is held.\<close>
theorem put_nooverwrite_pins:
  assumes "represents h f" "dbt_ok key" "dt_size key < 2 ^ 31" "f (dbt_bytes key) = Some v" "\<not> put_refused h key val" "\<not> rdonly h"
  shows "\<exists>h' b n m ps i d. ffdb_hash_put h key val FFDB_NOOVERWRITE = Some (- 1, h') \<and>
    bucket_pages h (dbt_bytes key) ps \<and> first_at (dbt_bytes key) ps = Some (n, i, d) \<and> (n, page_content m) \<in> set ps \<and>
    theld h' = [b \<mapsto> (n, m)] \<and> tview h' = tview h"
  by (rule put_existing_pins [OF assms])

section \<open>Sequences of operations\<close>

text \<open>Storing a list of pairs and fetching a list of keys, with any store.\<close>

fun put_all :: "('s \<Rightarrow> 'k \<Rightarrow> 'v \<Rightarrow> 's option) \<Rightarrow> 's \<Rightarrow> ('k \<times> 'v) list \<Rightarrow> 's option" where
  "put_all put s [] = Some s"
| "put_all put s ((k, v) # r) = (case put s k v of None \<Rightarrow> None | Some s' \<Rightarrow> put_all put s' r)"

fun get_all :: "('s \<Rightarrow> 'k \<Rightarrow> ('v option \<times> 's) option) \<Rightarrow> 's \<Rightarrow> 'k list \<Rightarrow> ('v option list \<times> 's) option" where
  "get_all get s [] = Some ([], s)"
| "get_all get s (k # r) = (case get s k of None \<Rightarrow> None
     | Some (x, s') \<Rightarrow> map_option (\<lambda>(xs, t). (x # xs, t)) (get_all get s' r))"

text \<open>There is room for every pair at the time it is stored.\<close>

fun all_fit :: "('s \<Rightarrow> 'k \<Rightarrow> 'v \<Rightarrow> bool) \<Rightarrow> ('s \<Rightarrow> 'k \<Rightarrow> 'v \<Rightarrow> 's option) \<Rightarrow> 's \<Rightarrow> ('k \<times> 'v) list \<Rightarrow> bool" where
  "all_fit room put s [] \<longleftrightarrow> True"
| "all_fit room put s ((k, v) # r) \<longleftrightarrow> room s k v \<and> (case put s k v of None \<Rightarrow> True | Some s' \<Rightarrow> all_fit room put s' r)"

text \<open>What a map store promises.\<close>

locale map_store =
  fixes rep :: "'s \<Rightarrow> ('k \<Rightarrow> 'v option) \<Rightarrow> bool"
    and get :: "'s \<Rightarrow> 'k \<Rightarrow> ('v option \<times> 's) option"
    and put :: "'s \<Rightarrow> 'k \<Rightarrow> 'v \<Rightarrow> 's option"
    and room :: "'s \<Rightarrow> 'k \<Rightarrow> 'v \<Rightarrow> bool"
    and key_ok :: "'k \<Rightarrow> bool"
  assumes get_law: "rep s f \<Longrightarrow> key_ok k \<Longrightarrow> \<exists>s'. get s k = Some (f k, s') \<and> rep s' f"
    and put_law: "rep s f \<Longrightarrow> key_ok k \<Longrightarrow> f k = None \<Longrightarrow> room s k v \<Longrightarrow> \<exists>s'. put s k v = Some s' \<and> rep s' (f(k \<mapsto> v))"
begin

lemma put_all_law:
  assumes "rep s f" "distinct (map fst kvs)" "\<forall>k\<in>fst ` set kvs. key_ok k \<and> f k = None" "all_fit room put s kvs"
  shows "\<exists>s'. put_all put s kvs = Some s' \<and> rep s' (f ++ map_of kvs)"
  using assms
proof (induction kvs arbitrary: s f)
  case (Cons a r)
  obtain k v where a: "a = (k, v)" by fastforce
  obtain s' where s': "put s k v = Some s'" "rep s' (f(k \<mapsto> v))"
    using put_law [OF Cons.prems(1), of k v] Cons.prems(3,4) a by auto
  have k: "k \<notin> fst ` set r" using Cons.prems(2) a by auto
  have "all_fit room put s' r" "distinct (map fst r)" "\<forall>j\<in>fst ` set r. key_ok j \<and> (f(k \<mapsto> v)) j = None"
    using Cons.prems(2-4) a s'(1) k by auto
  then obtain t where t: "put_all put s' r = Some t" "rep t (f(k \<mapsto> v) ++ map_of r)"
    using Cons.IH [OF s'(2)] by blast
  have e: "f(k \<mapsto> v) ++ map_of r = f ++ map_of (a # r)"
  proof
    fix x
    have "map_of r k = None" using k by (simp add: map_of_eq_None_iff)
    then show "(f(k \<mapsto> v) ++ map_of r) x = (f ++ map_of (a # r)) x"
      by (cases "x = k") (auto simp: a map_add_def split: option.splits)
  qed
  have "put_all put s (a # r) = Some t" using t(1) s'(1) a by simp
  then show ?case using t(2) [unfolded e] by blast
qed simp

lemma get_all_law:
  assumes "rep s f" "\<forall>k\<in>set ks. key_ok k"
  shows "\<exists>s'. get_all get s ks = Some (map f ks, s') \<and> rep s' f"
  using assms
proof (induction ks arbitrary: s)
  case (Cons k r)
  obtain s' where s': "get s k = Some (f k, s')" "rep s' f" using get_law [OF Cons.prems(1), of k] Cons.prems(2) by auto
  obtain t where "get_all get s' r = Some (map f r, t)" "rep t f" using Cons.IH [OF s'(2)] Cons.prems(2) by auto
  then show ?case using s'(1) by simp
qed simp

end

section \<open>The table as a map store\<close>

definition dbt_of :: "mem \<Rightarrow> dbt" where
  "dbt_of bs = \<lparr>dt_data = bs, dt_size = length bs\<rparr>"

lemma dbt_of_simps [simp]: "dbt_ok (dbt_of bs)" "dbt_bytes (dbt_of bs) = bs" "dt_size (dbt_of bs) = length bs"
  by (simp_all add: dbt_of_def dbt_ok_def dbt_bytes_def)

definition store_get :: "htab \<Rightarrow> mem \<Rightarrow> (mem option \<times> htab) option" where
  "store_get h k = map_option (\<lambda>(st, v, h'). (if st = 0 then v_data v else None, h')) (ffdb_hash_get h (dbt_of k) no_buffer)"

definition store_put :: "htab \<Rightarrow> mem \<Rightarrow> mem \<Rightarrow> htab option" where
  "store_put h k v = (case ffdb_hash_put h (dbt_of k) (dbt_of v) FFDB_NOOVERWRITE of
     None \<Rightarrow> None | Some (st, h') \<Rightarrow> if st = 0 then Some h' else None)"

definition store_room :: "htab \<Rightarrow> mem \<Rightarrow> mem \<Rightarrow> bool" where
  "store_room h k v \<longleftrightarrow> put_fits h (dbt_of k) (dbt_of v) \<and> v \<noteq> [] \<and> \<not> rdonly h"

interpretation table: map_store represents store_get store_put store_room "\<lambda>k. length k < 2 ^ 31"
proof
  fix h :: htab and f :: "mem \<Rightarrow> mem option" and k v :: mem
  assume r: "represents h f" and k: "length k < 2 ^ 31"
  have nb: "room_for no_buffer n" "\<not> own_buffer no_buffer" for n by (simp_all add: room_for_def own_buffer_def no_buffer_def)
  show "\<exists>h'. store_get h k = Some (f k, h') \<and> represents h' f"
  proof (cases "f k")
    case None
    then obtain h' where "ffdb_hash_get h (dbt_of k) no_buffer = Some (FFDB_NOT_FOUND, no_buffer, h')" "represents h' f"
      using hash_get_represents [OF r, of "dbt_of k" no_buffer] k by auto
    then show ?thesis using None by (simp add: store_get_def FFDB_NOT_FOUND_def)
  next
    case (Some v)
    then obtain h' where "ffdb_hash_get h (dbt_of k) no_buffer = Some (0, \<lparr>v_data = Some v, v_size = int (length v)\<rparr>, h')"
      "represents h' f"
      using hash_get_represents [OF r, of "dbt_of k" no_buffer] k nb by auto
    then show ?thesis using Some by (simp add: store_get_def)
  qed
  assume "f k = None" "store_room h k v"
  then show "\<exists>h'. store_put h k v = Some h' \<and> represents h' (f(k \<mapsto> v))"
    using hash_put_new [OF r, of "dbt_of k" "dbt_of v" FFDB_NOOVERWRITE] k
    by (auto simp: store_put_def store_room_def)
qed

text \<open>A batch. Pairs with distinct new keys that are stored one after the other can all be
  fetched again, together with any keys that were or were not in the table before: the gets
  return for each key exactly what the map with the new pairs has for it.\<close>
theorem batch_roundtrip:
  assumes "represents h f" "distinct (map fst kvs)" "\<forall>k\<in>fst ` set kvs. length k < 2 ^ 31 \<and> f k = None"
    "all_fit store_room store_put h kvs" "\<forall>k\<in>set ks. length k < 2 ^ 31"
  shows "\<exists>h1 h2. put_all store_put h kvs = Some h1 \<and> get_all store_get h1 ks = Some (map (f ++ map_of kvs) ks, h2) \<and>
    represents h2 (f ++ map_of kvs)"
  using table.put_all_law [OF assms(1-4)] table.get_all_law [OF _ assms(5)] by blast

lemma wit_store_room: "store_room wit_db [1, 2, 3] [10, 20, 30, 40]"
proof -
  have "dbt_of [1, 2, 3] = wit_key" "dbt_of [10, 20, 30, 40] = wit_val" by (simp_all add: dbt_of_def wit_key_def wit_val_def)
  then show ?thesis using wit_db_fits by (simp add: store_room_def wit_db_fields)
qed

theorem batch_roundtrip_witness:
  "\<exists>h1 h2. put_all store_put wit_db [([1, 2, 3], [10, 20, 30, 40])] = Some h1 \<and>
     get_all store_get h1 [[1, 2, 3], [7]] = Some ([Some [10, 20, 30, 40], None], h2)"
proof -
  let ?kvs = "[([1, 2, 3], [10, 20, 30, 40])] :: (mem \<times> mem) list"
  have "all_fit store_room store_put wit_db ?kvs" using wit_store_room by (simp split: option.split)
  then show ?thesis
    using batch_roundtrip [OF wit_db_represents, of ?kvs "[[1, 2, 3], [7]]"] by (simp del: put_all.simps get_all.simps) blast
qed

text \<open>The witness table with the pair in it, and a second put of the key.\<close>

theorem put_nooverwrite_pins_witness:
  "\<exists>h1 h2 b n m ps i d. ffdb_hash_put wit_db wit_key wit_val 0 = Some (0, h1) \<and>
     ffdb_hash_put h1 wit_key wit_val FFDB_NOOVERWRITE = Some (- 1, h2) \<and>
     bucket_pages h1 [1, 2, 3] ps \<and> first_at [1, 2, 3] ps = Some (n, i, d) \<and> theld h2 = [b \<mapsto> (n, m)]"
proof -
  let ?f = "[[1, 2, 3] \<mapsto> [10, 20, 30, 40]] :: mem \<Rightarrow> mem option"
  obtain E k c where P: "ffdb_hash_put wit_db wit_key wit_val 0 = Some (0, count_key E)" "put_effect wit_db (dbt_bytes wit_key) k c E"
    "represents (count_key E) ?f"
    using hash_put_step [OF wit_db_represents, of wit_key wit_val 0] wit_key_bytes wit_val_bytes wit_db_fits wit_db_fields
    by auto
  have E: "ffdb_hash_put wit_db wit_key wit_val 0 = Some (0, count_key E)" "pool_step wit_db E" "represents (count_key E) ?f"
    using P by (simp_all add: put_effect_def)
  note F = pool_step_fields [OF E(2)]
  have "\<not> rdonly (count_key E)" "\<not> put_refused (count_key E) wit_key wit_val"
    by (simp_all add: count_key_def F wit_db_fields put_refused_def wit_val_bytes wit_key_bytes FFDB_MAX_KEYSIZE_def bsize_less_eq
      FFDB_MAX_DATASIZE_def wit_db_hdr_fields ffdb_consts)
  then show ?thesis
    using E(1) put_nooverwrite_pins [OF E(3), of wit_key "[10, 20, 30, 40]" wit_val] wit_key_bytes by simp blast
qed

end
