(* ===== verification/FFDB_Footprint.thy ===== *)
theory FFDB_Footprint
  imports FFDB_Database
begin

text \<open>
  The bytes a datum occupies on the data pages. A datum is determined by these bytes and the
  headers of its pages, and the data of different keys occupy different bytes.
\<close>

section \<open>Places of a datum\<close>

type_synonym places = "(pgno \<times> nat) set"

text \<open>The places that \<open>data_from\<close> reads, from place \<open>start\<close> of page \<open>n\<close> with content \<open>p\<close>.\<close>

function data_foot :: "(pgno \<Rightarrow> mem option) \<Rightarrow> nat \<Rightarrow> pgno \<Rightarrow> mem \<Rightarrow> nat \<Rightarrow> nat \<Rightarrow> places" where
  "data_foot V bs n p start len =
     (if start + len \<le> bs then {n} \<times> {start..<start + len}
      else if bs \<le> start then {}
      else {n} \<times> {start..<bs} \<union>
        (case V (NEXT_PGNO p) of None \<Rightarrow> {}
         | Some q \<Rightarrow> data_foot V bs (NEXT_PGNO p) q BIG_PAGE_OVERHEAD (len - (bs - start))))"
  by pat_completeness auto
termination by (relation "measure (\<lambda>(V, bs, n, p, start, len). len)") auto

declare data_foot.simps [simp del]

definition datum_foot :: "htab \<Rightarrow> (pgno \<Rightarrow> mem option) \<Rightarrow> datap \<Rightarrow> places" where
  "datum_foot h V d = (case V (dp_first d) of None \<Rightarrow> {}
     | Some p \<Rightarrow> {dp_first d} \<times> {unat (datap_roff h d)..<unat (datap_roff h d) + BIG_DATA_OVERHEAD} \<union>
         data_foot V (bsz h) (dp_first d) p (unat (datap_roff h d) + BIG_DATA_OVERHEAD) (datap_len h d))"

text \<open>The data pages of \<open>V\<close> and \<open>W\<close> have the same headers and the same bytes at the places.\<close>

definition same_at :: "places \<Rightarrow> (pgno \<Rightarrow> mem option) \<Rightarrow> (pgno \<Rightarrow> mem option) \<Rightarrow> bool" where
  "same_at F V W \<longleftrightarrow> (\<forall>k p. V k = Some p \<longrightarrow> PTYPE p = ucast HASH_DATA_PAGE \<longrightarrow>
     (\<exists>q. W k = Some q \<and> length q = length p \<and> CURR_PGNO q = CURR_PGNO p \<and> NEXT_PGNO q = NEXT_PGNO p \<and>
        PTYPE q = PTYPE p \<and> (1 \<le> NUM_ENT p \<longrightarrow> 1 \<le> NUM_ENT q) \<and>
        (\<forall>a. (k, a) \<in> F \<longrightarrow> a < length p \<longrightarrow> q ! a = p ! a)))"

lemma same_atD:
  assumes "same_at F V W" "V k = Some p" "PTYPE p = ucast HASH_DATA_PAGE"
  obtains q where "W k = Some q" "length q = length p" "CURR_PGNO q = CURR_PGNO p" "NEXT_PGNO q = NEXT_PGNO p"
    "PTYPE q = PTYPE p" "1 \<le> NUM_ENT p \<longrightarrow> 1 \<le> NUM_ENT q" "\<And>a. (k, a) \<in> F \<Longrightarrow> a < length p \<Longrightarrow> q ! a = p ! a"
  using assms unfolding same_at_def by blast

lemma mem_get_eq:
  assumes "length q = length p" "\<And>a. s \<le> a \<Longrightarrow> a < s + n \<Longrightarrow> a < length p \<Longrightarrow> q ! a = p ! a"
  shows "mem_get q s n = mem_get p s n"
  using assms by (intro nth_equalityI) (auto simp: mem_get_def)

lemma mem_get_places:
  assumes "length q = length p" "{n} \<times> {s..<s + k} \<subseteq> F" "\<And>a. (n, a) \<in> F \<Longrightarrow> a < length p \<Longrightarrow> q ! a = p ! a"
  shows "mem_get q s k = mem_get p s k"
  by (rule mem_get_eq [OF assms(1)], rule assms(3), rule subsetD [OF assms(2)]) auto

lemma header_get: "rd_data_header p off = rd_data_header (mem_get p off 20) 0"
  by (simp add: rd_data_header_def rd32_def mem_get_def drop_take min_def add.commute)

lemma data_foot_low: "(k, a) \<in> data_foot V bs n p start len \<Longrightarrow> 32 \<le> start \<Longrightarrow> 32 \<le> a"
proof (induction V bs n p start len rule: data_foot.induct)
  case (1 V bs n p start len)
  show ?case
  proof (cases "start + len \<le> bs \<or> bs \<le> start")
    case True
    then show ?thesis using 1(2,3) by (auto simp: data_foot.simps [of V bs n p] split: if_splits)
  next
    case False
    then show ?thesis using 1 by (auto simp: data_foot.simps [of V bs n p] ffdb_consts split: option.splits)
  qed
qed

lemma datum_foot_low: "(k, a) \<in> datum_foot h V d \<Longrightarrow> 32 \<le> unat (datap_roff h d) \<Longrightarrow> 32 \<le> a"
  using data_foot_low by (fastforce simp: datum_foot_def split: option.splits)

section \<open>What a datum depends on\<close>

lemma data_from_frame:
  assumes "data_from V bs a start len = Some (ns, bytes)" "data_foot V bs n a start len \<subseteq> F" "same_at F V W"
    "V n = Some a" "PTYPE a = ucast HASH_DATA_PAGE" "W n = Some a'"
    "\<And>k. k \<in> set ns \<Longrightarrow> \<exists>q. V k = Some q \<and> PTYPE q = ucast HASH_DATA_PAGE"
  shows "data_from W bs a' start len = Some (ns, bytes) \<and> data_foot W bs n a' start len = data_foot V bs n a start len"
  using assms
proof (induction V bs a start len arbitrary: ns bytes n a' rule: data_from.induct)
  case (1 V bs a start len)
  note A = 1(2-)
  obtain q where "W n = Some q" "length q = length a" "NEXT_PGNO q = NEXT_PGNO a"
    "\<And>i. (n, i) \<in> F \<Longrightarrow> i < length a \<Longrightarrow> q ! i = a ! i" using same_atD [OF A(3-5)] by metis
  then have a': "length a' = length a" "NEXT_PGNO a' = NEXT_PGNO a" "\<And>i. (n, i) \<in> F \<Longrightarrow> i < length a \<Longrightarrow> a' ! i = a ! i"
    using A(6) by auto
  show ?case
  proof (cases "start + len \<le> bs")
    case True
    then have "{n} \<times> {start..<start + len} \<subseteq> F" using A(2) by (simp add: data_foot.simps [of V])
    then have "mem_get a' start len = mem_get a start len" by (rule mem_get_places [OF a'(1) _ a'(3)])
    then show ?thesis
      using A(1) True by (simp add: data_from.simps [of _ bs _ start len] data_foot.simps [of _ bs _ _ start len])
  next
    case False
    then obtain b ns2 rest where b: "\<not> bs \<le> start" "V (NEXT_PGNO a) = Some b"
      "data_from V bs b BIG_PAGE_OVERHEAD (len - (bs - start)) = Some (ns2, rest)"
      "bytes = mem_get a start (bs - start) @ rest" "ns = NEXT_PGNO a # ns2"
      using A(1) by (auto simp: data_from.simps [of V bs a start len] split: if_splits bind_splits)
    have ft: "data_foot V bs n a start len = {n} \<times> {start..<bs} \<union>
        data_foot V bs (NEXT_PGNO a) b BIG_PAGE_OVERHEAD (len - (bs - start))"
      using False b(1,2) by (simp add: data_foot.simps [of V bs n])
    have pb: "PTYPE b = ucast HASH_DATA_PAGE" using A(7) [of "NEXT_PGNO a"] b(2,5) by auto
    obtain b' where b': "W (NEXT_PGNO a) = Some b'" using same_atD [OF A(3) b(2) pb] by metis
    have "data_from W bs b' BIG_PAGE_OVERHEAD (len - (bs - start)) = Some (ns2, rest) \<and>
        data_foot W bs (NEXT_PGNO a) b' BIG_PAGE_OVERHEAD (len - (bs - start)) =
        data_foot V bs (NEXT_PGNO a) b BIG_PAGE_OVERHEAD (len - (bs - start))"
      by (rule 1(1) [OF False b(1,2,3) _ A(3) b(2) pb b']) (use A(2,7) ft b(5) in auto)
    moreover have "mem_get a' start (bs - start) = mem_get a start (bs - start)"
      by (rule mem_get_places [OF a'(1) _ a'(3)]) (use A(2) ft b(1) in auto)
    ultimately show ?thesis
      using False b b' a'(2) ft by (simp add: data_from.simps [of W bs a'] data_foot.simps [of W bs n])
  qed
qed

lemma datum_frame:
  assumes d: "datum h V item d ns v" and F: "datum_foot h V d \<subseteq> F" "same_at F V W"
  shows "datum h W item d ns v \<and> datum_foot h W d = datum_foot h V d"
proof -
  let ?n = "dp_first d" and ?o = "unat (datap_roff h d)"
  obtain a where a: "?n \<noteq> INVALID_PGNO" "V ?n = Some a" "CURR_PGNO a = ?n" "1 \<le> NUM_ENT a" "BIG_PAGE_OVERHEAD \<le> ?o"
    "?o + BIG_DATA_OVERHEAD \<le> bsz h" "data_header_ok h item d (rd_data_header a ?o)"
    "data_from V (bsz h) a (?o + BIG_DATA_OVERHEAD) (datap_len h d) = Some (ns, v)"
    "\<forall>k\<in>insert ?n (set ns). \<exists>q. V k = Some q \<and> PTYPE q = ucast HASH_DATA_PAGE"
    "INVALID_PGNO \<notin> set ns" "0 < datap_len h d" "ffdb_crc32_checksum 0 v = dp_chksum d"
    using d by (auto simp: datum_def)
  have pa: "PTYPE a = ucast HASH_DATA_PAGE" using a(2,9) by auto
  obtain b where b: "W ?n = Some b" "length b = length a" "CURR_PGNO b = CURR_PGNO a" "1 \<le> NUM_ENT a \<longrightarrow> 1 \<le> NUM_ENT b"
    "\<And>i. (?n, i) \<in> F \<Longrightarrow> i < length a \<Longrightarrow> b ! i = a ! i" using same_atD [OF F(2) a(2) pa] by metis
  have ft: "{?n} \<times> {?o..<?o + BIG_DATA_OVERHEAD} \<subseteq> F"
    "data_foot V (bsz h) ?n a (?o + BIG_DATA_OVERHEAD) (datap_len h d) \<subseteq> F" using F(1) a(2) by (auto simp: datum_foot_def)
  note df = data_from_frame [OF a(8) ft(2) F(2) a(2) pa b(1)]
  have df: "data_from W (bsz h) b (?o + BIG_DATA_OVERHEAD) (datap_len h d) = Some (ns, v) \<and>
      data_foot W (bsz h) ?n b (?o + BIG_DATA_OVERHEAD) (datap_len h d) = data_foot V (bsz h) ?n a (?o + BIG_DATA_OVERHEAD) (datap_len h d)"
    by (rule df) (use a(9) in auto)
  have hdr: "mem_get b ?o BIG_DATA_OVERHEAD = mem_get a ?o BIG_DATA_OVERHEAD" by (rule mem_get_places [OF b(2) ft(1) b(5)])
  have "rd_data_header b ?o = rd_data_header a ?o"
    using header_get [of b ?o] header_get [of a ?o] hdr by (simp add: ffdb_consts)
  moreover have "\<forall>k\<in>insert ?n (set ns). \<exists>q. W k = Some q \<and> PTYPE q = ucast HASH_DATA_PAGE"
    using a(9) same_atD [OF F(2)] by metis
  ultimately have "datum h W item d ns v"
    using a(1,3-6,7,10-12) b(1,3,4) df by (simp add: datum_def)
  then show ?thesis using df a(2) b(1) by (simp add: datum_foot_def)
qed

text \<open>A datum is below a position when its places are.\<close>

lemma interval_below:
  fixes s e lim :: nat
  assumes "s < e"
  shows "e \<le> lim \<longleftrightarrow> (\<forall>a. s \<le> a \<and> a < e \<longrightarrow> a < lim)"
proof
  assume "\<forall>a. s \<le> a \<and> a < e \<longrightarrow> a < lim"
  then have "e - 1 < lim" using assms by simp
  then show "e \<le> lim" by simp
qed auto

lemma data_below_foot:
  "data_from V bs p start len = Some (ns, bytes) \<Longrightarrow> 0 < len \<Longrightarrow>
     data_below V bs D lim n p start len \<longleftrightarrow> (\<forall>a. (D, a) \<in> data_foot V bs n p start len \<longrightarrow> a < lim)"
proof (induction V bs p start len arbitrary: ns bytes n rule: data_from.induct)
  case (1 V bs p start len)
  show ?case
  proof (cases "start + len \<le> bs")
    case True
    then have "data_below V bs D lim n p start len \<longleftrightarrow> (n = D \<longrightarrow> start + len \<le> lim)"
      "data_foot V bs n p start len = {n} \<times> {start..<start + len}"
      by (simp_all add: data_below.simps [of V] data_foot.simps [of V])
    moreover have "start + len \<le> lim \<longleftrightarrow> (\<forall>a. start \<le> a \<and> a < start + len \<longrightarrow> a < lim)"
      using 1(3) by (intro interval_below) simp
    ultimately show ?thesis by auto
  next
    case False
    then obtain q ns2 rest where q: "\<not> bs \<le> start" "V (NEXT_PGNO p) = Some q"
      "data_from V bs q BIG_PAGE_OVERHEAD (len - (bs - start)) = Some (ns2, rest)"
      using 1(2) by (auto simp: data_from.simps [of V bs p start len] split: if_splits bind_splits)
    have IH: "data_below V bs D lim (NEXT_PGNO p) q BIG_PAGE_OVERHEAD (len - (bs - start)) \<longleftrightarrow>
        (\<forall>a. (D, a) \<in> data_foot V bs (NEXT_PGNO p) q BIG_PAGE_OVERHEAD (len - (bs - start)) \<longrightarrow> a < lim)"
      using 1(1) [OF False q(1,2,3)] False q(1) by simp
    have "data_below V bs D lim n p start len \<longleftrightarrow> (n = D \<longrightarrow> bs \<le> lim) \<and>
        data_below V bs D lim (NEXT_PGNO p) q BIG_PAGE_OVERHEAD (len - (bs - start))"
      "data_foot V bs n p start len = {n} \<times> {start..<bs} \<union>
        data_foot V bs (NEXT_PGNO p) q BIG_PAGE_OVERHEAD (len - (bs - start))"
      using False q by (simp_all add: data_below.simps [of V] data_foot.simps [of V bs n])
    moreover have "bs \<le> lim \<longleftrightarrow> (\<forall>a. start \<le> a \<and> a < bs \<longrightarrow> a < lim)" using q(1) by (intro interval_below) simp
    ultimately show ?thesis using IH by auto
  qed
qed

lemma datum_below_foot:
  assumes d: "datum h V item d ns v"
  shows "datum_below h V D lim d \<longleftrightarrow> (\<forall>a. (D, a) \<in> datum_foot h V d \<longrightarrow> a < lim)"
proof -
  let ?n = "dp_first d" and ?s = "unat (datap_roff h d) + BIG_DATA_OVERHEAD"
  obtain p where p: "V ?n = Some p" "data_from V (bsz h) p ?s (datap_len h d) = Some (ns, v)" "0 < datap_len h d"
    using d by (auto simp: datum_def)
  have "(?n, ?s) \<in> data_foot V (bsz h) ?n p ?s (datap_len h d)"
    using p(2,3) by (auto simp: data_from.simps [of V] data_foot.simps [of V] split: if_splits)
  moreover have "datum_below h V D lim d \<longleftrightarrow> (\<forall>a. (D, a) \<in> data_foot V (bsz h) ?n p ?s (datap_len h d) \<longrightarrow> a < lim)"
    using data_below_foot [OF p(2,3)] p(1) by (simp add: datum_below_def)
  ultimately show ?thesis using p(1) by (fastforce simp: datum_foot_def)
qed

section \<open>Disjoint data\<close>

text \<open>No place is used by the data of two keys.\<close>

definition disjoint_data :: "htab \<Rightarrow> bool" where
  "disjoint_data h \<longleftrightarrow> (\<forall>x y n i d m j e. x \<noteq> y \<longrightarrow> found h x n i d \<longrightarrow> found h y m j e \<longrightarrow>
     datum_foot h (tview h) d \<inter> datum_foot h (tview h) e = {})"

lemma disjoint_dataD: "disjoint_data h \<Longrightarrow> x \<noteq> y \<Longrightarrow> found h x n i d \<Longrightarrow> found h y m j e \<Longrightarrow>
    datum_foot h (tview h) d \<inter> datum_foot h (tview h) e = {}"
  unfolding disjoint_data_def by blast

lemma datum_foot_same:
  assumes "h_version (hdr h') = h_version (hdr h)" "h_bsize (hdr h') = h_bsize (hdr h)"
  shows "datum_foot h' = datum_foot h"
proof -
  have "after_v5 h' = after_v5 h" "bsz h' = bsz h" using assms by (simp_all add: after_v5_def bsz_def)
  moreover from this have "datap_roff h' = datap_roff h" "datap_len h' = datap_len h"
    by (simp_all add: fun_eq_iff datap_roff_def datap_len_def)
  ultimately show ?thesis by (simp add: fun_eq_iff datum_foot_def cong: option.case_cong)
qed

lemma disjoint_step:
  assumes "db_ok h" "pool_step h h'" "tview h' = tview h" "disjoint_data h"
  shows "disjoint_data h'"
proof -
  have "datum_foot h' = datum_foot h" by (rule datum_foot_same) (simp_all add: pool_step_fields [OF assms(2)])
  moreover have "found h' x n i d \<longleftrightarrow> found h x n i d" for x n i d
    by (simp add: found_def step_pages_iff [OF assms(1-3)])
  ultimately show ?thesis using assms(3,4) by (simp add: disjoint_data_def)
qed

lemma disjoint_count_key: "disjoint_data (count_key h) = disjoint_data h"
proof -
  have "datum_foot (count_key h) = datum_foot h" by (rule datum_foot_same) (simp_all add: count_key_def)
  moreover have "tview (count_key h) = tview h" by (simp add: count_key_def)
  moreover have "found (count_key h) = found h" by (simp add: fun_eq_iff found_def count_key_same)
  ultimately show ?thesis by (simp add: disjoint_data_def)
qed

text \<open>
  A change of the pages that moves one key to new places keeps the data disjoint, if the bytes
  of all others stay and the new places are none of theirs.
\<close>

lemma disjoint_change:
  assumes dis: "disjoint_data h" and st: "pool_step h E"
    and one: "\<And>x n i e. found E x n i e \<Longrightarrow> (if x = kb then e = d else found h x n i e)"
    and foot: "\<And>x n i e. x \<noteq> kb \<Longrightarrow> found h x n i e \<Longrightarrow> datum_foot h (tview E) e = datum_foot h (tview h) e \<and>
      datum_foot h (tview h) e \<inter> datum_foot h (tview E) d = {}"
  shows "disjoint_data E"
proof -
  have S: "datum_foot E = datum_foot h" by (rule datum_foot_same) (simp_all add: pool_step_fields [OF st])
  show ?thesis unfolding disjoint_data_def S
  proof (intro allI impI)
    fix x y n i e m j e'
    assume "x \<noteq> y" and F: "found E x n i e" "found E y m j e'"
    then consider "x = kb" "y \<noteq> kb" | "x \<noteq> kb" "y = kb" | "x \<noteq> kb" "y \<noteq> kb" by blast
    then show "datum_foot h (tview E) e \<inter> datum_foot h (tview E) e' = {}"
    proof cases
      case 1
      then show ?thesis using one [OF F(1)] one [OF F(2)] foot [of y m j e'] by auto
    next
      case 2
      then show ?thesis using one [OF F(1)] one [OF F(2)] foot [of x n i e] by auto
    next
      case 3
      then show ?thesis
        using one [OF F(1)] one [OF F(2)] foot [of x n i e] foot [of y m j e'] disjoint_dataD [OF dis \<open>x \<noteq> y\<close>, of n i e m j e']
        by simp
    qed
  qed
qed

lemma same_at_grown:
  assumes "V D = Some p" "W D = Some q" "grown lim p q" "\<And>j r. V j = Some r \<Longrightarrow> PTYPE r = ucast HASH_DATA_PAGE \<Longrightarrow> j \<noteq> D \<Longrightarrow> W j = V j"
    "\<And>a. (D, a) \<in> F \<Longrightarrow> 28 \<le> a \<and> a < lim"
  shows "same_at F V W"
  unfolding same_at_def
proof (intro allI impI)
  fix k r assume r: "V k = Some r" "PTYPE r = ucast HASH_DATA_PAGE"
  show "\<exists>q. W k = Some q \<and> length q = length r \<and> CURR_PGNO q = CURR_PGNO r \<and> NEXT_PGNO q = NEXT_PGNO r \<and>
        PTYPE q = PTYPE r \<and> (1 \<le> NUM_ENT r \<longrightarrow> 1 \<le> NUM_ENT q) \<and>
        (\<forall>a. (k, a) \<in> F \<longrightarrow> a < length r \<longrightarrow> q ! a = r ! a)"
  proof (cases "k = D")
    case True
    have "q ! a = p ! a" if "(D, a) \<in> F" "a < length p" for a
    proof -
      have "28 \<le> a" "a + 1 \<le> lim" using assms(5) [OF that(1)] by simp_all
      then have "mem_get q a 1 = mem_get p a 1" using assms(3) by (simp add: grown_def)
      then show ?thesis using that(2) assms(3) by (simp add: mem_get_def grown_def take_Suc hd_drop_conv_nth)
    qed
    then show ?thesis using True r assms(1-3) by (intro exI [of _ q]) (simp add: grown_def)
  next
    case False
    then show ?thesis using r assms(4) by simp
  qed
qed

lemma datum_foot_32: "datum h V item d ns v \<Longrightarrow> (k, a) \<in> datum_foot h V d \<Longrightarrow> 32 \<le> a"
  by (rule datum_foot_low) (auto simp: datum_def ffdb_consts)

lemma put_effect_found:
  assumes db: "db_ok h" and put: "put_effect h kb k c E"
  obtains d p c' where "data_page_ok h p" "tview E = (tview h)(curr_dpage h \<mapsto> c', k \<mapsto> c)" "grown (free_from (bsz h) p) p c'"
    "dp_first d = curr_dpage h" "unat (datap_roff h d) = free_from (bsz h) p" "curr_dpage h \<noteq> k"
    "unat (datap_roff h d) + BIG_DATA_OVERHEAD + datap_len h d \<le> bsz h"
    "\<forall>q. tview h k = Some q \<longrightarrow> PTYPE q = ucast HASH_BUCKET_PAGE"
    "\<forall>x n i e. found E x n i e \<longrightarrow> (if x = kb then e = d else found h x n i e)"
proof -
  obtain ps c0 c' d p where P: "pool_step h E" "tview E = (tview h)(curr_dpage h \<mapsto> c', k \<mapsto> c)"
    "data_page_ok h p" "grown (free_from (bsz h) p) p c'" "dp_first d = curr_dpage h"
    "unat (datap_roff h d) = free_from (bsz h) p" "unat (datap_roff h d) + BIG_DATA_OVERHEAD + datap_len h d \<le> bsz h"
    "bucket_pages h kb ps" "first_at kb ps = None" "(k, c0) \<in> set ps" "NEXT_PGNO c0 = INVALID_PGNO"
    "bucket_wf c" "page_pairs c = page_pairs c0 @ [(kb, d)]" "CURR_PGNO c = CURR_PGNO c0" "NEXT_PGNO c = NEXT_PGNO c0"
    "PTYPE c = PTYPE c0" using put by (auto simp: put_effect_def)
  have D: "tview h (curr_dpage h) = Some p" "PTYPE p = ucast HASH_DATA_PAGE" using P(3) by (simp_all add: data_page_ok_def)
  obtain n0 where n0: "chain (tview h) n0 ps" using P(8) by (auto simp: bucket_pages_def bucket_chain_def)
  note C = chain_wf [OF n0 P(10)]
  have num: "page_num c \<noteq> 0" using key_index_append(4) [OF P(13)] by simp
  have first: "first_at x (upd_pages k c ps) = (if x = kb then Some (k, page_num c0, d) else first_at x ps)" for x
    by (rule first_at_update [OF n0 P(10,11,13,9)])
  have "if x = kb then e = d else found h x n i e" if "found E x n i e" for x n i e
    using that pages_change(3) [OF db P(8,10) D P(1,2,12,14,15,16) num first, of x n i e] by (auto split: if_splits)
  moreover have "curr_dpage h \<noteq> k" using C D by (auto simp: ffdb_consts)
  ultimately show thesis using that P(2-7) C by auto
qed

lemma foot_one_page:
  assumes "V (dp_first d) = Some p" "unat (datap_roff h d) + BIG_DATA_OVERHEAD + datap_len h d \<le> bsz h"
  shows "datum_foot h V d = {dp_first d} \<times> {unat (datap_roff h d)..<unat (datap_roff h d) + BIG_DATA_OVERHEAD + datap_len h d}"
proof -
  let ?o = "unat (datap_roff h d)"
  have "data_foot V (bsz h) (dp_first d) p (?o + BIG_DATA_OVERHEAD) (datap_len h d) =
      {dp_first d} \<times> {?o + BIG_DATA_OVERHEAD..<?o + BIG_DATA_OVERHEAD + datap_len h d}"
    by (subst data_foot.simps) (rule if_P [OF assms(2)])
  moreover have "{dp_first d} \<times> {?o..<?o + BIG_DATA_OVERHEAD} \<union> {dp_first d} \<times> {?o + BIG_DATA_OVERHEAD..<?o + BIG_DATA_OVERHEAD + datap_len h d} =
      {dp_first d} \<times> {?o..<?o + BIG_DATA_OVERHEAD + datap_len h d}" by auto
  ultimately show ?thesis by (simp only: datum_foot_def assms(1) option.case)
qed

lemma disjoint_put:
  assumes db: "db_ok h" and dis: "disjoint_data h" and put: "put_effect h kb k c E"
  shows "disjoint_data (count_key E)"
proof -
  obtain d p c' where P: "data_page_ok h p" "tview E = (tview h)(curr_dpage h \<mapsto> c', k \<mapsto> c)" "grown (free_from (bsz h) p) p c'"
    "dp_first d = curr_dpage h" "unat (datap_roff h d) = free_from (bsz h) p" "curr_dpage h \<noteq> k"
    "unat (datap_roff h d) + BIG_DATA_OVERHEAD + datap_len h d \<le> bsz h"
    "\<forall>q. tview h k = Some q \<longrightarrow> PTYPE q = ucast HASH_BUCKET_PAGE"
    "\<forall>x n i e. found E x n i e \<longrightarrow> (if x = kb then e = d else found h x n i e)"
    by (rule put_effect_found [OF db put]) (rule that)
  have st: "pool_step h E" using put by (simp add: put_effect_def)
  let ?D = "curr_dpage h" and ?lim = "free_from (bsz h) p"
  have new: "datum_foot h (tview E) d \<subseteq> {?D} \<times> {?lim..}"
  proof -
    have "tview E (dp_first d) = Some c'" using P(2,4,6) by simp
    then show ?thesis using foot_one_page [OF _ P(7), of "tview E" c'] P(4,5) by auto
  qed
  have "disjoint_data E"
  proof (rule disjoint_change [OF dis st, of kb d])
    show "if x = kb then e = d else found h x n i e" if "found E x n i e" for x n i e using P(9) that by blast
    fix x n i e assume f: "found h x n i e"
    obtain ns v where e: "datum h (tview h) (item_of n i) e ns v" "datum_below h (tview h) ?D ?lim e"
      using db_found [OF db P(1) f] by blast
    have low: "32 \<le> a \<and> a < ?lim" if "(?D, a) \<in> datum_foot h (tview h) e" for a
      using datum_below_foot [OF e(1)] e(2) datum_foot_32 [OF e(1) that] that by blast
    have "same_at (datum_foot h (tview h) e) (tview h) (tview E)"
    proof (rule same_at_grown [where W = "tview E", OF _ _ P(3)])
      show "tview h ?D = Some p" using P(1) by (simp add: data_page_ok_def)
      show "tview E ?D = Some c'" using P(2,6) by simp
      show "28 \<le> a \<and> a < ?lim" if "(?D, a) \<in> datum_foot h (tview h) e" for a using low [OF that] by simp
      show "tview E j = tview h j" if "tview h j = Some r" "PTYPE r = ucast HASH_DATA_PAGE" "j \<noteq> ?D" for j r
        using that P(2) spec [OF P(8), of r] by (cases "j = k") (auto simp: ffdb_consts)
    qed
    then have "datum_foot h (tview E) e = datum_foot h (tview h) e" using datum_frame [OF e(1) subset_refl] by blast
    moreover have "datum_foot h (tview h) e \<inter> datum_foot h (tview E) d = {}"
    proof (rule equals0I)
      fix z assume z: "z \<in> datum_foot h (tview h) e \<inter> datum_foot h (tview E) d"
      then have "fst z = ?D" "?lim \<le> snd z" using new by auto
      then show False using z low [of "snd z"] by (cases z) auto
    qed
    ultimately show "datum_foot h (tview E) e = datum_foot h (tview h) e \<and> datum_foot h (tview h) e \<inter> datum_foot h (tview E) d = {}"
      by blast
  qed
  then show ?thesis by (simp add: disjoint_count_key)
qed

end
