(* ===== verification/FFDB_Scan.thy ===== *)
theory FFDB_Scan
  imports FFDB_Map FFDB_Cursor FFDB_Footprint
begin

text \<open>
  A cursor walks over all pairs of the table: bucket by bucket, page by page along the chain
  of the bucket, pair by pair.
\<close>

section \<open>The places a cursor visits\<close>

type_synonym spot = "pgno \<times> mem \<times> nat"

definition spots :: "pgno \<times> mem \<Rightarrow> spot list" where
  "spots np = map (\<lambda>i. (fst np, snd np, i)) [0..<page_num (snd np)]"

definition chain_spots :: "(pgno \<times> mem) list \<Rightarrow> spot list" where
  "chain_spots ps = concat (map spots ps)"

definition all_spots :: "(pgno \<times> mem) list list \<Rightarrow> spot list" where
  "all_spots Cs = concat (map chain_spots Cs)"

lemma spots_simps [simp]:
  "chain_spots [] = []" "chain_spots (np # ps) = spots np @ chain_spots ps"
  "all_spots [] = []" "all_spots (ps # Cs) = chain_spots ps @ all_spots Cs"
  by (simp_all add: chain_spots_def all_spots_def)

lemma drop_spots:
  assumes "i < page_num p"
  shows "drop i (spots (n, p)) = (n, p, i) # drop (Suc i) (spots (n, p))"
  using assms by (simp add: spots_def drop_map [symmetric] Cons_nth_drop_Suc [symmetric])

text \<open>The chains of the buckets from \<open>B\<close> on; only the first page of a bucket may be empty.\<close>

fun buckets :: "hashhdr \<Rightarrow> (pgno \<Rightarrow> mem option) \<Rightarrow> nat \<Rightarrow> (pgno \<times> mem) list list \<Rightarrow> bool" where
  "buckets H V B [] \<longleftrightarrow> B = Suc (unat (h_max_bucket H))"
| "buckets H V B (ps # Cs) \<longleftrightarrow> (\<exists>n. BUCKET_TO_PAGE H (of_nat B) = Some n \<and> bucket_chain H V n ps) \<and>
     (\<forall>np\<in>set (tl ps). 0 < page_num (snd np)) \<and> buckets H V (Suc B) Cs"

lemma buckets_le: "buckets H V B Cs \<Longrightarrow> B \<le> Suc (unat (h_max_bucket H))"
  by (induction Cs arbitrary: B) fastforce+

lemma buckets_Cons_small:
  assumes "buckets H V B (ps # Cs)"
  shows "B \<le> unat (h_max_bucket H)" "unat (of_nat B :: u32) = B"
proof -
  show B: "B \<le> unat (h_max_bucket H)" using buckets_le [of H V "Suc B" Cs] assms by simp
  have "unat (h_max_bucket H) < 2 ^ 32" using unsigned_less [of "h_max_bucket H", where ?'a = nat] by simp
  then show "unat (of_nat B :: u32) = B" using B by (simp add: unsigned_of_nat take_bit_nat_eq_self)
qed

text \<open>An empty first page is the whole bucket.\<close>

lemma empty_bucket:
  assumes "bucket_chain H V n ps"
  obtains p r where "ps = (n, p) # r" "V n = Some p" "n \<noteq> INVALID_PGNO" "page_num p = 0 \<longrightarrow> r = []"
proof -
  obtain p r where p: "ps = (n, p) # r" "chain V n ((n, p) # r)"
    using assms by (cases ps) (auto simp: bucket_chain_def)
  then have "page_num p = 0 \<longrightarrow> r = []"
    using assms by (auto simp: bucket_chain_def blank_header_def page_num_def unat_eq_0)
  then show thesis using that p by auto
qed

section \<open>Where a cursor stands\<close>

text \<open>
  The cursor stands on pair \<open>i\<close> of page \<open>n\<close>, which is the only page in use; \<open>rest\<close> is what
  is still to come.
\<close>

definition on_spot :: "htab \<Rightarrow> hent \<Rightarrow> spot \<Rightarrow> bool" where
  "on_spot h item s \<longleftrightarrow> (\<exists>b m. it_pagep item = Some b \<and> it_pgno item = fst s \<and> it_pgndx item = of_nat (snd (snd s)) \<and>
     theld h = [b \<mapsto> (fst s, m)] \<and> page_content m = fst (snd s) \<and> page_good (hdr h) m \<and> snd (snd s) < page_num (fst (snd s)))"

definition standing :: "htab \<Rightarrow> hent \<Rightarrow> spot \<Rightarrow> spot list \<Rightarrow> bool" where
  "standing h item s rest \<longleftrightarrow> tsession h {} \<and> on_spot h item s \<and> (\<exists>r Cs B.
     it_bucket item = of_nat B \<and> B \<le> unat (h_max_bucket (hdr h)) \<and>
     chain (tview h) (fst s) ((fst s, fst (snd s)) # r) \<and> (\<forall>np\<in>set r. 0 < page_num (snd np)) \<and>
     buckets (hdr h) (tview h) (Suc B) Cs \<and>
     rest = drop (Suc (snd (snd s))) (spots (fst s, fst (snd s))) @ chain_spots r @ all_spots Cs)"

text \<open>Moving changes neither the pages nor anything but the pool.\<close>

definition same_pages :: "htab \<Rightarrow> htab \<Rightarrow> bool" where
  "same_pages h h' \<longleftrightarrow> tview h' = tview h \<and> pool_step h h'"

lemma same_pages_refl [simp]: "same_pages h h"
  by (simp add: same_pages_def)

lemma same_pages_trans: "same_pages a b \<Longrightarrow> same_pages b c \<Longrightarrow> same_pages a c"
  using pool_step_trans by (auto simp: same_pages_def)

lemma same_pages_hdr: "same_pages h h' \<Longrightarrow> hdr h' = hdr h"
  by (simp add: same_pages_def pool_step_fields)

text \<open>Loading a page when none is in use.\<close>

lemma load_page:
  assumes s: "tsession h {}" "theld h = Map.empty" and v: "tview h n = Some c" "n \<noteq> INVALID_PGNO"
    and ad: "(if addrtype = HASH_BUCKET_PAGE then BUCKET_TO_PAGE (hdr h) addr else Some addr) = Some n"
  shows "\<exists>b m h'. ffdb_get_page h addr addrtype 0 = Some (Some b, n, h') \<and> theld h' = [b \<mapsto> (n, m)] \<and> page_content m = c \<and>
    page_good (hdr h) m \<and> tsession h' {} \<and> same_pages h h' \<and> page_at h' b = Some m"
proof -
  obtain b m h' where g: "ffdb_get_page h addr addrtype 0 = Some (Some b, n, h')" "theld h b = None"
    "theld h' = (theld h)(b \<mapsto> (n, m))" "page_content m = c" "page_good (hdr h) m" "tview h' = tview h"
    "tsession h' {}" "pool_step h h'"
    by (rule get_page_session [OF s(1) _ _ v(1) _ ad, of 0]) (use v(2) s(2) in \<open>simp_all add: INVALID_minus\<close>)
  moreover have "page_at h' b = Some m" by (rule theld_page) (simp add: g(3))
  ultimately show ?thesis using s(2) by (auto simp: same_pages_def)
qed

text \<open>Putting back the only page in use.\<close>

lemma unload_page:
  assumes "tsession h {}" "theld h = [b \<mapsto> (n, m)]" "page_good (hdr h) m"
  shows "\<exists>h'. ffdb_put_page h b False = Some (0, h') \<and> tsession h' {} \<and> theld h' = Map.empty \<and> same_pages h h'"
proof -
  have b: "theld h b = Some (n, m)" using assms(2) by simp
  obtain h' where "ffdb_put_page h b False = Some (0, h')" "tsession h' ({} - {b})" "theld h' = (theld h)(b := None)"
    "tview h' = tview h" "pool_step h h'"
    by (rule put_page_session [OF assms(1) b assms(3), of False]) auto
  then show ?thesis using assms(2) by (auto simp: same_pages_def)
qed

section \<open>Moving the cursor\<close>

abbreviation landed :: "hent \<Rightarrow> nat \<Rightarrow> pgno \<Rightarrow> u32 \<Rightarrow> hent" where
  "landed item b n bucket \<equiv> item\<lparr>it_pagep := Some b, it_bucket := bucket, it_pgno := n, it_pgndx := 0, it_status := ITEM_OK\<rparr>"

lemma empty_page: "page_num (page_content m) = 0 \<longleftrightarrow> NUM_ENT m = 0"
  by (simp add: page_num_def unat_eq_0)

text \<open>Standing on the first pair of a bucket.\<close>

lemma standing_first:
  assumes s: "tsession h {}" and b: "theld h = [b \<mapsto> (n, m)]" "page_good (hdr h) m" "page_num (page_content m) \<noteq> 0"
    and c: "buckets (hdr h) (tview h) B (((n, page_content m) # r) # Cs)"
  shows "standing h (landed item b n (of_nat B)) (n, page_content m, 0)
    (drop (Suc 0) (spots (n, page_content m)) @ chain_spots r @ all_spots Cs)"
proof -
  have "chain (tview h) n ((n, page_content m) # r)"
    using c by (auto simp: bucket_chain_def)
  moreover have "on_spot h (landed item b n (of_nat B)) (n, page_content m, 0)"
    unfolding on_spot_def using b by (intro exI [of _ b] exI [of _ m]) simp
  ultimately show ?thesis
    using s c buckets_Cons_small(1) [OF c] unfolding standing_def
    by (intro conjI exI [of _ r] exI [of _ Cs] exI [of _ B]) (simp_all del: chain.simps)
qed

lemma spots_first: "page_num p \<noteq> 0 \<Longrightarrow> spots (n, p) = (n, p, 0) # drop (Suc 0) (spots (n, p))"
  using drop_spots [of 0 p n] by simp

text \<open>The outcomes of a scan, by what is left to visit.\<close>

definition scanned :: "htab \<Rightarrow> hent \<Rightarrow> spot list \<Rightarrow> scan option \<Rightarrow> bool" where
  "scanned h item todo r \<longleftrightarrow> (case todo of
     [] \<Rightarrow> (\<exists>bk h'. r = Some (NoMore bk h') \<and> tsession h' {} \<and> theld h' = Map.empty \<and> same_pages h h')
   | s # rest \<Rightarrow> (\<exists>b bk h'. r = Some (AtPage b (fst s) bk h') \<and> standing h' (landed item b (fst s) bk) s rest \<and> same_pages h h'))"

lemma scanned_trans: "same_pages h h1 \<Longrightarrow> scanned h1 item todo r \<Longrightarrow> scanned h item todo r"
  unfolding scanned_def by (cases todo) (auto intro: same_pages_trans)

lemma scan_step_visits:
  assumes "tsession h {}" "theld h = [b \<mapsto> (n, m)]" "page_good (hdr h) m"
    "buckets (hdr h) (tview h) B (((n, page_content m) # r) # Cs)"
  shows "scanned h item (chain_spots ((n, page_content m) # r) @ all_spots Cs)
    (scan_step (h_max_bucket (hdr h)) 1 h b n (of_nat B))"
  using assms
proof (induction Cs arbitrary: h b n m r B)
  case (Nil h b n m r B)
  have p: "page_at h b = Some m" using theld_page [of h b n m] Nil.prems(2) by simp
  have B: "of_nat B = h_max_bucket (hdr h)" using Nil.prems(4) by simp
  obtain h1 where h1: "ffdb_put_page h b False = Some (0, h1)" "tsession h1 {}" "theld h1 = Map.empty" "same_pages h h1"
    using unload_page [OF Nil.prems(1-3)] by blast
  show ?case
  proof (cases "page_num (page_content m) = 0")
    case True
    then have "r = []" using Nil.prems(4) by (auto elim: empty_bucket)
    then show ?thesis
      using True empty_page [of m] p h1 B by (simp add: scanned_def scan_step.simps [of _ _ h] spots_def)
  next
    case False
    then show ?thesis
      using empty_page [of m] p standing_first [OF Nil.prems(1-3) False Nil.prems(4), of item]
      by (subst spots_simps(2), subst spots_first [OF False]) (simp add: scanned_def scan_step.simps [of _ _ h])
  qed
next
  case (Cons ps Cs h b n m r B)
  have p: "page_at h b = Some m" using theld_page [of h b n m] Cons.prems(2) by simp
  show ?case
  proof (cases "page_num (page_content m) = 0")
    case True
    then have r: "r = []" using Cons.prems(4) by (auto elim: empty_bucket)
    have c: "buckets (hdr h) (tview h) (Suc B) (ps # Cs)" using Cons.prems(4) by simp
    obtain k where k: "BUCKET_TO_PAGE (hdr h) (of_nat (Suc B)) = Some k" "bucket_chain (hdr h) (tview h) k ps" using c by auto
    obtain q r' where q: "ps = (k, q) # r'" "tview h k = Some q" "k \<noteq> INVALID_PGNO" using empty_bucket [OF k(2)] .
    obtain h1 where h1: "ffdb_put_page h b False = Some (0, h1)" "tsession h1 {}" "theld h1 = Map.empty" "same_pages h h1"
      using unload_page [OF Cons.prems(1-3)] by blast
    note H1 = same_pages_hdr [OF h1(4)]
    have v1: "tview h1 = tview h" using h1(4) by (simp add: same_pages_def)
    obtain b2 m2 h2 where h2: "ffdb_get_page h1 (of_nat (Suc B)) HASH_BUCKET_PAGE 0 = Some (Some b2, k, h2)" "theld h2 = [b2 \<mapsto> (k, m2)]"
      "page_content m2 = q" "page_good (hdr h1) m2" "tsession h2 {}" "same_pages h1 h2"
      using load_page [OF h1(2,3), of k q HASH_BUCKET_PAGE "of_nat (Suc B)"] q(2,3) k(1) H1 v1 by auto
    note H2 = same_pages_hdr [OF h2(6)]
    have v2: "tview h2 = tview h1" using h2(6) by (simp add: same_pages_def)
    have "scanned h2 item (chain_spots ((k, page_content m2) # r') @ all_spots Cs)
        (scan_step (h_max_bucket (hdr h2)) 1 h2 b2 k (of_nat (Suc B)))"
      by (rule Cons.IH) (use h2 H1 H2 v1 v2 c q(1) in auto)
    moreover have "of_nat B \<noteq> h_max_bucket (hdr h)"
      using buckets_Cons_small [OF Cons.prems(4)] buckets_Cons_small(1) [OF c] by auto
    then have "scan_step (h_max_bucket (hdr h)) 1 h b n (of_nat B) = scan_step (h_max_bucket (hdr h)) 1 h2 b2 k (of_nat (Suc B))"
      using True empty_page [of m] p h1(1) h2(1) by (subst scan_step.simps) (simp add: add.commute)
    ultimately show ?thesis
      using True r q(1) h2(3) H1 H2 by (auto simp: spots_def intro!: scanned_trans [OF same_pages_trans [OF h1(4) h2(6)]])
  next
    case False
    then show ?thesis
      using empty_page [of m] p standing_first [OF Cons.prems(1-3) False Cons.prems(4), of item]
      by (subst spots_simps(2), subst spots_first [OF False]) (simp add: scanned_def scan_step.simps [of _ _ h])
  qed
qed

lemma land_scanned:
  assumes "scanned h item todo sc"
  shows "\<exists>r. sc = Some r \<and> (case todo of
     [] \<Rightarrow> (\<exists>item' h'. land_scan False item r = Some (FFDB_NOT_FOUND, item', h') \<and> it_pagep item' = None \<and>
       tsession h' {} \<and> theld h' = Map.empty \<and> same_pages h h')
   | s # rest \<Rightarrow> (\<exists>item' h'. land_scan False item r = Some (0, item', h') \<and> it_status item' = ITEM_OK \<and>
       standing h' item' s rest \<and> same_pages h h'))"
proof (cases todo)
  case Nil
  then show ?thesis using assms by (auto simp: scanned_def land_scan_def item_no_more_def)
next
  case (Cons s rest)
  then obtain b bk h' where h': "sc = Some (AtPage b (fst s) bk h')" "standing h' (landed item b (fst s) bk) s rest" "same_pages h h'"
    using assms by (auto simp: scanned_def)
  then obtain m where "theld h' = [b \<mapsto> (fst s, m)]" by (auto simp: standing_def on_spot_def)
  then have "page_at h' b = Some m" using theld_page [of h' b "fst s" m] by simp
  then show ?thesis using h' Cons by (auto simp: land_scan_def land_on_def)
qed

text \<open>What a step forward has to achieve.\<close>

definition moved :: "htab \<Rightarrow> spot list \<Rightarrow> (int \<times> hent \<times> htab) option \<Rightarrow> bool" where
  "moved h todo r \<longleftrightarrow> (case todo of
     [] \<Rightarrow> (\<exists>item' h'. r = Some (FFDB_NOT_FOUND, item', h') \<and> it_pagep item' = None \<and>
       tsession h' {} \<and> theld h' = Map.empty \<and> same_pages h h')
   | s # rest \<Rightarrow> (\<exists>item' h'. r = Some (0, item', h') \<and> it_status item' = ITEM_OK \<and> standing h' item' s rest \<and> same_pages h h'))"

lemma moved_trans: "same_pages h h1 \<Longrightarrow> moved h1 todo r \<Longrightarrow> moved h todo r"
  unfolding moved_def by (cases todo) (auto intro: same_pages_trans)

lemma moved_scanned: "scanned h item todo sc \<Longrightarrow> moved h todo (sc \<bind> land_scan False item)"
  using land_scanned [of h item todo sc] by (cases todo) (auto simp: moved_def)

lemma move_next_visits:
  assumes st: "standing h item s rest" and ok: "it_status item = ITEM_OK"
  shows "moved h rest (move_next h item)"
proof -
  obtain n p i where s: "s = (n, p, i)" by (cases s) auto
  obtain r Cs B where st': "tsession h {}" "it_bucket item = of_nat B" "B \<le> unat (h_max_bucket (hdr h))"
    "chain (tview h) n ((n, p) # r)" "\<forall>np\<in>set r. 0 < page_num (snd np)" "buckets (hdr h) (tview h) (Suc B) Cs"
    "rest = drop (Suc i) (spots (n, p)) @ chain_spots r @ all_spots Cs"
    using st by (auto simp: standing_def s)
  obtain b m where at: "it_pagep item = Some b" "it_pgno item = n" "it_pgndx item = of_nat i" "theld h = [b \<mapsto> (n, m)]"
    "page_content m = p" "page_good (hdr h) m" "i < page_num p"
    using st by (auto simp: standing_def on_spot_def s)
  have p: "page_at h b = Some m" using theld_page [of h b n m] at(4) by simp
  have num: "page_num m = page_num p" "unat (NUM_ENT m) = page_num p" using at(5) by (auto simp: page_num_def)
  have ix: "unat (of_nat i :: u16) = i" using unat_index [of i p] at(7) by simp
  have u: "uint (NUM_ENT m) = int (page_num p)" by (simp flip: num(2))
  have nx: "NEXT_PGNO m = NEXT_PGNO p" using at(5) by auto
  have Bw: "unat (of_nat B :: u32) = B"
    using st'(3) unsigned_less [of "h_max_bucket (hdr h)", where ?'a = nat] by (simp add: unsigned_of_nat take_bit_nat_eq_self)
  show ?thesis
  proof (cases "Suc i < page_num p")
    case True
    have d: "drop (Suc i) (spots (n, p)) = (n, p, Suc i) # drop (Suc (Suc i)) (spots (n, p))" by (rule drop_spots [OF True])
    let ?item = "item\<lparr>it_pgndx := it_pgndx item + 1\<rparr>"
    have "on_spot h ?item (n, p, Suc i)" unfolding on_spot_def using at True by (intro exI [of _ b] exI [of _ m]) simp
    then have "standing h ?item (n, p, Suc i) (drop (Suc (Suc i)) (spots (n, p)) @ chain_spots r @ all_spots Cs)"
      unfolding standing_def using st' by (intro conjI exI [of _ r] exI [of _ Cs] exI [of _ B]) (simp_all del: chain.simps)
    moreover have "move_next h item = Some (0, ?item, h)" using True at p ix u by (simp add: move_next_def)
    ultimately show ?thesis using ok by (simp add: moved_def st'(7) d)
  next
    case False
    then have last: "i = page_num p - 1" "int i = int (page_num p) - 1" using at(7) by linarith+
    have none: "drop (Suc i) (spots (n, p)) = []" using False by (simp add: spots_def)
    obtain h1 where h1: "ffdb_put_page h b False = Some (0, h1)" "tsession h1 {}" "theld h1 = Map.empty" "same_pages h h1"
      using unload_page [OF st'(1) at(4,6)] by blast
    note H1 = same_pages_hdr [OF h1(4)]
    have v1: "tview h1 = tview h" using h1(4) by (simp add: same_pages_def)
    show ?thesis
    proof (cases "NEXT_PGNO p = INVALID_PGNO")
      case end_chain: True
      then have r: "r = []" using st'(4) by simp
      show ?thesis
      proof (cases Cs)
        case Nil
        then have "of_nat B = h_max_bucket (hdr h)" using st'(6) by simp
        then have "move_next h item = Some (FFDB_NOT_FOUND, item_no_more item, h1)"
          using at p ix u last nx end_chain h1(1) H1 st'(2) by (simp add: move_next_def Let_def)
        then show ?thesis using h1 none r Nil by (simp add: moved_def st'(7) item_no_more_def)
      next
        case (Cons ps Cs')
        have c: "buckets (hdr h) (tview h) (Suc B) (ps # Cs')" using st'(6) Cons by simp
        obtain k where k: "BUCKET_TO_PAGE (hdr h) (of_nat (Suc B)) = Some k" "bucket_chain (hdr h) (tview h) k ps" using c by auto
        obtain q r' where q: "ps = (k, q) # r'" "tview h k = Some q" "k \<noteq> INVALID_PGNO" using empty_bucket [OF k(2)] .
        obtain b2 m2 h2 where h2: "ffdb_get_page h1 (of_nat (Suc B)) HASH_BUCKET_PAGE 0 = Some (Some b2, k, h2)"
          "theld h2 = [b2 \<mapsto> (k, m2)]" "page_content m2 = q" "page_good (hdr h1) m2" "tsession h2 {}" "same_pages h1 h2"
          using load_page [OF h1(2,3), of k q HASH_BUCKET_PAGE "of_nat (Suc B)"] q(2,3) k(1) H1 v1 by auto
        note H2 = same_pages_hdr [OF h2(6)]
        have v2: "tview h2 = tview h1" using h2(6) by (simp add: same_pages_def)
        have "\<not> h_max_bucket (hdr h) \<le> of_nat B"
          using buckets_Cons_small(1) [OF c] Bw by (simp add: word_le_nat_alt)
        then have "move_next h item = (scan_step (h_max_bucket (hdr h2)) 1 h2 b2 k (of_nat (Suc B)) \<bind>
            land_scan False item)"
          using at p ix u last nx end_chain h1(1) H1 H2 st'(2) h2(1) by (simp add: move_next_def Let_def add.commute)
        moreover have "scanned h2 item (chain_spots ((k, page_content m2) # r') @ all_spots Cs')
            (scan_step (h_max_bucket (hdr h2)) 1 h2 b2 k (of_nat (Suc B)))"
          by (rule scan_step_visits) (use h2 H1 H2 v1 v2 c q(1) in auto)
        ultimately have "moved h2 rest (move_next h item)"
          using moved_scanned h2(3) none r Cons q(1) by (simp add: st'(7))
        then show ?thesis by (rule moved_trans [OF same_pages_trans [OF h1(4) h2(6)]])
      qed
    next
      case False
      then obtain q r' where q: "r = (NEXT_PGNO p, q) # r'" "tview h (NEXT_PGNO p) = Some q" "chain (tview h) (NEXT_PGNO p) r"
        using st'(4) by (cases r) auto
      obtain b2 m2 h2 where h2: "ffdb_get_page h1 (NEXT_PGNO p) HASH_RAW_PAGE 0 = Some (Some b2, NEXT_PGNO p, h2)"
        "theld h2 = [b2 \<mapsto> (NEXT_PGNO p, m2)]" "page_content m2 = q" "page_good (hdr h1) m2" "tsession h2 {}" "same_pages h1 h2"
        "page_at h2 b2 = Some m2"
        using load_page [OF h1(2,3), of "NEXT_PGNO p" q HASH_RAW_PAGE "NEXT_PGNO p"] q(2) False v1 by (auto simp: ffdb_consts)
      note H2 = same_pages_hdr [OF h2(6)]
      have v2: "tview h2 = tview h1" using h2(6) by (simp add: same_pages_def)
      let ?item = "landed item b2 (NEXT_PGNO p) (it_bucket item)"
      have q0: "page_num q \<noteq> 0" using st'(5) q(1) by auto
      have "on_spot h2 ?item (NEXT_PGNO p, q, 0)"
        unfolding on_spot_def using h2 H1 H2 q0 by (intro exI [of _ b2] exI [of _ m2]) simp
      then have "standing h2 ?item (NEXT_PGNO p, q, 0) (drop (Suc 0) (spots (NEXT_PGNO p, q)) @ chain_spots r' @ all_spots Cs)"
        unfolding standing_def using st' h2(5) v1 v2 H1 H2 q
        by (intro conjI exI [of _ r'] exI [of _ Cs] exI [of _ B]) (simp_all del: chain.simps)
      moreover have "move_next h item = Some (0, ?item, h2)"
        using at p ix u last nx False h1(1) h2(1,7) by (simp add: move_next_def Let_def land_on_def)
      moreover have "rest = (NEXT_PGNO p, q, 0) # drop (Suc 0) (spots (NEXT_PGNO p, q)) @ chain_spots r' @ all_spots Cs"
        unfolding st'(7) none q(1) spots_simps(2) append_Nil append_assoc by (subst spots_first [OF q0]) simp
      ultimately show ?thesis
        using same_pages_trans [OF h1(4) h2(6)] by (simp add: moved_def)
    qed
  qed
qed

text \<open>
  The first move. A table without any pair is not covered: there the loop of
  \<open>FFDB_FIRST\<close> looks at a page after the last bucket.
\<close>

lemma scan_first_visits:
  assumes "tsession h {}" "theld h = [b \<mapsto> (n, m)]" "page_good (hdr h) m"
    "buckets (hdr h) (tview h) B (((n, page_content m) # r) # Cs)"
    "chain_spots ((n, page_content m) # r) @ all_spots Cs \<noteq> []"
  shows "scanned h item (chain_spots ((n, page_content m) # r) @ all_spots Cs) (scan_first h b n (of_nat B))"
  using assms
proof (induction Cs arbitrary: h b n m r B)
  case (Nil h b n m r B)
  have p: "page_at h b = Some m" using theld_page [of h b n m] Nil.prems(2) by simp
  have B: "\<not> h_max_bucket (hdr h) < of_nat B" using Nil.prems(4) by simp
  have n0: "page_num (page_content m) \<noteq> 0"
    using Nil.prems(4,5) by (auto simp: spots_def elim: empty_bucket)
  then show ?case
    using empty_page [of m] p B standing_first [OF Nil.prems(1-3) n0 Nil.prems(4), of item]
    by (subst spots_simps(2), subst spots_first [OF n0]) (simp add: scanned_def scan_first.simps [of h])
next
  case (Cons ps Cs h b n m r B)
  have p: "page_at h b = Some m" using theld_page [of h b n m] Cons.prems(2) by simp
  have Ble: "of_nat B \<le> h_max_bucket (hdr h)"
    using buckets_Cons_small [OF Cons.prems(4)] by (simp add: word_le_nat_alt)
  then have Bge: "\<not> h_max_bucket (hdr h) < of_nat B" by simp
  show ?case
  proof (cases "page_num (page_content m) = 0")
    case True
    then have r: "r = []" using Cons.prems(4) by (auto elim: empty_bucket)
    have c: "buckets (hdr h) (tview h) (Suc B) (ps # Cs)" using Cons.prems(4) by simp
    obtain k where k: "BUCKET_TO_PAGE (hdr h) (of_nat (Suc B)) = Some k" "bucket_chain (hdr h) (tview h) k ps" using c by auto
    obtain q r' where q: "ps = (k, q) # r'" "tview h k = Some q" "k \<noteq> INVALID_PGNO" using empty_bucket [OF k(2)] .
    obtain h1 where h1: "ffdb_put_page h b False = Some (0, h1)" "tsession h1 {}" "theld h1 = Map.empty" "same_pages h h1"
      using unload_page [OF Cons.prems(1-3)] by blast
    note H1 = same_pages_hdr [OF h1(4)]
    have v1: "tview h1 = tview h" using h1(4) by (simp add: same_pages_def)
    obtain b2 m2 h2 where h2: "ffdb_get_page h1 (of_nat (Suc B)) HASH_BUCKET_PAGE 0 = Some (Some b2, k, h2)" "theld h2 = [b2 \<mapsto> (k, m2)]"
      "page_content m2 = q" "page_good (hdr h1) m2" "tsession h2 {}" "same_pages h1 h2"
      using load_page [OF h1(2,3), of k q HASH_BUCKET_PAGE "of_nat (Suc B)"] q(2,3) k(1) H1 v1 by auto
    note H2 = same_pages_hdr [OF h2(6)]
    have v2: "tview h2 = tview h1" using h2(6) by (simp add: same_pages_def)
    have ne: "chain_spots ((k, page_content m2) # r') @ all_spots Cs \<noteq> []"
      using Cons.prems(5) True r q(1) h2(3) by (simp add: spots_def)
    have "scanned h2 item (chain_spots ((k, page_content m2) # r') @ all_spots Cs) (scan_first h2 b2 k (of_nat (Suc B)))"
      by (rule Cons.IH [OF _ _ _ _ ne]) (use h2 H1 H2 v1 v2 c q(1) in auto)
    moreover have "scan_first h b n (of_nat B) = scan_first h2 b2 k (of_nat (Suc B))"
      using True empty_page [of m] p h1(1) h2(1) Ble by (subst scan_first.simps) (simp add: add.commute)
    ultimately show ?thesis
      using True r q(1) h2(3) by (auto simp: spots_def intro!: scanned_trans [OF same_pages_trans [OF h1(4) h2(6)]])
  next
    case False
    then show ?thesis
      using empty_page [of m] p Bge standing_first [OF Cons.prems(1-3) False Cons.prems(4), of item]
      by (subst spots_simps(2), subst spots_first [OF False]) (simp add: scanned_def scan_first.simps [of h])
  qed
qed

lemma move_first_visits:
  assumes s: "tsession h {}" "theld h = Map.empty" and c: "buckets (hdr h) (tview h) 0 Cs" "all_spots Cs \<noteq> []"
    and item: "it_pagep item = None"
  shows "moved h (all_spots Cs) (move_first h item)"
proof -
  obtain ps Cs' where Cs: "Cs = ps # Cs'" using c(2) by (cases Cs) auto
  obtain k where k: "BUCKET_TO_PAGE (hdr h) 0 = Some k" "bucket_chain (hdr h) (tview h) k ps" using c(1) Cs by auto
  obtain q r where q: "ps = (k, q) # r" "tview h k = Some q" "k \<noteq> INVALID_PGNO" using empty_bucket [OF k(2)] .
  obtain b m h1 where h1: "ffdb_get_page h 0 HASH_BUCKET_PAGE 0 = Some (Some b, k, h1)" "theld h1 = [b \<mapsto> (k, m)]"
    "page_content m = q" "page_good (hdr h) m" "tsession h1 {}" "same_pages h h1"
    using load_page [OF s, of k q HASH_BUCKET_PAGE 0] q(2,3) k(1) by auto
  have v: "tview h1 = tview h" "hdr h1 = hdr h" using h1(6) same_pages_hdr by (auto simp: same_pages_def)
  have "scanned h1 item (chain_spots ((k, page_content m) # r) @ all_spots Cs') (scan_first h1 b k (of_nat 0))"
    by (rule scan_first_visits) (use h1 c v Cs q(1) in auto)
  then have sc: "scanned h1 item (all_spots Cs) (scan_first h1 b k 0)" using h1(3) Cs q(1) by simp
  have "moved h1 (all_spots Cs) (move_first h item)"
  proof (cases "all_spots Cs")
    case (Cons s rest)
    then obtain b2 bk h2 where "scan_first h1 b k 0 = Some (AtPage b2 (fst s) bk h2)" "standing h2 (landed item b2 (fst s) bk) s rest"
      "same_pages h1 h2" using sc by (auto simp: scanned_def)
    then show ?thesis using Cons item h1(1) by (simp add: moved_def move_first_def item_release_def)
  qed (use c(2) in simp)
  then show ?thesis by (rule moved_trans [OF h1(6)])
qed

section \<open>Delivering pairs\<close>

text \<open>The key and the data that belong to a place.\<close>

definition spot_key :: "spot \<Rightarrow> mem" where
  "spot_key s = (case s of (n, p, i) \<Rightarrow> fst (page_pair p i))"

definition spot_datum :: "htab \<Rightarrow> spot \<Rightarrow> mem \<Rightarrow> bool" where
  "spot_datum h s v \<longleftrightarrow> (case s of (n, p, i) \<Rightarrow> \<exists>ns. datum h (tview h) (item_of n i) (snd (page_pair p i)) ns v)"

definition buf_of :: "mem \<Rightarrow> valbuf" where
  "buf_of bs = \<lparr>v_data = Some bs, v_size = int (length bs)\<rparr>"

text \<open>The cursor will deliver the pairs of these places.\<close>

definition delivers :: "htab \<Rightarrow> crs \<Rightarrow> spot list \<Rightarrow> bool" where
  "delivers h c todo \<longleftrightarrow> c_type c = FFDB_KEY_CURSOR \<and>
     moved h todo (move_item h (c_item c) (if it_status (c_item c) = ITEM_CLEAN then FFDB_FIRST else FFDB_NEXT))"

lemma cursor_flags: "FFDB_NEXT \<noteq> FFDB_FIRST" "FFDB_NEXT \<noteq> FFDB_LAST" "FFDB_NEXT \<in> {FFDB_FIRST, FFDB_LAST, FFDB_NEXT, FFDB_PREV}"
  "ITEM_OK \<noteq> ITEM_CLEAN" "FFDB_PREV \<noteq> FFDB_NEXT"
  by (simp_all add: ffdb_consts)

lemma delivers_first:
  assumes "tsession h {}" "theld h = Map.empty" "buckets (hdr h) (tview h) 0 Cs" "all_spots Cs \<noteq> []"
  shows "delivers h \<lparr>c_item = empty_item, c_type = FFDB_KEY_CURSOR\<rparr> (all_spots Cs)"
proof -
  have "move_item h empty_item FFDB_FIRST = move_first h empty_item" by (simp add: move_item_def)
  then show ?thesis
    using move_first_visits [OF assms, of empty_item] by (simp add: delivers_def empty_item_def)
qed

lemma standing_item:
  assumes "standing h item s rest" "it_pagep item' = it_pagep item" "it_pgno item' = it_pgno item" "it_pgndx item' = it_pgndx item"
    "it_bucket item' = it_bucket item"
  shows "standing h item' s rest"
  using assms(1) unfolding standing_def on_spot_def assms(2-5) .

lemma standing_same:
  assumes st: "standing h item s rest" and sm: "same_pages h h'" and s: "tsession h' {}" and held: "theld h' = theld h"
  shows "standing h' item s rest"
proof -
  have e: "hdr h' = hdr h" "tview h' = tview h" using sm same_pages_hdr by (auto simp: same_pages_def)
  show ?thesis using st s unfolding standing_def on_spot_def e held by blast
qed

lemma standing_delivers:
  assumes "standing h item s rest" "it_status item = ITEM_OK" "c_item c = item" "c_type c = FFDB_KEY_CURSOR"
  shows "delivers h c rest"
  using move_next_visits [OF assms(1,2)] assms(2-4) cursor_flags
  by (simp add: delivers_def move_item_def)

lemma read_key:
  assumes "bucket_wf m" "i < page_num m"
  shows "copy_key m i no_buffer = Some (0, buf_of (fst (page_pair m i)))"
proof -
  note r = bucket_wf_reads [OF assms]
  have l: "length (mem_get m (unat (KEY_OFF m i)) (unat (KEY_LEN m i))) = unat (KEY_LEN m i)" using r(4) by simp
  have w: "mem_write (fresh_block n) 0 bs = Some bs" if "length bs = n" for n bs
    using that by (simp add: mem_write_def mem_put_def fresh_block_def)
  show ?thesis
    using r(4) w [OF l] l by (simp add: copy_key_def no_buffer_def mem_read_def buf_of_def page_pair_def)
qed

text \<open>A step that finds a pair, with the data or the key only.\<close>

lemma cursor_get_pair:
  assumes d: "delivers h c (s # rest)" and v: "spot_datum h s v"
  shows "\<exists>c' h'. ffdb_cursor_get h c no_buffer (Some no_buffer) FFDB_NEXT = Some (0, c', buf_of (spot_key s), Some (buf_of v), h') \<and>
      delivers h' c' rest \<and> same_pages h h' \<and> standing h' (c_item c') s rest"
    and "\<exists>c' h'. ffdb_cursor_get h c no_buffer None FFDB_NEXT = Some (0, c', buf_of (spot_key s), None, h') \<and>
      delivers h' c' rest \<and> same_pages h h'"
proof -
  obtain n p i where s: "s = (n, p, i)" by (cases s) auto
  let ?fl = "if it_status (c_item c) = ITEM_CLEAN then FFDB_FIRST else FFDB_NEXT"
  obtain item h1 where mv: "move_item h (c_item c) ?fl = Some (0, item, h1)" "it_status item = ITEM_OK" "standing h1 item s rest"
    "same_pages h h1" using d by (auto simp: delivers_def moved_def)
  obtain r where ss: "tsession h1 {}" "chain (tview h1) n ((n, p) # r)" using mv(3) by (auto simp: standing_def s)
  obtain b m where at: "it_pagep item = Some b" "it_pgno item = n" "it_pgndx item = of_nat i" "theld h1 = [b \<mapsto> (n, m)]"
    "page_content m = p" "page_good (hdr h1) m" "i < page_num p"
    using mv(3) by (auto simp: standing_def on_spot_def s)
  have pg: "page_at h1 b = Some m" using theld_page [of h1 b n m] at(4) by simp
  have m: "bucket_wf m" "i < page_num m" "PTYPE m = ucast HASH_BUCKET_PAGE" using ss(2) at(5,7) by auto
  have ix: "unat (of_nat i :: u16) = i" using unat_index [of i p] at(7) by simp
  have pp: "page_pair p i = page_pair m i" using content_pair [OF m(1,2)] at(5) by simp
  have key: "copy_key m i no_buffer = Some (0, buf_of (spot_key s))" using read_key [OF m(1,2)] by (simp add: s spot_key_def pp)
  have tp: "c_type c = FFDB_KEY_CURSOR" using d by (simp add: delivers_def)
  let ?item = "item\<lparr>it_status := ITEM_OK, it_key_off := KEY_OFF m i, it_key_len := KEY_LEN m i, it_data_off := DATAP_OFF m i\<rparr>"
  have st: "standing h1 ?item s rest" by (rule standing_item [OF mv(3)]) simp_all
  obtain ns where "datum h (tview h) (item_of n i) (snd (page_pair m i)) ns v" using v by (auto simp: spot_datum_def s pp)
  moreover have "datum h1 = datum h" "tview h1 = tview h"
    using mv(4) datum_same(1) [of h1 h] pool_step_fields by (auto simp: same_pages_def)
  ultimately have dat: "datum h1 (tview h1) ?item (snd (page_pair m i)) ns v"
    using datum_item [of ?item "item_of n i"] at(2,3) by (simp add: item_of_def)
  obtain h2 where h2: "ffdb_get_item h1 no_buffer ?item False = Some (0, buf_of v, h2)" "tview h2 = tview h1" "theld h2 = theld h1"
    "tsession h2 {}" "pool_step h1 h2"
    using get_item_reads [where buf = no_buffer and rel = False, OF ss(1) _ _ _ at(6) m _ _ _ dat, of b] at(1-4)
    by (auto simp: room_for_def own_buffer_def no_buffer_def buf_of_def)
  have sm: "same_pages h1 h2" using h2(2,5) by (simp add: same_pages_def)
  have st2: "standing h2 ?item s rest" by (rule standing_same [OF st sm h2(4,3)])
  have "ffdb_cursor_get h c no_buffer (Some no_buffer) FFDB_NEXT = Some (0, c\<lparr>c_item := ?item\<rparr>, buf_of (spot_key s), Some (buf_of v), h2)"
    using mv(1) key h2(1) at(1,3) ix pg tp cursor_flags
    by (cases "it_status (c_item c) = ITEM_CLEAN") (simp_all add: ffdb_cursor_get_def ffdb_cursor_find_by_key_def Let_def)
  then show "\<exists>c' h'. ffdb_cursor_get h c no_buffer (Some no_buffer) FFDB_NEXT = Some (0, c', buf_of (spot_key s), Some (buf_of v), h') \<and>
      delivers h' c' rest \<and> same_pages h h' \<and> standing h' (c_item c') s rest"
    using standing_delivers [OF st2] st2 tp same_pages_trans [OF mv(4) sm] by simp
  have "ffdb_cursor_get h c no_buffer None FFDB_NEXT = Some (0, c\<lparr>c_item := item\<rparr>, buf_of (spot_key s), None, h1)"
    using mv(1) key at(1,3) ix pg tp cursor_flags
    by (cases "it_status (c_item c) = ITEM_CLEAN") (simp_all add: ffdb_cursor_get_def ffdb_cursor_find_by_key_def Let_def)
  then show "\<exists>c' h'. ffdb_cursor_get h c no_buffer None FFDB_NEXT = Some (0, c', buf_of (spot_key s), None, h') \<and>
      delivers h' c' rest \<and> same_pages h h'"
    using standing_delivers [OF mv(3,2)] tp mv(4) by simp
qed

text \<open>After the last pair.\<close>

lemma cursor_get_end:
  assumes "delivers h c []"
  shows "\<exists>c' h'. ffdb_cursor_get h c no_buffer data FFDB_NEXT = Some (FFDB_NOT_FOUND, c', no_buffer, data, h') \<and>
    ffdb_cursor_close h' c' = Some (0, h') \<and> tsession h' {} \<and> theld h' = Map.empty \<and> same_pages h h'"
proof -
  let ?fl = "if it_status (c_item c) = ITEM_CLEAN then FFDB_FIRST else FFDB_NEXT"
  obtain item h1 where mv: "move_item h (c_item c) ?fl = Some (FFDB_NOT_FOUND, item, h1)" "it_pagep item = None" "tsession h1 {}"
    "theld h1 = Map.empty" "same_pages h h1" using assms by (auto simp: delivers_def moved_def)
  have "ffdb_cursor_get h c no_buffer data FFDB_NEXT = Some (FFDB_NOT_FOUND, c\<lparr>c_item := item\<rparr>, no_buffer, data, h1)"
    using mv(1) assms cursor_flags
    by (cases "it_status (c_item c) = ITEM_CLEAN")
      (simp_all add: ffdb_cursor_get_def ffdb_cursor_find_by_key_def Let_def delivers_def FFDB_NOT_FOUND_def)
  moreover have "ffdb_cursor_close h1 (c\<lparr>c_item := item\<rparr>) = Some (0, h1)"
    using mv(2) by (simp add: ffdb_cursor_close_def item_release_def)
  ultimately show ?thesis using mv(3-5) by blast
qed

section \<open>All pairs\<close>

text \<open>
  A tidy table: the chains of all buckets, every key in its own bucket, no key and no page twice; every
  key hashes to a bucket of the table, as it does when the masks are consistent.
\<close>

fun placed :: "htab \<Rightarrow> nat \<Rightarrow> (pgno \<times> mem) list list \<Rightarrow> bool" where
  "placed h B [] \<longleftrightarrow> True"
| "placed h B (ps # Cs) \<longleftrightarrow> (\<forall>s\<in>set (chain_spots ps). bucket_of h (spot_key s) = of_nat B) \<and> placed h (Suc B) Cs"

definition tidy :: "htab \<Rightarrow> (pgno \<times> mem) list list \<Rightarrow> bool" where
  "tidy h Cs \<longleftrightarrow> buckets (hdr h) (tview h) 0 Cs \<and> placed h 0 Cs \<and> distinct (map spot_key (all_spots Cs)) \<and>
     distinct (map fst (concat Cs)) \<and> (\<forall>k. bucket_of h k \<le> h_max_bucket (hdr h))"

lemma spot_keys: "map spot_key (spots (n, p)) = page_keys p"
  by (simp add: spots_def spot_key_def page_keys_def page_pairs_def)

lemma key_index_distinct:
  assumes "distinct (page_keys p)" "i < page_num p"
  shows "key_index (page_keys p ! i) p = Some i"
proof -
  have "page_keys p ! j \<noteq> page_keys p ! i" if "j < i" for j
    using assms that by (simp add: nth_eq_iff_index_eq)
  then show ?thesis using assms(2) by (simp add: key_index_def find_upt)
qed

lemma key_index_None: "key_index k p = None \<longleftrightarrow> k \<notin> set (page_keys p)"
  by (auto simp: key_index_def find_None_iff in_set_conv_nth)

lemma first_at_spot:
  assumes "distinct (map spot_key (chain_spots ps))" "(n, p, i) \<in> set (chain_spots ps)"
  shows "first_at (spot_key (n, p, i)) ps = Some (n, i, snd (page_pair p i))"
  using assms
proof (induction ps)
  case (Cons a r)
  obtain k q where a: "a = (k, q)" by fastforce
  have d: "distinct (page_keys q)" "distinct (map spot_key (chain_spots r))"
    "set (page_keys q) \<inter> set (map spot_key (chain_spots r)) = {}"
    using Cons.prems(1) spot_keys [of k q] by (auto simp: a)
  show ?case
  proof (cases "(n, p, i) \<in> set (spots (k, q))")
    case True
    then have e: "n = k" "p = q" "i < page_num q" by (auto simp: spots_def)
    have "spot_key (n, p, i) = page_keys q ! i"
      using e by (simp add: spot_key_def page_keys_def page_pairs_def)
    then show ?thesis using key_index_distinct [OF d(1) e(3)] e a by simp
  next
    case False
    then have m: "(n, p, i) \<in> set (chain_spots r)" using Cons.prems(2) a by auto
    then have "spot_key (n, p, i) \<notin> set (page_keys q)" using d(3) by (auto simp: disjoint_iff)
    then have "key_index (spot_key (n, p, i)) q = None" by (simp add: key_index_None)
    then show ?thesis using Cons.IH [OF d(2) m] a by simp
  qed
qed simp

lemma first_at_in_chain: "first_at k ps = Some (n, i, d) \<Longrightarrow>
    \<exists>p. (n, p, i) \<in> set (chain_spots ps) \<and> spot_key (n, p, i) = k \<and> d = snd (page_pair p i)"
proof (induction ps)
  case (Cons a r)
  obtain j q where a: "a = (j, q)" by fastforce
  show ?case
  proof (cases "key_index k q")
    case None
    then show ?thesis using Cons a by auto
  next
    case (Some l)
    then have "l < page_num q" "page_keys q ! l = k" using key_index_Some by auto
    then show ?thesis
      using Cons.prems Some a by (intro exI [of _ q]) (auto simp: spots_def spot_key_def page_keys_def page_pairs_def)
  qed
qed simp

lemma placed_bucket:
  assumes "buckets H V B Cs" "placed h B Cs" "s \<in> set (all_spots Cs)"
  shows "\<exists>j ps n. B \<le> j \<and> j \<le> unat (h_max_bucket H) \<and> ps \<in> set Cs \<and> s \<in> set (chain_spots ps) \<and> bucket_of h (spot_key s) = of_nat j \<and>
    BUCKET_TO_PAGE H (of_nat j) = Some n \<and> bucket_chain H V n ps"
  using assms
proof (induction Cs arbitrary: B)
  case (Cons ps Cs)
  show ?case
  proof (cases "s \<in> set (chain_spots ps)")
    case True
    then show ?thesis using Cons.prems buckets_Cons_small(1) [OF Cons.prems(1)] by auto
  next
    case False
    then obtain j qs n where "Suc B \<le> j" "j \<le> unat (h_max_bucket H)" "qs \<in> set Cs" "s \<in> set (chain_spots qs)"
      "bucket_of h (spot_key s) = of_nat j" "BUCKET_TO_PAGE H (of_nat j) = Some n" "bucket_chain H V n qs"
      using Cons.IH [of "Suc B"] Cons.prems by auto
    then show ?thesis by (intro exI [of _ j] exI [of _ qs] exI [of _ n]) simp
  qed
qed simp

lemma buckets_cover:
  assumes "buckets H V B Cs" "B \<le> j" "j \<le> unat (h_max_bucket H)"
  shows "\<exists>ps n. ps \<in> set Cs \<and> BUCKET_TO_PAGE H (of_nat j) = Some n \<and> bucket_chain H V n ps"
  using assms
proof (induction Cs arbitrary: B)
  case (Cons ps Cs)
  show ?case
  proof (cases "j = B")
    case True
    then show ?thesis using Cons.prems(1) by auto
  next
    case False
    then obtain qs n where "qs \<in> set Cs" "BUCKET_TO_PAGE H (of_nat j) = Some n" "bucket_chain H V n qs"
      using Cons.IH [of "Suc B"] Cons.prems by auto
    then show ?thesis by auto
  qed
qed simp

lemma concat_distinct: "distinct (map f (concat xss)) \<Longrightarrow> xs \<in> set xss \<Longrightarrow> distinct (map f xs)"
  by (induction xss) auto

text \<open>In a tidy table every place is where its key is found, and has a datum.\<close>

lemma tidy_spot:
  assumes r: "represents h f" and t: "tidy h Cs" and s: "s \<in> set (all_spots Cs)"
  shows "\<exists>v. spot_datum h s v \<and> f (spot_key s) = Some v"
proof -
  obtain n p i where e: "s = (n, p, i)" by (cases s) auto
  have db: "db_ok h" using r by (simp add: represents_def)
  have T: "buckets (hdr h) (tview h) 0 Cs" "placed h 0 Cs" "distinct (map spot_key (all_spots Cs))" using t by (simp_all add: tidy_def)
  obtain j ps k where ps: "ps \<in> set Cs" "s \<in> set (chain_spots ps)" "bucket_of h (spot_key s) = of_nat j"
    "BUCKET_TO_PAGE (hdr h) (of_nat j) = Some k" "bucket_chain (hdr h) (tview h) k ps"
    using placed_bucket [OF T(1,2) s] by blast
  obtain qs where "bucket_pages h (spot_key s) qs" using db unfolding db_ok_def by meson
  then have bp: "bucket_pages h (spot_key s) ps" using ps(3-5) by (auto simp: bucket_pages_def)
  have "distinct (map spot_key (chain_spots ps))"
    by (rule concat_distinct [of _ "map chain_spots Cs"]) (use T(3) ps(1) in \<open>simp_all add: all_spots_def\<close>)
  then have fa: "first_at (spot_key s) ps = Some (n, i, snd (page_pair p i))" using first_at_spot ps(2) e by blast
  have "f (spot_key s) \<noteq> None"
  proof
    assume "f (spot_key s) = None"
    then have "absent h (spot_key s)" using r unfolding represents_def by (metis option.simps(4))
    then obtain qs where "bucket_pages h (spot_key s) qs" "first_at (spot_key s) qs = None" by (auto simp: absent_def)
    then show False using fa bucket_pages_unique [OF bp] by auto
  qed
  then obtain v where v: "f (spot_key s) = Some v" by auto
  then have "stored h (spot_key s) v" using r unfolding represents_def by (metis option.simps(5))
  then obtain ns where "datum h (tview h) (item_of n i) (snd (page_pair p i)) ns v"
    using bp fa bucket_pages_unique unfolding stored_def by (metis Pair_inject option.inject)
  then show ?thesis using v by (auto simp: spot_datum_def e)
qed

text \<open>Every key of the map has a place.\<close>

lemma tidy_complete:
  assumes r: "represents h f" and t: "tidy h Cs" and k: "f k = Some v"
  shows "k \<in> spot_key ` set (all_spots Cs)"
proof -
  have T: "buckets (hdr h) (tview h) 0 Cs" "bucket_of h k \<le> h_max_bucket (hdr h)" using t by (simp_all add: tidy_def)
  have "stored h k v" using r k unfolding represents_def by (metis option.simps(5))
  then obtain ps n i d where ps: "bucket_pages h k ps" "first_at k ps = Some (n, i, d)" by (auto simp: stored_def)
  then obtain m where m: "BUCKET_TO_PAGE (hdr h) (bucket_of h k) = Some m" "bucket_chain (hdr h) (tview h) m ps"
    by (auto simp: bucket_pages_def)
  have j: "unat (bucket_of h k) \<le> unat (h_max_bucket (hdr h))" "of_nat (unat (bucket_of h k)) = bucket_of h k"
    using T(2) by (simp_all add: word_le_nat_alt)
  then obtain qs l where q: "qs \<in> set Cs" "BUCKET_TO_PAGE (hdr h) (bucket_of h k) = Some l" "bucket_chain (hdr h) (tview h) l qs"
    using buckets_cover [OF T(1), of "unat (bucket_of h k)"] by auto
  have "qs = ps" using m q(2,3) by (auto simp: bucket_chain_def dest: chain_unique)
  then show ?thesis using first_at_in_chain [OF ps(2)] q(1) by (force simp: all_spots_def)
qed

text \<open>The pairs a walk over the table delivers are those of the map.\<close>

definition walk :: "htab \<Rightarrow> (pgno \<times> mem) list list \<Rightarrow> (mem \<times> mem) list \<Rightarrow> bool" where
  "walk h Cs kvs \<longleftrightarrow> list_all2 (\<lambda>s kv. fst kv = spot_key s \<and> spot_datum h s (snd kv)) (all_spots Cs) kvs"

lemma walk_map:
  assumes r: "represents h f" and t: "tidy h Cs"
  shows "walk h Cs (map (\<lambda>s. (spot_key s, the (f (spot_key s)))) (all_spots Cs))"
    "map_of (map (\<lambda>s. (spot_key s, the (f (spot_key s)))) (all_spots Cs)) = f"
    "distinct (map fst (map (\<lambda>s. (spot_key s, the (f (spot_key s)))) (all_spots Cs)))"
proof -
  let ?kvs = "map (\<lambda>s. (spot_key s, the (f (spot_key s)))) (all_spots Cs)"
  show d: "distinct (map fst ?kvs)" using t by (simp add: tidy_def comp_def)
  show "walk h Cs ?kvs"
    unfolding walk_def list.rel_map using tidy_spot [OF r t] by (fastforce intro: list.rel_refl_strong)
  show "map_of ?kvs = f"
  proof
    fix k
    show "map_of ?kvs k = f k"
    proof (cases "f k")
      case None
      then have "k \<notin> fst ` set ?kvs" using tidy_spot [OF r t] by force
      then show ?thesis using None by (simp add: map_of_eq_None_iff)
    next
      case (Some v)
      then have "(k, v) \<in> set ?kvs" using tidy_complete [OF r t Some] by force
      then show ?thesis using Some d by (simp only: map_of_is_SomeI)
    qed
  qed
qed


section \<open>A put keeps the table tidy\<close>

lemma buckets_cong:
  assumes "BUCKET_TO_PAGE H = BUCKET_TO_PAGE H'" "bucket_chain H = bucket_chain H'" "h_max_bucket H = h_max_bucket H'"
  shows "buckets H V B Cs = buckets H' V B Cs"
  using assms by (induction Cs arbitrary: B) simp_all

lemma buckets_upd:
  assumes "buckets H V B Cs" "\<And>j q. W j \<noteq> V j \<Longrightarrow> V j = Some q \<Longrightarrow> PTYPE q \<noteq> ucast HASH_BUCKET_PAGE \<or> j = k"
    "V k = Some c0" "W k = Some c" "bucket_wf c" "CURR_PGNO c = k" "PTYPE c = ucast HASH_BUCKET_PAGE" "NEXT_PGNO c = NEXT_PGNO c0"
    "page_num c \<noteq> 0"
  shows "buckets H W B (map (upd_pages k c) Cs)"
  using assms(1)
proof (induction Cs arbitrary: B)
  case (Cons ps Cs)
  obtain n where n: "BUCKET_TO_PAGE H (of_nat B) = Some n" "chain V n ps" "n \<noteq> 0"
    "NUM_ENT (snd (hd ps)) = 0 \<longrightarrow> blank_header H (snd (hd ps))" "\<forall>np\<in>set (tl ps). 0 < page_num (snd np)"
    using Cons.prems by (auto simp: bucket_chain_def)
  note C = chain_wf [OF n(2)]
  have "chain W n (upd_pages k c ps)"
    using C assms(2) by (intro chain_update [OF n(2)]) (use assms in \<open>force+\<close>)
  moreover have "NUM_ENT (snd (hd (upd_pages k c ps))) = 0 \<longrightarrow> blank_header H (snd (hd (upd_pages k c ps)))"
    using n(2,4) assms(9) by (cases ps) (auto simp: page_num_def)
  moreover have "\<forall>np\<in>set (tl (upd_pages k c ps)). 0 < page_num (snd np)"
    using n(5) assms(9) by (cases ps) (auto simp: upd_pages_def)
  ultimately show ?case using n(1,3) Cons by (auto simp: bucket_chain_def)
qed simp

lemma keys_of_pages: "map spot_key (chain_spots ps) = concat (map (page_keys \<circ> snd) ps)"
proof (induction ps)
  case (Cons np ps)
  then show ?case using spot_keys [of "fst np" "snd np"] by simp
qed simp

lemma all_spots_concat: "all_spots Cs = chain_spots (concat Cs)"
  by (induction Cs) (simp_all add: chain_spots_def)

lemma upd_keys:
  assumes "distinct (map fst ps)" "(k, c0) \<in> set ps" "page_keys c = page_keys c0 @ [kb]"
  shows "mset (map spot_key (chain_spots (upd_pages k c ps))) = add_mset kb (mset (map spot_key (chain_spots ps)))"
  unfolding keys_of_pages using assms(1,2)
proof (induction ps)
  case (Cons a r)
  obtain j q where a: "a = (j, q)" by fastforce
  show ?case
  proof (cases "j = k")
    case True
    then have "q = c0" "k \<notin> fst ` set r" using Cons.prems a by force+
    then show ?thesis using True assms(3) upd_pages_other [of k r c] a by simp
  next
    case False
    then show ?thesis using Cons a by simp
  qed
qed simp

lemma placed_upd:
  assumes "buckets H V B Cs" "placed h B Cs" "distinct (map fst (concat Cs))" "B \<le> j" "j \<le> unat (h_max_bucket H)"
    "BUCKET_TO_PAGE H (of_nat j) = Some n" "bucket_chain H V n ps" "(k, c0) \<in> set ps" "page_keys c = page_keys c0 @ [kb]"
    "bucket_of h kb = of_nat j"
  shows "placed h B (map (upd_pages k c) Cs) \<and> (k, c0) \<in> set (concat Cs)"
  using assms(1-4)
proof (induction Cs arbitrary: B)
  case (Cons qs Cs)
  have other: "map (upd_pages k c) Cs = Cs" if "k \<notin> fst ` set (concat Cs)"
  proof -
    have "upd_pages k c rs = rs" if "rs \<in> set Cs" for rs
      by (rule upd_pages_other) (use that \<open>k \<notin> fst ` set (concat Cs)\<close> in force)
    then show ?thesis by (simp add: map_idI)
  qed
  show ?case
  proof (cases "B = j")
    case True
    then have qs: "qs = ps" using Cons.prems(1) assms(6,7) chain_unique by (auto simp: bucket_chain_def)
    have d: "distinct (map fst ps)" "fst ` set ps \<inter> fst ` set (concat Cs) = {}"
      using Cons.prems(3) by (simp_all only: qs concat.simps map_append distinct_append set_map)
    then have "k \<notin> fst ` set (concat Cs)" using assms(8) by force
    moreover have "set (map spot_key (chain_spots (upd_pages k c ps))) = insert kb (spot_key ` set (chain_spots ps))"
      using arg_cong [OF upd_keys [OF d(1) assms(8,9)], of set_mset] by simp
    then have "\<forall>s\<in>set (chain_spots (upd_pages k c ps)). bucket_of h (spot_key s) = of_nat B"
      using Cons.prems(2) assms(10) qs True
      by (metis (no_types, lifting) image_iff insert_iff list.set_map placed.simps(2))
    ultimately show ?thesis using Cons.prems(2) other assms(8) qs by simp
  next
    case False
    then have IH: "placed h (Suc B) (map (upd_pages k c) Cs) \<and> (k, c0) \<in> set (concat Cs)"
      using Cons.prems by (intro Cons.IH) auto
    have "fst ` set qs \<inter> fst ` set (concat Cs) = {}"
      using Cons.prems(3) by (simp only: concat.simps map_append distinct_append set_map)
    then have "k \<notin> fst ` set qs" using IH by force
    then have "upd_pages k c qs = qs" by (rule upd_pages_other)
    then show ?thesis using IH Cons.prems(2) by simp
  qed
qed (use assms in simp)

lemma tidy_put:
  assumes r: "represents h f" and t: "tidy h Cs" and new: "f kb = None" and put: "put_effect h kb k c E"
  shows "tidy (count_key E) (map (upd_pages k c) Cs)"
proof -
  obtain ps c0 c' d p where P: "pool_step h E" "tview E = (tview h)(curr_dpage h \<mapsto> c', k \<mapsto> c)"
    "tview h (curr_dpage h) = Some p" "PTYPE p = ucast HASH_DATA_PAGE" "bucket_pages h kb ps" "(k, c0) \<in> set ps"
    "bucket_wf c" "page_pairs c = page_pairs c0 @ [(kb, d)]" "CURR_PGNO c = CURR_PGNO c0" "NEXT_PGNO c = NEXT_PGNO c0"
    "PTYPE c = PTYPE c0" using put by (auto simp: put_effect_def data_page_ok_def)
  note F = pool_step_fields [OF P(1)]
  have T: "buckets (hdr h) (tview h) 0 Cs" "placed h 0 Cs" "distinct (map spot_key (all_spots Cs))"
    "distinct (map fst (concat Cs))" "\<And>x. bucket_of h x \<le> h_max_bucket (hdr h)" using t by (simp_all add: tidy_def)
  obtain n where n: "BUCKET_TO_PAGE (hdr h) (bucket_of h kb) = Some n" "bucket_chain (hdr h) (tview h) n ps"
    using P(5) by (auto simp: bucket_pages_def)
  then have "chain (tview h) n ps" by (simp add: bucket_chain_def)
  note C = chain_wf [OF this P(6)]
  have keys: "page_keys c = page_keys c0 @ [kb]" using P(8) by (simp add: page_keys_def)
  have num: "page_num c \<noteq> 0" using key_index_append(4) [OF P(8)] by simp
  have bo: "bucket_of (count_key E) = bucket_of h"
    by (auto simp: fun_eq_iff bucket_of_def ffdb_call_hash_def count_key_def Let_def F)
  have bk: "buckets (hdr (count_key E)) V B Xs = buckets (hdr h) V B Xs" for V B Xs
    by (rule buckets_cong) (simp_all add: fun_eq_iff BUCKET_TO_PAGE_def bucket_chain_def blank_header_def count_key_def F)
  have "buckets (hdr h) (tview E) 0 (map (upd_pages k c) Cs)"
  proof (rule buckets_upd [OF T(1)])
    show "tview h k = Some c0" using C by simp
    fix j q
    assume "tview E j \<noteq> tview h j" "tview h j = Some q"
    then show "PTYPE q \<noteq> ucast HASH_BUCKET_PAGE \<or> j = k"
      using P(2-4) by (cases "j = curr_dpage h") (auto simp: ffdb_consts split: if_splits)
  qed (use P C num in simp_all)
  moreover have pl: "placed h 0 (map (upd_pages k c) Cs) \<and> (k, c0) \<in> set (concat Cs)"
    by (rule placed_upd [OF T(1,2,4) _ _ _ n(2) P(6) keys, of "unat (bucket_of h kb)"])
      (use T(5) n(1) in \<open>simp_all add: word_le_nat_alt\<close>)
  moreover have "placed (count_key E) B Xs = placed h B Xs" for B Xs
    by (induction Xs arbitrary: B) (simp_all add: bo)
  moreover have cc: "concat (map (upd_pages k c) Cs) = upd_pages k c (concat Cs)"
    by (induction Cs) simp_all
  moreover have "distinct (map spot_key (all_spots (map (upd_pages k c) Cs)))"
  proof -
    have "mset (map spot_key (all_spots (map (upd_pages k c) Cs))) = mset (kb # map spot_key (all_spots Cs))"
      using upd_keys [OF T(4) conjunct2 [OF pl] keys] by (simp add: all_spots_concat cc)
    moreover have "kb \<notin> set (map spot_key (all_spots Cs))" using tidy_spot [OF r t] new by force
    ultimately show ?thesis using T(3) mset_eq_imp_distinct_iff by (metis distinct.simps(2))
  qed
  moreover have "map fst (upd_pages k c (concat Cs)) = map fst (concat Cs)"
    by (auto simp: upd_pages_def)
  ultimately show ?thesis
    using T(4,5) by (simp add: tidy_def bo bk) (simp add: count_key_def F)
qed

section \<open>Tidy tables as map stores\<close>

text \<open>
  A table that represents \<open>f\<close>, is tidy, and whose data use different bytes. Fetching and
  storing keep it so.
\<close>

definition kept :: "htab \<Rightarrow> (mem \<Rightarrow> mem option) \<Rightarrow> bool" where
  "kept h f \<longleftrightarrow> represents h f \<and> (\<exists>Cs. tidy h Cs) \<and> disjoint_data h"

lemma keptD: "kept h f \<Longrightarrow> represents h f" "kept h f \<Longrightarrow> \<exists>Cs. tidy h Cs" "kept h f \<Longrightarrow> disjoint_data h" "kept h f \<Longrightarrow> db_ok h"
  by (simp_all add: kept_def represents_def)

lemma tidy_same:
  assumes "same_pages h h'" "tidy h Cs"
  shows "tidy h' Cs"
proof -
  have e: "hdr h' = hdr h" "tview h' = tview h" "pool_step h h'" using assms(1) same_pages_hdr by (auto simp: same_pages_def)
  have bo: "bucket_of h' = bucket_of h" by (simp add: fun_eq_iff bucket_of_def pool_step_fields [OF e(3)])
  have "placed h' B Xs = placed h B Xs" for B Xs by (induction Xs arbitrary: B) (simp_all add: bo)
  then show ?thesis using assms(2) by (simp add: tidy_def e bo)
qed

lemma kept_step:
  assumes "kept h f" "same_pages h h'" "tsession h' {}" "theld h' = Map.empty"
  shows "kept h' f"
proof -
  have "represents h' f" using represents_step [of h f h'] assms by (simp add: kept_def same_pages_def)
  moreover have "disjoint_data h'"
    using disjoint_step [of h h'] keptD [OF assms(1)] assms(2) by (simp add: same_pages_def)
  ultimately show ?thesis using tidy_same [OF assms(2)] assms(1) by (auto simp: kept_def)
qed

lemma kept_get:
  assumes r: "kept h f" and k: "length k < 2 ^ 31"
  shows "\<exists>h'. ffdb_hash_get h (dbt_of k) no_buffer = Some (case f k of None \<Rightarrow> (FFDB_NOT_FOUND, no_buffer, h') | Some v \<Rightarrow> (0, buf_of v, h')) \<and>
    kept h' f"
proof -
  have rep: "represents h f" using r by (simp add: kept_def)
  have nb: "room_for no_buffer n" "\<not> own_buffer no_buffer" for n by (simp_all add: room_for_def own_buffer_def no_buffer_def)
  have tidy: "kept h' f" if "represents h' f" "tview h' = tview h" "pool_step h h'" for h'
    using r tidy_same [of h h'] disjoint_step [OF keptD(4) [OF r] that(3,2)] that by (auto simp: kept_def same_pages_def)
  show ?thesis
    using hash_get_step [OF rep, of "dbt_of k" no_buffer] k nb tidy by (cases "f k") (auto simp: buf_of_def)
qed

lemma kept_put:
  assumes r: "kept h f" and k: "length k < 2 ^ 31" "f k = None" and room: "store_room h k v" and flag: "flag = 0 \<or> flag = FFDB_NOOVERWRITE"
  shows "\<exists>h'. ffdb_hash_put h (dbt_of k) (dbt_of v) flag = Some (0, h') \<and> kept h' (f(k \<mapsto> v))"
proof -
  have rep: "represents h f" using r by (simp add: kept_def)
  obtain Cs where t: "tidy h Cs" using r by (auto simp: kept_def)
  obtain E n c where "ffdb_hash_put h (dbt_of k) (dbt_of v) flag = Some (0, count_key E)"
    "put_effect h k n c E" "represents (count_key E) (f(k \<mapsto> v))"
    using hash_put_step [OF rep, of "dbt_of k" "dbt_of v" flag] k room flag by (auto simp: store_room_def)
  then show ?thesis using tidy_put [OF rep t k(2)] disjoint_put [OF keptD(4) [OF r] keptD(3) [OF r]] by (auto simp: kept_def)
qed

interpretation tidy_table: map_store kept store_get store_put store_room "\<lambda>k. length k < 2 ^ 31"
proof
  fix h :: htab and f :: "mem \<Rightarrow> mem option" and k v :: mem
  assume r: "kept h f" and k: "length k < 2 ^ 31"
  obtain h' where "ffdb_hash_get h (dbt_of k) no_buffer = Some (case f k of None \<Rightarrow> (FFDB_NOT_FOUND, no_buffer, h') | Some v \<Rightarrow> (0, buf_of v, h'))"
    "kept h' f" using kept_get [OF r k] by blast
  then show "\<exists>h'. store_get h k = Some (f k, h') \<and> kept h' f"
    by (intro exI [of _ h']) (cases "f k"; simp add: store_get_def FFDB_NOT_FOUND_def buf_of_def)
  assume "f k = None" "store_room h k v"
  then show "\<exists>h'. store_put h k v = Some h' \<and> kept h' (f(k \<mapsto> v))"
    using kept_put [OF r k, of v FFDB_NOOVERWRITE] by (auto simp: store_put_def)
qed

text \<open>The empty witness table is tidy.\<close>

lemma wit_db_tidy: "tidy wit_db [[(3, wit_new_page 3 HASH_BUCKET_PAGE)]]"
proof -
  have "bucket_pages wit_db [] [(3, wit_new_page 3 HASH_BUCKET_PAGE)]" by (rule wit_db_pages)
  moreover have bk: "bucket_of wit_db k = 0" for k by (simp add: bucket_of_def ffdb_call_hash_def wit_db_fields wit_db_hdr_fields)
  ultimately have "\<exists>n. BUCKET_TO_PAGE wit_db_hdr 0 = Some n \<and>
      bucket_chain wit_db_hdr (tview wit_db) n [(3, wit_new_page 3 HASH_BUCKET_PAGE)]"
    by (auto simp: bucket_pages_def wit_db_fields)
  moreover have "spots (3, wit_new_page 3 HASH_BUCKET_PAGE) = []" by (simp add: spots_def page_num_def wit_new_page_fields)
  ultimately show ?thesis by (simp add: tidy_def wit_db_fields wit_db_hdr_fields bk)
qed

lemma wit_db_not_found: "\<not> found wit_db x n i d"
proof -
  have "absent wit_db x" using wit_db_represents unfolding represents_def by simp
  then obtain ps where "bucket_pages wit_db x ps" "first_at x ps = None" by (auto simp: absent_def)
  then show ?thesis unfolding found_def by (metis bucket_pages_unique option.distinct(1))
qed

lemma wit_db_kept: "kept wit_db Map.empty"
  using wit_db_represents wit_db_tidy wit_db_not_found by (auto simp: kept_def disjoint_data_def)

end
