(* ===== verification/FFDB_Replace.thy ===== *)
theory FFDB_Replace
  imports FFDB_Scan
begin

text \<open>
  Putting a key that is there: the value is written over the old one, in its place. A value
  that is not longer and fits on the first page of the old one replaces it in the map; a
  longer one is refused.
\<close>

section \<open>The data page\<close>

text \<open>The page after \<open>ffdb_replace_data\<close> has written a header and a value at \<open>roff\<close>.\<close>

definition page_over :: "nat \<Rightarrow> data_header \<Rightarrow> mem \<Rightarrow> mem \<Rightarrow> mem" where
  "page_over roff dh bytes m = mem_put (mem_put m roff (data_header_bytes dh)) (roff + 20) bytes"

lemma page_over_props:
  assumes r: "32 \<le> roff" "roff + 20 + length bytes \<le> length m"
  shows "length (page_over roff dh bytes m) = length m" "CURR_PGNO (page_over roff dh bytes m) = CURR_PGNO m"
    "NEXT_PGNO (page_over roff dh bytes m) = NEXT_PGNO m" "PTYPE (page_over roff dh bytes m) = PTYPE m"
    "NUM_ENT (page_over roff dh bytes m) = NUM_ENT m" "OFFSET (page_over roff dh bytes m) = OFFSET m"
    "PAGE_SIGN (page_over roff dh bytes m) = PAGE_SIGN m"
    "rd_data_header (page_over roff dh bytes m) roff = dh"
    "mem_get (page_over roff dh bytes m) (roff + 20) (length bytes) = bytes"
    "a < roff \<or> roff + 20 + length bytes \<le> a \<Longrightarrow> page_over roff dh bytes m ! a = m ! a"
proof -
  let ?q = "page_over roff dh bytes m"
  show l: "length ?q = length m" by (simp add: page_over_def)
  show "CURR_PGNO ?q = CURR_PGNO m" "NEXT_PGNO ?q = NEXT_PGNO m" "PTYPE ?q = PTYPE m" "NUM_ENT ?q = NUM_ENT m"
    "OFFSET ?q = OFFSET m" "PAGE_SIGN ?q = PAGE_SIGN m"
    using r by (simp_all add: page_over_def page_fields)
  have "mem_get ?q roff 20 = mem_get (mem_put m roff (data_header_bytes dh)) roff 20"
    unfolding page_over_def by (rule mem_get_put_disjoint) simp
  then have "mem_get ?q roff 20 = data_header_bytes dh" using r by simp
  then show "rd_data_header ?q roff = dh" using header_get [of ?q roff] by (simp add: rd_header_bytes)
  show "mem_get ?q (roff + 20) (length bytes) = bytes"
    using r mem_get_put_same [of "roff + 20" bytes "mem_put m roff (data_header_bytes dh)"] by (simp add: page_over_def)
  show "?q ! a = m ! a" if "a < roff \<or> roff + 20 + length bytes \<le> a"
  proof (cases "a < length m")
    case True
    then show ?thesis using that r by (auto simp: page_over_def nth_mem_put)
  next
    case False
    have "drop (length m) ?q = drop (length m) m" using l by simp
    then show ?thesis using False l that by (auto simp: page_over_def mem_put_def nth_append)
  qed
qed

text \<open>The data pointer and the header of the new value.\<close>

definition over_datap :: "dbt \<Rightarrow> datap \<Rightarrow> datap" where
  "over_datap val d = d\<lparr>dp_len := of_nat (dt_size val), dp_chksum := ffdb_crc32_checksum 0 (dbt_bytes val)\<rparr>"

definition over_header :: "htab \<Rightarrow> dbt \<Rightarrow> data_header \<Rightarrow> data_header" where
  "over_header h val dh = dh\<lparr>dh_len := of_nat (dt_size val),
     dh_status := (if after_v5 h then INSERT_LEN_TO_STATUS (dt_size val) (dh_status dh) else dh_status dh)\<rparr>"

lemma real_len_small:
  assumes "REAL_DATA_LEN l ov < 2 ^ 32"
  shows "GET_LEN_FROM_PGOFFSET ov = 0"
proof -
  have "drop_bit 32 (REAL_DATA_LEN l ov) = unat (GET_LEN_FROM_PGOFFSET ov) OR drop_bit 32 (unat l)"
    by (simp add: REAL_DATA_LEN_def drop_bit_push_bit)
  moreover have "drop_bit 32 (REAL_DATA_LEN l ov) = 0" using assms by (simp add: drop_bit_eq_div)
  moreover have "drop_bit 32 (unat l) = 0" using unsigned_less [of l, where ?'a = nat] by (simp add: drop_bit_eq_div)
  ultimately show ?thesis by (simp add: unsigned_eq_0_iff)
qed

lemma over_datap_props:
  assumes old: "datap_len h d < 2 ^ 32" and new: "dt_size val < 2 ^ 32"
  shows "datap_roff h (over_datap val d) = datap_roff h d" "dp_first (over_datap val d) = dp_first d"
    "datap_len h (over_datap val d) = dt_size val"
    "data_header_ok h item d dh \<Longrightarrow> data_header_ok h item (over_datap val d) (over_header h val dh)"
proof -
  have un: "unat (of_nat (dt_size val) :: u32) = dt_size val" using new by (simp add: unsigned_of_nat take_bit_nat_eq_self)
  show "datap_roff h (over_datap val d) = datap_roff h d" "dp_first (over_datap val d) = dp_first d"
    by (simp_all add: datap_roff_def over_datap_def)
  have "GET_LEN_FROM_PGOFFSET (dp_offset d) = 0" if "after_v5 h"
    using old that real_len_small by (simp add: datap_len_def)
  then show len: "datap_len h (over_datap val d) = dt_size val"
    using un by (simp add: datap_len_def over_datap_def REAL_DATA_LEN_def)
  show "data_header_ok h item (over_datap val d) (over_header h val dh)" if "data_header_ok h item d dh"
  proof (cases "after_v5 h")
    case True
    then show ?thesis
      using that len new by (simp add: data_header_ok_def over_header_def INSERT_LEN_TO_STATUS_def GET_STATUS_def real_len_packed)
  next
    case False
    have "dp_len (over_datap val d) = of_nat (dt_size val)" by (simp add: over_datap_def)
    then show ?thesis using that False by (simp add: data_header_ok_def over_header_def)
  qed
qed

lemma datum_over:
  assumes d: "datum h V item d ns w" and p: "V (dp_first d) = Some (page_content m)" "length m = bsz h"
    and val: "dbt_ok val" "0 < dt_size val" and fits: "unat (datap_roff h d) + BIG_DATA_TOTAL_SIZE val \<le> bsz h"
    and small: "datap_len h d < 2 ^ 32" "dt_size val < 2 ^ 32"
    and W: "W (dp_first d) = Some (page_content (page_over (unat (datap_roff h d))
      (over_header h val (rd_data_header m (unat (datap_roff h d)))) (dbt_bytes val) m))"
  shows "datum h W item (over_datap val d) [] (dbt_bytes val)"
proof -
  let ?o = "unat (datap_roff h d)" and ?b = "dbt_bytes val"
  let ?q = "page_over ?o (over_header h val (rd_data_header m ?o)) ?b m"
  have lb: "length ?b = dt_size val" using val(1) by (simp add: dbt_ok_def dbt_bytes_def)
  have a: "dp_first d \<noteq> INVALID_PGNO" "CURR_PGNO m = dp_first d" "1 \<le> NUM_ENT m" "32 \<le> ?o"
    "data_header_ok h item d (rd_data_header (page_content m) ?o)" "PTYPE m = ucast HASH_DATA_PAGE"
    using d p(1) by (auto simp: datum_def ffdb_consts)
  have f: "?o + 20 + length ?b \<le> length m" using fits p(2) lb by (simp add: BIG_DATA_TOTAL_SIZE_def ffdb_consts)
  note P = page_over_props(1-9) [OF a(4) f, of "over_header h val (rd_data_header m ?o)"]
  have hc: "rd_data_header (page_content x) ?o = rd_data_header x ?o" for x
    using a(4) by (simp add: rd_data_header_def content_rd32)
  have body: "mem_get (page_content ?q) (?o + 20) (dt_size val) = ?b"
    using P(9) a(4) lb by (simp add: content_get)
  have df: "data_from W (bsz h) (page_content ?q) (?o + BIG_DATA_OVERHEAD) (dt_size val) = Some ([], ?b)"
    using fits body by (subst data_from.simps) (simp add: BIG_DATA_TOTAL_SIZE_def BIG_DATA_OVERHEAD_def)
  note O = over_datap_props(1-3) [OF small]
  have "data_header_ok h item (over_datap val d) (rd_data_header (page_content ?q) ?o)"
    using over_datap_props(4) [OF small, of item "rd_data_header m ?o"] a(5) P(8) hc by simp
  then show ?thesis
    unfolding datum_def O
    using a W P fits val(2) df
    by (intro exI [of _ "page_content ?q"]) (simp add: BIG_DATA_TOTAL_SIZE_def over_datap_def ffdb_consts)
qed

section \<open>Replacing the value\<close>

lemma replace_pair_fits:
  assumes s: "tsession h {}" "theld h = [b \<mapsto> (k, m)]" and g: "page_good (hdr h) m" and bs: "bsz h \<le> 2 ^ 20"
    and m: "bucket_wf m" "PTYPE m = ucast HASH_BUCKET_PAGE" "i < page_num m"
    and item: "it_pagep item = Some b" "it_pgndx item = of_nat i" "it_data_chksum item = ffdb_crc32_checksum 0 (dbt_bytes val)"
    and d: "datum h (tview h) it (snd (page_pair m i)) ns w"
    and val: "dbt_ok val" "dt_size val \<le> datap_len h (snd (page_pair m i))"
    and fits: "unat (datap_roff h (snd (page_pair m i))) + BIG_DATA_TOTAL_SIZE val \<le> bsz h"
  defines "dp \<equiv> snd (page_pair m i)"
  defines "over \<equiv> \<lambda>dm. page_over (unat (datap_roff h dp)) (over_header h val (rd_data_header dm (unat (datap_roff h dp)))) (dbt_bytes val) dm"
  shows "\<exists>dm E. ffdb_add_pair h key val item True = Some (0, E) \<and> theld E = Map.empty \<and> tsession E {} \<and> pool_step h E \<and>
    tview h (dp_first dp) = Some (page_content dm) \<and> length dm = bsz h \<and>
    tview E = (tview h)(dp_first dp \<mapsto> page_content (over dm),
      k \<mapsto> page_content (mem_put m (DATAP m i) (datap_bytes (over_datap val dp))))"
proof -
  let ?D = "dp_first dp" and ?o = "unat (datap_roff h dp)" and ?b = "dbt_bytes val"
  have lb: "length ?b = dt_size val" using val(1) by (simp add: dbt_ok_def dbt_bytes_def)
  obtain p where p: "?D \<noteq> INVALID_PGNO" "tview h ?D = Some p" "PTYPE p = ucast HASH_DATA_PAGE" "32 \<le> ?o" "?o + 20 \<le> bsz h"
    using d by (auto simp: datum_def dp_def ffdb_consts)
  have hb: "theld h b = Some (k, m)" using s(2) by simp
  have at: "page_at h b = Some m" by (rule theld_page [OF hb])
  have "tview h k = Some (page_content m)" by (rule held_view [OF s(1) hb])
  then have kD: "k \<noteq> ?D" using p(2,3) m(2) by (auto simp: ffdb_consts)
  have ix: "unat (of_nat i :: u16) = i" using unat_index m(3) by blast
  have pd: "page_datap m i = Some dp"
    using bucket_wf_reads [OF m(1,3)] by (simp add: page_datap_def page_pair_def dp_def ffdb_consts)
  have D1: "?D \<noteq> - 1" using p(1) by (simp add: INVALID_minus)
  obtain c dm A where A: "ffdb_get_page h ?D HASH_DATA_PAGE 0 = Some (Some c, ?D, A)" "theld h c = None"
    "theld A = (theld h)(c \<mapsto> (?D, dm))" "page_content dm = p" "page_good (hdr h) dm" "tview A = tview h"
    "tsession A {}" "pool_step h A"
    by (rule get_page_session [OF s(1) D1 _ p(2), where flags = 0 and addrtype = HASH_DATA_PAGE and addr = ?D])
       (use s(2) kD in \<open>auto simp: ffdb_consts split: if_splits\<close>)
  note FA = pool_step_fields [OF A(8)]
  have cb: "c \<noteq> b" using A(2) s(2) by auto
  have hA: "theld A b = Some (k, m)" "theld A c = Some (?D, dm)" using A(3) s(2) cb by simp_all
  have atA: "page_at A b = Some m" by (rule theld_page [OF hA(1)])
  have ldm: "length dm = bsz h" using A(5) by (simp add: page_good_def bsz_def)
  have lm: "length m = unat (h_bsize (hdr h))" using g by (simp add: page_good_def)
  let ?d1 = "over_datap val dp" and ?q = "mem_put m (DATAP m i) (datap_bytes (over_datap val dp))"
  note O = overwrite_datap [OF m(1,3), of ?d1]
  let ?B = "poke b (\<lambda>_. ?q) A"
  have "length ((\<lambda>_. ?q) m) = unat (h_bsize (hdr A))" using lm by (simp add: FA)
  note B = poke_session [OF A(7) hA(1), of "\<lambda>_. ?q", OF this]
  note FB = pool_step_fields [OF pool_step_trans [OF A(8) B(4)]]
  have eqs: "datap_roff ?B = datap_roff h" "bsz ?B = bsz h" "after_v5 ?B = after_v5 h" "after_v5 A = after_v5 h"
    "datap_roff A = datap_roff h"
    by (simp_all add: fun_eq_iff datap_roff_def bsz_def after_v5_def FB FA)
  have hB: "theld ?B c = Some (?D, dm)" "theld ?B b = Some (k, ?q)" using B(2) hA cb by simp_all
  have atB: "page_at ?B c = Some dm" by (rule theld_page [OF hB(1)])
  have ro: "datap_roff h ?d1 = datap_roff h dp" by (simp add: datap_roff_def over_datap_def)
  have f: "?o + 20 + dt_size val \<le> bsz h" using fits by (simp add: dp_def BIG_DATA_TOTAL_SIZE_def ffdb_consts)
  have fs: "unat (h_bsize (hdr h) - datap_roff h dp) = bsz h - ?o"
    using p(5) by (subst unat_sub) (simp_all add: word_le_nat_alt bsz_def)
  let ?r = "over dm"
  have lr: "length ?r = bsz h" using ldm by (simp add: over_def page_over_def)
  let ?C = "poke c (\<lambda>_. ?r) ?B"
  have "length ((\<lambda>_. ?r) dm) = unat (h_bsize (hdr ?B))" using lr FB by (simp add: bsz_def)
  note C = poke_session [OF B(1) hB(1), of "\<lambda>_. ?r", OF this]
  have stC: "pool_step h ?C" by (rule pool_step_trans [OF pool_step_trans [OF A(8) B(4)] C(4)])
  note FC = pool_step_fields [OF stC]
  have P: "PAGE_SIGN ?r = PAGE_SIGN dm"
    unfolding over_def by (rule page_over_props(7)) (use p(4) f ldm lb in simp_all)
  have gC: "page_good (hdr ?C) ?r" using A(5) lr P by (simp add: page_good_def FC bsz_def)
  have hC: "theld ?C c = Some (?D, ?r)" using C(2) by simp
  obtain E1 where E1: "ffdb_put_page ?C c True = Some (0, E1)" "tsession E1 (insert c {b} - {c})"
    "theld E1 = (theld ?C)(c := None)" "tview E1 = tview ?C" "pool_step ?C E1"
    by (rule put_page_session [OF C(1) hC gC, of True]) simp_all
  have rep: "ffdb_replace_data ?B val c ?d1 = Some (0, E1)"
  proof -
    have rdv: "mem_read (dt_data val) 0 (dt_size val) = Some ?b"
      using val(1) by (simp add: dbt_ok_def dbt_bytes_def mem_get_def)
    have dl: "dp_len ?d1 = of_nat (dt_size val)" by (simp add: over_datap_def)
    have h1: "BIG_DATA_HEADER dm ?o = Some (rd_data_header dm ?o)" using p(5) ldm by (simp add: BIG_DATA_HEADER_def ffdb_consts)
    show ?thesis
      using atB h1 rdv f ldm lb fs E1(1) FB
      by (simp add: ffdb_replace_data_def Let_def ro eqs dl over_header_def BIG_DATA_TOTAL_SIZE_def over_def page_over_def
          BIG_DATA_OVERHEAD_def)
  qed
  have stE1: "pool_step h E1" by (rule pool_step_trans [OF stC E1(5)])
  note FE = pool_step_fields [OF stE1]
  have hE1: "theld E1 = [b \<mapsto> (k, ?q)]" using E1(3) C(2) B(2) A(2,3) s(2) cb by (auto simp: fun_eq_iff)
  have sE1: "tsession E1 {b}" using E1(2) cb by (simp add: insert_Diff_if)
  have gq: "page_good (hdr E1) ?q" using g O(10) by (simp add: page_good_def FE)
  have hE1b: "theld E1 b = Some (k, ?q)" using hE1 by simp
  obtain E where E: "ffdb_put_page E1 b True = Some (0, E)" "tsession E ({b} - {b})" "theld E = (theld E1)(b := None)"
    "tview E = tview E1" "pool_step E1 E"
    by (rule put_page_session [OF sE1 hE1b gq, of True]) simp_all
  have hg: "\<not> IS_HUGE_DATA (dt_size val)" using f bs by (simp add: IS_HUGE_DATA_def)
  have d1: "dp\<lparr>dp_len := of_nat (dt_size val), dp_chksum := it_data_chksum item\<rparr> = ?d1"
    using item(3) by (simp add: over_datap_def)
  have "ffdb_replace_item_on_page h val item = Some (0, E1)"
    using item at ix pd val(2) A(1) atA O(1) hg rep d1
    by (simp add: ffdb_replace_item_on_page_def Let_def dp_def [symmetric] not_less)
  then have "ffdb_add_pair h key val item True = Some (0, E)"
    using item(1) E(1) by (simp add: ffdb_add_pair_def)
  moreover have "theld E = Map.empty" using E(3) hE1 by (auto simp: fun_eq_iff)
  moreover have "tview E = (tview h)(?D \<mapsto> page_content ?r, k \<mapsto> page_content ?q)"
    using E(4) E1(4) C(3) B(3) A(6) kD by (auto simp: fun_eq_iff)
  moreover have "pool_step h E" by (rule pool_step_trans [OF stE1 E(5)])
  ultimately show ?thesis using E(2) A(4) p(2) ldm by (intro exI [of _ dm] exI [of _ E]) simp
qed

section \<open>Finding the key afterwards\<close>

lemma overwritten_pairs:
  assumes c: "page_pairs c = (page_pairs p)[i := (kb, d)]" and i: "i < page_num p" "page_keys p ! i = kb"
  shows "page_num c = page_num p" "page_keys c = page_keys p" "key_index x c = key_index x p"
    "snd (page_pair c i) = d" "j < page_num p \<Longrightarrow> j \<noteq> i \<Longrightarrow> page_pair c j = page_pair p j"
proof -
  show n: "page_num c = page_num p" using arg_cong [OF c, of length] by simp
  show k: "page_keys c = page_keys p"
    using i(2) unfolding page_keys_def c map_update fst_conv by (metis list_update_id)
  show "key_index x c = key_index x p" by (simp add: key_index_def n k)
  have nth: "page_pair c j = (page_pairs p)[i := (kb, d)] ! j" if "j < page_num p" for j
    using nth_page_pairs [of j c] that n c by simp
  show "snd (page_pair c i) = d" using nth [OF i(1)] i(1) by simp
  show "page_pair c j = page_pair p j" if "j < page_num p" "j \<noteq> i" using nth [OF that(1)] that by (simp add: nth_page_pairs)
qed

lemma first_at_over:
  assumes c: "page_pairs c = (page_pairs p)[i := (kb, d)]" "i < page_num p" "page_keys p ! i = kb"
    and p: "\<And>q. (k, q) \<in> set ps \<Longrightarrow> q = p" and f: "first_at kb ps = Some (k, i, d0)"
  shows "first_at x (upd_pages k c ps) = (if x = kb then Some (k, i, d) else first_at x ps)"
proof -
  note O = overwritten_pairs [OF c]
  have "first_at kb (upd_pages k c ps) = Some (k, i, d)" using p f
  proof (induction ps)
    case (Cons a r)
    obtain j q where a: "a = (j, q)" by fastforce
    have IH: "first_at kb r = Some (k, i, d0) \<Longrightarrow> first_at kb (upd_pages k c r) = Some (k, i, d)"
      using Cons.IH Cons.prems(1) by simp
    show ?case
    proof (cases "j = k")
      case True
      then have q: "q = p" using Cons.prems(1) a by simp
      show ?thesis using True IH Cons.prems(2) O(4) unfolding a q by (cases "key_index kb p") (simp_all add: O(3))
    next
      case False
      then show ?thesis using IH Cons.prems(2) unfolding a by (cases "key_index kb q") simp_all
    qed
  qed simp
  moreover have "first_at x (upd_pages k c ps) = first_at x ps" if x: "x \<noteq> kb" using p
  proof (induction ps)
    case (Cons a r)
    obtain j q where a: "a = (j, q)" by fastforce
    have IH: "first_at x (upd_pages k c r) = first_at x r" using Cons by simp
    show ?case
    proof (cases "j = k")
      case True
      then have q: "q = p" using Cons.prems a by simp
      have "page_pair c l = page_pair p l" if "key_index x p = Some l" for l
        using key_index_Some [OF that] x c(3) O(5) by blast
      then show ?thesis using True IH unfolding a q by (cases "key_index x p") (simp_all add: O(3))
    next
      case False
      then show ?thesis using IH unfolding a by (cases "key_index x q") simp_all
    qed
  qed simp
  ultimately show ?thesis by simp
qed

section \<open>What an overwriting put does to the pages\<close>

definition over_effect :: "htab \<Rightarrow> mem \<Rightarrow> mem \<Rightarrow> pgno \<Rightarrow> mem \<Rightarrow> htab \<Rightarrow> bool" where
  "over_effect h kb bytes k c E \<longleftrightarrow> pool_step h E \<and> tsession E {} \<and> theld E = Map.empty \<and>
     (\<exists>ps c0 i d d1 p q. bucket_pages h kb ps \<and> (k, c0) \<in> set ps \<and> i < page_num c0 \<and> page_keys c0 ! i = kb \<and>
        first_at kb ps = Some (k, i, d) \<and> bucket_wf c \<and> page_pairs c = (page_pairs c0)[i := (kb, d1)] \<and>
        CURR_PGNO c = CURR_PGNO c0 \<and> NEXT_PGNO c = NEXT_PGNO c0 \<and> PTYPE c = PTYPE c0 \<and>
        tview h (dp_first d) = Some p \<and> PTYPE p = ucast HASH_DATA_PAGE \<and>
        tview E = (tview h)(dp_first d \<mapsto> q, k \<mapsto> c) \<and> length q = length p \<and> CURR_PGNO q = CURR_PGNO p \<and>
        NEXT_PGNO q = NEXT_PGNO p \<and> PTYPE q = PTYPE p \<and> NUM_ENT q = NUM_ENT p \<and> OFFSET q = OFFSET p \<and>
        (\<forall>a. (dp_first d, a) \<notin> datum_foot h (tview h) d \<longrightarrow> a < length p \<longrightarrow> q ! a = p ! a) \<and>
        datum_foot h (tview E) d1 \<subseteq> datum_foot h (tview h) d \<and> datum h (tview E) (item_of k i) d1 [] bytes \<and>
        unat (datap_roff h d1) + BIG_DATA_OVERHEAD + datap_len h d1 \<le> bsz h)"

text \<open>The first page of a datum, as far as a value that is not longer reaches, is its own.\<close>

lemma foot_first_page:
  assumes d: "datum h V item d ns w" and n: "n \<le> datap_len h d" "unat (datap_roff h d) + BIG_DATA_OVERHEAD + n \<le> bsz h"
  shows "{dp_first d} \<times> {unat (datap_roff h d)..<unat (datap_roff h d) + BIG_DATA_OVERHEAD + n} \<subseteq> datum_foot h V d"
proof -
  let ?s = "unat (datap_roff h d) + BIG_DATA_OVERHEAD"
  obtain p where p: "V (dp_first d) = Some p" "data_from V (bsz h) p ?s (datap_len h d) = Some (ns, w)"
    using d by (auto simp: datum_def)
  have chunk: "(dp_first d, a) \<in> data_foot V (bsz h) (dp_first d) p ?s (datap_len h d)" if a: "?s \<le> a" "a < ?s + n" for a
  proof (cases "?s + datap_len h d \<le> bsz h")
    case True
    then have "data_foot V (bsz h) (dp_first d) p ?s (datap_len h d) = {dp_first d} \<times> {?s..<?s + datap_len h d}"
      by (subst data_foot.simps) (rule if_P)
    then show ?thesis using n(1) a by simp
  next
    case False
    moreover from this have "\<not> bsz h \<le> ?s" using p(2) by (auto simp: data_from.simps [of V] split: if_splits)
    ultimately have "data_foot V (bsz h) (dp_first d) p ?s (datap_len h d) = {dp_first d} \<times> {?s..<bsz h} \<union>
        (case V (NEXT_PGNO p) of None \<Rightarrow> {}
         | Some q \<Rightarrow> data_foot V (bsz h) (NEXT_PGNO p) q BIG_PAGE_OVERHEAD (datap_len h d - (bsz h - ?s)))"
      by (subst data_foot.simps) (simp only: if_False)
    then show ?thesis using n(2) a by simp
  qed
  have "(dp_first d, a) \<in> datum_foot h V d" if "unat (datap_roff h d) \<le> a" "a < ?s + n" for a
    using chunk [of a] that p(1) by (cases "a < ?s") (simp_all add: datum_foot_def)
  then show ?thesis by auto
qed

lemma content_nth: "length q = length p \<Longrightarrow> a < length p \<Longrightarrow> q ! a = p ! a \<Longrightarrow> page_content q ! a = page_content p ! a"
  by (simp add: page_content_def set_CHKSUM_def wr32_def nth_mem_put mem_put_def nth_append)

lemma over_effectE:
  assumes "over_effect h kb bytes k c E"
  obtains ps c0 i d d1 p q where "pool_step h E" "tsession E {}" "theld E = Map.empty" "bucket_pages h kb ps" "(k, c0) \<in> set ps"
    "i < page_num c0" "page_keys c0 ! i = kb" "first_at kb ps = Some (k, i, d)" "bucket_wf c"
    "page_pairs c = (page_pairs c0)[i := (kb, d1)]" "CURR_PGNO c = CURR_PGNO c0" "NEXT_PGNO c = NEXT_PGNO c0"
    "PTYPE c = PTYPE c0" "tview h (dp_first d) = Some p" "PTYPE p = ucast HASH_DATA_PAGE"
    "tview E = (tview h)(dp_first d \<mapsto> q, k \<mapsto> c)" "length q = length p" "CURR_PGNO q = CURR_PGNO p"
    "NEXT_PGNO q = NEXT_PGNO p" "PTYPE q = PTYPE p" "NUM_ENT q = NUM_ENT p" "OFFSET q = OFFSET p"
    "\<And>a. (dp_first d, a) \<notin> datum_foot h (tview h) d \<Longrightarrow> a < length p \<Longrightarrow> q ! a = p ! a"
    "datum_foot h (tview E) d1 \<subseteq> datum_foot h (tview h) d" "datum h (tview E) (item_of k i) d1 [] bytes"
    "tview h k = Some c0" "PTYPE c0 = ucast HASH_BUCKET_PAGE" "CURR_PGNO c0 = k" "k \<noteq> dp_first d" "page_num c \<noteq> 0"
    "found h kb k i d" "\<And>x. first_at x (upd_pages k c ps) = (if x = kb then Some (k, i, d1) else first_at x ps)"
    "unat (datap_roff h d1) + BIG_DATA_OVERHEAD + datap_len h d1 \<le> bsz h"
proof -
  obtain ps c0 i d d1 p q where P: "pool_step h E" "tsession E {}" "theld E = Map.empty" "bucket_pages h kb ps" "(k, c0) \<in> set ps"
    "i < page_num c0" "page_keys c0 ! i = kb" "first_at kb ps = Some (k, i, d)" "bucket_wf c"
    "page_pairs c = (page_pairs c0)[i := (kb, d1)]" "CURR_PGNO c = CURR_PGNO c0" "NEXT_PGNO c = NEXT_PGNO c0"
    "PTYPE c = PTYPE c0" "tview h (dp_first d) = Some p" "PTYPE p = ucast HASH_DATA_PAGE"
    "tview E = (tview h)(dp_first d \<mapsto> q, k \<mapsto> c)" "length q = length p" "CURR_PGNO q = CURR_PGNO p"
    "NEXT_PGNO q = NEXT_PGNO p" "PTYPE q = PTYPE p" "NUM_ENT q = NUM_ENT p" "OFFSET q = OFFSET p"
    "\<forall>a. (dp_first d, a) \<notin> datum_foot h (tview h) d \<longrightarrow> a < length p \<longrightarrow> q ! a = p ! a"
    "datum_foot h (tview E) d1 \<subseteq> datum_foot h (tview h) d" "datum h (tview E) (item_of k i) d1 [] bytes"
    "unat (datap_roff h d1) + BIG_DATA_OVERHEAD + datap_len h d1 \<le> bsz h"
    using assms unfolding over_effect_def by (elim conjE exE)
  obtain n0 where n0: "chain (tview h) n0 ps" using P(4) by (auto simp: bucket_pages_def bucket_chain_def)
  note C = chain_wf [OF n0]
  have c0: "tview h k = Some c0" "PTYPE c0 = ucast HASH_BUCKET_PAGE" "CURR_PGNO c0 = k" using C [OF P(5)] by simp_all
  have "k \<noteq> dp_first d" using c0 P(14,15) by (auto simp: ffdb_consts)
  moreover have "page_num c \<noteq> 0" using overwritten_pairs(1) [OF P(10,6,7)] P(6) by simp
  moreover have "found h kb k i d" using P(4,8) by (auto simp: found_def)
  moreover have "first_at x (upd_pages k c ps) = (if x = kb then Some (k, i, d1) else first_at x ps)" for x
    by (rule first_at_over [OF P(10,6,7) _ P(8)]) (use C c0(1) in fastforce)
  ultimately show thesis using that [OF P(1-22) _ P(24,25) c0] P(23,26) by simp
qed

text \<open>The data of the other keys.\<close>

lemma over_effect_frame:
  assumes dis: "disjoint_data h" and o: "over_effect h kb bytes k c E"
    and x: "x \<noteq> kb" "found h x n i e" and e: "datum h (tview h) it e ns w"
  shows "datum h (tview E) it e ns w \<and> datum_foot h (tview E) e = datum_foot h (tview h) e"
  using o
proof (rule over_effectE)
  fix ps c0 j d d1 p q
  assume A: "tview h (dp_first d) = Some p" "PTYPE p = ucast HASH_DATA_PAGE"
    "tview E = (tview h)(dp_first d \<mapsto> q, k \<mapsto> c)" "length q = length p" "CURR_PGNO q = CURR_PGNO p"
    "NEXT_PGNO q = NEXT_PGNO p" "PTYPE q = PTYPE p" "NUM_ENT q = NUM_ENT p"
    "\<And>a. (dp_first d, a) \<notin> datum_foot h (tview h) d \<Longrightarrow> a < length p \<Longrightarrow> q ! a = p ! a"
    "tview h k = Some c0" "PTYPE c0 = ucast HASH_BUCKET_PAGE" "k \<noteq> dp_first d" "found h kb k j d"
  have apart: "datum_foot h (tview h) e \<inter> datum_foot h (tview h) d = {}" by (rule disjoint_dataD [OF dis x A(13)])
  have "same_at (datum_foot h (tview h) e) (tview h) (tview E)"
    unfolding same_at_def
  proof (intro allI impI)
    fix m r assume r: "tview h m = Some r" "PTYPE r = ucast HASH_DATA_PAGE"
    then have mk: "m \<noteq> k" using A(10,11) by (auto simp: ffdb_consts)
    show "\<exists>q. tview E m = Some q \<and> length q = length r \<and> CURR_PGNO q = CURR_PGNO r \<and> NEXT_PGNO q = NEXT_PGNO r \<and>
        PTYPE q = PTYPE r \<and> (1 \<le> NUM_ENT r \<longrightarrow> 1 \<le> NUM_ENT q) \<and>
        (\<forall>a. (m, a) \<in> datum_foot h (tview h) e \<longrightarrow> a < length r \<longrightarrow> q ! a = r ! a)"
    proof (cases "m = dp_first d")
      case True
      then have "r = p" using r(1) A(1) by simp
      moreover have "tview E m = Some q" using True A(3,12) by simp
      moreover have "q ! a = p ! a" if "(m, a) \<in> datum_foot h (tview h) e" "a < length p" for a
        using A(9) [of a] apart that True by blast
      ultimately show ?thesis using A(4-8) by (intro exI [of _ q]) simp
    next
      case False
      then show ?thesis using A(3) r(1) mk by simp
    qed
  qed
  then show ?thesis by (rule datum_frame [OF e subset_refl])
qed

lemma over_effect_represents:
  assumes r: "represents h f" and dis: "disjoint_data h" and o: "over_effect h kb bytes k c E"
  shows "represents E (f(kb \<mapsto> bytes))"
proof -
  have db: "db_ok h" using r by (simp add: represents_def)
  obtain p0 where p0: "data_page_ok h p0" using db_data_page [OF db] by blast
  let ?V = "tview h" and ?W = "tview E" and ?D = "curr_dpage h"
  show ?thesis using o
  proof (rule over_effectE)
    fix ps c0 i d d1 p q
    assume A: "pool_step h E" "tsession E {}" "theld E = Map.empty" "bucket_pages h kb ps" "(k, c0) \<in> set ps"
      "bucket_wf c" "CURR_PGNO c = CURR_PGNO c0" "NEXT_PGNO c = NEXT_PGNO c0"
      "PTYPE c = PTYPE c0" "?V (dp_first d) = Some p" "PTYPE p = ucast HASH_DATA_PAGE"
      "?W = ?V(dp_first d \<mapsto> q, k \<mapsto> c)" "CURR_PGNO q = CURR_PGNO p"
      "NEXT_PGNO q = NEXT_PGNO p" "PTYPE q = PTYPE p" "NUM_ENT q = NUM_ENT p" "OFFSET q = OFFSET p"
      "datum_foot h ?W d1 \<subseteq> datum_foot h ?V d" "datum h ?W (item_of k i) d1 [] bytes"
      "?V k = Some c0" "PTYPE c0 = ucast HASH_BUCKET_PAGE" "k \<noteq> dp_first d" "page_num c \<noteq> 0"
      "found h kb k i d" "\<And>x. first_at x (upd_pages k c ps) = (if x = kb then Some (k, i, d1) else first_at x ps)"
    note F = pool_step_fields [OF A(1)]
    have S: "bsz E = bsz h" by (rule datum_same(3)) (simp_all add: F)
    define pe where "pe = (if dp_first d = ?D then q else p0)"
    have P0: "?V ?D = Some p0" "PTYPE p0 = ucast HASH_DATA_PAGE" using p0 by (simp_all add: data_page_ok_def)
    have kD: "k \<noteq> ?D" using P0 A(20,21) by (auto simp: ffdb_consts)
    have same: "CURR_PGNO pe = CURR_PGNO p0" "PTYPE pe = PTYPE p0" "NUM_ENT pe = NUM_ENT p0" "OFFSET pe = OFFSET p0"
      using A(10,13-17) P0(1) by (auto simp: pe_def)
    then have lim: "free_from (bsz h) pe = free_from (bsz h) p0" by (simp add: free_from_def)
    have "?W ?D = Some pe" using A(12) kD P0(1) by (auto simp: pe_def)
    then have pe: "data_page_ok E pe"
      using p0 F(8) same lim unfolding data_page_ok_def F S by simp
    have below: "datum_below h ?W ?D (free_from (bsz h) pe) e'"
      if B: "found h x n j e" "datum h ?W it e' ns w" "datum_foot h ?W e' \<subseteq> datum_foot h ?V e" for x n j e e' it ns w
    proof -
      obtain ms u where u: "datum h ?V (item_of n j) e ms u" "datum_below h ?V ?D (free_from (bsz h) p0) e"
        using db_found [OF db p0 B(1)] by blast
      show ?thesis using datum_below_foot [OF u(1)] datum_below_foot [OF B(2)] u(2) B(3) lim by auto
    qed
    show ?thesis
    proof (rule represents_change [OF r A(4,5,10,11,1,12,2,3,6-9,23,25) pe _ A(19)])
      fix x n j e ms w
      assume x: "x \<noteq> kb" "found h x n j e" "datum h ?V (item_of n j) e ms w"
      have "datum h ?W (item_of n j) e ms w \<and> datum_foot h ?W e = datum_foot h ?V e"
        by (rule over_effect_frame [OF dis o x])
      then show "datum h ?W (item_of n j) e ms w \<and> datum_below h ?W ?D (free_from (bsz h) pe) e"
        using below [OF x(2)] by blast
    qed (rule below [OF A(24,19,18)])
  qed
qed

lemma over_effect_disjoint:
  assumes db: "db_ok h" and dis: "disjoint_data h" and o: "over_effect h kb bytes k c E"
  shows "disjoint_data E"
  using o
proof (rule over_effectE)
  fix ps c0 i d d1 p q
  assume A: "pool_step h E" "bucket_pages h kb ps" "(k, c0) \<in> set ps"
    "bucket_wf c" "CURR_PGNO c = CURR_PGNO c0" "NEXT_PGNO c = NEXT_PGNO c0"
    "PTYPE c = PTYPE c0" "tview h (dp_first d) = Some p" "PTYPE p = ucast HASH_DATA_PAGE"
    "tview E = (tview h)(dp_first d \<mapsto> q, k \<mapsto> c)" "datum_foot h (tview E) d1 \<subseteq> datum_foot h (tview h) d" "page_num c \<noteq> 0"
    "found h kb k i d" "\<And>x. first_at x (upd_pages k c ps) = (if x = kb then Some (k, i, d1) else first_at x ps)"
  show ?thesis
  proof (rule disjoint_change [OF dis A(1), of kb d1])
    show "if x = kb then e = d1 else found h x n j e" if "found E x n j e" for x n j e
      using that pages_change(3) [OF db A(2,3,8,9,1,10,4-7,12,14), of x n j e] by (auto split: if_splits)
    fix x n j e assume x: "x \<noteq> kb" "found h x n j e"
    obtain p0 where "data_page_ok h p0" using db_data_page [OF db] by blast
    then obtain ns w where "datum h (tview h) (item_of n j) e ns w" using db_found [OF db _ x(2)] by blast
    then have "datum_foot h (tview E) e = datum_foot h (tview h) e" using over_effect_frame [OF dis o x] by blast
    moreover have "datum_foot h (tview h) e \<inter> datum_foot h (tview h) d = {}" by (rule disjoint_dataD [OF dis x A(13)])
    ultimately show "datum_foot h (tview E) e = datum_foot h (tview h) e \<and> datum_foot h (tview h) e \<inter> datum_foot h (tview E) d1 = {}"
      using A(11) by blast
  qed
qed

lemma buckets_view: "buckets H V B Cs \<Longrightarrow> (j, q) \<in> set (concat Cs) \<Longrightarrow> V j = Some q"
proof (induction Cs arbitrary: B)
  case (Cons ps Cs)
  then show ?case using chain_wf [of V _ ps j q] by (auto simp: bucket_chain_def)
qed simp

lemma keys_over:
  assumes "\<And>q. (k, q) \<in> set ps \<Longrightarrow> page_keys q = page_keys c"
  shows "map spot_key (chain_spots (upd_pages k c ps)) = map spot_key (chain_spots ps)"
  unfolding keys_of_pages upd_pages_def map_map using assms by (intro arg_cong [of _ _ concat] map_cong) auto

lemma placed_keys:
  assumes "\<And>ps. ps \<in> set Cs \<Longrightarrow> map spot_key (chain_spots (u ps)) = map spot_key (chain_spots ps)"
  shows "placed h B (map u Cs) = placed h B Cs"
  using assms
proof (induction Cs arbitrary: B)
  case (Cons ps Cs)
  have "spot_key ` set (chain_spots (u ps)) = spot_key ` set (chain_spots ps)"
    using arg_cong [OF Cons.prems [of ps], of set] by simp
  then have "(\<forall>s\<in>set (chain_spots (u ps)). bucket_of h (spot_key s) = of_nat B) \<longleftrightarrow>
      (\<forall>s\<in>set (chain_spots ps). bucket_of h (spot_key s) = of_nat B)" by (metis (no_types, lifting) image_iff)
  then show ?case using Cons by simp
qed simp

lemma over_effect_tidy:
  assumes t: "tidy h Cs" and o: "over_effect h kb bytes k c E"
  shows "tidy E (map (upd_pages k c) Cs)"
  using o
proof (rule over_effectE)
  fix ps c0 i d d1 p q
  assume A: "pool_step h E" "i < page_num c0" "page_keys c0 ! i = kb" "bucket_wf c" "page_pairs c = (page_pairs c0)[i := (kb, d1)]"
    "CURR_PGNO c = CURR_PGNO c0" "NEXT_PGNO c = NEXT_PGNO c0" "PTYPE c = PTYPE c0"
    "tview h (dp_first d) = Some p" "PTYPE p = ucast HASH_DATA_PAGE" "tview E = (tview h)(dp_first d \<mapsto> q, k \<mapsto> c)"
    "tview h k = Some c0" "PTYPE c0 = ucast HASH_BUCKET_PAGE" "CURR_PGNO c0 = k" "page_num c \<noteq> 0"
  note F = pool_step_fields [OF A(1)]
  have T: "buckets (hdr h) (tview h) 0 Cs" "placed h 0 Cs" "distinct (map spot_key (all_spots Cs))"
    "distinct (map fst (concat Cs))" "\<And>x. bucket_of h x \<le> h_max_bucket (hdr h)" using t by (simp_all add: tidy_def)
  have bo: "bucket_of E = bucket_of h" by (simp add: fun_eq_iff bucket_of_def F)
  have "buckets (hdr h) (tview E) 0 (map (upd_pages k c) Cs)"
  proof (rule buckets_upd [OF T(1)])
    fix j r
    assume "tview E j \<noteq> tview h j" "tview h j = Some r"
    then show "PTYPE r \<noteq> ucast HASH_BUCKET_PAGE \<or> j = k"
      using A(9-11) by (cases "j = dp_first d") (auto simp: ffdb_consts split: if_splits)
  qed (use A in simp_all)
  moreover have keys: "map spot_key (chain_spots (upd_pages k c ps)) = map spot_key (chain_spots ps)"
    if "set ps \<subseteq> set (concat Cs)" for ps
  proof (rule keys_over)
    fix r assume "(k, r) \<in> set ps"
    then have "r = c0" using buckets_view [OF T(1), of k r] that A(12) by auto
    then show "page_keys r = page_keys c" using overwritten_pairs(2) [OF A(5,2,3)] by simp
  qed
  moreover have "placed E B Xs = placed h B Xs" for B Xs
    by (induction Xs arbitrary: B) (simp_all add: bo)
  moreover have "placed h 0 (map (upd_pages k c) Cs)"
    using placed_keys [of Cs "upd_pages k c"] keys T(2) by fastforce
  moreover have cc: "concat (map (upd_pages k c) Cs) = upd_pages k c (concat Cs)"
    by (induction Cs) simp_all
  moreover have "distinct (map spot_key (all_spots (map (upd_pages k c) Cs)))"
    using T(3) keys [OF subset_refl] by (simp add: all_spots_concat cc)
  moreover have "map fst (upd_pages k c (concat Cs)) = map fst (concat Cs)"
    by (auto simp: upd_pages_def)
  ultimately show ?thesis using T(4,5) by (simp add: tidy_def bo F)
qed

lemma over_effect_kept:
  assumes "kept h f" "over_effect h kb bytes k c E"
  shows "kept E (f(kb \<mapsto> bytes))"
  using over_effect_represents [OF keptD(1,3) [OF assms(1)] assms(2)] over_effect_tidy [OF _ assms(2)]
    over_effect_disjoint [OF keptD(4,3) [OF assms(1)] assms(2)] keptD(2) [OF assms(1)]
  unfolding kept_def by blast

section \<open>Putting a key that is there\<close>

lemma found_datum:
  assumes r: "represents h f" and k: "f x = Some v"
  obtains n i d ns where "found h x n i d" "datum h (tview h) (item_of n i) d ns v" "datap_len h d = length v"
proof -
  have "stored h x v" using r k unfolding represents_def by (metis option.simps(5))
  then obtain n i d ns where d: "found h x n i d" "datum h (tview h) (item_of n i) d ns v"
    unfolding stored_def found_def by blast
  have s: "tsession h {}" using r by (simp add: represents_def db_ok_def)
  obtain p where "tview h (dp_first d) = Some p"
    "data_from (tview h) (bsz h) p (unat (datap_roff h d) + BIG_DATA_OVERHEAD) (datap_len h d) = Some (ns, v)"
    using d(2) by (auto simp: datum_def)
  then have "datap_len h d = length v" using tview_length [OF s] by (auto simp: bsz_def intro!: data_from_length [symmetric])
  then show thesis using that d by blast
qed

lemma found_unique: "found h x n i d \<Longrightarrow> found h x n' i' d' \<Longrightarrow> n = n' \<and> i = i' \<and> d = d'"
  unfolding found_def by (metis Pair_inject bucket_pages_unique option.inject)

text \<open>A value of \<open>len\<close> bytes fits on the first page of the datum of the key.\<close>

definition over_room :: "htab \<Rightarrow> mem \<Rightarrow> nat \<Rightarrow> bool" where
  "over_room h x len \<longleftrightarrow> (\<exists>n i d. found h x n i d \<and> unat (datap_roff h d) + BIG_DATA_OVERHEAD + len \<le> bsz h)"

text \<open>A key that is on a page is not too long.\<close>

lemma page_key_small:
  assumes "bucket_wf p" "i < page_num p"
  shows "length (page_keys p ! i) + 56 \<le> length p"
proof -
  note R = bucket_wf_reads [OF assms]
  have "page_keys p ! i = mem_get p (unat (KEY_OFF p i)) (unat (KEY_LEN p i))"
    using assms(2) by (simp add: page_keys_def page_pairs_def page_pair_def)
  then have "length (page_keys p ! i) = unat (KEY_LEN p i)" using R(4) by simp
  then show ?thesis using R by linarith
qed

lemma found_not_refused:
  assumes db: "db_ok h" and f: "found h (dbt_bytes key) n i d" "dbt_ok key" and v: "dt_size val < 2 ^ 32"
  shows "\<not> put_refused h key val"
proof -
  obtain ps where ps: "bucket_pages h (dbt_bytes key) ps" "first_at (dbt_bytes key) ps = Some (n, i, d)" using f(1) by (auto simp: found_def)
  obtain p where p: "(n, p, i) \<in> set (chain_spots ps)" "spot_key (n, p, i) = dbt_bytes key"
    using first_at_in_chain [OF ps(2)] by blast
  then have q: "(n, p) \<in> set ps" "i < page_num p" by (auto simp: chain_spots_def spots_def)
  obtain n0 where "chain (tview h) n0 ps" using ps(1) by (auto simp: bucket_pages_def bucket_chain_def)
  then have w: "bucket_wf p" "tview h n = Some p" using chain_wf [OF _ q(1)] by simp_all
  have "length p = bsz h" using tview_length [of h "{}" n p] w(2) db by (simp add: db_ok_def bsz_def)
  moreover have "page_keys p ! i = dbt_bytes key" using p(2) q(2) by (simp add: spot_key_def page_keys_def page_pairs_def)
  moreover have "length (dbt_bytes key) = dt_size key" using f(2) by (simp add: dbt_ok_def dbt_bytes_def)
  ultimately have "dt_size key + 56 \<le> bsz h" using page_key_small [OF w(1) q(2)] by simp
  then show ?thesis using v db max_keysize [of h] by (simp add: put_refused_def FFDB_MAX_DATASIZE_def db_ok_def)
qed

lemma hash_put_over:
  assumes r: "represents h f" and key: "dbt_ok key" "dt_size key < 2 ^ 31" "f (dbt_bytes key) = Some v"
    and val: "dbt_ok val" "0 < dt_size val" "dt_size val \<le> length v" "length v < 2 ^ 32"
    and room: "over_room h (dbt_bytes key) (dt_size val)" and rw: "\<not> rdonly h"
  shows "\<exists>E k c. ffdb_hash_put h key val 0 = Some (0, E) \<and> over_effect h (dbt_bytes key) (dbt_bytes val) k c E"
proof -
  let ?kb = "dbt_bytes key" and ?V = "tview h"
  have db: "db_ok h" using r by (simp add: represents_def)
  have dbs: "bsz h \<le> 2 ^ 20" using db by (simp add: db_ok_def)
  obtain n j d ns where fd: "found h ?kb n j d" "datum h ?V (item_of n j) d ns v" "datap_len h d = length v"
    by (rule found_datum [OF r key(3)])
  have fits: "unat (datap_roff h d) + BIG_DATA_TOTAL_SIZE val \<le> bsz h"
    using room found_unique [OF fd(1)] by (auto simp: over_room_def BIG_DATA_TOTAL_SIZE_def)
  obtain ps where ps: "bucket_pages h ?kb ps" "first_at ?kb ps = Some (n, j, d)" using fd(1) by (auto simp: found_def)
  obtain b k m i h1 item where F: "ffdb_find_item h key (Some val) (new_item h key) = Some (0, item, h1)"
    "it_pagep item = Some b" "it_pgndx item = of_nat i" "it_data_chksum item = ffdb_crc32_checksum 0 (dbt_bytes val)"
    "(k, page_content m) \<in> set ps" "theld h1 = [b \<mapsto> (k, m)]" "page_good (hdr h) m" "tview h1 = ?V"
    "tsession h1 {}" "pool_step h h1" "it_status item = ITEM_OK" "n = k" "j = i" "i < page_num m" "d = snd (page_pair m i)"
  proof (rule find_item_db [OF db key(1,2) ps(1), of "Some val"])
  qed (use that ps(2) in simp)
  note S = pool_step_fields [OF F(10)]
  note D1 = datum_same [of h1 h, unfolded S, OF refl refl refl]
  have L: "datap_roff h1 = datap_roff h" "datap_len h1 = datap_len h" "over_header h1 = over_header h"
    by (simp_all add: fun_eq_iff datap_roff_def datap_len_def over_header_def after_v5_def S)
  obtain n0 where n0: "chain ?V n0 ps" using ps(1) by (auto simp: bucket_pages_def bucket_chain_def)
  note C = chain_wf [OF n0 F(5)]
  have m: "bucket_wf m" "PTYPE m = ucast HASH_BUCKET_PAGE" "page_good (hdr h1) m" using C F(7) S by simp_all
  let ?o = "unat (datap_roff h d)" and ?d1 = "over_datap val d"
  define q where "q = mem_put m (DATAP m i) (datap_bytes ?d1)"
  define over where "over = (\<lambda>dm. page_over ?o (over_header h val (rd_data_header dm ?o)) (dbt_bytes val) dm)"
  have le: "dt_size val \<le> datap_len h d" using fd(3) val(3) by simp
  note R = replace_pair_fits [OF F(9,6) m(3) _ m(1,2) F(14,2,3,4), where key = key and it = "item_of n j" and ns = ns and w = v,
      unfolded F(15) [symmetric] F(8) L D1, OF dbs fd(2) val(1) le fits]
  obtain dm E where E: "ffdb_add_pair h1 key val item True = Some (0, E)" "theld E = Map.empty" "tsession E {}" "pool_step h1 E"
    "?V (dp_first d) = Some (page_content dm)" "length dm = bsz h"
    "tview E = ?V(dp_first d \<mapsto> page_content (over dm), k \<mapsto> page_content q)"
    using R by (elim exE conjE) (rule that; simp only: q_def over_def)
  note O = overwrite_datap [OF m(1) F(14), of ?d1, folded q_def]
  have p: "?o \<ge> 32" "PTYPE dm = ucast HASH_DATA_PAGE" "?o + 20 + dt_size val \<le> bsz h"
    using fd(2) E(5) fits by (auto simp: datum_def BIG_DATA_TOTAL_SIZE_def ffdb_consts)
  have lb: "length (dbt_bytes val) = dt_size val" using val(1) by (simp add: dbt_ok_def dbt_bytes_def)
  have f: "?o + 20 + length (dbt_bytes val) \<le> length dm" using p(3) E(6) lb by simp
  note P = page_over_props [OF p(1) f, where dh = "over_header h val (rd_data_header dm ?o)"]
  have small: "datap_len h d < 2 ^ 32" "dt_size val < 2 ^ 32" using fd(3) val(3,4) by simp_all
  have "PTYPE (page_content dm) \<noteq> PTYPE (page_content m)" using p(2) m(2) by (simp add: ffdb_consts)
  moreover have "?V k = Some (page_content m)" using C by simp
  ultimately have kD: "k \<noteq> dp_first d" using E(5) by (metis option.inject)
  have WD: "tview E (dp_first d) = Some (page_content (over dm))" using E(7) kD by simp
  have new: "datum h (tview E) (item_of k i) ?d1 [] (dbt_bytes val)"
    using datum_over [OF fd(2) E(5,6) val(1,2) fits small, of "tview E"] WD F(12,13) by (simp add: over_def)
  note OD = over_datap_props(1-3) [OF small]
  have "datum_foot h (tview E) ?d1 = {dp_first d} \<times> {?o..<?o + BIG_DATA_OVERHEAD + dt_size val}"
    using foot_one_page [of "tview E" ?d1 _ h] WD p(3) unfolding OD by (simp add: ffdb_consts)
  moreover have sub: "{dp_first d} \<times> {?o..<?o + BIG_DATA_OVERHEAD + dt_size val} \<subseteq> datum_foot h ?V d"
    by (rule foot_first_page [OF fd(2)]) (use fd(3) val(3) p(3) in \<open>simp_all add: ffdb_consts\<close>)
  ultimately have foot: "datum_foot h (tview E) ?d1 \<subseteq> datum_foot h ?V d" by simp
  have bytes: "page_content (over dm) ! a = page_content dm ! a"
    if a: "(dp_first d, a) \<notin> datum_foot h ?V d" "a < length (page_content dm)" for a
  proof -
    have "a < ?o \<or> ?o + 20 + length (dbt_bytes val) \<le> a"
    proof (rule ccontr)
      assume "\<not> (a < ?o \<or> ?o + 20 + length (dbt_bytes val) \<le> a)"
      then have "(dp_first d, a) \<in> {dp_first d} \<times> {?o..<?o + BIG_DATA_OVERHEAD + dt_size val}"
        using lb by (simp add: BIG_DATA_OVERHEAD_def)
      then show False using sub a(1) by blast
    qed
    then have "over dm ! a = dm ! a" unfolding over_def by (rule P(10))
    then show ?thesis using a(2) P(1) by (intro content_nth) (simp_all add: over_def)
  qed
  have "over_effect h ?kb (dbt_bytes val) k (page_content q) E"
    unfolding over_effect_def
  proof (rule conjI, rule pool_step_trans [OF F(10) E(4)], rule conjI, rule E(3), rule conjI, rule E(2),
      rule exI [of _ ps], rule exI [of _ "page_content m"], rule exI [of _ i], rule exI [of _ d], rule exI [of _ ?d1],
      rule exI [of _ "page_content dm"], rule exI [of _ "page_content (over dm)"], intro conjI)
    obtain p' where p': "(k, p', i) \<in> set (chain_spots ps)" "spot_key (k, p', i) = ?kb"
      using first_at_in_chain [OF ps(2)] F(12,13) by blast
    then have "(k, p') \<in> set ps" by (auto simp: chain_spots_def spots_def)
    then have "p' = page_content m" using chain_wf(1) [OF n0] C(1) by fastforce
    then show kb: "page_keys (page_content m) ! i = ?kb"
      using p'(2) F(14) by (simp add: spot_key_def page_keys_def page_pairs_def)
    show "page_pairs (page_content q) = (page_pairs (page_content m))[i := (?kb, ?d1)]"
    proof -
      have "page_keys m ! i = ?kb" using kb m(1) by simp
      then have "fst (page_pair m i) = ?kb" using F(14) by (simp add: page_keys_def page_pairs_def)
      then show ?thesis using O(3,5) m(1) by simp
    qed
    show "\<forall>a. (dp_first d, a) \<notin> datum_foot h ?V d \<longrightarrow> a < length (page_content dm) \<longrightarrow>
        page_content (over dm) ! a = page_content dm ! a" using bytes by blast
  qed (use F E ps C P O p new foot OD in \<open>simp_all add: over_def BIG_DATA_OVERHEAD_def\<close>)
  moreover have "ffdb_hash_put h key val 0 = Some (0, E)"
    using found_not_refused [OF db fd(1) key(1) small(2)] F(1,11) E(1) rw by (simp add: ffdb_hash_put_def) (simp add: ffdb_consts)
  ultimately show ?thesis by blast
qed

text \<open>A longer value is refused, and the table stays as it is.\<close>

lemma hash_put_longer:
  assumes r: "represents h f" and key: "dbt_ok key" "dt_size key < 2 ^ 31" "f (dbt_bytes key) = Some v"
    and val: "length v < dt_size val" "dt_size val < 2 ^ 32" and rw: "\<not> rdonly h"
  shows "\<exists>h'. ffdb_hash_put h key val 0 = Some (- 1, h') \<and> same_pages h h' \<and> tsession h' {} \<and> theld h' = Map.empty"
proof -
  let ?kb = "dbt_bytes key"
  have db: "db_ok h" using r by (simp add: represents_def)
  obtain n j d ns where fd: "found h ?kb n j d" "datap_len h d = length v"
    by (rule found_datum [OF r key(3)])
  obtain ps where ps: "bucket_pages h ?kb ps" "first_at ?kb ps = Some (n, j, d)" using fd(1) by (auto simp: found_def)
  obtain b k m i h1 item where F: "ffdb_find_item h key (Some val) (new_item h key) = Some (0, item, h1)"
    "it_pagep item = Some b" "it_pgndx item = of_nat i" "(k, page_content m) \<in> set ps" "theld h1 = [b \<mapsto> (k, m)]"
    "page_good (hdr h) m" "tview h1 = tview h" "tsession h1 {}" "pool_step h h1" "it_status item = ITEM_OK" "i < page_num m"
    "d = snd (page_pair m i)"
  proof (rule find_item_db [OF db key(1,2) ps(1), of "Some val"])
  qed (use that ps(2) in simp)
  note S = pool_step_fields [OF F(9)]
  have L: "datap_len h1 = datap_len h" by (simp add: fun_eq_iff datap_len_def after_v5_def S)
  obtain n0 where "chain (tview h) n0 ps" using ps(1) by (auto simp: bucket_pages_def bucket_chain_def)
  then have m: "bucket_wf m" using chain_wf [OF _ F(4)] by simp
  have hb: "theld h1 b = Some (k, m)" and g: "page_good (hdr h1) m" using F(5,6) S by simp_all
  have at: "page_at h1 b = Some m" by (rule theld_page [OF hb])
  have ix: "unat (of_nat i :: u16) = i" using unat_index F(11) by blast
  have pd: "page_datap m i = Some d"
    using bucket_wf_reads [OF m F(11)] F(12) by (simp add: page_datap_def page_pair_def ffdb_consts)
  obtain h2 where h2: "ffdb_put_page h1 b False = Some (0, h2)" "tsession h2 ({} - {b})" "theld h2 = (theld h1)(b := None)"
    "tview h2 = tview h1" "pool_step h1 h2"
    by (rule put_page_session [OF F(8) hb g, of False]) auto
  have "ffdb_add_pair h1 key val item True = Some (- 1, h2)"
    using F(2,3) at ix pd h2(1) val(1) fd(2) by (simp add: ffdb_add_pair_def ffdb_replace_item_on_page_def L)
  then have "ffdb_hash_put h key val 0 = Some (- 1, h2)"
    using found_not_refused [OF db fd(1) key(1) val(2)] F(1,10) rw by (simp add: ffdb_hash_put_def) (simp add: ffdb_consts)
  moreover have "theld h2 = Map.empty" using h2(3) F(5) by (auto simp: fun_eq_iff)
  moreover have "same_pages h h2" using pool_step_trans [OF F(9) h2(5)] h2(4) F(7) by (simp add: same_pages_def)
  ultimately show ?thesis using h2(2) by auto
qed

section \<open>Values on one page\<close>

text \<open>Every value lies on one page, which holds as long as values are put that fit there.\<close>

definition one_page :: "htab \<Rightarrow> bool" where
  "one_page h \<longleftrightarrow> (\<forall>x n i d. found h x n i d \<longrightarrow> unat (datap_roff h d) + BIG_DATA_OVERHEAD + datap_len h d \<le> bsz h)"

lemma one_page_room:
  assumes "one_page h" "represents h f" "f x = Some v" "len \<le> length v"
  shows "over_room h x len" "length v < 2 ^ 20"
proof -
  obtain n i d ns where d: "found h x n i d" "datap_len h d = length v" by (rule found_datum [OF assms(2,3)])
  then have l: "unat (datap_roff h d) + BIG_DATA_OVERHEAD + length v \<le> bsz h" using assms(1) unfolding one_page_def by metis
  then show "over_room h x len" using d(1) assms(4) unfolding over_room_def
    by (intro exI [of _ n] exI [of _ i] exI [of _ d]) simp
  have "bsz h \<le> 2 ^ 20" using assms(2) by (simp add: represents_def db_ok_def)
  then show "length v < 2 ^ 20" using l by (simp add: BIG_DATA_OVERHEAD_def)
qed

lemma datap_same:
  assumes "h_version (hdr h') = h_version (hdr h)" "h_bsize (hdr h') = h_bsize (hdr h)"
  shows "datap_roff h' = datap_roff h" "datap_len h' = datap_len h" "bsz h' = bsz h"
proof -
  show "bsz h' = bsz h" using assms by (simp add: bsz_def)
  show "datap_roff h' = datap_roff h" "datap_len h' = datap_len h"
    using assms by (simp_all add: fun_eq_iff datap_roff_def datap_len_def after_v5_def)
qed

lemma one_page_step:
  assumes "db_ok h" "pool_step h h'" "tview h' = tview h" "one_page h"
  shows "one_page h'"
proof -
  note D = datap_same [of h' h, unfolded pool_step_fields [OF assms(2)], OF refl refl]
  have "found h' x n i d \<longleftrightarrow> found h x n i d" for x n i d
    by (simp add: found_def step_pages_iff [OF assms(1-3)])
  then show ?thesis using assms(4) by (simp add: one_page_def D)
qed

lemma one_page_put:
  assumes db: "db_ok h" and one: "one_page h" and put: "put_effect h kb k c E"
  shows "one_page (count_key E)"
proof -
  have st: "pool_step h E" using put by (simp add: put_effect_def)
  note D = datap_same [of "count_key E" h]
  have D: "datap_roff (count_key E) = datap_roff h" "datap_len (count_key E) = datap_len h" "bsz (count_key E) = bsz h"
    by (rule D; simp add: count_key_def pool_step_fields [OF st])+
  obtain d p c' where P: "unat (datap_roff h d) + BIG_DATA_OVERHEAD + datap_len h d \<le> bsz h"
    "\<forall>x n i e. found E x n i e \<longrightarrow> (if x = kb then e = d else found h x n i e)"
    by (rule put_effect_found [OF db put]) (rule that)
  have "unat (datap_roff h e) + BIG_DATA_OVERHEAD + datap_len h e \<le> bsz h" if "found (count_key E) x n i e" for x n i e
  proof -
    have "found E x n i e" using that by (simp add: found_def count_key_same)
    then have "if x = kb then e = d else found h x n i e" using P(2) by blast
    then show ?thesis using P(1) one by (cases "x = kb") (simp_all add: one_page_def)
  qed
  then show ?thesis by (simp add: one_page_def D)
qed

lemma one_page_over:
  assumes db: "db_ok h" and one: "one_page h" and o: "over_effect h kb bytes k c E"
  shows "one_page E"
  using o
proof (rule over_effectE)
  fix ps c0 i d d1 p q
  assume A: "pool_step h E" "bucket_pages h kb ps" "(k, c0) \<in> set ps"
    "bucket_wf c" "CURR_PGNO c = CURR_PGNO c0" "NEXT_PGNO c = NEXT_PGNO c0"
    "PTYPE c = PTYPE c0" "tview h (dp_first d) = Some p" "PTYPE p = ucast HASH_DATA_PAGE"
    "tview E = (tview h)(dp_first d \<mapsto> q, k \<mapsto> c)" "page_num c \<noteq> 0"
    "\<And>x. first_at x (upd_pages k c ps) = (if x = kb then Some (k, i, d1) else first_at x ps)"
    "unat (datap_roff h d1) + BIG_DATA_OVERHEAD + datap_len h d1 \<le> bsz h"
  note D = datap_same [of E h, unfolded pool_step_fields [OF A(1)], OF refl refl]
  have "unat (datap_roff h e) + BIG_DATA_OVERHEAD + datap_len h e \<le> bsz h" if "found E x n j e" for x n j e
  proof (cases "x = kb")
    case True
    then show ?thesis
      using that pages_change(3) [OF db A(2,3,8,9,1,10,4-7,11,12), of x n j e] A(13) by auto
  next
    case False
    then show ?thesis
      using that pages_change(3) [OF db A(2,3,8,9,1,10,4-7,11,12), of x n j e] one by (simp add: one_page_def)
  qed
  then show ?thesis by (simp add: one_page_def D)
qed

section \<open>The claims\<close>

text \<open>C2: Overwriting. In a table that is kept, putting a key that is there with a value that is not
  longer than the old one, and has room on its first page, succeeds and gives the map with the new
  value; a longer value is refused with \<open>-1\<close> and the map stays. Every other key keeps its value in
  both cases, and the table is kept, with all pages put back.\<close>
theorem put_overwrites:
  assumes "kept h f" "dbt_ok key" "dt_size key < 2 ^ 31" "f (dbt_bytes key) = Some v" "length v < 2 ^ 32"
    "dbt_ok val" "0 < dt_size val" "dt_size val < 2 ^ 32" "\<not> rdonly h"
  shows "if dt_size val \<le> length v
    then over_room h (dbt_bytes key) (dt_size val) \<longrightarrow>
      (\<exists>h'. ffdb_hash_put h key val 0 = Some (0, h') \<and> kept h' (f(dbt_bytes key \<mapsto> dbt_bytes val)))
    else \<exists>h'. ffdb_hash_put h key val 0 = Some (- 1, h') \<and> kept h' f"
proof (cases "dt_size val \<le> length v")
  case True
  have "\<exists>h'. ffdb_hash_put h key val 0 = Some (0, h') \<and> kept h' (f(dbt_bytes key \<mapsto> dbt_bytes val))"
    if "over_room h (dbt_bytes key) (dt_size val)"
    using hash_put_over [OF keptD(1) [OF assms(1)] assms(2-4,6,7) True assms(5) that assms(9)] over_effect_kept [OF assms(1)]
    by blast
  then show ?thesis using True by simp
next
  case False
  then obtain h' where "ffdb_hash_put h key val 0 = Some (- 1, h')" "same_pages h h'" "tsession h' {}" "theld h' = Map.empty"
    using hash_put_longer [OF keptD(1) [OF assms(1)] assms(2-4) _ assms(8,9)] by auto
  then show ?thesis using False kept_step [OF assms(1)] by auto
qed

section \<open>Stores that can be written again\<close>

text \<open>
  A map store in which the value of a key can be replaced. A sequence of writes leaves for
  each key the last value written.
\<close>

fun writable :: "('s \<Rightarrow> 'k \<Rightarrow> 'v \<Rightarrow> bool) \<Rightarrow> ('v \<Rightarrow> 'v \<Rightarrow> bool) \<Rightarrow> ('s \<Rightarrow> 'k \<Rightarrow> 'v \<Rightarrow> 's option) \<Rightarrow>
    's \<Rightarrow> ('k \<Rightarrow> 'v option) \<Rightarrow> ('k \<times> 'v) list \<Rightarrow> bool" where
  "writable room over put s f [] \<longleftrightarrow> True"
| "writable room over put s f ((k, v) # r) \<longleftrightarrow> (case f k of None \<Rightarrow> room s k v | Some w \<Rightarrow> over w v) \<and>
     (case put s k v of None \<Rightarrow> True | Some s' \<Rightarrow> writable room over put s' (f(k \<mapsto> v)) r)"

locale write_store = map_store rep get put room key_ok
  for rep :: "'s \<Rightarrow> ('k \<Rightarrow> 'v option) \<Rightarrow> bool" and get put room key_ok +
  fixes over :: "'v \<Rightarrow> 'v \<Rightarrow> bool"
  assumes over_law: "rep s f \<Longrightarrow> key_ok k \<Longrightarrow> f k = Some w \<Longrightarrow> over w v \<Longrightarrow> \<exists>s'. put s k v = Some s' \<and> rep s' (f(k \<mapsto> v))"
begin

lemma write_law:
  assumes "rep s f" "key_ok k" "case f k of None \<Rightarrow> room s k v | Some w \<Rightarrow> over w v"
  shows "\<exists>s'. put s k v = Some s' \<and> rep s' (f(k \<mapsto> v))"
  using assms put_law [of s f k v] over_law [of s f k _ v] by (cases "f k") auto

lemma writes_law:
  assumes "rep s f" "\<forall>k\<in>fst ` set kvs. key_ok k" "writable room over put s f kvs"
  shows "\<exists>s'. put_all put s kvs = Some s' \<and> rep s' (f ++ map_of (rev kvs))"
  using assms
proof (induction kvs arbitrary: s f)
  case (Cons a r)
  obtain k v where a: "a = (k, v)" by fastforce
  obtain s' where s': "put s k v = Some s'" "rep s' (f(k \<mapsto> v))"
    using write_law [OF Cons.prems(1), of k v] Cons.prems(2,3) a by auto
  have keys: "\<forall>k\<in>fst ` set r. key_ok k" and w: "writable room over put s' (f(k \<mapsto> v)) r"
    using Cons.prems(2,3) a s'(1) by simp_all
  obtain t where t: "put_all put s' r = Some t" "rep t (f(k \<mapsto> v) ++ map_of (rev r))"
    using Cons.IH [OF s'(2) keys w] by blast
  have "f(k \<mapsto> v) ++ map_of (rev r) = f ++ map_of (rev (a # r))" by (simp add: a map_of_append)
  then show ?case using t s'(1) a by auto
qed simp

end

text \<open>The tables that can be written, with values on one page; they are written with \<open>flag\<close> 0.\<close>

definition kept_compact :: "htab \<Rightarrow> (mem \<Rightarrow> mem option) \<Rightarrow> bool" where
  "kept_compact h f \<longleftrightarrow> kept h f \<and> one_page h \<and> \<not> rdonly h"

definition store_write :: "htab \<Rightarrow> mem \<Rightarrow> mem \<Rightarrow> htab option" where
  "store_write h k v = (case ffdb_hash_put h (dbt_of k) (dbt_of v) 0 of
     None \<Rightarrow> None | Some (st, h') \<Rightarrow> if st = 0 then Some h' else None)"

definition store_over :: "mem \<Rightarrow> mem \<Rightarrow> bool" where
  "store_over w v \<longleftrightarrow> v \<noteq> [] \<and> length v \<le> length w"

lemma compact_get:
  assumes r: "kept_compact h f" and k: "length k < 2 ^ 31"
  shows "\<exists>h'. ffdb_hash_get h (dbt_of k) no_buffer = Some (case f k of None \<Rightarrow> (FFDB_NOT_FOUND, no_buffer, h') | Some v \<Rightarrow> (0, buf_of v, h')) \<and>
    kept_compact h' f"
proof -
  have K: "kept h f" "one_page h" "\<not> rdonly h" using r by (simp_all add: kept_compact_def)
  have nb: "room_for no_buffer n" "\<not> own_buffer no_buffer" for n by (simp_all add: room_for_def own_buffer_def no_buffer_def)
  have c: "kept_compact h' f" if "represents h' f" "tview h' = tview h" "pool_step h h'" for h'
  proof -
    have "tidy h' Cs" if "tidy h Cs" for Cs using tidy_same [of h h'] that \<open>tview h' = tview h\<close> \<open>pool_step h h'\<close> by (simp add: same_pages_def)
    then show ?thesis
      using K that disjoint_step [OF keptD(4) [OF K(1)] that(3,2)] one_page_step [OF keptD(4) [OF K(1)] that(3,2)]
      by (auto simp: kept_compact_def kept_def pool_step_fields [OF that(3)])
  qed
  show ?thesis
    using hash_get_step [OF keptD(1) [OF K(1)], of "dbt_of k" no_buffer] k nb c by (cases "f k") (auto simp: buf_of_def)
qed

lemma compact_put:
  assumes r: "kept_compact h f" and k: "length k < 2 ^ 31" and room: "case f k of None \<Rightarrow> store_room h k v | Some w \<Rightarrow> store_over w v"
  shows "\<exists>h'. ffdb_hash_put h (dbt_of k) (dbt_of v) 0 = Some (0, h') \<and> kept_compact h' (f(k \<mapsto> v))"
proof (cases "f k")
  case None
  have K: "kept h f" "one_page h" "\<not> rdonly h" using r by (simp_all add: kept_compact_def)
  note rep = keptD(1) [OF K(1)]
  obtain Cs where t: "tidy h Cs" using K(1) by (auto simp: kept_def)
  obtain E n c where P: "ffdb_hash_put h (dbt_of k) (dbt_of v) 0 = Some (0, count_key E)"
    "put_effect h k n c E" "represents (count_key E) (f(k \<mapsto> v))"
    using hash_put_step [OF rep, of "dbt_of k" "dbt_of v" 0] k room None by (auto simp: store_room_def)
  then have "kept (count_key E) (f(k \<mapsto> v))"
    using tidy_put [OF rep t None] disjoint_put [OF keptD(4,3) [OF K(1)]] by (auto simp: kept_def)
  moreover have "pool_step h E" using P(2) by (simp add: put_effect_def)
  then have "\<not> rdonly (count_key E)" using K(3) by (simp add: count_key_def pool_step_fields)
  ultimately show ?thesis using P(1) one_page_put [OF keptD(4) [OF K(1)] K(2) P(2)] by (auto simp: kept_compact_def)
next
  case (Some w)
  have K: "kept h f" "one_page h" "\<not> rdonly h" using r by (simp_all add: kept_compact_def)
  note rep = keptD(1) [OF K(1)]
  have v: "v \<noteq> []" "length v \<le> length w" using room Some by (simp_all add: store_over_def)
  note R = one_page_room [OF K(2) rep Some v(2)]
  obtain E n c where P: "ffdb_hash_put h (dbt_of k) (dbt_of v) 0 = Some (0, E)" "over_effect h k v n c E"
    using hash_put_over [OF rep, of "dbt_of k" w "dbt_of v"] k Some v R K(3) by auto
  moreover have "pool_step h E" using P(2) by (simp add: over_effect_def)
  then have "\<not> rdonly E" using K(3) by (simp add: pool_step_fields)
  ultimately show ?thesis
    using over_effect_kept [OF K(1) P(2)] one_page_over [OF keptD(4) [OF K(1)] K(2) P(2)] by (auto simp: kept_compact_def)
qed

interpretation write_table: write_store kept_compact store_get store_write store_room "\<lambda>k. length k < 2 ^ 31" store_over
proof
  fix h :: htab and f :: "mem \<Rightarrow> mem option" and k v :: mem
  assume r: "kept_compact h f" and k: "length k < 2 ^ 31"
  obtain h' where "ffdb_hash_get h (dbt_of k) no_buffer = Some (case f k of None \<Rightarrow> (FFDB_NOT_FOUND, no_buffer, h') | Some v \<Rightarrow> (0, buf_of v, h'))"
    "kept_compact h' f" using compact_get [OF r k] by blast
  then show "\<exists>h'. store_get h k = Some (f k, h') \<and> kept_compact h' f"
    by (intro exI [of _ h']) (cases "f k"; simp add: store_get_def FFDB_NOT_FOUND_def buf_of_def)
  show "\<exists>h'. store_write h k v = Some h' \<and> kept_compact h' (f(k \<mapsto> v))" if "f k = None" "store_room h k v"
    using compact_put [OF r k, of v] that by (auto simp: store_write_def)
  show "\<exists>h'. store_write h k v = Some h' \<and> kept_compact h' (f(k \<mapsto> v))" if "f k = Some w" "store_over w v" for w
    using compact_put [OF r k, of v] that by (auto simp: store_write_def)
qed

text \<open>C7: Sessions of writes. A sequence of writes, each of a new key that fits or of a key that is
  there with a value that is not longer than its old one, succeeds, and then a get of any
  key gives the last value written for it, or what the table had before.\<close>
theorem last_write_wins:
  assumes "kept_compact h f" "\<forall>k\<in>fst ` set kvs. length k < 2 ^ 31" "writable store_room store_over store_write h f kvs"
    "\<forall>k\<in>set ks. length k < 2 ^ 31"
  shows "\<exists>h1 h2. put_all store_write h kvs = Some h1 \<and> get_all store_get h1 ks = Some (map (f ++ map_of (rev kvs)) ks, h2) \<and>
    kept_compact h2 (f ++ map_of (rev kvs))"
  using write_table.writes_law [OF assms(1-3)] write_table.get_all_law [OF _ assms(4)] by blast

text \<open>The witness table after a first put.\<close>

lemma wit_db_compact: "kept_compact wit_db Map.empty"
  using wit_db_kept wit_db_not_found wit_store_room by (simp add: kept_compact_def one_page_def store_room_def)

lemma wit_db_put:
  obtains h where "ffdb_hash_put wit_db (dbt_of [1, 2, 3]) (dbt_of [10, 20, 30, 40]) 0 = Some (0, h)"
    "kept_compact h [[1, 2, 3] \<mapsto> [10, 20, 30, 40]]"
  using compact_put [OF wit_db_compact, of "[1, 2, 3]" "[10, 20, 30, 40]"] wit_store_room by auto

theorem put_overwrites_witness:
  "\<exists>h h1 h2. ffdb_hash_put wit_db (dbt_of [1, 2, 3]) (dbt_of [10, 20, 30, 40]) 0 = Some (0, h) \<and>
     ffdb_hash_put h (dbt_of [1, 2, 3]) (dbt_of [5, 6]) 0 = Some (0, h1) \<and> kept h1 [[1, 2, 3] \<mapsto> [5, 6]] \<and>
     ffdb_hash_put h (dbt_of [1, 2, 3]) (dbt_of [1, 2, 3, 4, 5]) 0 = Some (- 1, h2) \<and> kept h2 [[1, 2, 3] \<mapsto> [10, 20, 30, 40]]"
proof -
  obtain h where h: "ffdb_hash_put wit_db (dbt_of [1, 2, 3]) (dbt_of [10, 20, 30, 40]) 0 = Some (0, h)"
    "kept_compact h [[1, 2, 3] \<mapsto> [10, 20, 30, 40]]" by (rule wit_db_put)
  have K: "kept h [[1, 2, 3] \<mapsto> [10, 20, 30, 40]]" "one_page h" "\<not> rdonly h" using h(2) by (simp_all add: kept_compact_def)
  have room: "over_room h [1, 2, 3] (Suc (Suc 0))" using one_page_room(1) [OF K(2) keptD(1) [OF K(1)], of "[1, 2, 3]"] by simp
  note C = put_overwrites [OF K(1), of "dbt_of [1, 2, 3]" "[10, 20, 30, 40]"]
  show ?thesis
    using h(1) K(3) room C [of "dbt_of [5, 6]"] C [of "dbt_of [1, 2, 3, 4, 5]"] by simp
qed

theorem last_write_wins_witness:
  "\<exists>h1 h2. put_all store_write wit_db [([1, 2, 3], [10, 20, 30, 40]), ([1, 2, 3], [5, 6])] = Some h1 \<and>
     get_all store_get h1 [[1, 2, 3], [7]] = Some ([Some [5, 6], None], h2)"
proof -
  let ?kvs = "[([1, 2, 3], [10, 20, 30, 40]), ([1, 2, 3], [5, 6])] :: (mem \<times> mem) list"
  obtain h where h: "ffdb_hash_put wit_db (dbt_of [1, 2, 3]) (dbt_of [10, 20, 30, 40]) 0 = Some (0, h)"
    by (rule wit_db_put)
  have "writable store_room store_over store_write wit_db Map.empty ?kvs"
    using h wit_store_room by (simp add: store_write_def store_over_def split: option.split)
  then show ?thesis
    using last_write_wins [OF wit_db_compact, of ?kvs "[[1, 2, 3], [7]]"] by (simp del: put_all.simps get_all.simps) blast
qed

end
