(* ===== verification/FDB_Basics.thy ===== *)
theory FDB_Basics
  imports FFDB_HashFunc
begin

text \<open>
  The helpers of the C++ layer: byte swapping and the checksum (\<open>src/FileDB.cpp\<close>) and the
  hash functions an application can choose from (\<open>src/HashFunc.cpp\<close>), on the little-endian
  machine of the model, where \<open>long\<close> has 64 bits and \<open>char\<close> is signed.
\<close>

section \<open>Byte order\<close>

text \<open>The 16-bit macro is computed in \<open>int\<close> and cut to \<open>unsigned short\<close>.\<close>

definition FILEDB_BSWAP_16 :: "u16 \<Rightarrow> u16" where
  "FILEDB_BSWAP_16 x = (let i = ucast x :: u32
     in ucast ((drop_bit 8 i AND 0xff) OR push_bit 8 (i AND 0xff)))"

definition FILEDB_BSWAP_32 :: "u32 \<Rightarrow> u32" where
  "FILEDB_BSWAP_32 x =
     drop_bit 24 (x AND 0xff000000) OR drop_bit 8 (x AND 0x00ff0000) OR
     push_bit 8 (x AND 0x0000ff00) OR push_bit 24 (x AND 0x000000ff)"

definition FILEDB_BSWAP_64 :: "u64 \<Rightarrow> u64" where
  "FILEDB_BSWAP_64 x =
     drop_bit 56 (x AND 0xff00000000000000) OR drop_bit 40 (x AND 0x00ff000000000000) OR
     drop_bit 24 (x AND 0x0000ff0000000000) OR drop_bit 8 (x AND 0x000000ff00000000) OR
     push_bit 8 (x AND 0x00000000ff000000) OR push_bit 24 (x AND 0x0000000000ff0000) OR
     push_bit 40 (x AND 0x000000000000ff00) OR push_bit 56 (x AND 0x00000000000000ff)"

definition ntoh_short :: "u16 \<Rightarrow> u16" where "ntoh_short sval = FILEDB_BSWAP_16 sval"
definition hton_short :: "u16 \<Rightarrow> u16" where "hton_short sval = FILEDB_BSWAP_16 sval"
definition ntoh_int :: "u32 \<Rightarrow> u32" where "ntoh_int ival = FILEDB_BSWAP_32 ival"
definition hton_int :: "u32 \<Rightarrow> u32" where "hton_int ival = FILEDB_BSWAP_32 ival"
definition ntoh_long :: "u64 \<Rightarrow> u64" where "ntoh_long lval = FILEDB_BSWAP_64 lval"
definition hton_long :: "u64 \<Rightarrow> u64" where "hton_long lval = FILEDB_BSWAP_64 lval"

lemma ff_mask: "(0xff :: 'a::len word) = mask 8"
  by (simp add: mask_eq_exp_minus_1)

lemma byte_masks:
  "(0xff00 :: u32) = push_bit 8 (mask 8)" "(0xff0000 :: u32) = push_bit 16 (mask 8)" "(0xff000000 :: u32) = push_bit 24 (mask 8)"
  by (simp_all add: mask_eq_exp_minus_1 push_bit_eq_mult)

text \<open>The macros reverse the bytes, as the macros of the C library do.\<close>

lemma swap16: "FILEDB_BSWAP_16 x = bswap16 x"
proof (rule bit_word_eqI)
  fix n assume "n < LENGTH(16)"
  then show "bit (FILEDB_BSWAP_16 x) n \<longleftrightarrow> bit (bswap16 x) n"
    unfolding FILEDB_BSWAP_16_def Let_def ff_mask
    by (cases "n < 8") (auto simp: bswap16_def u16_bytes_def bit_simps)
qed

lemma swap32: "FILEDB_BSWAP_32 x = bswap32 x"
proof (rule bit_word_eqI)
  fix n assume "n < LENGTH(32)"
  then consider "n < 8" | "8 \<le> n" "n < 16" | "16 \<le> n" "n < 24" | "24 \<le> n" "n < 32" by force
  then show "bit (FILEDB_BSWAP_32 x) n \<longleftrightarrow> bit (bswap32 x) n"
    unfolding FILEDB_BSWAP_32_def ff_mask byte_masks
    by cases (auto simp: bswap32_def u32_bytes_def bit_simps)
qed

lemma hton_short_bytes: "u16_bytes (hton_short x) = rev (u16_bytes x)"
  by (simp add: hton_short_def swap16 bswap16_def u16_bytes_bytes)

lemma ntoh_hton [simp]: "ntoh_short (hton_short x) = x" "ntoh_int (hton_int y) = y"
  by (simp_all add: ntoh_short_def hton_short_def ntoh_int_def hton_int_def swap16 swap32)

section \<open>The checksum\<close>

text \<open>
  The table is built once; \<open>crc_rows\<close> are the loops of the initialisation, which are those
  of the C library. A byte is a signed \<open>char\<close> here.
\<close>

definition crc32_init :: "u32 list \<times> bool \<Rightarrow> u32 list \<times> bool" where
  "crc32_init s = (case s of (tab, inited) \<Rightarrow>
     if \<not> inited then (crc_rows 128 1 (tab[0 := 0]), True) else (tab, inited))"

fun crc32_loop :: "u32 list \<Rightarrow> u32 \<Rightarrow> mem \<Rightarrow> u32" where
  "crc32_loop tab crc [] = crc"
| "crc32_loop tab crc (b # buf) = crc32_loop tab (drop_bit 8 crc XOR tab ! unat ((crc XOR scast b) AND 0xff)) buf"

definition crc32 :: "u32 list \<Rightarrow> u32 \<Rightarrow> mem \<Rightarrow> u32" where
  "crc32 tab crc buf = crc32_loop tab (crc XOR 0xffffffff) buf XOR 0xffffffff"

lemma scast_low: "scast (b :: byte) AND (0xff :: u32) = ucast b"
proof (rule bit_word_eqI)
  fix n assume "n < LENGTH(32)"
  then consider "n < 7" | "n = 7" | "8 \<le> n" "n < 32" by force
  then show "bit (scast b AND (0xff :: u32)) n = bit (ucast b :: u32) n"
    unfolding ff_mask by cases (auto simp: bit_simps min_def)
qed

lemma ucast_low: "ucast (b :: byte) AND (0xff :: u32) = ucast b"
  unfolding ff_mask by (rule bit_word_eqI) (auto simp: bit_simps dest: bit_imp_le_length)

lemma crc32_is_library: "crc32 (fst (crc32_init (replicate 256 0, False))) crc buf = ffdb_crc32_checksum crc buf"
proof -
  have tab: "fst (crc32_init (replicate 256 0, False)) = crc_table"
    by (simp add: crc32_init_def crc_table_def ffdb_crc32_init_def)
  have "(c XOR scast b) AND 0xff = (c XOR ucast b) AND (0xff :: u32)" for c and b :: byte
    by (simp only: bit.conj_xor_distrib2 scast_low ucast_low)
  then have "crc32_loop crc_table c buf = crc_loop c buf" for c
    by (induction c buf rule: crc_loop.induct) simp_all
  then show ?thesis by (simp add: crc32_def ffdb_crc32_checksum_def tab)
qed

section \<open>Numbers in messages\<close>

text \<open>What \<open>operator<<\<close> prints for an \<open>int\<close>; the stream is in memory and does not fail.\<close>

fun digits :: "nat \<Rightarrow> string" where
  "digits n = (if n < 10 then [char_of (48 + n)] else digits (n div 10) @ [char_of (48 + n mod 10)])"

declare digits.simps [simp del]

definition itostr :: "int \<Rightarrow> string" where
  "itostr val = (if val < 0 then CHR ''-'' # digits (nat (- val)) else digits (nat val))"

section \<open>Hash functions\<close>

text \<open>The loop over the \<open>len\<close> characters of the key.\<close>

fun for_chars :: "('s \<Rightarrow> byte \<Rightarrow> 's) \<Rightarrow> 's \<Rightarrow> mem \<Rightarrow> 's" where
  "for_chars step s [] = s"
| "for_chars step s (c # str) = for_chars step (step s c) str"

definition RSHash :: "mem \<Rightarrow> u32 \<Rightarrow> u32" where
  "RSHash str len = fst (for_chars (\<lambda>(hash, a) c. (hash * a + scast c, a * 378551)) (0, 63689) (take (unat len) str))"

definition JSHash :: "mem \<Rightarrow> u32 \<Rightarrow> u32" where
  "JSHash str len = for_chars (\<lambda>hash c. hash XOR (push_bit 5 hash + scast c + drop_bit 2 hash)) 1315423911 (take (unat len) str)"

definition HighBits :: u32 where
  "HighBits = push_bit (32 - 4) 0xffffffff"

definition pjw_step :: "u32 \<Rightarrow> byte \<Rightarrow> u32" where
  "pjw_step hash0 c = (let hash = push_bit 4 hash0 + scast c; test = hash AND HighBits
     in if test \<noteq> 0 then (hash XOR drop_bit 24 test) AND NOT HighBits else hash)"

definition PJWHash :: "mem \<Rightarrow> u32 \<Rightarrow> u32" where
  "PJWHash str len = for_chars pjw_step 0 (take (unat len) str)"

definition elf_step :: "u32 \<Rightarrow> byte \<Rightarrow> u32" where
  "elf_step hash0 c = (let hash = push_bit 4 hash0 + scast c; x = hash AND 0xf0000000;
      hash1 = (if x \<noteq> 0 then hash XOR drop_bit 24 x else hash)
     in hash1 AND NOT x)"

definition ELFHash :: "mem \<Rightarrow> u32 \<Rightarrow> u32" where
  "ELFHash str len = for_chars elf_step 0 (take (unat len) str)"

definition BKDRHash :: "mem \<Rightarrow> u32 \<Rightarrow> u32" where
  "BKDRHash str len = for_chars (\<lambda>hash c. hash * 131 + scast c) 0 (take (unat len) str)"

definition SDBMHash :: "mem \<Rightarrow> u32 \<Rightarrow> u32" where
  "SDBMHash str len = for_chars (\<lambda>hash c. scast c + push_bit 6 hash + push_bit 16 hash - hash) 0 (take (unat len) str)"

definition DJBHash :: "mem \<Rightarrow> u32 \<Rightarrow> u32" where
  "DJBHash str len = for_chars (\<lambda>hash c. (push_bit 5 hash + hash) + scast c) 5381 (take (unat len) str)"

definition DEKHash :: "mem \<Rightarrow> u32 \<Rightarrow> u32" where
  "DEKHash str len = for_chars (\<lambda>hash c. (push_bit 5 hash XOR drop_bit 27 hash) XOR scast c) len (take (unat len) str)"

definition BPHash :: "mem \<Rightarrow> u32 \<Rightarrow> u32" where
  "BPHash str len = for_chars (\<lambda>hash c. push_bit 7 hash XOR scast c) 0 (take (unat len) str)"

definition FNVHash :: "mem \<Rightarrow> u32 \<Rightarrow> u32" where
  "FNVHash str len = for_chars (\<lambda>hash c. (hash * 0x811C9DC5) XOR scast c) 0 (take (unat len) str)"

definition APHash :: "mem \<Rightarrow> u32 \<Rightarrow> u32" where
  "APHash str len = fst (for_chars (\<lambda>(hash, i) c.
     (hash XOR (if (i :: u32) AND 1 = 0 then push_bit 7 hash XOR scast c XOR drop_bit 3 hash
                else NOT (push_bit 11 hash XOR scast c XOR drop_bit 5 hash)), i + 1)) (0xAAAAAAAA, 0) (take (unat len) str))"

definition db_hash_func :: "mem \<Rightarrow> u32 \<Rightarrow> u32" where
  "db_hash_func key len = for_chars (\<lambda>h k. (h * 16777619) XOR scast k) 0 (take (unat len) key)"

lemma for_chars_cong: "(\<And>s c. c \<in> set str \<Longrightarrow> f s c = g s c) \<Longrightarrow> for_chars f s str = for_chars g s str"
  by (induction str arbitrary: s) simp_all

lemma for_chars_foldl: "for_chars f s str = foldl f s str"
  by (induction str arbitrary: s) simp_all

text \<open>The P. J. Weinberger hash and the ELF hash are the same function.\<close>

lemma pjw_elf: "pjw_step h c = elf_step h c"
proof -
  let ?h = "push_bit 4 h + scast c :: u32"
  have H: "HighBits = 0xf0000000" by (simp add: HighBits_def push_bit_eq_mult)
  have hi: "(0xf0000000 :: u32) = push_bit 28 (mask 4)" by (simp add: mask_eq_exp_minus_1 push_bit_eq_mult)
  have "(?h XOR drop_bit 24 (?h AND 0xf0000000)) AND NOT 0xf0000000 =
      (?h XOR drop_bit 24 (?h AND 0xf0000000)) AND NOT (?h AND 0xf0000000)"
  proof (rule bit_word_eqI)
    fix n assume "n < LENGTH(32)"
    then show "bit ((?h XOR drop_bit 24 (?h AND 0xf0000000)) AND NOT 0xf0000000) n =
        bit ((?h XOR drop_bit 24 (?h AND 0xf0000000)) AND NOT (?h AND 0xf0000000)) n"
      unfolding hi by (auto simp: bit_simps simp del: push_bit_and)
  qed
  then show ?thesis
    by (cases "?h AND 0xf0000000 = 0") (simp_all only: pjw_step_def elf_step_def H Let_def if_True if_False not_False_eq_True
        bit.compl_zero bit.conj_one_right not_True_eq_False)
qed

lemma scast_ascii: "c < 128 \<Longrightarrow> scast (c :: byte) = (ucast c :: u32)"
proof (rule bit_word_eqI)
  fix n assume c: "c < 128" "n < LENGTH(32)"
  have "bit c 7 \<longleftrightarrow> bit (unat c) 7" by (simp add: bit_unsigned_iff)
  also have "\<dots> \<longleftrightarrow> False" using c(1) by (simp add: bit_iff_odd word_less_nat_alt)
  finally have b: "\<not> bit c 7" by simp
  from c(2) consider "n < 7" | "n = 7" | "8 \<le> n" "n < 32" by force
  then show "bit (scast c :: u32) n = bit (ucast c :: u32) n"
    using b by cases (auto simp: bit_simps min_def)
qed

lemma ascii_equal:
  assumes "\<forall>c\<in>set (take (unat len) key). c < 128"
  shows "db_hash_func key len = ham_func5 key len" "SDBMHash key len = foldl HASHC 0 (take (unat len) key)"
proof -
  have a: "scast c = (ucast c :: u32)" if "c \<in> set (take (unat len) key)" for c
    using assms that by (blast intro: scast_ascii)
  show "db_hash_func key len = ham_func5 key len"
    unfolding db_hash_func_def ham_func5_foldl for_chars_foldl [symmetric]
    by (rule for_chars_cong) (simp add: a)
  have "push_bit 6 h + push_bit 16 h - h = 65599 * h" for h :: u32
    by (simp add: push_bit_eq_mult algebra_simps)
  then have "ucast c + push_bit 6 h + push_bit 16 h - h = HASHC h c" for h :: u32 and c
    unfolding HASHC_def by (metis add.assoc add_diff_eq)
  then show "SDBMHash key len = foldl HASHC 0 (take (unat len) key)"
    unfolding SDBMHash_def for_chars_foldl [symmetric]
    by (intro for_chars_cong) (simp add: a)
qed

text \<open>C32: The hash functions the C++ layer offers, against each other and against those of the C
  library. \<open>PJWHash\<close> and \<open>ELFHash\<close> are the same function; for keys of bytes below 128
  \<open>db_hash_func\<close> is the library's default \<open>__ham_func5\<close> and \<open>SDBMHash\<close> its
  \<open>__ham_func3\<close>; but \<open>db_hash_func\<close> extends the sign of a byte, so for binary keys it is
  not \<open>__ham_func5\<close>, which its comment says it is.\<close>
theorem hash_functions_agree:
  assumes "\<forall>c\<in>set (take (unat len) key). c < 128" "unat len \<le> length key" "unat len < 2 ^ 32 - 7"
  shows "PJWHash str n = ELFHash str n \<and> db_hash_func key len = ham_func5 key len \<and> Some (SDBMHash key len) = ham_func3 key len \<and>
    db_hash_func [0x80] 1 \<noteq> ham_func5 [0x80] 1"
proof (intro conjI)
  show "PJWHash str n = ELFHash str n"
    unfolding PJWHash_def ELFHash_def by (rule for_chars_cong) (rule pjw_elf)
  show "db_hash_func key len = ham_func5 key len" by (rule ascii_equal [OF assms(1)])
  show "Some (SDBMHash key len) = ham_func3 key len"
    by (simp only: ham_func3_def duff_foldl [OF assms(2,3)] ascii_equal(2) [OF assms(1)])
  show "db_hash_func [0x80] 1 \<noteq> ham_func5 [0x80] 1"
    by (simp add: db_hash_func_def ham_func5_def)
qed

theorem hash_functions_agree_witness:
  "db_hash_func [1, 2, 3] 3 = ham_func5 [1, 2, 3] 3 \<and> Some (SDBMHash [1, 2, 3] 3) = ham_func3 [1, 2, 3] 3"
  using hash_functions_agree [of 3 "[1, 2, 3]"] by simp

end
