(* ===== verification/FDB_Objects.thy ===== *)
theory FDB_Objects
  imports FDB_Basics
begin

text \<open>
  Objects in binary form: the interface \<open>Serializable\<close> (\<open>src/Serializable.h\<close>), the
  exceptions (\<open>src/FileDB.h\<close>), and the keys and data that are strings
  (\<open>src/DBString.cpp\<close>). Streams in memory do not fail on writing.
\<close>

section \<open>Exceptions\<close>

datatype db_exn =
    SerializeException string string
  | FileHashDBException string string

fun what :: "db_exn \<Rightarrow> string" where
  "what (SerializeException cls reason) = cls @ '': '' @ reason"
| "what (FileHashDBException cls reason) = cls @ '': '' @ reason"

section \<open>The interface\<close>

text \<open>
  A class of objects: writing may throw, reading throws for anything that is not an object.
  What a client relies on is that reading undoes writing.
\<close>

locale serializable =
  fixes writeObject :: "'a \<Rightarrow> db_exn + mem"
    and readObject :: "mem \<Rightarrow> db_exn + 'a"
  assumes read_write: "writeObject x = Inr b \<Longrightarrow> readObject b = Inr x"
begin

lemma write_injective: "writeObject x = Inr b \<Longrightarrow> writeObject y = Inr b \<Longrightarrow> x = y"
  using read_write [of x b] read_write [of y b] by simp

end

section \<open>Strings\<close>

definition MAGIC :: u16 where "MAGIC = 0x11ff"
definition StringKey_serialID :: u16 where "StringKey_serialID = 102"
definition UserData_serialID :: u16 where "UserData_serialID = 0x1144"

text \<open>\<open>writeObject\<close> and \<open>readObject\<close> of the two classes differ in the class name and the id only.\<close>

definition write_string :: "u16 \<Rightarrow> mem \<Rightarrow> mem" where
  "write_string sid str = u16_bytes (hton_short MAGIC) @ u16_bytes (hton_short sid) @ str"

definition read_string :: "string \<Rightarrow> u16 \<Rightarrow> mem \<Rightarrow> db_exn + mem" where
  "read_string cls serialID input =
     (case mem_read input 0 2 of
        None \<Rightarrow> Inl (SerializeException cls ''Read magic number error.'')
      | Some m \<Rightarrow>
          let magicnum = ntoh_short (bytes_u16 m)
          in if magicnum \<noteq> MAGIC
             then Inl (SerializeException cls (''Magic number mismatch '' @ itostr (uint magicnum) @
                         '' != expected '' @ itostr (uint MAGIC)))
             else (case mem_read input 2 2 of
                 None \<Rightarrow> Inl (SerializeException cls ''Read serial id error.'')
               | Some i \<Rightarrow>
                   let sid = ntoh_short (bytes_u16 i)
                   in if sid \<noteq> serialID
                      then Inl (SerializeException cls (''Serial ID number mismatch '' @ itostr (uint sid) @
                                  '' != expected '' @ itostr (uint serialID)))
                      else Inr (drop 4 input)))"

definition StringKey_writeObject :: "mem \<Rightarrow> db_exn + mem" where
  "StringKey_writeObject str = Inr (write_string StringKey_serialID str)"

definition StringKey_readObject :: "mem \<Rightarrow> db_exn + mem" where
  "StringKey_readObject input = read_string ''StringKey'' StringKey_serialID input"

definition UserData_writeObject :: "mem \<Rightarrow> db_exn + mem" where
  "UserData_writeObject str = Inr (write_string UserData_serialID str)"

definition UserData_readObject :: "mem \<Rightarrow> db_exn + mem" where
  "UserData_readObject input = read_string ''UserData'' UserData_serialID input"

lemma bytes_hton: "length b = 2 \<Longrightarrow> ntoh_short (bytes_u16 b) = w \<longleftrightarrow> b = u16_bytes (hton_short w)"
  by (metis ntoh_hton(1) bytes_u16_bytes u16_bytes_bytes swap16 hton_short_def ntoh_short_def)

text \<open>Exactly the strings that were written are read.\<close>

lemma read_string_iff: "read_string cls sid input = Inr s \<longleftrightarrow> input = write_string sid s"
proof
  assume r: "read_string cls sid input = Inr s"
  then have l: "4 \<le> length input" "ntoh_short (bytes_u16 (mem_get input 0 2)) = MAGIC"
    "ntoh_short (bytes_u16 (mem_get input 2 2)) = sid" "s = drop 4 input"
    by (auto simp: read_string_def mem_read_def Let_def split: if_splits)
  then have "mem_get input 0 2 = u16_bytes (hton_short MAGIC)" "mem_get input 2 2 = u16_bytes (hton_short sid)"
    by (simp_all add: bytes_hton [symmetric])
  moreover have "input = mem_get input 0 2 @ mem_get input 2 2 @ drop 4 input"
    using append_take_drop_id [of 2 input] append_take_drop_id [of 2 "drop 2 input"] by (simp add: mem_get_def)
  ultimately show "input = write_string sid s" using l(4) by (simp add: write_string_def)
next
  have b: "u16_bytes w = [u16_bytes w ! 0, u16_bytes w ! 1]" for w by (simp add: u16_bytes_def)
  assume "input = write_string sid s"
  then have i: "input = u16_bytes (hton_short MAGIC) @ u16_bytes (hton_short sid) @ s" by (simp add: write_string_def)
  have "mem_read input 0 2 = Some (u16_bytes (hton_short MAGIC))" "mem_read input 2 2 = Some (u16_bytes (hton_short sid))"
    by (simp_all add: i mem_get_def)
  then show "read_string cls sid input = Inr s"
    by (simp add: read_string_def i)
qed

interpretation StringKey: serializable StringKey_writeObject StringKey_readObject
  by unfold_locales (auto simp: StringKey_writeObject_def StringKey_readObject_def read_string_iff)

interpretation UserData: serializable UserData_writeObject UserData_readObject
  by unfold_locales (auto simp: UserData_writeObject_def UserData_readObject_def read_string_iff)

text \<open>C31: The binary form of string keys and string data. Reading gives a string exactly if the
  input is what writing that string gives, so reading undoes writing and everything else is
  rejected with an exception; in particular a key is never read as data or data as a key.\<close>
theorem string_objects_exact:
  "(StringKey_readObject input = Inr s \<longleftrightarrow> StringKey_writeObject s = Inr input) \<and>
   (UserData_readObject input = Inr s \<longleftrightarrow> UserData_writeObject s = Inr input) \<and>
   \<not> (isl (StringKey_writeObject s)) \<and> isl (UserData_readObject (projr (StringKey_writeObject s))) \<and>
   isl (StringKey_readObject (projr (UserData_writeObject s)))"
proof -
  have ne: "write_string StringKey_serialID s \<noteq> write_string UserData_serialID t" for s t
  proof
    assume "write_string StringKey_serialID s = write_string UserData_serialID t"
    then have "u16_bytes (hton_short StringKey_serialID) = u16_bytes (hton_short UserData_serialID)"
      by (simp add: write_string_def)
    then have "StringKey_serialID = UserData_serialID" by (metis bytes_u16_bytes ntoh_hton(1))
    then show False by (simp add: StringKey_serialID_def UserData_serialID_def)
  qed
  have "isl (read_string c UserData_serialID (write_string StringKey_serialID s))"
    "isl (read_string c StringKey_serialID (write_string UserData_serialID s))" for c
    using read_string_iff [of c UserData_serialID "write_string StringKey_serialID s"]
      read_string_iff [of c StringKey_serialID "write_string UserData_serialID s"] ne
    by (metis isl_def sum.exhaust)+
  then show ?thesis
    by (auto simp: StringKey_readObject_def StringKey_writeObject_def UserData_readObject_def UserData_writeObject_def read_string_iff)
qed

end
