(* ===== verification/FDB_Functions.thy ===== *)
theory FDB_Functions
  imports FFDB_Map FFDB_Cursor FDB_Objects
begin

text \<open>
  The functions of the C++ layer on an open table (\<open>src/DBFunc.h\<close>, \<open>src/DBFunc.cpp\<close>):
  storing and fetching objects, reading all keys and pairs with a cursor. The classes of keys
  and data are given by their \<open>writeObject\<close> and \<open>readObject\<close>. A result is an exception or
  a value, with the table afterwards; \<open>None\<close> is a call that does not return.
\<close>

type_synonym 'a outcome = "((db_exn + 'a) \<times> htab) option"

section \<open>Opening\<close>

text \<open>
  What a class of keys says about itself: whether it has a hash function and a comparison of
  its own. \<open>ffdb_dbopen\<close> gets the name as a C string. The operating system is a parameter:
  what opening a name with flags and mode meets (\<open>open_env\<close>).
\<close>

record key_class =
  K_hash :: "hash_fun option"
  K_compare :: "(dbt \<Rightarrow> dbt \<Rightarrow> int) option"

type_synonym opsys = "mem \<Rightarrow> u32 \<Rightarrow> int \<Rightarrow> open_env"

definition c_str :: "mem \<Rightarrow> mem" where
  "c_str s = takeWhile (\<lambda>b. b \<noteq> 0) s"

definition openDatabase :: "opsys \<Rightarrow> key_class \<Rightarrow> mem \<Rightarrow> u32 \<Rightarrow> int \<Rightarrow> hashinfo \<Rightarrow> (htab option \<times> hashinfo) option" where
  "openDatabase sys K dbase open_flags mode info = (
     let info1 = (case K_hash K of None \<Rightarrow> info | Some f \<Rightarrow> info\<lparr>hi_hash := Some f\<rparr>);
         info2 = (case K_compare K of None \<Rightarrow> info1 | Some f \<Rightarrow> info1\<lparr>hi_cmp := Some f\<rparr>)
     in do {
       dbh \<leftarrow> ffdb_dbopen (sys (c_str dbase) open_flags mode) open_flags (Some info2);
       Some (dbh, info2)
     })"

definition openDatabaseSimple :: "opsys \<Rightarrow> mem \<Rightarrow> u32 \<Rightarrow> int \<Rightarrow> hashinfo \<Rightarrow> htab option option" where
  "openDatabaseSimple sys dbase open_flags mode info =
     ffdb_dbopen (sys (c_str dbase) open_flags mode) open_flags (Some info)"

section \<open>Storing and fetching\<close>

text \<open>The bytes a fetch delivers: \<open>size\<close> bytes of the block.\<close>

definition buf_bytes :: "valbuf \<Rightarrow> mem" where
  "buf_bytes v = (case v_data v of None \<Rightarrow> [] | Some m \<Rightarrow> take (nat (v_size v)) m)"

definition insertData :: "htab \<Rightarrow> mem \<Rightarrow> mem \<Rightarrow> u32 \<Rightarrow> (int \<times> htab) option" where
  "insertData dbh key data flag = ffdb_hash_put dbh (dbt_of key) (dbt_of data) flag"

definition insertBinaryData :: "htab \<Rightarrow> mem \<Rightarrow> mem \<Rightarrow> (int \<times> htab) option" where
  "insertBinaryData dbh key data = ffdb_hash_put dbh (dbt_of key) (dbt_of data) 0"

definition insertData_object :: "('k \<Rightarrow> db_exn + mem) \<Rightarrow> ('d \<Rightarrow> db_exn + mem) \<Rightarrow> htab \<Rightarrow> 'k \<Rightarrow> 'd \<Rightarrow> u32 \<Rightarrow> int outcome" where
  "insertData_object wk wd dbh key data flag =
     (case wk key of
        Inl e \<Rightarrow> Some (Inl e, dbh)
      | Inr keyObj \<Rightarrow> (case wd data of
            Inl e \<Rightarrow> Some (Inl e, dbh)
          | Inr dataObj \<Rightarrow> map_option (\<lambda>(ret, h). (Inr ret, h)) (insertData dbh keyObj dataObj flag)))"

definition insertData_key :: "('k \<Rightarrow> db_exn + mem) \<Rightarrow> htab \<Rightarrow> 'k \<Rightarrow> mem \<Rightarrow> u32 \<Rightarrow> int outcome" where
  "insertData_key wk dbh key data flag =
     (case wk key of
        Inl e \<Rightarrow> Some (Inl e, dbh)
      | Inr keyObj \<Rightarrow> map_option (\<lambda>(ret, h). (Inr ret, h)) (insertData dbh keyObj data flag))"

definition insertData_value :: "('d \<Rightarrow> db_exn + mem) \<Rightarrow> htab \<Rightarrow> mem \<Rightarrow> 'd \<Rightarrow> u32 \<Rightarrow> int outcome" where
  "insertData_value wd dbh key data flag =
     (case wd data of
        Inl e \<Rightarrow> Some (Inl e, dbh)
      | Inr dataObj \<Rightarrow> map_option (\<lambda>(ret, h). (Inr ret, h)) (insertData dbh key dataObj flag))"

text \<open>The value stays what it was if the key is not found.\<close>

definition getBinaryData :: "htab \<Rightarrow> mem \<Rightarrow> mem \<Rightarrow> (int \<times> mem \<times> htab) option" where
  "getBinaryData dbh key data = do {
     (ret, dbdata, h) \<leftarrow> ffdb_hash_get dbh (dbt_of key) no_buffer;
     Some (ret, if ret = 0 then buf_bytes dbdata else data, h)
   }"

definition getData_object :: "('k \<Rightarrow> db_exn + mem) \<Rightarrow> (mem \<Rightarrow> db_exn + 'd) \<Rightarrow> htab \<Rightarrow> 'k \<Rightarrow> 'd \<Rightarrow> (int \<times> 'd) outcome" where
  "getData_object wk rd dbh key data =
     (case wk key of
        Inl e \<Rightarrow> Some (Inl e, dbh)
      | Inr keyObj \<Rightarrow> do {
          (ret, dbdata, h) \<leftarrow> ffdb_hash_get dbh (dbt_of keyObj) no_buffer;
          Some (if ret = 0
                then (case rd (buf_bytes dbdata) of Inl e \<Rightarrow> Inl e | Inr d \<Rightarrow> Inr (ret, d))
                else Inr (ret, data), h)
        })"

definition getData_string :: "('k \<Rightarrow> db_exn + mem) \<Rightarrow> htab \<Rightarrow> 'k \<Rightarrow> mem \<Rightarrow> (int \<times> mem) outcome" where
  "getData_string wk dbh key data =
     (case wk key of
        Inl e \<Rightarrow> Some (Inl e, dbh)
      | Inr keyObj \<Rightarrow> do {
          (ret, dbdata, h) \<leftarrow> ffdb_hash_get dbh (dbt_of keyObj) no_buffer;
          Some (Inr (ret, if ret = 0 then buf_bytes dbdata else data), h)
        })"

definition keyExist :: "('k \<Rightarrow> db_exn + mem) \<Rightarrow> htab \<Rightarrow> 'k \<Rightarrow> int outcome" where
  "keyExist wk dbh arg =
     (case wk arg of
        Inl e \<Rightarrow> Some (Inl e, dbh)
      | Inr keyObj \<Rightarrow> do {
          (ret, dbdata, h) \<leftarrow> ffdb_hash_get dbh (dbt_of keyObj) no_buffer;
          Some (Inr (if ret = 0 then 1 else 0), h)
        })"

definition flushDatabase :: "htab \<Rightarrow> htab option" where
  "flushDatabase dbh = map_option snd (ffdb_hash_sync dbh)"

section \<open>Reading everything\<close>

text \<open>
  The loops over a cursor. An exception is delivered with what the vectors hold by then, and
  the cursor as it is: the handlers throw on without closing it.
\<close>

partial_function (option) keys_loop ::
    "(mem \<Rightarrow> db_exn + 'k) \<Rightarrow> db_exn \<Rightarrow> htab \<Rightarrow> crs \<Rightarrow> 'k list \<Rightarrow> (db_exn option \<times> 'k list \<times> crs \<times> htab) option" where
  "keys_loop rk err h crp keys = do {
     (ret, crp1, dbkey, _, h1) \<leftarrow> ffdb_cursor_get h crp no_buffer None FFDB_NEXT;
     if ret = 0 then
       (case rk (buf_bytes dbkey) of
          Inl e \<Rightarrow> Some (Some e, keys, crp1, h1)
        | Inr arg \<Rightarrow> keys_loop rk err h1 crp1 (keys @ [arg]))
     else Some (if ret \<noteq> FFDB_NOT_FOUND then Some err else None, keys, crp1, h1)
   }"

partial_function (option) pairs_loop ::
    "(mem \<Rightarrow> db_exn + 'k) \<Rightarrow> (mem \<Rightarrow> db_exn + 'd) \<Rightarrow> bool \<Rightarrow> db_exn \<Rightarrow> htab \<Rightarrow> crs \<Rightarrow> ('k \<times> 'd) list \<Rightarrow>
       (db_exn option \<times> ('k \<times> 'd) list \<times> crs \<times> htab) option" where
  "pairs_loop rk rd only_one err h crp kds = do {
     (ret, crp1, dbkey, dbdata, h1) \<leftarrow> ffdb_cursor_get h crp no_buffer (Some no_buffer) FFDB_NEXT;
     if ret = 0 then do {
       val \<leftarrow> dbdata;
       (case rk (buf_bytes dbkey) of
          Inl e \<Rightarrow> Some (Some e, kds, crp1, h1)
        | Inr arg \<Rightarrow> (case rd (buf_bytes val) of
              Inl e \<Rightarrow> Some (Some e, kds, crp1, h1)
            | Inr d \<Rightarrow> if only_one then Some (None, kds @ [(arg, d)], crp1, h1)
                       else pairs_loop rk rd only_one err h1 crp1 (kds @ [(arg, d)])))
     } else Some (if ret \<noteq> FFDB_NOT_FOUND then Some err else None, kds, crp1, h1)
   }"

text \<open>Making the cursor, the loop, closing the cursor.\<close>

definition with_cursor :: "db_exn \<Rightarrow> (htab \<Rightarrow> crs \<Rightarrow> (db_exn option \<times> 'a list \<times> crs \<times> htab) option) \<Rightarrow> htab \<Rightarrow>
    (db_exn option \<times> 'a list \<times> htab) option" where
  "with_cursor err loop dbh = (case ffdb_hash_cursor dbh FFDB_KEY_CURSOR of (ret, crp, h) \<Rightarrow>
     if ret \<noteq> 0 then Some (Some err, [], h)
     else do {
       c \<leftarrow> crp;
       (e, xs, c1, h1) \<leftarrow> loop h c;
       (case e of
          Some ex \<Rightarrow> Some (Some ex, xs, h1)
        | None \<Rightarrow> do {
            (_, h2) \<leftarrow> ffdb_cursor_close h1 c1;
            Some (None, xs, h2)
          })
     })"

definition allKeys :: "(mem \<Rightarrow> db_exn + 'k) \<Rightarrow> htab \<Rightarrow> (db_exn option \<times> 'k list \<times> htab) option" where
  "allKeys rk dbh = with_cursor (FileHashDBException ''DBFunc allKeys'' ''Cannot create cursor'')
     (\<lambda>h c. keys_loop rk (FileHashDBException ''DBFunc AllKeys'' ''Cursor next error'') h c []) dbh"

definition allPairs :: "(mem \<Rightarrow> db_exn + 'k) \<Rightarrow> (mem \<Rightarrow> db_exn + 'd) \<Rightarrow> bool \<Rightarrow> htab \<Rightarrow>
    (db_exn option \<times> ('k \<times> 'd) list \<times> htab) option" where
  "allPairs rk rd only_one dbh = with_cursor (FileHashDBException ''DBFunc AllPairs'' ''Create Cursor Error'')
     (\<lambda>h c. pairs_loop rk rd only_one (FileHashDBException ''DBFunc AllPairs'' ''Cursor Next Error'') h c []) dbh"

definition allPairsWithBinaryKeys :: "(mem \<Rightarrow> db_exn + 'd) \<Rightarrow> htab \<Rightarrow> (db_exn option \<times> (mem \<times> 'd) list \<times> htab) option" where
  "allPairsWithBinaryKeys rd dbh = with_cursor (FileHashDBException ''DBFunc AllPairs'' ''Create Cursor Error'')
     (\<lambda>h c. pairs_loop Inr rd False (FileHashDBException ''DBFunc AllPairs'' ''Cursor Next Error'') h c []) dbh"

text \<open>\<open>binaryAllKeys\<close> fetches the data, too, and drops them.\<close>

definition binaryAllKeys :: "htab \<Rightarrow> (db_exn option \<times> mem list \<times> htab) option" where
  "binaryAllKeys dbh = map_option (\<lambda>(e, kds, h). (e, map fst kds, h))
     (with_cursor (FileHashDBException ''DBFunc binaryAllKeys'' ''Create Cursor Error'')
       (\<lambda>h c. pairs_loop Inr Inr False (FileHashDBException ''DBFunc binaryAllKeys'' ''Cursor Next Error'') h c
          ([] :: (mem \<times> mem) list)) dbh)"

definition binaryAllPairs :: "htab \<Rightarrow> (db_exn option \<times> (mem \<times> mem) list \<times> htab) option" where
  "binaryAllPairs dbh = with_cursor (FileHashDBException ''DBFunc binaryAllPairs'' ''Create Cursor Error'')
     (\<lambda>h c. pairs_loop Inr Inr False (FileHashDBException ''DBFunc binaryAllPairs'' ''Cursor Next Error'') h c []) dbh"

definition isDatabaseEmpty :: "htab \<Rightarrow> int outcome" where
  "isDatabaseEmpty dbh = (case ffdb_hash_cursor dbh FFDB_KEY_CURSOR of (r, crp, h) \<Rightarrow>
     if r \<noteq> 0 then Some (Inl (FileHashDBException ''DBFunc isDatabaseEmpty'' ''cursor creation error''), h)
     else do {
       c \<leftarrow> crp;
       (ret, c1, _, _, h1) \<leftarrow> ffdb_cursor_get h c no_buffer (Some no_buffer) FFDB_NEXT;
       if ret = 0 then do {
         (_, h2) \<leftarrow> ffdb_cursor_close h1 c1;
         Some (Inr 0, h2)
       } else if ret \<noteq> FFDB_NOT_FOUND
       then Some (Inl (FileHashDBException ''DBFunc isDatabaseEmpty'' ''cursor first error''), h1)
       else do {
         (_, h2) \<leftarrow> ffdb_cursor_close h1 c1;
         Some (Inr 1, h2)
       }
     })"

section \<open>File names\<close>

text \<open>The name up to the last slash; without one, the empty string.\<close>

definition unixDirectoryName :: "string \<Rightarrow> string" where
  "unixDirectoryName filename =
     (if CHR ''/'' \<in> set filename then rev (tl (dropWhile (\<lambda>c. c \<noteq> CHR ''/'') (rev filename))) else '''')"

text \<open>\<open>access\<close> is the operating system's.\<close>

definition fileExists :: "('n \<Rightarrow> int) \<Rightarrow> 'n \<Rightarrow> bool" where
  "fileExists access filename \<longleftrightarrow> access filename = 0"

end
