(* ===== verification/FDB_DataStore.thy ===== *)
theory FDB_DataStore
  imports FDB_Functions FFDB_Info
begin

text \<open>
  The data store of one configuration: \<open>ConfDataStoreDB\<close> (\<open>src/ConfDataStoreDB.h\<close>) and its
  variant \<open>ConfDataStoreDBSimple\<close>. A store holds the options for opening, the name, and the
  table once it is open. The operations of the first class check that it is, except \<open>exist\<close>;
  those of the second do not, and a use of the null handle is \<open>None\<close>.
\<close>

section \<open>The store\<close>

record store =
  db_filename :: mem
  db_options :: hashinfo
  db_dbh :: "htab option"

definition FILEDB_DEFAULT_PAGESIZE :: u32 where "FILEDB_DEFAULT_PAGESIZE = 8192"
definition FILEDB_DEFAULT_NUM_BUCKETS :: u32 where "FILEDB_DEFAULT_NUM_BUCKETS = 32"

definition new_store :: store where
  "new_store = \<lparr>db_filename = [],
     db_options = \<lparr>hi_bsize = FILEDB_DEFAULT_PAGESIZE, hi_nbuckets = FILEDB_DEFAULT_NUM_BUCKETS, hi_cachesize = 0,
       hi_rearrange = False, hi_userinfolen = 0, hi_numconfigs = 0, hi_hash = None, hi_cmp = None\<rparr>,
     db_dbh = None\<rparr>"

text \<open>Calls with the table, if there is one; and calls that take for granted that there is.\<close>

definition with_handle :: "'r \<Rightarrow> (htab \<Rightarrow> ('r \<times> htab) option) \<Rightarrow> store \<Rightarrow> ('r \<times> store) option" where
  "with_handle closed f s = (case db_dbh s of
     None \<Rightarrow> Some (closed, s)
   | Some h \<Rightarrow> map_option (\<lambda>(r, h1). (r, s\<lparr>db_dbh := Some h1\<rparr>)) (f h))"

definition on_handle :: "(htab \<Rightarrow> ('r \<times> htab) option) \<Rightarrow> store \<Rightarrow> ('r \<times> store) option" where
  "on_handle f s = do {
     h \<leftarrow> db_dbh s;
     map_option (\<lambda>(r, h1). (r, s\<lparr>db_dbh := Some h1\<rparr>)) (f h)
   }"

lemma with_handle_simps [simp]:
  "db_dbh s = Some h \<Longrightarrow> f h = Some (r, h1) \<Longrightarrow> with_handle c f s = Some (r, s\<lparr>db_dbh := Some h1\<rparr>)"
  "db_dbh s = None \<Longrightarrow> with_handle c f s = Some (c, s)"
  by (simp_all add: with_handle_def)

lemma on_handle_simps [simp]:
  "db_dbh s = Some h \<Longrightarrow> f h = Some (r, h1) \<Longrightarrow> on_handle f s = Some (r, s\<lparr>db_dbh := Some h1\<rparr>)"
  "db_dbh s = None \<Longrightarrow> on_handle f s = None"
  by (simp_all add: on_handle_def)

text \<open>The handlers catch a \<open>SerializeException\<close> only.\<close>

fun catching :: "'a \<Rightarrow> db_exn + 'a \<Rightarrow> db_exn + 'a" where
  "catching v (Inl (SerializeException c r)) = Inr v"
| "catching v r = r"

definition caught :: "'a \<Rightarrow> 'a outcome \<Rightarrow> 'a outcome" where
  "caught v r = map_option (\<lambda>(x, h). (catching v x, h)) r"

lemma caught_simps [simp]:
  "caught v (Some (Inr x, h)) = Some (Inr x, h)" "caught v (Some (Inl (SerializeException c r), h)) = Some (Inr v, h)" "caught v None = None"
  by (simp_all add: caught_def)

section \<open>Options\<close>

definition setCacheSize :: "u32 \<Rightarrow> store \<Rightarrow> store" where
  "setCacheSize csize s = s\<lparr>db_options := (db_options s)\<lparr>hi_cachesize := unat csize\<rparr>\<rparr>"

text \<open>
  The loop for machines where \<open>long\<close> has 32 bits: from round \<open>i\<close>, with \<open>21 - i\<close> rounds to go.
\<close>

fun cache_shift_loop :: "nat \<Rightarrow> u32 \<Rightarrow> u32" where
  "cache_shift_loop 0 tsize = tsize"
| "cache_shift_loop (Suc n) tsize0 = (let i = 20 - n; tsize = push_bit 1 tsize0
     in if i < 20 \<and> tsize \<ge> 0x80000000 then 0xFFFFFFFF else cache_shift_loop n tsize)"

definition setCacheSizeMB :: "bool \<Rightarrow> u32 \<Rightarrow> store \<Rightarrow> store" where
  "setCacheSizeMB long_is_int csize s = s\<lparr>db_options := (db_options s)\<lparr>hi_cachesize :=
     (if long_is_int then unat (cache_shift_loop 20 csize) else unat (push_bit 20 (ucast csize :: u64)))\<rparr>\<rparr>"

definition setPageSize :: "u32 \<Rightarrow> store \<Rightarrow> store" where
  "setPageSize bsize s = s\<lparr>db_options := (db_options s)\<lparr>hi_bsize := bsize\<rparr>\<rparr>"

definition setNumberBuckets :: "u32 \<Rightarrow> store \<Rightarrow> store" where
  "setNumberBuckets num s = s\<lparr>db_options := (db_options s)\<lparr>hi_nbuckets := num\<rparr>\<rparr>"

definition enablePageMove :: "store \<Rightarrow> store" where
  "enablePageMove s = s\<lparr>db_options := (db_options s)\<lparr>hi_rearrange := True\<rparr>\<rparr>"

definition disablePageMove :: "store \<Rightarrow> store" where
  "disablePageMove s = s\<lparr>db_options := (db_options s)\<lparr>hi_rearrange := False\<rparr>\<rparr>"

definition setMaxUserInfoLen :: "u32 \<Rightarrow> store \<Rightarrow> store" where
  "setMaxUserInfoLen len s = s\<lparr>db_options := (db_options s)\<lparr>hi_userinfolen := len + 1\<rparr>\<rparr>"

definition getMaxUserInfoLen :: "store \<Rightarrow> u32" where
  "getMaxUserInfoLen s = (case db_dbh s of None \<Rightarrow> hi_userinfolen (db_options s) | Some h \<Rightarrow> ffdb_max_user_info_len h)"

definition setMaxNumberConfigs :: "u32 \<Rightarrow> store \<Rightarrow> store" where
  "setMaxNumberConfigs num s = s\<lparr>db_options := (db_options s)\<lparr>hi_numconfigs := num\<rparr>\<rparr>"

definition getMaxNumberConfigs :: "store \<Rightarrow> u32" where
  "getMaxNumberConfigs s = (case db_dbh s of None \<Rightarrow> hi_numconfigs (db_options s) | Some h \<Rightarrow> ffdb_num_configs h)"

section \<open>Open and close\<close>

text \<open>The last result of \<open>DB_close\<close> is what is left of the table: its file.\<close>

definition DB_close :: "store \<Rightarrow> (int \<times> store \<times> htab option) option" where
  "DB_close s = (case db_dbh s of
     None \<Rightarrow> Some (0, s, None)
   | Some h \<Rightarrow> do {
       (ret, h1) \<leftarrow> ffdb_hash_close h;
       Some (ret, s\<lparr>db_dbh := None, db_filename := []\<rparr>, Some h1)
     })"

definition DB_open :: "opsys \<Rightarrow> key_class \<Rightarrow> mem \<Rightarrow> u32 \<Rightarrow> int \<Rightarrow> store \<Rightarrow> (int \<times> store) option" where
  "DB_open sys K file open_flags mode s = do {
     (r, s1, _) \<leftarrow> DB_close s;
     if r \<noteq> 0 then Some (- 1, s1)
     else do {
       (dbh, info) \<leftarrow> openDatabase sys K file open_flags mode (db_options s1);
       let s2 = s1\<lparr>db_dbh := dbh, db_options := info\<rparr>;
       (case dbh of
          None \<Rightarrow> Some (- 1, s2)
        | Some _ \<Rightarrow> Some (0, s2\<lparr>db_filename := file\<rparr>))
     }
   }"

definition storageName :: "store \<Rightarrow> mem" where
  "storageName s = db_filename s"

section \<open>Storing and fetching\<close>

definition insert_pair :: "('k \<Rightarrow> db_exn + mem) \<Rightarrow> ('d \<Rightarrow> db_exn + mem) \<Rightarrow> 'k \<Rightarrow> 'd \<Rightarrow> store \<Rightarrow> ((db_exn + int) \<times> store) option" where
  "insert_pair wk wd key data s =
     with_handle (Inr (- 1)) (\<lambda>h. caught (- 1) (insertData_object wk wd h key data 0)) s"

definition insertWithStringKey :: "('d \<Rightarrow> db_exn + mem) \<Rightarrow> mem \<Rightarrow> 'd \<Rightarrow> store \<Rightarrow> ((db_exn + int) \<times> store) option" where
  "insertWithStringKey wd key data s =
     with_handle (Inr (- 1)) (\<lambda>h. caught (- 1) (insertData_value wd h key data 0)) s"

definition insertBinary :: "mem \<Rightarrow> mem \<Rightarrow> store \<Rightarrow> (int \<times> store) option" where
  "insertBinary key data s = with_handle (- 1) (\<lambda>h. insertBinaryData h key data) s"

definition get_data :: "('k \<Rightarrow> db_exn + mem) \<Rightarrow> (mem \<Rightarrow> db_exn + 'd) \<Rightarrow> 'k \<Rightarrow> 'd \<Rightarrow> store \<Rightarrow> ((db_exn + (int \<times> 'd)) \<times> store) option" where
  "get_data wk rd key data s =
     with_handle (Inr (- 1, data)) (\<lambda>h. caught (- 1, data) (getData_object wk rd h key data)) s"

definition getBinary :: "mem \<Rightarrow> mem \<Rightarrow> store \<Rightarrow> ((int \<times> mem) \<times> store) option" where
  "getBinary key data s = with_handle (- 1, data)
     (\<lambda>h. map_option (\<lambda>(ret, d, h1). ((ret, d), h1)) (getBinaryData h key data)) s"

text \<open>\<open>exist\<close> does not ask whether the store is open.\<close>

definition exist :: "('k \<Rightarrow> db_exn + mem) \<Rightarrow> 'k \<Rightarrow> store \<Rightarrow> ((db_exn + bool) \<times> store) option" where
  "exist wk key s = map_option (\<lambda>(r, s1). (map_sum id (\<lambda>i. i \<noteq> 0) r, s1))
     (on_handle (\<lambda>h. caught 0 (keyExist wk h key)) s)"

section \<open>Reading everything\<close>

text \<open>The vectors of the caller are appended to; an exception is delivered with what they hold then.\<close>

definition appending :: "'a list \<Rightarrow> (db_exn option \<times> 'a list \<times> htab) option \<Rightarrow> ((db_exn option \<times> 'a list) \<times> htab) option" where
  "appending xs r = map_option (\<lambda>(e, ys, h). ((e, xs @ ys), h)) r"

definition keys_of :: "(mem \<Rightarrow> db_exn + 'k) \<Rightarrow> 'k list \<Rightarrow> store \<Rightarrow> ((db_exn option \<times> 'k list) \<times> store) option" where
  "keys_of rk ks s = with_handle (None, ks) (\<lambda>h. appending ks (allKeys rk h)) s"

definition binaryKeys :: "mem list \<Rightarrow> store \<Rightarrow> ((db_exn option \<times> mem list) \<times> store) option" where
  "binaryKeys ks s = with_handle (None, ks) (\<lambda>h. appending ks (binaryAllKeys h)) s"

definition keysAndData :: "(mem \<Rightarrow> db_exn + 'k) \<Rightarrow> (mem \<Rightarrow> db_exn + 'd) \<Rightarrow> ('k \<times> 'd) list \<Rightarrow> store \<Rightarrow>
    ((db_exn option \<times> ('k \<times> 'd) list) \<times> store) option" where
  "keysAndData rk rd kds s = with_handle (None, kds) (\<lambda>h. appending kds (allPairs rk rd False h)) s"

definition someKeyAndData :: "(mem \<Rightarrow> db_exn + 'k) \<Rightarrow> (mem \<Rightarrow> db_exn + 'd) \<Rightarrow> ('k \<times> 'd) list \<Rightarrow> store \<Rightarrow>
    ((db_exn option \<times> ('k \<times> 'd) list) \<times> store) option" where
  "someKeyAndData rk rd kds s = with_handle (None, kds) (\<lambda>h. appending kds (allPairs rk rd True h)) s"

definition stringKeysAndData :: "(mem \<Rightarrow> db_exn + 'd) \<Rightarrow> (mem \<times> 'd) list \<Rightarrow> store \<Rightarrow>
    ((db_exn option \<times> (mem \<times> 'd) list) \<times> store) option" where
  "stringKeysAndData rd kds s = with_handle (None, kds) (\<lambda>h. appending kds (allPairsWithBinaryKeys rd h)) s"

definition binaryKeysAndData :: "(mem \<times> mem) list \<Rightarrow> store \<Rightarrow> ((db_exn option \<times> (mem \<times> mem) list) \<times> store) option" where
  "binaryKeysAndData kds s = with_handle (None, kds) (\<lambda>h. appending kds (binaryAllPairs h)) s"

definition flush_store :: "store \<Rightarrow> (unit \<times> store) option" where
  "flush_store s = with_handle () (\<lambda>h. map_option (Pair ()) (flushDatabase h)) s"

section \<open>User data\<close>

definition insertUserdata :: "mem \<Rightarrow> store \<Rightarrow> (int \<times> store) option" where
  "insertUserdata user_data s = with_handle (- 1)
     (\<lambda>h. ffdb_set_user_info h (user_data @ [0]) (of_nat (length user_data))) s"

text \<open>The buffer is \<open>max_user_info_len\<close> bytes of fresh memory.\<close>

definition read_userdata :: "mem \<Rightarrow> htab \<Rightarrow> ((int \<times> mem) \<times> htab) option" where
  "read_userdata user_data h = (let len = ffdb_max_user_info_len h
     in do {
       (ret, data, n, h1) \<leftarrow> ffdb_get_user_info h (fresh_block (unat len)) len;
       Some ((ret, if ret = 0 then take n data else user_data), h1)
     })"

definition getUserdata :: "mem \<Rightarrow> store \<Rightarrow> ((int \<times> mem) \<times> store) option" where
  "getUserdata user_data s = with_handle (- 1, user_data) (read_userdata user_data) s"

section \<open>The simple store\<close>

text \<open>The options are set by the same code as in the first class.\<close>

definition Simple_setCacheSize :: "u32 \<Rightarrow> store \<Rightarrow> store" where "Simple_setCacheSize = setCacheSize"
definition Simple_setCacheSizeMB :: "bool \<Rightarrow> u32 \<Rightarrow> store \<Rightarrow> store" where "Simple_setCacheSizeMB = setCacheSizeMB"
definition Simple_setPageSize :: "u32 \<Rightarrow> store \<Rightarrow> store" where "Simple_setPageSize = setPageSize"
definition Simple_setNumberBuckets :: "u32 \<Rightarrow> store \<Rightarrow> store" where "Simple_setNumberBuckets = setNumberBuckets"
definition Simple_enablePageMove :: "store \<Rightarrow> store" where "Simple_enablePageMove = enablePageMove"
definition Simple_disablePageMove :: "store \<Rightarrow> store" where "Simple_disablePageMove = disablePageMove"
definition Simple_setMaxUserInfoLen :: "u32 \<Rightarrow> store \<Rightarrow> store" where "Simple_setMaxUserInfoLen = setMaxUserInfoLen"
definition Simple_getMaxUserInfoLen :: "store \<Rightarrow> u32" where "Simple_getMaxUserInfoLen = getMaxUserInfoLen"
definition Simple_setMaxNumberConfigs :: "u32 \<Rightarrow> store \<Rightarrow> store" where "Simple_setMaxNumberConfigs = setMaxNumberConfigs"
definition Simple_getMaxNumberConfigs :: "store \<Rightarrow> u32" where "Simple_getMaxNumberConfigs = getMaxNumberConfigs"
definition Simple_storageName :: "store \<Rightarrow> mem" where "Simple_storageName = storageName"

text \<open>\<open>close\<close> throws a \<open>runtime_error\<close> when the table reports an error.\<close>

definition Simple_DB_close :: "store \<Rightarrow> ((mem + unit) \<times> store \<times> htab option) option" where
  "Simple_DB_close s = (case db_dbh s of
     None \<Rightarrow> Some (Inr (), s, None)
   | Some h \<Rightarrow> do {
       (ret, h1) \<leftarrow> ffdb_hash_close h;
       Some (if ret \<noteq> 0 then Inl (db_filename s) else Inr (), s\<lparr>db_dbh := None\<rparr>, Some h1)
     })"

definition Simple_DB_open :: "opsys \<Rightarrow> mem \<Rightarrow> u32 \<Rightarrow> int \<Rightarrow> store \<Rightarrow> ((mem + int) \<times> store) option" where
  "Simple_DB_open sys file open_flags mode s = do {
     (r, s1, _) \<leftarrow> Simple_DB_close s;
     (case r of
        Inl e \<Rightarrow> Some (Inl e, s1)
      | Inr _ \<Rightarrow> do {
          dbh \<leftarrow> openDatabaseSimple sys file open_flags mode (db_options s1);
          (case dbh of
             None \<Rightarrow> Some (Inr (- 1), s1\<lparr>db_dbh := None\<rparr>)
           | Some h \<Rightarrow> Some (Inr 0, s1\<lparr>db_dbh := Some h, db_filename := file\<rparr>))
        })
   }"

definition Simple_close :: "store \<Rightarrow> ((mem + int) \<times> store \<times> htab option) option" where
  "Simple_close s = map_option (\<lambda>(r, t). (map_sum id (\<lambda>_. 0) r, t)) (Simple_DB_close s)"

definition Simple_insert :: "('k \<Rightarrow> db_exn + mem) \<Rightarrow> ('d \<Rightarrow> db_exn + mem) \<Rightarrow> 'k \<Rightarrow> 'd \<Rightarrow> store \<Rightarrow> ((db_exn + int) \<times> store) option" where
  "Simple_insert wk wd key data s = on_handle (\<lambda>h. caught (- 1) (insertData_object wk wd h key data 0)) s"

definition Simple_get :: "('k \<Rightarrow> db_exn + mem) \<Rightarrow> (mem \<Rightarrow> db_exn + 'd) \<Rightarrow> 'k \<Rightarrow> 'd \<Rightarrow> store \<Rightarrow> ((db_exn + (int \<times> 'd)) \<times> store) option" where
  "Simple_get wk rd key data s = on_handle (\<lambda>h. caught (- 1, data) (getData_object wk rd h key data)) s"

definition Simple_exist :: "('k \<Rightarrow> db_exn + mem) \<Rightarrow> 'k \<Rightarrow> store \<Rightarrow> ((db_exn + bool) \<times> store) option" where
  "Simple_exist wk key s = map_option (\<lambda>(r, s1). (map_sum id (\<lambda>i. i \<noteq> 0) r, s1))
     (on_handle (\<lambda>h. caught 0 (keyExist wk h key)) s)"

definition Simple_keys :: "(mem \<Rightarrow> db_exn + 'k) \<Rightarrow> 'k list \<Rightarrow> store \<Rightarrow> ((db_exn option \<times> 'k list) \<times> store) option" where
  "Simple_keys rk ks s = on_handle (\<lambda>h. appending ks (allKeys rk h)) s"

definition Simple_keysAndData :: "(mem \<Rightarrow> db_exn + 'k) \<Rightarrow> (mem \<Rightarrow> db_exn + 'd) \<Rightarrow> ('k \<times> 'd) list \<Rightarrow> store \<Rightarrow>
    ((db_exn option \<times> ('k \<times> 'd) list) \<times> store) option" where
  "Simple_keysAndData rk rd kds s = on_handle (\<lambda>h. appending kds (allPairs rk rd False h)) s"

definition Simple_flush :: "store \<Rightarrow> (unit \<times> store) option" where
  "Simple_flush s = on_handle (\<lambda>h. map_option (Pair ()) (flushDatabase h)) s"

definition Simple_insertUserdata :: "mem \<Rightarrow> store \<Rightarrow> (int \<times> store) option" where
  "Simple_insertUserdata user_data s =
     on_handle (\<lambda>h. ffdb_set_user_info h (user_data @ [0]) (of_nat (length user_data))) s"

definition Simple_getUserdata :: "mem \<Rightarrow> store \<Rightarrow> ((int \<times> mem) \<times> store) option" where
  "Simple_getUserdata user_data s = on_handle (read_userdata user_data) s"

section \<open>The cache size\<close>

lemma cache_shift_loop_bounds:
  assumes "unat t < 2 ^ 31" "n \<le> 20"
  shows "unat (cache_shift_loop n t) = (if unat t * 2 ^ n < 2 ^ 32 then unat t * 2 ^ n else 2 ^ 32 - 1)"
  using assms
proof (induction n arbitrary: t)
  case (Suc n)
  let ?t = "t * 2 :: u32"
  have p: "push_bit 1 t = ?t" by (simp add: push_bit_eq_mult)
  have t: "unat ?t = 2 * unat t" using Suc.prems(1) by (simp add: unat_word_ariths)
  have le: "(0x80000000 \<le> ?t) \<longleftrightarrow> 2 ^ 31 \<le> 2 * unat t" unfolding word_le_nat_alt t by simp
  show ?case
  proof (cases "n = 0")
    case True
    then show ?thesis using t p Suc.prems(1) by simp
  next
    case n: False
    then have i: "20 - n < 20" by simp
    show ?thesis
    proof (cases "2 ^ 31 \<le> 2 * unat t")
      case True
      have "2 ^ 31 * 2 \<le> 2 * unat t * 2 ^ n"
        using True n by (intro mult_le_mono) (simp_all add: self_le_power)
      then show ?thesis using True i by (simp add: Let_def p le del: push_bit_numeral_minus_1)
    next
      case False
      then show ?thesis using Suc.IH [of ?t] Suc.prems(2) i by (simp add: Let_def p le t mult.assoc mult.left_commute)
    qed
  qed
qed simp

lemma cache_size_wraps: "unat (cache_shift_loop 20 (2 ^ 31 + 1)) = 2 ^ 20"
proof -
  have p: "push_bit 1 (2 ^ 31 + 1) = (2 :: u32)" by (simp add: push_bit_eq_mult)
  have "cache_shift_loop (Suc 19) (2 ^ 31 + 1) = cache_shift_loop 19 2"
    unfolding cache_shift_loop.simps Let_def p by simp
  moreover have "unat (cache_shift_loop 19 2) = 2 ^ 20" using cache_shift_loop_bounds [of 2 19] by simp
  moreover have "Suc 19 = 20" by simp
  ultimately show ?thesis by metis
qed

text \<open>C39: The cache size in megabytes. Where \<open>long\<close> has 64 bits the size is exact. The loop for
  machines with a 32-bit \<open>long\<close> gives the exact size when it fits and the largest 32-bit
  number otherwise, provided that the argument is below \<open>2^31\<close>: above, the first shift loses
  the top bit before the test for overflow, and a request of \<open>2^31 + 1\<close> megabytes gives a
  cache of one megabyte.\<close>
theorem cache_size_bounds:
  assumes "unat n < 2 ^ 31"
  shows "hi_cachesize (db_options (setCacheSizeMB False m s)) = unat m * 2 ^ 20 \<and>
    hi_cachesize (db_options (setCacheSizeMB True n s)) = min (unat n * 2 ^ 20) (2 ^ 32 - 1) \<and>
    hi_cachesize (db_options (setCacheSizeMB True (2 ^ 31 + 1) s)) = 2 ^ 20"
proof (intro conjI)
  have "unat m < 2 ^ 32" using unsigned_less [of m, where ?'a = nat] by simp
  then show "hi_cachesize (db_options (setCacheSizeMB False m s)) = unat m * 2 ^ 20"
    by (simp add: setCacheSizeMB_def push_bit_eq_mult unat_word_ariths unsigned_ucast_eq take_bit_nat_eq_self)
  show "hi_cachesize (db_options (setCacheSizeMB True n s)) = min (unat n * 2 ^ 20) (2 ^ 32 - 1)"
    using cache_shift_loop_bounds [OF assms, of 20] by (simp add: setCacheSizeMB_def)
  show "hi_cachesize (db_options (setCacheSizeMB True (2 ^ 31 + 1) s)) = 2 ^ 20"
    using cache_size_wraps by (simp add: setCacheSizeMB_def)
qed

theorem cache_size_bounds_witness:
  "hi_cachesize (db_options (setCacheSizeMB True 4096 new_store)) = 2 ^ 32 - 1 \<and>
   hi_cachesize (db_options (setCacheSizeMB False 4096 new_store)) = 2 ^ 32"
  using cache_size_bounds [of 4096 4096 new_store] by simp

section \<open>The store as a map\<close>

text \<open>An open store holds the map that its table represents; a pair fits if it fits in the table.\<close>

definition store_holds :: "store \<Rightarrow> (mem \<Rightarrow> mem option) \<Rightarrow> bool" where
  "store_holds s f \<longleftrightarrow> (\<exists>h. db_dbh s = Some h \<and> represents h f)"

definition fits :: "store \<Rightarrow> mem \<Rightarrow> mem \<Rightarrow> bool" where
  "fits s k v \<longleftrightarrow> (\<exists>h. db_dbh s = Some h \<and> store_room h k v)"

lemma holds_open [intro]: "represents h f \<Longrightarrow> store_holds (s\<lparr>db_dbh := Some h\<rparr>) f"
  by (simp add: store_holds_def)

text \<open>The calls on a table.\<close>

lemma insertData_represents:
  assumes "represents h f" "length k < 2 ^ 31" "f k = None" "store_room h k v"
  shows "\<exists>h1. insertData h k v 0 = Some (0, h1) \<and> insertBinaryData h k v = Some (0, h1) \<and> represents h1 (f(k \<mapsto> v))"
  using hash_put_new [OF assms(1), of "dbt_of k" "dbt_of v" 0] assms(2-4)
  by (simp add: insertData_def insertBinaryData_def store_room_def)

lemma hash_get_buf:
  assumes r: "represents h f" and k: "length k < 2 ^ 31"
  shows "\<exists>h1 buf. ffdb_hash_get h (dbt_of k) no_buffer = Some (if f k = None then FFDB_NOT_FOUND else 0, buf, h1) \<and>
    represents h1 f \<and> (\<forall>v. f k = Some v \<longrightarrow> buf_bytes buf = v)"
proof -
  have nb: "room_for no_buffer n" "\<not> own_buffer no_buffer" for n by (simp_all add: room_for_def own_buffer_def no_buffer_def)
  show ?thesis
    using hash_get_represents [OF r, of "dbt_of k" no_buffer] k nb
    by (cases "f k") (auto simp: buf_bytes_def)
qed

lemma getBinaryData_represents:
  assumes "represents h f" "length k < 2 ^ 31"
  shows "\<exists>h1. getBinaryData h k d = Some (case f k of None \<Rightarrow> (FFDB_NOT_FOUND, d, h1) | Some v \<Rightarrow> (0, v, h1)) \<and> represents h1 f"
  using hash_get_buf [OF assms]
  by (cases "f k") (auto simp: FDB_Functions.getBinaryData_def FFDB_NOT_FOUND_def)

lemma getData_represents:
  assumes "represents h f" "wk key = Inr kb" "length kb < 2 ^ 31"
  shows "\<exists>h1. getData_object wk rd h key d = Some (case f kb of
       None \<Rightarrow> Inr (FFDB_NOT_FOUND, d)
     | Some v \<Rightarrow> (case rd v of Inl e \<Rightarrow> Inl e | Inr x \<Rightarrow> Inr (0, x)), h1) \<and> represents h1 f"
  using hash_get_buf [OF assms(1,3)]
  by (cases "f kb") (auto simp: getData_object_def assms(2) FFDB_NOT_FOUND_def split: sum.split)

text \<open>The calls on a store.\<close>

lemma insertBinary_holds:
  assumes "store_holds s f" "length k < 2 ^ 31" "f k = None" "fits s k v"
  shows "\<exists>s1. insertBinary k v s = Some (0, s1) \<and> store_holds s1 (f(k \<mapsto> v))"
proof -
  obtain h where h: "db_dbh s = Some h" "represents h f" "store_room h k v"
    using assms(1,4) by (auto simp: store_holds_def fits_def)
  then obtain h1 where "insertBinaryData h k v = Some (0, h1)" "represents h1 (f(k \<mapsto> v))"
    using insertData_represents [OF h(2) assms(2,3)] by blast
  then show ?thesis using h(1) by (auto simp: insertBinary_def)
qed

lemma getBinary_holds:
  assumes "store_holds s f" "length k < 2 ^ 31"
  shows "\<exists>s1. getBinary k d s = Some (case f k of None \<Rightarrow> (FFDB_NOT_FOUND, d) | Some v \<Rightarrow> (0, v), s1) \<and> store_holds s1 f"
proof -
  obtain h where h: "db_dbh s = Some h" "represents h f" using assms(1) by (auto simp: store_holds_def)
  obtain h1 where "getBinaryData h k d = Some (case f k of None \<Rightarrow> (FFDB_NOT_FOUND, d, h1) | Some v \<Rightarrow> (0, v, h1))"
    "represents h1 f"
    using getBinaryData_represents [OF h(2) assms(2)] by blast
  then show ?thesis using h(1) by (cases "f k") (auto simp: getBinary_def)
qed

definition bin_get :: "store \<Rightarrow> mem \<Rightarrow> (mem option \<times> store) option" where
  "bin_get s k = map_option (\<lambda>((st, v), s1). (if st = 0 then Some v else None, s1)) (getBinary k [] s)"

definition bin_put :: "store \<Rightarrow> mem \<Rightarrow> mem \<Rightarrow> store option" where
  "bin_put s k v = (case insertBinary k v s of None \<Rightarrow> None | Some (st, s1) \<Rightarrow> if st = 0 then Some s1 else None)"

interpretation datastore: map_store store_holds bin_get bin_put fits "\<lambda>k. length k < 2 ^ 31"
proof
  fix s :: store and f :: "mem \<Rightarrow> mem option" and k v :: mem
  assume s: "store_holds s f" and k: "length k < 2 ^ 31"
  show "\<exists>s1. bin_get s k = Some (f k, s1) \<and> store_holds s1 f"
    using getBinary_holds [OF s k, of "[]"] by (cases "f k") (fastforce simp: bin_get_def FFDB_NOT_FOUND_def)+
  assume "f k = None" "fits s k v"
  then show "\<exists>s1. bin_put s k v = Some s1 \<and> store_holds s1 (f(k \<mapsto> v))"
    using insertBinary_holds [OF s k, of v] by (auto simp: bin_put_def)
qed

text \<open>Objects: what the classes of keys and data promise carries over to the store.\<close>

locale typed_store = K: serializable wk rk + D: serializable wd rd
  for wk :: "'k \<Rightarrow> db_exn + mem" and rk and wd :: "'d \<Rightarrow> db_exn + mem" and rd
begin

lemma insert_holds:
  assumes "store_holds s f" "wk key = Inr kb" "wd data = Inr db" "length kb < 2 ^ 31" "f kb = None" "fits s kb db"
  shows "\<exists>s1. insert_pair wk wd key data s = Some (Inr 0, s1) \<and> store_holds s1 (f(kb \<mapsto> db))"
proof -
  obtain h where h: "db_dbh s = Some h" "represents h f" "store_room h kb db"
    using assms(1,6) by (auto simp: store_holds_def fits_def)
  obtain h1 where "insertData h kb db 0 = Some (0, h1)" "represents h1 (f(kb \<mapsto> db))"
    using insertData_represents [OF h(2) assms(4,5) h(3)] by blast
  then show ?thesis using h(1) assms(2,3) by (auto simp: insert_pair_def insertData_object_def)
qed

lemma get_holds:
  assumes "store_holds s f" "wk key = Inr kb" "length kb < 2 ^ 31"
  shows "\<exists>s1. get_data wk rd key d s = Some (case f kb of
       None \<Rightarrow> Inr (FFDB_NOT_FOUND, d)
     | Some v \<Rightarrow> catching (- 1, d) (case rd v of Inl e \<Rightarrow> Inl e | Inr x \<Rightarrow> Inr (0, x)), s1) \<and> store_holds s1 f"
proof -
  obtain h where h: "db_dbh s = Some h" "represents h f" using assms(1) by (auto simp: store_holds_def)
  obtain h1 where "getData_object wk rd h key d = Some (case f kb of
       None \<Rightarrow> Inr (FFDB_NOT_FOUND, d)
     | Some v \<Rightarrow> (case rd v of Inl e \<Rightarrow> Inl e | Inr x \<Rightarrow> Inr (0, x)), h1)" "represents h1 f"
    using getData_represents [of h f wk key kb rd d] h(2) assms(2,3) by blast
  then show ?thesis
    using h(1) by (cases "f kb") (auto simp: get_data_def caught_def)
qed

lemma roundtrip:
  assumes s: "store_holds s f" and w: "wk key = Inr kb" "wd data = Inr db" "length kb < 2 ^ 31" "f kb = None" "fits s kb db"
  shows "\<exists>s1. insert_pair wk wd key data s = Some (Inr 0, s1) \<and> store_holds s1 (f(kb \<mapsto> db)) \<and>
    (\<exists>s2. get_data wk rd key d s1 = Some (Inr (0, data), s2) \<and> store_holds s2 (f(kb \<mapsto> db))) \<and>
    (\<forall>other ob e. other \<noteq> key \<longrightarrow> wk other = Inr ob \<longrightarrow> length ob < 2 ^ 31 \<longrightarrow>
       map_option fst (get_data wk rd other e s1) = map_option fst (get_data wk rd other e s))"
proof -
  obtain s1 where s1: "insert_pair wk wd key data s = Some (Inr 0, s1)" "store_holds s1 (f(kb \<mapsto> db))"
    using insert_holds [OF s w] by blast
  have "map_option fst (get_data wk rd other e s1) = map_option fst (get_data wk rd other e s)"
    if o: "other \<noteq> key" "wk other = Inr ob" "length ob < 2 ^ 31" for other ob e
  proof -
    have "ob \<noteq> kb" using o w(1) K.write_injective by blast
    then show ?thesis
      using get_holds [OF s1(2) o(2,3), of e] get_holds [OF s o(2,3), of e] by auto
  qed
  moreover have "\<exists>s2. get_data wk rd key d s1 = Some (Inr (0, data), s2) \<and> store_holds s2 (f(kb \<mapsto> db))"
    using get_holds [OF s1(2) w(1,3), of d] D.read_write [OF w(2)] by simp
  ultimately show ?thesis using s1 by blast
qed

end

interpretation string_store: typed_store StringKey_writeObject StringKey_readObject UserData_writeObject UserData_readObject
  by unfold_locales

text \<open>C33: Storing objects. If a store holds the map \<open>f\<close>, a string key that is not in it and string
  data can be inserted when they fit; then the store holds the map with the pair, \<open>get\<close> of the
  key gives exactly the data back, and \<open>get\<close> of every other key answers as it did before.\<close>
theorem string_store_roundtrip:
  assumes "store_holds s f" "StringKey_writeObject key = Inr kb" "UserData_writeObject data = Inr db"
    "length kb < 2 ^ 31" "f kb = None" "fits s kb db"
  shows "\<exists>s1. insert_pair StringKey_writeObject UserData_writeObject key data s = Some (Inr 0, s1) \<and> store_holds s1 (f(kb \<mapsto> db)) \<and>
    (\<exists>s2. get_data StringKey_writeObject UserData_readObject key d s1 = Some (Inr (0, data), s2) \<and> store_holds s2 (f(kb \<mapsto> db))) \<and>
    (\<forall>other ob e. other \<noteq> key \<longrightarrow> StringKey_writeObject other = Inr ob \<longrightarrow> length ob < 2 ^ 31 \<longrightarrow>
       map_option fst (get_data StringKey_writeObject UserData_readObject other e s1) =
       map_option fst (get_data StringKey_writeObject UserData_readObject other e s))"
  by (rule string_store.roundtrip [OF assms])

text \<open>A store whose table is the empty one.\<close>

definition wit_store :: store where
  "wit_store = new_store\<lparr>db_dbh := Some wit_db\<rparr>"

lemma wit_store_holds: "store_holds wit_store Map.empty"
  using wit_db_represents by (simp add: wit_store_def holds_open)

lemma wit_store_fits:
  assumes "length k \<le> 100" "0 < length v" "length v \<le> 100"
  shows "fits wit_store k v"
proof -
  have "bucket_wf (wit_new_page 3 HASH_BUCKET_PAGE)"
    using wit_db_pages by (auto simp: bucket_pages_def bucket_chain_def)
  then have "PAIRFITS (wit_new_page 3 HASH_BUCKET_PAGE) (length k)"
    using assms(1) by (simp add: PAIRFITS_nat page_num_def page_top_def pair_pos_def wit_new_page_fields wit_page_types PAGE_OVERHEAD_def)
  then have "\<exists>ps. bucket_pages wit_db k ps \<and> PAIRFITS (snd (last ps)) (length k)"
    using wit_db_pages by fastforce
  moreover have "unat (OFFSET (wit_new_page 4 HASH_DATA_PAGE)) + BIG_DATA_TOTAL_SIZE (dbt_of v) \<le> bsz wit_db"
    using assms(3) by (simp add: wit_page_types BIG_DATA_TOTAL_SIZE_def BIG_DATA_OVERHEAD_def bsz_def wit_db_fields wit_db_hdr_fields)
  ultimately have "put_fits wit_db (dbt_of k) (dbt_of v)"
    using wit_db_view by (simp add: put_fits_def wit_db_fields wit_page_types)
  then show ?thesis
    using assms(2) by (simp add: fits_def wit_store_def store_room_def wit_db_fields)
qed

theorem string_store_roundtrip_witness:
  "\<exists>s1 s2. insert_pair StringKey_writeObject UserData_writeObject [107] [1, 2] wit_store = Some (Inr 0, s1) \<and>
     get_data StringKey_writeObject UserData_readObject [107] [] s1 = Some (Inr (0, [1, 2]), s2)"
proof -
  let ?k = "write_string StringKey_serialID [107]" and ?d = "write_string UserData_serialID [1, 2]"
  have l: "length ?k = 5" "length ?d = 6" by (simp_all add: write_string_def u16_bytes_def)
  then have "fits wit_store ?k ?d" by (intro wit_store_fits) simp_all
  then show ?thesis
    using string_store_roundtrip [OF wit_store_holds, of "[107]" ?k "[1, 2]" ?d "[]"] l
    by (auto simp: StringKey_writeObject_def UserData_writeObject_def)
qed

end
