(* ===== verification/FDB_ReadAll.thy ===== *)
theory FDB_ReadAll
  imports FDB_DataStore FFDB_Scan
begin

text \<open>
  Reading a whole table through the C++ functions (\<open>src/DBFunc.h\<close>, \<open>src/DBFunc.cpp\<close>): their
  loops over a cursor deliver every pair of a tidy table once, and nothing else.
\<close>

section \<open>The loops\<close>

text \<open>What the classes of keys and data read at a place.\<close>

definition reads :: "(mem \<Rightarrow> db_exn + 'k) \<Rightarrow> (mem \<Rightarrow> db_exn + 'd) \<Rightarrow> htab \<Rightarrow> spot \<Rightarrow> 'k \<times> 'd \<Rightarrow> bool" where
  "reads rk rd h s kd \<longleftrightarrow> (\<exists>v. spot_datum h s v \<and> rk (spot_key s) = Inr (fst kd) \<and> rd v = Inr (snd kd))"

lemma buf_bytes_of [simp]: "buf_bytes (buf_of v) = v"
  by (simp add: buf_bytes_def buf_of_def)

lemma spot_datum_same:
  assumes "same_pages h h'"
  shows "spot_datum h' = spot_datum h"
proof -
  have D: "datum h' = datum h" "tview h' = tview h"
    using assms datum_same(1) [of h' h] pool_step_fields by (auto simp: same_pages_def)
  show ?thesis by (simp add: fun_eq_iff spot_datum_def D)
qed

lemma reads_same: "same_pages h h' \<Longrightarrow> reads rk rd h' = reads rk rd h"
  by (simp add: fun_eq_iff reads_def spot_datum_same)

text \<open>After a loop over all places: the cursor is done and holds no page.\<close>

definition finished :: "htab \<Rightarrow> crs \<Rightarrow> htab \<Rightarrow> bool" where
  "finished h c' h' \<longleftrightarrow> ffdb_cursor_close h' c' = Some (0, h') \<and> tsession h' {} \<and> theld h' = Map.empty \<and> same_pages h h'"

lemma finished_trans: "same_pages h h1 \<Longrightarrow> finished h1 c' h' \<Longrightarrow> finished h c' h'"
  by (auto simp: finished_def intro: same_pages_trans)

lemma pairs_loop_delivers:
  assumes "delivers h c todo" "list_all2 (reads rk rd h) todo kds"
  shows "\<exists>c' h'. pairs_loop rk rd False err h c acc = Some (None, acc @ kds, c', h') \<and> finished h c' h'"
  using assms
proof (induction todo arbitrary: h c kds acc)
  case Nil
  then show ?case
    using cursor_get_end [OF Nil.prems(1), of "Some no_buffer"]
    by (subst pairs_loop.simps) (auto simp: FFDB_NOT_FOUND_def finished_def)
next
  case (Cons s todo)
  obtain kd kds' where kds: "kds = kd # kds'" "reads rk rd h s kd" "list_all2 (reads rk rd h) todo kds'"
    using Cons.prems(2) by (auto simp: list_all2_Cons1)
  obtain v where v: "spot_datum h s v" "rk (spot_key s) = Inr (fst kd)" "rd v = Inr (snd kd)"
    using kds(2) by (auto simp: reads_def)
  obtain c1 h1 where h1: "ffdb_cursor_get h c no_buffer (Some no_buffer) FFDB_NEXT =
      Some (0, c1, buf_of (spot_key s), Some (buf_of v), h1)" "delivers h1 c1 todo" "same_pages h h1"
    using cursor_get_pair(1) [OF Cons.prems(1) v(1)] by blast
  have "list_all2 (reads rk rd h1) todo kds'" using kds(3) reads_same [OF h1(3), of rk rd] by simp
  then obtain c' h' where "pairs_loop rk rd False err h1 c1 (acc @ [kd]) = Some (None, (acc @ [kd]) @ kds', c', h')"
    "finished h1 c' h'" using Cons.IH [OF h1(2)] by blast
  then show ?case
    using h1(1) v(2,3) kds(1) finished_trans [OF h1(3)] by (subst pairs_loop.simps) auto
qed

lemma keys_loop_delivers:
  assumes "delivers h c todo" "\<forall>s\<in>set todo. \<exists>v. spot_datum h s v" "list_all2 (\<lambda>s k. rk (spot_key s) = Inr k) todo ks"
  shows "\<exists>c' h'. keys_loop rk err h c acc = Some (None, acc @ ks, c', h') \<and> finished h c' h'"
  using assms
proof (induction todo arbitrary: h c ks acc)
  case Nil
  then show ?case
    using cursor_get_end [OF Nil.prems(1), of None]
    by (subst keys_loop.simps) (auto simp: FFDB_NOT_FOUND_def finished_def)
next
  case (Cons s todo)
  obtain k ks' where ks: "ks = k # ks'" "rk (spot_key s) = Inr k" "list_all2 (\<lambda>s k. rk (spot_key s) = Inr k) todo ks'"
    using Cons.prems(3) by (auto simp: list_all2_Cons1)
  obtain v where v: "spot_datum h s v" using Cons.prems(2) by auto
  obtain c1 h1 where h1: "ffdb_cursor_get h c no_buffer None FFDB_NEXT = Some (0, c1, buf_of (spot_key s), None, h1)"
    "delivers h1 c1 todo" "same_pages h h1"
    using cursor_get_pair(2) [OF Cons.prems(1) v] by blast
  obtain c' h' where "keys_loop rk err h1 c1 (acc @ [k]) = Some (None, (acc @ [k]) @ ks', c', h')" "finished h1 c' h'"
    using Cons.IH [OF h1(2) _ ks(3)] Cons.prems(2) spot_datum_same [OF h1(3)] by fastforce
  then show ?case
    using h1(1) ks(1,2) finished_trans [OF h1(3)] by (subst keys_loop.simps) auto
qed

text \<open>A loop that stops at the first pair leaves the cursor on it; closing puts the page back.\<close>

lemma pairs_loop_one:
  assumes "delivers h c (s # todo)" "reads rk rd h s kd"
  shows "\<exists>c' h1 h'. pairs_loop rk rd True err h c [] = Some (None, [kd], c', h1) \<and> ffdb_cursor_close h1 c' = Some (0, h') \<and>
    tsession h' {} \<and> theld h' = Map.empty \<and> same_pages h h'"
proof -
  obtain v where v: "spot_datum h s v" "rk (spot_key s) = Inr (fst kd)" "rd v = Inr (snd kd)"
    using assms(2) by (auto simp: reads_def)
  obtain c1 h1 where h1: "ffdb_cursor_get h c no_buffer (Some no_buffer) FFDB_NEXT =
      Some (0, c1, buf_of (spot_key s), Some (buf_of v), h1)" "same_pages h h1" "standing h1 (c_item c1) s todo"
    using cursor_get_pair(1) [OF assms(1) v(1)] by blast
  obtain b m where b: "it_pagep (c_item c1) = Some b" "theld h1 = [b \<mapsto> (fst s, m)]" "page_good (hdr h1) m" "tsession h1 {}"
    using h1(3) by (auto simp: standing_def on_spot_def)
  obtain h' where "ffdb_put_page h1 b False = Some (0, h')" "tsession h' {}" "theld h' = Map.empty" "same_pages h1 h'"
    using unload_page [OF b(4,2,3)] by blast
  then show ?thesis
    using h1 v b(1) same_pages_trans [OF h1(2)]
    by (subst pairs_loop.simps) (auto simp: ffdb_cursor_close_def item_release_def)
qed

section \<open>All pairs, all keys, one pair\<close>

lemma with_cursor_new:
  assumes "loop h \<lparr>c_item = empty_item, c_type = FFDB_KEY_CURSOR\<rparr> = Some (None, xs, c', h1)" "ffdb_cursor_close h1 c' = Some (0, h')"
  shows "with_cursor err loop h = Some (None, xs, h')"
  using assms by (simp add: with_cursor_def ffdb_hash_cursor_def)

lemma kept_delivers:
  assumes "kept h f" "f \<noteq> Map.empty"
  obtains Cs where "represents h f" "tidy h Cs" "all_spots Cs \<noteq> []"
    "delivers h \<lparr>c_item = empty_item, c_type = FFDB_KEY_CURSOR\<rparr> (all_spots Cs)"
proof -
  obtain Cs where t: "represents h f" "tidy h Cs" using assms(1) by (auto simp: kept_def)
  obtain k v where "f k = Some v" using assms(2) by (metis not_Some_eq)
  then have ne: "all_spots Cs \<noteq> []" using tidy_complete [OF t] by auto
  moreover have "delivers h \<lparr>c_item = empty_item, c_type = FFDB_KEY_CURSOR\<rparr> (all_spots Cs)"
    using t ne by (intro delivers_first) (simp_all add: represents_def db_ok_def tidy_def)
  ultimately show thesis using that t by blast
qed

text \<open>The pairs in the order of the table, and what the classes read of them.\<close>

lemma read_list:
  assumes "represents h f" "tidy h Cs"
    and rd: "\<And>k v. f k = Some v \<Longrightarrow> rk k = Inr (a k) \<and> rd v = Inr (b v)"
  shows "list_all2 (reads rk rd h) (all_spots Cs) (map (\<lambda>s. (a (spot_key s), b (the (f (spot_key s))))) (all_spots Cs))"
  unfolding list.rel_map
proof (rule list.rel_refl_strong)
  fix s
  assume "s \<in> set (all_spots Cs)"
  then obtain v where "spot_datum h s v" "f (spot_key s) = Some v" using tidy_spot [OF assms(1,2)] by blast
  then show "reads rk rd h s (a (spot_key s), b (the (f (spot_key s))))" using rd by (auto simp: reads_def)
qed

definition table_pairs :: "(mem \<Rightarrow> mem option) \<Rightarrow> (pgno \<times> mem) list list \<Rightarrow> (mem \<times> mem) list" where
  "table_pairs f Cs = map (\<lambda>s. (spot_key s, the (f (spot_key s)))) (all_spots Cs)"

lemma read_everything:
  assumes k: "kept h f" and t: "represents h f" "tidy h Cs" "all_spots Cs \<noteq> []"
      "delivers h \<lparr>c_item = empty_item, c_type = FFDB_KEY_CURSOR\<rparr> (all_spots Cs)"
    and rd: "\<And>k v. f k = Some v \<Longrightarrow> rk k = Inr (a k) \<and> rd v = Inr (b v)"
  shows "\<exists>h'. with_cursor e1 (\<lambda>h c. pairs_loop rk rd False e2 h c []) h = Some (None, map (map_prod a b) (table_pairs f Cs), h') \<and> kept h' f"
    and "\<exists>h'. allKeys rk h = Some (None, map (a \<circ> fst) (table_pairs f Cs), h') \<and> kept h' f"
    and "\<exists>h'. allPairs rk rd True h = Some (None, [map_prod a b (hd (table_pairs f Cs))], h') \<and> kept h' f"
proof -
  have kept: "kept h' f" if "finished h c' h'" for c' h'
    using kept_step [OF k] that by (simp add: finished_def)
  have L: "list_all2 (reads rk rd h) (all_spots Cs) (map (map_prod a b) (table_pairs f Cs))"
    using read_list [OF t(1,2) rd] by (simp add: table_pairs_def comp_def)
  obtain c1 h1 where p: "pairs_loop rk rd False e2 h \<lparr>c_item = empty_item, c_type = FFDB_KEY_CURSOR\<rparr> [] =
      Some (None, map (map_prod a b) (table_pairs f Cs), c1, h1)" "finished h c1 h1"
    using pairs_loop_delivers [OF t(4) L, where err = e2 and acc = "[]"] by auto
  show "\<exists>h'. with_cursor e1 (\<lambda>h c. pairs_loop rk rd False e2 h c []) h = Some (None, map (map_prod a b) (table_pairs f Cs), h') \<and> kept h' f"
    by (intro exI [of _ h1] conjI with_cursor_new, rule p(1)) (use p(2) kept in \<open>auto simp: finished_def\<close>)
  have ks: "list_all2 (\<lambda>s k. rk (spot_key s) = Inr k) (all_spots Cs) (map (a \<circ> fst) (table_pairs f Cs))"
    unfolding table_pairs_def list.rel_map map_map
    by (rule list.rel_refl_strong) (use tidy_spot [OF t(1,2)] rd in fastforce)
  obtain c2 h2 where q: "keys_loop rk (FileHashDBException ''DBFunc AllKeys'' ''Cursor next error'') h
      \<lparr>c_item = empty_item, c_type = FFDB_KEY_CURSOR\<rparr> [] = Some (None, map (a \<circ> fst) (table_pairs f Cs), c2, h2)" "finished h c2 h2"
    using keys_loop_delivers [OF t(4) _ ks, where acc = "[]"] tidy_spot [OF t(1,2)] by fastforce
  show "\<exists>h'. allKeys rk h = Some (None, map (a \<circ> fst) (table_pairs f Cs), h') \<and> kept h' f"
    unfolding allKeys_def
    by (intro exI [of _ h2] conjI with_cursor_new, rule q(1)) (use q(2) kept in \<open>auto simp: finished_def\<close>)
  obtain s todo where s: "all_spots Cs = s # todo" using t(3) by (cases "all_spots Cs") auto
  then have rs: "reads rk rd h s (map_prod a b (hd (table_pairs f Cs)))" using L by (simp add: table_pairs_def)
  obtain c3 h3 h4 where o: "pairs_loop rk rd True (FileHashDBException ''DBFunc AllPairs'' ''Cursor Next Error'') h
      \<lparr>c_item = empty_item, c_type = FFDB_KEY_CURSOR\<rparr> [] = Some (None, [map_prod a b (hd (table_pairs f Cs))], c3, h3)"
    "ffdb_cursor_close h3 c3 = Some (0, h4)" "tsession h4 {}" "theld h4 = Map.empty" "same_pages h h4"
    using pairs_loop_one [OF t(4) [unfolded s] rs] by blast
  show "\<exists>h'. allPairs rk rd True h = Some (None, [map_prod a b (hd (table_pairs f Cs))], h') \<and> kept h' f"
    unfolding allPairs_def
    by (intro exI [of _ h4] conjI with_cursor_new, rule o(1), rule o(2), rule kept_step [OF k o(5,3,4)])
qed

text \<open>C6: Reading everything. Take a tidy table that represents a map with at least one pair, and
  classes of keys and data that can read all its bytes. Then \<open>allPairs\<close> and
  \<open>binaryAllPairs\<close> deliver, without an exception, every pair of the map exactly once and
  nothing else, \<open>allKeys\<close> and \<open>binaryAllKeys\<close> the keys in the same order, and the call for
  one pair the first of them; the cursor ends, all pages are put back, and the table still
  represents the map.\<close>
theorem read_all_pairs:
  assumes "kept h f" "f \<noteq> Map.empty" "\<forall>k v. f k = Some v \<longrightarrow> rk k = Inr (a k) \<and> rd v = Inr (b v)"
  shows "\<exists>kvs. distinct (map fst kvs) \<and> map_of kvs = f \<and>
    (\<exists>h'. allPairs rk rd False h = Some (None, map (map_prod a b) kvs, h') \<and> kept h' f) \<and>
    (\<exists>h'. allKeys rk h = Some (None, map (a \<circ> fst) kvs, h') \<and> kept h' f) \<and>
    (\<exists>h'. allPairs rk rd True h = Some (None, [map_prod a b (hd kvs)], h') \<and> kept h' f) \<and>
    (\<exists>h'. binaryAllPairs h = Some (None, kvs, h') \<and> kept h' f) \<and>
    (\<exists>h'. binaryAllKeys h = Some (None, map fst kvs, h') \<and> kept h' f)"
proof -
  obtain Cs where t: "represents h f" "tidy h Cs" "all_spots Cs \<noteq> []"
    "delivers h \<lparr>c_item = empty_item, c_type = FFDB_KEY_CURSOR\<rparr> (all_spots Cs)" using kept_delivers [OF assms(1,2)] .
  note R = read_everything [OF assms(1) t, where rk = rk and rd = rd and a = a and b = b]
  note B = read_everything(1) [OF assms(1) t, where rk = Inr and rd = Inr and a = id and b = id]
  have rd: "\<And>k v. f k = Some v \<Longrightarrow> rk k = Inr (a k) \<and> rd v = Inr (b v)" using assms(3) by blast
  have "\<exists>h'. binaryAllPairs h = Some (None, table_pairs f Cs, h') \<and> kept h' f"
    unfolding binaryAllPairs_def using B by (simp add: map_prod.id)
  moreover have "\<exists>h'. binaryAllKeys h = Some (None, map fst (table_pairs f Cs), h') \<and> kept h' f"
    using B [of "FileHashDBException ''DBFunc binaryAllKeys'' ''Create Cursor Error''"
      "FileHashDBException ''DBFunc binaryAllKeys'' ''Cursor Next Error''"] by (auto simp: map_prod.id binaryAllKeys_def)
  moreover have "\<exists>h'. allPairs rk rd False h = Some (None, map (map_prod a b) (table_pairs f Cs), h') \<and> kept h' f"
    unfolding allPairs_def using rd by (intro R) blast
  moreover have "\<exists>h'. allKeys rk h = Some (None, map (a \<circ> fst) (table_pairs f Cs), h') \<and> kept h' f" using rd by (intro R) blast
  moreover have "\<exists>h'. allPairs rk rd True h = Some (None, [map_prod a b (hd (table_pairs f Cs))], h') \<and> kept h' f"
    using rd by (intro R) blast
  ultimately show ?thesis
    using walk_map(2,3) [OF t(1,2)] unfolding table_pairs_def by blast
qed

section \<open>The stores\<close>

definition store_kept :: "store \<Rightarrow> (mem \<Rightarrow> mem option) \<Rightarrow> bool" where
  "store_kept s f \<longleftrightarrow> (\<exists>h. db_dbh s = Some h \<and> kept h f)"

lemma kept_store [intro]: "kept h f \<Longrightarrow> store_kept (s\<lparr>db_dbh := Some h\<rparr>) f"
  by (simp add: store_kept_def)

interpretation tidy_store: map_store store_kept bin_get bin_put fits "\<lambda>k. length k < 2 ^ 31"
proof
  fix s :: store and f :: "mem \<Rightarrow> mem option" and k v :: mem
  assume s: "store_kept s f" and k: "length k < 2 ^ 31"
  obtain h where h: "db_dbh s = Some h" "kept h f" using s by (auto simp: store_kept_def)
  obtain h1 where h1: "ffdb_hash_get h (dbt_of k) no_buffer =
      Some (case f k of None \<Rightarrow> (FFDB_NOT_FOUND, no_buffer, h1) | Some v \<Rightarrow> (0, buf_of v, h1))" "kept h1 f"
    using kept_get [OF h(2) k] by blast
  then have "bin_get s k = Some (f k, s\<lparr>db_dbh := Some h1\<rparr>)"
    by (cases "f k") (simp_all add: bin_get_def getBinary_def with_handle_def h(1) FDB_Functions.getBinaryData_def FFDB_NOT_FOUND_def)
  then show "\<exists>s1. bin_get s k = Some (f k, s1) \<and> store_kept s1 f" using h1(2) by blast
  assume new: "f k = None" and "fits s k v"
  then have "store_room h k v" using h(1) by (simp add: fits_def)
  then obtain h2 where "ffdb_hash_put h (dbt_of k) (dbt_of v) 0 = Some (0, h2)" "kept h2 (f(k \<mapsto> v))"
    using kept_put [OF h(2) k new, of v 0] by blast
  moreover from this have "bin_put s k v = Some (s\<lparr>db_dbh := Some h2\<rparr>)"
    by (simp add: bin_put_def insertBinary_def with_handle_def h(1) insertBinaryData_def)
  ultimately show "\<exists>s1. bin_put s k v = Some s1 \<and> store_kept s1 (f(k \<mapsto> v))" by blast
qed

lemma store_reads_all:
  assumes "store_kept s f" "f \<noteq> Map.empty"
  shows "\<exists>kvs s1. binaryKeysAndData [] s = Some ((None, kvs), s1) \<and> store_kept s1 f \<and> distinct (map fst kvs) \<and> map_of kvs = f"
proof -
  obtain h where h: "db_dbh s = Some h" "kept h f" using assms(1) by (auto simp: store_kept_def)
  obtain Cs where t: "represents h f" "tidy h Cs" "all_spots Cs \<noteq> []"
    "delivers h \<lparr>c_item = empty_item, c_type = FFDB_KEY_CURSOR\<rparr> (all_spots Cs)" using kept_delivers [OF h(2) assms(2)] .
  obtain h1 where "binaryAllPairs h = Some (None, table_pairs f Cs, h1)" "kept h1 f"
    using read_everything(1) [OF h(2) t, where rk = Inr and rd = Inr and a = id and b = id] by (auto simp: binaryAllPairs_def map_prod.id)
  then show ?thesis
    using h(1) walk_map(2,3) [OF t(1,2)]
    by (intro exI [of _ "table_pairs f Cs"] exI [of _ "s\<lparr>db_dbh := Some h1\<rparr>"])
      (auto simp: binaryKeysAndData_def appending_def table_pairs_def)
qed

text \<open>Storing and reading back. If pairs with distinct new keys are inserted into an open store one
  after the other, each fitting when its turn comes, then \<open>binaryKeysAndData\<close> delivers each
  pair of the store, old and new, exactly once and without an exception.\<close>
theorem batch_read_all:
  assumes "store_kept s f" "distinct (map fst kvs)" "\<forall>k\<in>fst ` set kvs. length k < 2 ^ 31 \<and> f k = None"
    "all_fit fits bin_put s kvs" "f ++ map_of kvs \<noteq> Map.empty"
  shows "\<exists>s1 all s2. put_all bin_put s kvs = Some s1 \<and> binaryKeysAndData [] s1 = Some ((None, all), s2) \<and>
    distinct (map fst all) \<and> map_of all = f ++ map_of kvs \<and> store_kept s2 (f ++ map_of kvs)"
proof -
  obtain s1 where s1: "put_all bin_put s kvs = Some s1" "store_kept s1 (f ++ map_of kvs)"
    using tidy_store.put_all_law [OF assms(1-4)] by blast
  then show ?thesis using store_reads_all [OF s1(2) assms(5)] by blast
qed

lemma wit_store_kept: "store_kept wit_store Map.empty"
  using wit_db_kept by (simp add: wit_store_def kept_store)

theorem batch_read_all_witness:
  "\<exists>s1 s2. put_all bin_put wit_store [([1, 2, 3], [10, 20, 30, 40])] = Some s1 \<and>
     binaryKeysAndData [] s1 = Some ((None, [([1, 2, 3], [10, 20, 30, 40])]), s2)"
proof -
  let ?kvs = "[([1, 2, 3], [10, 20, 30, 40])] :: (mem \<times> mem) list"
  have "fits wit_store [1, 2, 3] [10, 20, 30, 40]" by (rule wit_store_fits) simp_all
  then have "all_fit fits bin_put wit_store ?kvs" by (simp split: option.split)
  then obtain s1 all s2 where a: "put_all bin_put wit_store ?kvs = Some s1" "binaryKeysAndData [] s1 = Some ((None, all), s2)"
    "distinct (map fst all)" "map_of all = map_of ?kvs"
    using batch_read_all [OF wit_store_kept, of ?kvs] by fastforce
  have "set all = set ?kvs" using map_of_inject_set [of all ?kvs] a(3,4) by simp
  moreover have "distinct all" using a(3) by (simp add: distinct_map)
  ultimately have "all = ?kvs" by (cases all) (auto simp: subset_singleton_iff)
  then show ?thesis using a(1,2) by blast
qed

text \<open>The table of the store after an insertion, read through string classes.\<close>

theorem read_all_pairs_witness:
  "\<exists>h h'. ffdb_hash_put wit_db wit_key wit_val 0 = Some (0, h) \<and>
     allPairs Inr Inr False h = Some (None, [([1, 2, 3], [10, 20, 30, 40])], h')"
proof -
  have "dbt_of [1, 2, 3] = wit_key" "dbt_of [10, 20, 30, 40] = wit_val" by (simp_all add: dbt_of_def wit_key_def wit_val_def)
  then obtain h where h: "ffdb_hash_put wit_db wit_key wit_val 0 = Some (0, h)" "kept h [[1, 2, 3] \<mapsto> [10, 20, 30, 40]]"
    using kept_put [OF wit_db_kept, of "[1, 2, 3]" "[10, 20, 30, 40]" 0] wit_store_room by auto
  obtain kvs h' where a: "distinct (map fst kvs)" "map_of kvs = [[1, 2, 3] \<mapsto> [10, 20, 30, 40]]"
    "allPairs Inr Inr False h = Some (None, map (map_prod id id) kvs, h')"
    using read_all_pairs [OF h(2), of Inr id Inr id] by auto
  have "set kvs = set [([1, 2, 3], [10, 20, 30, 40])]"
    using map_of_inject_set [of kvs "[([1, 2, 3], [10, 20, 30, 40])]"] a(1,2) by simp
  moreover have "distinct kvs" using a(1) by (simp add: distinct_map)
  ultimately have "kvs = [([1, 2, 3], [10, 20, 30, 40])]" by (cases kvs) (auto simp: subset_singleton_iff)
  then show ?thesis using a(3) h(1) by (simp add: map_prod.id)
qed

end
