(* ===== verification/FDB_AllConf.thy ===== *)
theory FDB_AllConf
  imports FDB_DataStore
begin

text \<open>
  The data store of all configurations, \<open>AllConfStoreDB\<close> (\<open>src/AllConfStoreDB.h\<close>): the value
  of a key is the concatenation of one element for each configuration. All elements have the
  same size, which the object learns from the first value it sees. A call that ends in
  \<open>exit\<close> or \<open>abort\<close>, or uses the handle of a store that is not open, is \<open>None\<close>.
\<close>

section \<open>Configuration information\<close>

text \<open>The class \<open>ConfigInfo\<close> (\<open>src/ConfigInfo.cpp\<close>).\<close>

record cfg =
  cf_config :: u32
  cf_index :: u32
  cf_inserted :: u32
  cf_type :: u32
  cf_mtime :: u32
  cf_url :: mem

definition FILEDB_FIX_DATA_SIZE :: u32 where "FILEDB_FIX_DATA_SIZE = 0x1000"

definition new_ConfigInfo :: cfg where
  "new_ConfigInfo = \<lparr>cf_config = 0, cf_index = 0, cf_inserted = 0, cf_type = FILEDB_FIX_DATA_SIZE, cf_mtime = 0, cf_url = []\<rparr>"

text \<open>
  \<open>strncpy\<close> into the 128 bytes of a name, and reading a C string back: without a zero byte
  among the 128 the read leaves the array.
\<close>

definition FFDB_MAX_FNAME :: nat where "FFDB_MAX_FNAME = 128"

definition strncpy_fname :: "mem \<Rightarrow> mem" where
  "strncpy_fname url = (let s = take FFDB_MAX_FNAME (c_str url) in s @ replicate (FFDB_MAX_FNAME - length s) 0)"

definition fname_str :: "mem \<Rightarrow> mem option" where
  "fname_str m = (if 0 \<in> set m then Some (c_str m) else None)"

section \<open>The store\<close>

record allconf =
  ac_db :: store
  ac_nbin :: u32
  ac_bytesize :: nat
  ac_numconfigs :: u32
  ac_allconfigs :: "config_info list"
  ac_empty :: bool

definition new_allconf :: allconf where
  "new_allconf = \<lparr>ac_db = new_store, ac_nbin = 0, ac_bytesize = 0, ac_numconfigs = 0, ac_allconfigs = [], ac_empty = True\<rparr>"

text \<open>The table of configurations is fresh memory, of which the name keeps all bytes but the first.\<close>

definition initial_configs :: "mem \<Rightarrow> nat \<Rightarrow> u32 list \<Rightarrow> config_info list" where
  "initial_configs fresh n configs = map (\<lambda>i. \<lparr>ci_config = configs ! i, ci_index = of_nat i, ci_inserted = 0, ci_type = 0, ci_mtime = 0,
     ci_fname = mem_put fresh 0 [0]\<rparr>) [0..<n]"

definition allconf_of :: "mem \<Rightarrow> u32 list \<Rightarrow> allconf" where
  "allconf_of fresh configs = (let nbin = (of_nat (length configs) :: u32)
     in new_allconf\<lparr>ac_nbin := nbin, ac_numconfigs := nbin, ac_allconfigs := initial_configs fresh (length configs) configs,
       ac_db := setMaxNumberConfigs nbin new_store\<rparr>)"

definition NOT_AVAILABLE :: mem where "NOT_AVAILABLE = [78, 47, 65]"

definition name_config :: "mem \<Rightarrow> config_info \<Rightarrow> config_info" where
  "name_config name c = c\<lparr>ci_fname := (if name = NOT_AVAILABLE then mem_put (ci_fname c) 0 [0] else strncpy_fname name)\<rparr>"

definition allconf_named :: "mem \<Rightarrow> u32 list \<Rightarrow> mem list \<Rightarrow> allconf option" where
  "allconf_named fresh configs names = (if length configs \<noteq> length names then None
     else let a = allconf_of fresh configs in Some (a\<lparr>ac_allconfigs := map2 name_config names (ac_allconfigs a)\<rparr>))"

text \<open>A call of a function on the table, which must be open.\<close>

definition on_table :: "(htab \<Rightarrow> ('r \<times> htab) option) \<Rightarrow> allconf \<Rightarrow> ('r \<times> allconf) option" where
  "on_table f a = map_option (\<lambda>(r, s). (r, a\<lparr>ac_db := s\<rparr>)) (on_handle f (ac_db a))"

definition allconf_open :: "opsys \<Rightarrow> key_class \<Rightarrow> mem \<Rightarrow> u32 \<Rightarrow> int \<Rightarrow> allconf \<Rightarrow> ((db_exn + int) \<times> allconf) option" where
  "allconf_open sys K file open_flags mode a0 = do {
     (r, s) \<leftarrow> DB_open sys K file open_flags mode (ac_db a0);
     let a = a0\<lparr>ac_db := s\<rparr>;
     if r \<noteq> 0 then Some (Inr (- 1), a)
     else do {
       (e, a1) \<leftarrow> on_table isDatabaseEmpty a;
       (case e of
          Inl (SerializeException _ _) \<Rightarrow> None
        | Inl ex \<Rightarrow> Some (Inl ex, a1)
        | Inr ret \<Rightarrow>
            if ret \<noteq> 0 then
              let a2 = a1\<lparr>ac_empty := True\<rparr>
              in if ac_nbin a2 = 0 then Some (Inr (- 1), a2)
                 else do {
                   (_, a3) \<leftarrow> on_table (\<lambda>h. ffdb_set_all_configs h (ac_numconfigs a2) (ac_allconfigs a2)) a2;
                   Some (Inr 0, a3)
                 }
            else do {
              h \<leftarrow> db_dbh (ac_db a1);
              (_, cs, h1) \<leftarrow> ffdb_get_all_configs h;
              let a2 = a1\<lparr>ac_empty := False, ac_db := (ac_db a1)\<lparr>db_dbh := Some h1\<rparr>, ac_allconfigs := cs,
                ac_numconfigs := ffdb_num_configs h, ac_nbin := ffdb_num_configs h\<rparr>;
              Some (Inr (if ac_nbin a2 = 0 then - 1 else 0), a2)
            })
     }
   }"

section \<open>Elements\<close>

text \<open>
  The number of configurations is an \<open>int\<close> that is converted to \<open>size_t\<close>. The size of a
  value must be a multiple of it, and the quotient is the size of an element, which is set
  when the first value is seen and compared from then on.
\<close>

definition nbin_size :: "allconf \<Rightarrow> nat" where
  "nbin_size a = unat (scast (ac_nbin a) :: u64)"

definition element_size :: "nat \<Rightarrow> allconf \<Rightarrow> (bool \<times> allconf) option" where
  "element_size n a =
     (if nbin_size a = 0 then None
      else if n mod nbin_size a \<noteq> 0 then Some (False, a)
      else let a1 = (if ac_bytesize a = 0 then a\<lparr>ac_bytesize := n div nbin_size a\<rparr> else a)
           in Some (ac_bytesize a1 = n div nbin_size a, a1))"

text \<open>The elements of a value; the loop is not entered with a size of 0 and a value that is not empty.\<close>

fun elements :: "nat \<Rightarrow> mem \<Rightarrow> mem list" where
  "elements n xs = (if n = 0 \<or> xs = [] then [] else take n xs # elements n (drop n xs))"

declare elements.simps [simp del]

fun read_elements :: "(mem \<Rightarrow> db_exn + 'd) \<Rightarrow> 'd list \<Rightarrow> mem list \<Rightarrow> db_exn option \<times> 'd list" where
  "read_elements rd vs [] = (None, vs)"
| "read_elements rd vs (b # bs) = (case rd b of Inl e \<Rightarrow> (Some e, vs) | Inr d \<Rightarrow> read_elements rd (vs @ [d]) bs)"

fun write_elements :: "('d \<Rightarrow> db_exn + mem) \<Rightarrow> 'd list \<Rightarrow> db_exn + mem" where
  "write_elements wd [] = Inr []"
| "write_elements wd (x # xs) = (case wd x of
     Inl e \<Rightarrow> Inl e
   | Inr b \<Rightarrow> (case write_elements wd xs of Inl e \<Rightarrow> Inl e | Inr bs \<Rightarrow> Inr (b @ bs)))"

text \<open>A value that was fetched is checked and split; errors of the elements are caught.\<close>

definition split_value :: "(mem \<Rightarrow> db_exn + 'd) \<Rightarrow> mem \<Rightarrow> 'd list \<Rightarrow> allconf \<Rightarrow> (((db_exn + int) \<times> 'd list) \<times> allconf) option" where
  "split_value rd cdata vs a = do {
     (ok, a1) \<leftarrow> element_size (length cdata) a;
     if \<not> ok then Some ((Inr (- 1), vs), a1)
     else (case read_elements rd vs (elements (ac_bytesize a1) cdata) of
         (None, vs1) \<Rightarrow> Some ((Inr 0, vs1), a1)
       | (Some e, vs1) \<Rightarrow> Some ((catching (- 1) (Inl e), vs1), a1))
   }"

section \<open>Fetching\<close>

definition get_ensemble :: "('k \<Rightarrow> db_exn + mem) \<Rightarrow> (mem \<Rightarrow> db_exn + 'd) \<Rightarrow> 'k \<Rightarrow> 'd list \<Rightarrow> allconf \<Rightarrow>
    (((db_exn + int) \<times> 'd list) \<times> allconf) option" where
  "get_ensemble wk rd key vs a = do {
     (r, a1) \<leftarrow> on_table (\<lambda>h. caught (- 1, []) (getData_string wk h key [])) a;
     (case r of
        Inl e \<Rightarrow> Some ((Inl e, vs), a1)
      | Inr (ret, cdata) \<Rightarrow> if ret \<noteq> 0 then Some ((Inr ret, vs), a1) else split_value rd cdata vs a1)
   }"

definition getFromStringKey :: "(mem \<Rightarrow> db_exn + 'd) \<Rightarrow> mem \<Rightarrow> 'd list \<Rightarrow> allconf \<Rightarrow> (((db_exn + int) \<times> 'd list) \<times> allconf) option" where
  "getFromStringKey rd key vs a = do {
     ((ret, cdata), a1) \<leftarrow> on_table (\<lambda>h. map_option (\<lambda>(ret, d, h1). ((ret, d), h1)) (getBinaryData h key [])) a;
     if ret \<noteq> 0 then Some ((Inr ret, vs), a1) else split_value rd cdata vs a1
   }"

definition getBinaryData_ensemble :: "mem \<Rightarrow> mem list \<Rightarrow> allconf \<Rightarrow> ((int \<times> mem list) \<times> allconf) option" where
  "getBinaryData_ensemble key vs a = do {
     ((ret, cdata), s) \<leftarrow> getBinary key [] (ac_db a);
     let a1 = a\<lparr>ac_db := s\<rparr>;
     if ret \<noteq> 0 then Some ((ret, vs), a1)
     else do {
       (ok, a2) \<leftarrow> element_size (length cdata) a1;
       Some (if ok then (0, vs @ elements (ac_bytesize a2) cdata) else (- 1, vs), a2)
     }
   }"

section \<open>Storing\<close>

text \<open>
  The bytes of an ensemble. Its length must be the number of configurations; the size of the
  first element becomes the size of the elements if there is none, and no element is compared
  with it.
\<close>

definition combine :: "('d \<Rightarrow> db_exn + mem) \<Rightarrow> 'd list \<Rightarrow> allconf \<Rightarrow> ((db_exn + mem) \<times> allconf) option" where
  "combine wd v a =
     (if length v \<noteq> unat (ac_nbin a) then None
      else if ac_bytesize a = 0 then
        (case v of
           [] \<Rightarrow> None
         | x # _ \<Rightarrow> (case wd x of
               Inl e \<Rightarrow> Some (Inl e, a)
             | Inr b \<Rightarrow> Some (write_elements wd v, a\<lparr>ac_bytesize := length b\<rparr>)))
      else Some (write_elements wd v, a))"

text \<open>The failure of an element is reported, that of the key ends the program.\<close>

definition insert_ensemble :: "('k \<Rightarrow> db_exn + mem) \<Rightarrow> ('d \<Rightarrow> db_exn + mem) \<Rightarrow> 'k \<Rightarrow> 'd list \<Rightarrow> allconf \<Rightarrow> ((db_exn + int) \<times> allconf) option" where
  "insert_ensemble wk wd key v a = do {
     (r, a1) \<leftarrow> combine wd v a;
     (case r of
        Inl e \<Rightarrow> Some (catching (- 1) (Inl e), a1)
      | Inr dstr \<Rightarrow> do {
          (ret, a2) \<leftarrow> on_table (\<lambda>h. insertData_key wk h key dstr 0) a1;
          (case ret of Inl (SerializeException _ _) \<Rightarrow> None | _ \<Rightarrow> Some (ret, a2))
        })
   }"

definition insertWithStringKey_ensemble :: "('d \<Rightarrow> db_exn + mem) \<Rightarrow> mem \<Rightarrow> 'd list \<Rightarrow> allconf \<Rightarrow> ((db_exn + int) \<times> allconf) option" where
  "insertWithStringKey_ensemble wd key v a = do {
     (r, a1) \<leftarrow> combine wd v a;
     (case r of
        Inl e \<Rightarrow> Some (catching (- 1) (Inl e), a1)
      | Inr dstr \<Rightarrow> do {
          (ret, a2) \<leftarrow> on_table (\<lambda>h. insertData h key dstr 0) a1;
          Some (Inr ret, a2)
        })
   }"

definition insertBinaryData_ensemble :: "mem \<Rightarrow> mem list \<Rightarrow> allconf \<Rightarrow> (int \<times> allconf) option" where
  "insertBinaryData_ensemble key v a =
     (if length v \<noteq> unat (ac_nbin a) then None
      else do {
        a1 \<leftarrow> (if ac_bytesize a \<noteq> 0 then Some a
               else (case v of [] \<Rightarrow> None | x # _ \<Rightarrow> Some (a\<lparr>ac_bytesize := length x\<rparr>)));
        (ret, s) \<leftarrow> insertBinary key (concat v) (ac_db a1);
        Some (ret, a1\<lparr>ac_db := s\<rparr>)
      })"

text \<open>
  Changing one element. In a store that was empty when it was opened a new ensemble is
  stored, with default objects for the other configurations.
\<close>

definition set_nth :: "'a list \<Rightarrow> u32 \<Rightarrow> 'a \<Rightarrow> 'a list option" where
  "set_nth xs i x = (if 0 \<le> sint i \<and> unat i < length xs then Some (xs[unat i := x]) else None)"

definition update_ensemble :: "('k \<Rightarrow> db_exn + mem) \<Rightarrow> ('d \<Rightarrow> db_exn + mem) \<Rightarrow> 'd \<Rightarrow> 'k \<Rightarrow> 'd \<Rightarrow> u32 \<Rightarrow> u32 \<Rightarrow> allconf \<Rightarrow>
    ((db_exn + int) \<times> allconf) option" where
  "update_ensemble wk wd dflt key v config index a =
     (if ac_empty a then
        (if sint (ac_nbin a) < 0 then None
         else do {
           thr \<leftarrow> set_nth (replicate (unat (ac_nbin a)) dflt) index v;
           insert_ensemble wk wd key thr a
         })
      else do {
        (r, a1) \<leftarrow> on_table (\<lambda>h. caught (- 1, []) (getData_string wk h key [])) a;
        (case r of
           Inl e \<Rightarrow> Some (Inl e, a1)
         | Inr (ret, cdata) \<Rightarrow>
             if ret \<noteq> 0 then Some (Inr (- 1), a1)
             else do {
               (ok, a2) \<leftarrow> element_size (length cdata) a1;
               if \<not> ok then Some (Inr (- 1), a2)
               else (case wd v of
                  Inl e \<Rightarrow> Some (catching (- 1) (Inl e), a2)
                | Inr tmp \<Rightarrow>
                    if length tmp \<noteq> ac_bytesize a2 then Some (Inr (- 1), a2)
                    else if sint index < 0 then None
                    else do {
                      cdata1 \<leftarrow> mem_write cdata (unat index * ac_bytesize a2) tmp;
                      on_table (\<lambda>h. caught (- 1) (insertData_key wk h key cdata1 0)) a2
                    })
             })
      })"

definition updateDone :: "allconf \<Rightarrow> allconf" where
  "updateDone a = a\<lparr>ac_empty := False\<rparr>"

section \<open>Reading everything\<close>

text \<open>Every value is split; a value of a wrong size or an element that cannot be read ends the program.\<close>

fun split_values :: "(mem \<Rightarrow> db_exn + 'd) \<Rightarrow> mem list \<Rightarrow> 'd list list \<Rightarrow> allconf \<Rightarrow> ((db_exn option \<times> 'd list list) \<times> allconf) option" where
  "split_values rd [] vss a = Some ((None, vss), a)"
| "split_values rd (b # bs) vss a = do {
     (ok, a1) \<leftarrow> element_size (length b) a;
     if \<not> ok then None
     else (case read_elements rd [] (elements (ac_bytesize a1) b) of
         (None, vs) \<Rightarrow> split_values rd bs (vss @ [vs]) a1
       | (Some (SerializeException _ _), _) \<Rightarrow> None
       | (Some e, _) \<Rightarrow> Some ((Some e, vss), a1))
   }"

text \<open>The keys are appended before the values are looked at.\<close>

definition stringKeysAndData_ensemble :: "(mem \<Rightarrow> db_exn + 'd) \<Rightarrow> mem list \<Rightarrow> 'd list list \<Rightarrow> allconf \<Rightarrow>
    ((db_exn option \<times> mem list \<times> 'd list list) \<times> allconf) option" where
  "stringKeysAndData_ensemble rd keys vss a = do {
     ((e, kds), s) \<leftarrow> binaryKeysAndData [] (ac_db a);
     let a1 = a\<lparr>ac_db := s\<rparr>;
     let keys1 = keys @ map fst kds;
     (case e of
        Some ex \<Rightarrow> Some ((Some ex, keys1, vss), a1)
      | None \<Rightarrow> do {
          ((e1, vss1), a2) \<leftarrow> split_values rd (map snd kds) vss a1;
          Some ((e1, keys1, vss1), a2)
        })
   }"

definition keysAndData_ensemble :: "(mem \<Rightarrow> db_exn + 'k) \<Rightarrow> (mem \<Rightarrow> db_exn + 'd) \<Rightarrow> 'k list \<Rightarrow> 'd list list \<Rightarrow> allconf \<Rightarrow>
    ((db_exn option \<times> 'k list \<times> 'd list list) \<times> allconf) option" where
  "keysAndData_ensemble rk rd keys vss a = do {
     ((e, binkeys, vss1), a1) \<leftarrow> stringKeysAndData_ensemble rd [] vss a;
     (case e of
        Some ex \<Rightarrow> Some ((Some ex, keys, vss1), a1)
      | None \<Rightarrow> (case read_elements rk keys binkeys of
            (Some (SerializeException _ _), _) \<Rightarrow> None
          | (e1, keys1) \<Rightarrow> Some ((e1, keys1, vss1), a1)))
   }"

definition ensemble_size :: "allconf \<Rightarrow> u32" where
  "ensemble_size a = ac_nbin a"

section \<open>Configurations of the store\<close>

text \<open>\<open>setConfigInfo\<close> leaves the type of the record as it is in fresh memory.\<close>

definition setConfigInfo :: "u32 \<Rightarrow> cfg \<Rightarrow> allconf \<Rightarrow> (int \<times> allconf) option" where
  "setConfigInfo fresh config a = on_table (\<lambda>h. ffdb_set_config h
     \<lparr>ci_config = cf_config config, ci_index = cf_index config, ci_inserted = cf_inserted config, ci_type = fresh,
       ci_mtime = cf_mtime config, ci_fname = strncpy_fname (cf_url config)\<rparr>) a"

definition cfg_of :: "config_info \<Rightarrow> cfg option" where
  "cfg_of c = map_option (\<lambda>url. \<lparr>cf_config = ci_config c, cf_index = ci_index c, cf_inserted = ci_inserted c, cf_type = ci_type c,
     cf_mtime = ci_mtime c, cf_url = url\<rparr>) (fname_str (ci_fname c))"

text \<open>The record that \<open>getConfigInfo\<close> passes is fresh memory, whose index \<open>ffdb_get_config\<close> looks at.\<close>

definition getConfigInfo :: "config_info \<Rightarrow> u32 \<Rightarrow> cfg \<Rightarrow> allconf \<Rightarrow> ((int \<times> cfg) \<times> allconf) option" where
  "getConfigInfo fresh confignum info a = do {
     ((stat, cf), a1) \<leftarrow> on_table (\<lambda>h. map_option (\<lambda>(st, c, h1). ((st, c), h1)) (ffdb_get_config h confignum fresh)) a;
     if stat = 0 then do {
       c \<leftarrow> cfg_of cf;
       Some ((stat, c\<lparr>cf_config := confignum\<rparr>), a1)
     } else Some ((stat, info), a1)
   }"

fun cfgs_of :: "config_info list \<Rightarrow> cfg list option" where
  "cfgs_of [] = Some []"
| "cfgs_of (c # cs) = do { x \<leftarrow> cfg_of c; xs \<leftarrow> cfgs_of cs; Some (x # xs) }"

definition getAllConfigInfo :: "cfg list \<Rightarrow> allconf \<Rightarrow> ((int \<times> cfg list) \<times> allconf) option" where
  "getAllConfigInfo configs a = do {
     h \<leftarrow> db_dbh (ac_db a);
     (stat, cs, h1) \<leftarrow> ffdb_get_all_configs h;
     let a1 = a\<lparr>ac_db := (ac_db a)\<lparr>db_dbh := Some h1\<rparr>\<rparr>;
     let num = ffdb_num_configs h;
     if stat \<noteq> 0 then Some ((stat, configs), a1)
     else if sint num < 0 then Some ((stat, configs), a1)
     else if length cs < unat num then None
     else do {
       xs \<leftarrow> cfgs_of (take (unat num) cs);
       Some ((stat, configs @ xs), a1)
     }
   }"

section \<open>What goes in comes out\<close>

lemma elements_concat:
  assumes "0 < n" "\<forall>b\<in>set vs. length b = n"
  shows "elements n (concat vs) = vs"
  using assms(2)
proof (induction vs)
  case (Cons b vs)
  have "b \<noteq> []" using Cons.prems assms(1) by auto
  then have "elements n (b @ concat vs) = take n (b @ concat vs) # elements n (drop n (b @ concat vs))"
    using assms(1) by (subst elements.simps) simp
  then show ?case using Cons by simp
qed (simp add: elements.simps)

lemma length_concat_same: "\<forall>b\<in>set vs. length b = n \<Longrightarrow> length (concat vs) = length vs * n"
  by (induction vs) simp_all

lemma nbin_sint:
  fixes w :: u32
  assumes "0 < sint w"
  shows "sint w = int (unat w)"
proof -
  have "sint w < 2 ^ 31" using sint_lt [of w] by simp
  then have "uint w = sint w" using assms unfolding uint_sint [of w] by (simp add: take_bit_int_eq_self)
  then show ?thesis by simp
qed

lemma nbin_size_pos:
  assumes "0 < sint (ac_nbin a)"
  shows "nbin_size a = unat (ac_nbin a)" "0 < unat (ac_nbin a)"
proof -
  have u: "sint (ac_nbin a) = int (unat (ac_nbin a))" by (rule nbin_sint [OF assms])
  then show "0 < unat (ac_nbin a)" using assms by linarith
  have "(scast (ac_nbin a) :: u64) = of_int (sint (ac_nbin a))" by simp
  also have "\<dots> = of_nat (unat (ac_nbin a))" by (simp only: u of_int_of_nat_eq)
  finally show "nbin_size a = unat (ac_nbin a)"
    using unsigned_less [of "ac_nbin a", where ?'a = nat]
    by (simp only: nbin_size_def unsigned_of_nat) (simp add: take_bit_nat_eq_self)
qed

text \<open>The first value fixes the size, whatever the other elements are.\<close>

lemma insertBinaryData_ensemble_holds:
  assumes s: "store_holds (ac_db a) f" and k: "length key < 2 ^ 31" "f key = None" and fit: "fits (ac_db a) key (concat v)"
    and v: "length v = unat (ac_nbin a)" "v \<noteq> []"
  shows "\<exists>s1. insertBinaryData_ensemble key v a = Some (0, a\<lparr>ac_db := s1, ac_bytesize := if ac_bytesize a = 0 then length (v ! 0) else ac_bytesize a\<rparr>) \<and>
    store_holds s1 (f(key \<mapsto> concat v))"
proof -
  obtain s1 where s1: "insertBinary key (concat v) (ac_db a) = Some (0, s1)" "store_holds s1 (f(key \<mapsto> concat v))"
    using insertBinary_holds [OF s k fit] by blast
  have "(a\<lparr>ac_bytesize := m\<rparr>)\<lparr>ac_db := s1\<rparr> = a\<lparr>ac_db := s1, ac_bytesize := m\<rparr>" for m by simp
  moreover have "a = a\<lparr>ac_bytesize := ac_bytesize a\<rparr>" by simp
  ultimately have "insertBinaryData_ensemble key v a = Some (0, a\<lparr>ac_db := s1, ac_bytesize := if ac_bytesize a = 0 then length (v ! 0) else ac_bytesize a\<rparr>)"
    using s1(1) v by (cases v) (auto simp: insertBinaryData_ensemble_def)
  then show ?thesis using s1(2) by blast
qed

lemma getBinaryData_ensemble_holds:
  assumes s: "store_holds (ac_db a) f" and k: "length key < 2 ^ 31" "f key = Some b"
  shows "\<exists>s1. store_holds s1 f \<and> getBinaryData_ensemble key vs a = do {
     (ok, a2) \<leftarrow> element_size (length b) (a\<lparr>ac_db := s1\<rparr>);
     Some (if ok then (0, vs @ elements (ac_bytesize a2) b) else (- 1, vs), a2) }"
proof -
  obtain s1 where "getBinary key [] (ac_db a) = Some ((0, b), s1)" "store_holds s1 f"
    using getBinary_holds [OF s k(1), of "[]"] k(2) by auto
  then show ?thesis by (auto simp: getBinaryData_ensemble_def Let_def cong: if_cong)
qed

text \<open>C36: Ensembles. In an open store of \<open>n\<close> configurations that holds \<open>f\<close>, storing one element
  for each configuration, all of one size (that of the values seen before, if there were any),
  under a new key succeeds, the store then holds their concatenation, and
  \<open>getBinaryData\<close> appends exactly these elements, in the order of the configurations.\<close>
theorem ensemble_roundtrip:
  assumes "store_holds (ac_db a) f" "length key < 2 ^ 31" "f key = None" "fits (ac_db a) key (concat v)"
    "0 < sint (ac_nbin a)" "length v = unat (ac_nbin a)" "0 < n" "\<forall>b\<in>set v. length b = n" "ac_bytesize a \<in> {0, n}"
  shows "\<exists>a1. insertBinaryData_ensemble key v a = Some (0, a1) \<and> store_holds (ac_db a1) (f(key \<mapsto> concat v)) \<and> ac_bytesize a1 = n \<and>
    (\<exists>a2. getBinaryData_ensemble key vs a1 = Some ((0, vs @ v), a2) \<and> store_holds (ac_db a2) (f(key \<mapsto> concat v)))"
proof -
  note nb = nbin_size_pos [OF assms(5)]
  have v: "v \<noteq> []" using assms(6) nb(2) by auto
  then have n: "(if ac_bytesize a = 0 then length (v ! 0) else ac_bytesize a) = n"
    using assms(8,9) nth_mem [of 0 v] by auto
  obtain s1 where s1: "insertBinaryData_ensemble key v a = Some (0, a\<lparr>ac_db := s1, ac_bytesize := n\<rparr>)" "store_holds s1 (f(key \<mapsto> concat v))"
    using insertBinaryData_ensemble_holds [OF assms(1-4,6) v] unfolding n by blast
  let ?a = "a\<lparr>ac_db := s1, ac_bytesize := n\<rparr>"
  have "nbin_size (?a\<lparr>ac_db := s2\<rparr>) = unat (ac_nbin a)" for s2 using nb by (simp add: nbin_size_def)
  then have e: "element_size (length (concat v)) (?a\<lparr>ac_db := s2\<rparr>) = Some (True, ?a\<lparr>ac_db := s2\<rparr>)" for s2
    using nb(2) assms(6,7) length_concat_same [OF assms(8)] by (simp add: element_size_def)
  obtain s2 where s2: "store_holds s2 (f(key \<mapsto> concat v))" "getBinaryData_ensemble key vs ?a = Some ((0, vs @ v), ?a\<lparr>ac_db := s2\<rparr>)"
    using getBinaryData_ensemble_holds [of ?a "f(key \<mapsto> concat v)" key "concat v" vs] s1(2) assms(2) e elements_concat [OF assms(7,8)] by auto
  then show ?thesis using s1 by auto
qed

text \<open>The elements a value is split into.\<close>

lemma elements_not_empty: "[] \<notin> set (elements n xs)"
proof (induction n xs rule: elements.induct)
  case (1 n xs)
  then show ?case by (cases "n = 0 \<or> xs = []") (auto simp: elements.simps [of n xs])
qed

lemma elements_length: "n dvd length xs \<Longrightarrow> b \<in> set (elements n xs) \<Longrightarrow> length b = n"
proof (induction n xs rule: elements.induct)
  case (1 n xs)
  show ?case
  proof (cases "n = 0 \<or> xs = []")
    case False
    then have "n \<le> length xs" using 1(2) by (auto dest: dvd_imp_le)
    moreover have "n dvd length (drop n xs)" using 1(2) calculation by (simp add: dvd_diff_nat)
    ultimately show ?thesis using 1(1) [OF False] 1(3) False by (auto simp: elements.simps [of n xs])
  qed (use 1(3) in \<open>simp add: elements.simps\<close>)
qed

text \<open>C40: Elements of different sizes. \<open>insertBinaryData\<close> reports success for a new key whatever
  the sizes of the elements are. \<open>getBinaryData\<close> on the same object afterwards compares only the
  total with the size of one element (the size seen first, on a fresh object that of the first
  element): it gives an error if the total is not that of \<open>n\<close> such elements, and it returns
  the elements that were stored exactly if every one of them has that size. So it can also
  report success with other elements.\<close>
theorem uneven_ensemble_lost:
  assumes "store_holds (ac_db a) f" "length key < 2 ^ 31" "f key = None" "fits (ac_db a) key (concat v)"
    "0 < sint (ac_nbin a)" "length v = unat (ac_nbin a)"
    "sz = (if ac_bytesize a = 0 then length (v ! 0) else ac_bytesize a)"
  shows "\<exists>a1 a2 st r. insertBinaryData_ensemble key v a = Some (0, a1) \<and> store_holds (ac_db a1) (f(key \<mapsto> concat v)) \<and>
    getBinaryData_ensemble key vs a1 = Some ((st, r), a2) \<and>
    st = (if length (concat v) mod length v = 0 \<and> (sz = 0 \<or> length (concat v) = length v * sz) then 0 else - 1) \<and>
    (st = 0 \<and> r = vs @ v \<longleftrightarrow> sz \<noteq> 0 \<and> (\<forall>b\<in>set v. length b = sz))"
proof -
  note nb = nbin_size_pos [OF assms(5)]
  have v: "v \<noteq> []" using assms(6) nb(2) by auto
  then have first: "v ! 0 \<in> set v" by simp
  obtain s1 where s1: "insertBinaryData_ensemble key v a = Some (0, a\<lparr>ac_db := s1, ac_bytesize := sz\<rparr>)" "store_holds s1 (f(key \<mapsto> concat v))"
    using insertBinaryData_ensemble_holds [OF assms(1-4,6) v] assms(7) by auto
  let ?a = "a\<lparr>ac_db := s1, ac_bytesize := sz\<rparr>" and ?t = "length (concat v)"
  define ok where "ok \<longleftrightarrow> ?t mod length v = 0 \<and> (sz = 0 \<or> ?t = length v * sz)"
  define es where "es = elements (if sz = 0 then ?t div length v else sz) (concat v)"
  have n: "nbin_size (?a\<lparr>ac_db := s2\<rparr>) = length v" for s2 using nb assms(6) by (simp add: nbin_size_def)
  have e: "\<exists>a2. element_size ?t (?a\<lparr>ac_db := s2\<rparr>) = Some (ok, a2) \<and> (ok \<longrightarrow> ac_bytesize a2 = (if sz = 0 then ?t div length v else sz))" for s2
    using v n [of s2] by (auto simp: element_size_def ok_def Let_def)
  obtain s2 where s2: "getBinaryData_ensemble key vs ?a = do {
     (ok, a2) \<leftarrow> element_size ?t (?a\<lparr>ac_db := s2\<rparr>);
     Some (if ok then (0, vs @ elements (ac_bytesize a2) (concat v)) else (- 1, vs), a2) }"
    using getBinaryData_ensemble_holds [of ?a "f(key \<mapsto> concat v)" key "concat v" vs] s1(2) assms(2) by auto
  obtain a2 where g: "getBinaryData_ensemble key vs ?a = Some (if ok then (0, vs @ es) else (- 1, vs), a2)"
    using s2 e [of s2] by (auto simp: es_def)
  have "ok \<and> es = v \<longleftrightarrow> sz \<noteq> 0 \<and> (\<forall>b\<in>set v. length b = sz)"
  proof (intro iffI conjI)
    assume l: "ok \<and> es = v"
    have "v ! 0 \<noteq> []" using l first elements_not_empty unfolding es_def by metis
    then show z: "sz \<noteq> 0" using assms(7) by (auto split: if_splits)
    then have "?t = length v * sz" using l by (simp add: ok_def)
    then show "\<forall>b\<in>set v. length b = sz" using l z elements_length [of sz "concat v"] by (auto simp: es_def)
  next
    assume r: "sz \<noteq> 0 \<and> (\<forall>b\<in>set v. length b = sz)"
    then show "ok" using length_concat_same [of v sz] v by (simp add: ok_def)
    show "es = v" using r elements_concat [of sz v] by (simp add: es_def)
  qed
  then show ?thesis using s1 g by (cases ok) (auto simp: ok_def [symmetric])
qed

text \<open>A store of two configurations.\<close>

definition wit_allconf :: allconf where
  "wit_allconf = new_allconf\<lparr>ac_nbin := 2, ac_db := wit_store\<rparr>"

lemma wit_allconf_fields: "ac_db wit_allconf = wit_store" "ac_nbin wit_allconf = 2" "ac_bytesize wit_allconf = 0"
  by (simp_all add: wit_allconf_def new_allconf_def)

theorem ensemble_roundtrip_witness:
  "\<exists>a1 a2. insertBinaryData_ensemble [7] [[1, 2], [3, 4]] wit_allconf = Some (0, a1) \<and> getBinaryData_ensemble [7] [] a1 = Some ((0, [[1, 2], [3, 4]]), a2)"
  using ensemble_roundtrip [of wit_allconf Map.empty "[7]" "[[1, 2], [3, 4]]" 2 "[]"] wit_store_holds
    wit_store_fits [of "[7]" "[1, 2, 3, 4]"] by (auto simp: wit_allconf_fields)

theorem uneven_ensemble_lost_witness:
  "(\<exists>a1 a2 r. insertBinaryData_ensemble [7] [[1], [2, 3, 4]] wit_allconf = Some (0, a1) \<and> getBinaryData_ensemble [7] [] a1 = Some ((- 1, r), a2)) \<and>
   (\<exists>a1 a2 r. insertBinaryData_ensemble [7] [[1], [2, 3, 4]] (wit_allconf\<lparr>ac_bytesize := 2\<rparr>) = Some (0, a1) \<and>
      getBinaryData_ensemble [7] [] a1 = Some ((0, r), a2) \<and> r \<noteq> [[1], [2, 3, 4]])"
proof -
  have m: "Suc (Suc (Suc (Suc 0))) mod Suc (Suc 0) = 0" by (simp add: mod_Suc)
  show ?thesis
    using uneven_ensemble_lost [of wit_allconf Map.empty "[7]" "[[1], [2, 3, 4]]" 1 "[]"]
      uneven_ensemble_lost [of "wit_allconf\<lparr>ac_bytesize := 2\<rparr>" Map.empty "[7]" "[[1], [2, 3, 4]]" 2 "[]"] wit_store_holds
      wit_store_fits [of "[7]" "[1, 2, 3, 4]"] by (auto simp: wit_allconf_fields m)
qed

end
