(* ===== verification/FDB_Merger.thy ===== *)
theory FDB_Merger
  imports FDB_AllConf
begin

text \<open>
  Merging the databases of the configurations into one (\<open>src/ConfDataDBMerger.h\<close>). The keys
  are worked through in chunks: a hash map in memory, the bag, collects for each key of the
  chunk the values of all configurations and is then written to the common store. The order
  in which the bag is written, that of an \<open>unordered_map\<close>, is a parameter. As before, \<open>None\<close>
  is a call that exits, divides by zero or leaves an array.
\<close>

section \<open>The merger\<close>

record merger =
  mg_dbh :: "allconf option"
  mg_configs :: "cfg list"
  mg_max_memory :: u32

type_synonym bag = "mem \<Rightarrow> mem list option"

definition new_merger :: "cfg list \<Rightarrow> u32 \<Rightarrow> merger" where
  "new_merger configs max_memory = \<lparr>mg_dbh = None, mg_configs = configs, mg_max_memory = max_memory\<rparr>"

text \<open>One \<open>ConfigInfo\<close> serves all configurations; its name changes only for an available database.\<close>

fun named_configs :: "cfg \<Rightarrow> u32 \<Rightarrow> (u32 \<times> mem) list \<Rightarrow> cfg list" where
  "named_configs info i [] = []"
| "named_configs info i ((num, name) # r) = (
     let info1 = info\<lparr>cf_config := num, cf_index := i, cf_type := 0\<rparr>;
         info2 = (if name \<noteq> NOT_AVAILABLE then info1\<lparr>cf_url := name\<rparr> else info1)
     in info2 # named_configs info2 (i + 1) r)"

definition merger_named :: "u32 list \<Rightarrow> mem list \<Rightarrow> u32 \<Rightarrow> merger option" where
  "merger_named config_numbers dbase_names max_memory =
     (if length dbase_names = length config_numbers
      then Some (new_merger (named_configs new_ConfigInfo 0 (zip config_numbers dbase_names)) max_memory)
      else None)"

definition setDatabaseHandle :: "allconf \<Rightarrow> merger \<Rightarrow> merger" where
  "setDatabaseHandle dbh m = m\<lparr>mg_dbh := Some dbh\<rparr>"

section \<open>Chunks\<close>

text \<open>Arithmetic on \<open>int\<close>, which must not overflow.\<close>

definition int_result :: "int \<Rightarrow> u32 option" where
  "int_result i = (if - (2 ^ 31) \<le> i \<and> i < 2 ^ 31 then Some (of_int i) else None)"

definition imul :: "u32 \<Rightarrow> u32 \<Rightarrow> u32 option" where
  "imul x y = int_result (sint x * sint y)"

text \<open>The first element of a chunk and the one after the last.\<close>

definition chunk_range :: "u32 \<Rightarrow> u32 \<Rightarrow> nat \<Rightarrow> (nat \<times> nat) option" where
  "chunk_range chunksize chunkloop nkeys = do {
     ielem \<leftarrow> imul chunkloop chunksize;
     next_loop \<leftarrow> int_result (sint chunkloop + 1);
     felem \<leftarrow> imul next_loop chunksize;
     Some (unat ielem, unat (if unat felem > nkeys then of_nat nkeys else felem))
   }"

definition iterateSize :: "mem \<Rightarrow> mem \<Rightarrow> u32 \<Rightarrow> u32 \<Rightarrow> u32 \<Rightarrow> (u32 \<times> u32) option" where
  "iterateSize key data numelems numconfs max_memory = (
     let pair = (of_nat (length key + length data) :: u64);
         asize = (ucast (pair * scast numconfs) :: u32)
     in if asize = 0 then None
        else let chunk = (if max_memory div asize > numelems then numelems else max_memory div asize)
             in Some (chunk, ucast (scast chunk * pair)))"

definition num_loops :: "nat \<Rightarrow> u32 \<Rightarrow> u32 option" where
  "num_loops nkeys chunk = (let c = unat (scast chunk :: u64)
     in if c = 0 then None
        else Some (of_nat (if nkeys = nkeys div c * c then nkeys div c else nkeys div c + 1)))"

section \<open>The bag\<close>

definition bag_set :: "bag \<Rightarrow> mem \<Rightarrow> u32 \<Rightarrow> mem \<Rightarrow> bag option" where
  "bag_set bg key i val = do {
     v \<leftarrow> bg key;
     v1 \<leftarrow> set_nth v i val;
     Some (bg(key \<mapsto> v1))
   }"

fun init_elems :: "cfg \<Rightarrow> nat \<Rightarrow> (mem \<times> mem) list \<Rightarrow> bag \<Rightarrow> bag option" where
  "init_elems info numconfigs [] bg = Some bg"
| "init_elems info numconfigs ((key, val) # r) bg = do {
     bg1 \<leftarrow> bag_set (if bg key \<noteq> None then bg else bg(key \<mapsto> replicate numconfigs [])) key (cf_index info) val;
     init_elems info numconfigs r bg1
   }"

text \<open>The keys and the data of the first database have the same length.\<close>

definition initBag :: "cfg \<Rightarrow> (mem \<times> mem) list \<Rightarrow> u32 \<Rightarrow> u32 \<Rightarrow> u32 \<Rightarrow> bag \<Rightarrow> bag option" where
  "initBag info kds chunksize chunkloop numconfigs bg = do {
     (ielem, felem) \<leftarrow> chunk_range chunksize chunkloop (length kds);
     if sint numconfigs < 0 then None
     else init_elems info (unat numconfigs) (drop ielem (take felem kds)) bg
   }"

fun fill_elems :: "cfg \<Rightarrow> mem list \<Rightarrow> store \<Rightarrow> bag \<Rightarrow> (store \<times> bag) option" where
  "fill_elems info [] sdb bg = Some (sdb, bg)"
| "fill_elems info (key # r) sdb bg = do {
     ((ret, tdata), sdb1) \<leftarrow> getBinary key [] sdb;
     if ret \<noteq> 0 then None
     else do {
       bg1 \<leftarrow> bag_set bg key (cf_index info) tdata;
       fill_elems info r sdb1 bg1
     }
   }"

text \<open>A configuration without a name is skipped.\<close>

definition populateBag :: "opsys \<Rightarrow> key_class \<Rightarrow> cfg \<Rightarrow> mem list \<Rightarrow> u32 \<Rightarrow> u32 \<Rightarrow> u32 \<Rightarrow> bag \<Rightarrow> bag option" where
  "populateBag sys K info keys chunksize chunkloop dbasecachesize bg =
     (if cf_url info = [] then Some bg
      else do {
        (r, sdb) \<leftarrow> DB_open sys K (cf_url info) O_RDONLY 256 (setCacheSize dbasecachesize new_store);
        if r \<noteq> 0 then None
        else do {
          (ielem, felem) \<leftarrow> chunk_range chunksize chunkloop (length keys);
          (sdb1, bg1) \<leftarrow> fill_elems info (drop ielem (take felem keys)) sdb bg;
          _ \<leftarrow> DB_close sdb1;
          Some bg1
        }
      })"

fun insert_keys :: "mem list \<Rightarrow> bag \<Rightarrow> allconf \<Rightarrow> allconf option" where
  "insert_keys [] bg dbh = Some dbh"
| "insert_keys (key # r) bg dbh = do {
     v \<leftarrow> bg key;
     (_, dbh1) \<leftarrow> insertBinaryData_ensemble key v dbh;
     insert_keys r bg dbh1
   }"

definition insertBag :: "(bag \<Rightarrow> mem list) \<Rightarrow> bag \<Rightarrow> merger \<Rightarrow> merger option" where
  "insertBag order bg m = do {
     dbh \<leftarrow> mg_dbh m;
     dbh1 \<leftarrow> insert_keys (order bg) bg dbh;
     Some (m\<lparr>mg_dbh := Some dbh1\<rparr>)
   }"

section \<open>Merging\<close>

text \<open>The time comes from the clock of the system; the type of the record is fresh memory.\<close>

fun update_configs :: "(nat \<Rightarrow> u32) \<Rightarrow> u32 \<Rightarrow> cfg list \<Rightarrow> allconf \<Rightarrow> allconf option" where
  "update_configs clock fresh [] dbh = Some dbh"
| "update_configs clock fresh (c # cs) dbh =
     (if cf_url c \<noteq> [] then do {
        (_, dbh1) \<leftarrow> setConfigInfo fresh (c\<lparr>cf_inserted := 1, cf_mtime := clock (length cs)\<rparr>) dbh;
        update_configs clock fresh cs dbh1
      } else update_configs clock fresh cs dbh)"

definition updateConfigInfo :: "(nat \<Rightarrow> u32) \<Rightarrow> u32 \<Rightarrow> merger \<Rightarrow> merger option" where
  "updateConfigInfo clock fresh m = (if \<forall>c\<in>set (mg_configs m). cf_url c = [] then Some m
     else do {
       dbh \<leftarrow> mg_dbh m;
       dbh1 \<leftarrow> update_configs clock fresh (mg_configs m) dbh;
       Some (m\<lparr>mg_dbh := Some dbh1\<rparr>)
     })"

text \<open>The other configurations of a chunk, in order; \<open>c\<close> counts them and \<open>i\<close> is the first one with a name.\<close>

fun populate_all :: "opsys \<Rightarrow> key_class \<Rightarrow> nat \<Rightarrow> nat \<Rightarrow> cfg list \<Rightarrow> mem list \<Rightarrow> u32 \<Rightarrow> u32 \<Rightarrow> u32 \<Rightarrow> bag \<Rightarrow> bag option" where
  "populate_all sys K i c [] keys chunk loop cachesize bg = Some bg"
| "populate_all sys K i c (info # r) keys chunk loop cachesize bg = do {
     bg1 \<leftarrow> (if c \<noteq> i then populateBag sys K info keys chunk loop cachesize bg else Some bg);
     populate_all sys K i (Suc c) r keys chunk loop cachesize bg1
   }"

fun merge_loop :: "opsys \<Rightarrow> key_class \<Rightarrow> (bag \<Rightarrow> mem list) \<Rightarrow> nat \<Rightarrow> (mem \<times> mem) list \<Rightarrow> u32 \<Rightarrow> u32 \<Rightarrow> u32 \<Rightarrow> nat \<Rightarrow> merger \<Rightarrow> merger option" where
  "merge_loop sys K order i kds chunk dcachesize loop 0 m = Some m"
| "merge_loop sys K order i kds chunk dcachesize loop (Suc n) m = do {
     bg \<leftarrow> initBag (mg_configs m ! i) kds chunk loop (of_nat (length (mg_configs m))) Map.empty;
     bg1 \<leftarrow> populate_all sys K i 0 (mg_configs m) (map fst kds) chunk loop (4 * dcachesize) bg;
     m1 \<leftarrow> insertBag order bg1 m;
     merge_loop sys K order i kds chunk dcachesize (loop + 1) n m1
   }"

text \<open>An exception of the reading of the first database leaves it open.\<close>

definition merge :: "opsys \<Rightarrow> key_class \<Rightarrow> (bag \<Rightarrow> mem list) \<Rightarrow> (nat \<Rightarrow> u32) \<Rightarrow> u32 \<Rightarrow> merger \<Rightarrow> ((db_exn + unit) \<times> merger) option" where
  "merge sys K order clock fresh m = (
     let i = length (takeWhile (\<lambda>c. cf_url c = []) (mg_configs m))
     in if i \<ge> length (mg_configs m) then None
        else do {
          (r, fsconfdb) \<leftarrow> DB_open sys K (cf_url (mg_configs m ! i)) O_RDONLY 256 new_store;
          if r \<noteq> 0 then None
          else do {
            ((e, kds), fsconfdb1) \<leftarrow> binaryKeysAndData [] fsconfdb;
            (case e of
               Some ex \<Rightarrow> Some (Inl ex, m)
             | None \<Rightarrow>
                 (case kds of
                    [] \<Rightarrow> None
                  | (key0, data0) # _ \<Rightarrow> do {
                      (chunk, dcachesize) \<leftarrow> iterateSize key0 data0 (of_nat (length kds)) (of_nat (length (mg_configs m))) (mg_max_memory m);
                      numloops \<leftarrow> num_loops (length kds) chunk;
                      m1 \<leftarrow> merge_loop sys K order i kds chunk dcachesize 0 (unat numloops) m;
                      m2 \<leftarrow> updateConfigInfo clock fresh m1;
                      _ \<leftarrow> DB_close fsconfdb1;
                      Some (Inr (), m2)
                    }))
          }
        })"

section \<open>The chunks cover the keys\<close>

lemma u32_small: "n < 2 ^ 31 \<Longrightarrow> unat (of_nat n :: u32) = n" "n < 2 ^ 31 \<Longrightarrow> sint (of_nat n :: u32) = int n"
  "n < 2 ^ 31 \<Longrightarrow> unat (scast (of_nat n :: u32) :: u64) = n"
proof -
  assume n: "n < 2 ^ 31"
  then show u: "unat (of_nat n :: u32) = n" by (simp add: unsigned_of_nat take_bit_nat_eq_self)
  show s: "sint (of_nat n :: u32) = int n"
    using sint_word_of_int_small [of "int n"] n by simp
  have "(scast (of_nat n :: u32) :: u64) = of_int (sint (of_nat n :: u32))" by (simp only: of_int_sint)
  then have "(scast (of_nat n :: u32) :: u64) = of_nat n" by (simp only: s of_int_of_nat_eq)
  then show "unat (scast (of_nat n :: u32) :: u64) = n" using n by (simp add: unsigned_of_nat take_bit_nat_eq_self)
qed

lemma chunk_range_small:
  assumes "Suc l * c < 2 ^ 31" "n < 2 ^ 31" "0 < c"
  shows "chunk_range (of_nat c) (of_nat l) n = Some (l * c, min (Suc l * c) n)"
proof -
  have "Suc l * 1 \<le> Suc l * c" using assms(3) by (intro mult_le_mono) simp_all
  then have l: "l < 2 ^ 31" "Suc l < 2 ^ 31" "c < 2 ^ 31" "l * c < 2 ^ 31" using assms(1) by simp_all
  have r: "int_result (int m) = Some (of_nat m)" if "m < 2 ^ 31" for m
    using that by (simp add: int_result_def)
  have r1: "int_result (int l + 1) = Some (of_nat (Suc l))" using r [OF l(2)] by (simp only: of_nat_Suc add.commute)
  have r2: "int_result (int l * int c) = Some (of_nat (l * c))" using r [OF l(4)] by (simp only: of_nat_mult)
  have r3: "int_result (int (Suc l) * int c) = Some (of_nat (Suc l * c))" using r [OF assms(1)] by (simp only: of_nat_mult)
  have s: "sint (of_nat l :: u32) = int l" "sint (of_nat c :: u32) = int c" "sint (of_nat (Suc l) :: u32) = int (Suc l)"
    using l u32_small(2) by blast+
  have u: "unat (of_nat (l * c) :: u32) = l * c" "unat (of_nat (Suc l * c) :: u32) = Suc l * c" "unat (of_nat n :: u32) = n"
    using l assms(1,2) u32_small(1) by blast+
  show ?thesis
    unfolding chunk_range_def imul_def s r2 r1 bind.bind_lunit r3 u by (simp only: u if_distrib [of unat] min_def) auto
qed

lemma chunks_concat: "concat (map (\<lambda>l. [l * c..<min (Suc l * c) n]) [0..<k]) = [0..<min (k * c) n]"
proof (induction k)
  case (Suc k)
  show ?case
  proof (cases "k * c \<le> n")
    case True
    then have "[0..<min (Suc k * c) n] = [0..<k * c] @ [k * c..<min (Suc k * c) n]"
      using upt_add_eq_append [of 0 "k * c" "min (Suc k * c) n - k * c"] by (simp add: min_def)
    then show ?thesis using Suc True by (simp add: min_def)
  next
    case False
    then show ?thesis using Suc by (simp add: min_def)
  qed
qed simp

text \<open>The size of an ensemble, where it is below \<open>2^32\<close>; above, \<open>asize\<close> is the size modulo \<open>2^32\<close>.\<close>

lemma asize_exact:
  fixes numconfs :: u32
  assumes "0 < sint numconfs" "len * unat numconfs < 2 ^ 32"
  shows "unat (ucast ((of_nat len :: u64) * scast numconfs) :: u32) = len * unat numconfs"
proof -
  have "(scast numconfs :: u64) = of_int (sint numconfs)" by (simp only: of_int_sint)
  then have "(scast numconfs :: u64) = of_nat (unat numconfs)" by (simp only: nbin_sint [OF assms(1)] of_int_of_nat_eq)
  then have e: "(of_nat len :: u64) * scast numconfs = of_nat (len * unat numconfs)" by (simp only: of_nat_mult)
  have "unat (of_nat (len * unat numconfs) :: u64) = len * unat numconfs"
    using assms(2) by (simp only: unsigned_of_nat) (simp add: take_bit_nat_eq_self)
  then show ?thesis unfolding e using assms(2) by (simp only: unsigned_ucast_eq) (simp add: take_bit_nat_eq_self)
qed

lemma asize_wraps:
  assumes "length key + length data = 2 ^ 31"
  shows "iterateSize key data 1 3 (2 ^ 31) = Some (1, 2 ^ 31)"
  using assms by (simp add: iterateSize_def)

text \<open>C38: The chunks of a merge. For fewer than \<open>2^30\<close> keys and a chunk size that is not 0 the
  loops visit every key of the first database exactly once and in order, and every chunk has a
  key. If the ensemble of one key, as large as that of the first pair, has fewer than
  \<open>2^32\<close> bytes, the ensembles of a chunk stay within the memory the merger may use (as far as
  the sizes of the first pair are those of all), and the chunk size is 0 exactly if not even
  one ensemble fits. With the chunk size 0 the program divides by 0. Larger ensembles have
  their size computed modulo \<open>2^32\<close> (\<open>asize_wraps\<close>), and nothing is said about their memory.\<close>
theorem merge_chunks_cover:
  assumes "iterateSize key data (of_nat n) numconfs max_memory = Some (chunk, cachesize)" "0 < n" "n < 2 ^ 30"
    "ens = (length key + length data) * unat numconfs"
  shows "(0 < sint numconfs \<and> ens < 2 ^ 32 \<longrightarrow>
      (chunk = 0 \<longleftrightarrow> unat max_memory < ens) \<and> unat chunk * ens \<le> unat max_memory) \<and>
    (chunk = 0 \<longrightarrow> num_loops n chunk = None) \<and>
    (chunk \<noteq> 0 \<longrightarrow> (\<exists>L r. num_loops n chunk = Some L \<and>
       (\<forall>l < unat L. chunk_range chunk (of_nat l) n = Some (r l) \<and> fst (r l) < snd (r l)) \<and>
       concat (map (\<lambda>l. [fst (r l)..<snd (r l)]) [0..<unat L]) = [0..<n]))"
proof -
  define asize where "asize = (ucast ((of_nat (length key + length data) :: u64) * scast numconfs) :: u32)"
  have ex: "unat asize = ens" if "0 < sint numconfs \<and> ens < 2 ^ 32"
    using asize_exact [of numconfs "length key + length data"] that unfolding asize_def assms(4) by simp
  have n: "unat (of_nat n :: u32) = n" using assms(3) by (simp add: u32_small)
  have a: "asize \<noteq> 0" and ch: "chunk = (if max_memory div asize > of_nat n then of_nat n else max_memory div asize)"
    using assms(1) unfolding iterateSize_def Let_def asize_def by (auto split: if_splits)
  have a0: "0 < unat asize" using a by (simp add: unat_gt_0)
  have d: "unat (max_memory div asize) = unat max_memory div unat asize" by (simp add: unat_div)
  have c: "unat chunk = min (unat max_memory div unat asize) n"
    unfolding ch using n d by (auto simp: word_less_nat_alt min_def)
  have z: "chunk = 0 \<longleftrightarrow> unat chunk = 0" by (simp add: unat_eq_0)
  have "unat chunk * unat asize \<le> unat max_memory div unat asize * unat asize" unfolding c by (intro mult_le_mono1) simp
  then have m: "unat chunk * unat asize \<le> unat max_memory" using div_times_less_eq_dividend le_trans by blast
  define k where "k = unat chunk"
  have "k \<le> n" using c unfolding k_def by simp
  moreover have "chunk = of_nat k" unfolding k_def by simp
  ultimately have k: "chunk = of_nat k" "k \<le> n" by simp_all
  have ks: "unat (scast chunk :: u64) = k" using k assms(3) by (simp add: u32_small)
  have loops: "\<exists>L r. num_loops n chunk = Some L \<and>
       (\<forall>l < unat L. chunk_range chunk (of_nat l) n = Some (r l) \<and> fst (r l) < snd (r l)) \<and>
       concat (map (\<lambda>l. [fst (r l)..<snd (r l)]) [0..<unat L]) = [0..<n]" if "0 < k"
  proof -
    define L where "L = (if n = n div k * k then n div k else n div k + 1)"
    define q where "q = n div k"
    have nk: "q \<le> n" "n = q * k + n mod k" "n mod k < k" using that unfolding q_def by simp_all
    have L: "n \<le> L * k \<and> L * k < n + k \<and> L \<le> n + 1"
    proof (cases "n = q * k")
      case True
      then have "L = q" unfolding L_def q_def by simp
      moreover from this have "L \<le> n + 1" using nk(1) by linarith
      ultimately show ?thesis using True that by simp
    next
      case False
      then have L: "L = q + 1" unfolding L_def q_def by simp
      then have e: "L * k = q * k + k" by simp
      have "n \<le> y \<and> y < n + k" if "n = x + m" "m < k" "n \<noteq> x" "y = x + k" for x m y using that by linarith
      from this [OF nk(2,3) False e] show ?thesis using L nk(1) by simp
    qed
    have "unat (of_nat L :: u32) = L" using L assms(3) by (simp add: u32_small)
    moreover have "num_loops n chunk = Some (of_nat L)" using that by (simp add: num_loops_def ks L_def Let_def)
    moreover have "chunk_range chunk (of_nat l) n = Some (l * k, min (Suc l * k) n)" "l * k < min (Suc l * k) n" if l: "l < L" for l
    proof -
      have s: "Suc l * k \<le> L * k" using l by (intro mult_le_mono1) simp
      then show "chunk_range chunk (of_nat l) n = Some (l * k, min (Suc l * k) n)"
        unfolding k(1) using L k(2) assms(3) \<open>0 < k\<close> by (intro chunk_range_small) simp_all
      show "l * k < min (Suc l * k) n" using s L \<open>0 < k\<close> by simp
    qed
    moreover have "concat (map (\<lambda>l. [l * k..<min (Suc l * k) n]) [0..<L]) = [0..<n]"
      using L by (simp only: chunks_concat min_absorb2)
    ultimately show ?thesis
      by (intro exI [of _ "of_nat L"] exI [of _ "\<lambda>l. (l * k, min (Suc l * k) n)"]) simp
  qed
  have "unat chunk = 0 \<longleftrightarrow> unat max_memory < unat asize" unfolding c using assms(2) a0 by (auto simp: min_def div_eq_0_iff)
  moreover have "num_loops n chunk = None" if "chunk = 0" using that by (simp add: num_loops_def)
  ultimately show ?thesis using z m loops k_def ex by auto
qed

theorem merge_chunks_cover_witness:
  "\<exists>L r. num_loops 5 2 = Some L \<and> concat (map (\<lambda>l. [fst (r l)..<snd (r l)]) [0..<unat L]) = [0..<5] \<and>
     (\<forall>l < unat L. chunk_range 2 (of_nat l) 5 = Some (r l))"
proof -
  have "iterateSize [1] [2] (of_nat 5) 3 15 = Some (2, 4)" by (simp add: iterateSize_def)
  then show ?thesis using merge_chunks_cover [of "[1]" "[2]" 5 3 15 2 4 6] by (simp, blast)
qed

section \<open>A chunk is merged\<close>

definition index_ok :: "cfg \<Rightarrow> nat \<Rightarrow> bool" where
  "index_ok info n \<longleftrightarrow> 0 \<le> sint (cf_index info) \<and> unat (cf_index info) < n"

lemma set_nth_ok: "index_ok info (length v) \<Longrightarrow> set_nth v (cf_index info) x = Some (v[unat (cf_index info) := x])"
  by (simp add: set_nth_def index_ok_def)

lemma init_elems_law:
  assumes "index_ok info n" "distinct (map fst kds)" "\<forall>k\<in>fst ` set kds. bg k = None"
  shows "init_elems info n kds bg = Some (\<lambda>k. case map_of kds k of
     None \<Rightarrow> bg k | Some v \<Rightarrow> Some ((replicate n [])[unat (cf_index info) := v]))"
  using assms(2,3)
proof (induction kds arbitrary: bg)
  case (Cons a r)
  obtain k v where a: "a = (k, v)" by fastforce
  let ?bg = "bg(k \<mapsto> (replicate n [])[unat (cf_index info) := v])"
  have s: "bag_set (bg(k \<mapsto> replicate n [])) k (cf_index info) v = Some ?bg"
    using set_nth_ok [of info "replicate n [] :: mem list" v] assms(1) by (simp add: bag_set_def)
  have "init_elems info n r ?bg = Some (\<lambda>j. case map_of r j of
     None \<Rightarrow> ?bg j | Some w \<Rightarrow> Some ((replicate n [])[unat (cf_index info) := w]))"
    using Cons.prems a by (intro Cons.IH) auto
  moreover have "map_of r k = None" using Cons.prems(1) a by (simp add: map_of_eq_None_iff)
  ultimately show ?case
    using s Cons.prems(2) a by (auto simp: fun_eq_iff split: option.split)
qed simp

lemma fill_elems_law:
  assumes "store_holds s g" "distinct ks" "\<forall>k\<in>set ks. length k < 2 ^ 31 \<and> g k \<noteq> None \<and> (\<exists>v. bg k = Some v \<and> index_ok info (length v))"
  shows "\<exists>s1. fill_elems info ks s bg = Some (s1, \<lambda>k. if k \<in> set ks then map_option (\<lambda>v. v[unat (cf_index info) := the (g k)]) (bg k) else bg k) \<and>
    store_holds s1 g"
  using assms
proof (induction ks arbitrary: s bg)
  case (Cons k r)
  obtain v d where v: "bg k = Some v" "index_ok info (length v)" "g k = Some d" "length k < 2 ^ 31" using Cons.prems(3) by auto
  obtain s1 where s1: "getBinary k [] s = Some ((0, d), s1)" "store_holds s1 g"
    using getBinary_holds [OF Cons.prems(1) v(4), of "[]"] v(3) by auto
  let ?bg = "bg(k \<mapsto> v[unat (cf_index info) := d])"
  have b: "bag_set bg k (cf_index info) d = Some ?bg" using set_nth_ok [OF v(2)] v(1) by (simp add: bag_set_def)
  have d: "distinct r" using Cons.prems(2) by simp
  have "\<forall>j\<in>set r. length j < 2 ^ 31 \<and> g j \<noteq> None \<and> (\<exists>v. ?bg j = Some v \<and> index_ok info (length v))"
    using Cons.prems(2,3) by auto
  then obtain s2 where s2: "fill_elems info r s1 ?bg = Some (s2, \<lambda>j. if j \<in> set r then map_option (\<lambda>v. v[unat (cf_index info) := the (g j)]) (?bg j) else ?bg j)"
    "store_holds s2 g"
    using Cons.IH [OF s1(2) d] by blast
  have "(\<lambda>j. if j \<in> set r then map_option (\<lambda>v. v[unat (cf_index info) := the (g j)]) (?bg j) else ?bg j) =
     (\<lambda>j. if j \<in> set (k # r) then map_option (\<lambda>v. v[unat (cf_index info) := the (g j)]) (bg j) else bg j)"
    using Cons.prems(2) v by (auto simp: fun_eq_iff)
  then show ?case using s1 s2 b by simp
qed simp

text \<open>The other databases, open, one after the other; and what the bag has for a key in the end.\<close>

fun fill_sources :: "(cfg \<times> store) list \<Rightarrow> mem list \<Rightarrow> bag \<Rightarrow> bag option" where
  "fill_sources [] keys bg = Some bg"
| "fill_sources ((info, sdb) # r) keys bg = do {
     (_, bg1) \<leftarrow> fill_elems info keys sdb bg;
     fill_sources r keys bg1
   }"

definition add_value :: "mem \<Rightarrow> mem list \<Rightarrow> cfg \<times> store \<times> (mem \<Rightarrow> mem option) \<Rightarrow> mem list" where
  "add_value k v src = (case src of (info, _, g) \<Rightarrow> v[unat (cf_index info) := the (g k)])"

definition merged :: "nat \<Rightarrow> cfg \<Rightarrow> mem \<Rightarrow> (cfg \<times> store \<times> (mem \<Rightarrow> mem option)) list \<Rightarrow> mem \<Rightarrow> mem list" where
  "merged n info v srcs k = foldl (add_value k) ((replicate n [])[unat (cf_index info) := v]) srcs"

lemma length_add_values [simp]: "length (foldl (add_value k) v srcs) = length v"
  by (induction srcs arbitrary: v) (auto simp: add_value_def)

lemma length_merged [simp]: "length (merged n info v srcs k) = n"
  by (simp add: merged_def)

lemma fill_sources_law:
  assumes "distinct ks" "\<forall>(info, s, g)\<in>set srcs. store_holds s g \<and> index_ok info n \<and> (\<forall>k\<in>set ks. g k \<noteq> None)"
    "\<forall>k\<in>set ks. length k < 2 ^ 31 \<and> (\<exists>v. bg k = Some v \<and> length v = n)"
  shows "fill_sources (map (\<lambda>(info, s, _). (info, s)) srcs) ks bg =
    Some (\<lambda>k. if k \<in> set ks then map_option (\<lambda>v. foldl (add_value k) v srcs) (bg k) else bg k)"
  using assms(2,3)
proof (induction srcs arbitrary: bg)
  case Nil
  show ?case by (simp add: fun_eq_iff option.map_ident)
next
  case (Cons a r)
  obtain info s g where a: "a = (info, s, g)" by (cases a) auto
  have h: "store_holds s g" "\<forall>k\<in>set ks. length k < 2 ^ 31 \<and> g k \<noteq> None \<and> (\<exists>v. bg k = Some v \<and> index_ok info (length v))"
    using Cons.prems a by auto
  let ?bg = "\<lambda>k. if k \<in> set ks then map_option (\<lambda>v. v[unat (cf_index info) := the (g k)]) (bg k) else bg k"
  obtain s1 where s1: "fill_elems info ks s bg = Some (s1, ?bg)" using fill_elems_law [OF h(1) assms(1) h(2)] by blast
  have "fill_sources (map (\<lambda>(info, s, _). (info, s)) r) ks ?bg =
      Some (\<lambda>k. if k \<in> set ks then map_option (\<lambda>v. foldl (add_value k) v r) (?bg k) else ?bg k)"
    using Cons.prems by (intro Cons.IH) auto
  moreover have "(\<lambda>k. if k \<in> set ks then map_option (\<lambda>v. foldl (add_value k) v r) (?bg k) else ?bg k) =
      (\<lambda>k. if k \<in> set ks then map_option (\<lambda>v. foldl (add_value k) v (a # r)) (bg k) else bg k)"
    by (auto simp: fun_eq_iff a add_value_def option.map_comp o_def)
  ultimately show ?case using s1 by (simp add: a)
qed

text \<open>Writing the bag is storing the concatenations one by one.\<close>

lemma insert_keys_law:
  assumes "\<forall>k\<in>set ks. \<exists>v. bg k = Some v \<and> v \<noteq> [] \<and> length v = unat (ac_nbin dbh)"
    "put_all bin_put (ac_db dbh) (map (\<lambda>k. (k, concat (the (bg k)))) ks) = Some s1"
  shows "\<exists>dbh1. insert_keys ks bg dbh = Some dbh1 \<and> ac_db dbh1 = s1"
  using assms
proof (induction ks arbitrary: dbh)
  case (Cons k r)
  obtain v where v: "bg k = Some v" "v \<noteq> []" "length v = unat (ac_nbin dbh)" using Cons.prems(1) by auto
  obtain t where t: "bin_put (ac_db dbh) k (concat v) = Some t" "put_all bin_put t (map (\<lambda>k. (k, concat (the (bg k)))) r) = Some s1"
    using Cons.prems(2) v(1) by (auto split: option.splits)
  then have i: "insertBinary k (concat v) (ac_db dbh) = Some (0, t)" by (auto simp: bin_put_def split: option.splits if_splits)
  obtain dbh1 where d: "insertBinaryData_ensemble k v dbh = Some (0, dbh1)" "ac_db dbh1 = t" "ac_nbin dbh1 = ac_nbin dbh"
    using v(2,3) i by (cases v; cases "ac_bytesize dbh = 0") (auto simp: insertBinaryData_ensemble_def)
  obtain dbh2 where "insert_keys r bg dbh1 = Some dbh2" "ac_db dbh2 = s1"
    using Cons.IH [of dbh1] Cons.prems(1) t(2) d(2,3) by auto
  then show ?case using v(1) d(1) by simp
qed simp

definition src_index :: "cfg \<times> store \<times> (mem \<Rightarrow> mem option) \<Rightarrow> nat" where
  "src_index src = (case src of (info, _, _) \<Rightarrow> unat (cf_index info))"

lemma add_values_other: "i \<notin> src_index ` set srcs \<Longrightarrow> foldl (add_value k) v srcs ! i = v ! i"
  by (induction srcs arbitrary: v) (auto simp: add_value_def src_index_def)

lemma add_values_nth:
  assumes "distinct (map src_index srcs)" "\<forall>(c, s, g)\<in>set srcs. index_ok c (length v)"
  shows "\<forall>(c, s, g)\<in>set srcs. foldl (add_value k) v srcs ! unat (cf_index c) = the (g k)"
  using assms
proof (induction srcs arbitrary: v)
  case (Cons a r)
  obtain info s g where a: "a = (info, s, g)" by (cases a) auto
  have "\<forall>(c, s, g)\<in>set r. foldl (add_value k) (add_value k v a) r ! unat (cf_index c) = the (g k)"
    using Cons.prems by (intro Cons.IH) (auto simp: a add_value_def)
  moreover have "foldl (add_value k) (add_value k v a) r ! unat (cf_index info) = the (g k)"
    using Cons.prems add_values_other [of "unat (cf_index info)" r k "add_value k v a"]
    by (auto simp: a add_value_def src_index_def index_ok_def)
  ultimately show ?case by (auto simp: a)
qed simp

text \<open>A configuration without a database that comes after one with a database gets its name.\<close>

lemma unavailable_inherits:
  assumes "name \<noteq> NOT_AVAILABLE"
  shows "\<exists>m. merger_named [num1, num2] [name, NOT_AVAILABLE] mem = Some m \<and> map cf_url (mg_configs m) = [name, name]"
  using assms by (simp add: merger_named_def new_merger_def Let_def)

text \<open>C37: Merging a chunk. The bag is initialised from the pairs of the first database, filled
  from the other databases, which have all the keys, and written to the common store in any
  order of the keys. If the indices of the configurations differ and there is room, the
  store afterwards holds, besides what it held, for every key of the chunk the
  concatenation of an ensemble which has at the index of each configuration the value of
  that configuration's database.\<close>
theorem merge_chunk_correct:
  assumes "store_holds (ac_db dbh) f" "unat (ac_nbin dbh) = n" "distinct (map fst kds)"
    "\<forall>k\<in>fst ` set kds. length k < 2 ^ 31 \<and> f k = None" "index_ok info n"
    "\<forall>(c, s, g)\<in>set srcs. store_holds s g \<and> index_ok c n \<and> (\<forall>k\<in>fst ` set kds. g k \<noteq> None)"
    "distinct (unat (cf_index info) # map src_index srcs)" "distinct ks" "set ks = fst ` set kds"
    "all_fit fits bin_put (ac_db dbh) (map (\<lambda>k. (k, concat (merged n info (the (map_of kds k)) srcs k))) ks)"
  shows "(\<exists>bg0 bg1 dbh1. init_elems info n kds Map.empty = Some bg0 \<and>
       fill_sources (map (\<lambda>(c, s, _). (c, s)) srcs) (map fst kds) bg0 = Some bg1 \<and> insert_keys ks bg1 dbh = Some dbh1 \<and>
       store_holds (ac_db dbh1) (\<lambda>k. case map_of kds k of None \<Rightarrow> f k | Some v \<Rightarrow> Some (concat (merged n info v srcs k)))) \<and>
    (\<forall>k v. merged n info v srcs k ! unat (cf_index info) = v \<and>
       (\<forall>(c, s, g)\<in>set srcs. merged n info v srcs k ! unat (cf_index c) = the (g k)))"
proof
  let ?bg0 = "\<lambda>k. case map_of kds k of None \<Rightarrow> None | Some v \<Rightarrow> Some ((replicate n [])[unat (cf_index info) := v])"
  let ?bg1 = "\<lambda>k. case map_of kds k of None \<Rightarrow> None | Some v \<Rightarrow> Some (merged n info v srcs k)"
  let ?kvs = "map (\<lambda>k. (k, concat (merged n info (the (map_of kds k)) srcs k))) ks"
  have n: "0 < n" using assms(5) by (auto simp: index_ok_def)
  have m: "map_of kds k = None \<longleftrightarrow> k \<notin> fst ` set kds" for k by (simp add: map_of_eq_None_iff)
  have 0: "init_elems info n kds Map.empty = Some ?bg0"
    using init_elems_law [OF assms(5,3), of Map.empty] by simp
  have "\<forall>k\<in>set (map fst kds). length k < 2 ^ 31 \<and> (\<exists>v. ?bg0 k = Some v \<and> length v = n)"
    using assms(4) m by (auto split: option.split)
  then have "fill_sources (map (\<lambda>(c, s, _). (c, s)) srcs) (map fst kds) ?bg0 =
      Some (\<lambda>k. if k \<in> set (map fst kds) then map_option (\<lambda>v. foldl (add_value k) v srcs) (?bg0 k) else ?bg0 k)"
    using assms(3,6) by (intro fill_sources_law) auto
  moreover have "(\<lambda>k. if k \<in> set (map fst kds) then map_option (\<lambda>v. foldl (add_value k) v srcs) (?bg0 k) else ?bg0 k) = ?bg1"
  proof
    fix k
    show "(if k \<in> set (map fst kds) then map_option (\<lambda>v. foldl (add_value k) v srcs) (?bg0 k) else ?bg0 k) = ?bg1 k"
      using m [of k] by (cases "map_of kds k") (simp_all add: merged_def)
  qed
  ultimately have 1: "fill_sources (map (\<lambda>(c, s, _). (c, s)) srcs) (map fst kds) ?bg0 = Some ?bg1" by simp
  obtain s1 where s1: "put_all bin_put (ac_db dbh) ?kvs = Some s1" "store_holds s1 (f ++ map_of ?kvs)"
    using datastore.put_all_law [OF assms(1), of ?kvs] assms(4,8,9,10) by (auto simp: comp_def)
  have v: "\<exists>v. map_of kds k = Some v" if "k \<in> set ks" for k using that assms(9) m [of k] by auto
  have kv: "map (\<lambda>k. (k, concat (the (?bg1 k)))) ks = ?kvs"
  proof (rule map_cong [OF refl])
    fix k
    assume "k \<in> set ks"
    then show "(k, concat (the (?bg1 k))) = (k, concat (merged n info (the (map_of kds k)) srcs k))" using v [of k] by auto
  qed
  have p: "put_all bin_put (ac_db dbh) (map (\<lambda>k. (k, concat (the (?bg1 k)))) ks) = Some s1"
    unfolding kv by (rule s1(1))
  have b: "\<forall>k\<in>set ks. \<exists>v. ?bg1 k = Some v \<and> v \<noteq> [] \<and> length v = unat (ac_nbin dbh)"
    using v n assms(2) by (metis (no_types, lifting) length_merged length_0_conv option.simps(5) less_numeral_extra(3))
  obtain dbh1 where 2: "insert_keys ks ?bg1 dbh = Some dbh1" "ac_db dbh1 = s1"
    using insert_keys_law [OF b p] by blast
  have "f ++ map_of ?kvs = (\<lambda>k. case map_of kds k of None \<Rightarrow> f k | Some v \<Rightarrow> Some (concat (merged n info v srcs k)))"
  proof
    fix k
    show "(f ++ map_of ?kvs) k = (case map_of kds k of None \<Rightarrow> f k | Some v \<Rightarrow> Some (concat (merged n info v srcs k)))"
      using v [of k] m [of k] assms(9)
      by (cases "k \<in> set ks") (auto simp: map_add_def map_of_map_restrict restrict_map_def o_def split: option.split)
  qed
  then show "\<exists>bg0 bg1 dbh1. init_elems info n kds Map.empty = Some bg0 \<and>
       fill_sources (map (\<lambda>(c, s, _). (c, s)) srcs) (map fst kds) bg0 = Some bg1 \<and> insert_keys ks bg1 dbh = Some dbh1 \<and>
       store_holds (ac_db dbh1) (\<lambda>k. case map_of kds k of None \<Rightarrow> f k | Some v \<Rightarrow> Some (concat (merged n info v srcs k)))"
    using 0 1 2 s1(2) by auto
next
  have i: "\<forall>(c, s, g)\<in>set srcs. index_ok c (length ((replicate n [])[unat (cf_index info) := v :: mem]))" for v
    using assms(6) by auto
  have d: "distinct (map src_index srcs)" "unat (cf_index info) \<notin> src_index ` set srcs" using assms(7) by auto
  show "\<forall>k v. merged n info v srcs k ! unat (cf_index info) = v \<and>
       (\<forall>(c, s, g)\<in>set srcs. merged n info v srcs k ! unat (cf_index c) = the (g k))"
    using add_values_nth [OF d(1) i] add_values_other [OF d(2)] assms(5) by (simp add: merged_def index_ok_def)
qed

theorem merge_chunk_correct_witness:
  "\<exists>s bg0 bg1 dbh1. insertBinary [7] [2] wit_store = Some (0, s) \<and>
     init_elems new_ConfigInfo 2 [([7], [1])] Map.empty = Some bg0 \<and>
     fill_sources [(new_ConfigInfo\<lparr>cf_index := 1\<rparr>, s)] [[7]] bg0 = Some bg1 \<and>
     insert_keys [[7]] bg1 wit_allconf = Some dbh1 \<and> store_holds (ac_db dbh1) [[7] \<mapsto> [1, 2]]"
proof -
  obtain s where s: "insertBinary [7] [2] wit_store = Some (0, s)" "store_holds s [[7] \<mapsto> [2]]"
    using insertBinary_holds [OF wit_store_holds, of "[7]" "[2]"] wit_store_fits [of "[7]" "[2]"] by auto
  let ?c = "new_ConfigInfo\<lparr>cf_index := 1\<rparr>" and ?g = "[[7] \<mapsto> [2]] :: mem \<Rightarrow> mem option"
  have m: "merged 2 new_ConfigInfo [1] [(?c, s, ?g)] [7] = [[1], [2]]"
    by (simp add: merged_def add_value_def new_ConfigInfo_def numeral_2_eq_2)
  have i: "index_ok new_ConfigInfo 2" "index_ok ?c 2" by (simp_all add: index_ok_def new_ConfigInfo_def)
  have d: "distinct (unat (cf_index new_ConfigInfo) # map src_index [(?c, s, ?g)])"
    by (simp add: src_index_def new_ConfigInfo_def)
  have f: "all_fit fits bin_put (ac_db wit_allconf)
      (map (\<lambda>k. (k, concat (merged 2 new_ConfigInfo (the (map_of [([7], [1])] k)) [(?c, s, ?g)] k))) [[7]])"
    using wit_store_fits [of "[7]" "[1, 2]"] m by (simp add: wit_allconf_fields split: option.split)
  have e: "(\<lambda>k. case map_of [([7], [1])] k of None \<Rightarrow> Map.empty k | Some v \<Rightarrow> Some (concat (merged 2 new_ConfigInfo v [(?c, s, ?g)] k))) =
      [[7] \<mapsto> [1, 2]]"
    using m by (auto simp: fun_eq_iff)
  have "\<exists>bg0 bg1 dbh1. init_elems new_ConfigInfo 2 [([7], [1])] Map.empty = Some bg0 \<and>
       fill_sources (map (\<lambda>(c, s, _). (c, s)) [(?c, s, ?g)]) (map fst [([7], [1 :: byte])]) bg0 = Some bg1 \<and>
       insert_keys [[7]] bg1 wit_allconf = Some dbh1 \<and>
       store_holds (ac_db dbh1) (\<lambda>k. case map_of [([7], [1])] k of None \<Rightarrow> Map.empty k
         | Some v \<Rightarrow> Some (concat (merged 2 new_ConfigInfo v [(?c, s, ?g)] k)))"
    by (rule merge_chunk_correct [of wit_allconf Map.empty 2 "[([7], [1])]" new_ConfigInfo "[(?c, s, ?g)]" "[[7]]", OF _ _ _ _ i(1) _ d _ _ f,
        THEN conjunct1]) (use wit_store_holds s(2) i in \<open>simp_all add: wit_allconf_fields\<close>)
  then show ?thesis using s(1) unfolding e by auto
qed

end
