(* ===== verification/FDB_Multi.thy ===== *)
theory FDB_Multi
  imports FDB_AllConf
begin

text \<open>
  Stores over several files, for reading only: \<open>ConfDataStoreMultipleDB\<close> and
  \<open>AllConfStoreMultipleDB\<close> (\<open>src/ConfDataStoreMultipleDB.h\<close>, \<open>src/AllConfStoreMultipleDB.h\<close>)
  hold a vector of stores. The first access to an element of an empty vector is \<open>None\<close>.
\<close>

section \<open>Loops over the stores\<close>

text \<open>The call on one store after the other, which is given the result so far, until \<open>stop\<close>.\<close>

fun each_store :: "('r \<Rightarrow> 's \<Rightarrow> ('r \<times> 's) option) \<Rightarrow> ('r \<Rightarrow> bool) \<Rightarrow> 'r \<Rightarrow> 's list \<Rightarrow> ('r \<times> 's list) option" where
  "each_store f stop r [] = Some (r, [])"
| "each_store f stop r (s # ss) = do {
     (r1, s1) \<leftarrow> f r s;
     if stop r1 then Some (r1, s1 # ss)
     else do {
       (r2, ss1) \<leftarrow> each_store f stop r1 ss;
       Some (r2, s1 # ss1)
     }
   }"

text \<open>The same with a file name for each store; there are as many names as stores.\<close>

fun each_file :: "(mem \<Rightarrow> 's \<Rightarrow> ('r \<times> 's) option) \<Rightarrow> ('r \<Rightarrow> bool) \<Rightarrow> 'r \<Rightarrow> mem list \<Rightarrow> 's list \<Rightarrow> ('r \<times> 's list) option" where
  "each_file f stop r files [] = Some (r, [])"
| "each_file f stop r [] (s # ss) = None"
| "each_file f stop r (file # files) (s # ss) = do {
     (r1, s1) \<leftarrow> f file s;
     if stop r1 then Some (r1, s1 # ss)
     else do {
       (r2, ss1) \<leftarrow> each_file f stop r1 files ss;
       Some (r2, s1 # ss1)
     }
   }"

text \<open>\<open>resize\<close> keeps the stores that stay, adds new ones, and destroys the others, which closes them.\<close>

fun destroy_all :: "('s \<Rightarrow> 'r option) \<Rightarrow> 's list \<Rightarrow> unit option" where
  "destroy_all close [] = Some ()"
| "destroy_all close (s # ss) = do { _ \<leftarrow> close s; destroy_all close ss }"

definition resize_dbs :: "('s \<Rightarrow> 'r option) \<Rightarrow> 's \<Rightarrow> nat \<Rightarrow> 's list \<Rightarrow> 's list option" where
  "resize_dbs close fresh n dbs = do {
     _ \<leftarrow> destroy_all close (drop n dbs);
     Some (take n dbs @ replicate (n - length dbs) fresh)
   }"

text \<open>\<open>fileExists\<close> runs over the stores, not over the names; without stores it is the initial value.\<close>

fun exists_each :: "(mem \<Rightarrow> int) \<Rightarrow> bool \<Rightarrow> mem list \<Rightarrow> 's list \<Rightarrow> bool option" where
  "exists_each access r files [] = Some r"
| "exists_each access r [] (s # ss) = None"
| "exists_each access r (file # files) (s # ss) =
     (if fileExists access file then exists_each access True files ss else Some False)"

abbreviation failed :: "db_exn + int \<Rightarrow> bool" where
  "failed r \<equiv> (case r of Inl _ \<Rightarrow> True | Inr ret \<Rightarrow> ret \<noteq> 0)"

section \<open>One configuration\<close>

definition multi_setCacheSize :: "u32 \<Rightarrow> store list \<Rightarrow> store list" where
  "multi_setCacheSize csize dbs = map (setCacheSize csize) dbs"

definition multi_setCacheSizeMB :: "bool \<Rightarrow> u32 \<Rightarrow> store list \<Rightarrow> store list" where
  "multi_setCacheSizeMB long_is_int csize dbs = map (setCacheSizeMB long_is_int csize) dbs"

definition multi_getMaxNumberConfigs :: "store list \<Rightarrow> u32 option" where
  "multi_getMaxNumberConfigs dbs = (case dbs of [] \<Rightarrow> None | s # _ \<Rightarrow> Some (getMaxNumberConfigs s))"

definition multi_fileExists :: "(mem \<Rightarrow> int) \<Rightarrow> mem list \<Rightarrow> store list \<Rightarrow> bool option" where
  "multi_fileExists access files dbs = exists_each access False files dbs"

text \<open>The mode is the octal number 0400.\<close>

definition multi_open :: "opsys \<Rightarrow> key_class \<Rightarrow> mem list \<Rightarrow> store list \<Rightarrow> (int \<times> store list) option" where
  "multi_open sys K files dbs = do {
     dbs1 \<leftarrow> resize_dbs DB_close new_store (length files) dbs;
     each_file (\<lambda>file. DB_open sys K file O_RDONLY 256) (\<lambda>ret. ret \<noteq> 0) 0 files dbs1
   }"

definition multi_close :: "store list \<Rightarrow> (int \<times> store list) option" where
  "multi_close dbs = each_store (\<lambda>_ s. map_option (\<lambda>(ret, s1, _). (ret, s1)) (DB_close s)) (\<lambda>ret. ret \<noteq> 0) 0 dbs"

definition multi_get :: "('k \<Rightarrow> db_exn + mem) \<Rightarrow> (mem \<Rightarrow> db_exn + 'd) \<Rightarrow> 'k \<Rightarrow> 'd \<Rightarrow> store list \<Rightarrow> ((db_exn + (int \<times> 'd)) \<times> store list) option" where
  "multi_get wk rd key data dbs = map_option (\<lambda>(r, dbs1). (catching (- 1, data) r, dbs1))
     (each_store (\<lambda>r. get_data wk rd key (case r of Inr (_, d) \<Rightarrow> d | Inl _ \<Rightarrow> data)) (\<lambda>r. case r of Inl _ \<Rightarrow> True | Inr (ret, _) \<Rightarrow> ret = 0)
       (Inr (- 1, data)) dbs)"

definition multi_getBinary :: "mem \<Rightarrow> mem \<Rightarrow> store list \<Rightarrow> ((int \<times> mem) \<times> store list) option" where
  "multi_getBinary key data dbs = each_store (\<lambda>r. getBinary key (snd r)) (\<lambda>(ret, _). ret = 0) (- 1, data) dbs"

definition multi_exist :: "('k \<Rightarrow> db_exn + mem) \<Rightarrow> 'k \<Rightarrow> store list \<Rightarrow> ((db_exn + bool) \<times> store list) option" where
  "multi_exist wk key dbs = map_option (\<lambda>(r, dbs1). (catching False r, dbs1))
     (each_store (\<lambda>_. exist wk key) (\<lambda>r. case r of Inl _ \<Rightarrow> True | Inr b \<Rightarrow> b) (Inr False) dbs)"

definition multi_keys :: "(mem \<Rightarrow> db_exn + 'k) \<Rightarrow> 'k list \<Rightarrow> store list \<Rightarrow> ((db_exn option \<times> 'k list) \<times> store list) option" where
  "multi_keys rk ks dbs = each_store (\<lambda>r. keys_of rk (snd r)) (\<lambda>r. fst r \<noteq> None) (None, ks) dbs"

definition multi_getUserdata :: "mem \<Rightarrow> store list \<Rightarrow> ((int \<times> mem) \<times> store list) option" where
  "multi_getUserdata user_data dbs = (case dbs of
     [] \<Rightarrow> Some ((- 1, user_data), [])
   | s # ss \<Rightarrow> map_option (\<lambda>(r, s1). (r, s1 # ss)) (getUserdata user_data s))"

section \<open>All configurations\<close>

text \<open>The operations that \<open>AllConfStoreDB\<close> inherits work on its store.\<close>

definition inherited :: "(store \<Rightarrow> ('r \<times> store) option) \<Rightarrow> allconf \<Rightarrow> ('r \<times> allconf) option" where
  "inherited f a = map_option (\<lambda>(r, s). (r, a\<lparr>ac_db := s\<rparr>)) (f (ac_db a))"

definition allconf_close :: "allconf \<Rightarrow> (int \<times> allconf) option" where
  "allconf_close = inherited (\<lambda>s. map_option (\<lambda>(ret, s1, _). (ret, s1)) (DB_close s))"

definition allmulti_setCacheSize :: "u32 \<Rightarrow> allconf list \<Rightarrow> allconf list" where
  "allmulti_setCacheSize csize dbs = map (\<lambda>a. a\<lparr>ac_db := setCacheSize csize (ac_db a)\<rparr>) dbs"

definition allmulti_getMaxNumberConfigs :: "allconf list \<Rightarrow> u32 option" where
  "allmulti_getMaxNumberConfigs dbs = (case dbs of [] \<Rightarrow> None | a # _ \<Rightarrow> Some (getMaxNumberConfigs (ac_db a)))"

definition allmulti_fileExists :: "(mem \<Rightarrow> int) \<Rightarrow> mem list \<Rightarrow> allconf list \<Rightarrow> bool option" where
  "allmulti_fileExists access files dbs = exists_each access True files dbs"

definition allmulti_open :: "opsys \<Rightarrow> key_class \<Rightarrow> mem list \<Rightarrow> allconf list \<Rightarrow> ((db_exn + int) \<times> allconf list) option" where
  "allmulti_open sys K files dbs = do {
     dbs1 \<leftarrow> resize_dbs allconf_close new_allconf (length files) dbs;
     each_file (\<lambda>file. allconf_open sys K file O_RDONLY 256) failed (Inr 0) files dbs1
   }"

definition allmulti_close :: "allconf list \<Rightarrow> (int \<times> allconf list) option" where
  "allmulti_close dbs = each_store (\<lambda>_. allconf_close) (\<lambda>ret. ret \<noteq> 0) 0 dbs"

definition allmulti_size :: "allconf list \<Rightarrow> u32 option" where
  "allmulti_size dbs = (case dbs of [] \<Rightarrow> None | a # _ \<Rightarrow> Some (ensemble_size a))"

definition allmulti_get :: "('k \<Rightarrow> db_exn + mem) \<Rightarrow> (mem \<Rightarrow> db_exn + 'd) \<Rightarrow> 'k \<Rightarrow> 'd list \<Rightarrow> allconf list \<Rightarrow>
    (((db_exn + int) \<times> 'd list) \<times> allconf list) option" where
  "allmulti_get wk rd key vs dbs = map_option (\<lambda>((r, vs1), dbs1). ((catching (- 1) r, vs1), dbs1))
     (each_store (\<lambda>r. get_ensemble wk rd key (snd r)) (\<lambda>(r, _). case r of Inl _ \<Rightarrow> True | Inr ret \<Rightarrow> ret = 0) (Inr (- 1), vs) dbs)"

definition allmulti_exist :: "('k \<Rightarrow> db_exn + mem) \<Rightarrow> 'k \<Rightarrow> allconf list \<Rightarrow> ((db_exn + bool) \<times> allconf list) option" where
  "allmulti_exist wk key dbs = map_option (\<lambda>(r, dbs1). (catching False r, dbs1))
     (each_store (\<lambda>_. inherited (exist wk key)) (\<lambda>r. case r of Inl _ \<Rightarrow> True | Inr b \<Rightarrow> b) (Inr False) dbs)"

definition allmulti_getUserdata :: "mem \<Rightarrow> allconf list \<Rightarrow> ((int \<times> mem) \<times> allconf list) option" where
  "allmulti_getUserdata user_data dbs = (case dbs of
     [] \<Rightarrow> Some ((- 1, user_data), [])
   | a # rest \<Rightarrow> map_option (\<lambda>(r, a1). (r, a1 # rest)) (inherited (getUserdata user_data) a))"

section \<open>Lookup over several stores\<close>

text \<open>The map of several stores: the first one that has the key.\<close>

definition first_of :: "('k \<Rightarrow> 'v option) list \<Rightarrow> 'k \<Rightarrow> 'v option" where
  "first_of fs = foldr (\<lambda>f g. g ++ f) fs Map.empty"

lemma first_of_simps [simp]:
  "first_of [] k = None" "first_of (f # fs) k = (case f k of None \<Rightarrow> first_of fs k | Some v \<Rightarrow> Some v)"
  unfolding first_of_def map_add_def by simp_all

text \<open>One law for the three lookups: a store answers hit or miss by its map.\<close>

lemma each_store_first:
  assumes step: "\<And>r s f. P s f \<Longrightarrow> \<exists>s1. g r s = Some (case f k of None \<Rightarrow> miss r | Some v \<Rightarrow> hit r v, s1) \<and> P s1 f"
    and miss: "\<And>r. \<not> stop (miss r)" "\<And>r. miss (miss r) = miss r" "\<And>r v. hit (miss r) v = hit r v" and hit: "\<And>r v. stop (hit r v)"
    and dbs: "list_all2 P dbs fs"
  shows "\<exists>dbs1. each_store g stop r dbs =
      Some (case first_of fs k of Some v \<Rightarrow> hit r v | None \<Rightarrow> if fs = [] then r else miss r, dbs1) \<and> list_all2 P dbs1 fs"
  using dbs
proof (induction dbs arbitrary: fs r)
  case (Cons s ss)
  obtain f fs' where fs: "fs = f # fs'" "P s f" "list_all2 P ss fs'" using Cons.prems by (auto simp: list_all2_Cons1)
  obtain s1 where s1: "g r s = Some (case f k of None \<Rightarrow> miss r | Some v \<Rightarrow> hit r v, s1)" "P s1 f" using step [OF fs(2)] by blast
  show ?case
  proof (cases "f k")
    case None
    obtain ss1 where "each_store g stop (miss r) ss =
        Some (case first_of fs' k of Some v \<Rightarrow> hit (miss r) v | None \<Rightarrow> if fs' = [] then miss r else miss (miss r), ss1)"
      "list_all2 P ss1 fs'" using Cons.IH [OF fs(3)] by blast
    then show ?thesis using s1 None fs(1) miss by (intro exI [of _ "s1 # ss1"]) (auto split: option.split)
  next
    case (Some v)
    then show ?thesis using s1 fs hit by (intro exI [of _ "s1 # ss"]) simp
  qed
qed simp

lemma exist_holds:
  assumes "store_holds s f" "wk key = Inr kb" "length kb < 2 ^ 31"
  shows "\<exists>s1. exist wk key s = Some (Inr (f kb \<noteq> None), s1) \<and> store_holds s1 f"
proof -
  obtain h where h: "db_dbh s = Some h" "represents h f" using assms(1) by (auto simp: store_holds_def)
  obtain h1 buf where "ffdb_hash_get h (dbt_of kb) no_buffer = Some (if f kb = None then FFDB_NOT_FOUND else 0, buf, h1)" "represents h1 f"
    using hash_get_buf [OF h(2) assms(3)] by blast
  then show ?thesis
    using h(1) assms(2) by (cases "f kb") (auto simp: exist_def keyExist_def FFDB_NOT_FOUND_def)
qed

text \<open>C34: Lookup over several files. Open stores that hold the maps \<open>fs\<close> answer together as one map:
  \<open>getBinary\<close> gives the value of the first store that has the key, and \<open>exist\<close> says whether
  there is one; if none has it, the answer is not found (or \<open>-1\<close> without any store) and the
  caller's data stay. Every store still holds its map.\<close>
theorem multi_first_hit:
  assumes "list_all2 store_holds dbs fs" "length kb < 2 ^ 31" "wk key = Inr kb"
  shows "(\<exists>dbs1. multi_getBinary kb d dbs = Some (case first_of fs kb of
        Some v \<Rightarrow> (0, v) | None \<Rightarrow> (if fs = [] then - 1 else FFDB_NOT_FOUND, d), dbs1) \<and> list_all2 store_holds dbs1 fs) \<and>
    (\<exists>dbs1. multi_exist wk key dbs = Some (Inr (first_of fs kb \<noteq> None), dbs1) \<and> list_all2 store_holds dbs1 fs)"
proof
  obtain dbs1 where d1: "each_store (\<lambda>r. getBinary kb (snd r)) (\<lambda>(ret, _). ret = 0) (- 1, d) dbs =
      Some (case first_of fs kb of Some v \<Rightarrow> (0, v) | None \<Rightarrow> if fs = [] then (- 1, d) else (FFDB_NOT_FOUND, snd (- 1 :: int, d)), dbs1)"
    "list_all2 store_holds dbs1 fs"
    using each_store_first [where P = store_holds and g = "\<lambda>r. getBinary kb (snd r)" and k = kb and miss = "\<lambda>r. (FFDB_NOT_FOUND, snd r)"
        and hit = "\<lambda>r v. (0, v)" and stop = "\<lambda>(ret, _). ret = 0", OF getBinary_holds [OF _ assms(2)] _ _ _ _ assms(1), where r = "(- 1, d)"]
    by (auto simp: FFDB_NOT_FOUND_def)
  then show "\<exists>dbs1. multi_getBinary kb d dbs = Some (case first_of fs kb of
        Some v \<Rightarrow> (0, v) | None \<Rightarrow> (if fs = [] then - 1 else FFDB_NOT_FOUND, d), dbs1) \<and> list_all2 store_holds dbs1 fs"
    by (intro exI [of _ dbs1]) (auto simp: multi_getBinary_def split: option.split)
  obtain dbs2 where d2: "each_store (\<lambda>_. exist wk key) (\<lambda>r. case r of Inl _ \<Rightarrow> True | Inr b \<Rightarrow> b) (Inr False) dbs =
      Some (case first_of fs kb of Some v \<Rightarrow> Inr True | None \<Rightarrow> if fs = [] then Inr False else Inr False, dbs2)"
    "list_all2 store_holds dbs2 fs"
  proof -
    have "\<exists>s1. exist wk key s = Some (case f kb of None \<Rightarrow> Inr False | Some v \<Rightarrow> Inr True, s1) \<and> store_holds s1 f"
      if "store_holds s f" for s f
      using exist_holds [OF that, of wk key kb] assms(2,3) by (cases "f kb") auto
    from each_store_first [where P = store_holds and g = "\<lambda>_. exist wk key" and k = kb and miss = "\<lambda>_. Inr False"
        and hit = "\<lambda>_ _. Inr True" and stop = "\<lambda>r. case r of Inl _ \<Rightarrow> True | Inr b \<Rightarrow> b", OF this _ _ _ _ assms(1), where r = "Inr False"]
    show thesis using that by auto
  qed
  then show "\<exists>dbs1. multi_exist wk key dbs = Some (Inr (first_of fs kb \<noteq> None), dbs1) \<and> list_all2 store_holds dbs1 fs"
    by (intro exI [of _ dbs2]) (auto simp: multi_exist_def split: option.split)
qed

theorem multi_first_hit_witness:
  "\<exists>s1 dbs1. insertBinary [7] [8, 9] wit_store = Some (0, s1) \<and> multi_getBinary [7] [] [wit_store, s1] = Some ((0, [8, 9]), dbs1) \<and>
     (\<exists>dbs2. multi_getBinary [6] [1] [wit_store, s1] = Some ((FFDB_NOT_FOUND, [1]), dbs2))"
proof -
  have "fits wit_store [7] [8, 9]" by (rule wit_store_fits) simp_all
  then obtain s1 where s1: "insertBinary [7] [8, 9] wit_store = Some (0, s1)" "store_holds s1 [[7] \<mapsto> [8, 9]]"
    using insertBinary_holds [OF wit_store_holds, of "[7]" "[8, 9]"] by auto
  then have l: "list_all2 store_holds [wit_store, s1] [Map.empty, [[7] \<mapsto> [8, 9]]]" using wit_store_holds by simp
  show ?thesis
    using multi_first_hit [OF l, of "[7]" Inr "[7]" "[]"] multi_first_hit [OF l, of "[6]" Inr "[6]" "[1]"] s1(1) by auto
qed

end
