(* ===== verification/FDB_Iterator.thy ===== *)
theory FDB_Iterator
  imports FDB_ReadAll
begin

text \<open>
  Handles on cursors that count their references, and the iterator over the keys
  (\<open>src/DBCursor.h\<close>, \<open>src/DBCursor.cpp\<close>). The objects on the heap are cells of the state; a
  \<open>DBCursor\<close> is the address of its representation. \<open>None\<close> is a use of freed memory, or a
  call that ends the program.
\<close>

section \<open>Representations\<close>

record crep =
  rp_count :: int
  rp_cursor :: "nat option"

record cstate =
  cs_db :: htab
  cs_cursors :: "nat \<Rightarrow> crs option"
  cs_reps :: "nat \<Rightarrow> crep option"
  cs_next :: nat

definition start_state :: "htab \<Rightarrow> cstate" where
  "start_state h = \<lparr>cs_db = h, cs_cursors = Map.empty, cs_reps = Map.empty, cs_next = 0\<rparr>"

text \<open>\<open>dbh->cursor\<close>: a new cursor on the heap, and the status.\<close>

definition open_cursor :: "cstate \<Rightarrow> int \<times> nat option \<times> cstate" where
  "open_cursor s = (case ffdb_hash_cursor (cs_db s) FFDB_KEY_CURSOR of (ret, crp, h) \<Rightarrow>
     (case crp of
        None \<Rightarrow> (ret, None, s\<lparr>cs_db := h\<rparr>)
      | Some c \<Rightarrow> (ret, Some (cs_next s), s\<lparr>cs_db := h, cs_cursors := (cs_cursors s)(cs_next s \<mapsto> c), cs_next := cs_next s + 1\<rparr>)))"

definition close_cursor :: "nat \<Rightarrow> cstate \<Rightarrow> cstate option" where
  "close_cursor c s = do {
     crp \<leftarrow> cs_cursors s c;
     (_, h) \<leftarrow> ffdb_cursor_close (cs_db s) crp;
     Some (s\<lparr>cs_db := h, cs_cursors := (cs_cursors s)(c := None)\<rparr>)
   }"

definition set_rep :: "nat \<Rightarrow> crep \<Rightarrow> cstate \<Rightarrow> cstate" where
  "set_rep r rp s = s\<lparr>cs_reps := (cs_reps s)(r \<mapsto> rp)\<rparr>"

definition new_rep :: "nat option \<Rightarrow> cstate \<Rightarrow> nat \<times> cstate" where
  "new_rep c s = (cs_next s, s\<lparr>cs_reps := (cs_reps s)(cs_next s \<mapsto> \<lparr>rp_count = 1, rp_cursor = c\<rparr>), cs_next := cs_next s + 1\<rparr>)"

text \<open>The destructor closes the cursor.\<close>

definition delete_rep :: "nat \<Rightarrow> cstate \<Rightarrow> cstate option" where
  "delete_rep r s = do {
     rp \<leftarrow> cs_reps s r;
     s1 \<leftarrow> (case rp_cursor rp of None \<Rightarrow> Some s | Some c \<Rightarrow> close_cursor c s);
     Some (s1\<lparr>cs_reps := (cs_reps s1)(r := None)\<rparr>)
   }"

text \<open>Copying and assigning representations, which the handles never do.\<close>

definition copy_rep :: "nat \<Rightarrow> cstate \<Rightarrow> (nat \<times> cstate) option" where
  "copy_rep r s = do {
     rp \<leftarrow> cs_reps s r;
     Some (new_rep (rp_cursor rp) s)
   }"

definition assign_rep :: "nat \<Rightarrow> nat \<Rightarrow> cstate \<Rightarrow> cstate option" where
  "assign_rep r q s = do {
     rp \<leftarrow> cs_reps s r;
     rq \<leftarrow> cs_reps s q;
     if r = q then Some s
     else do {
       s1 \<leftarrow> (if rp_cursor rp \<noteq> rp_cursor rq then (case rp_cursor rp of None \<Rightarrow> Some s | Some c \<Rightarrow> close_cursor c s) else Some s);
       Some (set_rep r \<lparr>rp_count = 1, rp_cursor = rp_cursor rq\<rparr> s1)
     }
   }"

section \<open>Handles\<close>

definition DBCursor_new :: "cstate \<Rightarrow> nat \<times> cstate" where
  "DBCursor_new s = new_rep None s"

definition DBCursor_of :: "nat \<Rightarrow> cstate \<Rightarrow> nat \<times> cstate" where
  "DBCursor_of c s = new_rep (Some c) s"

definition DBCursor_copy :: "nat \<Rightarrow> cstate \<Rightarrow> (nat \<times> cstate) option" where
  "DBCursor_copy r s = do {
     rp \<leftarrow> cs_reps s r;
     Some (r, set_rep r (rp\<lparr>rp_count := rp_count rp + 1\<rparr>) s)
   }"

definition DBCursor_destroy :: "nat \<Rightarrow> cstate \<Rightarrow> cstate option" where
  "DBCursor_destroy r s = do {
     rp \<leftarrow> cs_reps s r;
     let s1 = set_rep r (rp\<lparr>rp_count := rp_count rp - 1\<rparr>) s;
     if rp_count rp - 1 \<le> 0 then delete_rep r s1 else Some s1
   }"

text \<open>Assignment: the representation that the handle has afterwards; \<open>same\<close> is assignment to itself.\<close>

definition DBCursor_assign :: "bool \<Rightarrow> nat \<Rightarrow> nat \<Rightarrow> cstate \<Rightarrow> (nat \<times> cstate) option" where
  "DBCursor_assign same r q s =
     (if same then Some (r, s)
      else do {
        (_, s1) \<leftarrow> DBCursor_copy q s;
        s2 \<leftarrow> DBCursor_destroy r s1;
        Some (q, s2)
      })"

definition DBCursor_cursor :: "nat \<Rightarrow> cstate \<Rightarrow> nat option option" where
  "DBCursor_cursor r s = map_option rp_cursor (cs_reps s r)"

section \<open>Iterators over the keys\<close>

record 'k kiter =
  ki_cursor :: nat
  ki_key :: 'k
  ki_end :: int

text \<open>The constructor copies the handle that it is given, which is a temporary.\<close>

definition ki_make :: "nat \<Rightarrow> 'k \<Rightarrow> int \<Rightarrow> cstate \<Rightarrow> ('k kiter \<times> cstate) option" where
  "ki_make tmp key endflag s = do {
     (r, s1) \<leftarrow> DBCursor_copy tmp s;
     s2 \<leftarrow> DBCursor_destroy tmp s1;
     Some (\<lparr>ki_cursor = r, ki_key = key, ki_end = endflag\<rparr>, s2)
   }"

text \<open>A cursor that is on the heap, and a step of it.\<close>

definition cursor_next :: "nat \<Rightarrow> cstate \<Rightarrow> (int \<times> mem \<times> cstate) option" where
  "cursor_next c s = do {
     crp \<leftarrow> cs_cursors s c;
     (ret, crp1, key, _, h) \<leftarrow> ffdb_cursor_get (cs_db s) crp no_buffer (Some no_buffer) FFDB_NEXT;
     Some (ret, buf_bytes key, s\<lparr>cs_db := h, cs_cursors := (cs_cursors s)(c \<mapsto> crp1)\<rparr>)
   }"

definition get_next_key :: "(mem \<Rightarrow> db_exn + 'k) \<Rightarrow> nat \<Rightarrow> 'k kiter \<Rightarrow> cstate \<Rightarrow> (db_exn option \<times> 'k kiter \<times> cstate) option" where
  "get_next_key rk c it s = do {
     (ret, bytes, s1) \<leftarrow> cursor_next c s;
     if ret = 0 then
       (case rk bytes of
          Inl (SerializeException _ _) \<Rightarrow> None
        | Inl e \<Rightarrow> Some (Some e, it, s1)
        | Inr k \<Rightarrow> Some (None, it\<lparr>ki_key := k\<rparr>, s1))
     else if ret = FFDB_NOT_FOUND then Some (None, it\<lparr>ki_end := 1\<rparr>, s1)
     else None
   }"

text \<open>Both operators \<open>++\<close>.\<close>

definition ki_incr :: "(mem \<Rightarrow> db_exn + 'k) \<Rightarrow> 'k kiter \<Rightarrow> cstate \<Rightarrow> (db_exn option \<times> 'k kiter \<times> cstate) option" where
  "ki_incr rk it s = do {
     c \<leftarrow> DBCursor_cursor (ki_cursor it) s;
     (case c of None \<Rightarrow> Some (None, it, s) | Some crp \<Rightarrow> get_next_key rk crp it s)
   }"

definition ki_eq :: "('k \<Rightarrow> 'k \<Rightarrow> bool) \<Rightarrow> 'k kiter \<Rightarrow> 'k kiter \<Rightarrow> cstate \<Rightarrow> bool option" where
  "ki_eq eq a b s = do {
     c1 \<leftarrow> DBCursor_cursor (ki_cursor a) s;
     c2 \<leftarrow> DBCursor_cursor (ki_cursor b) s;
     Some (if c1 \<noteq> None \<and> c2 \<noteq> None \<and> ki_end a = ki_end b then eq (ki_key a) (ki_key b) else ki_end a = 1 \<and> ki_end b = 1)
   }"

definition ki_copy :: "'k kiter \<Rightarrow> cstate \<Rightarrow> ('k kiter \<times> cstate) option" where
  "ki_copy it s = do {
     (r, s1) \<leftarrow> DBCursor_copy (ki_cursor it) s;
     Some (it\<lparr>ki_cursor := r\<rparr>, s1)
   }"

definition ki_assign :: "bool \<Rightarrow> 'k kiter \<Rightarrow> 'k kiter \<Rightarrow> cstate \<Rightarrow> ('k kiter \<times> cstate) option" where
  "ki_assign same a b s =
     (if same then Some (a, s)
      else do {
        (r, s1) \<leftarrow> DBCursor_assign False (ki_cursor a) (ki_cursor b) s;
        Some (b\<lparr>ki_cursor := r\<rparr>, s1)
      })"

definition ki_destroy :: "'k kiter \<Rightarrow> cstate \<Rightarrow> cstate option" where
  "ki_destroy it s = DBCursor_destroy (ki_cursor it) s"

text \<open>
  \<open>init\<close>: \<open>key\<close> is a key that the default constructor makes. When the first key cannot be
  read the result is the end, and the cursor stays open without a handle.
\<close>

definition ki_init :: "(mem \<Rightarrow> db_exn + 'k) \<Rightarrow> 'k \<Rightarrow> cstate \<Rightarrow> ((db_exn + 'k kiter) \<times> cstate) option" where
  "ki_init rk key s = (case open_cursor s of (_, crp, s1) \<Rightarrow> do {
     c \<leftarrow> crp;
     (ret, bytes, s2) \<leftarrow> cursor_next c s1;
     if ret = 0 then
       (case rk bytes of
          Inl (SerializeException _ _) \<Rightarrow> do {
            let (tmp, s3) = DBCursor_new s2;
            (it, s4) \<leftarrow> ki_make tmp key 1 s3;
            Some (Inr it, s4)
          }
        | Inl e \<Rightarrow> Some (Inl e, s2)
        | Inr k \<Rightarrow> do {
            let (tmp, s3) = DBCursor_of c s2;
            (it, s4) \<leftarrow> ki_make tmp k 0 s3;
            Some (Inr it, s4)
          })
     else if ret \<noteq> FFDB_NOT_FOUND then None
     else do {
       let (tmp, s3) = DBCursor_of c s2;
       (it, s4) \<leftarrow> ki_make tmp key 1 s3;
       Some (Inr it, s4)
     }
   })"

text \<open>\<open>begin\<close> and \<open>end\<close> of the stores.\<close>

definition key_begin :: "(mem \<Rightarrow> db_exn + 'k) \<Rightarrow> 'k \<Rightarrow> cstate \<Rightarrow> ((db_exn + 'k kiter) \<times> cstate) option" where
  "key_begin rk key s = ki_init rk key s"

definition key_end :: "'k \<Rightarrow> cstate \<Rightarrow> ('k kiter \<times> cstate) option" where
  "key_end key s = (let (tmp, s1) = DBCursor_new s in ki_make tmp key 1 s1)"

section \<open>Counting references\<close>

text \<open>
  The states that a program can reach with handles in variables (numbers here): making a
  handle, with a new cursor or without one, copying, assigning and destroying handles, and
  using the cursor of a handle.
\<close>

inductive reached :: "(nat \<Rightarrow> nat option) \<Rightarrow> cstate \<Rightarrow> bool" where
  reached_start: "reached Map.empty (start_state h)"
| reached_new: "reached H s \<Longrightarrow> H v = None \<Longrightarrow> DBCursor_new s = (r, s1) \<Longrightarrow> reached (H(v \<mapsto> r)) s1"
| reached_of: "reached H s \<Longrightarrow> H v = None \<Longrightarrow> open_cursor s = (ret, Some c, s0) \<Longrightarrow> DBCursor_of c s0 = (r, s1) \<Longrightarrow> reached (H(v \<mapsto> r)) s1"
| reached_copy: "reached H s \<Longrightarrow> H v = None \<Longrightarrow> H w = Some q \<Longrightarrow> DBCursor_copy q s = Some (r, s1) \<Longrightarrow> reached (H(v \<mapsto> r)) s1"
| reached_assign: "reached H s \<Longrightarrow> H v = Some p \<Longrightarrow> H w = Some q \<Longrightarrow> DBCursor_assign (v = w) p q s = Some (r, s1) \<Longrightarrow> reached (H(v \<mapsto> r)) s1"
| reached_destroy: "reached H s \<Longrightarrow> H v = Some p \<Longrightarrow> DBCursor_destroy p s = Some s1 \<Longrightarrow> reached (H(v := None)) s1"
| reached_use: "reached H s \<Longrightarrow> H v = Some p \<Longrightarrow> DBCursor_cursor p s = Some (Some c) \<Longrightarrow> cs_cursors s c \<noteq> None \<Longrightarrow>
    reached H (s\<lparr>cs_db := h, cs_cursors := (cs_cursors s)(c \<mapsto> k)\<rparr>)"

text \<open>
  The invariant: a representation counts its handles and lives as long as there is one, each
  open cursor belongs to exactly one representation, and what is used was allocated.
\<close>

definition handles :: "(nat \<Rightarrow> nat option) \<Rightarrow> nat \<Rightarrow> nat set" where
  "handles H a = {v. H v = Some a}"

definition owner :: "cstate \<Rightarrow> nat \<Rightarrow> nat \<Rightarrow> bool" where
  "owner s a c \<longleftrightarrow> (\<exists>rp. cs_reps s a = Some rp \<and> rp_cursor rp = Some c)"

definition refs_ok :: "(nat \<Rightarrow> nat option) \<Rightarrow> cstate \<Rightarrow> bool" where
  "refs_ok H s \<longleftrightarrow> finite (dom H) \<and> (\<forall>a. cs_reps s a = None \<longleftrightarrow> handles H a = {}) \<and>
     (\<forall>a rp. cs_reps s a = Some rp \<longrightarrow> rp_count rp = int (card (handles H a))) \<and>
     (\<forall>a b c. owner s a c \<longrightarrow> owner s b c \<longrightarrow> a = b) \<and> (\<forall>c. cs_cursors s c = None \<longleftrightarrow> (\<forall>a. \<not> owner s a c)) \<and>
     (\<forall>a. cs_next s \<le> a \<longrightarrow> cs_reps s a = None \<and> cs_cursors s a = None)"

lemma refs_okI:
  assumes "finite (dom H)" "\<And>a. cs_reps s a = None \<longleftrightarrow> handles H a = {}"
    "\<And>a rp. cs_reps s a = Some rp \<Longrightarrow> rp_count rp = int (card (handles H a))"
    "\<And>a b c. owner s a c \<Longrightarrow> owner s b c \<Longrightarrow> a = b" "\<And>c. cs_cursors s c = None \<longleftrightarrow> (\<forall>a. \<not> owner s a c)"
    "\<And>a. cs_next s \<le> a \<Longrightarrow> cs_reps s a = None \<and> cs_cursors s a = None"
  shows "refs_ok H s"
  using assms unfolding refs_ok_def by blast

lemma refs_okD:
  assumes "refs_ok H s"
  shows "finite (dom H)" "cs_reps s a = None \<longleftrightarrow> handles H a = {}" "cs_reps s a = Some rp \<Longrightarrow> rp_count rp = int (card (handles H a))"
    "owner s a c \<Longrightarrow> owner s b c \<Longrightarrow> a = b" "cs_cursors s c = None \<longleftrightarrow> (\<forall>a. \<not> owner s a c)"
    "cs_next s \<le> a \<Longrightarrow> cs_reps s a = None \<and> cs_cursors s a = None"
  using assms unfolding refs_ok_def by blast+

lemma handles_upd: "H v = None \<Longrightarrow> handles (H(v \<mapsto> a)) b = (if b = a then insert v (handles H b) else handles H b)"
  by (auto simp: handles_def)

lemma handles_del: "handles (H(v := None)) b = handles H b - {v}"
  by (auto simp: handles_def)

lemma handles_in: "v \<in> handles H a \<longleftrightarrow> H v = Some a"
  by (simp add: handles_def)

lemma handles_finite: "finite (dom H) \<Longrightarrow> finite (handles H a)"
  by (rule finite_subset [of _ "dom H"]) (auto simp: handles_def)

lemma refs_new_rep:
  assumes r: "refs_ok H s" and v: "H v = None"
  shows "refs_ok (H(v \<mapsto> cs_next s)) (snd (new_rep None s))"
    and "c = cs_next s \<Longrightarrow> s0 = s\<lparr>cs_db := h, cs_cursors := (cs_cursors s)(c \<mapsto> x), cs_next := c + 1\<rparr> \<Longrightarrow>
      refs_ok (H(v \<mapsto> cs_next s0)) (snd (new_rep (Some c) s0))"
proof -
  note R = r [unfolded refs_ok_def]
  have fresh: "cs_reps s a = None" "cs_cursors s a = None" "handles H a = {}" if "cs_next s \<le> a" for a
    using R that by blast+
  have hd: "handles (H(v \<mapsto> a)) b = (if b = a then {v} else handles H b)" if "cs_next s \<le> a" for a b
    using v fresh [OF that] by (simp add: handles_upd)
  have o: "owner s a c \<Longrightarrow> a < cs_next s" for a c
    using fresh [of a] by (force simp: owner_def not_less [symmetric])
  have o1: "owner (snd (new_rep None s)) a c \<longleftrightarrow> owner s a c" for a c
    using fresh [of "cs_next s"] by (auto simp: owner_def new_rep_def)
  show "refs_ok (H(v \<mapsto> cs_next s)) (snd (new_rep None s))"
    unfolding refs_ok_def o1 using R by (auto simp: hd new_rep_def)
  assume c: "c = cs_next s" and s0: "s0 = s\<lparr>cs_db := h, cs_cursors := (cs_cursors s)(c \<mapsto> x), cs_next := c + 1\<rparr>"
  have n: "cs_next s0 = cs_next s + 1" using s0 c by simp
  have o2: "owner (snd (new_rep (Some c) s0)) a d \<longleftrightarrow> (if a = cs_next s + 1 then d = c else owner s a d)" for a d
    using fresh [of "cs_next s + 1"] c by (auto simp: owner_def new_rep_def s0)
  have oc: "\<not> owner s a c" for a using R fresh(2) [of c] c by blast
  show "refs_ok (H(v \<mapsto> cs_next s0)) (snd (new_rep (Some c) s0))"
    unfolding refs_ok_def n
  proof (intro conjI allI impI)
    fix a b d
    assume "owner (snd (new_rep (Some c) s0)) a d" "owner (snd (new_rep (Some c) s0)) b d"
    then show "a = b" unfolding o2 using R oc by (metis (full_types))
  next
    fix d
    show "(cs_cursors (snd (new_rep (Some c) s0)) d = None) \<longleftrightarrow> (\<forall>a. \<not> owner (snd (new_rep (Some c) s0)) a d)"
    proof (cases "d = c")
      case True
      then show ?thesis unfolding o2 by (auto simp: new_rep_def s0)
    next
      case False
      have "\<not> owner s (cs_next s + 1) d" using o [of "cs_next s + 1" d] by auto
      then have "(\<forall>a. \<not> owner (snd (new_rep (Some c) s0)) a d) \<longleftrightarrow> (\<forall>a. \<not> owner s a d)" unfolding o2 using False by metis
      then show ?thesis using R False by (simp add: new_rep_def s0)
    qed
  qed (use R in \<open>auto simp: hd new_rep_def s0 c split: if_splits\<close>)
qed

text \<open>One more handle, and one more counted.\<close>

lemma bind_SomeE:
  assumes "Option.bind x (\<lambda>y. Some (g y)) = Some z"
  obtains y where "x = Some y" "z = g y"
  using assms by (auto simp: bind_eq_Some_conv)

lemma set_rep_fields: "cs_reps (set_rep r rp s) = (cs_reps s)(r \<mapsto> rp)" "cs_cursors (set_rep r rp s) = cs_cursors s"
  "cs_next (set_rep r rp s) = cs_next s" "cs_db (set_rep r rp s) = cs_db s"
  by (simp_all add: set_rep_def)

lemma owner_set_rep: "cs_reps s q = Some rp \<Longrightarrow> rp_cursor rp' = rp_cursor rp \<Longrightarrow> owner (set_rep q rp' s) = owner s"
  by (auto simp: fun_eq_iff owner_def set_rep_def)

lemma refs_copy:
  assumes r: "refs_ok H s" and v: "H v = None" and rp: "cs_reps s q = Some rp"
  shows "refs_ok (H(v \<mapsto> q)) (set_rep q (rp\<lparr>rp_count := rp_count rp + 1\<rparr>) s)"
proof -
  note R = r [unfolded refs_ok_def]
  have "finite (handles H q)" "v \<notin> handles H q" using R v by (auto simp: handles_finite handles_in)
  then have "card (handles (H(v \<mapsto> q)) q) = card (handles H q) + 1" using v by (simp add: handles_upd)
  moreover have "handles H q \<noteq> {}" using R rp by (metis option.distinct(1))
  ultimately show ?thesis
    unfolding refs_ok_def owner_set_rep [of s q rp, OF rp, of "rp\<lparr>rp_count := rp_count rp + 1\<rparr>", simplified]
    using R rp v by (auto simp: set_rep_def handles_upd)
qed

lemma close_fields:
  assumes "(case co of None \<Rightarrow> Some t | Some c \<Rightarrow> close_cursor c t) = Some s2"
  shows "cs_reps s2 = cs_reps t" "cs_next s2 = cs_next t" "cs_cursors s2 = (\<lambda>c. if co = Some c then None else cs_cursors t c)"
proof (atomize(full), cases co)
  case (Some c)
  then obtain crp r h where "ffdb_cursor_close (cs_db t) crp = Some (r, h)" "s2 = t\<lparr>cs_db := h, cs_cursors := (cs_cursors t)(c := None)\<rparr>"
    using assms by (auto simp: close_cursor_def bind_eq_Some_conv)
  then show "cs_reps s2 = cs_reps t \<and> cs_next s2 = cs_next t \<and> cs_cursors s2 = (\<lambda>c. if co = Some c then None else cs_cursors t c)"
    using Some by (simp add: fun_eq_iff)
qed (use assms in auto)

text \<open>A handle less: counted down, and the last one deletes the representation and closes its cursor.\<close>

lemma refs_destroy:
  assumes r: "refs_ok H s" and v: "H v = Some p" and d: "DBCursor_destroy p s = Some s1"
  shows "refs_ok (H(v := None)) s1"
proof -
  note R = r [unfolded refs_ok_def]
  obtain rp where rp: "cs_reps s p = Some rp" using d by (auto simp: DBCursor_destroy_def bind_eq_Some_conv)
  have n: "rp_count rp = int (card (handles H p))" "finite (handles H p)" "v \<in> handles H p"
    using R rp v by (auto simp: handles_finite handles_in)
  have other: "v \<notin> handles H a" if "a \<noteq> p" for a using v that by (auto simp: handles_in)
  let ?s = "set_rep p (rp\<lparr>rp_count := rp_count rp - 1\<rparr>) s"
  have o: "owner ?s = owner s" by (rule owner_set_rep [OF rp]) simp
  show ?thesis
  proof (cases "handles H p = {v}")
    case True
    then have dl: "delete_rep p ?s = Some s1" using d rp n by (simp add: DBCursor_destroy_def)
    have "delete_rep p ?s = Option.bind (case rp_cursor rp of None \<Rightarrow> Some ?s | Some c \<Rightarrow> close_cursor c ?s)
        (\<lambda>s2. Some (s2\<lparr>cs_reps := (cs_reps s2)(p := None)\<rparr>))"
      by (simp add: delete_rep_def set_rep_fields)
    then obtain s2 where s2: "(case rp_cursor rp of None \<Rightarrow> Some ?s | Some c \<Rightarrow> close_cursor c ?s) = Some s2"
      "s1 = s2\<lparr>cs_reps := (cs_reps s2)(p := None)\<rparr>"
      unfolding dl by (rule bind_SomeE [OF sym])
    have reps: "cs_reps s2 = cs_reps ?s" "cs_next s2 = cs_next s"
      "cs_cursors s2 = (\<lambda>c. if rp_cursor rp = Some c then None else cs_cursors s c)"
      unfolding close_fields [OF s2(1)] set_rep_fields by simp_all
    have o1: "owner s1 a c \<longleftrightarrow> a \<noteq> p \<and> owner s a c" for a c
      using rp by (auto simp: s2(2) owner_def reps set_rep_def)
    have own: "rp_cursor rp = Some c \<longleftrightarrow> owner s p c" for c using rp by (simp add: owner_def)
    have H1: "handles (H(v := None)) a = (if a = p then {} else handles H a)" for a
      using True other by (auto simp: handles_del)
    have s1: "cs_reps s1 = (cs_reps s)(p := None)" "cs_next s1 = cs_next s"
      "cs_cursors s1 = (\<lambda>c. if rp_cursor rp = Some c then None else cs_cursors s c)"
      unfolding s2(2) using reps by (simp_all add: set_rep_fields)
    show ?thesis
    proof (rule refs_okI)
      show "finite (dom (H(v := None)))" using R by simp
      show "cs_reps s1 a = None \<longleftrightarrow> handles (H(v := None)) a = {}" for a unfolding H1 s1 using refs_okD(2) [OF r, of a] by simp
      show "rp_count rq = int (card (handles (H(v := None)) a))" if "cs_reps s1 a = Some rq" for a rq
        using that refs_okD(3) [OF r, of a rq] unfolding H1 s1 by (simp split: if_splits)
      show "a = b" if "owner s1 a c" "owner s1 b c" for a b c using that refs_okD(4) [OF r] unfolding o1 by blast
      show "cs_reps s1 a = None \<and> cs_cursors s1 a = None" if "cs_next s1 \<le> a" for a
        using that refs_okD(6) [OF r, of a] unfolding s1 by simp
      show "cs_cursors s1 c = None \<longleftrightarrow> (\<forall>a. \<not> owner s1 a c)" for c
      proof (cases "owner s p c")
        case True
        then have "\<not> owner s1 a c" for a using refs_okD(4) [OF r] unfolding o1 by blast
        then show ?thesis using True own by (simp add: s1)
      next
        case False
        then have "(\<forall>a. \<not> owner s1 a c) \<longleftrightarrow> (\<forall>a. \<not> owner s a c)" unfolding o1 by metis
        then show ?thesis using False own refs_okD(5) [OF r, of c] by (simp add: s1)
      qed
    qed
  next
    case False
    then have "handles H p - {v} \<noteq> {}" using n(3) by auto
    then have "card (handles H p - {v}) \<noteq> 0" using n(2) by simp
    moreover have "card (handles H p - {v}) = card (handles H p) - 1" using n(3) by simp
    ultimately have c: "card (handles H p - {v}) = card (handles H p) - 1" "1 < card (handles H p)" by auto
    then have "s1 = ?s" using d rp n by (simp add: DBCursor_destroy_def)
    moreover have "refs_ok (H(v := None)) ?s"
    proof (rule refs_okI, unfold o handles_del set_rep_fields)
      show "finite (dom (H(v := None)))" using R by simp
      show "((cs_reps s)(p \<mapsto> rp\<lparr>rp_count := rp_count rp - 1\<rparr>)) a = None \<longleftrightarrow> handles H a - {v} = {}" for a
        using refs_okD(2) [OF r, of a] other [of a] False n(3) by auto
      show "rp_count rq = int (card (handles H a - {v}))" if "((cs_reps s)(p \<mapsto> rp\<lparr>rp_count := rp_count rp - 1\<rparr>)) a = Some rq" for a rq
        using that refs_okD(3) [OF r, of a rq] other [of a] c n(1) by (auto split: if_splits)
      show "a = b" if "owner s a c" "owner s b c" for a b c using that refs_okD(4) [OF r] by blast
      show "cs_cursors s c = None \<longleftrightarrow> (\<forall>a. \<not> owner s a c)" for c using refs_okD(5) [OF r] .
      show "((cs_reps s)(p \<mapsto> rp\<lparr>rp_count := rp_count rp - 1\<rparr>)) a = None \<and> cs_cursors s a = None" if "cs_next s \<le> a" for a
        using that refs_okD(6) [OF r, of a] rp by auto
    qed
    ultimately show ?thesis by simp
  qed
qed

text \<open>Assigning a handle to another: first one more, then one less.\<close>

lemma refs_assign:
  assumes r: "refs_ok H s" and p: "H v = Some p" and q: "H w = Some q" and a: "DBCursor_assign (v = w) p q s = Some (r', s1)"
  shows "refs_ok (H(v \<mapsto> r')) s1"
proof (cases "v = w")
  case True
  then have "r' = p" "s1 = s" using a by (simp_all add: DBCursor_assign_def)
  then show ?thesis using r p by (simp add: fun_upd_idem)
next
  case False
  obtain rp where rp: "cs_reps s q = Some rp" using refs_okD(2) [OF r, of q] q by (fastforce simp: handles_in)
  let ?s = "set_rep q (rp\<lparr>rp_count := rp_count rp + 1\<rparr>) s"
  have d: "DBCursor_destroy p ?s = Some s1" "r' = q"
    using a False rp by (auto simp: DBCursor_assign_def DBCursor_copy_def bind_eq_Some_conv)
  obtain u where u: "u \<notin> dom H" using refs_okD(1) [OF r] ex_new_if_finite [OF infinite_UNIV_nat] by blast
  then have "refs_ok (H(u \<mapsto> q)) ?s" by (intro refs_copy [OF r _ rp]) auto
  moreover have "(H(u \<mapsto> q)) v = Some p" using p u by auto
  ultimately have k: "refs_ok ((H(u \<mapsto> q))(v := None)) s1" using refs_destroy d(1) by blast
  have "handles (H(v \<mapsto> q)) a = handles ((H(u \<mapsto> q))(v := None)) a - {u} \<union> (if a = q then {v} else {})" for a
    using p u by (auto simp: handles_def)
  moreover have "card (handles (H(v \<mapsto> q)) a) = card (handles ((H(u \<mapsto> q))(v := None)) a)" for a
    by (rule bij_betw_same_card [of "\<lambda>x. if x = v then u else x"]) (use u p in \<open>auto simp: bij_betw_def inj_on_def handles_def split: if_splits\<close>)
  moreover have "handles (H(v \<mapsto> q)) a = {} \<longleftrightarrow> handles ((H(u \<mapsto> q))(v := None)) a = {}" for a
    using u p by (auto simp: handles_def)
  ultimately have "refs_ok (H(v \<mapsto> q)) s1"
    using k unfolding refs_ok_def by simp
  then show ?thesis by (simp add: d(2))
qed

lemma reached_refs_ok: "reached H s \<Longrightarrow> refs_ok H s"
proof (induction rule: reached.induct)
  case (reached_start h)
  then show ?case by (auto simp: refs_ok_def start_state_def owner_def handles_def)
next
  case (reached_new H s v r s1)
  then have "r = cs_next s" "s1 = snd (new_rep None s)" by (auto simp: DBCursor_new_def new_rep_def)
  then show ?case using refs_new_rep(1) [OF reached_new.IH reached_new(2)] by (simp only:)
next
  case (reached_of H s v ret c s0 r s1)
  from reached_of(3) have c: "c = cs_next s" "s0 = s\<lparr>cs_db := cs_db s, cs_cursors := (cs_cursors s)(c \<mapsto> \<lparr>c_item = empty_item, c_type = FFDB_KEY_CURSOR\<rparr>), cs_next := c + 1\<rparr>"
    by (auto simp: open_cursor_def ffdb_hash_cursor_def)
  have "r = cs_next s0" "s1 = snd (new_rep (Some c) s0)" using reached_of(4) by (auto simp: DBCursor_of_def new_rep_def)
  then show ?case using refs_new_rep(2) [OF reached_of.IH reached_of(2) c] by (simp only:)
next
  case (reached_copy H s v w q r s1)
  then obtain rp where "cs_reps s q = Some rp" "r = q" "s1 = set_rep q (rp\<lparr>rp_count := rp_count rp + 1\<rparr>) s"
    by (auto simp: DBCursor_copy_def bind_eq_Some_conv)
  then show ?case using refs_copy reached_copy by blast
next
  case (reached_use H s v p c k h)
  let ?t = "s\<lparr>cs_db := h, cs_cursors := (cs_cursors s)(c \<mapsto> k)\<rparr>"
  note R = refs_okD [OF reached_use.IH]
  have o: "owner ?t = owner s" by (simp add: fun_eq_iff owner_def)
  have c: "\<exists>a. owner s a c" using reached_use(4) R(5) [of c] by auto
  then have n: "c < cs_next s" using R(5,6) [of c] by (meson not_le)
  show ?case
  proof (rule refs_okI, unfold o)
    show "cs_cursors ?t d = None \<longleftrightarrow> (\<forall>a. \<not> owner s a d)" for d using R(5) [of d] c by auto
    show "cs_reps ?t a = None \<and> cs_cursors ?t a = None" if "cs_next ?t \<le> a" for a using R(6) [of a] n that by auto
  qed (use R in auto)
qed (use refs_assign refs_destroy in blast)+

text \<open>C35: Reference counting. In every state that a program can reach by making, copying, assigning,
  destroying and using handles, each handle refers to a live representation whose count is
  the number of its handles; an open cursor has exactly one representation and at least one
  handle. So the last handle, and no other, closes the cursor, and no handle is left with
  freed memory.\<close>
theorem cursor_handles_counted:
  assumes "reached H s"
  shows "(\<forall>v a. H v = Some a \<longrightarrow> (\<exists>rp. cs_reps s a = Some rp \<and> rp_count rp = int (card {w. H w = Some a}) \<and>
       (\<forall>c. rp_cursor rp = Some c \<longrightarrow> cs_cursors s c \<noteq> None))) \<and>
    (\<forall>a rp. cs_reps s a = Some rp \<longrightarrow> 0 < rp_count rp) \<and>
    (\<forall>c. cs_cursors s c \<noteq> None \<longrightarrow> (\<exists>!a. \<exists>rp. cs_reps s a = Some rp \<and> rp_cursor rp = Some c \<and> (\<exists>v. H v = Some a)))"
proof (intro conjI allI impI)
  note r = reached_refs_ok [OF assms]
  fix v a
  assume "H v = Some a"
  then have "handles H a \<noteq> {}" by (auto simp: handles_def)
  then obtain rp where rp: "cs_reps s a = Some rp" using refs_okD(2) [OF r, of a] by auto
  moreover have "cs_cursors s c \<noteq> None" if "rp_cursor rp = Some c" for c
    using refs_okD(5) [OF r, of c] rp that by (auto simp: owner_def)
  ultimately show "\<exists>rp. cs_reps s a = Some rp \<and> rp_count rp = int (card {w. H w = Some a}) \<and> (\<forall>c. rp_cursor rp = Some c \<longrightarrow> cs_cursors s c \<noteq> None)"
    using refs_okD(3) [OF r rp] by (auto simp: handles_def)
next
  note r = reached_refs_ok [OF assms]
  fix a rp
  assume rp: "cs_reps s a = Some rp"
  then have "handles H a \<noteq> {}" using refs_okD(2) [OF r, of a] by simp
  then show "0 < rp_count rp"
    using refs_okD(3) [OF r rp] handles_finite [OF refs_okD(1) [OF r], of a] by (simp add: card_gt_0_iff)
next
  note r = reached_refs_ok [OF assms]
  fix c
  assume "cs_cursors s c \<noteq> None"
  then obtain a where a: "owner s a c" using refs_okD(5) [OF r, of c] by auto
  then obtain rp where rp: "cs_reps s a = Some rp" "rp_cursor rp = Some c" by (auto simp: owner_def)
  then have "handles H a \<noteq> {}" using refs_okD(2) [OF r, of a] by simp
  then show "\<exists>!a. \<exists>rp. cs_reps s a = Some rp \<and> rp_cursor rp = Some c \<and> (\<exists>v. H v = Some a)"
    using rp refs_okD(4) [OF r] by (intro ex1I [of _ a]) (auto simp: owner_def handles_def)
qed

text \<open>A handle on a new cursor and a copy of it.\<close>

theorem cursor_handles_counted_witness:
  "\<exists>s rp. reached [5 \<mapsto> 1, 6 \<mapsto> 1] s \<and> cs_reps s 1 = Some rp \<and> rp_count rp = 2 \<and> cs_cursors s 0 \<noteq> None"
proof -
  let ?c = "\<lparr>c_item = empty_item, c_type = FFDB_KEY_CURSOR\<rparr>"
  define s0 where "s0 = (start_state wit_db)\<lparr>cs_cursors := [0 \<mapsto> ?c], cs_next := 1\<rparr>"
  define s1 where "s1 = snd (new_rep (Some 0) s0)"
  have f: "cs_reps s1 1 = Some \<lparr>rp_count = 1, rp_cursor = Some 0\<rparr>" "new_rep (Some 0) s0 = (1, s1)" "cs_cursors s1 0 = Some ?c"
    by (simp_all add: s1_def s0_def new_rep_def start_state_def)
  have "open_cursor (start_state wit_db) = (0, Some 0, s0)"
    by (simp add: open_cursor_def ffdb_hash_cursor_def s0_def start_state_def)
  then have r1: "reached [5 \<mapsto> 1] s1"
    using f(2) by (intro reached_of [OF reached_start [of wit_db], where c = 0 and v = 5]) (simp_all add: DBCursor_of_def)
  obtain s2 where s2: "DBCursor_copy 1 s1 = Some (1, s2)" "s2 = set_rep 1 \<lparr>rp_count = 2, rp_cursor = Some 0\<rparr> s1"
    using f(1) by (simp add: DBCursor_copy_def)
  have r2: "reached ([5 \<mapsto> 1] (6 \<mapsto> 1)) s2" by (rule reached_copy [OF r1 _ _ s2(1), of 6 5]) simp_all
  have "{w. ([5 \<mapsto> 1, 6 \<mapsto> 1] :: nat \<Rightarrow> nat option) w = Some 1} = {5, 6}" by auto
  moreover have "cs_cursors s2 0 \<noteq> None" using s2(2) f(3) by (simp add: set_rep_fields)
  ultimately show ?thesis using cursor_handles_counted [OF r2] r2 by (intro exI [of _ s2]) fastforce
qed

section \<open>The loop of an application\<close>

text \<open>\<open>for (it = begin (); it != end (); ++it)\<close>, collecting the keys.\<close>

partial_function (option) key_loop ::
    "(mem \<Rightarrow> db_exn + 'k) \<Rightarrow> ('k \<Rightarrow> 'k \<Rightarrow> bool) \<Rightarrow> 'k kiter \<Rightarrow> 'k kiter \<Rightarrow> cstate \<Rightarrow> 'k list \<Rightarrow> ('k list \<times> 'k kiter \<times> cstate) option" where
  "key_loop rk eq it e s acc = do {
     q \<leftarrow> ki_eq eq it e s;
     if q then Some (acc, it, s)
     else do {
       (x, it1, s1) \<leftarrow> ki_incr rk it s;
       (case x of Some _ \<Rightarrow> None | None \<Rightarrow> key_loop rk eq it1 e s1 (acc @ [ki_key it]))
     }
   }"

text \<open>The iterator stands on a cursor that will deliver \<open>todo\<close>; the other one is the end.\<close>

definition iterating :: "'k kiter \<Rightarrow> 'k kiter \<Rightarrow> nat \<Rightarrow> cstate \<Rightarrow> spot list \<Rightarrow> bool" where
  "iterating it e c s todo \<longleftrightarrow> DBCursor_cursor (ki_cursor it) s = Some (Some c) \<and> DBCursor_cursor (ki_cursor e) s = Some None \<and>
     ki_end it = 0 \<and> ki_end e = 1 \<and> (\<exists>k. cs_cursors s c = Some k \<and> delivers (cs_db s) k todo)"

abbreviation after :: "nat \<Rightarrow> crs \<Rightarrow> htab \<Rightarrow> cstate \<Rightarrow> cstate" where
  "after c k h s \<equiv> s\<lparr>cs_db := h, cs_cursors := (cs_cursors s)(c \<mapsto> k)\<rparr>"

lemma key_loop_delivers:
  assumes "iterating it e c s todo" "\<forall>t\<in>set todo. \<exists>v. spot_datum (cs_db s) t v" "list_all2 (\<lambda>t k. rk (spot_key t) = Inr k) todo ks"
  shows "\<exists>k h it1. key_loop rk eq it e s acc = Some (acc @ ki_key it # ks, it1, after c k h s) \<and> ki_cursor it1 = ki_cursor it \<and>
    finished (cs_db s) k h"
  using assms
proof (induction todo arbitrary: it s ks acc)
  case Nil
  obtain k where k: "cs_cursors s c = Some k" "delivers (cs_db s) k []" using Nil.prems(1) by (auto simp: iterating_def)
  obtain k' h where g: "ffdb_cursor_get (cs_db s) k no_buffer (Some no_buffer) FFDB_NEXT =
      Some (FFDB_NOT_FOUND, k', no_buffer, Some no_buffer, h)" "finished (cs_db s) k' h"
    using cursor_get_end [OF k(2), of "Some no_buffer"] by (auto simp: finished_def)
  have "ki_eq eq it e s = Some False" "ki_incr rk it s = Some (None, it\<lparr>ki_end := 1\<rparr>, after c k' h s)"
    "ki_eq eq (it\<lparr>ki_end := 1\<rparr>) e (after c k' h s) = Some True"
    using Nil.prems(1) k g(1)
    by (auto simp: iterating_def ki_eq_def ki_incr_def get_next_key_def cursor_next_def FFDB_NOT_FOUND_def DBCursor_cursor_def)
  then have L: "key_loop rk eq it e s acc = Some (acc @ [ki_key it], it\<lparr>ki_end := 1\<rparr>, after c k' h s)"
    by (simp add: key_loop.simps [of rk eq it e s] key_loop.simps [of rk eq "it\<lparr>ki_end := 1\<rparr>"])
  have ks: "ks = []" using Nil.prems(3) by simp
  show ?case unfolding ks by (rule exI [of _ k'], rule exI [of _ h], rule exI [of _ "it\<lparr>ki_end := 1\<rparr>"], intro conjI L g(2)) simp
next
  case (Cons t todo)
  obtain x ks' where ks: "ks = x # ks'" "rk (spot_key t) = Inr x" "list_all2 (\<lambda>t k. rk (spot_key t) = Inr k) todo ks'"
    using Cons.prems(3) by (auto simp: list_all2_Cons1)
  obtain k where k: "cs_cursors s c = Some k" "delivers (cs_db s) k (t # todo)" using Cons.prems(1) by (auto simp: iterating_def)
  obtain v where v: "spot_datum (cs_db s) t v" using Cons.prems(2) by auto
  obtain k' h where g: "ffdb_cursor_get (cs_db s) k no_buffer (Some no_buffer) FFDB_NEXT = Some (0, k', buf_of (spot_key t), Some (buf_of v), h)"
    "delivers h k' todo" "same_pages (cs_db s) h"
    using cursor_get_pair(1) [OF k(2) v] by blast
  let ?it = "it\<lparr>ki_key := x\<rparr>"
  have st: "ki_eq eq it e s = Some False" "ki_incr rk it s = Some (None, ?it, after c k' h s)"
    using Cons.prems(1) k(1) g(1) ks(2)
    by (auto simp: iterating_def ki_eq_def ki_incr_def get_next_key_def cursor_next_def)
  have i: "iterating ?it e c (after c k' h s) todo" using Cons.prems(1) g(2) by (simp add: iterating_def DBCursor_cursor_def)
  have sd: "\<forall>t\<in>set todo. \<exists>v. spot_datum (cs_db (after c k' h s)) t v"
    using Cons.prems(2) spot_datum_same [OF g(3)] by simp
  obtain k2 h2 it2 where IH: "key_loop rk eq ?it e (after c k' h s) (acc @ [ki_key it]) = Some ((acc @ [ki_key it]) @ ki_key ?it # ks', it2, after c k2 h2 (after c k' h s))"
    "ki_cursor it2 = ki_cursor ?it" "finished (cs_db (after c k' h s)) k2 h2"
    using Cons.IH [OF i sd ks(3), of "acc @ [ki_key it]"] by blast
  have "after c k2 h2 (after c k' h s) = after c k2 h2 s" by simp
  then have "key_loop rk eq it e s acc = Some (acc @ ki_key it # ks, it2, after c k2 h2 s)"
    using IH(1) st ks(1) by (subst key_loop.simps) simp
  moreover have "finished (cs_db s) k2 h2" using finished_trans [OF g(3)] IH(3) by simp
  ultimately show ?case using IH(2) by (metis kiter.select_convs(1) kiter.surjective kiter.update_convs(2))
qed

text \<open>The first key.\<close>

lemma key_begin_delivers:
  assumes d: "delivers h \<lparr>c_item = empty_item, c_type = FFDB_KEY_CURSOR\<rparr> (t # todo)" and v: "spot_datum h t v" and k: "rk (spot_key t) = Inr x"
  shows "\<exists>k h1. key_begin rk x0 (start_state h) = Some (Inr \<lparr>ki_cursor = 1, ki_key = x, ki_end = 0\<rparr>,
      \<lparr>cs_db = h1, cs_cursors = [0 \<mapsto> k], cs_reps = [1 \<mapsto> \<lparr>rp_count = 1, rp_cursor = Some 0\<rparr>], cs_next = 2\<rparr>) \<and>
    delivers h1 k todo \<and> same_pages h h1"
proof -
  obtain k' h1 where g: "ffdb_cursor_get h \<lparr>c_item = empty_item, c_type = FFDB_KEY_CURSOR\<rparr> no_buffer (Some no_buffer) FFDB_NEXT =
      Some (0, k', buf_of (spot_key t), Some (buf_of v), h1)" "delivers h1 k' todo" "same_pages h h1"
    using cursor_get_pair(1) [OF d v] by blast
  then show ?thesis
    using k by (intro exI [of _ k'] exI [of _ h1])
      (simp add: key_begin_def ki_init_def open_cursor_def ffdb_hash_cursor_def cursor_next_def start_state_def DBCursor_of_def new_rep_def
        ki_make_def DBCursor_copy_def DBCursor_destroy_def set_rep_def)
qed

text \<open>C9: Iterating over the keys. On a tidy table with at least one pair, whose keys the class can
  read, the loop from \<open>begin ()\<close> to \<open>end ()\<close> visits every key exactly once and returns; when
  the two iterators are destroyed the cursor is closed, no object is left on the heap, and the
  table still represents the map.\<close>
theorem key_iterator_visits_all:
  assumes "kept h f" "f \<noteq> Map.empty" "\<forall>k v. f k = Some v \<longrightarrow> rk k = Inr (a k)"
  shows "\<exists>ks it s1 e s2 it2 s3 s4 s5. key_begin rk x0 (start_state h) = Some (Inr it, s1) \<and> key_end x0 s1 = Some (e, s2) \<and>
    key_loop rk eq it e s2 [] = Some (map a ks, it2, s3) \<and> distinct ks \<and> set ks = dom f \<and>
    ki_destroy it2 s3 = Some s4 \<and> ki_destroy e s4 = Some s5 \<and>
    cs_cursors s5 = Map.empty \<and> cs_reps s5 = Map.empty \<and> kept (cs_db s5) f"
proof -
  let ?c = "\<lparr>c_item = empty_item, c_type = FFDB_KEY_CURSOR\<rparr>"
  obtain Cs where t: "represents h f" "tidy h Cs" "all_spots Cs \<noteq> []" "delivers h ?c (all_spots Cs)"
    using kept_delivers [OF assms(1,2)] .
  obtain t0 todo where sp: "all_spots Cs = t0 # todo" using t(3) by (cases "all_spots Cs") auto
  have spot: "\<exists>v. spot_datum h t v \<and> f (spot_key t) = Some v" if "t \<in> set (all_spots Cs)" for t using tidy_spot [OF t(1,2) that] .
  obtain v0 where v0: "spot_datum h t0 v0" "f (spot_key t0) = Some v0" using spot [of t0] sp by auto
  have rk: "rk (spot_key t) = Inr (a (spot_key t))" if "t \<in> set (all_spots Cs)" for t using spot [OF that] assms(3) by blast
  obtain k h1 where b: "key_begin rk x0 (start_state h) = Some (Inr \<lparr>ki_cursor = 1, ki_key = a (spot_key t0), ki_end = 0\<rparr>,
      \<lparr>cs_db = h1, cs_cursors = [0 \<mapsto> k], cs_reps = [1 \<mapsto> \<lparr>rp_count = 1, rp_cursor = Some 0\<rparr>], cs_next = 2\<rparr>)"
    "delivers h1 k todo" "same_pages h h1"
    using key_begin_delivers [of h t0 todo v0 rk "a (spot_key t0)" x0] t(4) sp v0(1) rk [of t0] by auto
  let ?it = "\<lparr>ki_cursor = 1, ki_key = a (spot_key t0), ki_end = 0\<rparr>" and ?e = "\<lparr>ki_cursor = 2, ki_key = x0, ki_end = 1\<rparr>"
  let ?s1 = "\<lparr>cs_db = h1, cs_cursors = [0 \<mapsto> k], cs_reps = [1 \<mapsto> \<lparr>rp_count = 1, rp_cursor = Some 0\<rparr>], cs_next = 2\<rparr>"
  let ?s2 = "\<lparr>cs_db = h1, cs_cursors = [0 \<mapsto> k], cs_reps = [1 \<mapsto> \<lparr>rp_count = 1, rp_cursor = Some 0\<rparr>, 2 \<mapsto> \<lparr>rp_count = 1, rp_cursor = None\<rparr>],
      cs_next = 3\<rparr>"
  have e: "key_end x0 ?s1 = Some (?e, ?s2)"
    by (simp add: key_end_def DBCursor_new_def new_rep_def ki_make_def DBCursor_copy_def DBCursor_destroy_def set_rep_def)
  have i: "iterating ?it ?e 0 ?s2 todo" using b(2) by (simp add: iterating_def DBCursor_cursor_def)
  have sd: "\<forall>t\<in>set todo. \<exists>v. spot_datum (cs_db ?s2) t v" using spot spot_datum_same [OF b(3)] sp by fastforce
  have ks: "list_all2 (\<lambda>t k. rk (spot_key t) = Inr k) todo (map (\<lambda>t. a (spot_key t)) todo)"
    unfolding list.rel_map using rk sp by (auto intro: list.rel_refl_strong)
  obtain k2 h2 it2 where L: "key_loop rk eq ?it ?e ?s2 [] = Some (a (spot_key t0) # map (\<lambda>t. a (spot_key t)) todo, it2, after 0 k2 h2 ?s2)"
    "ki_cursor it2 = 1" "finished h1 k2 h2"
    using key_loop_delivers [OF i sd ks, of eq "[]"] by auto
  have cl: "ffdb_cursor_close h2 k2 = Some (0, h2)" using L(3) by (simp add: finished_def)
  have d1: "ki_destroy it2 (after 0 k2 h2 ?s2) = Some \<lparr>cs_db = h2, cs_cursors = Map.empty, cs_reps = [2 \<mapsto> \<lparr>rp_count = 1, rp_cursor = None\<rparr>], cs_next = 3\<rparr>"
    using cl L(2) by (simp add: ki_destroy_def DBCursor_destroy_def set_rep_def delete_rep_def close_cursor_def fun_upd_twist)
  have d2: "ki_destroy ?e \<lparr>cs_db = h2, cs_cursors = Map.empty, cs_reps = [2 \<mapsto> \<lparr>rp_count = 1, rp_cursor = None\<rparr>], cs_next = 3\<rparr> =
      Some \<lparr>cs_db = h2, cs_cursors = Map.empty, cs_reps = Map.empty, cs_next = 3\<rparr>"
    by (simp add: ki_destroy_def DBCursor_destroy_def set_rep_def delete_rep_def)
  have "finished h k2 h2" by (rule finished_trans [OF b(3) L(3)])
  then have kp: "kept h2 f" using kept_step [OF assms(1)] by (simp add: finished_def)
  let ?ks = "map spot_key (all_spots Cs)"
  have dist: "distinct ?ks" using t(2) by (simp add: tidy_def)
  have "spot_key t \<in> dom f" if "t \<in> set (all_spots Cs)" for t using spot [OF that] by auto
  then have dom: "set ?ks = dom f" using tidy_complete [OF t(1,2)] by fastforce
  have L1: "key_loop rk eq ?it ?e ?s2 [] = Some (map a ?ks, it2, after 0 k2 h2 ?s2)" using L(1) sp by simp
  show ?thesis
    by (rule exI [of _ ?ks], (rule exI)+, rule conjI, rule b(1), rule conjI, rule e, rule conjI, rule L1, rule conjI, rule dist, rule conjI,
        rule dom, rule conjI, rule d1, rule conjI, rule d2) (simp add: kp)
qed

theorem key_iterator_visits_all_witness:
  "\<exists>h it s1 e s2. ffdb_hash_put wit_db wit_key wit_val 0 = Some (0, h) \<and> key_begin Inr [] (start_state h) = Some (Inr it, s1) \<and>
     key_end [] s1 = Some (e, s2) \<and> map_option fst (key_loop Inr (=) it e s2 []) = Some [[1, 2, 3]]"
proof -
  have "dbt_of [1, 2, 3] = wit_key" "dbt_of [10, 20, 30, 40] = wit_val" by (simp_all add: dbt_of_def wit_key_def wit_val_def)
  then obtain h where h: "ffdb_hash_put wit_db wit_key wit_val 0 = Some (0, h)" "kept h [[1, 2, 3] \<mapsto> [10, 20, 30, 40]]"
    using kept_put [OF wit_db_kept, of "[1, 2, 3]" "[10, 20, 30, 40]" 0] wit_store_room by auto
  obtain ks it s1 e s2 it2 s3 where l: "key_begin Inr [] (start_state h) = Some (Inr it, s1)" "key_end [] s1 = Some (e, s2)"
    "key_loop Inr (=) it e s2 [] = Some (map id ks, it2, s3)" "distinct ks" "set ks = dom [[1, 2, 3] \<mapsto> [10, 20, 30, 40]]"
    using key_iterator_visits_all [OF h(2), of Inr id "[]" "(=)"] by auto
  then have "ks = [[1, 2, 3]]" by (cases ks) (auto simp: subset_singleton_iff)
  then show ?thesis using h(1) l by auto
qed

end
