(* ===== verification/FDB_Update.thy ===== *)
theory FDB_Update
  imports FDB_AllConf FDB_ReadAll FFDB_Replace
begin

text \<open>
  Writing again through the C++ layer: stores in which values are replaced, and changing one
  element of an ensemble (\<open>update\<close> of \<open>src/AllConfStoreDB.h\<close>).
\<close>

section \<open>Stores\<close>

definition store_compact :: "store \<Rightarrow> (mem \<Rightarrow> mem option) \<Rightarrow> bool" where
  "store_compact s f \<longleftrightarrow> (\<exists>h. db_dbh s = Some h \<and> kept_compact h f)"

lemma compact_store [intro]: "kept_compact h f \<Longrightarrow> store_compact (s\<lparr>db_dbh := Some h\<rparr>) f"
  by (simp add: store_compact_def)

lemma store_compact_kept: "store_compact s f \<Longrightarrow> store_kept s f"
  by (auto simp: store_compact_def store_kept_def kept_compact_def)

lemma store_compact_holds: "store_compact s f \<Longrightarrow> store_holds s f"
  by (auto simp: store_compact_def store_holds_def kept_compact_def kept_def)

interpretation write_again: write_store store_compact bin_get bin_put fits "\<lambda>k. length k < 2 ^ 31" store_over
proof
  fix s :: store and f :: "mem \<Rightarrow> mem option" and k v :: mem
  assume s: "store_compact s f" and k: "length k < 2 ^ 31"
  obtain h where h: "db_dbh s = Some h" "kept_compact h f" using s by (auto simp: store_compact_def)
  obtain h1 where h1: "ffdb_hash_get h (dbt_of k) no_buffer =
      Some (case f k of None \<Rightarrow> (FFDB_NOT_FOUND, no_buffer, h1) | Some v \<Rightarrow> (0, buf_of v, h1))" "kept_compact h1 f"
    using compact_get [OF h(2) k] by blast
  then have "bin_get s k = Some (f k, s\<lparr>db_dbh := Some h1\<rparr>)"
    by (cases "f k") (simp_all add: bin_get_def getBinary_def with_handle_def h(1) FDB_Functions.getBinaryData_def FFDB_NOT_FOUND_def)
  then show "\<exists>s1. bin_get s k = Some (f k, s1) \<and> store_compact s1 f" using h1(2) by blast
  have put: "\<exists>s1. bin_put s k v = Some s1 \<and> store_compact s1 (f(k \<mapsto> v))"
    if room: "case f k of None \<Rightarrow> store_room h k v | Some w \<Rightarrow> store_over w v" for v
  proof -
    obtain h2 where h2: "ffdb_hash_put h (dbt_of k) (dbt_of v) 0 = Some (0, h2)" "kept_compact h2 (f(k \<mapsto> v))"
      using compact_put [OF h(2) k room] by blast
    then have "bin_put s k v = Some (s\<lparr>db_dbh := Some h2\<rparr>)"
      by (simp add: bin_put_def insertBinary_def with_handle_def h(1) insertBinaryData_def)
    then show ?thesis using h2(2) by blast
  qed
  show "\<exists>s1. bin_put s k v = Some s1 \<and> store_compact s1 (f(k \<mapsto> v))" if "f k = None" "fits s k v"
    using put [of v] that h(1) by (simp add: fits_def)
  show "\<exists>s1. bin_put s k v = Some s1 \<and> store_compact s1 (f(k \<mapsto> v))" if "f k = Some w" "store_over w v" for w
    using put [of v] that by simp
qed

text \<open>C3: Writing and reading back. After any sequence of insertions into an open store, of new keys
  that fit and of keys that are there with values that are not longer than their old ones,
  \<open>binaryKeysAndData\<close> delivers each key of the store exactly once, with the last value
  that was written for it or the one it had before.\<close>
theorem writes_read_all:
  assumes "store_compact s f" "\<forall>k\<in>fst ` set kvs. length k < 2 ^ 31" "writable fits store_over bin_put s f kvs"
    "f ++ map_of (rev kvs) \<noteq> Map.empty"
  shows "\<exists>s1 all s2. put_all bin_put s kvs = Some s1 \<and> binaryKeysAndData [] s1 = Some ((None, all), s2) \<and>
    distinct (map fst all) \<and> map_of all = f ++ map_of (rev kvs) \<and> store_kept s2 (f ++ map_of (rev kvs))"
proof -
  obtain s1 where s1: "put_all bin_put s kvs = Some s1" "store_compact s1 (f ++ map_of (rev kvs))"
    using write_again.writes_law [OF assms(1-3)] by blast
  then show ?thesis using store_reads_all [OF store_compact_kept [OF s1(2)] assms(4)] by blast
qed

section \<open>One element of an ensemble\<close>

lemma compact_getData_string:
  assumes "kept_compact h f" "wk key = Inr kb" "length kb < 2 ^ 31" "f kb = Some v"
  shows "\<exists>h1. getData_string wk h key d = Some (Inr (0, v), h1) \<and> kept_compact h1 f"
  using compact_get [OF assms(1,3)] assms(2,4) by (auto simp: getData_string_def)

lemma compact_insertData_key:
  assumes "kept_compact h f" "wk key = Inr kb" "length kb < 2 ^ 31" "f kb = Some w" "store_over w v"
  shows "\<exists>h1. insertData_key wk h key v 0 = Some (Inr 0, h1) \<and> kept_compact h1 (f(kb \<mapsto> v))"
  using compact_put [OF assms(1,3), of v] assms(2,4,5) by (auto simp: insertData_key_def insertData_def)

lemma sint_nonneg:
  fixes w :: u32
  assumes "uint w < 2 ^ 31"
  shows "0 \<le> sint w"
proof -
  have "- (2 ^ 31) \<le> uint w" by (rule order_trans [of _ 0]) simp_all
  then have "sint w = uint w" using assms unfolding sint_uint by (intro signed_take_bit_int_eq_self) simp_all
  then show ?thesis by simp
qed

lemma put_element:
  assumes "\<forall>b\<in>set vs. length b = n" "i < length vs" "length tmp = n"
  shows "mem_put (concat vs) (i * n) tmp = concat (vs[i := tmp])"
  using assms(1,2)
proof (induction vs arbitrary: i)
  case (Cons b vs)
  have l: "length (concat vs) = length vs * n" using length_concat_same Cons.prems(1) by auto
  show ?case
  proof (cases i)
    case 0
    then show ?thesis using Cons.prems assms(3) by (simp add: mem_put_def)
  next
    case (Suc j)
    then have IH: "mem_put (concat vs) (j * n) tmp = concat (vs[j := tmp])" using Cons by simp
    have "j * n + n \<le> length vs * n" using Suc Cons.prems(2) mult_le_mono1 [of "Suc j" "length vs" n] by simp
    then show ?thesis using Suc IH l Cons.prems(1) assms(3) by (simp add: mem_put_def add.commute)
  qed
qed simp

text \<open>C8: Updating. In an open store that was not empty when it was opened, let the value of a key be
  one element of \<open>n\<close> bytes for each configuration. \<open>update\<close> with an object that is written
  in \<open>n\<close> bytes and the index of a configuration succeeds, the element of this
  configuration is the new one, and those of the other configurations, and the values of the
  other keys, are the old ones; \<open>getBinaryData\<close> delivers the changed ensemble.\<close>
theorem update_changes_element:
  assumes "store_compact (ac_db a) f" "wk key = Inr kb" "length kb < 2 ^ 31" "f kb = Some (concat vs)" "\<not> ac_empty a"
    "0 < sint (ac_nbin a)" "length vs = unat (ac_nbin a)" "0 < n" "\<forall>b\<in>set vs. length b = n" "ac_bytesize a \<in> {0, n}"
    "wd v = Inr tmp" "length tmp = n" "unat index < length vs"
  shows "\<exists>a1. update_ensemble wk wd dflt key v config index a = Some (Inr 0, a1) \<and>
    store_compact (ac_db a1) (f(kb \<mapsto> concat (vs[unat index := tmp]))) \<and>
    (\<exists>a2. getBinaryData_ensemble kb ws a1 = Some ((0, ws @ vs[unat index := tmp]), a2))"
proof -
  note nb = nbin_size_pos [OF assms(6)]
  let ?i = "unat index" and ?vs = "vs[unat index := tmp]"
  obtain h where h: "db_dbh (ac_db a) = Some h" "kept_compact h f" using assms(1) by (auto simp: store_compact_def)
  obtain h1 where h1: "getData_string wk h key [] = Some (Inr (0, concat vs), h1)" "kept_compact h1 f"
    using compact_getData_string [where wk = wk, OF h(2) assms(2-4)] by blast
  define a1 where "a1 = a\<lparr>ac_db := (ac_db a)\<lparr>db_dbh := Some h1\<rparr>\<rparr>"
  have get: "on_table (\<lambda>h. caught (- 1, []) (getData_string wk h key [])) a = Some (Inr (0, concat vs), a1)"
    using h(1) h1(1) by (simp add: on_table_def on_handle_def a1_def)
  define a2 where "a2 = a1\<lparr>ac_bytesize := n\<rparr>"
  have l: "length (concat vs) = unat (ac_nbin a) * n" using length_concat_same [OF assms(9)] assms(7) by simp
  have "nbin_size a1 = unat (ac_nbin a)" using nb by (simp add: nbin_size_def a1_def)
  moreover have "ac_bytesize a1 \<in> {0, n}" using assms(10) by (simp add: a1_def)
  ultimately have size: "element_size (length (concat vs)) a1 = Some (True, a2)"
    using nb(2) l by (auto simp: element_size_def a2_def)
  have idx: "\<not> sint index < 0"
  proof -
    have "int (unat index) < int (unat (ac_nbin a))" using assms(7,13) by (simp only: of_nat_less_iff)
    also have "\<dots> = sint (ac_nbin a)" by (rule nbin_sint [OF assms(6), symmetric])
    also have "\<dots> < 2 ^ 31" using sint_lt [of "ac_nbin a"] by simp
    finally have "uint index < 2 ^ 31" by simp
    then show ?thesis by (simp add: not_less sint_nonneg)
  qed
  have wr: "mem_write (concat vs) (?i * n) tmp = Some (concat ?vs)"
  proof -
    have "?i * n + n \<le> unat (ac_nbin a) * n" using assms(7,13) mult_le_mono1 [of "Suc ?i" "unat (ac_nbin a)" n] by simp
    then show ?thesis using l put_element [OF assms(9,13,12)] assms(12) by simp
  qed
  have vs': "\<forall>b\<in>set ?vs. length b = n" using assms(9,12) by (auto dest!: subsetD [OF set_update_subset_insert])
  have l': "length (concat ?vs) = unat (ac_nbin a) * n" using length_concat_same [OF vs'] assms(7) by simp
  then have "concat ?vs \<noteq> []" using nb(2) assms(8) by (metis length_greater_0_conv nat_0_less_mult_iff)
  then have "store_over (concat vs) (concat ?vs)" using l l' by (simp add: store_over_def)
  then obtain h2 where h2: "insertData_key wk h1 key (concat ?vs) 0 = Some (Inr 0, h2)" "kept_compact h2 (f(kb \<mapsto> concat ?vs))"
    using compact_insertData_key [where wk = wk, OF h1(2) assms(2-4)] by blast
  define a3 where "a3 = a2\<lparr>ac_db := (ac_db a2)\<lparr>db_dbh := Some h2\<rparr>\<rparr>"
  have put: "on_table (\<lambda>h. caught (- 1) (insertData_key wk h key (concat ?vs) 0)) a2 = Some (Inr 0, a3)"
    using h2(1) by (simp add: on_table_def on_handle_def a3_def a2_def a1_def)
  have b2: "ac_bytesize a2 = n" by (simp add: a2_def)
  have upd: "update_ensemble wk wd dflt key v config index a = Some (Inr 0, a3)"
    using assms(5,11,12) get size b2 idx wr put by (simp add: update_ensemble_def)
  have c: "store_compact (ac_db a3) (f(kb \<mapsto> concat ?vs))" using h2(2) by (simp add: a3_def compact_store)
  have "nbin_size (a3\<lparr>ac_db := s2\<rparr>) = unat (ac_nbin a)" for s2 using nb by (simp add: nbin_size_def a3_def a2_def a1_def)
  then have "element_size (length (concat ?vs)) (a3\<lparr>ac_db := s2\<rparr>) = Some (True, a3\<lparr>ac_db := s2\<rparr>)" for s2
    using nb(2) l' assms(8) by (simp add: element_size_def a3_def b2)
  then obtain s2 where "getBinaryData_ensemble kb ws a3 = Some ((0, ws @ ?vs), a3\<lparr>ac_db := s2\<rparr>)"
    using getBinaryData_ensemble_holds [OF store_compact_holds [OF c] assms(3), of "concat ?vs" ws] elements_concat [OF assms(8) vs']
    by (auto simp: a3_def b2)
  then show ?thesis using upd c by blast
qed

text \<open>The witness store with a value of two elements.\<close>

lemma wit_store_compact: "store_compact wit_store Map.empty"
  using wit_db_compact by (simp add: wit_store_def compact_store)

theorem writes_read_all_witness:
  "\<exists>s1 s2. put_all bin_put wit_store [([1, 2, 3], [10, 20, 30, 40]), ([1, 2, 3], [5, 6])] = Some s1 \<and>
     binaryKeysAndData [] s1 = Some ((None, [([1, 2, 3], [5, 6])]), s2)"
proof -
  let ?kvs = "[([1, 2, 3], [10, 20, 30, 40]), ([1, 2, 3], [5, 6])] :: (mem \<times> mem) list"
  have "fits wit_store [1, 2, 3] [10, 20, 30, 40]" by (rule wit_store_fits) simp_all
  then have "writable fits store_over bin_put wit_store Map.empty ?kvs" by (simp add: store_over_def split: option.split)
  then obtain s1 all s2 where a: "put_all bin_put wit_store ?kvs = Some s1" "binaryKeysAndData [] s1 = Some ((None, all), s2)"
    "distinct (map fst all)" "map_of all = map_of [([1, 2, 3], [5, 6])]"
    using writes_read_all [OF wit_store_compact, of ?kvs] by (simp del: put_all.simps) blast
  have "set all = set [([1, 2, 3], [5, 6])]" using map_of_inject_set [of all "[([1, 2, 3], [5, 6])]"] a(3,4) by simp
  moreover have "distinct all" using a(3) by (simp add: distinct_map)
  ultimately have "all = [([1, 2, 3], [5, 6])]" by (cases all) (auto simp: subset_singleton_iff)
  then show ?thesis using a(1,2) by blast
qed

theorem update_changes_element_witness:
  "\<exists>h a1 a2. ffdb_hash_put wit_db (dbt_of [1, 2, 3]) (dbt_of [10, 20, 30, 40]) 0 = Some (0, h) \<and>
     update_ensemble Inr Inr [] [1, 2, 3] [5, 6] 0 1 (wit_allconf\<lparr>ac_db := wit_store\<lparr>db_dbh := Some h\<rparr>, ac_empty := False\<rparr>) = Some (Inr 0, a1) \<and>
     getBinaryData_ensemble [1, 2, 3] [] a1 = Some ((0, [[10, 20], [5, 6]]), a2)"
proof -
  obtain h where h: "ffdb_hash_put wit_db (dbt_of [1, 2, 3]) (dbt_of [10, 20, 30, 40]) 0 = Some (0, h)"
    "kept_compact h [[1, 2, 3] \<mapsto> [10, 20, 30, 40]]" by (rule wit_db_put)
  let ?a = "wit_allconf\<lparr>ac_db := wit_store\<lparr>db_dbh := Some h\<rparr>, ac_empty := False\<rparr>"
  have f: "store_compact (ac_db ?a) [[1, 2, 3] \<mapsto> [10, 20, 30, 40]]" "ac_nbin ?a = 2" "ac_bytesize ?a = 0" "\<not> ac_empty ?a"
    using h(2) by (simp_all add: compact_store wit_allconf_fields)
  have "\<exists>a1. update_ensemble Inr Inr [] [1, 2, 3] [5, 6] 0 1 ?a = Some (Inr 0, a1) \<and>
      store_compact (ac_db a1) ([[1, 2, 3] \<mapsto> [10, 20, 30, 40]]([1, 2, 3] \<mapsto> concat ([[10, 20], [30, 40]][unat (1 :: u32) := [5, 6]]))) \<and>
      (\<exists>a2. getBinaryData_ensemble [1, 2, 3] [] a1 = Some ((0, [] @ [[10, 20], [30, 40]][unat (1 :: u32) := [5, 6]]), a2))"
    by (rule update_changes_element [OF f(1), where n = 2]) (use f in simp_all)
  then show ?thesis using h(1) by auto
qed

end
