(* ===== verification/FFDB_Split.thy ===== *)
theory FFDB_Split
  imports FFDB_Replace
begin

text \<open>
  Splitting a bucket (\<open>_ffdb_split_bucket\<close>): the pairs of a bucket of one page are written
  again, each on the page of the bucket it now belongs to, and the headers of their data are
  pointed to the new places. The table keeps its map.
\<close>

section \<open>Packed pages\<close>

text \<open>
  Pairs are packed from the end of a page, each with its data pointer on a 4-byte boundary.
  What a pair takes then depends on its key only, so that any part of the pairs of a page
  fits on another page in the same order.
\<close>

definition pair_room :: "nat \<Rightarrow> nat" where
  "pair_room k = (k + 3) div 4 * 4 + 16"

definition keys_room :: "mem list \<Rightarrow> nat" where
  "keys_room ks = sum_list (map (\<lambda>k. pair_room (length k)) ks)"

definition packed :: "mem \<Rightarrow> bool" where
  "packed p \<longleftrightarrow> 4 dvd length p \<and> page_top p + keys_room (page_keys p) = length p \<and>
     (\<forall>i < page_num p. pair_pos i + length (page_keys p ! i) + 31 + keys_room (take i (page_keys p)) \<le> length p)"

lemma keys_room_simps [simp]: "keys_room [] = 0" "keys_room (ks @ [k]) = keys_room ks + pair_room (length k)"
  by (simp_all add: keys_room_def)

lemma keys_room_dvd [simp]: "4 dvd keys_room ks"
  by (induction ks) (simp_all add: keys_room_def pair_room_def)

lemma keys_room_filter: "keys_room (filter P ks) \<le> keys_room ks"
  by (induction ks) (simp_all add: keys_room_def)

lemma packed_content [simp]: "bucket_wf p \<Longrightarrow> packed (page_content p) = packed p"
  by (simp add: packed_def)

lemma packed_fits:
  assumes p: "packed p" "i < page_num p" and q: "packed q" "bucket_wf q" "length q = length p"
    and k: "page_keys q = filter P (take i (page_keys p))" "length (page_keys p ! i) < 2 ^ 32"
  shows "PAIRFITS q (length (page_keys p ! i))"
proof -
  have num: "page_num q \<le> i"
    using arg_cong [OF k(1), of length] length_filter_le [of P "take i (page_keys p)"] by simp
  have "pair_pos i + length (page_keys p ! i) + 31 + keys_room (take i (page_keys p)) \<le> length p"
    using p by (simp add: packed_def)
  moreover have "keys_room (page_keys q) \<le> keys_room (take i (page_keys p))" unfolding k(1) by (rule keys_room_filter)
  moreover have "pair_pos (page_num q) \<le> pair_pos i" using num by (simp add: pair_pos_def)
  moreover have "page_top q + keys_room (page_keys q) = length p" using q by (simp add: packed_def)
  ultimately show ?thesis using PAIRFITS_nat [OF q(2) k(2)] by simp
qed

lemma aligned_below:
  fixes t k :: nat
  assumes "4 dvd t" "k + 31 \<le> t"
  shows "t - k - 16 - (t - k - 16) mod 4 + pair_room k = t"
proof -
  obtain j where j: "t = 4 * j" using assms(1) by auto
  define m r where "m = k div 4" and "r = k mod 4"
  have k: "k = 4 * m + r" "r < 4" by (simp_all add: m_def r_def)
  then have up: "(k + 3) div 4 = (if r = 0 then m else m + 1)" by auto
  have "m + 5 \<le> j" using assms(2) j k by auto
  then obtain l where l: "j = l + m + 5" using le_Suc_ex by (metis add.commute add.assoc)
  have "t - k - 16 = 4 * l + (4 - r)" using j k l by simp
  moreover have "(4 * l + (4 - r)) mod 4 = (if r = 0 then 0 else 4 - r)"
  proof -
    consider "r = 0" | "r = 1" | "r = 2" | "r = 3" using k(2) by linarith
    then show ?thesis by cases (simp_all, presburger?)
  qed
  ultimately show ?thesis using j k l up by (auto simp: pair_room_def)
qed

text \<open>Writing a pair, with the free part of the page and the page in between.\<close>

lemma write_pair_packed:
  assumes wf: "bucket_wf p" and fits: "PAIRFITS p (dt_size key)" and k: "dt_size key < 2 ^ 32" and ok: "dbt_ok key"
  shows "\<exists>p1 p2 off. write_key p key = Some (p1, off) \<and> write_datap p1 (NUM_ENT p) off d = Some p2 \<and> length p2 = length p \<and>
    (let q = commit_pair (NUM_ENT p) off p2
     in bucket_wf q \<and> length q = length p \<and> page_pairs q = page_pairs p @ [(dbt_bytes key, d)] \<and>
        CURR_PGNO q = CURR_PGNO p \<and> NEXT_PGNO q = NEXT_PGNO p \<and> PAGE_SIGN q = PAGE_SIGN p \<and> PTYPE q = PTYPE p \<and>
        (packed p \<longrightarrow> packed q))"
proof -
  obtain p1 p2 off aoff where w: "write_key p key = Some (p1, aoff)" "write_datap p1 (NUM_ENT p) aoff d = Some p2"
    "commit_pair (NUM_ENT p) aoff p2 = pair_written p key d off aoff"
    "off = OFFSET p - of_nat (dt_size key) + 1" "aoff = ALIGN_DATAP_OFFSET_VAL (off - of_nat SIZEOF_DATAP)"
    using write_pair_eq [OF assms] by blast
  obtain p1' p2' off' where A: "write_key p key = Some (p1', off')" "write_datap p1' (NUM_ENT p) off' d = Some p2'"
    "let q = commit_pair (NUM_ENT p) off' p2'
     in bucket_wf q \<and> length q = length p \<and> page_pairs q = page_pairs p @ [(dbt_bytes key, d)] \<and>
        CURR_PGNO q = CURR_PGNO p \<and> PREV_PGNO q = PREV_PGNO p \<and> NEXT_PGNO q = NEXT_PGNO p \<and>
        PAGE_SIGN q = PAGE_SIGN p \<and> PTYPE q = PTYPE p"
    using write_pair_aux [OF assms, of d] by blast
  have same: "p1' = p1" "off' = aoff" "p2' = p2" using A(1,2) w(1,2) by simp_all
  define q where "q = commit_pair (NUM_ENT p) aoff p2"
  have Q: "bucket_wf q" "length q = length p" "page_pairs q = page_pairs p @ [(dbt_bytes key, d)]" "CURR_PGNO q = CURR_PGNO p"
    "NEXT_PGNO q = NEXT_PGNO p" "PAGE_SIGN q = PAGE_SIGN p" "PTYPE q = PTYPE p"
    using A(3) by (simp_all add: same q_def Let_def)
  note R = pair_written_reads(2,3) [OF assms, where d = d, folded w(4), folded w(5), folded w(3), folded q_def]
  note P = pair_places [OF wf fits k, folded w(4), folded w(5)]
  have f: "dt_size key + 31 \<le> page_top p - pair_pos (page_num p)" using fits PAIRFITS_nat [OF wf k] by simp
  have len: "length (dbt_bytes key) = dt_size key" using ok by (simp add: dbt_ok_def dbt_bytes_def)
  have "packed q" if pk: "packed p"
  proof -
    have t: "4 dvd length p" "page_top p + keys_room (page_keys p) = length p" using pk by (simp_all add: packed_def)
    then have "4 dvd page_top p" by (metis dvd_add_left_iff keys_room_dvd)
    moreover have "unat aoff = page_top p - dt_size key - 16 - (page_top p - dt_size key - 16) mod 4"
    proof -
      have "unat (off - of_nat SIZEOF_DATAP) = page_top p - dt_size key - 16"
        using P(1) f by (subst unat_sub) (simp_all add: word_le_nat_alt ffdb_consts)
      then show ?thesis by (simp add: w(5) align_down)
    qed
    ultimately have top: "page_top q + pair_room (dt_size key) = page_top p"
      using aligned_below [of "page_top p" "dt_size key"] f R(2) by simp
    have ks: "page_keys q = page_keys p @ [dbt_bytes key]" using Q(3) by (simp add: page_keys_def)
    have "pair_pos i + length (page_keys q ! i) + 31 + keys_room (take i (page_keys q)) \<le> length q" if i: "i < page_num q" for i
    proof (cases "i < page_num p")
      case True
      then show ?thesis using pk Q(2) by (simp add: packed_def ks nth_append)
    next
      case False
      then have "i = page_num p" using i R(1) by simp
      then show ?thesis using f t Q(2) len by (simp add: ks nth_append)
    qed
    then show ?thesis using t top Q(2) len by (simp add: packed_def ks)
  qed
  moreover have "length p2 = length p"
    using Q(2) by (simp add: q_def commit_pair_def page_fields)
  ultimately show ?thesis using w(1,2) Q by (intro exI [of _ p1] exI [of _ p2] exI [of _ aoff]) (simp add: q_def Let_def)
qed

section \<open>Moving a pair\<close>

text \<open>The data page with the header at \<open>roff\<close> pointed to another place.\<close>

definition moved_page :: "nat \<Rightarrow> pgno \<Rightarrow> u32 \<Rightarrow> mem \<Rightarrow> mem" where
  "moved_page roff kp ki m = page_over roff ((rd_data_header m roff)\<lparr>dh_key_page := kp, dh_key_idx := ki\<rparr>) [] m"

lemma page_over_Nil: "page_over roff dh [] m = mem_put m roff (data_header_bytes dh)"
  by (simp add: page_over_def mem_put_def [of _ "roff + 20" "[]"])

lemma moved_page_props:
  assumes r: "32 \<le> roff" "roff + 20 \<le> length m"
  shows "length (moved_page roff kp ki m) = length m" "CURR_PGNO (moved_page roff kp ki m) = CURR_PGNO m"
    "NEXT_PGNO (moved_page roff kp ki m) = NEXT_PGNO m" "PTYPE (moved_page roff kp ki m) = PTYPE m"
    "NUM_ENT (moved_page roff kp ki m) = NUM_ENT m" "OFFSET (moved_page roff kp ki m) = OFFSET m"
    "PAGE_SIGN (moved_page roff kp ki m) = PAGE_SIGN m"
    "rd_data_header (moved_page roff kp ki m) roff = (rd_data_header m roff)\<lparr>dh_key_page := kp, dh_key_idx := ki\<rparr>"
    "a < roff \<or> roff + 20 \<le> a \<Longrightarrow> moved_page roff kp ki m ! a = m ! a"
  using page_over_props(1-8,10) [of roff "[]" m] r by (simp_all add: moved_page_def)

lemma datum_moved:
  assumes d: "datum h V it d ns v" and one: "unat (datap_roff h d) + BIG_DATA_OVERHEAD + datap_len h d \<le> bsz h"
    and p: "V (dp_first d) = Some (page_content m)" "length m = bsz h"
    and W: "W (dp_first d) = Some (page_content (moved_page (unat (datap_roff h d)) kp ki m))"
    and it: "it_pgno it' = kp" "ucast (it_pgndx it') = ki"
  shows "datum h W it' d [] v"
proof -
  let ?o = "unat (datap_roff h d)"
  let ?q = "moved_page ?o kp ki m"
  have a: "dp_first d \<noteq> INVALID_PGNO" "CURR_PGNO m = dp_first d" "1 \<le> NUM_ENT m" "32 \<le> ?o"
    "data_header_ok h it d (rd_data_header (page_content m) ?o)" "PTYPE m = ucast HASH_DATA_PAGE"
    "data_from V (bsz h) (page_content m) (?o + BIG_DATA_OVERHEAD) (datap_len h d) = Some (ns, v)"
    "0 < datap_len h d" "ffdb_crc32_checksum 0 v = dp_chksum d"
    using d p(1) by (auto simp: datum_def ffdb_consts)
  have f: "?o + 20 \<le> length m" using one p(2) by (simp add: BIG_DATA_OVERHEAD_def)
  note P = moved_page_props [OF a(4) f, where kp = kp and ki = ki]
  have hc: "rd_data_header (page_content x) ?o = rd_data_header x ?o" for x
    using a(4) by (simp add: rd_data_header_def content_rd32)
  have "mem_get ?q (?o + 20) (datap_len h d) = mem_get m (?o + 20) (datap_len h d)"
    by (rule mem_get_eq) (use P(1,9) in simp_all)
  then have body: "mem_get (page_content ?q) (?o + BIG_DATA_OVERHEAD) (datap_len h d) = v"
    using a(4,7) one by (simp add: content_get data_from.simps [of V] BIG_DATA_OVERHEAD_def)
  have df: "data_from W (bsz h) (page_content ?q) (?o + BIG_DATA_OVERHEAD) (datap_len h d) = Some ([], v)"
    using one body by (subst data_from.simps) simp
  have "data_header_ok h it' d (rd_data_header (page_content ?q) ?o)"
    using a(5) P(8) it by (simp add: hc data_header_ok_def)
  then show ?thesis
    unfolding datum_def using a W P one df
    by (intro exI [of _ "page_content ?q"]) (simp add: ffdb_consts)
qed

text \<open>What is written when a pair is moved to page \<open>n\<close> with content \<open>c\<close>.\<close>

definition move_effect :: "htab \<Rightarrow> pgno \<Rightarrow> mem \<Rightarrow> mem \<Rightarrow> datap \<Rightarrow> htab \<Rightarrow> bool" where
  "move_effect h n c kb d h' \<longleftrightarrow> tsession h' {} \<and> theld h' = Map.empty \<and> pool_step h h' \<and>
     (\<exists>q dm. tview h (dp_first d) = Some (page_content dm) \<and> length dm = bsz h \<and>
        tview h' = (tview h)(dp_first d \<mapsto> page_content (moved_page (unat (datap_roff h d)) n (ucast (NUM_ENT c)) dm), n \<mapsto> q) \<and>
        bucket_wf q \<and> length q = length c \<and> page_pairs q = page_pairs c @ [(kb, d)] \<and> CURR_PGNO q = CURR_PGNO c \<and>
        NEXT_PGNO q = NEXT_PGNO c \<and> PTYPE q = PTYPE c \<and> (packed c \<longrightarrow> packed q))"

lemma update_info:
  assumes s: "tsession h M" and D: "datum h (tview h) it d ns v" and fr: "\<And>b m. theld h b \<noteq> Some (dp_first d, m)"
  shows "\<exists>dm h'. ffdb_update_data_info h d kp ki = Some (0, h') \<and> tsession h' M \<and> theld h' = theld h \<and> pool_step h h' \<and>
    tview h (dp_first d) = Some (page_content dm) \<and> length dm = bsz h \<and>
    tview h' = (tview h)(dp_first d \<mapsto> page_content (moved_page (unat (datap_roff h d)) kp ki dm))"
proof -
  let ?D = "dp_first d" and ?o = "unat (datap_roff h d)"
  obtain p where p: "?D \<noteq> INVALID_PGNO" "tview h ?D = Some p" "32 \<le> ?o" "?o + 20 \<le> bsz h"
    using D by (auto simp: datum_def ffdb_consts)
  have D1: "?D \<noteq> - 1" using p(1) by (simp add: INVALID_minus)
  obtain c dm A where A: "ffdb_get_page h ?D HASH_DATA_PAGE 0 = Some (Some c, ?D, A)" "theld h c = None"
    "theld A = (theld h)(c \<mapsto> (?D, dm))" "page_content dm = p" "page_good (hdr h) dm" "tview A = tview h"
    "tsession A M" "pool_step h A"
    by (rule get_page_session [OF s D1 fr p(2), where flags = 0 and addrtype = HASH_DATA_PAGE and addr = ?D])
       (auto simp: ffdb_consts)
  note FA = pool_step_fields [OF A(8)]
  have ldm: "length dm = bsz h" using A(5) by (simp add: page_good_def bsz_def)
  have hA: "theld A c = Some (?D, dm)" using A(3) by simp
  let ?q = "moved_page ?o kp ki dm"
  note P = moved_page_props [OF p(3), of dm, unfolded ldm, OF p(4), where kp = kp and ki = ki]
  have "length ((\<lambda>_. ?q) dm) = unat (h_bsize (hdr A))" using P(1) by (simp add: FA bsz_def)
  note B = poke_session [OF A(7) hA, of "\<lambda>_. ?q", OF this]
  have gB: "page_good (hdr (poke c (\<lambda>_. ?q) A)) ?q"
    using A(5) P(1,7) ldm by (simp add: page_good_def poke_def FA)
  have hB: "theld (poke c (\<lambda>_. ?q) A) c = Some (?D, ?q)" using B(2) by simp
  obtain E where E: "ffdb_put_page (poke c (\<lambda>_. ?q) A) c True = Some (0, E)" "tsession E (insert c M - {c})"
    "theld E = (theld (poke c (\<lambda>_. ?q) A))(c := None)" "tview E = tview (poke c (\<lambda>_. ?q) A)" "pool_step (poke c (\<lambda>_. ?q) A) E"
    by (rule put_page_session [OF B(1) hB gB, of True]) simp_all
  have cM: "c \<notin> M" using s A(2) by (auto simp: tsession_def native.session_def native.settled_def)
  have ro: "datap_roff A = datap_roff h" by (simp add: fun_eq_iff datap_roff_def after_v5_def FA)
  have h1: "BIG_DATA_HEADER dm ?o = Some (rd_data_header dm ?o)" using p(4) ldm by (simp add: BIG_DATA_HEADER_def ffdb_consts)
  have w: "mem_write dm ?o (data_header_bytes ((rd_data_header dm ?o)\<lparr>dh_key_page := kp, dh_key_idx := ki\<rparr>)) = Some ?q"
    using p(4) ldm by (simp add: moved_page_def page_over_Nil)
  have "ffdb_update_data_info h d kp ki = Some (0, E)"
    using A(1) theld_page [OF hA] h1 w E(1) by (simp add: ffdb_update_data_info_def Let_def ro)
  moreover have "theld E = theld h" using E(3) B(2) A(2,3) by (auto simp: fun_eq_iff)
  moreover have "tview E = (tview h)(?D \<mapsto> page_content ?q)" using E(4) B(3) A(6) by simp
  moreover have "pool_step h E" by (rule pool_step_trans [OF pool_step_trans [OF A(8) B(4)] E(5)])
  moreover have "tsession E M" using E(2) cM by (simp add: insert_Diff_if)
  ultimately show ?thesis using A(4) p(2) ldm by (intro exI [of _ dm] exI [of _ E]) simp
qed

text \<open>A page that holds no data may change.\<close>

lemma same_at_other:
  assumes "\<And>q. V n = Some q \<Longrightarrow> PTYPE q \<noteq> ucast HASH_DATA_PAGE"
  shows "same_at F V (V(n := x))"
  unfolding same_at_def using assms by auto

lemma add_key_datap:
  assumes s: "tsession h {}" "theld h = Map.empty" and n: "BUCKET_TO_PAGE (hdr h) B = Some n" "n \<noteq> INVALID_PGNO" "n \<noteq> 0" "known (mp h) n"
    and c: "tview h n = Some c" "CURR_PGNO c = n" "bucket_wf c" "PTYPE c = ucast HASH_BUCKET_PAGE" "PAIRFITS c (dt_size key)"
    and key: "dbt_ok key" "dt_size key < 2 ^ 32" and d: "datum h (tview h) it d ns v"
  shows "\<exists>h'. ffdb_add_key_datap_to_bucket h key d B = Some (0, h') \<and> move_effect h n c (dbt_bytes key) d h'"
proof -
  let ?D = "dp_first d" and ?kb = "dbt_bytes key"
  obtain p where p: "tview h ?D = Some p" "PTYPE p = ucast HASH_DATA_PAGE" using d by (auto simp: datum_def)
  have nD: "n \<noteq> ?D" using p c(1,4) by (auto simp: ffdb_consts)
  have n1: "n \<noteq> - 1" using n(2) by (simp add: INVALID_minus)
  obtain b m A where A: "ffdb_get_page h B HASH_BUCKET_PAGE FFDB_CREATE = Some (Some b, n, A)" "theld h b = None"
    "theld A = (theld h)(b \<mapsto> (n, m))" "page_content m = c" "page_good (hdr h) m" "tview A = tview h"
    "tsession A {}" "pool_step h A"
    by (rule get_page_session [OF s(1) n1 _ c(1), where flags = FFDB_CREATE and addrtype = HASH_BUCKET_PAGE and addr = B])
       (use s(2) n c(2) in auto)
  note FA = pool_step_fields [OF A(8)]
  have hA: "theld A b = Some (n, m)" using A(3) by simp
  have m: "bucket_wf m" "PAIRFITS m (dt_size key)" "length m = bsz h" "NUM_ENT m = NUM_ENT c" "page_pairs m = page_pairs c"
    "CURR_PGNO m = CURR_PGNO c" "NEXT_PGNO m = NEXT_PGNO c" "PTYPE m = PTYPE c" "length m = length c" "packed c \<longleftrightarrow> packed m"
    using c(3,5) A(4,5) by (auto simp: page_good_def bsz_def PAIRFITS_def FREESPACE_def)
  obtain p1 p2 off where W: "write_key m key = Some (p1, off)" "write_datap p1 (NUM_ENT m) off d = Some p2" "length p2 = length m"
    "let q = commit_pair (NUM_ENT m) off p2
     in bucket_wf q \<and> length q = length m \<and> page_pairs q = page_pairs m @ [(?kb, d)] \<and>
        CURR_PGNO q = CURR_PGNO m \<and> NEXT_PGNO q = NEXT_PGNO m \<and> PAGE_SIGN q = PAGE_SIGN m \<and> PTYPE q = PTYPE m \<and>
        (packed m \<longrightarrow> packed q)"
    using write_pair_packed [OF m(1,2) key(2,1), of d] by blast
  define q where "q = commit_pair (NUM_ENT m) off p2"
  have q: "bucket_wf q" "length q = length m" "page_pairs q = page_pairs m @ [(?kb, d)]" "CURR_PGNO q = CURR_PGNO m"
    "NEXT_PGNO q = NEXT_PGNO m" "PAGE_SIGN q = PAGE_SIGN m" "PTYPE q = PTYPE m" "packed m \<longrightarrow> packed q"
    using W(4) by (simp_all add: q_def Let_def)
  let ?P = "poke b (\<lambda>_. p2) A"
  have "length ((\<lambda>_. p2) m) = unat (h_bsize (hdr A))" using W(3) m(3) by (simp add: FA bsz_def)
  note P = poke_session [OF A(7) hA, of "\<lambda>_. p2", OF this]
  have stP: "pool_step h ?P" by (rule pool_step_trans [OF A(8) P(4)])
  note FP = pool_step_fields [OF stP]
  have "same_at UNIV (tview h) (tview ?P)"
    unfolding P(3) A(6) by (rule same_at_other) (use c(1,4) in \<open>auto simp: ffdb_consts\<close>)
  then have "datum h (tview ?P) it d ns v" using datum_frame [OF d] by blast
  then have dP: "datum ?P (tview ?P) it d ns v" using datum_same(1) [of ?P h] FP by simp
  have fr: "theld ?P b' \<noteq> Some (?D, m')" for b' m' using P(2) A(3) s(2) nD by auto
  obtain dm S where S: "ffdb_update_data_info ?P d n (ucast (NUM_ENT m)) = Some (0, S)" "tsession S {b}" "theld S = theld ?P"
    "pool_step ?P S" "tview ?P ?D = Some (page_content dm)" "length dm = bsz ?P"
    "tview S = (tview ?P)(?D \<mapsto> page_content (moved_page (unat (datap_roff ?P d)) n (ucast (NUM_ENT m)) dm))"
    using update_info [OF P(1) dP fr] by blast
  have stS: "pool_step h S" by (rule pool_step_trans [OF stP S(4)])
  note FS = pool_step_fields [OF stS]
  have hS: "theld S b = Some (n, p2)" using S(3) P(2) by simp
  have "length ((\<lambda>_. q) p2) = unat (h_bsize (hdr S))" using q(2) m(3) by (simp add: FS bsz_def)
  note Q = poke_session [OF S(2) hS, of "\<lambda>_. q", OF this]
  have gq: "page_good (hdr (poke b (\<lambda>_. q) S)) q" using A(5) q(2,6) m(3) by (simp add: page_good_def poke_def FS)
  have hQ: "theld (poke b (\<lambda>_. q) S) b = Some (n, q)" using Q(2) by simp
  obtain E where E: "ffdb_put_page (poke b (\<lambda>_. q) S) b True = Some (0, E)" "tsession E (insert b {b} - {b})"
    "theld E = (theld (poke b (\<lambda>_. q) S))(b := None)" "tview E = tview (poke b (\<lambda>_. q) S)" "pool_step (poke b (\<lambda>_. q) S) E"
    by (rule put_page_session [OF Q(1) hQ gq, of True]) simp_all
  have pk: "poke b (commit_pair (NUM_ENT m) off) S = poke b (\<lambda>_. q) S"
  proof -
    obtain bp where "bkts (mp S) b = Some bp" "b_page bp = p2" using heldD(5) [OF hS] by auto
    then show ?thesis by (cases bp) (simp add: poke_def q_def upd_bkt_def)
  qed
  have "ffdb_write_key_datap_to_page A key d b n = Some (0, poke b (\<lambda>_. q) S)"
    using theld_page [OF hA] W(1,2) S(1) pk by (simp add: ffdb_write_key_datap_to_page_def)
  then have "bucket_room A key d b n = Some (Written E)"
    using theld_page [OF hA] m(2) E(1) by (subst bucket_room.simps) simp
  then have "ffdb_add_key_datap_to_bucket h key d B = Some (0, E)"
    using A(1) by (simp add: ffdb_add_key_datap_to_bucket_def)
  moreover have "move_effect h n c ?kb d E"
    unfolding move_effect_def
  proof (rule conjI, use E(2) in simp, rule conjI, use E(3) Q(2) S(3) P(2) A(3) s(2) in \<open>simp add: fun_eq_iff\<close>, rule conjI,
      rule pool_step_trans [OF pool_step_trans [OF stS Q(4)] E(5)], rule exI [of _ "page_content q"], rule exI [of _ dm], intro conjI)
    have ro: "datap_roff ?P = datap_roff h" by (simp add: fun_eq_iff datap_roff_def after_v5_def FP)
    show "tview E = (tview h)(?D \<mapsto> page_content (moved_page (unat (datap_roff h d)) n (ucast (NUM_ENT c)) dm), n \<mapsto> page_content q)"
      using E(4) Q(3) S(7) P(3) A(6) nD m(4) by (simp add: fun_eq_iff ro)
    show "tview h ?D = Some (page_content dm)" using S(5) P(3) A(6) nD by simp
    show "length dm = bsz h" using S(6) by (simp add: bsz_def FP)
    show "packed c \<longrightarrow> packed (page_content q)" using q(1,8) m(10) by simp
  qed (use q m in simp_all)
  ultimately show ?thesis by blast
qed

section \<open>The loop over the pairs\<close>

text \<open>The places of a datum that lies on one page, and those of its header.\<close>

definition span :: "htab \<Rightarrow> datap \<Rightarrow> places" where
  "span h d = {dp_first d} \<times> {unat (datap_roff h d)..<unat (datap_roff h d) + BIG_DATA_OVERHEAD + datap_len h d}"

definition header_span :: "htab \<Rightarrow> datap \<Rightarrow> places" where
  "header_span h d = {dp_first d} \<times> {unat (datap_roff h d)..<unat (datap_roff h d) + BIG_DATA_OVERHEAD}"

definition small_datum :: "htab \<Rightarrow> datap \<Rightarrow> bool" where
  "small_datum h d \<longleftrightarrow> unat (datap_roff h d) + BIG_DATA_OVERHEAD + datap_len h d \<le> bsz h"

lemma header_in_span: "header_span h d \<subseteq> span h d"
  by (auto simp: header_span_def span_def)

lemma small_foot:
  assumes "datum h V it d ns v" "small_datum h d"
  shows "datum_foot h V d = span h d"
proof -
  obtain p where "V (dp_first d) = Some p" using assms(1) by (auto simp: datum_def)
  then show ?thesis unfolding span_def using assms(2) by (intro foot_one_page) (simp_all add: small_datum_def)
qed

lemma same_at_trans:
  assumes "same_at F V W" "same_at F W X"
  shows "same_at F V X"
  unfolding same_at_def
proof (intro allI impI)
  fix k p assume p: "V k = Some p" "PTYPE p = ucast HASH_DATA_PAGE"
  obtain q where q: "W k = Some q" "length q = length p" "CURR_PGNO q = CURR_PGNO p" "NEXT_PGNO q = NEXT_PGNO p"
    "PTYPE q = PTYPE p" "1 \<le> NUM_ENT p \<longrightarrow> 1 \<le> NUM_ENT q" "\<And>a. (k, a) \<in> F \<Longrightarrow> a < length p \<Longrightarrow> q ! a = p ! a"
    by (rule same_atD [OF assms(1) p]) (rule that)
  have t: "PTYPE q = ucast HASH_DATA_PAGE" using q(5) p(2) by simp
  obtain r where r: "X k = Some r" "length r = length q" "CURR_PGNO r = CURR_PGNO q" "NEXT_PGNO r = NEXT_PGNO q"
    "PTYPE r = PTYPE q" "1 \<le> NUM_ENT q \<longrightarrow> 1 \<le> NUM_ENT r" "\<And>a. (k, a) \<in> F \<Longrightarrow> a < length q \<Longrightarrow> r ! a = q ! a"
    by (rule same_atD [OF assms(2) q(1) t]) (rule that)
  show "\<exists>r. X k = Some r \<and> length r = length p \<and> CURR_PGNO r = CURR_PGNO p \<and> NEXT_PGNO r = NEXT_PGNO p \<and>
      PTYPE r = PTYPE p \<and> (1 \<le> NUM_ENT p \<longrightarrow> 1 \<le> NUM_ENT r) \<and> (\<forall>a. (k, a) \<in> F \<longrightarrow> a < length p \<longrightarrow> r ! a = p ! a)"
    using q r by (intro exI [of _ r]) simp
qed

lemma same_at_mono:
  assumes "same_at F V W" "G \<subseteq> F"
  shows "same_at G V W"
  unfolding same_at_def
proof (intro allI impI)
  fix k p assume p: "V k = Some p" "PTYPE p = ucast HASH_DATA_PAGE"
  obtain q where q: "W k = Some q" "length q = length p" "CURR_PGNO q = CURR_PGNO p" "NEXT_PGNO q = NEXT_PGNO p"
    "PTYPE q = PTYPE p" "1 \<le> NUM_ENT p \<longrightarrow> 1 \<le> NUM_ENT q" "\<And>a. (k, a) \<in> F \<Longrightarrow> a < length p \<Longrightarrow> q ! a = p ! a"
    by (rule same_atD [OF assms(1) p]) (rule that)
  then show "\<exists>q. W k = Some q \<and> length q = length p \<and> CURR_PGNO q = CURR_PGNO p \<and> NEXT_PGNO q = NEXT_PGNO p \<and>
      PTYPE q = PTYPE p \<and> (1 \<le> NUM_ENT p \<longrightarrow> 1 \<le> NUM_ENT q) \<and> (\<forall>a. (k, a) \<in> G \<longrightarrow> a < length p \<longrightarrow> q ! a = p ! a)"
    using assms(2) by (intro exI [of _ q]) auto
qed

lemma moved_same_at:
  assumes e: "move_effect h n c kb d h'" and d: "datum h (tview h) it d ns v" "small_datum h d"
    and c: "tview h n = Some c" "PTYPE c = ucast HASH_BUCKET_PAGE"
  shows "same_at (- header_span h d) (tview h) (tview h')" "n \<noteq> dp_first d"
proof -
  let ?D = "dp_first d" and ?o = "unat (datap_roff h d)"
  obtain q dm where E: "tview h ?D = Some (page_content dm)" "length dm = bsz h"
    "tview h' = (tview h)(?D \<mapsto> page_content (moved_page ?o n (ucast (NUM_ENT c)) dm), n \<mapsto> q)"
    using e by (auto simp: move_effect_def)
  obtain p where p: "tview h ?D = Some p" "PTYPE p = ucast HASH_DATA_PAGE" "32 \<le> ?o"
    using d(1) by (auto simp: datum_def ffdb_consts)
  show nD: "n \<noteq> ?D" using p c by (auto simp: ffdb_consts)
  have f: "?o + 20 \<le> length dm" using d(2) E(2) by (simp add: small_datum_def BIG_DATA_OVERHEAD_def)
  note P = moved_page_props [OF p(3) f, where kp = n and ki = "ucast (NUM_ENT c)"]
  show "same_at (- header_span h d) (tview h) (tview h')"
    unfolding same_at_def
  proof (intro allI impI)
    fix k r assume r: "tview h k = Some r" "PTYPE r = ucast HASH_DATA_PAGE"
    then have kn: "k \<noteq> n" using c by (auto simp: ffdb_consts)
    show "\<exists>q. tview h' k = Some q \<and> length q = length r \<and> CURR_PGNO q = CURR_PGNO r \<and> NEXT_PGNO q = NEXT_PGNO r \<and>
        PTYPE q = PTYPE r \<and> (1 \<le> NUM_ENT r \<longrightarrow> 1 \<le> NUM_ENT q) \<and>
        (\<forall>a. (k, a) \<in> - header_span h d \<longrightarrow> a < length r \<longrightarrow> q ! a = r ! a)"
    proof (cases "k = ?D")
      case True
      then have rd: "r = page_content dm" using r(1) E(1) by simp
      have "page_content (moved_page ?o n (ucast (NUM_ENT c)) dm) ! a = page_content dm ! a"
        if "(?D, a) \<notin> header_span h d" "a < length dm" for a
      proof (rule content_nth)
        show "moved_page ?o n (ucast (NUM_ENT c)) dm ! a = dm ! a"
          using that(1) by (intro P(9)) (auto simp: header_span_def BIG_DATA_OVERHEAD_def)
      qed (use P(1) that(2) in simp_all)
      then show ?thesis using True E(3) nD P rd by simp
    next
      case False
      then show ?thesis using E(3) r kn by simp
    qed
  qed
qed

text \<open>
  One of the two pages: it has the pairs \<open>ps\<close>, which point to their data, in order.
\<close>

definition half :: "htab \<Rightarrow> (mem \<Rightarrow> mem option) \<Rightarrow> htab \<Rightarrow> pgno \<Rightarrow> (mem \<times> datap) list \<Rightarrow> bool" where
  "half g f S n ps \<longleftrightarrow> (\<exists>q. tview S n = Some q \<and> length q = bsz g \<and> CURR_PGNO q = n \<and> NEXT_PGNO q = INVALID_PGNO \<and>
     PTYPE q = ucast HASH_BUCKET_PAGE \<and> bucket_wf q \<and> packed q \<and> page_pairs q = ps \<and> (ps = [] \<longrightarrow> blank_header (hdr g) q)) \<and>
     (\<forall>j < length ps. \<exists>v. f (fst (ps ! j)) = Some v \<and> datum g (tview S) (item_of n j) (snd (ps ! j)) [] v)"

text \<open>What is given: the page \<open>m\<close> to be split, its data, and the pages of the two buckets.\<close>

definition split_page :: "htab \<Rightarrow> pgno \<Rightarrow> (pgno \<Rightarrow> mem option) \<Rightarrow> u32 \<Rightarrow> bool" where
  "split_page g n V B \<longleftrightarrow> BUCKET_TO_PAGE (hdr g) B = Some n \<and> n \<noteq> INVALID_PGNO \<and> n \<noteq> 0 \<and> known (mp g) n \<and>
     (\<forall>p. V n = Some p \<longrightarrow> PTYPE p \<noteq> ucast HASH_DATA_PAGE)"

definition split_base :: "htab \<Rightarrow> (mem \<Rightarrow> mem option) \<Rightarrow> (pgno \<Rightarrow> mem option) \<Rightarrow> mem \<Rightarrow> pgno \<Rightarrow> pgno \<Rightarrow> u32 \<Rightarrow> u32 \<Rightarrow> bool" where
  "split_base g f V m no nn old new \<longleftrightarrow> bucket_wf m \<and> packed m \<and> length m = bsz g \<and> no \<noteq> nn \<and>
     split_page g no V old \<and> split_page g nn V new \<and>
     (\<forall>i < page_num m. \<exists>v. f (fst (page_pair m i)) = Some v \<and> datum g V (item_of no i) (snd (page_pair m i)) [] v \<and>
        small_datum g (snd (page_pair m i))) \<and>
     (\<forall>i < page_num m. \<forall>j < page_num m. i \<noteq> j \<longrightarrow> span g (snd (page_pair m i)) \<inter> span g (snd (page_pair m j)) = {})"

definition goes_old :: "htab \<Rightarrow> u32 \<Rightarrow> mem \<times> datap \<Rightarrow> bool" where
  "goes_old g old = (\<lambda>k. bucket_of g k = old) \<circ> fst"

definition moved_headers :: "htab \<Rightarrow> (mem \<times> datap) list \<Rightarrow> places" where
  "moved_headers g ps = (\<Union>e\<in>set ps. header_span g (snd e))"

definition split_inv :: "htab \<Rightarrow> (mem \<Rightarrow> mem option) \<Rightarrow> (pgno \<Rightarrow> mem option) \<Rightarrow> mem \<Rightarrow> pgno \<Rightarrow> pgno \<Rightarrow> u32 \<Rightarrow> nat \<Rightarrow> htab \<Rightarrow> bool" where
  "split_inv g f V m no nn old i S \<longleftrightarrow> tsession S {} \<and> theld S = Map.empty \<and> pool_step g S \<and>
     half g f S no (filter (goes_old g old) (take i (page_pairs m))) \<and>
     half g f S nn (filter (Not \<circ> goes_old g old) (take i (page_pairs m))) \<and>
     same_at (- moved_headers g (take i (page_pairs m))) V (tview S) \<and>
     (\<forall>k p. V k = Some p \<longrightarrow> PTYPE p \<noteq> ucast HASH_DATA_PAGE \<longrightarrow> k \<noteq> no \<longrightarrow> k \<noteq> nn \<longrightarrow> tview S k = Some p)"

lemma datum_stays:
  assumes "datum h V it e ns v" "small_datum h e" "same_at (- H) V W" "span h e \<inter> H = {}"
  shows "datum h W it e ns v"
proof -
  have "datum_foot h V e \<subseteq> - H" using small_foot [OF assms(1,2)] assms(4) by blast
  then show ?thesis using datum_frame [OF assms(1) _ assms(3)] by blast
qed

lemma move_effect_view:
  assumes e: "move_effect h n c kb d h'" and d: "datum h (tview h) it d ns v"
    and k: "k \<noteq> n" "tview h k = Some p" "PTYPE p \<noteq> ucast HASH_DATA_PAGE"
  shows "tview h' k = Some p"
proof -
  obtain r where r: "tview h (dp_first d) = Some r" "PTYPE r = ucast HASH_DATA_PAGE" using d by (auto simp: datum_def)
  then have "k \<noteq> dp_first d" using k(2,3) by auto
  then show ?thesis using e k by (auto simp: move_effect_def)
qed

lemma half_stays:
  assumes h: "half g f S n' ps" and S: "pool_step g S" and e: "move_effect S n c kb d S'" and n: "n' \<noteq> n"
    and d: "datum S (tview S) it d ns v" "small_datum S d" and c: "tview S n = Some c" "PTYPE c = ucast HASH_BUCKET_PAGE"
    and ps: "\<And>x. x \<in> set ps \<Longrightarrow> small_datum g (snd x) \<and> span g (snd x) \<inter> header_span S d = {}"
  shows "half g f S' n' ps"
proof -
  obtain q where q: "tview S n' = Some q" "length q = bsz g" "CURR_PGNO q = n'" "NEXT_PGNO q = INVALID_PGNO"
    "PTYPE q = ucast HASH_BUCKET_PAGE" "bucket_wf q" "packed q" "page_pairs q = ps" "ps = [] \<longrightarrow> blank_header (hdr g) q"
    using h by (auto simp: half_def)
  note M = moved_same_at [OF e d c]
  have "tview S' n' = Some q"
    by (rule move_effect_view [OF e d(1) n q(1)]) (use q(5) in \<open>simp add: ffdb_consts\<close>)
  moreover have "\<exists>v. f (fst (ps ! j)) = Some v \<and> datum g (tview S') (item_of n' j) (snd (ps ! j)) [] v" if j: "j < length ps" for j
  proof -
    obtain v where v: "f (fst (ps ! j)) = Some v" "datum g (tview S) (item_of n' j) (snd (ps ! j)) [] v"
      using h j by (auto simp: half_def)
    then show ?thesis using datum_stays [OF v(2) _ M(1)] ps [OF nth_mem [OF j]] by blast
  qed
  ultimately show ?thesis using q unfolding half_def by blast
qed

lemma half_grows:
  assumes h: "half g f S n ps" and S: "pool_step g S" and e: "move_effect S n c kb d S'"
    and d: "datum S (tview S) it d ns v" "small_datum S d" "f kb = Some v" and c: "tview S n = Some c"
    and ps: "\<And>x. x \<in> set ps \<Longrightarrow> small_datum g (snd x) \<and> span g (snd x) \<inter> header_span S d = {}"
  shows "half g f S' n (ps @ [(kb, d)])"
proof -
  have D: "datum S = datum g" using datum_same(1) [of S g] pool_step_fields [OF S] by simp
  have q: "length c = bsz g" "CURR_PGNO c = n" "NEXT_PGNO c = INVALID_PGNO" "PTYPE c = ucast HASH_BUCKET_PAGE" "bucket_wf c"
    "packed c" "page_pairs c = ps" using h c by (auto simp: half_def)
  obtain c' dm where E: "tview S (dp_first d) = Some (page_content dm)" "length dm = bsz S"
    "tview S' = (tview S)(dp_first d \<mapsto> page_content (moved_page (unat (datap_roff S d)) n (ucast (NUM_ENT c)) dm), n \<mapsto> c')"
    "bucket_wf c'" "length c' = length c" "page_pairs c' = page_pairs c @ [(kb, d)]" "CURR_PGNO c' = CURR_PGNO c"
    "NEXT_PGNO c' = NEXT_PGNO c" "PTYPE c' = PTYPE c" "packed c'"
    using e q(6) by (auto simp: move_effect_def)
  note M = moved_same_at [OF e d(1,2) c q(4)]
  have num: "length ps = page_num c" using arg_cong [OF q(7), of length] by simp
  have "datum S (tview S') (item_of n (length ps)) d [] v"
  proof (rule datum_moved [OF d(1) d(2) [unfolded small_datum_def] E(1,2)])
    show "tview S' (dp_first d) = Some (page_content (moved_page (unat (datap_roff S d)) n (ucast (NUM_ENT c)) dm))"
      using E(3) M(2) by simp
    show "it_pgno (item_of n (length ps)) = n" "ucast (it_pgndx (item_of n (length ps))) = (ucast (NUM_ENT c) :: u32)"
      by (simp_all add: item_of_def num page_num_def)
  qed
  then have new: "datum g (tview S') (item_of n (length ps)) d [] v" by (simp add: D)
  have "\<exists>v. f (fst ((ps @ [(kb, d)]) ! j)) = Some v \<and> datum g (tview S') (item_of n j) (snd ((ps @ [(kb, d)]) ! j)) [] v"
    if j: "j < length (ps @ [(kb, d)])" for j
  proof (cases "j < length ps")
    case True
    obtain v where v: "f (fst (ps ! j)) = Some v" "datum g (tview S) (item_of n j) (snd (ps ! j)) [] v"
      using h True by (auto simp: half_def)
    then show ?thesis using datum_stays [OF v(2) _ M(1)] ps [OF nth_mem [OF True]] True by (simp add: nth_append)
  next
    case False
    then have "j = length ps" using j by simp
    then show ?thesis using new d(3) by simp
  qed
  moreover have "tview S' n = Some c'" using E(3) by simp
  ultimately show ?thesis using E q unfolding half_def by auto
qed

lemma take_pairs: "i < page_num m \<Longrightarrow> take (Suc i) (page_pairs m) = take i (page_pairs m) @ [page_pair m i]"
  by (simp add: take_Suc_conv_app_nth nth_page_pairs)

lemma moved_headers_snoc: "moved_headers g (ps @ [x]) = moved_headers g ps \<union> header_span g (snd x)"
  by (auto simp: moved_headers_def)

lemma split_base_apart:
  assumes b: "split_base g f V m no nn old new" and i: "i < page_num m" and x: "x \<in> set (take i (page_pairs m))"
  shows "small_datum g (snd x)" "span g (snd x) \<inter> span g (snd (page_pair m i)) = {}"
proof -
  obtain j where j: "j < i" "x = page_pair m j"
    using x i by (auto simp: in_set_conv_nth nth_page_pairs)
  then have l: "j < page_num m" "j \<noteq> i" using i by simp_all
  show "small_datum g (snd x)" using b l(1) unfolding j(2) split_base_def by blast
  show "span g (snd x) \<inter> span g (snd (page_pair m i)) = {}" using b l i unfolding j(2) split_base_def by blast
qed

lemma pool_step_buf:
  assumes "pool_step g S"
  shows "split_buf S = split_buf g"
proof -
  have "split_buf S = split_buf (g\<lparr>mp := mp S\<rparr>)" by (rule arg_cong [where f = split_buf]) (use assms in \<open>simp add: pool_step_def\<close>)
  then show ?thesis by simp
qed

lemma same_bucket: "pool_step g S \<Longrightarrow> bucket_of S k = bucket_of g k"
  by (simp add: bucket_of_def pool_step_fields)

lemma split_step:
  assumes b: "split_base g f V m no nn old new" and I: "split_inv g f V m no nn old i S" and i: "i < page_num m"
    and key: "dbt_ok key" "dbt_bytes key = fst (page_pair m i)" "dt_size key < 2 ^ 32" "dt_size key = length (fst (page_pair m i))"
  shows "\<exists>S'. ffdb_add_key_datap_to_bucket S key (snd (page_pair m i)) (if bucket_of g (fst (page_pair m i)) = old then old else new) =
      Some (0, S') \<and> split_inv g f V m no nn old (Suc i) S'"
proof -
  let ?k = "fst (page_pair m i)" and ?d = "snd (page_pair m i)" and ?ps = "take i (page_pairs m)"
  define P where "P = goes_old g old"
  define Q where "Q = (if P (page_pair m i) then P else Not \<circ> P)"
  define n where "n = (if P (page_pair m i) then no else nn)"
  define n' where "n' = (if P (page_pair m i) then nn else no)"
  define B where "B = (if P (page_pair m i) then old else new)"
  have P: "P (page_pair m i) \<longleftrightarrow> bucket_of g ?k = old" by (simp add: P_def goes_old_def)
  have S: "tsession S {}" "theld S = Map.empty" "pool_step g S" "same_at (- moved_headers g ?ps) V (tview S)"
    "half g f S n (filter Q ?ps)" "half g f S n' (filter (Not \<circ> Q) ?ps)"
    "\<forall>k p. V k = Some p \<longrightarrow> PTYPE p \<noteq> ucast HASH_DATA_PAGE \<longrightarrow> k \<noteq> no \<longrightarrow> k \<noteq> nn \<longrightarrow> tview S k = Some p"
    using I by (simp_all add: split_inv_def P_def Q_def n_def n'_def comp_def)
  note F = pool_step_fields [OF S(3)]
  have D: "datum S = datum g" using datum_same(1) [of S g] F by simp
  have sm: "span S = span g" "header_span S = header_span g" "small_datum S = small_datum g"
    by (simp_all add: fun_eq_iff span_def header_span_def small_datum_def datap_roff_def datap_len_def after_v5_def bsz_def F)
  have m: "bucket_wf m" "packed m" "length m = bsz g" "no \<noteq> nn" "split_page g no V old" "split_page g nn V new"
    using b by (simp_all add: split_base_def)
  have sp: "split_page g n V B" using m by (simp add: n_def B_def)
  obtain v where v: "f ?k = Some v" "datum g V (item_of no i) ?d [] v" "small_datum g ?d"
    using b i unfolding split_base_def by blast
  have hd: "moved_headers g ?ps \<inter> span g ?d = {}"
    using split_base_apart(2) [OF b i] header_in_span unfolding moved_headers_def by blast
  have dS: "datum S (tview S) (item_of no i) ?d [] v"
    unfolding D by (rule datum_stays [OF v(2,3) S(4)]) (use hd in blast)
  have small: "small_datum S ?d" using v(3) by (simp add: sm)
  have ap: "small_datum g (snd x) \<and> span g (snd x) \<inter> header_span S ?d = {}" if "x \<in> set (filter R ?ps)" for x R
    using split_base_apart [OF b i, of x] that header_in_span [of g ?d] by (auto simp: sm)
  obtain c where c: "tview S n = Some c" "length c = bsz g" "CURR_PGNO c = n" "PTYPE c = ucast HASH_BUCKET_PAGE" "bucket_wf c" "packed c"
    "page_pairs c = filter Q ?ps" using S(5) by (auto simp: half_def)
  have "page_keys c = filter ((\<lambda>k. bucket_of g k = old) \<circ> id) (take i (page_keys m)) \<or>
      page_keys c = filter ((\<lambda>k. bucket_of g k \<noteq> old) \<circ> id) (take i (page_keys m))"
    by (cases "P (page_pair m i)")
       (simp_all add: page_keys_def c(7) Q_def P_def goes_old_def take_map filter_map comp_def)
  then obtain R where R: "page_keys c = filter R (take i (page_keys m))" by blast
  have ki: "page_keys m ! i = ?k" using i by (simp add: page_keys_def page_pairs_def)
  have fits: "PAIRFITS c (dt_size key)"
    using packed_fits [OF m(2) i c(6,5) _ R] c(2) m(3) key(3,4) ki by simp
  obtain S' where S': "ffdb_add_key_datap_to_bucket S key ?d B = Some (0, S')" "move_effect S n c ?k ?d S'"
    using add_key_datap [OF S(1,2) _ _ _ _ c(1,3,5,4) fits key(1,3) dS, of B] sp F unfolding key(2) split_page_def by auto
  have st: "pool_step S S'" "tsession S' {}" "theld S' = Map.empty" using S'(2) by (simp_all add: move_effect_def)
  note M = moved_same_at [OF S'(2) dS small c(1,4)]
  have nn: "n' \<noteq> n" using m(4) by (simp add: n_def n'_def)
  have Qi: "Q (page_pair m i)" by (simp add: Q_def)
  have "half g f S' n (filter Q ?ps @ [(?k, ?d)])"
    by (rule half_grows [OF S(5,3) S'(2) dS small v(1) c(1) ap])
  moreover have "half g f S' n' (filter (Not \<circ> Q) ?ps)"
    by (rule half_stays [OF S(6,3) S'(2) nn dS small c(1,4) ap])
  ultimately have "half g f S' n (filter Q (take (Suc i) (page_pairs m)))" "half g f S' n' (filter (Not \<circ> Q) (take (Suc i) (page_pairs m)))"
    using Qi by (simp_all add: take_pairs [OF i])
  then have halves: "half g f S' no (filter P (take (Suc i) (page_pairs m)))" "half g f S' nn (filter (Not \<circ> P) (take (Suc i) (page_pairs m)))"
    by (auto simp: Q_def n_def n'_def comp_def split: if_splits)
  have "same_at (- moved_headers g (take (Suc i) (page_pairs m))) V (tview S')"
    unfolding take_pairs [OF i] moved_headers_snoc
    by (rule same_at_trans [OF same_at_mono [OF S(4)] same_at_mono [OF M(1)]]) (auto simp: sm)
  moreover have "tview S' k = Some p" if "V k = Some p" "PTYPE p \<noteq> ucast HASH_DATA_PAGE" "k \<noteq> no" "k \<noteq> nn" for k p
    using move_effect_view [OF S'(2) dS _ _ that(2), of k] S(7) that by (auto simp: n_def)
  ultimately have "split_inv g f V m no nn old (Suc i) S'"
    unfolding split_inv_def using st pool_step_trans [OF S(3) st(1)] halves unfolding P_def by blast
  then show ?thesis using S'(1) P by (auto simp: B_def)
qed

lemma split_items_done:
  assumes b: "split_base g f V m no nn old new" and buf: "split_buf g = m"
    and hash: "\<And>xs n. n \<le> length xs \<Longrightarrow> ht_hash g xs (of_nat n) = ht_hash g (take n xs) (of_nat n)"
    and I: "split_inv g f V m no nn old i S" and i: "i \<le> page_num m"
  shows "\<exists>S'. split_items S None old new i = Some S' \<and> split_inv g f V m no nn old (page_num m) S'"
  using I i
proof (induction "page_num m - i" arbitrary: i S)
  case 0
  then have e: "i = page_num m" by simp
  have "pool_step g S" using 0(2) by (simp add: split_inv_def)
  then have "split_buf S = m" using buf pool_step_buf by simp
  then have "split_items S None old new i = Some S"
    by (subst split_items.simps) (simp add: temp_page_def e page_num_def)
  then show ?case using 0(2) e by blast
next
  case (Suc k)
  then have i: "i < page_num m" by simp
  have st: "pool_step g S" using Suc.prems(1) by (simp add: split_inv_def)
  then have sb: "split_buf S = m" using buf pool_step_buf by simp
  have wf: "bucket_wf m" using b by (simp add: split_base_def)
  obtain key where key: "page_key m i = Some key" "dbt_ok key" "dt_size key < 2 ^ 31" "dbt_bytes key = fst (page_pair m i)"
    using page_key_wf [OF wf i] by blast
  have sz: "dt_size key = length (fst (page_pair m i))" "dt_size key \<le> length (dt_data key)"
    using key(2,4) by (auto simp: dbt_ok_def dbt_bytes_def dest: arg_cong [where f = length])
  have pd: "page_datap m i = Some (snd (page_pair m i))"
    using bucket_wf_reads [OF wf i] by (simp add: page_datap_def page_pair_def ffdb_consts)
  note F = pool_step_fields [OF st]
  have "ht_hash g (dt_data key) (of_nat (dt_size key)) = ht_hash g (dbt_bytes key) (of_nat (dt_size key))"
    using hash [OF sz(2)] by (simp add: dbt_bytes_def)
  then have hb: "ffdb_call_hash (ht_hash S) (hdr S) (dt_data key) (of_nat (dt_size key)) = bucket_of g (fst (page_pair m i))"
    using sz(1) key(4) by (simp add: bucket_of_def ffdb_call_hash_def F)
  obtain S1 where S1: "ffdb_add_key_datap_to_bucket S key (snd (page_pair m i)) (if bucket_of g (fst (page_pair m i)) = old then old else new) =
      Some (0, S1)" "split_inv g f V m no nn old (Suc i) S1"
    using split_step [OF b Suc.prems(1) i key(2,4) _ sz(1)] key(3) by auto
  have "k = page_num m - Suc i" "Suc i \<le> page_num m" using Suc.hyps(2) i by simp_all
  then obtain S' where S': "split_items S1 None old new (Suc i) = Some S'" "split_inv g f V m no nn old (page_num m) S'"
    using Suc.hyps(1) [OF _ S1(2)] by blast
  have "split_items S None old new i = split_items S1 None old new (Suc i)"
    using i key(1) pd S1(1) hb sb by (subst split_items.simps) (simp add: temp_page_def page_num_def)
  then show ?case using S' by auto
qed

section \<open>The split of a bucket\<close>

text \<open>A new bucket page.\<close>

definition empty_page :: "hashhdr \<Rightarrow> pgno \<Rightarrow> mem \<Rightarrow> bool" where
  "empty_page H n q \<longleftrightarrow> length q = unat (h_bsize H) \<and> CURR_PGNO q = n \<and> NEXT_PGNO q = INVALID_PGNO \<and>
     PTYPE q = ucast HASH_BUCKET_PAGE \<and> bucket_wf q \<and> packed q \<and> page_pairs q = [] \<and> blank_header H q"

lemma init_empty:
  assumes bs: "512 \<le> unat (h_bsize H)" "unat (h_bsize H) \<le> 2 ^ 20" "4 dvd unat (h_bsize H)" and p: "length p = unat (h_bsize H)"
  shows "empty_page H n (page_content (ffdb_init_page H p n HASH_BUCKET_PAGE))"
proof -
  let ?q = "ffdb_init_page H p n HASH_BUCKET_PAGE"
  note F = init_bucket_fields [OF bs(1,2) p disjI1 [OF refl], of n]
  have W: "bucket_wf ?q" "page_pairs ?q = []" using init_page_wf [OF bs(1,2) p disjI1 [OF refl], of n] by auto
  have "packed ?q" using F bs(3) p W(2) by (simp add: packed_def page_keys_def)
  moreover have "PREV_PGNO ?q = INVALID_PGNO" "PTYPE ?q = ucast HASH_BUCKET_PAGE" "OFFSET ?q = h_bsize H - 1" "NUM_ENT ?q = 0"
    using bs(1) p by (simp_all add: ffdb_init_page_def Let_def page_fields)
  ultimately show ?thesis using F W p by (simp add: empty_page_def blank_header_def)
qed

lemma half_empty: "empty_page (hdr g) n q \<Longrightarrow> tview S n = Some q \<Longrightarrow> half g f S n []"
  by (simp add: half_def empty_page_def bsz_def)

lemma pool_stepE:
  assumes "pool_step h A"
  obtains p where "A = h\<lparr>mp := p\<rparr>" "\<forall>k. known (mp h) k \<longrightarrow> known p k"
proof -
  have "A = h\<lparr>mp := mp A\<rparr>" "\<forall>k. known (mp h) k \<longrightarrow> known (mp A) k" using assms by (simp_all add: pool_step_def)
  then show thesis by (rule that)
qed

lemma pool_step_buf_upd:
  assumes "pool_step h A"
  shows "pool_step (h\<lparr>split_buf := m\<rparr>) (A\<lparr>split_buf := m\<rparr>)"
  using assms by (elim pool_stepE) (simp add: pool_step_def)

text \<open>Splitting a bucket of one page.\<close>

lemma split_bucket_done:
  assumes s: "tsession h {}" "theld h = Map.empty" and bs: "512 \<le> bsz h" "bsz h \<le> 2 ^ 20"
    and no: "split_page h no (tview h) old" "tview h no = Some c0" "CURR_PGNO c0 = no" "bucket_wf c0" "packed c0"
      "NEXT_PGNO c0 = INVALID_PGNO"
    and nn: "split_page h nn (tview h) new" "tview h nn = Some e" "empty_page (hdr h) nn e" "no \<noteq> nn"
    and data: "\<And>i. i < page_num c0 \<Longrightarrow> \<exists>v. f (fst (page_pair c0 i)) = Some v \<and>
        datum h (tview h) (item_of no i) (snd (page_pair c0 i)) [] v \<and> small_datum h (snd (page_pair c0 i))"
    and apart: "\<And>i j. i < page_num c0 \<Longrightarrow> j < page_num c0 \<Longrightarrow> i \<noteq> j \<Longrightarrow>
        span h (snd (page_pair c0 i)) \<inter> span h (snd (page_pair c0 j)) = {}"
    and hash: "\<And>xs n. n \<le> length xs \<Longrightarrow> ht_hash h xs (of_nat n) = ht_hash h (take n xs) (of_nat n)"
  shows "\<exists>S m. ffdb_split_bucket h old new = Some (0, S) \<and> page_pairs m = page_pairs c0 \<and>
    split_inv (h\<lparr>split_buf := m\<rparr>) f (tview h) m no nn old (length (page_pairs c0)) S"
proof -
  have n1: "no \<noteq> - 1" using no(1) by (simp add: split_page_def INVALID_minus)
  obtain b m A where A: "ffdb_get_page h old HASH_BUCKET_PAGE FFDB_CREATE = Some (Some b, no, A)" "theld h b = None"
    "theld A = (theld h)(b \<mapsto> (no, m))" "page_content m = c0" "page_good (hdr h) m" "tview A = tview h"
    "tsession A {}" "pool_step h A"
    by (rule get_page_session [OF s(1) n1 _ no(2), where flags = FFDB_CREATE and addrtype = HASH_BUCKET_PAGE and addr = old])
       (use s(2) no(1,3) in \<open>auto simp: split_page_def\<close>)
  note FA = pool_step_fields [OF A(8)]
  have lm: "length m = bsz h" using A(5) by (simp add: page_good_def bsz_def)
  have m: "bucket_wf m" "packed m" "page_pairs m = page_pairs c0" "page_num m = page_num c0" "NEXT_PGNO m = INVALID_PGNO"
    using no(4-6) A(4) by auto
  have pair: "page_pair m i = page_pair c0 i" if "i < page_num c0" for i
    using content_pair [OF m(1), of i] that m(4) A(4) by simp
  let ?g = "h\<lparr>split_buf := m\<rparr>" and ?A = "A\<lparr>split_buf := m\<rparr>"
  have sA: "tsession ?A {}" by (rule tsession_hdr [OF A(7)]) simp_all
  have hA: "theld ?A b = Some (no, m)" using A(3) by simp
  have stA: "pool_step ?g ?A" by (rule pool_step_buf_upd [OF A(8)])
  let ?I = "\<lambda>m. ffdb_init_page (hdr A) m no HASH_BUCKET_PAGE"
  have dv: "4 dvd bsz h" using m(2) lm by (simp add: packed_def)
  have E: "empty_page (hdr h) no (page_content (?I m))"
    using init_empty [of "hdr h" m no] bs dv lm by (simp add: FA bsz_def)
  have lI: "length (?I m) = unat (h_bsize (hdr ?A))" using lm by (simp add: FA bsz_def)
  note P = poke_session [OF sA hA, of ?I, OF lI]
  have gP: "page_good (hdr (poke b ?I ?A)) (?I m)"
    using A(5) lm sign_init_page [of m "hdr A" no HASH_BUCKET_PAGE] bs(1) by (simp add: page_good_def poke_def FA bsz_def)
  have hP: "theld (poke b ?I ?A) b = Some (no, ?I m)" using P(2) by simp
  obtain S0 where S0: "ffdb_put_page (poke b ?I ?A) b True = Some (0, S0)" "tsession S0 (insert b {} - {b})"
    "theld S0 = (theld (poke b ?I ?A))(b := None)" "tview S0 = tview (poke b ?I ?A)" "pool_step (poke b ?I ?A) S0"
    by (rule put_page_session [OF P(1) hP gP, of True]) simp_all
  have st0: "pool_step ?g S0" by (rule pool_step_trans [OF stA pool_step_trans [OF P(4) S0(5)]])
  have v0: "tview S0 = (tview h)(no \<mapsto> page_content (?I m))" using S0(4) P(3) A(6) by simp
  have gd: "datum ?g = datum h" by (rule datum_same) simp_all
  have sm: "span ?g = span h" "small_datum ?g = small_datum h" "bsz ?g = bsz h"
    by (simp_all add: fun_eq_iff span_def small_datum_def datap_roff_def datap_len_def after_v5_def bsz_def)
  have base: "split_base ?g f (tview h) m no nn old new"
    unfolding split_base_def
  proof (intro conjI m(1,2) allI impI)
    show "length m = bsz ?g" using lm sm(3) by simp
    show "split_page ?g no (tview h) old" "split_page ?g nn (tview h) new" using no(1) nn(1) by (simp_all add: split_page_def)
    show "\<exists>v. f (fst (page_pair m i)) = Some v \<and> datum ?g (tview h) (item_of no i) (snd (page_pair m i)) [] v \<and>
        small_datum ?g (snd (page_pair m i))" if "i < page_num m" for i
      using data [of i] that m(4) by (simp add: pair gd sm)
    show "span ?g (snd (page_pair m i)) \<inter> span ?g (snd (page_pair m j)) = {}" if "i < page_num m" "j < page_num m" "i \<noteq> j" for i j
      using apart [of i j] that m(4) by (simp add: pair sm)
  qed (rule nn(4))
  have I0: "split_inv ?g f (tview h) m no nn old 0 S0"
    unfolding split_inv_def
  proof (intro conjI st0)
    show "tsession S0 {}" using S0(2) by simp
    show "theld S0 = Map.empty" using S0(3) P(2) A(3) s(2) by (auto simp: fun_eq_iff)
    have "half ?g f S0 no []" by (rule half_empty) (use E v0 in simp_all)
    then show "half ?g f S0 no (filter (goes_old ?g old) (take 0 (page_pairs m)))" by simp
    have "half ?g f S0 nn []" by (rule half_empty) (use nn v0 in simp_all)
    then show "half ?g f S0 nn (filter (Not \<circ> goes_old ?g old) (take 0 (page_pairs m)))" by simp
    show "same_at (- moved_headers ?g (take 0 (page_pairs m))) (tview h) (tview S0)"
      unfolding v0 by (rule same_at_other) (use no(1) in \<open>simp add: split_page_def\<close>)
    show "\<forall>k p. tview h k = Some p \<longrightarrow> PTYPE p \<noteq> ucast HASH_DATA_PAGE \<longrightarrow> k \<noteq> no \<longrightarrow> k \<noteq> nn \<longrightarrow> tview S0 k = Some p"
      by (simp add: v0)
  qed
  have hh: "ht_hash ?g = ht_hash h" by simp
  have hg: "\<And>xs n. n \<le> length xs \<Longrightarrow> ht_hash ?g xs (of_nat n) = ht_hash ?g (take n xs) (of_nat n)"
    unfolding hh by (rule hash)
  obtain S where S: "split_items S0 None old new 0 = Some S" "split_inv ?g f (tview h) m no nn old (page_num m) S"
    using split_items_done [OF base _ hg I0] by (auto simp del: of_nat_Suc)
  have sb: "split_buf S = m" using S(2) pool_step_buf [of ?g S] by (simp add: split_inv_def)
  have "split_pages S0 None old new = Some S"
    using S(1) sb m(5) by (subst split_pages.simps) (simp add: temp_page_def)
  moreover have "mem_read m 0 (bsz A) = Some m" using lm by (simp add: mem_read_def mem_get_def bsz_def FA)
  ultimately have "ffdb_split_bucket h old new = Some (0, S)"
    using A(1) theld_page [of A b no m] A(3) S0(1) by (simp add: ffdb_split_bucket_def)
  then show ?thesis using S(2) m(3,4) by auto
qed

end
