(* ===== verification/FFDB_Grow.thy ===== *)
theory FFDB_Grow
  imports FFDB_Split
begin

text \<open>
  Growing a table (\<open>_ffdb_expand_table\<close>, where the new bucket is on the level in use): a page
  for the new bucket, the split of the old one, and the grown header. The table is tidy
  again, and it keeps its map.
\<close>

section \<open>Tables by their pairs\<close>

text \<open>A tidy table, bucket by bucket.\<close>

lemma buckets_iff:
  "buckets H V B Cs \<longleftrightarrow> B + length Cs = Suc (unat (h_max_bucket H)) \<and>
     (\<forall>j < length Cs. (\<exists>n. BUCKET_TO_PAGE H (of_nat (B + j)) = Some n \<and> bucket_chain H V n (Cs ! j)) \<and>
        (\<forall>np\<in>set (tl (Cs ! j)). 0 < page_num (snd np)))"
proof (induction Cs arbitrary: B)
  case (Cons ps Cs)
  show ?case
    unfolding buckets.simps Cons.IH length_Cons All_less_Suc2 nth_Cons_0 nth_Cons_Suc add_0_right add_Suc_right add_Suc
    by (auto simp del: of_nat_Suc of_nat_add)
qed simp

lemma placed_iff: "placed h B Cs \<longleftrightarrow> (\<forall>j < length Cs. \<forall>s\<in>set (chain_spots (Cs ! j)). bucket_of h (spot_key s) = of_nat (B + j))"
proof (induction Cs arbitrary: B)
  case (Cons ps Cs)
  show ?case
    unfolding placed.simps Cons.IH length_Cons All_less_Suc2 nth_Cons_0 nth_Cons_Suc add_0_right add_Suc_right add_Suc
    by (rule refl)
qed simp

text \<open>The bucket of a key in a tidy table.\<close>

lemma tidy_bucket:
  assumes t: "tidy h Cs"
  shows "unat (bucket_of h k) < length Cs" "\<exists>n. BUCKET_TO_PAGE (hdr h) (bucket_of h k) = Some n \<and>
      bucket_chain (hdr h) (tview h) n (Cs ! unat (bucket_of h k))"
    "bucket_pages h k ps \<Longrightarrow> ps = Cs ! unat (bucket_of h k)"
proof -
  have b: "length Cs = Suc (unat (h_max_bucket (hdr h)))" "bucket_of h k \<le> h_max_bucket (hdr h)"
    "\<forall>j < length Cs. \<exists>n. BUCKET_TO_PAGE (hdr h) (of_nat j) = Some n \<and> bucket_chain (hdr h) (tview h) n (Cs ! j)"
    using t by (simp_all add: tidy_def buckets_iff)
  then show l: "unat (bucket_of h k) < length Cs" by (simp add: word_le_nat_alt)
  then show e: "\<exists>n. BUCKET_TO_PAGE (hdr h) (bucket_of h k) = Some n \<and>
      bucket_chain (hdr h) (tview h) n (Cs ! unat (bucket_of h k))" using b(3) by fastforce
  show "ps = Cs ! unat (bucket_of h k)" if "bucket_pages h k ps"
    using e that chain_unique by (auto simp: bucket_pages_def bucket_chain_def)
qed

definition spot_ptr :: "spot \<Rightarrow> datap" where
  "spot_ptr s = snd (page_pair (fst (snd s)) (snd (snd s)))"

definition spot_item :: "spot \<Rightarrow> hent" where
  "spot_item s = item_of (fst s) (snd (snd s))"

lemma found_spot:
  assumes t: "tidy h Cs" and f: "found h x n i d"
  shows "\<exists>s\<in>set (all_spots Cs). spot_key s = x \<and> fst s = n \<and> snd (snd s) = i \<and> spot_ptr s = d"
proof -
  obtain ps where ps: "bucket_pages h x ps" "first_at x ps = Some (n, i, d)" using f by (auto simp: found_def)
  obtain p where p: "(n, p, i) \<in> set (chain_spots ps)" "spot_key (n, p, i) = x" "d = snd (page_pair p i)"
    using first_at_in_chain [OF ps(2)] by blast
  have "ps \<in> set Cs" using tidy_bucket(1,3) [OF t] ps(1) nth_mem by metis
  then have "(n, p, i) \<in> set (all_spots Cs)" using p(1) by (auto simp: all_spots_def)
  then show ?thesis using p by (intro bexI [of _ "(n, p, i)"]) (simp_all add: spot_ptr_def)
qed

lemma spot_found:
  assumes db: "db_ok h" and t: "tidy h Cs" and s: "s \<in> set (all_spots Cs)"
  shows "found h (spot_key s) (fst s) (snd (snd s)) (spot_ptr s)"
proof -
  have T: "buckets (hdr h) (tview h) 0 Cs" "placed h 0 Cs" "distinct (map spot_key (all_spots Cs))" using t by (simp_all add: tidy_def)
  obtain j ps k where ps: "ps \<in> set Cs" "s \<in> set (chain_spots ps)" "bucket_of h (spot_key s) = of_nat j"
    "BUCKET_TO_PAGE (hdr h) (of_nat j) = Some k" "bucket_chain (hdr h) (tview h) k ps"
    using placed_bucket [OF T(1,2) s] by blast
  obtain qs where "bucket_pages h (spot_key s) qs" using db_pages [OF db] by blast
  then have bp: "bucket_pages h (spot_key s) ps" using ps(3-5) by (auto simp: bucket_pages_def)
  have "distinct (map spot_key (chain_spots ps))"
    by (rule concat_distinct [of _ "map chain_spots Cs"]) (use T(3) ps(1) in \<open>simp_all add: all_spots_def\<close>)
  then have "first_at (spot_key s) ps = Some (fst s, snd (snd s), spot_ptr s)"
    using first_at_spot [of ps "fst s" "fst (snd s)" "snd (snd s)"] ps(2) by (simp add: spot_ptr_def)
  then show ?thesis using bp by (auto simp: found_def)
qed

text \<open>A tidy table whose pairs have their data is a table that represents the map of its pairs.\<close>

definition quiet :: "htab \<Rightarrow> bool" where
  "quiet h \<longleftrightarrow> tsession h {} \<and> theld h = Map.empty \<and> h_compare h = ham_defcmp \<and> flag_ok h \<and> bsz h \<le> 2 ^ 20 \<and> \<not> rdonly h \<and>
     (\<forall>xs n. n \<le> length xs \<longrightarrow> ht_hash h xs (of_nat n) = ht_hash h (take n xs) (of_nat n))"

lemma compact_intro:
  assumes q: "quiet h" and t: "tidy h Cs" and kn: "\<And>k n. BUCKET_TO_PAGE (hdr h) (bucket_of h k) = Some n \<Longrightarrow> known (mp h) n"
    and p: "data_page_ok h p"
    and spot: "\<And>s. s \<in> set (all_spots Cs) \<Longrightarrow> small_datum h (spot_ptr s) \<and> (\<exists>v ns. f (spot_key s) = Some v \<and>
      datum h (tview h) (spot_item s) (spot_ptr s) ns v \<and> datum_below h (tview h) (curr_dpage h) (free_from (bsz h) p) (spot_ptr s))"
    and all: "\<And>k v. f k = Some v \<Longrightarrow> k \<in> spot_key ` set (all_spots Cs)"
    and apart: "\<And>s u. s \<in> set (all_spots Cs) \<Longrightarrow> u \<in> set (all_spots Cs) \<Longrightarrow> spot_key s \<noteq> spot_key u \<Longrightarrow>
      span h (spot_ptr s) \<inter> span h (spot_ptr u) = {}"
  shows "kept_compact h f"
proof -
  have T: "placed h 0 Cs" "distinct (map spot_key (all_spots Cs))" "distinct (map fst (concat Cs))"
    using t by (simp_all add: tidy_def)
  have pages: "bucket_pages h k (Cs ! unat (bucket_of h k))" for k
    using tidy_bucket(2) [OF t] kn unfolding bucket_pages_def by blast
  have dat: "\<exists>ns v. f x = Some v \<and> datum h (tview h) (item_of n i) d ns v \<and> small_datum h d \<and>
      datum_below h (tview h) (curr_dpage h) (free_from (bsz h) p) d" if fd: "found h x n i d" for x n i d
    using found_spot [OF t fd] spot unfolding spot_item_def by metis
  have dj: "fst ` set ps \<inter> fst ` set ps' = {}"
    if A: "bucket_of h k \<noteq> bucket_of h k'" "bucket_pages h k ps" "bucket_pages h k' ps'" for k k' ps ps'
  proof -
    let ?i = "unat (bucket_of h k)" and ?j = "unat (bucket_of h k')"
    have ij: "?i < length Cs" "?j < length Cs" "?i \<noteq> ?j" using tidy_bucket(1) [OF t] A(1) by (simp_all add: word_unat_eq_iff)
    have dc: "distinct (concat (map (map fst) Cs))" using T(3) by (simp add: map_concat)
    have sep: "set (map (map fst) Cs ! i) \<inter> set (map (map fst) Cs ! j) = {}"
      if "i < j" "j < length Cs" for i j
    proof -
      have e: "map (map fst) Cs = take j (map (map fst) Cs) @ drop j (map (map fst) Cs)" by simp
      have "set (concat (take j (map (map fst) Cs))) \<inter> set (concat (drop j (map (map fst) Cs))) = {}"
        using dc e by (metis concat_append distinct_append)
      moreover have "map (map fst) Cs ! i \<in> set (take j (map (map fst) Cs))"
        using that by (auto simp: in_set_conv_nth intro!: exI [of _ i])
      moreover have "map (map fst) Cs ! j \<in> set (drop j (map (map fst) Cs))"
        using that by (auto simp: in_set_conv_nth intro!: exI [of _ 0])
      ultimately show ?thesis by auto
    qed
    have "set (map (map fst) Cs ! ?i) \<inter> set (map (map fst) Cs ! ?j) = {}"
    proof (cases "?i < ?j")
      case True
      then show ?thesis by (rule sep) (rule ij(2))
    next
      case False
      then have "?j < ?i" using ij(3) by simp
      then show ?thesis using sep [OF _ ij(1)] by (simp only: Int_commute)
    qed
    then show ?thesis using tidy_bucket(3) [OF t A(2)] tidy_bucket(3) [OF t A(3)] ij by simp
  qed
  have "\<forall>k. \<exists>ps. bucket_pages h k ps \<and> (\<forall>n i d. first_at k ps = Some (n, i, d) \<longrightarrow>
           (\<exists>ns v. datum h (tview h) (item_of n i) d ns v \<and>
              datum_below h (tview h) (curr_dpage h) (free_from (bsz h) p) d))"
    using pages dat unfolding found_def by blast
  then have db: "db_ok h"
    unfolding db_ok_def using q p dj unfolding quiet_def by blast
  have rep: "case f k of None \<Rightarrow> absent h k | Some v \<Rightarrow> stored h k v" for k
  proof (cases "f k")
    case None
    have "first_at k (Cs ! unat (bucket_of h k)) = None"
    proof (rule ccontr)
      assume "first_at k (Cs ! unat (bucket_of h k)) \<noteq> None"
      then obtain n i d where "found h k n i d" using pages [of k] by (auto simp: found_def)
      then show False using dat None by fastforce
    qed
    then show ?thesis using None pages [of k] by (auto simp: absent_def)
  next
    case (Some v)
    obtain s where s: "s \<in> set (all_spots Cs)" "spot_key s = k" using all [OF Some] by auto
    then have "found h k (fst s) (snd (snd s)) (spot_ptr s)" using spot_found [OF db t s(1)] by simp
    then show ?thesis using dat Some unfolding found_def stored_def by fastforce
  qed
  have "disjoint_data h"
    unfolding disjoint_data_def
  proof (intro allI impI)
    fix x y n i d m j e
    assume A: "x \<noteq> y" "found h x n i d" "found h y m j e"
    obtain s where s: "s \<in> set (all_spots Cs)" "spot_key s = x" "spot_ptr s = d" using found_spot [OF t A(2)] by blast
    obtain u where u: "u \<in> set (all_spots Cs)" "spot_key u = y" "spot_ptr u = e" using found_spot [OF t A(3)] by blast
    have "datum_foot h (tview h) d = span h d" "datum_foot h (tview h) e = span h e"
      using dat [OF A(2)] dat [OF A(3)] small_foot by blast+
    then show "datum_foot h (tview h) d \<inter> datum_foot h (tview h) e = {}" using apart [OF s(1) u(1)] s u A(1) by simp
  qed
  moreover have "one_page h" unfolding one_page_def using dat unfolding small_datum_def by blast
  ultimately show ?thesis using db rep t q by (auto simp: kept_compact_def kept_def represents_def quiet_def)
qed

section \<open>One bucket more\<close>

text \<open>A page that is not in use: not in the pool, and not holding pairs or data.\<close>

definition fresh_page :: "htab \<Rightarrow> pgno \<Rightarrow> bool" where
  "fresh_page h n \<longleftrightarrow> n \<noteq> 0 \<and> n \<noteq> INVALID_PGNO \<and> cached (mp h) n = None \<and> maxpgno (mp h) \<noteq> FFDB_MAX_PAGE_NUMBER \<and>
     (\<forall>p. tview h n = Some p \<longrightarrow> PTYPE p \<noteq> ucast HASH_BUCKET_PAGE \<and> PTYPE p \<noteq> ucast HASH_DATA_PAGE)"

lemma new_bucket:
  assumes s: "tsession h {}" "theld h = Map.empty" and n: "BUCKET_TO_PAGE (hdr h) B = Some n" "fresh_page h n"
    and bs: "512 \<le> bsz h"
  shows "\<exists>z h'. ffdb_new_page h B HASH_BUCKET_PAGE = Some (0, h') \<and> tsession h' {} \<and> theld h' = Map.empty \<and> pool_step h h' \<and>
    known (mp h') n \<and> length z = bsz h \<and> tview h' = (tview h)(n \<mapsto> page_content (ffdb_init_page (hdr h) z n HASH_BUCKET_PAGE))"
proof -
  have s': "native.session (hdr h) (mp h) {}" using s by (simp add: tsession_def)
  have fp: "n \<noteq> - 1" "cached (mp h) n = None" "maxpgno (mp h) \<noteq> FFDB_MAX_PAGE_NUMBER"
    using n(2) by (simp_all add: fresh_page_def INVALID_minus)
  have fl: "FLAG_ISSET FFDB_PAGE_REQUEST FFDB_PAGE_REQUEST" by (simp add: FLAG_ISSET_def ffdb_consts)
  obtain b z p where g: "new_page_i (mp h) n FFDB_PAGE_REQUEST = Some (0, n, Some b, p)" "held (mp h) b = None"
    "held p = (held (mp h))(b \<mapsto> (n, z))" "length z = unat (h_bsize (hdr h))"
    "pool_view page_content p = (pool_view page_content (mp h))(n \<mapsto> page_content z)"
    "native.session (hdr h) p (insert b {})" "\<And>k. known (mp h) k \<Longrightarrow> known p k"
    by (rule native.session_new [OF s' fp fl]) blast
  let ?A = "h\<lparr>mp := p\<rparr>" and ?I = "\<lambda>m. ffdb_init_page (hdr h) m n HASH_BUCKET_PAGE"
  have sA: "tsession ?A {b}" using g(6) by (simp add: tsession_def)
  have hA: "theld ?A b = Some (n, z)" using g(3) by simp
  have stA: "pool_step h ?A" by (rule pool_stepI) (rule g(7))
  have "length (?I z) = unat (h_bsize (hdr ?A))" using g(4) by simp
  note P = poke_session [OF sA hA, of ?I, OF this]
  have gP: "page_good (hdr (poke b ?I ?A)) (?I z)"
    using g(4) sign_init_page [of z "hdr h" n HASH_BUCKET_PAGE] bs by (simp add: page_good_def poke_def bsz_def)
  have hP: "theld (poke b ?I ?A) b = Some (n, ?I z)" using P(2) by simp
  obtain E where E: "ffdb_put_page (poke b ?I ?A) b True = Some (0, E)" "tsession E (insert b {b} - {b})"
    "theld E = (theld (poke b ?I ?A))(b := None)" "tview E = tview (poke b ?I ?A)" "pool_step (poke b ?I ?A) E" "known (mp E) n"
    by (rule put_page_session [OF P(1) hP gP, of True]) simp_all
  have "ffdb_new_page h B HASH_BUCKET_PAGE = Some (0, E)"
    using n(1) g(1) E(1) by (simp add: ffdb_new_page_def pagepool_new_page_def)
  moreover have "theld E = Map.empty" using E(3) P(2) g(3) s(2) by (auto simp: fun_eq_iff)
  moreover have "tview E = (tview h)(n \<mapsto> page_content (?I z))"
    using E(4) P(3) g(5) by (simp add: page_view_def)
  moreover have "pool_step h E" by (rule pool_step_trans [OF stA pool_step_trans [OF P(4) E(5)]])
  ultimately show ?thesis using E(2,6) g(4) by (intro exI [of _ z] exI [of _ E]) (simp add: bsz_def)
qed

text \<open>
  When the table can grow by splitting a bucket of one page: the new bucket is on the level
  in use, its page is not in use, and the pairs of the old one are packed.
\<close>

definition can_split :: "htab \<Rightarrow> u32 \<Rightarrow> u32 \<Rightarrow> bool" where
  "can_split h old new \<longleftrightarrow> 512 \<le> bsz h \<and> (\<exists>nn. BUCKET_TO_PAGE (hdr h) new = Some nn \<and> fresh_page h nn) \<and>
     (\<exists>no c0. BUCKET_TO_PAGE (hdr h) old = Some no \<and> known (mp h) no \<and> tview h no = Some c0 \<and> NEXT_PGNO c0 = INVALID_PGNO \<and> packed c0)"

text \<open>The grown header differs in the masks and the number of buckets.\<close>

lemma expand_header_same:
  assumes "expand_header H = Some (old, new, False, H')"
  shows "h_bsize H' = h_bsize H" "h_lorder H' = h_lorder H" "h_version H' = h_version H" "h_spares H' = h_spares H"
    "h_ovfl_point H' = h_ovfl_point H" "BUCKET_TO_PAGE H' = BUCKET_TO_PAGE H" "bucket_chain H' = bucket_chain H"
    "blank_header H' = blank_header H" "h_free_pages H' = h_free_pages H"
proof -
  show e: "h_bsize H' = h_bsize H" "h_lorder H' = h_lorder H" "h_version H' = h_version H" "h_spares H' = h_spares H"
    "h_ovfl_point H' = h_ovfl_point H" "h_free_pages H' = h_free_pages H"
    using assms by (auto simp: expand_header_def Let_def split: bind_splits if_splits)
  show "BUCKET_TO_PAGE H' = BUCKET_TO_PAGE H" by (simp add: fun_eq_iff BUCKET_TO_PAGE_def e)
  show b: "blank_header H' = blank_header H" by (simp add: fun_eq_iff blank_header_def e)
  show "bucket_chain H' = bucket_chain H" by (simp add: fun_eq_iff bucket_chain_def b)
qed

lemma small_ns: "datum h V it d ns v \<Longrightarrow> small_datum h d \<Longrightarrow> ns = []"
  by (auto simp: datum_def small_datum_def data_from.simps [of V])

lemma single_chain: "chain V n ps \<Longrightarrow> V n = Some c \<Longrightarrow> NEXT_PGNO c = INVALID_PGNO \<Longrightarrow> ps = [(n, c)]"
  by (cases ps) (auto split: if_splits)

text \<open>Every pair of a table of small values: its value, its datum, and bytes of its own.\<close>

lemma compact_spot:
  assumes K: "kept_compact h f" and t: "tidy h Cs" and s: "s \<in> set (all_spots Cs)"
  shows "small_datum h (spot_ptr s)" "\<exists>v. f (spot_key s) = Some v \<and> datum h (tview h) (spot_item s) (spot_ptr s) [] v"
    "data_page_ok h p \<Longrightarrow> datum_below h (tview h) (curr_dpage h) (free_from (bsz h) p) (spot_ptr s)"
    "u \<in> set (all_spots Cs) \<Longrightarrow> spot_key s \<noteq> spot_key u \<Longrightarrow> span h (spot_ptr s) \<inter> span h (spot_ptr u) = {}"
proof -
  have k: "kept h f" "one_page h" "db_ok h" "disjoint_data h" using K keptD by (auto simp: kept_compact_def)
  have sm: "small_datum h (spot_ptr x)" if "x \<in> set (all_spots Cs)" for x
    using spot_found [OF k(3) t that] k(2) unfolding one_page_def small_datum_def by blast
  have dt: "\<exists>v ns. f (spot_key x) = Some v \<and> datum h (tview h) (spot_item x) (spot_ptr x) ns v" if "x \<in> set (all_spots Cs)" for x
    using tidy_spot [OF keptD(1) [OF k(1)] t that] by (cases x) (auto simp: spot_datum_def spot_item_def spot_ptr_def)
  show "small_datum h (spot_ptr s)" by (rule sm [OF s])
  show "\<exists>v. f (spot_key s) = Some v \<and> datum h (tview h) (spot_item s) (spot_ptr s) [] v"
    using dt [OF s] small_ns sm [OF s] by blast
  show "datum_below h (tview h) (curr_dpage h) (free_from (bsz h) p) (spot_ptr s)" if "data_page_ok h p"
    using db_found [OF k(3) that spot_found [OF k(3) t s]] by blast
  show "span h (spot_ptr s) \<inter> span h (spot_ptr u) = {}" if u: "u \<in> set (all_spots Cs)" "spot_key s \<noteq> spot_key u"
    using disjoint_dataD [OF k(4) u(2) spot_found [OF k(3) t s] spot_found [OF k(3) t u(1)]]
      dt [OF s] dt [OF u(1)] sm [OF s] sm [OF u(1)] small_foot by metis
qed

lemma expand_runs:
  assumes K: "kept_compact h f" and t: "tidy h Cs" and e: "expand_header (hdr h) = Some (old, new, False, H)"
    and c: "can_split h old new" and old: "unat old < length Cs"
  shows "\<exists>S g m no nn c0 z. ffdb_expand_table h = Some (0, S) \<and> Cs ! unat old = [(no, c0)] \<and>
    BUCKET_TO_PAGE (hdr h) new = Some nn \<and> fresh_page h nn \<and> page_pairs m = page_pairs c0 \<and> packed c0 \<and>
    split_inv g f ((tview h)(nn \<mapsto> z)) m no nn old (length (page_pairs c0)) S \<and> known (mp g) nn \<and> hdr g = H \<and>
    (\<forall>k. known (mp h) k \<longrightarrow> known (mp g) k) \<and> (\<exists>p x. g = h\<lparr>hdr := H, mp := p, split_buf := x\<rparr>)"
proof -
  note H = expand_header_same [OF e]
  have k: "kept h f" "one_page h" "db_ok h" "disjoint_data h" using K keptD by (auto simp: kept_compact_def)
  have d: "tsession h {}" "theld h = Map.empty" "bsz h \<le> 2 ^ 20"
    "\<And>xs n. n \<le> length xs \<Longrightarrow> ht_hash h xs (of_nat n) = ht_hash h (take n xs) (of_nat n)"
    using k(3) unfolding db_ok_def by blast+
  obtain nn where nn: "BUCKET_TO_PAGE (hdr h) new = Some nn" "fresh_page h nn" using c by (auto simp: can_split_def)
  obtain no c0 where no: "BUCKET_TO_PAGE (hdr h) old = Some no" "known (mp h) no" "tview h no = Some c0" "NEXT_PGNO c0 = INVALID_PGNO"
    "packed c0" and bs: "512 \<le> bsz h" using c by (auto simp: can_split_def)
  have "\<forall>j < length Cs. \<exists>n. BUCKET_TO_PAGE (hdr h) (of_nat j) = Some n \<and> bucket_chain (hdr h) (tview h) n (Cs ! j)"
    using t by (simp add: tidy_def buckets_iff)
  then have "\<exists>n. BUCKET_TO_PAGE (hdr h) (of_nat (unat old)) = Some n \<and> bucket_chain (hdr h) (tview h) n (Cs ! unat old)"
    using old by blast
  then have ch: "chain (tview h) no (Cs ! unat old)" "no \<noteq> 0" using no(1) by (auto simp: bucket_chain_def)
  have C: "Cs ! unat old = [(no, c0)]" by (rule single_chain [OF ch(1) no(3,4)])
  have c0: "bucket_wf c0" "CURR_PGNO c0 = no" "PTYPE c0 = ucast HASH_BUCKET_PAGE" "no \<noteq> INVALID_PGNO"
    using ch(1) by (auto simp: C)
  define h1 where "h1 = h\<lparr>hdr := H\<rparr>"
  have h1: "hdr h1 = H" "mp h1 = mp h" "bsz h1 = bsz h" by (simp_all add: h1_def bsz_def H)
  have s1: "tsession h1 {}" by (rule tsession_hdr [OF d(1)]) (simp_all add: h1_def H)
  have fr1: "fresh_page h1 nn" using nn(2) by (simp add: fresh_page_def h1(2))
  have held1: "theld h1 = Map.empty" using d(2) by (simp add: h1(2))
  have nn1: "BUCKET_TO_PAGE (hdr h1) new = Some nn" "512 \<le> bsz h1" using nn(1) bs by (simp_all add: h1 H)
  obtain x h2 where h2: "ffdb_new_page h1 new HASH_BUCKET_PAGE = Some (0, h2)" "tsession h2 {}" "theld h2 = Map.empty"
    "pool_step h1 h2" "known (mp h2) nn" "length x = bsz h1"
    "tview h2 = (tview h1)(nn \<mapsto> page_content (ffdb_init_page (hdr h1) x nn HASH_BUCKET_PAGE))"
    using new_bucket [OF s1 held1 nn1(1) fr1 nn1(2)] by blast
  note F = pool_step_fields [OF h2(4)]
  define z where "z = page_content (ffdb_init_page (hdr h1) x nn HASH_BUCKET_PAGE)"
  have V: "tview h2 = (tview h)(nn \<mapsto> z)" using h2(7) by (simp add: z_def h1(2))
  have dv: "4 dvd bsz h"
  proof -
    have "length c0 = bsz h" using tview_length [OF d(1) no(3)] by (simp add: bsz_def)
    then show ?thesis using no(5) by (simp add: packed_def)
  qed
  have z: "empty_page (hdr h2) nn z"
    unfolding z_def F(1) by (rule init_empty) (use bs d(3) dv h2(6) h1(3) in \<open>simp_all add: bsz_def h1(1) H\<close>)
  have non: "no \<noteq> nn" using nn(2) no(3) c0(3) by (auto simp: fresh_page_def)
  have b2: "bsz h2 = bsz h" "hdr h2 = H" using F(1) h1 by (simp_all add: bsz_def H)
  have same: "same_at UNIV (tview h) (tview h2)"
    unfolding V by (rule same_at_other) (use nn(2) in \<open>simp add: fresh_page_def\<close>)
  have D: "datum h2 = datum h" "small_datum h2 = small_datum h" "span h2 = span h"
  proof -
    have g: "h_version (hdr h2) = h_version (hdr h)" "h_bsize (hdr h2) = h_bsize (hdr h)" by (simp_all add: b2 H)
    show "datum h2 = datum h" by (rule datum_same(1) [OF g]) (simp add: F h1_def)
    show "small_datum h2 = small_datum h" "span h2 = span h"
      using datap_same [OF g] by (simp_all add: fun_eq_iff small_datum_def span_def)
  qed
  have spot: "(no, c0, i) \<in> set (all_spots Cs)" if "i < page_num c0" for i
  proof -
    have "(no, c0, i) \<in> set (chain_spots [(no, c0)])" using that by (simp add: spots_def)
    moreover have "[(no, c0)] \<in> set Cs" using nth_mem [OF old] by (simp add: C)
    ultimately show ?thesis unfolding all_spots_def by (simp only: set_concat set_map) blast
  qed
  have ptr: "spot_ptr (no, c0, i) = snd (page_pair c0 i)" "spot_item (no, c0, i) = item_of no i"
    "spot_key (no, c0, i) = fst (page_pair c0 i)" for i by (simp_all add: spot_ptr_def spot_item_def spot_key_def)
  have "distinct (page_keys c0)"
  proof -
    have "distinct (map spot_key (chain_spots (Cs ! unat old)))"
      by (rule concat_distinct [of _ "map chain_spots Cs"]) (use t nth_mem [OF old] in \<open>simp_all add: all_spots_def tidy_def\<close>)
    then show ?thesis by (simp add: C spot_keys)
  qed
  then have keys: "fst (page_pair c0 i) \<noteq> fst (page_pair c0 j)" if "i < page_num c0" "j < page_num c0" "i \<noteq> j" for i j
    using that nth_eq_iff_index_eq [of "page_keys c0" i j] by (simp add: page_keys_def nth_page_pairs)
  have "\<exists>S m. ffdb_split_bucket h2 old new = Some (0, S) \<and> page_pairs m = page_pairs c0 \<and>
      split_inv (h2\<lparr>split_buf := m\<rparr>) f (tview h2) m no nn old (length (page_pairs c0)) S"
  proof (rule split_bucket_done [OF h2(2,3)])
    show "512 \<le> bsz h2" "bsz h2 \<le> 2 ^ 20" using bs d(3) b2 by simp_all
    show "split_page h2 no (tview h2) old"
      using no(1,2) c0(3,4) ch(2) F(8) non no(3) by (simp add: split_page_def b2 H h1(2) V ffdb_consts)
    show "split_page h2 nn (tview h2) new"
      using nn h2(5) z by (simp add: split_page_def b2 H V fresh_page_def empty_page_def ffdb_consts)
    show "tview h2 no = Some c0" using no(3) non by (simp add: V)
    show "tview h2 nn = Some z" by (simp add: V)
    show "\<exists>v. f (fst (page_pair c0 i)) = Some v \<and> datum h2 (tview h2) (item_of no i) (snd (page_pair c0 i)) [] v \<and>
        small_datum h2 (snd (page_pair c0 i))" if i: "i < page_num c0" for i
    proof -
      obtain v where v: "f (fst (page_pair c0 i)) = Some v" "datum h (tview h) (item_of no i) (snd (page_pair c0 i)) [] v"
        using compact_spot(2) [OF K t spot [OF i]] unfolding ptr by blast
      then have "datum h (tview h2) (item_of no i) (snd (page_pair c0 i)) [] v" using datum_frame [OF v(2) _ same] by blast
      then show ?thesis using v(1) compact_spot(1) [OF K t spot [OF i]] by (simp add: D ptr)
    qed
    show "span h2 (snd (page_pair c0 i)) \<inter> span h2 (snd (page_pair c0 j)) = {}" if "i < page_num c0" "j < page_num c0" "i \<noteq> j" for i j
      using compact_spot(4) [OF K t spot [OF that(1)] spot [OF that(2)]] keys [OF that] by (simp add: D ptr)
    have "ht_hash h2 = ht_hash h" by (simp add: F h1_def)
    then show "ht_hash h2 xs (of_nat n) = ht_hash h2 (take n xs) (of_nat n)" if "n \<le> length xs" for xs n
      using d(4) [OF that] by simp
  qed (use no c0 z non in simp_all)
  then obtain S m where S: "ffdb_split_bucket h2 old new = Some (0, S)" "page_pairs m = page_pairs c0"
      "split_inv (h2\<lparr>split_buf := m\<rparr>) f (tview h2) m no nn old (length (page_pairs c0)) S" by blast
  have "nn \<noteq> 0xffffffff" using nn(2) by (simp add: fresh_page_def INVALID_PGNO_def)
  then have run: "ffdb_expand_table h = Some (0, S)"
    using e nn(1) h2(1) S(1) by (simp add: ffdb_expand_table_def Let_def H(6) h1_def)
  obtain p where p: "h2 = h1\<lparr>mp := p\<rparr>" using h2(4) by (rule pool_stepE)
  let ?g = "h2\<lparr>split_buf := m\<rparr>"
  have "?g = h\<lparr>hdr := H, mp := p, split_buf := m\<rparr>" by (simp add: p h1_def)
  moreover have "\<forall>k. known (mp h) k \<longrightarrow> known (mp ?g) k" using F(8) by (simp add: h1(2))
  moreover have "known (mp ?g) nn" "hdr ?g = H" using h2(5) b2(2) by simp_all
  ultimately show ?thesis using run C nn no(5) S(2,3) unfolding V by blast
qed

section \<open>The chains of the grown table\<close>

definition grown_chains :: "nat \<Rightarrow> pgno \<times> mem \<Rightarrow> pgno \<times> mem \<Rightarrow> (pgno \<times> mem) list list \<Rightarrow> (pgno \<times> mem) list list" where
  "grown_chains j l r Cs = Cs[j := [l]] @ [[r]]"

lemma all_spots_append [simp]: "all_spots (Xs @ Ys) = all_spots Xs @ all_spots Ys"
  by (simp add: all_spots_def)

lemma spots_keys_pairs: "map spot_key (spots (n, p)) = map fst (page_pairs p)"
  by (simp add: spot_keys page_keys_def)

lemma mset_parts: "mset (map fst (filter P xs)) + mset (map fst (filter (Not \<circ> P) xs)) = mset (map fst xs)"
  by (induction xs) simp_all

lemma spot_pair:
  assumes "s \<in> set (spots (n, q))"
  obtains j where "s = (n, q, j)" "j < page_num q" "(spot_key s, spot_ptr s) = page_pairs q ! j" "(spot_key s, spot_ptr s) \<in> set (page_pairs q)"
proof -
  obtain j where j: "s = (n, q, j)" "j < page_num q" using assms by (auto simp: spots_def)
  then have "(spot_key s, spot_ptr s) = page_pairs q ! j" by (simp add: spot_key_def spot_ptr_def nth_page_pairs)
  then show thesis using that j nth_mem [of j "page_pairs q"] by simp
qed

lemma pair_spot: "(k, d) \<in> set (page_pairs q) \<Longrightarrow> \<exists>s\<in>set (spots (n, q)). spot_key s = k \<and> spot_ptr s = d"
  by (force simp: in_set_conv_nth spots_def spot_key_def spot_ptr_def nth_page_pairs)

lemma grown_spots:
  assumes o: "b < length Cs" "Cs ! b = [(no, c0)]"
    and L: "page_pairs L = filter P (page_pairs c0)" and N: "page_pairs N = filter (Not \<circ> P) (page_pairs c0)"
  shows "mset (map spot_key (all_spots (grown_chains b (no, L) (nn, N) Cs))) = mset (map spot_key (all_spots Cs))"
    "s \<in> set (all_spots (grown_chains b (no, L) (nn, N) Cs)) \<Longrightarrow>
      (\<exists>j < length Cs. j \<noteq> b \<and> s \<in> set (chain_spots (Cs ! j))) \<or> s \<in> set (spots (no, L)) \<or> s \<in> set (spots (nn, N))"
    "s \<in> set (all_spots (grown_chains b (no, L) (nn, N) Cs)) \<Longrightarrow>
      \<exists>u\<in>set (all_spots Cs). spot_key s = spot_key u \<and> spot_ptr s = spot_ptr u"
proof -
  have C: "Cs = take b Cs @ [(no, c0)] # drop (Suc b) Cs" using id_take_nth_drop [OF o(1)] o(2) by simp
  have G: "grown_chains b (no, L) (nn, N) Cs = take b Cs @ [(no, L)] # drop (Suc b) Cs @ [[(nn, N)]]"
    using o(1) by (simp add: grown_chains_def upd_conv_take_nth_drop)
  have A: "all_spots Cs = all_spots (take b Cs) @ spots (no, c0) @ all_spots (drop (Suc b) Cs)"
    by (subst C) simp
  have B: "all_spots (grown_chains b (no, L) (nn, N) Cs) =
      all_spots (take b Cs) @ spots (no, L) @ all_spots (drop (Suc b) Cs) @ spots (nn, N)" by (simp add: G)
  show "mset (map spot_key (all_spots (grown_chains b (no, L) (nn, N) Cs))) = mset (map spot_key (all_spots Cs))"
    unfolding A B using mset_parts [of P "page_pairs c0"] by (simp add: spots_keys_pairs L N del: mset_map)
  assume s: "s \<in> set (all_spots (grown_chains b (no, L) (nn, N) Cs))"
  have nth: "\<exists>j < length Cs. j \<noteq> b \<and> s \<in> set (chain_spots (Cs ! j))"
    if sx: "s \<in> set (all_spots (take b Cs)) \<or> s \<in> set (all_spots (drop (Suc b) Cs))"
  proof -
    obtain ps where ps: "ps \<in> set (take b Cs) \<or> ps \<in> set (drop (Suc b) Cs)" "s \<in> set (chain_spots ps)"
      using sx by (auto simp: all_spots_def)
    then obtain j where "j < length Cs" "j \<noteq> b" "ps = Cs ! j"
    proof (elim disjE)
      assume "ps \<in> set (take b Cs)"
      then obtain i where "i < b" "ps = Cs ! i" using o(1) by (auto simp: in_set_conv_nth)
      then show thesis using that [of i] o(1) by simp
    next
      assume "ps \<in> set (drop (Suc b) Cs)"
      then obtain i where "i < length Cs - Suc b" "ps = Cs ! (Suc b + i)" by (auto simp: in_set_conv_nth)
      then show thesis using that [of "Suc b + i"] by simp
    qed
    then show ?thesis using ps(2) by auto
  qed
  show "(\<exists>j < length Cs. j \<noteq> b \<and> s \<in> set (chain_spots (Cs ! j))) \<or> s \<in> set (spots (no, L)) \<or> s \<in> set (spots (nn, N))"
    using s nth by (auto simp: B)
  show "\<exists>u\<in>set (all_spots Cs). spot_key s = spot_key u \<and> spot_ptr s = spot_ptr u"
  proof (cases "s \<in> set (spots (no, L)) \<or> s \<in> set (spots (nn, N))")
    case True
    then have "(spot_key s, spot_ptr s) \<in> set (page_pairs c0)"
      using L N by (auto elim!: spot_pair)
    then obtain u where "u \<in> set (spots (no, c0))" "spot_key u = spot_key s" "spot_ptr u = spot_ptr s"
      using pair_spot [of "spot_key s" "spot_ptr s" c0 no] by blast
    moreover from this(1) have "u \<in> set (all_spots Cs)" by (simp add: A)
    ultimately show ?thesis by metis
  next
    case False
    then show ?thesis using s by (auto simp: A B)
  qed
qed

lemma grown_nth:
  assumes "b < length Cs" "j < Suc (length Cs)"
  shows "grown_chains b l r Cs ! j = (if j = length Cs then [r] else if j = b then [l] else Cs ! j)"
  using assms by (auto simp: grown_chains_def nth_append)

lemma grown_pages:
  assumes "b < length Cs" "Cs ! b = [(no, c0)]"
  shows "map fst (concat (grown_chains b (no, L) (nn, N) Cs)) = map fst (concat Cs) @ [nn]"
proof -
  have C: "Cs = take b Cs @ [(no, c0)] # drop (Suc b) Cs" using id_take_nth_drop [OF assms(1)] assms(2) by simp
  have "grown_chains b (no, L) (nn, N) Cs = take b Cs @ [(no, L)] # drop (Suc b) Cs @ [[(nn, N)]]"
    using assms(1) by (simp add: grown_chains_def upd_conv_take_nth_drop)
  moreover have "map fst (concat Cs) = map fst (concat (take b Cs)) @ no # map fst (concat (drop (Suc b) Cs))"
    by (subst C) simp
  ultimately show ?thesis by simp
qed

text \<open>Where nothing below the data of a page changes, its header does not.\<close>

lemma same_at_header:
  assumes "same_at F V W" "V k = Some p" "PTYPE p = ucast HASH_DATA_PAGE" "32 \<le> length p" "\<And>a. a < 32 \<Longrightarrow> (k, a) \<in> F"
  obtains q where "W k = Some q" "CURR_PGNO q = CURR_PGNO p" "PTYPE q = PTYPE p" "OFFSET q = OFFSET p" "NUM_ENT q = NUM_ENT p"
proof -
  obtain q where q: "W k = Some q" "length q = length p" "CURR_PGNO q = CURR_PGNO p" "PTYPE q = PTYPE p"
    "\<And>a. (k, a) \<in> F \<Longrightarrow> a < length p \<Longrightarrow> q ! a = p ! a"
    by (rule same_atD [OF assms(1-3)]) (rule that)
  have g: "mem_get q a n = mem_get p a n" if "a + n \<le> 32" for a n
    by (rule mem_get_eq [OF q(2)]) (use that q(5) assms(5) in simp)
  have "OFFSET q = OFFSET p" "NUM_ENT q = NUM_ENT p"
    using g by (simp_all add: OFFSET_def NUM_ENT_def rd32_def rd16_def)
  then show thesis using that q by blast
qed

section \<open>What a split leaves\<close>

text \<open>
  The table after the split: the two pages with the pairs of the old one, and all other pages
  as before, up to the headers of the data that were moved.
\<close>

definition half_page :: "htab \<Rightarrow> (mem \<Rightarrow> mem option) \<Rightarrow> htab \<Rightarrow> pgno \<Rightarrow> mem \<Rightarrow> bool" where
  "half_page h f S n q \<longleftrightarrow> tview S n = Some q \<and> CURR_PGNO q = n \<and> NEXT_PGNO q = INVALID_PGNO \<and> PTYPE q = ucast HASH_BUCKET_PAGE \<and>
     bucket_wf q \<and> packed q \<and> (page_pairs q = [] \<longrightarrow> blank_header (hdr h) q) \<and>
     (\<forall>s\<in>set (spots (n, q)). \<exists>v. f (spot_key s) = Some v \<and> datum h (tview S) (spot_item s) (spot_ptr s) [] v)"

definition split_done :: "htab \<Rightarrow> (mem \<Rightarrow> mem option) \<Rightarrow> u32 \<Rightarrow> hashhdr \<Rightarrow> pgno \<Rightarrow> pgno \<Rightarrow> mem \<Rightarrow> mem \<Rightarrow> mem \<Rightarrow> htab \<Rightarrow> bool" where
  "split_done h f old H no nn c0 L N S \<longleftrightarrow> tsession S {} \<and> theld S = Map.empty \<and> hdr S = H \<and> ht_hash S = ht_hash h \<and>
     h_compare S = h_compare h \<and> rdonly S = rdonly h \<and> curr_dpage S = curr_dpage h \<and> data_valid_flag S = data_valid_flag h \<and>
     (\<forall>k. known (mp h) k \<longrightarrow> known (mp S) k) \<and> known (mp S) nn \<and> half_page h f S no L \<and> half_page h f S nn N \<and>
     page_pairs L = filter (goes_old S old) (page_pairs c0) \<and> page_pairs N = filter (Not \<circ> goes_old S old) (page_pairs c0) \<and>
     same_at (- moved_headers h (page_pairs c0)) (tview h) (tview S) \<and>
     (\<forall>k p. tview h k = Some p \<longrightarrow> PTYPE p \<noteq> ucast HASH_DATA_PAGE \<longrightarrow> k \<noteq> no \<longrightarrow> k \<noteq> nn \<longrightarrow> tview S k = Some p)"

lemma half_is_page:
  assumes "half g f S n ps" "datum g = datum h" "blank_header (hdr g) = blank_header (hdr h)"
  obtains q where "half_page h f S n q" "page_pairs q = ps"
proof -
  obtain q where q: "tview S n = Some q" "CURR_PGNO q = n" "NEXT_PGNO q = INVALID_PGNO" "PTYPE q = ucast HASH_BUCKET_PAGE"
    "bucket_wf q" "packed q" "page_pairs q = ps" "ps = [] \<longrightarrow> blank_header (hdr g) q" using assms(1) by (auto simp: half_def)
  have "\<exists>v. f (spot_key s) = Some v \<and> datum h (tview S) (spot_item s) (spot_ptr s) [] v" if s: "s \<in> set (spots (n, q))" for s
  proof -
    obtain j where j: "s = (n, q, j)" "j < page_num q" "(spot_key s, spot_ptr s) = page_pairs q ! j" by (rule spot_pair [OF s])
    have l: "j < length ps" using j(2) q(7) length_page_pairs [of q] by simp
    obtain v where "f (fst (ps ! j)) = Some v" "datum g (tview S) (item_of n j) (snd (ps ! j)) [] v"
      using assms(1) l unfolding half_def by blast
    moreover have "fst (ps ! j) = spot_key s" "snd (ps ! j) = spot_ptr s" using j(3) q(7) by (metis fst_conv, metis snd_conv)
    ultimately show ?thesis using j(1) by (auto simp: assms(2) spot_item_def)
  qed
  then show thesis using q assms(3) by (intro that [of q]) (simp_all add: half_page_def)
qed

lemma expand_split:
  assumes K: "kept_compact h f" and t: "tidy h Cs" and e: "expand_header (hdr h) = Some (old, new, False, H)"
    and c: "can_split h old new" and old: "unat old < length Cs"
  shows "\<exists>S no nn c0 L N. ffdb_expand_table h = Some (0, S) \<and> Cs ! unat old = [(no, c0)] \<and>
    BUCKET_TO_PAGE (hdr h) new = Some nn \<and> fresh_page h nn \<and> split_done h f old H no nn c0 L N S"
proof -
  note H = expand_header_same [OF e]
  obtain S g m no nn c0 z p x where R: "ffdb_expand_table h = Some (0, S)" "Cs ! unat old = [(no, c0)]"
    "BUCKET_TO_PAGE (hdr h) new = Some nn" "fresh_page h nn" "page_pairs m = page_pairs c0"
    "split_inv g f ((tview h)(nn \<mapsto> z)) m no nn old (length (page_pairs c0)) S" "known (mp g) nn" "hdr g = H"
    "\<forall>k. known (mp h) k \<longrightarrow> known (mp g) k" "g = h\<lparr>hdr := H, mp := p, split_buf := x\<rparr>"
    using expand_runs [OF assms] by blast
  have I: "tsession S {}" "theld S = Map.empty" "pool_step g S" "half g f S no (filter (goes_old g old) (page_pairs c0))"
    "half g f S nn (filter (Not \<circ> goes_old g old) (page_pairs c0))"
    "same_at (- moved_headers g (page_pairs c0)) ((tview h)(nn \<mapsto> z)) (tview S)"
    "\<And>k p. ((tview h)(nn \<mapsto> z)) k = Some p \<Longrightarrow> PTYPE p \<noteq> ucast HASH_DATA_PAGE \<Longrightarrow> k \<noteq> no \<Longrightarrow> k \<noteq> nn \<Longrightarrow> tview S k = Some p"
    using R(6) by (simp_all add: split_inv_def R(5))
  note F = pool_step_fields [OF I(3)]
  have hv: "h_version (hdr g) = h_version (hdr h)" "h_bsize (hdr g) = h_bsize (hdr h)" by (simp_all add: R(8) H)
  have D: "datum g = datum h" by (rule datum_same(1) [OF hv]) (simp add: R(10))
  have hs: "header_span g = header_span h" using datap_same [OF hv] by (simp add: fun_eq_iff header_span_def)
  have bl: "blank_header (hdr g) = blank_header (hdr h)" by (simp add: R(8) H)
  have go: "goes_old S = goes_old g" by (simp add: fun_eq_iff goes_old_def same_bucket [OF I(3)])
  obtain L where L: "half_page h f S no L" "page_pairs L = filter (goes_old g old) (page_pairs c0)"
    by (rule half_is_page [OF I(4) D bl])
  obtain N where N: "half_page h f S nn N" "page_pairs N = filter (Not \<circ> goes_old g old) (page_pairs c0)"
    by (rule half_is_page [OF I(5) D bl])
  have "same_at (- moved_headers h (page_pairs c0)) (tview h) ((tview h)(nn \<mapsto> z))"
    by (rule same_at_other) (use R(4) in \<open>simp add: fresh_page_def\<close>)
  then have "same_at (- moved_headers h (page_pairs c0)) (tview h) (tview S)"
    using same_at_trans I(6) by (simp add: moved_headers_def hs)
  moreover have "tview S k = Some p" if "tview h k = Some p" "PTYPE p \<noteq> ucast HASH_DATA_PAGE" "k \<noteq> no" "k \<noteq> nn" for k p
    using I(7) [of k p] that by simp
  ultimately have "split_done h f old H no nn c0 L N S"
    unfolding split_done_def go using I(1,2) L N R(7-9) F by (simp add: R(10))
  then show ?thesis using R(1-4) by blast
qed

section \<open>Growing keeps the table\<close>

lemma chain_known_type: "chain V n ps \<Longrightarrow> (j, q) \<in> set ps \<Longrightarrow> V j = Some q \<and> PTYPE q = ucast HASH_BUCKET_PAGE"
  by (drule (1) chain_wf) simp

text \<open>The other buckets.\<close>

lemma split_other:
  assumes t: "tidy h Cs" and b: "b < length Cs" "Cs ! b = [(no, c0)]" and fr: "fresh_page h nn"
    and S: "split_done h f old H no nn c0 L N S" and j: "j < length Cs" "j \<noteq> b" and ch: "chain (tview h) n (Cs ! j)"
  shows "chain (tview S) n (Cs ! j)"
proof (rule chain_cong [OF ch])
  fix k p assume kp: "(k, p) \<in> set (Cs ! j)"
  have p: "tview h k = Some p" "PTYPE p = ucast HASH_BUCKET_PAGE" using chain_known_type [OF ch kp] by simp_all
  have "k \<noteq> nn" using p fr by (auto simp: fresh_page_def)
  moreover have "k \<noteq> no"
  proof
    assume "k = no"
    have C: "Cs = take b Cs @ [(no, c0)] # drop (Suc b) Cs" using id_take_nth_drop [OF b(1)] b(2) by simp
    have "distinct (map fst (concat (take b Cs @ [(no, c0)] # drop (Suc b) Cs)))" using t C by (simp add: tidy_def)
    then have "no \<notin> fst ` set (concat (take b Cs))" "no \<notin> fst ` set (concat (drop (Suc b) Cs))" by auto
    moreover have "Cs ! j \<in> set (take b Cs) \<or> Cs ! j \<in> set (drop (Suc b) Cs)"
    proof (cases "j < b")
      case True
      then show ?thesis using b(1) by (auto simp: in_set_conv_nth intro!: exI [of _ j])
    next
      case False
      then have "Suc b \<le> j" using j(2) by simp
      then show ?thesis using j(1) by (auto simp: in_set_conv_nth intro!: exI [of _ "j - Suc b"])
    qed
    ultimately show False using kp \<open>k = no\<close> by force
  qed
  ultimately show "tview S k = tview h k" using S p by (simp add: split_done_def ffdb_consts)
qed

lemma half_bucket:
  assumes "half_page h f S n q" "n \<noteq> 0" "n \<noteq> INVALID_PGNO" "blank_header (hdr S) = blank_header (hdr h)"
  shows "bucket_chain (hdr S) (tview S) n [(n, q)]"
proof -
  have "NUM_ENT q = 0 \<Longrightarrow> page_pairs q = []" by (simp add: page_pairs_def page_num_def)
  then show ?thesis using assms by (auto simp: half_page_def bucket_chain_def)
qed

lemma split_tidy:
  assumes t: "tidy h Cs" and e: "expand_header (hdr h) = Some (old, new, False, H)" and m: "masks_ok (hdr h) k"
    and mx: "unat (h_max_bucket (hdr h)) + 1 < 2 ^ 31"
    and b: "Cs ! unat old = [(no, c0)]" and nn: "BUCKET_TO_PAGE (hdr h) new = Some nn" "fresh_page h nn"
    and S: "split_done h f old H no nn c0 L N S"
  shows "tidy S (grown_chains (unat old) (no, L) (nn, N) Cs)"
proof -
  let ?Cs = "grown_chains (unat old) (no, L) (nn, N) Cs"
  note E = expand_header_masks [OF m mx e] and H = expand_header_same [OF e]
  have T: "length Cs = Suc (unat (h_max_bucket (hdr h)))" "\<forall>j < length Cs. (\<exists>n. BUCKET_TO_PAGE (hdr h) (of_nat j) = Some n \<and>
      bucket_chain (hdr h) (tview h) n (Cs ! j)) \<and> (\<forall>np\<in>set (tl (Cs ! j)). 0 < page_num (snd np))"
    "\<forall>j < length Cs. \<forall>s\<in>set (chain_spots (Cs ! j)). bucket_of h (spot_key s) = of_nat j"
    "distinct (map spot_key (all_spots Cs))" "distinct (map fst (concat Cs))"
    using t by (simp_all add: tidy_def buckets_iff placed_iff)
  have D: "hdr S = H" "half_page h f S no L" "half_page h f S nn N" "ht_hash S = ht_hash h"
    "page_pairs L = filter (goes_old S old) (page_pairs c0)" "page_pairs N = filter (Not \<circ> goes_old S old) (page_pairs c0)"
    using S by (simp_all add: split_done_def)
  have lt: "unat old < length Cs" "unat new = length Cs" "(2::nat) ^ k > 0"
  proof -
    have "unat new mod 2 ^ k < 2 ^ k" by simp
    moreover have "2 ^ k \<le> unat (h_max_bucket (hdr h))" using m by (simp add: masks_ok_def)
    ultimately show "unat old < length Cs" using E(3) T(1) by linarith
  qed (use E(1) T(1) in simp_all)
  have bk: "of_nat (unat old) = old" "of_nat (length Cs) = new" using lt(2) by (simp_all add: lt(2) [symmetric])
  note G = grown_spots [OF lt(1) b D(5,6), where nn = nn]
  have law: "bucket_of S x = bucket_of h x \<or> bucket_of h x = old \<and> bucket_of S x = new" for x
    using call_hash_grow [OF m mx e] by (simp add: bucket_of_def D(1,4))
  have range: "bucket_of S x \<le> h_max_bucket (hdr S)" for x
    unfolding bucket_of_def D(1) by (rule call_hash_in_range [OF E(4)])
  have nz: "no \<noteq> 0" "no \<noteq> INVALID_PGNO" "BUCKET_TO_PAGE (hdr h) old = Some no"
  proof -
    obtain n where n: "BUCKET_TO_PAGE (hdr h) (of_nat (unat old)) = Some n" "bucket_chain (hdr h) (tview h) n (Cs ! unat old)"
      using T(2) lt(1) by blast
    then have "n = no" using b by (simp add: bucket_chain_def)
    then show "no \<noteq> 0" "no \<noteq> INVALID_PGNO" "BUCKET_TO_PAGE (hdr h) old = Some no"
      using n b bk(1) by (auto simp: bucket_chain_def)
  qed
  have fr: "nn \<noteq> 0" "nn \<noteq> INVALID_PGNO" using nn(2) by (simp_all add: fresh_page_def)
  have bl: "blank_header (hdr S) = blank_header (hdr h)" "bucket_chain (hdr S) = bucket_chain (hdr h)"
    "BUCKET_TO_PAGE (hdr S) = BUCKET_TO_PAGE (hdr h)" by (simp_all add: D(1) H)
  have chains: "(\<exists>n. BUCKET_TO_PAGE (hdr S) (of_nat j) = Some n \<and> bucket_chain (hdr S) (tview S) n (?Cs ! j)) \<and>
      (\<forall>np\<in>set (tl (?Cs ! j)). 0 < page_num (snd np))" if j: "j < Suc (length Cs)" for j
  proof -
    consider "j = length Cs" | "j = unat old" | "j < length Cs" "j \<noteq> unat old" using j by linarith
    then show ?thesis
    proof cases
      case 1
      then show ?thesis using grown_nth [OF lt(1) j] half_bucket [OF D(3) fr bl(1)] nn(1) bk(2) by (simp add: bl(3))
    next
      case 2
      then show ?thesis using grown_nth [OF lt(1) j] half_bucket [OF D(2) nz(1,2) bl(1)] nz(3) lt(1) by (simp add: bl(3))
    next
      case 3
      obtain n where n: "BUCKET_TO_PAGE (hdr h) (of_nat j) = Some n" "bucket_chain (hdr h) (tview h) n (Cs ! j)"
        "\<forall>np\<in>set (tl (Cs ! j)). 0 < page_num (snd np)" using T(2) 3(1) by blast
      have "chain (tview S) n (Cs ! j)"
        by (rule split_other [OF t lt(1) b nn(2) S 3]) (use n(2) in \<open>simp add: bucket_chain_def\<close>)
      then have "bucket_chain (hdr S) (tview S) n (Cs ! j)" using n(2) by (simp add: bl(2)) (simp add: bucket_chain_def)
      then show ?thesis using grown_nth [OF lt(1) j] 3 n(1,3) by (simp add: bl(3))
    qed
  qed
  have len: "length ?Cs = Suc (length Cs)" by (simp add: grown_chains_def)
  have "buckets (hdr S) (tview S) 0 ?Cs"
    unfolding buckets_iff len add_0 using chains E(2) lt(2) by (simp add: D(1))
  moreover have "placed S 0 ?Cs"
    unfolding placed_iff len add_0
  proof (intro allI impI ballI)
    fix j s assume j: "j < Suc (length Cs)" and s: "s \<in> set (chain_spots (?Cs ! j))"
    consider "j = length Cs" | "j = unat old" | "j < length Cs" "j \<noteq> unat old" using j by linarith
    then show "bucket_of S (spot_key s) = of_nat j"
    proof cases
      case 1
      then have "s \<in> set (spots (nn, N))" using s grown_nth [OF lt(1) j] by simp
      then have p: "(spot_key s, spot_ptr s) \<in> set (page_pairs N)" by (auto elim!: spot_pair)
      then have "bucket_of S (spot_key s) \<noteq> old" by (simp add: D(6) goes_old_def)
      moreover have "(spot_key s, spot_ptr s) \<in> set (page_pairs c0)" using p by (simp add: D(6))
      then obtain u where "u \<in> set (spots (no, c0))" "spot_key u = spot_key s" using pair_spot [of _ _ c0 no] by blast
      then have "bucket_of h (spot_key s) = old" using T(3) lt(1) b bk(1) by fastforce
      ultimately show ?thesis using law [of "spot_key s"] 1 bk(2) by auto
    next
      case 2
      then have "s \<in> set (spots (no, L))" using s grown_nth [OF lt(1) j] lt(1) by simp
      then have "(spot_key s, spot_ptr s) \<in> set (page_pairs L)" by (auto elim!: spot_pair)
      then show ?thesis using 2 bk(1) by (simp add: D(5) goes_old_def)
    next
      case 3
      then have "bucket_of h (spot_key s) = of_nat j" using T(3) s grown_nth [OF lt(1) j] by simp
      moreover have "of_nat j \<noteq> old"
      proof
        assume "of_nat j = old"
        moreover have "j < 2 ^ 32" using 3(1) T(1) mx by simp
        ultimately show False using 3(2) by (auto simp: unsigned_of_nat take_bit_nat_eq_self)
      qed
      ultimately show ?thesis using law [of "spot_key s"] by auto
    qed
  qed
  moreover have "distinct (map spot_key (all_spots ?Cs))" using G(1) T(4) mset_eq_imp_distinct_iff by metis
  moreover have "distinct (map fst (concat ?Cs))"
  proof -
    have "nn \<notin> set (map fst (concat Cs))"
    proof
      assume "nn \<in> set (map fst (concat Cs))"
      then obtain q ps where q: "(nn, q) \<in> set ps" "ps \<in> set Cs" by auto
      then obtain j where "j < length Cs" "ps = Cs ! j" by (auto simp: in_set_conv_nth)
      then obtain n where "chain (tview h) n ps" using T(2) by (auto simp: bucket_chain_def)
      then show False using chain_known_type q(1) nn(2) by (fastforce simp: fresh_page_def)
    qed
    then show ?thesis unfolding grown_pages [OF lt(1) b] using T(5) by simp
  qed
  ultimately show ?thesis using range by (simp add: tidy_def)
qed

lemma split_data_page:
  assumes S: "split_done h f old H no nn c0 L N S" and K: "kept_compact h f" and c0: "\<And>i. i < page_num c0 \<Longrightarrow> 32 \<le> unat (datap_roff h (snd (page_pair c0 i)))"
    and sp: "h_spares H = h_spares (hdr h)" "h_ovfl_point H = h_ovfl_point (hdr h)" "h_bsize H = h_bsize (hdr h)" and bs: "512 \<le> bsz h"
    and p: "data_page_ok h p"
  obtains q where "data_page_ok S q" "free_from (bsz S) q = free_from (bsz h) p"
proof -
  have s: "tsession h {}" using K keptD(4) by (auto simp: kept_compact_def db_ok_def)
  have F: "hdr S = H" "curr_dpage S = curr_dpage h" "\<forall>k. known (mp h) k \<longrightarrow> known (mp S) k"
    "same_at (- moved_headers h (page_pairs c0)) (tview h) (tview S)" using S by (simp_all add: split_done_def)
  have P: "tview h (curr_dpage h) = Some p" "PTYPE p = ucast HASH_DATA_PAGE" using p by (simp_all add: data_page_ok_def)
  have l: "32 \<le> length p" using tview_length [OF s P(1)] bs by (simp add: bsz_def)
  have low: "(curr_dpage h, a) \<in> - moved_headers h (page_pairs c0)" if a: "a < 32" for a
  proof
    assume "(curr_dpage h, a) \<in> moved_headers h (page_pairs c0)"
    then obtain e where e: "e \<in> set (page_pairs c0)" "(curr_dpage h, a) \<in> header_span h (snd e)" by (auto simp: moved_headers_def)
    then obtain i where "i < page_num c0" "e = page_pair c0 i" by (auto simp: in_set_conv_nth nth_page_pairs)
    then have "32 \<le> a" using c0 [of i] e(2) by (auto simp: header_span_def)
    then show False using a by simp
  qed
  obtain q where q: "tview S (curr_dpage h) = Some q" "CURR_PGNO q = CURR_PGNO p" "PTYPE q = PTYPE p" "OFFSET q = OFFSET p"
    "NUM_ENT q = NUM_ENT p" by (rule same_at_header [OF F(4) P l low])
  have "bsz S = bsz h" by (simp add: bsz_def F(1) sp(3))
  then have f: "free_from (bsz S) q = free_from (bsz h) p" by (simp add: free_from_def q(4))
  have "data_page_ok S q" using p q F(3) unfolding data_page_ok_def f by (simp add: F(1,2) sp)
  then show thesis using f by (rule that)
qed

lemma expand_kept:
  assumes K: "kept_compact h f" and m: "masks_ok (hdr h) k" and mx: "unat (h_max_bucket (hdr h)) + 1 < 2 ^ 31"
    and e: "expand_header (hdr h) = Some (old, new, False, H)" and c: "can_split h old new"
  shows "\<exists>S. ffdb_expand_table h = Some (0, S) \<and> kept_compact S f \<and> hdr S = H"
proof -
  note E = expand_header_masks [OF m mx e] and H = expand_header_same [OF e]
  obtain Cs where t: "tidy h Cs" using K by (auto simp: kept_compact_def kept_def)
  have k: "kept h f" "one_page h" "db_ok h" "\<not> rdonly h" using K keptD by (auto simp: kept_compact_def)
  have d: "h_compare h = ham_defcmp" "flag_ok h" "bsz h \<le> 2 ^ 20"
    "\<forall>xs n. n \<le> length xs \<longrightarrow> ht_hash h xs (of_nat n) = ht_hash h (take n xs) (of_nat n)"
    using k(3) unfolding db_ok_def by blast+
  have old: "unat old < length Cs"
  proof -
    have "length Cs = Suc (unat (h_max_bucket (hdr h)))" using t by (simp add: tidy_def buckets_iff)
    moreover have "unat new mod 2 ^ k < 2 ^ k" by simp
    moreover have "2 ^ k \<le> unat (h_max_bucket (hdr h))" using m by (simp add: masks_ok_def)
    ultimately show ?thesis using E(3) by linarith
  qed
  obtain S no nn c0 L N where R: "ffdb_expand_table h = Some (0, S)" "Cs ! unat old = [(no, c0)]"
    "BUCKET_TO_PAGE (hdr h) new = Some nn" "fresh_page h nn" "split_done h f old H no nn c0 L N S"
    using expand_split [OF K t e c old] by blast
  note T = split_tidy [OF t e m mx R(2-5)]
  let ?Cs = "grown_chains (unat old) (no, L) (nn, N) Cs"
  have D: "tsession S {}" "theld S = Map.empty" "hdr S = H" "ht_hash S = ht_hash h" "h_compare S = h_compare h" "rdonly S = rdonly h"
    "curr_dpage S = curr_dpage h" "data_valid_flag S = data_valid_flag h" "\<And>k. known (mp h) k \<Longrightarrow> known (mp S) k" "known (mp S) nn"
    "half_page h f S no L" "half_page h f S nn N" "page_pairs L = filter (goes_old S old) (page_pairs c0)"
    "page_pairs N = filter (Not \<circ> goes_old S old) (page_pairs c0)"
    "same_at (- moved_headers h (page_pairs c0)) (tview h) (tview S)"
    using R(5) by (simp_all add: split_done_def)
  note G = grown_spots [OF old R(2) D(13,14), where nn = nn]
  have hv: "h_version (hdr S) = h_version (hdr h)" "h_bsize (hdr S) = h_bsize (hdr h)" by (simp_all add: D(3) H)
  note same = datum_same [OF hv D(8)] and dsame = datap_same [OF hv]
  have sm: "small_datum S = small_datum h" "span S = span h" by (simp_all add: fun_eq_iff small_datum_def span_def dsame)
  obtain p where p: "data_page_ok h p" using db_data_page [OF k(3)] by blast
  have spot0: "(no, c0, i) \<in> set (all_spots Cs)" if "i < page_num c0" for i
  proof -
    have "(no, c0, i) \<in> set (chain_spots [(no, c0)])" using that by (simp add: spots_def)
    moreover have "[(no, c0)] \<in> set Cs" using nth_mem [OF old] by (simp add: R(2))
    ultimately show ?thesis unfolding all_spots_def by (simp only: set_concat set_map) blast
  qed
  have ro: "32 \<le> unat (datap_roff h (snd (page_pair c0 i)))" if "i < page_num c0" for i
    using compact_spot(2) [OF K t spot0 [OF that]] by (auto simp: spot_ptr_def datum_def ffdb_consts)
  have bs: "512 \<le> bsz h" using c by (simp add: can_split_def)
  obtain q where q: "data_page_ok S q" "free_from (bsz S) q = free_from (bsz h) p"
    by (rule split_data_page [OF R(5) K ro H(4,5,1) bs p])
  have dat: "\<exists>v. f (spot_key s) = Some v \<and> datum h (tview S) (spot_item s) (spot_ptr s) [] v" if s: "s \<in> set (all_spots ?Cs)" for s
    using G(2) [OF s]
  proof (elim disjE exE conjE)
    fix j assume j: "j < length Cs" "j \<noteq> unat old" "s \<in> set (chain_spots (Cs ! j))"
    then have u: "s \<in> set (all_spots Cs)" unfolding all_spots_def by auto
    obtain v where v: "f (spot_key s) = Some v" "datum h (tview h) (spot_item s) (spot_ptr s) [] v" using compact_spot(2) [OF K t u] by blast
    have "span h (spot_ptr s) \<inter> moved_headers h (page_pairs c0) = {}"
    proof (rule equals0I)
      fix z assume z: "z \<in> span h (spot_ptr s) \<inter> moved_headers h (page_pairs c0)"
      then obtain x where x: "x \<in> set (page_pairs c0)" "z \<in> header_span h (snd x)" by (auto simp: moved_headers_def)
      then obtain w where w: "w \<in> set (spots (no, c0))" "spot_key w = fst x" "spot_ptr w = snd x"
        using pair_spot [of "fst x" "snd x" c0 no] by auto
      then have wa: "w \<in> set (all_spots Cs)" using spot0 by (auto simp: spots_def)
      have "spot_key s \<noteq> spot_key w"
      proof
        assume "spot_key s = spot_key w"
        moreover have "placed h 0 Cs" using t by (simp add: tidy_def)
        then have "bucket_of h (spot_key s) = of_nat j" "bucket_of h (spot_key w) = of_nat (unat old)"
          using j w(1) old R(2) unfolding placed_iff by fastforce+
        ultimately have "(of_nat j :: u32) = old" by simp
        moreover have "length Cs = Suc (unat (h_max_bucket (hdr h)))" using t by (simp add: tidy_def buckets_iff)
        then have "j < 2 ^ 32" using j(1) mx by simp
        ultimately show False using j(2) by (auto simp: unsigned_of_nat take_bit_nat_eq_self)
      qed
      then have "span h (spot_ptr s) \<inter> span h (spot_ptr w) = {}" by (rule compact_spot(4) [OF K t u wa])
      then show False using z x(2) w(3) header_in_span by fastforce
    qed
    then have "datum h (tview S) (spot_item s) (spot_ptr s) [] v"
      by (rule datum_stays [OF v(2) compact_spot(1) [OF K t u] D(15)])
    then show ?thesis using v(1) by blast
  qed (use D(11,12) in \<open>auto simp: half_page_def\<close>)
  have "kept_compact S f"
  proof (rule compact_intro [OF _ T _ q(1)])
    have "flag_ok S" "bsz S = bsz h" using d(2) same(3,4) by simp_all
    then show "quiet S" unfolding quiet_def D(4,5,6) using D(1,2) d k(4) by (intro conjI) (assumption | simp only:)+
    show "known (mp S) n" if n: "BUCKET_TO_PAGE (hdr S) (bucket_of S x) = Some n" for x n
    proof -
      have "bucket_of S x = bucket_of h x \<or> bucket_of h x = old \<and> bucket_of S x = new"
        using call_hash_grow [OF m mx e] by (simp add: bucket_of_def D(3,4))
      then show ?thesis
      proof (elim disjE conjE)
        assume "bucket_of S x = bucket_of h x"
        moreover obtain ps where "bucket_pages h x ps" using db_pages [OF k(3)] by blast
        ultimately show ?thesis using n D(9) by (auto simp: bucket_pages_def D(3) H)
      qed (use n R(3) D(10) in \<open>simp add: D(3) H\<close>)
    qed
    fix s assume s: "s \<in> set (all_spots ?Cs)"
    obtain u where u: "u \<in> set (all_spots Cs)" "spot_key s = spot_key u" "spot_ptr s = spot_ptr u" using G(3) [OF s] by blast
    obtain v where v: "f (spot_key s) = Some v" "datum h (tview S) (spot_item s) (spot_ptr s) [] v" using dat [OF s] by blast
    have small: "small_datum h (spot_ptr s)" using compact_spot(1) [OF K t u(1)] u(3) by simp
    obtain w where w: "datum h (tview h) (spot_item u) (spot_ptr u) [] w" using compact_spot(2) [OF K t u(1)] by blast
    have "\<forall>a. (curr_dpage h, a) \<in> span h (spot_ptr u) \<longrightarrow> a < free_from (bsz h) p"
      using compact_spot(3) [OF K t u(1) p] unfolding datum_below_foot [OF w] small_foot [OF w small [unfolded u(3)]] .
    then have "\<forall>a. (curr_dpage h, a) \<in> span h (spot_ptr s) \<longrightarrow> a < free_from (bsz h) p" unfolding u(3) .
    then have "datum_below h (tview S) (curr_dpage h) (free_from (bsz h) p) (spot_ptr s)"
      unfolding datum_below_foot [OF v(2)] small_foot [OF v(2) small] .
    then show "small_datum S (spot_ptr s) \<and> (\<exists>v ns. f (spot_key s) = Some v \<and>
        datum S (tview S) (spot_item s) (spot_ptr s) ns v \<and> datum_below S (tview S) (curr_dpage S) (free_from (bsz S) q) (spot_ptr s))"
      using v small by (auto simp: same sm q(2) [unfolded same(3)] D(7))
    fix s' assume s': "s' \<in> set (all_spots ?Cs)" and ne: "spot_key s \<noteq> spot_key s'"
    obtain u' where u': "u' \<in> set (all_spots Cs)" "spot_key s' = spot_key u'" "spot_ptr s' = spot_ptr u'" using G(3) [OF s'] by blast
    show "span S (spot_ptr s) \<inter> span S (spot_ptr s') = {}"
      using compact_spot(4) [OF K t u(1) u'(1)] u u' ne by (simp add: sm)
  next
    fix x v assume "f x = Some v"
    then have "x \<in> set (map spot_key (all_spots Cs))" using tidy_complete [OF keptD(1) [OF k(1)] t] by simp
    then have "x \<in># mset (map spot_key (all_spots ?Cs))" by (simp only: G(1)) (simp only: set_mset_mset)
    then show "x \<in> spot_key ` set (all_spots ?Cs)" by (simp only: set_mset_mset set_map)
  qed
  then show ?thesis using R(1) D(3) by blast
qed

end
