(* ===== verification/FFDB_Expand.thy ===== *)
theory FFDB_Expand
  imports FFDB_Grow
begin

text \<open>
  What a user relies on when a bucket is added: the table keeps its map. A table of three
  buckets with two pairs in the bucket that is split.
\<close>

section \<open>A table of three buckets\<close>

text \<open>
  Buckets 0, 1 and 2 on pages 3, 6 and 7, page 8 for the next one, and the data page 9, all
  not yet on the disk.
\<close>

definition wit_grow_hdr :: hashhdr where
  "wit_grow_hdr = wit_db_hdr\<lparr>h_max_bucket := 2, h_high_mask := 3, h_low_mask := 1, h_ovfl_point := 2,
     h_spares := [3, 6, 7, 10] @ replicate 28 0\<rparr>"

definition wit_grow_bkt :: "pgno \<Rightarrow> mem \<Rightarrow> bkt" where
  "wit_grow_bkt n m = (wit_db_bkt n HASH_BUCKET_PAGE)\<lparr>b_page := m\<rparr>"

definition wit_grow_pool :: "mem \<Rightarrow> mem \<Rightarrow> pagepool" where
  "wit_grow_pool c p = wit_pool\<lparr>lqh := [2, 3, 4, 5], hqh := (\<lambda>_. [])(2 := [2], 5 := [3], 6 := [4], 8 := [5]), next_bkt := 6,
     curcache := 4, bkts := [2 \<mapsto> wit_grow_bkt 3 (wit_new_page 3 HASH_BUCKET_PAGE), 3 \<mapsto> wit_grow_bkt 6 c,
       4 \<mapsto> wit_grow_bkt 7 (wit_new_page 7 HASH_BUCKET_PAGE), 5 \<mapsto> wit_grow_bkt 9 p]\<rparr>"

definition wit_grow :: "mem \<Rightarrow> mem \<Rightarrow> htab" where
  "wit_grow c p = wit_db\<lparr>hdr := wit_grow_hdr, mp := wit_grow_pool c p, curr_dpage := 9\<rparr>"

lemma wit_grow_fields: "hdr (wit_grow c p) = wit_grow_hdr" "ht_hash (wit_grow c p) = ham_func5" "h_compare (wit_grow c p) = ham_defcmp"
  "rdonly (wit_grow c p) = False" "curr_dpage (wit_grow c p) = 9" "mp (wit_grow c p) = wit_grow_pool c p"
  "data_valid_flag (wit_grow c p) = DATA_VALID"
  by (simp_all add: wit_grow_def wit_db_fields)

lemma wit_grow_hdr_fields: "h_bsize wit_grow_hdr = 512" "h_lorder wit_grow_hdr = LITTLE_ENDIAN" "h_max_bucket wit_grow_hdr = 2"
  "h_high_mask wit_grow_hdr = 3" "h_low_mask wit_grow_hdr = 1" "h_ovfl_point wit_grow_hdr = 2"
  "h_spares wit_grow_hdr = [3, 6, 7, 10] @ replicate 28 0" "h_version wit_grow_hdr = 6"
  by (simp_all add: wit_grow_hdr_def wit_db_hdr_fields)

text \<open>A page as the pool may hold it.\<close>

definition wit_page_ok :: "mem \<Rightarrow> bool" where
  "wit_page_ok m \<longleftrightarrow> length m = 512 \<and> PAGE_SIGN m = FFDB_PAGE_MAGIC \<and> page_content m = m"

lemma wit_page_ok_new [simp]: "wit_page_ok (wit_new_page n t)"
  by (simp add: wit_page_ok_def wit_new_page_fields)

lemma wit_grow_pool_fields: "lqh (wit_grow_pool c p) = [2, 3, 4, 5]" "num_waiters (wit_grow_pool c p) b = 0"
  "bkt_pgno (wit_grow_pool c p) 2 = 3" "bkt_pgno (wit_grow_pool c p) 3 = 6" "bkt_pgno (wit_grow_pool c p) 4 = 7"
  "bkt_pgno (wit_grow_pool c p) 5 = 9" "bkt_page (wit_grow_pool c p) 2 = wit_new_page 3 HASH_BUCKET_PAGE"
  "bkt_page (wit_grow_pool c p) 3 = c" "bkt_page (wit_grow_pool c p) 4 = wit_new_page 7 HASH_BUCKET_PAGE"
  "bkt_page (wit_grow_pool c p) 5 = p" "\<not> pinned (wit_grow_pool c p) b"
  "b \<in> {2, 3, 4, 5} \<Longrightarrow> dirty (wit_grow_pool c p) b" "page_size (wit_grow_pool c p) = 512"
  "hqh (wit_grow_pool c p) k = (if k = 2 then [2] else if k = 5 then [3] else if k = 6 then [4] else if k = 8 then [5] else [])"
  "bkts (wit_grow_pool c p) b = (if b = 2 then Some (wit_grow_bkt 3 (wit_new_page 3 HASH_BUCKET_PAGE)) else if b = 3 then Some (wit_grow_bkt 6 c)
     else if b = 4 then Some (wit_grow_bkt 7 (wit_new_page 7 HASH_BUCKET_PAGE)) else if b = 5 then Some (wit_grow_bkt 9 p) else None)"
  "next_bkt (wit_grow_pool c p) = 6" "pgin (wit_grow_pool c p) = pgin wit_pool" "pgout (wit_grow_pool c p) = pgout wit_pool"
  "backing (wit_grow_pool c p) = backing wit_pool" "umem (wit_grow_pool c p) = umem wit_pool" "maxpgno (wit_grow_pool c p) = maxpgno wit_pool"
  by (auto simp: wit_grow_pool_def wit_grow_bkt_def wit_db_bkt_def num_waiters_def bkt_pgno_def bkt_page_def pinned_def dirty_def
      bkt_flags_def page_size_def wit_pool_fields ffdb_consts FLAG_ISSET_def)

lemma wit_grow_native:
  assumes "wit_page_ok c" "wit_page_ok p"
  shows "native.ready wit_hdr512 (wit_grow_pool c p)"
proof -
  have k: "HASHKEY 3 = 2" "HASHKEY 6 = 5" "HASHKEY 7 = 6" "HASHKEY 9 = 8" by (simp_all add: HASHKEY_def)
  have "pool_struct (wit_grow_pool c p)"
    by (auto simp: pool_struct_def wit_grow_pool_fields k split: if_splits)
  moreover have "bkt_ok (page_good wit_hdr512) page_content (wit_grow_pool c p) b" if "b \<in> {2, 3, 4, 5}" for b
    using that assms by (auto simp: bkt_ok_def wit_grow_pool_fields wit_new_page_fields page_good_def wit_hdr_fields wit_page_ok_def)
  ultimately have "native_pool wit_hdr512 (wit_grow_pool c p)"
    by (simp add: native_pool_def pool_inv_def wit_grow_pool_fields wit_pool_fields wit_hdr_fields del: One_nat_def)
  then show ?thesis by (simp add: native_ready)
qed

lemma wit_grow_held: "theld (wit_grow c p) = Map.empty"
  by (simp add: fun_eq_iff held_def wit_grow_fields wit_grow_pool_fields)

lemma wit_grow_session:
  assumes "wit_page_ok c" "wit_page_ok p"
  shows "tsession (wit_grow c p) {}"
proof -
  have "h_bsize wit_grow_hdr = h_bsize wit_hdr512" "h_lorder wit_grow_hdr = h_lorder wit_hdr512"
    by (simp_all add: wit_grow_hdr_fields wit_hdr_fields)
  then have e: "native.session wit_grow_hdr = native.session wit_hdr512" by (rule native_cong)
  have "dom (held (wit_grow_pool c p)) = {}" using wit_grow_held [of c p] by (simp add: wit_grow_fields)
  then have "native.session wit_hdr512 (wit_grow_pool c p) {}"
    using wit_grow_native [OF assms] by (simp add: native.session_def native.settled_def wit_grow_pool_fields)
  then show ?thesis by (simp add: tsession_def wit_grow_fields e)
qed

lemma wit_grow_view:
  assumes "wit_page_ok c" "wit_page_ok p"
  shows "tview (wit_grow c p) 3 = Some (wit_new_page 3 HASH_BUCKET_PAGE)" "tview (wit_grow c p) 6 = Some c"
    "tview (wit_grow c p) 7 = Some (wit_new_page 7 HASH_BUCKET_PAGE)" "tview (wit_grow c p) 9 = Some p"
    "\<And>x. tview (wit_grow c p) 8 = Some x \<Longrightarrow> PTYPE x = ucast HASH_DELETED_PAGE" "cached (wit_grow_pool c p) 8 = None" "n \<in> {3, 6, 7, 9} \<Longrightarrow> known (wit_grow_pool c p) n"
proof -
  note s = native.ready_struct [OF wit_grow_native [OF assms]]
  have k: "cached (wit_grow_pool c p) 3 = Some 2" "cached (wit_grow_pool c p) 6 = Some 3" "cached (wit_grow_pool c p) 7 = Some 4"
    "cached (wit_grow_pool c p) 9 = Some 5"
    using cached_Some [OF s] by (simp_all add: wit_grow_pool_fields)
  then show "tview (wit_grow c p) 3 = Some (wit_new_page 3 HASH_BUCKET_PAGE)" "tview (wit_grow c p) 6 = Some c"
    "tview (wit_grow c p) 7 = Some (wit_new_page 7 HASH_BUCKET_PAGE)" "tview (wit_grow c p) 9 = Some p"
    using assms by (simp_all add: page_view_def pool_view_def wit_grow_fields wit_grow_pool_fields wit_page_ok_def wit_new_page_fields)
  show c8: "cached (wit_grow_pool c p) 8 = None"
  proof (rule ccontr)
    assume "cached (wit_grow_pool c p) 8 \<noteq> None"
    then obtain b where "cached (wit_grow_pool c p) 8 = Some b" by blast
    then have "b \<in> {2, 3, 4, 5}" "bkt_pgno (wit_grow_pool c p) b = 8"
      using cached_Some [OF s] by (simp_all add: wit_grow_pool_fields)
    then show False by (auto simp: wit_grow_pool_fields)
  qed
  have "disk_page (wit_grow_pool c p) 8 = disk_page wit_pool 8"
    by (simp add: disk_page_def wit_grow_pool_fields) (simp add: page_size_def wit_pool_fields)
  then show "PTYPE x = ucast HASH_DELETED_PAGE" if "tview (wit_grow c p) 8 = Some x" for x
    using that c8 by (auto simp: page_view_def pool_view_def wit_grow_fields wit_page_readable ffdb_init_page_def Let_def page_fields
      page_content_def ffdb_consts)
  show "n \<in> {3, 6, 7, 9} \<Longrightarrow> known (wit_grow_pool c p) n"
    by (auto simp: known_def wit_grow_pool_fields)
qed

section \<open>Two pairs in the bucket that is split\<close>

definition wit_v1 :: mem where "wit_v1 = [10, 20, 30, 40]"
definition wit_v2 :: mem where "wit_v2 = [5, 6]"

definition wit_ptr :: "mem \<Rightarrow> u32 \<Rightarrow> datap" where
  "wit_ptr v start = new_datap wit_db (dbt_of v) 9 start
     \<lparr>dp_first = 0, dp_offset = 0, dp_len = of_nat (length v), dp_chksum = ffdb_crc32_checksum 0 v\<rparr>"

text \<open>A bucket page with both pairs: as \<open>write_key\<close> and \<open>write_datap\<close> leave it.\<close>

lemma wit_pair_page:
  "\<exists>c. wit_page_ok c \<and> bucket_wf c \<and> packed c \<and> CURR_PGNO c = 6 \<and> NEXT_PGNO c = INVALID_PGNO \<and> PTYPE c = ucast HASH_BUCKET_PAGE \<and>
     page_pairs c = [([1], d1), ([3], d2)]"
proof -
  let ?n = "wit_new_page 6 HASH_BUCKET_PAGE"
  have wf: "bucket_wf ?n" "packed ?n" "page_num ?n = 0" "page_top ?n = 512"
    by (simp_all add: packed_def bucket_wf_def page_num_def page_top_def pair_pos_def wit_new_page_fields wit_page_types PAGE_OVERHEAD_def page_keys_def page_pairs_def)
  have k: "dt_size (dbt_of [x]) = 1" "dbt_ok (dbt_of [x])" "dbt_bytes (dbt_of [x]) = [x]" for x by simp_all
  have fit: "PAIRFITS ?n (dt_size (dbt_of [1]))"
    using wf by (simp add: PAIRFITS_nat pair_pos_def wit_new_page_fields PAGE_OVERHEAD_def)
  obtain q where q: "bucket_wf q" "length q = 512" "page_pairs q = [([1], d1)]" "CURR_PGNO q = 6" "NEXT_PGNO q = INVALID_PGNO"
    "PAGE_SIGN q = FFDB_PAGE_MAGIC" "PTYPE q = ucast HASH_BUCKET_PAGE" "packed q"
    using write_pair_packed [OF wf(1) fit _ k(2), of d1] wf
    by (auto simp: Let_def wit_new_page_fields wit_page_types page_pairs_def)
  have num: "page_num q = 1" using arg_cong [OF q(3), of length] by simp
  moreover have "page_top q + pair_room 1 = 512"
    using q(2,3,8) by (simp add: packed_def keys_room_def page_keys_def)
  ultimately have fit2: "PAIRFITS q (dt_size (dbt_of [3]))"
    using q(1) by (simp add: PAIRFITS_nat pair_pos_def pair_room_def PAGE_OVERHEAD_def PAIR_OVERHEAD_def)
  obtain r where r: "bucket_wf r" "length r = 512" "page_pairs r = [([1], d1), ([3], d2)]" "CURR_PGNO r = 6" "NEXT_PGNO r = INVALID_PGNO"
    "PAGE_SIGN r = FFDB_PAGE_MAGIC" "PTYPE r = ucast HASH_BUCKET_PAGE" "packed r"
    using write_pair_packed [OF q(1) fit2 _ k(2), of d2] q by (auto simp: Let_def)
  have "wit_page_ok (page_content r)" using r(2,6) by (simp add: wit_page_ok_def page_content_def page_fields)
  then show ?thesis using r by (intro exI [of _ "page_content r"]) simp
qed

text \<open>A data page with both values: as \<open>write_data_on_page\<close> leaves it.\<close>

lemma wit_ptr_fields: "datap_roff wit_db (wit_ptr v start) = start" "datap_len wit_db (wit_ptr v start) = length v"
  "dp_first (wit_ptr v start) = 9" if "length v < 2 ^ 32" "unat start < 2 ^ 20"
proof -
  have f: "flag_ok wit_db" by (simp add: flag_ok_def wit_db_fields)
  show "datap_roff wit_db (wit_ptr v start) = start" "datap_len wit_db (wit_ptr v start) = length v" "dp_first (wit_ptr v start) = 9"
    unfolding wit_ptr_def
    using new_header_ok(2,3,4) [OF f, of "item_of 0 0" 0 0 "dbt_of v" start] that by (simp_all add: item_of_def)
qed

lemma wit_data_bits: "bsz wit_db = 512" "flag_ok wit_db"
  by (simp_all add: bsz_def flag_ok_def wit_db_fields wit_db_hdr_fields)

lemma wit_datum_below:
  assumes "datum wit_db V it (wit_ptr v start) [] v" "length v < 2 ^ 32" "unat start < 2 ^ 20"
    "unat start + BIG_DATA_OVERHEAD + length v \<le> lim" "lim \<le> 512"
  shows "datum_below wit_db V 9 lim (wit_ptr v start)"
proof -
  have "small_datum wit_db (wit_ptr v start)" using assms by (simp add: small_datum_def wit_ptr_fields wit_data_bits)
  note f = small_foot [OF assms(1) this]
  show ?thesis unfolding datum_below_foot [OF assms(1)] f using assms by (auto simp: span_def wit_ptr_fields)
qed

lemma wit_data_page:
  "\<exists>p. wit_page_ok p \<and> CURR_PGNO p = 9 \<and> PTYPE p = ucast HASH_DATA_PAGE \<and> 78 \<le> free_from 512 p \<and> free_from 512 p \<le> 512 \<and>
     (HIGHEST_FREE p = 0 \<or> 32 \<le> unat (HIGHEST_FREE p)) \<and> BIG_DATA_OVERHEAD * unat (NUM_ENT p) \<le> free_from 512 p \<and>
     (\<forall>V. V 9 = Some p \<longrightarrow> datum wit_db V (item_of 6 0) (wit_ptr wit_v1 32) [] wit_v1 \<and>
        datum wit_db V (item_of 6 1) (wit_ptr wit_v2 56) [] wit_v2)"
proof -
  let ?m = "wit_new_page 9 HASH_DATA_PAGE" and ?v1 = "dbt_of wit_v1" and ?v2 = "dbt_of wit_v2"
  have v: "dbt_ok ?v1" "dbt_ok ?v2" "length wit_v1 = 4" "length wit_v2 = 2" by (simp_all add: wit_v1_def wit_v2_def)
  have m: "OFFSET ?m = 32" "NUM_ENT ?m = 0" "length ?m = 512" "page_content ?m = ?m" "CURR_PGNO ?m = 9" "PTYPE ?m = ucast HASH_DATA_PAGE"
    "PAGE_SIGN ?m = FFDB_PAGE_MAGIC"
    by (simp_all add: wit_new_page_fields wit_page_types)
  have t: "BIG_DATA_TOTAL_SIZE ?v1 = 24" "BIG_DATA_TOTAL_SIZE ?v2 = 22" by (simp_all add: BIG_DATA_TOTAL_SIZE_def ffdb_consts v)
  let ?h1 = "new_data_header wit_db 6 0 4" and ?h2 = "new_data_header wit_db 6 1 2"
  obtain q where q: "write_data_on_page 512 32 ?h1 ?v1 ?m = Some q" "length q = 512" "CURR_PGNO q = 9" "PAGE_SIGN q = FFDB_PAGE_MAGIC"
    "PTYPE q = ucast HASH_DATA_PAGE" "NUM_ENT q = 1" "OFFSET q = next_data_pos 512 32 24"
    using write_data_page [of 32 ?v1 ?m 512 ?h1] m v t by auto
  have n1: "next_data_pos 512 32 24 = 56" "next_data_pos 512 56 22 = 80" by (simp_all add: next_data_pos_def Let_def ALIGN_ADDR_def ffdb_consts)
  define p where "p = page_content q"
  have p: "length p = 512" "CURR_PGNO p = 9" "PAGE_SIGN p = FFDB_PAGE_MAGIC" "PTYPE p = ucast HASH_DATA_PAGE" "NUM_ENT p = 1" "OFFSET p = 56"
    "page_content p = p" "free_from 512 p = 56"
    using q n1 by (simp_all add: p_def page_content_def page_fields free_from_def)
  obtain r where r: "write_data_on_page 512 56 ?h2 ?v2 p = Some r" "length r = 512" "CURR_PGNO r = 9" "PAGE_SIGN r = FFDB_PAGE_MAGIC"
    "PTYPE r = ucast HASH_DATA_PAGE" "OFFSET r = next_data_pos 512 56 22"
    using write_data_page [of 56 ?v2 p 512 ?h2] p v t by auto
  define c where "c = page_content r"
  have c: "length c = 512" "CURR_PGNO c = 9" "PAGE_SIGN c = FFDB_PAGE_MAGIC" "PTYPE c = ucast HASH_DATA_PAGE" "page_content c = c"
    using r by (simp_all add: c_def page_content_def page_fields)
  have G: "grown (free_from 512 p) p c" "HIGHEST_FREE c = 0 \<or> 32 \<le> unat (HIGHEST_FREE c)"
    "BIG_DATA_OVERHEAD * unat (NUM_ENT c) \<le> free_from 512 c" "unat (HIGHEST_FREE p) + BIG_DATA_TOTAL_SIZE ?v2 \<le> free_from 512 c"
    using data_page_grown [of 512 p ?h2 ?v2 p r] r(1) p v t unfolding c_def by (simp_all add: ffdb_consts)
  have top: "free_from 512 c = 80" using r(6) n1 by (simp add: free_from_def c_def)
  have "datum wit_db V (item_of 6 0) (wit_ptr wit_v1 32) [] wit_v1 \<and> datum wit_db V (item_of 6 1) (wit_ptr wit_v2 56) [] wit_v2"
    if V: "V 9 = Some c" for V
  proof -
    let ?V = "V(9 \<mapsto> p)"
    have d1: "datum wit_db ?V (item_of 6 0) (wit_ptr wit_v1 32) [] (dbt_bytes ?v1)"
      unfolding wit_ptr_def
      by (rule datum_written [where kp = 6 and ki = 0 and q = q and m = ?m])
         (use q(1) m v t wit_data_bits in \<open>simp_all add: item_of_def p_def INVALID_minus\<close>)
    have "datum_below wit_db ?V 9 56 (wit_ptr wit_v1 32)"
      by (rule wit_datum_below) (use d1 v in \<open>simp_all add: ffdb_consts\<close>)
    then have "datum wit_db V (item_of 6 0) (wit_ptr wit_v1 32) [] wit_v1"
      using datum_grown [of ?V 9 p V c 56 56 wit_db "wit_ptr wit_v1 32" "[]"] d1 V G(1) p wit_data_bits v
      by (simp add: wit_ptr_fields)
    moreover have "datum wit_db V (item_of 6 1) (wit_ptr wit_v2 56) [] (dbt_bytes ?v2)"
      unfolding wit_ptr_def
      by (rule datum_written [where kp = 6 and ki = 1 and q = r and m = p])
         (use r(1) p v t V wit_data_bits in \<open>simp_all add: item_of_def c_def INVALID_minus\<close>)
    ultimately show ?thesis by simp
  qed
  then show ?thesis using c G top p(6) t by (intro exI [of _ c]) (simp add: wit_page_ok_def)
qed

text \<open>The two pairs are in bucket 1; the second one belongs into bucket 3 once there is one.\<close>

definition wit_pairs :: "mem \<Rightarrow> bool" where
  "wit_pairs c \<longleftrightarrow> wit_page_ok c \<and> bucket_wf c \<and> packed c \<and> CURR_PGNO c = 6 \<and> NEXT_PGNO c = INVALID_PGNO \<and> PTYPE c = ucast HASH_BUCKET_PAGE \<and>
     page_pairs c = [([1], wit_ptr wit_v1 32), ([3], wit_ptr wit_v2 56)]"

definition wit_chains :: "mem \<Rightarrow> (pgno \<times> mem) list list" where
  "wit_chains c = [[(3, wit_new_page 3 HASH_BUCKET_PAGE)], [(6, c)], [(7, wit_new_page 7 HASH_BUCKET_PAGE)]]"

lemma log2_2: "ffdb_log2 2 = Some 1" and log2_3: "ffdb_log2 3 = Some 2"
  by (simp_all add: ffdb_log2_def log2_loop.simps)

lemma wit_grow_pages: "BUCKET_TO_PAGE wit_grow_hdr 0 = Some 3" "BUCKET_TO_PAGE wit_grow_hdr 1 = Some 6"
  "BUCKET_TO_PAGE wit_grow_hdr 2 = Some 7" "BUCKET_TO_PAGE wit_grow_hdr 3 = Some 8"
  by (simp_all add: BUCKET_TO_PAGE_def wit_grow_hdr_fields table_get_def log2_1 log2_2 log2_3 log2_4 POW2_def)

lemma wit_grow_bucket: "bucket_of (wit_grow c p) [1] = 1" "bucket_of (wit_grow c p) [3] = 1"
  by (simp_all add: bucket_of_def ffdb_call_hash_def wit_grow_fields wit_grow_hdr_fields ham_func5_def)

lemma wit_grow_masks: "masks_ok wit_grow_hdr 1"
  by (simp add: masks_ok_def wit_grow_hdr_fields mask_eq_exp_minus_1)

lemma wit_new_bucket: "bucket_wf (wit_new_page n HASH_BUCKET_PAGE)" "page_num (wit_new_page n t) = 0"
  by (simp_all add: bucket_wf_def page_num_def page_top_def pair_pos_def wit_new_page_fields wit_page_types PAGE_OVERHEAD_def)

lemma wit_pairs_spots:
  assumes "wit_pairs c"
  shows "page_num c = 2" "all_spots (wit_chains c) = [(6, c, 0), (6, c, 1)]" "chain_spots [(6, c)] = [(6, c, 0), (6, c, 1)]" "page_pair c 0 = ([1], wit_ptr wit_v1 32)" "page_pair c (Suc 0) = ([3], wit_ptr wit_v2 56)"
proof -
  have pp: "page_pairs c = [([1], wit_ptr wit_v1 32), ([3], wit_ptr wit_v2 56)]" using assms by (simp add: wit_pairs_def)
  have "page_num c = length (page_pairs c)" by simp
  then show n: "page_num c = 2" by (simp add: pp)
  show "page_pair c 0 = ([1], wit_ptr wit_v1 32)" "page_pair c (Suc 0) = ([3], wit_ptr wit_v2 56)"
    using nth_page_pairs [of 0 c] nth_page_pairs [of 1 c] n by (simp_all add: pp)
  have "[0..<2] = [0, 1::nat]" by (simp add: upt_rec)
  then show "all_spots (wit_chains c) = [(6, c, 0), (6, c, 1)]" "chain_spots [(6, c)] = [(6, c, 0), (6, c, 1)]"
    by (simp_all add: wit_chains_def all_spots_def chain_spots_def spots_def wit_new_bucket n)
qed

lemma wit_grow_tidy:
  assumes c: "wit_pairs c" and p: "wit_page_ok p"
  shows "tidy (wit_grow c p) (wit_chains c)"
proof -
  have ok: "wit_page_ok c" using c by (simp add: wit_pairs_def)
  note V = wit_grow_view [OF ok p] and S = wit_pairs_spots [OF c]
  have "NUM_ENT c \<noteq> 0" using S(1) by (auto simp: page_num_def)
  then have b: "buckets wit_grow_hdr (tview (wit_grow c p)) 0 (wit_chains c)"
    unfolding wit_chains_def
    using V(1-3) c wit_grow_pages
    by (simp add: bucket_chain_def blank_header_def wit_new_bucket wit_new_page_fields wit_page_types wit_pairs_def INVALID_minus wit_grow_hdr_fields)
  have pl: "placed (wit_grow c p) 0 (wit_chains c)"
    using S wit_grow_bucket [of c p] by (simp add: wit_chains_def chain_spots_def [of "[_]"] spots_def wit_new_bucket spot_key_def)
  have d: "distinct (map spot_key (all_spots (wit_chains c)))" by (simp add: S spot_key_def)
  have d2: "distinct (map fst (concat (wit_chains c)))" by (simp add: wit_chains_def)
  have "bucket_of (wit_grow c p) k \<le> h_max_bucket wit_grow_hdr" for k
    unfolding bucket_of_def wit_grow_fields by (rule call_hash_in_range [OF wit_grow_masks])
  then show ?thesis using b pl d d2 by (simp add: tidy_def wit_grow_fields)
qed

definition wit_values :: "mem \<Rightarrow> bool" where
  "wit_values p \<longleftrightarrow> wit_page_ok p \<and> CURR_PGNO p = 9 \<and> PTYPE p = ucast HASH_DATA_PAGE \<and> 78 \<le> free_from 512 p \<and> free_from 512 p \<le> 512 \<and>
     (HIGHEST_FREE p = 0 \<or> 32 \<le> unat (HIGHEST_FREE p)) \<and> BIG_DATA_OVERHEAD * unat (NUM_ENT p) \<le> free_from 512 p \<and>
     (\<forall>V. V 9 = Some p \<longrightarrow> datum wit_db V (item_of 6 0) (wit_ptr wit_v1 32) [] wit_v1 \<and>
        datum wit_db V (item_of 6 1) (wit_ptr wit_v2 56) [] wit_v2)"

lemma wit_grow_same: "datum (wit_grow c p) = datum wit_db" "datum_below (wit_grow c p) = datum_below wit_db" "bsz (wit_grow c p) = 512"
  "flag_ok (wit_grow c p)" "span (wit_grow c p) = span wit_db" "small_datum (wit_grow c p) = small_datum wit_db"
proof -
  have v: "h_version (hdr (wit_grow c p)) = h_version (hdr wit_db)" "h_bsize (hdr (wit_grow c p)) = h_bsize (hdr wit_db)"
    "data_valid_flag (wit_grow c p) = data_valid_flag wit_db"
    by (simp_all add: wit_grow_fields wit_grow_hdr_fields wit_db_fields wit_db_hdr_fields)
  show "datum (wit_grow c p) = datum wit_db" "datum_below (wit_grow c p) = datum_below wit_db" "bsz (wit_grow c p) = 512" "flag_ok (wit_grow c p)"
    using datum_same [OF v] wit_data_bits by simp_all
  show "span (wit_grow c p) = span wit_db" "small_datum (wit_grow c p) = small_datum wit_db"
    using datap_same [OF v(1,2)] by (simp_all add: fun_eq_iff span_def small_datum_def)
qed

lemma wit_grow_compact:
  assumes c: "wit_pairs c" and p: "wit_values p"
  shows "kept_compact (wit_grow c p) [[1] \<mapsto> wit_v1, [3] \<mapsto> wit_v2]"
proof -
  have ok: "wit_page_ok c" "wit_page_ok p" using c p by (simp_all add: wit_pairs_def wit_values_def)
  note V = wit_grow_view [OF ok] and S = wit_pairs_spots [OF c] and e = wit_grow_same [of c p]
  have len: "length wit_v1 = 4" "length wit_v2 = 2" by (simp_all add: wit_v1_def wit_v2_def)
  have d: "datum wit_db (tview (wit_grow c p)) (item_of 6 0) (wit_ptr wit_v1 32) [] wit_v1"
    "datum wit_db (tview (wit_grow c p)) (item_of 6 1) (wit_ptr wit_v2 56) [] wit_v2"
    "78 \<le> free_from 512 p" "free_from 512 p \<le> 512"
    using p V(4) by (simp_all add: wit_values_def)
  have below: "datum_below wit_db (tview (wit_grow c p)) 9 (free_from 512 p) (wit_ptr wit_v1 32)"
    "datum_below wit_db (tview (wit_grow c p)) 9 (free_from 512 p) (wit_ptr wit_v2 56)"
    using wit_datum_below [OF d(1)] wit_datum_below [OF d(2)] d(3,4) len by (simp_all add: ffdb_consts)
  show ?thesis
  proof (rule compact_intro)
    show "quiet (wit_grow c p)"
      unfolding quiet_def e(3) wit_grow_fields
      by (intro conjI allI impI wit_grow_session wit_grow_held [unfolded wit_grow_fields] ok e(4) ham_func5_local) simp_all
    show "tidy (wit_grow c p) (wit_chains c)" by (rule wit_grow_tidy [OF c ok(2)])
    show "data_page_ok (wit_grow c p) p"
      using p V(4,7) by (simp add: data_page_ok_def wit_grow_fields wit_grow_hdr_fields e(3) wit_values_def INVALID_minus table_get_def ffdb_consts)
    show "known (mp (wit_grow c p)) n" if "BUCKET_TO_PAGE (hdr (wit_grow c p)) (bucket_of (wit_grow c p) x) = Some n" for x n
    proof -
      have "bucket_of (wit_grow c p) x \<le> 2"
        unfolding bucket_of_def wit_grow_fields
        using call_hash_in_range [OF wit_grow_masks] by (simp add: wit_grow_hdr_fields)
      moreover have "y = 0 \<or> y = 1 \<or> y = 2" if "y \<le> 2" for y :: u32
      proof -
        have "unat y \<le> 2" using that by (simp add: word_le_nat_alt)
        then consider "unat y = 0" | "unat y = 1" | "unat y = 2" by linarith
        then show ?thesis by cases (simp_all only: word_unat_eq_iff, simp_all)
      qed
      ultimately consider "bucket_of (wit_grow c p) x = 0" | "bucket_of (wit_grow c p) x = 1" | "bucket_of (wit_grow c p) x = 2"
        by blast
      then have "n \<in> {3, 6, 7, 9}" using that wit_grow_pages by cases (simp_all add: wit_grow_fields)
      then show ?thesis unfolding wit_grow_fields by (rule V(7))
    qed
    fix s assume s: "s \<in> set (all_spots (wit_chains c))"
    then show "small_datum (wit_grow c p) (spot_ptr s) \<and> (\<exists>v ns. [[1] \<mapsto> wit_v1, [3] \<mapsto> wit_v2] (spot_key s) = Some v \<and>
        datum (wit_grow c p) (tview (wit_grow c p)) (spot_item s) (spot_ptr s) ns v \<and>
        datum_below (wit_grow c p) (tview (wit_grow c p)) (curr_dpage (wit_grow c p)) (free_from (bsz (wit_grow c p)) p) (spot_ptr s))"
      using d(1,2) below unfolding e wit_grow_fields S(2)
      by (auto simp: spot_key_def spot_ptr_def spot_item_def S(4,5) small_datum_def wit_ptr_fields len wit_data_bits BIG_DATA_OVERHEAD_def)
    fix u assume "u \<in> set (all_spots (wit_chains c))" "spot_key s \<noteq> spot_key u"
    then show "span (wit_grow c p) (spot_ptr s) \<inter> span (wit_grow c p) (spot_ptr u) = {}"
      using s unfolding e S(2)
      by (auto simp: spot_key_def spot_ptr_def S(4,5) span_def wit_ptr_fields len BIG_DATA_OVERHEAD_def)
  next
    fix x :: mem and v assume "[[1] \<mapsto> wit_v1, [3] \<mapsto> wit_v2] x = Some v"
    then show "x \<in> spot_key ` set (all_spots (wit_chains c))"
      by (auto simp: S(2) S(4,5) spot_key_def split: if_splits)
  qed
qed

lemma wit_maxpgno: "maxpgno wit_pool = 0"
  by (simp add: wit_pool_def pagepool_filter_def pagepool_open_def pagepool_create_def wit_os_def
      FLAG_ISSET_def ffdb_consts IS_VALID_PAGESIZE_def FFDB_POWER_OF_TWO_def attach_file_def)

lemma wit_grow_split:
  assumes c: "wit_pairs c" and p: "wit_values p"
  shows "can_split (wit_grow c p) 1 3"
proof -
  have ok: "wit_page_ok c" "wit_page_ok p" using c p by (simp_all add: wit_pairs_def wit_values_def)
  note V = wit_grow_view [OF ok]
  have "fresh_page (wit_grow c p) 8"
    using V(5,6) by (auto simp: fresh_page_def wit_grow_fields INVALID_minus wit_grow_pool_fields wit_maxpgno ffdb_consts)
  then show ?thesis
    using V(2,7) c wit_grow_pages by (simp add: can_split_def wit_grow_fields wit_grow_same wit_pairs_def)
qed

lemma wit_grow_expand: "expand_header wit_grow_hdr = Some (1, 3, False, wit_grow_hdr\<lparr>h_max_bucket := 3\<rparr>)"
  by (simp add: expand_header_def wit_grow_hdr_def Let_def log2_4)

section \<open>Adding a bucket keeps the map\<close>

text \<open>C4: A table grows without losing anything. When \<open>_ffdb_expand_table\<close> adds a bucket on the
  level in use, whose page is not in use yet, and the bucket it splits is one page with the
  keys packed as adding pairs leaves them, it succeeds: each pair of the old bucket is on
  the page of the bucket it now belongs to, the header of its datum points to it, and the
  grown table represents the same map, so that gets of any keys afterwards return the values
  the table had before.\<close>
theorem expand_keeps_map:
  assumes "kept_compact h f" "masks_ok (hdr h) k" "unat (h_max_bucket (hdr h)) + 1 < 2 ^ 31"
    "expand_header (hdr h) = Some (old, new, False, H)" "can_split h old new" "\<forall>x\<in>set ks. length x < 2 ^ 31"
  shows "\<exists>S S'. ffdb_expand_table h = Some (0, S) \<and> hdr S = H \<and> kept_compact S f \<and>
    get_all store_get S ks = Some (map f ks, S') \<and> kept_compact S' f"
  using expand_kept [OF assms(1-5)] write_table.get_all_law [OF _ assms(6)] by blast

theorem expand_keeps_map_witness:
  "\<exists>h S S'. ffdb_expand_table h = Some (0, S) \<and> h_max_bucket (hdr h) = 2 \<and> h_max_bucket (hdr S) = 3 \<and>
    ffdb_call_hash (ht_hash h) (hdr h) [3] 1 = 1 \<and> ffdb_call_hash (ht_hash h) (hdr S) [3] 1 = 3 \<and>
    get_all store_get S [[3], [1], [2]] = Some ([Some [5, 6], Some [10, 20, 30, 40], None], S')"
proof -
  obtain p where p: "wit_values p" using wit_data_page by (auto simp: wit_values_def)
  obtain c where c: "wit_pairs c" using wit_pair_page [of "wit_ptr wit_v1 32" "wit_ptr wit_v2 56"] by (auto simp: wit_pairs_def)
  have H: "hdr (wit_grow c p) = wit_grow_hdr" by (rule wit_grow_fields)
  obtain S S' where S: "ffdb_expand_table (wit_grow c p) = Some (0, S)" "hdr S = wit_grow_hdr\<lparr>h_max_bucket := 3\<rparr>"
    "get_all store_get S [[3], [1], [2]] = Some ([Some wit_v2, Some wit_v1, None], S')"
    using expand_keeps_map [OF wit_grow_compact [OF c p] wit_grow_masks [folded H] _ wit_grow_expand [folded H] wit_grow_split [OF c p],
      of "[[3], [1], [2]]"]
    by (auto simp: wit_grow_fields wit_grow_hdr_fields simp del: get_all.simps)
  moreover have "ffdb_call_hash ham_func5 wit_grow_hdr [3] 1 = 1" "ffdb_call_hash ham_func5 (wit_grow_hdr\<lparr>h_max_bucket := 3\<rparr>) [3] 1 = 3"
    by (simp_all add: ffdb_call_hash_def wit_grow_hdr_fields ham_func5_def)
  ultimately show ?thesis
    by (intro exI [of _ "wit_grow c p"] exI [of _ S] exI [of _ S'])
       (simp add: wit_grow_fields wit_grow_hdr_fields wit_v1_def wit_v2_def del: get_all.simps)
qed

end
