(* ===== verification/Spec2Isabelle.thy ===== *)
theory Spec2Isabelle
  imports FFDB_Prelude FFDB_HashFunc FFDB_Page FFDB_Swap FFDB_MergeSort FFDB_PagePool
    FFDB_PoolView FFDB_PoolNative FFDB_Hash FFDB_Store FFDB_Data FFDB_Bucket FFDB_Rearrange
    FFDB_BucketPage FFDB_Meta FFDB_Info FFDB_Cursor FFDB_Table
    FFDB_PoolFrame FFDB_Session FFDB_TableSession FFDB_Lookup FFDB_Datum FFDB_Database FFDB_Map FFDB_Footprint
    FFDB_Scan FFDB_Replace FDB_Basics FDB_Objects FDB_Functions FDB_DataStore FDB_ReadAll FDB_AllConf FDB_Merger FDB_Multi FDB_Iterator
    FDB_Update FFDB_Split FFDB_Grow FFDB_Expand
begin

text \<open>
  A model of FileDB: the C library \<open>src/filehash/\<close>, a linear-hashing key/value store in one
  file, and the C++ layer \<open>src/src/\<close> above it, which lattice programs use to keep one value,
  or one value for each gauge configuration, under serialized keys.

  \<^bold>\<open>The parts and how they interact.\<close>
  The library has four layers. The \<^emph>\<open>page pool\<close> (\<open>ffdb_pagepool.c\<close>) caches the pages of
  the file; its two page filters swap bytes and check or set the checksum of a page when it
  comes in and goes out. The \<^emph>\<open>page store\<close> (first half of \<open>ffdb_page.c\<close>) gets, makes and puts
  pages through the pool, says which page belongs to a bucket, and keeps the lists of free
  pages. \<^emph>\<open>Bucket pages\<close> hold keys with pointers to data, \<^emph>\<open>data pages\<close> hold the data, on
  chains of pages when they are large. The \<^emph>\<open>database\<close> (\<open>ffdb_hash.c\<close>, \<open>ffdb_db.c\<close>) has the
  header of the file, the hash address of a key, growing the table, get, put, cursors, sync,
  close and open. In the C++ layer, functions on a table (\<open>DBFunc\<close>) write and read objects
  through serialization; stores of one configuration, of all configurations, and over
  several files build on them, and so do the merger and the iterator over the keys.

  \<^bold>\<open>Theories.\<close> The names of definitions are those of the C functions, structures and macros,
  with the state (\<open>htab\<close> for \<open>ffdb_htab_t\<close>, \<open>pagepool\<close> for \<open>ffdb_pagepool_t\<close>) passed in and
  returned.
  \<^item> \<open>FFDB_Prelude\<close>: machine words, memory as a list of bytes, little-endian loads and stores.
  \<^item> \<open>FFDB_HashFunc\<close>: \<open>ffdb_hash_func.c\<close>, the hash functions, the checksum, the logarithm.
  \<^item> \<open>FFDB_Page\<close>: the layout of pages (\<open>ffdb_page.h\<close>), new pages, the page filters;
    \<open>FFDB_Swap\<close>: the filters as a codec.
  \<^item> \<open>FFDB_MergeSort\<close>, \<open>FFDB_PagePool\<close>: the merge sort of the flush and \<open>ffdb_pagepool.c\<close>. The
    hash queues and the LRU queue are lists of bucket numbers, the buckets are a map.
    \<open>FFDB_PoolView\<close>, \<open>FFDB_PoolNative\<close>, \<open>FFDB_PoolFrame\<close>, \<open>FFDB_Session\<close>: the content of a page
    as a client of the pool sees it, the invariant, and what each operation does to them.
  \<^item> \<open>FFDB_Hash\<close>: hash address, split and page of a bucket (\<open>ffdb_hash.c\<close>, \<open>ffdb_hash.h\<close>).
  \<^item> \<open>FFDB_Store\<close>, \<open>FFDB_Data\<close>, \<open>FFDB_Bucket\<close>, \<open>FFDB_Rearrange\<close>, \<open>FFDB_Info\<close>, \<open>FFDB_Cursor\<close>:
    \<open>ffdb_page.c\<close> in the order of the file: pages, data, pairs and splitting, moving pages when
    a table is closed or opened, user and configuration information, cursors.
  \<^item> \<open>FFDB_Meta\<close>: the header of the file and new tables. \<open>FFDB_Table\<close>: the operations of the
    database.
  \<^item> \<open>FFDB_TableSession\<close>, \<open>FFDB_BucketPage\<close>, \<open>FFDB_Lookup\<close>, \<open>FFDB_Datum\<close>, \<open>FFDB_Database\<close>,
    \<open>FFDB_Map\<close>, \<open>FFDB_Scan\<close>: a bucket page as the list of its pairs, a datum as its bytes, a
    bucket as the list of the pairs along its chain, the table as a map, a walk of a cursor.
    \<open>FFDB_Footprint\<close>, \<open>FFDB_Replace\<close>: the bytes a datum occupies, and putting a key again.
    \<open>FFDB_Split\<close>, \<open>FFDB_Grow\<close>, \<open>FFDB_Expand\<close>: splitting a bucket, adding one to a table, and a
    table of three buckets on which that is evaluated.
  \<^item> \<open>FDB_Basics\<close> (\<open>FileDB.cpp\<close>, \<open>HashFunc.cpp\<close>), \<open>FDB_Objects\<close> (\<open>Serializable.h\<close>,
    \<open>DBString.cpp\<close>), \<open>FDB_Functions\<close> (\<open>DBFunc.h\<close>, \<open>DBFunc.cpp\<close>), \<open>FDB_DataStore\<close>
    (\<open>ConfDataStoreDB.h\<close>, \<open>ConfDataStoreDBSimple.h\<close>), \<open>FDB_ReadAll\<close> (reading whole tables),
    \<open>FDB_AllConf\<close> (\<open>AllConfStoreDB.h\<close>, \<open>ConfigInfo.cpp\<close>), \<open>FDB_Merger\<close>
    (\<open>ConfDataDBMerger.h\<close>), \<open>FDB_Multi\<close> (the two classes over several files),
    \<open>FDB_Iterator\<close> (\<open>DBCursor.h\<close>, \<open>DBCursor.cpp\<close>), \<open>FDB_Update\<close> (stores whose values are
    written more than once).

  \<^bold>\<open>Conventions.\<close> Words have the width of the C type. What is left of a
  block after a header, \<open>bsize_less\<close>, is the \<open>size_t\<close> difference,
  which wraps for blocks smaller than that. A call whose result is \<open>None\<close> does
  not return normally: it loops for ever or blocks, fails an assertion, exits, aborts, or
  does what C leaves undefined (an access outside a block, a null handle). Loops that may not
  end are \<open>partial_function (option)\<close>, so that a statement with
  \<open>Some\<close> on the left of an equation says that the call returns; no fuel is used.
  Results that the code reports as \<open>-1\<close>, a null pointer or an exception are
  values. The machine is little-endian with 64-bit \<open>long\<close>; where the C++ code
  depends on the size of \<open>long\<close>, both are defined. Parameters are the hash and
  comparison functions of the user, the classes of keys and data, the operating system's part
  of opening a file, and the iteration order of the merger's hash map.

  \<^bold>\<open>What the lemmas show.\<close>
  \<^item> The pool is transparent: under the invariant \<open>pool_inv\<close> every get gives the current content
    whatever was evicted, a changed page that is put back dirty reaches the file with the next
    sync and no other page changes. The contract of the filters is the locale \<open>page_io\<close>,
    interpreted on the filters of the library; the codec lemmas say that they are inverse to
    each other in both byte orders and detect damage.
  \<^item> Linear hashing: growing moves keys out of the split bucket only, keeps the masks, and no two
    buckets share a page.
  \<^item> The table: \<open>represents h f\<close> says that the table \<open>h\<close> stores the finite map \<open>f\<close>. A get is a
    lookup in \<open>f\<close>; a put of a new key that fits is the update of \<open>f\<close>; batches follow by
    induction. \<open>tidy\<close> adds that every chain of pages is finite and that no key occurs twice,
    and then a cursor delivers every pair once; \<open>disjoint_data\<close> says that the data of different
    pairs occupy different bytes; \<open>kept\<close> is all three and is the invariant of sessions.
    Putting a key again overwrites the bytes of its datum where the new value is not longer,
    with the effect of an update of \<open>f\<close>, and is refused where it is longer. The contracts of
    such sessions are the locales \<open>map_store\<close> and \<open>write_store\<close>; \<open>kept_compact\<close> is the invariant
    of the second, a table to write to whose data lie on one page each, for which the last of
    several values written under a key is the one read.
    Growing keeps the map: \<open>split_inv\<close> is the invariant of the loop over the pairs of the bucket
    that is split (each pair seen is on the page of its bucket, and the header of its datum
    points to it), \<open>packed\<close> says that the keys of a page lie without gaps, as adding pairs
    leaves them, so that the half of a page fits a new one, and \<open>compact_intro\<close> gets
    \<open>kept_compact\<close> back from the pairs of the grown table.
    \<open>wit_db\<close> is a concrete table that keeps the empty map and on which all of this is evaluated.
  \<^item> The C++ layer: round trips of serialized objects, stores as maps, ensembles and the change
    of one element of an ensemble, merging in chunks, reference counts of cursors, and the loop from \<open>begin\<close> to \<open>end\<close>.
  \<^item> Error behaviour is proved where it is surprising: puts that leave a page pinned, ensembles
    that cannot be read back, the logarithm that does not return, the first split of a table
    with one bucket.

  \<^bold>\<open>Bounds.\<close> Pages have at most \<open>2^20\<close> bytes (\<open>bucket_wf\<close>), the \<open>MAX_BSIZE\<close> of
  \<open>ffdb_hash.h\<close>. In the theorem about a put, "fits" means: the key goes on the last page of its
  bucket, the value on the current data page, and the table does not grow; overflow
  pages and values over several pages are modelled and can be evaluated, and are covered by the
  lemmas of their components, but not by that theorem. Growing is proved (\<open>can_split\<close>) where the
  new bucket is on the level in use, so that the table does not double, its page is not in use,
  and the bucket that is split has one page; chains that are split and doubling are modelled.
  Overwriting is proved for data that
  lie on their first page; longer ones are modelled. \<open>represents\<close> speaks of tables whose
  bucket pages exist; a newly opened file has none until the first access makes them.

  \<^bold>\<open>Not modelled.\<close> The test programs; printing and debug output; \<open>ffdb_dbpanic\<close>, which installs
  methods that only report an error; the test class \<open>VFloatData\<close>, arrays of floating-point
  numbers, which needs the C conversions of \<open>float\<close>; statistics counters; allocation failure; and
  the locks, for which the pool is a sequence of steps of threads named by numbers, each step
  atomic.
\<close>

end
